(* ===== verification/Prelude.thy ===== *)
theory Prelude
  imports Complex_Main "HOL-Library.AList" "HOL-Library.Word" "HOL-Library.Char_ord"
    "HOL-Library.List_Lexorder" "HOL-Library.Multiset"
begin

text \<open>
  Shared vocabulary of the development: Go's times and durations, Go strings as byte lists,
  Go maps as association lists, and the generic lemmas on them.

  \<^item> A \<open>time.Time\<close> is an integer number of nanoseconds since the Unix epoch; the zero value
    (January 1, year 1, UTC) is \<open>zero_time\<close>, and \<open>IsZero\<close> is equality with it.
  \<^item> A \<open>time.Duration\<close> is an integer number of nanoseconds. \<open>Time.Sub\<close> saturates at the
    bounds of an \<open>int64\<close>, and the code relies on it: the difference to a zero time is the
    largest duration. Settings bound every other duration far below the limits.
  \<^item> A Go map is an association list with distinct keys. Go iterates over a map in an
    unspecified order; the order of the list is that order, so a statement about all lists is
    one about every iteration order.
  \<^item> A Go string is the list of its bytes.
\<close>

named_theorems model_defs \<open>definitions unfolded by the component proofs\<close>
named_theorems inv_intros \<open>preservation lemmas of the component invariants\<close>

subsection \<open>Times and durations\<close>

type_synonym time = int
type_synonym duration = int

abbreviation second :: duration where "second \<equiv> 1000000000"
abbreviation minute :: duration where "minute \<equiv> 60000000000"
abbreviation hour :: duration where "hour \<equiv> 3600000000000"
abbreviation day :: duration where "day \<equiv> 86400000000000"
abbreviation millisecond :: duration where "millisecond \<equiv> 1000000"

definition max_duration :: duration where "max_duration = 9223372036854775807"
definition min_duration :: duration where "min_duration = - 9223372036854775808"

definition zero_time :: time where "zero_time = - 62135596800000000000"

definition is_zero :: "time \<Rightarrow> bool" where "is_zero t \<longleftrightarrow> t = zero_time"

definition time_sub :: "time \<Rightarrow> time \<Rightarrow> duration" where
  "time_sub t u = max min_duration (min max_duration (t - u))"

text \<open>\<open>Time.Truncate\<close> rounds down to a multiple of the duration since the zero time, and
  \<open>Duration.Truncate\<close> towards zero; both leave the value alone for a duration of zero or less.\<close>

definition time_truncate :: "time \<Rightarrow> duration \<Rightarrow> time" where
  "time_truncate t d = (if d \<le> 0 then t else t - (t - zero_time) mod d)"

definition dur_truncate :: "duration \<Rightarrow> duration \<Rightarrow> duration" where
  "dur_truncate x m = (if m \<le> 0 then x else if 0 \<le> x then x - x mod m else - ((- x) - (- x) mod m))"

text \<open>Go's integer division truncates towards zero and its remainder takes the sign of the
  dividend.\<close>

definition go_div :: "int \<Rightarrow> int \<Rightarrow> int" where
  "go_div a b = sgn a * sgn b * (\<bar>a\<bar> div \<bar>b\<bar>)"

definition go_mod :: "int \<Rightarrow> int \<Rightarrow> int" where
  "go_mod a b = a - b * go_div a b"

text \<open>The seconds of a time since the epoch (\<open>Time.Unix\<close>) and the time of given seconds.\<close>

definition unix :: "time \<Rightarrow> int" where "unix t = t div second"
definition of_unix :: "int \<Rightarrow> time" where "of_unix s = s * second"

lemma time_sub_self [simp]: "time_sub t t = 0"
  by (simp add: time_sub_def min_duration_def max_duration_def)

lemma time_sub_mono: "t \<le> t' \<Longrightarrow> time_sub t u \<le> time_sub t' u"
  by (auto simp: time_sub_def)

lemma time_sub_antimono: "u \<le> u' \<Longrightarrow> time_sub t u' \<le> time_sub t u"
  by (auto simp: time_sub_def)

lemma time_sub_exact:
  "min_duration \<le> t - u \<Longrightarrow> t - u \<le> max_duration \<Longrightarrow> time_sub t u = t - u"
  by (simp add: time_sub_def)

lemma time_sub_less_iff:
  "min_duration < d \<Longrightarrow> d \<le> max_duration \<Longrightarrow> time_sub t u < d \<longleftrightarrow> t - u < d"
  by (auto simp: time_sub_def)

lemma time_sub_le_iff:
  "min_duration \<le> d \<Longrightarrow> d < max_duration \<Longrightarrow> time_sub t u \<le> d \<longleftrightarrow> t - u \<le> d"
  by (auto simp: time_sub_def)

lemma time_sub_nonneg: "u \<le> t \<Longrightarrow> 0 \<le> time_sub t u"
  by (simp add: time_sub_def max_duration_def)

lemma time_truncate_le: "time_truncate t d \<le> t"
  by (simp add: time_truncate_def)

lemma time_truncate_gt: "0 < d \<Longrightarrow> t < time_truncate t d + d"
  using pos_mod_bound [of d "t - zero_time"] by (simp add: time_truncate_def)

lemma dur_truncate_le: "0 \<le> x \<Longrightarrow> dur_truncate x m \<le> x"
  by (simp add: dur_truncate_def)

lemma dur_truncate_nonneg: "0 \<le> x \<Longrightarrow> 0 \<le> dur_truncate x m"
  using zmod_le_nonneg_dividend [of x m] by (simp add: dur_truncate_def)

lemma dur_truncate_gt: "0 \<le> x \<Longrightarrow> 0 < m \<Longrightarrow> x < dur_truncate x m + m"
  using pos_mod_bound [of m x] by (simp add: dur_truncate_def)

lemma go_mod_nonneg_eq: "0 \<le> a \<Longrightarrow> 0 < b \<Longrightarrow> go_mod a b = a mod b"
  by (cases "a = 0") (auto simp: go_mod_def go_div_def minus_mult_div_eq_mod)

lemma go_div_nonneg_eq: "0 \<le> a \<Longrightarrow> 0 < b \<Longrightarrow> go_div a b = a div b"
  by (cases "a = 0") (auto simp: go_div_def)

subsection \<open>Strings as bytes\<close>

abbreviation byte :: "char \<Rightarrow> nat" where "byte c \<equiv> of_char c"

definition is_digit :: "char \<Rightarrow> bool" where
  "is_digit c \<longleftrightarrow> 48 \<le> byte c \<and> byte c \<le> 57"

definition lower_char :: "char \<Rightarrow> char" where
  "lower_char c = (if 65 \<le> byte c \<and> byte c \<le> 90 then char_of (byte c + 32) else c)"

definition upper_char :: "char \<Rightarrow> char" where
  "upper_char c = (if 97 \<le> byte c \<and> byte c \<le> 122 then char_of (byte c - 32) else c)"

text \<open>\<open>strings.ToLower\<close>, \<open>ToUpper\<close> and \<open>EqualFold\<close> on ASCII letters; bytes outside ASCII are
  left alone (the Unicode case tables are not modelled).\<close>

definition to_lower :: "string \<Rightarrow> string" where "to_lower s = map lower_char s"
definition to_upper :: "string \<Rightarrow> string" where "to_upper s = map upper_char s"
definition equal_fold :: "string \<Rightarrow> string \<Rightarrow> bool" where
  "equal_fold a b \<longleftrightarrow> to_lower a = to_lower b"

text \<open>\<open>strings.TrimSpace\<close> for the ASCII spaces.\<close>

definition is_space :: "char \<Rightarrow> bool" where
  "is_space c \<longleftrightarrow> byte c \<in> {9, 10, 11, 12, 13, 32}"

definition trim_space :: "string \<Rightarrow> string" where
  "trim_space s = rev (dropWhile is_space (rev (dropWhile is_space s)))"

fun has_prefix :: "string \<Rightarrow> string \<Rightarrow> bool" where
  "has_prefix s [] = True"
| "has_prefix [] (p # ps) = False"
| "has_prefix (c # s) (p # ps) = (c = p \<and> has_prefix s ps)"

definition trim_prefix :: "string \<Rightarrow> string \<Rightarrow> string" where
  "trim_prefix s p = (if has_prefix s p then drop (length p) s else s)"

fun join :: "string \<Rightarrow> string list \<Rightarrow> string" where
  "join sep [] = []"
| "join sep [x] = x"
| "join sep (x # y # ys) = x @ sep @ join sep (y # ys)"

fun split_on :: "char \<Rightarrow> string \<Rightarrow> string list" where
  "split_on d [] = [[]]"
| "split_on d (c # s) =
     (if c = d then [] # split_on d s
      else (case split_on d s of [] \<Rightarrow> [[c]] | w # ws \<Rightarrow> (c # w) # ws))"

text \<open>\<open>utf8.RuneCountInString\<close> of valid UTF-8: the bytes that start a rune.\<close>

definition rune_count :: "string \<Rightarrow> nat" where
  "rune_count s = length (filter (\<lambda>c. \<not> (128 \<le> byte c \<and> byte c < 192)) s)"

text \<open>\<open>strconv.Itoa\<close>.\<close>

fun show_nat :: "nat \<Rightarrow> string" where
  "show_nat n = (if n < 10 then [char_of (48 + n)] else show_nat (n div 10) @ [char_of (48 + n mod 10)])"

declare show_nat.simps [simp del]

definition itoa :: "int \<Rightarrow> string" where
  "itoa i = (if i < 0 then CHR ''-'' # show_nat (nat (- i)) else show_nat (nat i))"

text \<open>\<open>strings.NewReplacer(...).Replace\<close>: left to right without overlaps; at each position the
  first pair in argument order whose key matches is used. The code's keys are never empty.\<close>

fun first_match :: "(string \<times> string) list \<Rightarrow> string \<Rightarrow> (string \<times> string) option" where
  "first_match [] s = None"
| "first_match ((k, v) # ps) s = (if k \<noteq> [] \<and> has_prefix s k then Some (k, v) else first_match ps s)"

lemma first_match_nonempty: "first_match ps s = Some (k, v) \<Longrightarrow> k \<noteq> []"
  by (induction ps s rule: first_match.induct) (auto split: if_splits)

function replacer :: "(string \<times> string) list \<Rightarrow> string \<Rightarrow> string" where
  "replacer ps [] = []"
| "replacer ps (c # s) =
     (case first_match ps (c # s) of
        None \<Rightarrow> c # replacer ps s
      | Some (k, v) \<Rightarrow> v @ replacer ps (drop (length k) (c # s)))"
  by pat_completeness auto
termination
  by (relation "measure (\<lambda>(ps, s). length s)") (auto dest: first_match_nonempty)

lemma has_prefix_iff: "has_prefix s p \<longleftrightarrow> take (length p) s = p"
  by (induction s p rule: has_prefix.induct) auto

lemma has_prefix_append [simp]: "has_prefix (p @ s) p"
  by (simp add: has_prefix_iff)

lemma trim_prefix_append [simp]: "trim_prefix (p @ s) p = s"
  by (simp add: trim_prefix_def)

lemma show_nat_digits: "\<forall>c \<in> set (show_nat n). is_digit c"
proof (induction n rule: show_nat.induct)
  case (1 n)
  show ?case
  proof (cases "n < 10")
    case True
    then show ?thesis by (subst show_nat.simps) (simp add: is_digit_def)
  next
    case False
    with "1.IH" have "\<forall>c \<in> set (show_nat (n div 10)). is_digit c" by simp
    with False show ?thesis
      by (subst show_nat.simps) (auto simp: is_digit_def)
  qed
qed

lemma show_nat_nonempty: "show_nat n \<noteq> []"
  by (subst show_nat.simps) simp

lemma byte_lower_char: "byte (lower_char c) = (if 65 \<le> byte c \<and> byte c \<le> 90 then byte c + 32 else byte c)"
  by (simp add: lower_char_def)

lemma lower_char_idem [simp]: "lower_char (lower_char c) = lower_char c"
  by (simp add: lower_char_def)

lemma to_lower_idem [simp]: "to_lower (to_lower s) = to_lower s"
  by (simp add: to_lower_def)

lemma to_lower_append: "to_lower (a @ b) = to_lower a @ to_lower b"
  by (simp add: to_lower_def)

lemma replacer_no_key:
  assumes "\<forall>k \<in> fst ` set ps. \<forall>i \<le> length s. \<not> has_prefix (drop i s) k"
  shows "replacer ps s = s"
  using assms
proof (induction s)
  case Nil
  then show ?case by simp
next
  case (Cons c s)
  have "first_match ps (c # s) = None"
  proof -
    have "\<forall>k \<in> fst ` set ps. \<not> has_prefix (c # s) k"
      using Cons.prems by force
    then show ?thesis by (induction ps) (auto split: prod.splits)
  qed
  moreover have "\<forall>k \<in> fst ` set ps. \<forall>i \<le> length s. \<not> has_prefix (drop i s) k"
  proof (intro ballI allI impI)
    fix k i assume "k \<in> fst ` set ps" "i \<le> length s"
    then have "\<not> has_prefix (drop (Suc i) (c # s)) k"
      using Cons.prems by (metis Suc_le_mono length_Cons)
    then show "\<not> has_prefix (drop i s) k" by simp
  qed
  ultimately show ?case using Cons.IH by simp
qed

definition digit_val :: "char \<Rightarrow> nat" where "digit_val c = byte c - 48"

definition digits_val :: "string \<Rightarrow> nat" where
  "digits_val s = fold (\<lambda>c n. 10 * n + digit_val c) s 0"

lemma digits_val_append_one: "digits_val (s @ [c]) = 10 * digits_val s + digit_val c"
  by (simp add: digits_val_def)

lemma digits_val_show_nat [simp]: "digits_val (show_nat n) = n"
proof (induction n rule: show_nat.induct)
  case (1 n)
  then show ?case
    by (cases "n < 10"; subst show_nat.simps)
      (simp_all add: digits_val_append_one digits_val_def digit_val_def)
qed

text \<open>\<open>strconv.ParseInt(s, 10, 64)\<close> for text without a plus sign.\<close>

definition parse_int :: "string \<Rightarrow> int option" where
  "parse_int s =
     (let neg = (s \<noteq> [] \<and> hd s = CHR ''-''); t = (if neg then tl s else s);
          v = (if neg then - int (digits_val t) else int (digits_val t))
      in if t \<noteq> [] \<and> list_all is_digit t \<and> - (2 ^ 63) \<le> v \<and> v < 2 ^ 63 then Some v else None)"

lemma parse_int_itoa: "- (2 ^ 63) \<le> i \<Longrightarrow> i < 2 ^ 63 \<Longrightarrow> parse_int (itoa i) = Some i"
proof -
  assume i: "- (2 ^ 63) \<le> i" "i < 2 ^ 63"
  have d: "list_all is_digit (show_nat n)" for n
    using show_nat_digits by (simp add: list_all_iff)
  have "hd (show_nat n) \<noteq> CHR ''-''" for n
    using show_nat_digits [of n] show_nat_nonempty [of n] by (cases "show_nat n") (auto simp: is_digit_def)
  then show ?thesis using i d show_nat_nonempty
    by (auto simp: parse_int_def itoa_def)
qed

subsection \<open>Go maps\<close>

type_synonym ('k, 'v) gomap = "('k \<times> 'v) list"

abbreviation wf_map :: "('k, 'v) gomap \<Rightarrow> bool" where
  "wf_map m \<equiv> distinct (map fst m)"

abbreviation put :: "'k \<Rightarrow> 'v \<Rightarrow> ('k, 'v) gomap \<Rightarrow> ('k, 'v) gomap" where
  "put \<equiv> AList.update"

abbreviation del :: "'k \<Rightarrow> ('k, 'v) gomap \<Rightarrow> ('k, 'v) gomap" where
  "del \<equiv> AList.delete"

definition has_key :: "('k, 'v) gomap \<Rightarrow> 'k \<Rightarrow> bool" where
  "has_key m k \<longleftrightarrow> map_of m k \<noteq> None"

text \<open>Reading a missing key of a Go map gives the zero value of the value type.\<close>

definition get_or :: "'v \<Rightarrow> ('k, 'v) gomap \<Rightarrow> 'k \<Rightarrow> 'v" where
  "get_or z m k = (case map_of m k of None \<Rightarrow> z | Some v \<Rightarrow> v)"

lemma has_key_iff: "has_key m k \<longleftrightarrow> k \<in> fst ` set m"
  by (simp add: has_key_def map_of_eq_None_iff)

lemma map_of_put [simp]: "map_of (put k v m) = (map_of m)(k \<mapsto> v)"
  by (simp add: update_conv')

lemma map_of_del [simp]: "map_of (del k m) = (map_of m)(k := None)"
  by (simp add: delete_conv')

lemma get_or_put [simp]: "get_or z (put k v m) j = (if j = k then v else get_or z m j)"
  by (simp add: get_or_def)

lemma get_or_del [simp]: "get_or z (del k m) j = (if j = k then z else get_or z m j)"
  by (simp add: get_or_def)

lemma has_key_put [simp]: "has_key (put k v m) j \<longleftrightarrow> j = k \<or> has_key m j"
  by (simp add: has_key_def)

lemma has_key_del [simp]: "has_key (del k m) j \<longleftrightarrow> j \<noteq> k \<and> has_key m j"
  by (simp add: has_key_def)

lemma wf_map_put [simp]: "wf_map m \<Longrightarrow> wf_map (put k v m)"
  by (rule distinct_update)

lemma wf_map_del [simp]: "wf_map m \<Longrightarrow> wf_map (del k m)"
  by (rule distinct_delete)

lemma wf_map_filter [simp]: "wf_map m \<Longrightarrow> wf_map (filter P m)"
  by (induction m) auto

lemma length_put: "length (put k v m) = (if has_key m k then length m else Suc (length m))"
  by (induction m) (auto simp: has_key_def)

lemma length_put_le: "length (put k v m) \<le> Suc (length m)"
  by (simp add: length_put)

lemma length_del_le: "length (del k m) \<le> length m"
  by (rule length_delete_le)

lemma length_del:
  assumes "wf_map m"
  shows "length (del k m) = (if has_key m k then length m - 1 else length m)"
proof -
  have "length (del k m) = length (removeAll k (map fst m))"
    by (metis delete_keys length_map)
  also have "\<dots> = length (filter (\<lambda>x. k \<noteq> x) (map fst m))"
    by (simp add: removeAll_filter_not_eq)
  also have "\<dots> = (if k \<in> set (map fst m) then length m - 1 else length m)"
    using assms by (metis distinct_remove1_removeAll length_map length_remove1 removeAll_filter_not_eq)
  finally show ?thesis by (simp add: has_key_iff)
qed

lemma map_of_filter_key:
  "wf_map m \<Longrightarrow> map_of (filter P m) k = (case map_of m k of Some v \<Rightarrow> if P (k, v) then Some v else None | None \<Rightarrow> None)"
  by (induction m) (auto split: option.splits simp: map_of_eq_None_iff dest: map_of_SomeD)

lemma set_del: "set (del k m) = {p \<in> set m. fst p \<noteq> k}"
  by (auto simp: AList.delete_eq)

lemma set_put_subset: "set (put k v m) \<subseteq> insert (k, v) (set m)"
  by (induction m) (auto split: if_splits)

lemma keys_put [simp]: "fst ` set (put k v m) = insert k (fst ` set m)"
  by (metis dom_map_of_conv_image_fst dom_fun_upd map_of_put option.distinct(1))

text \<open>The sum over a map after an entry changed.\<close>

lemma sum_put:
  fixes f :: "'v \<Rightarrow> 'a::comm_monoid_add"
  shows "wf_map m \<Longrightarrow> sum_list (map (f \<circ> snd) (put k v m)) + (case map_of m k of None \<Rightarrow> 0 | Some u \<Rightarrow> f u) =
    sum_list (map (f \<circ> snd) m) + f v"
proof (induction m)
  case (Cons p m)
  obtain a b where p: "p = (a, b)" by fastforce
  show ?case
  proof (cases "a = k")
    case True
    then show ?thesis using p by (simp add: ac_simps)
  next
    case False
    then show ?thesis using Cons p by (simp add: ac_simps)
  qed
qed simp

lemma sum_put_new:
  fixes f :: "'v \<Rightarrow> 'a::comm_monoid_add"
  shows "\<not> has_key m k \<Longrightarrow> sum_list (map (f \<circ> snd) (put k v m)) = sum_list (map (f \<circ> snd) m) + f v"
  by (induction m) (auto simp: has_key_def ac_simps split: if_splits)

lemma sum_del:
  fixes f :: "'v \<Rightarrow> 'a::comm_monoid_add"
  shows "wf_map m \<Longrightarrow> sum_list (map (f \<circ> snd) (del k m)) + (case map_of m k of None \<Rightarrow> 0 | Some u \<Rightarrow> f u) =
    sum_list (map (f \<circ> snd) m)"
proof (induction m)
  case (Cons p m)
  obtain a b where p: "p = (a, b)" by fastforce
  have "k \<notin> fst ` set m \<Longrightarrow> del k m = m" by (simp add: delete_idem)
  then show ?case using Cons p by (auto simp: ac_simps AList.delete_eq)
qed simp

subsection \<open>Lists and options\<close>

lemma find_Some_iff': "List.find P xs = Some x \<Longrightarrow> x \<in> set xs \<and> P x"
  by (induction xs) (auto split: if_splits)

lemma find_None_iff': "List.find P xs = None \<longleftrightarrow> (\<forall>x \<in> set xs. \<not> P x)"
  by (induction xs) auto

lemma find_distinct_key:
  "distinct (map f xs) \<Longrightarrow> x \<in> set xs \<Longrightarrow> List.find (\<lambda>y. f y = f x) xs = Some x"
  by (induction xs) (auto simp: image_iff)

lemma filter_length_less: "x \<in> set xs \<Longrightarrow> \<not> P x \<Longrightarrow> length (filter P xs) < length xs"
  by (rule length_filter_less)

lemma option_exhaust_eq: "(x = None \<Longrightarrow> P) \<Longrightarrow> (\<And>y. x = Some y \<Longrightarrow> P) \<Longrightarrow> P"
  by (cases x) auto

end
