(* ===== verification/Ordering.thy ===== *)
theory Ordering
  imports Prelude
begin

text \<open>
  \<open>sort.SliceStable\<close> with a comparison of the caller, as insertion into a sorted list, and the
  contract a comparison has to keep: the locale \<open>comparison\<close>, interpreted by every component that
  sorts.
\<close>

fun insert_by :: "('a \<Rightarrow> 'a \<Rightarrow> bool) \<Rightarrow> 'a \<Rightarrow> 'a list \<Rightarrow> 'a list" where
  "insert_by lt x [] = [x]"
| "insert_by lt x (y # ys) = (if lt y x then y # insert_by lt x ys else x # y # ys)"

definition sort_by :: "('a \<Rightarrow> 'a \<Rightarrow> bool) \<Rightarrow> 'a list \<Rightarrow> 'a list" where
  "sort_by lt xs = foldr (insert_by lt) xs []"

lemma mset_insert_by [simp]: "mset (insert_by lt x ys) = add_mset x (mset ys)"
  by (induction ys) auto

lemma mset_sort_by [simp]: "mset (sort_by lt xs) = mset xs"
  by (induction xs) (auto simp: sort_by_def)

lemma set_insert_by [simp]: "set (insert_by lt x ys) = insert x (set ys)"
  by (induction ys) auto

lemma set_sort_by [simp]: "set (sort_by lt xs) = set xs"
  using mset_eq_setD mset_sort_by by metis

lemma length_sort_by [simp]: "length (sort_by lt xs) = length xs"
  by (metis mset_sort_by size_mset)

lemma distinct_sort_by [simp]: "distinct (sort_by lt xs) = distinct xs"
  by (metis distinct_count_atmost_1 mset_sort_by set_sort_by)

text \<open>A strict weak order.\<close>

locale comparison =
  fixes lt :: "'a \<Rightarrow> 'a \<Rightarrow> bool"
  assumes asym: "lt x y \<Longrightarrow> \<not> lt y x"
    and negtrans: "lt x z \<Longrightarrow> lt x y \<or> lt y z"
begin

lemma not_less_trans: "\<not> lt y x \<Longrightarrow> \<not> lt z y \<Longrightarrow> \<not> lt z x"
  using negtrans by blast

lemma insert_sorted:
  "sorted_wrt (\<lambda>a b. \<not> lt b a) ys \<Longrightarrow> sorted_wrt (\<lambda>a b. \<not> lt b a) (insert_by lt x ys)"
proof (induction ys)
  case (Cons y ys)
  show ?case
  proof (cases "lt y x")
    case True
    then show ?thesis using Cons asym by simp
  next
    case False
    then show ?thesis using Cons.prems not_less_trans by auto
  qed
qed simp

lemma sorted_sort: "sorted_wrt (\<lambda>a b. \<not> lt b a) (sort_by lt xs)"
  by (induction xs) (simp_all add: sort_by_def insert_sorted)

lemma head_least: "sort_by lt xs = y # ys \<Longrightarrow> x \<in> set xs \<Longrightarrow> \<not> lt x y"
  using sorted_sort [of xs] set_sort_by [of lt xs] asym by (metis insert_iff list.simps(15) sorted_wrt.simps(2))

text \<open>Equal elements keep their order: the elements equivalent to one stand in the order of the input.\<close>

lemma insert_stable:
  "sorted_wrt (\<lambda>a b. \<not> lt b a) ys \<Longrightarrow>
     filter (\<lambda>a. \<not> lt a z \<and> \<not> lt z a) (insert_by lt x ys) =
     (if \<not> lt x z \<and> \<not> lt z x then [x] else []) @ filter (\<lambda>a. \<not> lt a z \<and> \<not> lt z a) ys"
proof (induction ys)
  case (Cons y ys)
  have "lt y x \<Longrightarrow> \<not> lt x z \<and> \<not> lt z x \<Longrightarrow> lt y z \<or> lt z y" using negtrans by blast
  then show ?case using Cons by auto
qed simp

lemma sort_stable:
  "filter (\<lambda>a. \<not> lt a z \<and> \<not> lt z a) (sort_by lt xs) = filter (\<lambda>a. \<not> lt a z \<and> \<not> lt z a) xs"
proof (induction xs)
  case (Cons x xs)
  show ?case using insert_stable [OF sorted_sort [of xs], of z x] Cons by (simp add: sort_by_def)
qed (simp add: sort_by_def)

end

text \<open>Comparing by a key in a linear order is one; the members then stand in the order of their keys.\<close>

lemma comparison_key: "comparison (\<lambda>a b. (f a :: 'b::linorder) < f b)"
  by unfold_locales auto

end
