(* ===== verification/Names.thy ===== *)
theory Names
  imports Ordering "HOL-Library.List_Lexorder" "HOL-Library.Product_Lexorder"
begin

text \<open>
  The order of worker names (\<open>NameLess\<close> of package \<open>monitor\<close>), which compares runs of digits as numbers:
  "s21-2" comes before "s21-10". The lemmas show that it is the lexicographic order of the names cut into
  numbers and single bytes, and so a comparison that sorting can rely on.
\<close>

text \<open>\<open>digits\<close>: the length of the run of digits at the start.\<close>

definition leading_digits :: "string \<Rightarrow> nat" where
  "leading_digits s = length (takeWhile is_digit s)"

text \<open>Go's order of strings.\<close>

fun bytes_less :: "string \<Rightarrow> string \<Rightarrow> bool" where
  "bytes_less s [] = False"
| "bytes_less [] (d # t) = True"
| "bytes_less (c # s) (d # t) = (if c = d then bytes_less s t else byte c < byte d)"

definition trim_zeros :: "string \<Rightarrow> string" where
  "trim_zeros s = dropWhile (\<lambda>c. c = CHR ''0'') s"

function name_less :: "string \<Rightarrow> string \<Rightarrow> bool" where
  "name_less a b =
     (if a = [] \<or> b = [] then length a < length b
      else
        (let da = leading_digits a; db = leading_digits b in
         if 0 < da \<and> 0 < db then
           (let na = trim_zeros (take da a); nb = trim_zeros (take db b) in
            if length na \<noteq> length nb then length na < length nb
            else if na \<noteq> nb then bytes_less na nb
            else name_less (drop da a) (drop db b))
         else if hd a \<noteq> hd b then byte (hd a) < byte (hd b)
         else name_less (tl a) (tl b)))"
  by pat_completeness auto
termination
  by (relation "measure (\<lambda>(a, b). length a + length b)") (auto simp: neq_Nil_conv)

declare name_less.simps [simp del]

subsection \<open>Numbers\<close>

lemma digits_val_fold: "fold (\<lambda>c n. 10 * n + digit_val c) s m = m * 10 ^ length s + digits_val s"
proof (induction s arbitrary: m)
  case (Cons c s)
  show ?case
    using Cons [of "10 * m + digit_val c"] Cons [of "digit_val c"] by (simp add: digits_val_def algebra_simps)
qed (simp add: digits_val_def)

lemma digits_val_Cons: "digits_val (c # s) = digit_val c * 10 ^ length s + digits_val s"
  using digits_val_fold [of s "digit_val c"] by (simp add: digits_val_def)

lemma digits_val_bound: "list_all is_digit s \<Longrightarrow> digits_val s < 10 ^ length s"
proof (induction s)
  case (Cons c s)
  then have "digit_val c \<le> 9" "digits_val s < 10 ^ length s" by (auto simp: is_digit_def digit_val_def)
  then have "digit_val c * 10 ^ length s + digits_val s < 9 * 10 ^ length s + 10 ^ length s"
    by (intro add_le_less_mono mult_le_mono1) simp_all
  then show ?case by (simp add: digits_val_Cons)
qed (simp add: digits_val_def)

lemma digits_val_trim: "digits_val (trim_zeros s) = digits_val s"
  by (induction s) (auto simp: trim_zeros_def digits_val_Cons digit_val_def)

lemma trim_zeros_digits: "list_all is_digit s \<Longrightarrow> list_all is_digit (trim_zeros s)"
  by (induction s) (auto simp: trim_zeros_def)

text \<open>A number without leading zeros is as long as it needs to be.\<close>

lemma digits_val_lower:
  assumes "list_all is_digit s" "trim_zeros s = t" "t \<noteq> []"
  shows "10 ^ (length t - 1) \<le> digits_val t"
proof -
  obtain c u where t: "t = c # u" using assms(3) by (cases t) auto
  have z: "dropWhile (\<lambda>c. c = CHR ''0'') s = c # u" using assms(2) t by (simp add: trim_zeros_def)
  have "c \<noteq> CHR ''0''" using hd_dropWhile [of "\<lambda>c. c = CHR ''0''" s] by (simp add: z)
  then have "byte c \<noteq> byte (CHR ''0'')" by (simp only: of_char_eq_iff not_False_eq_True)
  moreover have "is_digit c" using trim_zeros_digits [OF assms(1)] assms(2) t by simp
  ultimately have "1 \<le> digit_val c" by (auto simp: is_digit_def digit_val_def)
  then show ?thesis by (simp add: t digits_val_Cons trans_le_add1)
qed

lemma digits_val_shorter:
  assumes "list_all is_digit s" "list_all is_digit t" "length (trim_zeros s) < length (trim_zeros t)"
  shows "digits_val s < digits_val t"
proof -
  have "digits_val (trim_zeros s) < 10 ^ length (trim_zeros s)" using digits_val_bound trim_zeros_digits assms(1) by blast
  also have "\<dots> \<le> 10 ^ (length (trim_zeros t) - 1)" using assms(3) by (intro power_increasing) auto
  also have "\<dots> \<le> digits_val (trim_zeros t)" using digits_val_lower [OF assms(2) refl] assms(3) by fastforce
  finally show ?thesis by (simp add: digits_val_trim)
qed

lemma digits_val_same_length:
  "list_all is_digit s \<Longrightarrow> list_all is_digit t \<Longrightarrow> length s = length t \<Longrightarrow>
     (bytes_less s t \<longleftrightarrow> digits_val s < digits_val t) \<and> (s = t \<longleftrightarrow> digits_val s = digits_val t)"
proof (induction s t rule: bytes_less.induct)
  case (3 c s d t)
  have b: "digits_val s < 10 ^ length s" "digits_val t < 10 ^ length s"
    using digits_val_bound [of s] digits_val_bound [of t] 3 by simp_all
  have key: "i < j \<Longrightarrow> i * 10 ^ length s + digits_val u < j * 10 ^ length s + digits_val v" if "digits_val u < 10 ^ length s" for i j u v
  proof -
    assume "i < j"
    then have "Suc i * 10 ^ length s \<le> j * 10 ^ length s" by (intro mult_le_mono1) simp
    then show ?thesis using that by simp
  qed
  have code_inj: "byte c = byte d \<Longrightarrow> c = d" by simp
  have "48 \<le> byte c" "48 \<le> byte d" using 3 by (auto simp: is_digit_def)
  then have "digit_val c = digit_val d \<Longrightarrow> byte c = byte d" "digit_val c < digit_val d \<longleftrightarrow> byte c < byte d"
    unfolding digit_val_def by linarith+
  then have cd: "digit_val c < digit_val d \<longleftrightarrow> byte c < byte d" "c \<noteq> d \<longrightarrow> digit_val c \<noteq> digit_val d"
    using code_inj by blast+
  show ?case
  proof (cases "c = d")
    case True
    then show ?thesis using 3 by (simp add: digits_val_Cons)
  next
    case False
    then consider "digit_val c < digit_val d" | "digit_val d < digit_val c" using cd by linarith
    then show ?thesis
      using False cd 3(4) key [OF b(1), of "digit_val c" "digit_val d" t] key [OF b(2), of "digit_val d" "digit_val c" s]
      by cases (auto simp: digits_val_Cons)
  qed
qed (auto simp: digits_val_def)

lemma number_less:
  assumes "list_all is_digit s" "list_all is_digit t"
  shows "(if length (trim_zeros s) \<noteq> length (trim_zeros t) then length (trim_zeros s) < length (trim_zeros t)
      else bytes_less (trim_zeros s) (trim_zeros t)) \<longleftrightarrow> digits_val s < digits_val t"
    and "trim_zeros s = trim_zeros t \<longleftrightarrow> digits_val s = digits_val t"
proof -
  note z = digits_val_same_length [OF trim_zeros_digits [OF assms(1)] trim_zeros_digits [OF assms(2)], unfolded digits_val_trim]
  note l = digits_val_shorter [OF assms] digits_val_shorter [OF assms(2,1)]
  show "(if length (trim_zeros s) \<noteq> length (trim_zeros t) then length (trim_zeros s) < length (trim_zeros t)
      else bytes_less (trim_zeros s) (trim_zeros t)) \<longleftrightarrow> digits_val s < digits_val t"
  proof (cases "length (trim_zeros s)" "length (trim_zeros t)" rule: linorder_cases)
    case greater
    then show ?thesis using l(2) by simp
  qed (use z l(1) in simp_all)
  show "trim_zeros s = trim_zeros t \<longleftrightarrow> digits_val s = digits_val t"
  proof (cases "length (trim_zeros s)" "length (trim_zeros t)" rule: linorder_cases)
    case equal
    then show ?thesis using z by simp
  qed (use l in fastforce)+
qed

subsection \<open>The reference\<close>

text \<open>A name cut into numbers and bytes that are no digits.\<close>

function tokens :: "string \<Rightarrow> (nat \<times> nat) list" where
  "tokens [] = []"
| "tokens (c # s) =
     (if is_digit c then (48, digits_val (takeWhile is_digit (c # s))) # tokens (dropWhile is_digit s)
      else (byte c, 0) # tokens s)"
  by pat_completeness auto
termination
  by (relation "measure length") (auto simp: le_imp_less_Suc length_dropWhile_le)

lemma bytes_less_irrefl: "\<not> bytes_less s s"
  by (induction s) auto

lemma leading_digits_run: "take (leading_digits s) s = takeWhile is_digit s" "drop (leading_digits s) s = dropWhile is_digit s"
  by (simp_all add: leading_digits_def takeWhile_eq_take [symmetric] dropWhile_eq_drop [symmetric])

lemma takeWhile_digits: "list_all is_digit (takeWhile is_digit s)"
  by (auto simp: list_all_iff dest: set_takeWhileD)

lemma leading_digits_pos: "0 < leading_digits s \<longleftrightarrow> s \<noteq> [] \<and> is_digit (hd s)"
  by (cases s) (auto simp: leading_digits_def)

lemma name_less_tokens: "name_less a b \<longleftrightarrow> tokens a < tokens b"
proof (induction a b rule: name_less.induct)
  case (1 a b)
  show ?case
  proof (cases "a = [] \<or> b = []")
    case True
    then show ?thesis by (cases a; cases b) (auto simp: name_less.simps)
  next
    case False
    then obtain c s d t where ab: "a = c # s" "b = d # t" by (metis neq_Nil_conv)
    let ?na = "takeWhile is_digit a" and ?nb = "takeWhile is_digit b"
    show ?thesis
    proof (cases "is_digit c \<and> is_digit d")
      case True
      then have pos: "0 < leading_digits a \<and> 0 < leading_digits b" by (simp add: leading_digits_pos ab)
      have tok: "tokens a = (48, digits_val ?na) # tokens (dropWhile is_digit a)"
        "tokens b = (48, digits_val ?nb) # tokens (dropWhile is_digit b)" using True by (simp_all add: ab)
      have IH: "trim_zeros ?na = trim_zeros ?nb \<Longrightarrow> name_less (dropWhile is_digit a) (dropWhile is_digit b) =
          (tokens (dropWhile is_digit a) < tokens (dropWhile is_digit b))"
        using 1(1) [OF False refl refl pos refl refl] by (simp add: leading_digits_run)
      have "name_less a b = (if trim_zeros ?na = trim_zeros ?nb then name_less (dropWhile is_digit a) (dropWhile is_digit b)
          else if length (trim_zeros ?na) \<noteq> length (trim_zeros ?nb) then length (trim_zeros ?na) < length (trim_zeros ?nb)
          else bytes_less (trim_zeros ?na) (trim_zeros ?nb))"
        unfolding name_less.simps [of a b] Let_def if_not_P [OF False] if_P [OF pos] by (simp add: leading_digits_run)
      then show ?thesis
        unfolding number_less(1) [OF takeWhile_digits takeWhile_digits] number_less(2) [OF takeWhile_digits takeWhile_digits]
        using IH number_less(2) [OF takeWhile_digits takeWhile_digits, of a b] by (auto simp: tok)
    next
      case other: False
      then have pos: "\<not> (0 < leading_digits a \<and> 0 < leading_digits b)" by (simp add: leading_digits_pos ab)
      have less: "name_less a b = (if c \<noteq> d then byte c < byte d else name_less s t)"
        unfolding name_less.simps [of a b] Let_def if_not_P [OF False] if_not_P [OF pos] by (simp add: ab)
      show ?thesis
      proof (cases "c = d")
        case True
        then show ?thesis using 1(2) [OF False refl refl pos] other less by (simp add: ab)
      next
        case False
        then have "byte c \<noteq> byte d" by simp
        then show ?thesis using False less other by (auto simp: ab is_digit_def)
      qed
    qed
  qed
qed

interpretation names: comparison name_less
proof -
  have n: "name_less = (\<lambda>a b. tokens a < tokens b)" by (simp add: fun_eq_iff name_less_tokens)
  show "comparison name_less" unfolding n by (rule comparison_key)
qed

end
