(* ===== verification/Json.thy ===== *)
theory Json
  imports Prelude
begin

text \<open>
  The part of Go's \<open>encoding/json\<close> that the relay uses, on bytes: values with their raw
  text (\<open>json.RawMessage\<close>), the scanner of \<open>json.Unmarshal\<close>, the compacting printer of
  \<open>json.Marshal\<close>, and string literals in both directions.

  \<^item> A value keeps numbers and the contents of string literals as they were written, so
    \<open>raw_text\<close> is the raw message up to the white space between tokens.
  \<^item> \<open>unquote\<close> decodes the contents of a literal, \<open>quote\<close> is \<open>json.Marshal\<close> of a string
    (with HTML escaping, Go's default), \<open>compact\<close> is what marshalling does to a raw message.
  \<^item> Input is taken to be valid UTF-8 (Go replaces other bytes by U+FFFD), the nesting limit
    of 10000 levels is not modelled. A number is its decimal value as a real: the rounding to
    \<open>float64\<close> and hexadecimal floats are left out.

  The lemmas show that printing then parsing gives the value back with any fuel from twice
  the length of the text on, that decoding inverts encoding, and that compacting a message
  changes no decoded string.
\<close>

abbreviation dq :: char where "dq \<equiv> CHR 0x22"
abbreviation bsl :: char where "bsl \<equiv> CHR 0x5C"

datatype json =
    JNull
  | JBool bool
  | JNum string
  | JStr string
  | JArr "json list"
  | JObj "(string \<times> json) list"

subsection \<open>String literals\<close>

definition is_hex :: "char \<Rightarrow> bool" where
  "is_hex c \<longleftrightarrow>
     (let b = byte c in 48 \<le> b \<and> b \<le> 57 \<or> 97 \<le> b \<and> b \<le> 102 \<or> 65 \<le> b \<and> b \<le> 70)"

definition hex_num :: "char \<Rightarrow> nat" where
  "hex_num c = (let b = byte c in if b \<le> 57 then b - 48 else if b \<le> 70 then b - 55 else b - 87)"

definition hex_digit :: "nat \<Rightarrow> char" where
  "hex_digit n = (if n < 10 then char_of (48 + n) else char_of (87 + n))"

text \<open>The code unit of \<open>uXXXX\<close>, read from the text after the backslash.\<close>

fun hex4 :: "string \<Rightarrow> nat option" where
  "hex4 (u # a # b # c # d # r) =
     (if u = CHR ''u'' \<and> is_hex a \<and> is_hex b \<and> is_hex c \<and> is_hex d
      then Some (4096 * hex_num a + 256 * hex_num b + 16 * hex_num c + hex_num d)
      else None)"
| "hex4 _ = None"

definition utf8 :: "nat \<Rightarrow> string" where
  "utf8 n =
     (if n < 128 then [char_of n]
      else if n < 2048 then [char_of (192 + n div 64), char_of (128 + n mod 64)]
      else if n < 65536 then
        [char_of (224 + n div 4096), char_of (128 + (n div 64) mod 64), char_of (128 + n mod 64)]
      else
        [char_of (240 + n div 262144), char_of (128 + (n div 4096) mod 64),
         char_of (128 + (n div 64) mod 64), char_of (128 + n mod 64)])"

definition rune_error :: nat where "rune_error = 65533"

definition simple_escape :: "char \<Rightarrow> string" where
  "simple_escape e =
     (if e = CHR ''b'' then [CHR 0x08] else if e = CHR ''f'' then [CHR 0x0C]
      else if e = CHR ''n'' then [CHR 0x0A] else if e = CHR ''r'' then [CHR 0x0D]
      else if e = CHR ''t'' then [CHR 0x09] else [e])"

text \<open>The bytes of the first character of a literal and how many more characters of the raw
  text it takes. A high surrogate joins the low one that follows it; a lone one is U+FFFD.\<close>

definition unescape_one :: "char \<Rightarrow> string \<Rightarrow> string \<times> nat" where
  "unescape_one c r =
     (if c \<noteq> bsl then ([c], 0)
      else (case r of [] \<Rightarrow> ([], 0)
        | e # r' \<Rightarrow>
            if e = CHR ''u'' then
              (case hex4 r of None \<Rightarrow> ([], 0)
               | Some x \<Rightarrow>
                   if 0xD800 \<le> x \<and> x < 0xDC00 then
                     (case drop 5 r of [] \<Rightarrow> (utf8 rune_error, 5)
                      | b # r'' \<Rightarrow>
                          (case (if b = bsl then hex4 r'' else None) of
                             Some y \<Rightarrow>
                               if 0xDC00 \<le> y \<and> y < 0xE000
                               then (utf8 (0x10000 + (x - 0xD800) * 1024 + (y - 0xDC00)), 11)
                               else (utf8 rune_error, 5)
                           | None \<Rightarrow> (utf8 rune_error, 5)))
                   else if 0xDC00 \<le> x \<and> x < 0xE000 then (utf8 rune_error, 5)
                   else (utf8 x, 5))
            else (simple_escape e, 1)))"

fun unquote :: "string \<Rightarrow> string" where
  "unquote [] = []"
| "unquote (c # r) = (case unescape_one c r of (b, k) \<Rightarrow> b @ unquote (drop k r))"

definition u00 :: "char \<Rightarrow> string" where
  "u00 c = [bsl, CHR ''u'', CHR ''0'', CHR ''0'', hex_digit (byte c div 16), hex_digit (byte c mod 16)]"

definition html_special :: "char \<Rightarrow> bool" where
  "html_special c \<longleftrightarrow> c = CHR 0x3C \<or> c = CHR 0x3E \<or> c = CHR 0x26"

definition quote_char :: "char \<Rightarrow> string" where
  "quote_char c =
     (if c = dq \<or> c = bsl then [bsl, c]
      else if c = CHR 0x08 then [bsl, CHR ''b''] else if c = CHR 0x0C then [bsl, CHR ''f'']
      else if c = CHR 0x0A then [bsl, CHR ''n''] else if c = CHR 0x0D then [bsl, CHR ''r'']
      else if c = CHR 0x09 then [bsl, CHR ''t'']
      else if byte c < 32 \<or> html_special c then u00 c
      else [c])"

text \<open>U+2028 and U+2029 (bytes E2 80 A8 and E2 80 A9) are escaped too.\<close>

definition line_sep :: "char \<Rightarrow> string \<Rightarrow> string option" where
  "line_sep c r =
     (if c = CHR 0xE2 \<and> take 2 r = [CHR 0x80, CHR 0xA8] then Some (bsl # ''u2028'')
      else if c = CHR 0xE2 \<and> take 2 r = [CHR 0x80, CHR 0xA9] then Some (bsl # ''u2029'')
      else None)"

fun quote :: "string \<Rightarrow> string" where
  "quote [] = []"
| "quote (c # r) =
     (case line_sep c r of
        Some s \<Rightarrow> s @ quote (drop 2 r)
      | None \<Rightarrow> quote_char c @ quote r)"

text \<open>The contents of a literal when a raw message is compacted with HTML escaping.\<close>

fun html_raw :: "string \<Rightarrow> string" where
  "html_raw [] = []"
| "html_raw (c # r) =
     (case line_sep c r of
        Some s \<Rightarrow> s @ html_raw (drop 2 r)
      | None \<Rightarrow> (if html_special c then u00 c else [c]) @ html_raw r)"

subsection \<open>Printing\<close>

fun raw_text :: "json \<Rightarrow> string"
  and elems_text :: "json list \<Rightarrow> string"
  and members_text :: "(string \<times> json) list \<Rightarrow> string" where
  "raw_text JNull = ''null''"
| "raw_text (JBool b) = (if b then ''true'' else ''false'')"
| "raw_text (JNum s) = s"
| "raw_text (JStr s) = dq # s @ [dq]"
| "raw_text (JArr xs) = CHR ''['' # elems_text xs @ '']''"
| "raw_text (JObj ms) = CHR ''{'' # members_text ms @ ''}''"
| "elems_text [] = []"
| "elems_text [x] = raw_text x"
| "elems_text (x # y # xs) = raw_text x @ '','' @ elems_text (y # xs)"
| "members_text [] = []"
| "members_text [(k, v)] = dq # k @ dq # CHR '':'' # raw_text v"
| "members_text ((k, v) # m # ms) = dq # k @ dq # CHR '':'' # raw_text v @ '','' @ members_text (m # ms)"

fun compact :: "json \<Rightarrow> json" where
  "compact (JStr s) = JStr (html_raw s)"
| "compact (JArr xs) = JArr (map compact xs)"
| "compact (JObj ms) = JObj (map (\<lambda>(k, v). (html_raw k, compact v)) ms)"
| "compact j = j"

subsection \<open>Scanning\<close>

definition json_space :: "char \<Rightarrow> bool" where
  "json_space c \<longleftrightarrow> byte c \<in> {9, 10, 13, 32}"

definition skip_ws :: "string \<Rightarrow> string" where "skip_ws s = dropWhile json_space s"

text \<open>The escape \<open>e\<close> that starts the text \<open>r\<close> after a backslash.\<close>

definition escape_ok :: "char \<Rightarrow> string \<Rightarrow> bool" where
  "escape_ok e r \<longleftrightarrow>
     e \<in> set [dq, bsl, CHR ''/'', CHR ''b'', CHR ''f'', CHR ''n'', CHR ''r'', CHR ''t'', CHR ''u''] \<and>
     (e = CHR ''u'' \<longrightarrow> hex4 r \<noteq> None)"

text \<open>The contents of a literal up to its closing quote, and the text after it.\<close>

fun pstring :: "string \<Rightarrow> (string \<times> string) option" where
  "pstring [] = None"
| "pstring (c # r) =
     (if c = dq then Some ([], r)
      else if c = bsl then
        (case r of [] \<Rightarrow> None
         | e # r' \<Rightarrow>
             if escape_ok e r then map_option (\<lambda>(s, t). (c # e # s, t)) (pstring r') else None)
      else if byte c < 32 then None
      else map_option (\<lambda>(s, t). (c # s, t)) (pstring r))"

definition num_char :: "char \<Rightarrow> bool" where
  "num_char c \<longleftrightarrow> is_digit c \<or> c \<in> set ''+-.eE''"

definition valid_exp :: "string \<Rightarrow> bool" where
  "valid_exp s =
     (case s of [] \<Rightarrow> True
      | c # r \<Rightarrow>
          (c = CHR ''e'' \<or> c = CHR ''E'') \<and>
          (let t = (case r of [] \<Rightarrow> [] | d # r' \<Rightarrow> if d = CHR ''+'' \<or> d = CHR ''-'' then r' else r)
           in t \<noteq> [] \<and> list_all is_digit t))"

definition valid_frac :: "string \<Rightarrow> bool" where
  "valid_frac s =
     (case s of [] \<Rightarrow> True
      | c # r \<Rightarrow>
          if c = CHR ''.'' then takeWhile is_digit r \<noteq> [] \<and> valid_exp (dropWhile is_digit r)
          else valid_exp s)"

definition valid_int :: "string \<Rightarrow> bool" where
  "valid_int s =
     (case s of [] \<Rightarrow> False
      | c # r \<Rightarrow> if c = CHR ''0'' then valid_frac r else is_digit c \<and> valid_frac (dropWhile is_digit r))"

definition valid_number :: "string \<Rightarrow> bool" where
  "valid_number s \<longleftrightarrow>
     list_all num_char s \<and>
     (case s of [] \<Rightarrow> False | c # r \<Rightarrow> if c = CHR ''-'' then valid_int r else valid_int s)"

definition pnumber :: "string \<Rightarrow> (json \<times> string) option" where
  "pnumber s =
     (let n = takeWhile num_char s
      in if valid_number n then Some (JNum n, dropWhile num_char s) else None)"

definition pword :: "string \<Rightarrow> (json \<times> string) option" where
  "pword s =
     (if has_prefix s ''null'' then Some (JNull, drop 4 s)
      else if has_prefix s ''true'' then Some (JBool True, drop 4 s)
      else if has_prefix s ''false'' then Some (JBool False, drop 5 s)
      else pnumber s)"

fun pvalue :: "nat \<Rightarrow> string \<Rightarrow> (json \<times> string) option"
  and pelems :: "nat \<Rightarrow> string \<Rightarrow> (json list \<times> string) option"
  and pmembers :: "nat \<Rightarrow> string \<Rightarrow> ((string \<times> json) list \<times> string) option" where
  "pvalue 0 s = None"
| "pvalue (Suc n) s =
     (case skip_ws s of [] \<Rightarrow> None
      | c # r \<Rightarrow>
          if c = dq then map_option (\<lambda>(x, t). (JStr x, t)) (pstring r)
          else if c = CHR ''['' then
            (case skip_ws r of [] \<Rightarrow> None
             | d # t \<Rightarrow>
                 if d = CHR '']'' then Some (JArr [], t)
                 else map_option (\<lambda>(xs, t). (JArr xs, t)) (pelems n r))
          else if c = CHR ''{'' then
            (case skip_ws r of [] \<Rightarrow> None
             | d # t \<Rightarrow>
                 if d = CHR ''}'' then Some (JObj [], t)
                 else map_option (\<lambda>(ms, t). (JObj ms, t)) (pmembers n r))
          else pword (c # r))"
| "pelems 0 s = None"
| "pelems (Suc n) s =
     (case pvalue n s of None \<Rightarrow> None
      | Some (x, r) \<Rightarrow>
          (case skip_ws r of [] \<Rightarrow> None
           | d # t \<Rightarrow>
               if d = CHR '','' then map_option (\<lambda>(xs, t). (x # xs, t)) (pelems n t)
               else if d = CHR '']'' then Some ([x], t)
               else None))"
| "pmembers 0 s = None"
| "pmembers (Suc n) s =
     (case skip_ws s of [] \<Rightarrow> None
      | c # r \<Rightarrow>
          if c \<noteq> dq then None
          else (case pstring r of None \<Rightarrow> None
            | Some (k, u) \<Rightarrow>
                (case skip_ws u of [] \<Rightarrow> None
                 | e # v \<Rightarrow>
                     if e \<noteq> CHR '':'' then None
                     else (case pvalue n v of None \<Rightarrow> None
                       | Some (x, w) \<Rightarrow>
                           (case skip_ws w of [] \<Rightarrow> None
                            | d # t \<Rightarrow>
                                if d = CHR '','' then map_option (\<lambda>(ms, t). ((k, x) # ms, t)) (pmembers n t)
                                else if d = CHR ''}'' then Some ([(k, x)], t)
                                else None)))))"

definition parse_json :: "string \<Rightarrow> json option" where
  "parse_json s =
     (case pvalue (2 * length s + 2) s of
        Some (j, r) \<Rightarrow> if skip_ws r = [] then Some j else None
      | None \<Rightarrow> None)"

subsection \<open>Well-formed values\<close>


definition raw_ok :: "string \<Rightarrow> bool" where
  "raw_ok s \<longleftrightarrow> pstring (s @ [dq]) = Some (s, [])"

fun wf_json :: "json \<Rightarrow> bool" where
  "wf_json (JNum s) = valid_number s"
| "wf_json (JStr s) = raw_ok s"
| "wf_json (JArr xs) = list_all wf_json xs"
| "wf_json (JObj ms) = list_all (\<lambda>(k, v). raw_ok k \<and> wf_json v) ms"
| "wf_json _ = True"

definition stops_number :: "string \<Rightarrow> bool" where
  "stops_number s \<longleftrightarrow> (case s of [] \<Rightarrow> True | c # _ \<Rightarrow> \<not> num_char c)"

subsection \<open>Scanning inverts printing\<close>

lemma hex4_append: "hex4 r = Some x \<Longrightarrow> hex4 (r @ t) = Some x"
  by (induction r rule: hex4.induct) auto

lemma hex4_SomeD:
  assumes "hex4 s = Some x"
  obtains u a b c d r where "s = u # a # b # c # d # r" "u = CHR ''u''" "is_hex a" "is_hex b" "is_hex c" "is_hex d"
proof -
  have "\<exists>u a b c d r. s = u # a # b # c # d # r"
    using assms by (cases s rule: hex4.cases) simp_all
  then obtain u a b c d r where s: "s = u # a # b # c # d # r" by blast
  with assms show ?thesis using that by (simp split: if_split_asm)
qed

lemma not_hex_dq: "\<not> is_hex dq"
  by (simp add: is_hex_def)

lemma hex4_no_dq:
  assumes "dq \<in> set (take 5 s)"
  shows "hex4 s = None"
proof (cases "hex4 s")
  case None
  then show ?thesis .
next
  case (Some x)
  then obtain u a b c d r where s: "s = u # a # b # c # d # r" "u = CHR ''u''"
    "is_hex a" "is_hex b" "is_hex c" "is_hex d" by (rule hex4_SomeD)
  then have "\<not> is_hex dq \<longrightarrow> dq \<notin> set (take 5 s)" by auto
  with assms not_hex_dq show ?thesis by blast
qed

lemma hex4_short:
  "hex4 (dq # b) = None" "hex4 (v # dq # b) = None" "hex4 (v # w # dq # b) = None"
  "hex4 (v # w # x # dq # b) = None" "hex4 (v # w # x # y # dq # b) = None"
proof -
  show "hex4 (dq # b) = None" by (rule hex4_no_dq) simp
  show "hex4 (v # dq # b) = None" by (rule hex4_no_dq) simp
  show "hex4 (v # w # dq # b) = None" by (rule hex4_no_dq) simp
  show "hex4 (v # w # x # dq # b) = None" by (rule hex4_no_dq) simp
  show "hex4 (v # w # x # y # dq # b) = None" by (rule hex4_no_dq) simp
qed

lemma hex4_dq: "hex4 (x @ dq # b) = hex4 (x @ [dq])"
proof -
  have "(\<exists>u a c d e r. x = u # a # c # d # e # r) \<or> x = [] \<or> (\<exists>v. x = [v]) \<or> (\<exists>v w. x = [v, w]) \<or>
      (\<exists>v w y. x = [v, w, y]) \<or> (\<exists>v w y z. x = [v, w, y, z])"
    by (cases x rule: hex4.cases) auto
  then show ?thesis by (elim disjE exE) (simp_all add: hex4_short)
qed

lemma escape_ok_append: "escape_ok e r \<Longrightarrow> escape_ok e (r @ t)"
  by (auto simp: escape_ok_def dest: hex4_append)

lemma escape_ok_dq: "escape_ok e (x @ dq # b) = escape_ok e (x @ [dq])"
  by (simp only: escape_ok_def hex4_dq [of x b])

lemma pstring_escape:
  assumes "pstring (bsl # r) = Some (a, b)"
  obtains e r' s where "r = e # r'" "pstring r' = Some (s, b)" "a = bsl # e # s" "escape_ok e r"
  using assms by (cases r) (auto split: if_split_asm)

lemma pstring_escapeI:
  "escape_ok e (e # r') \<Longrightarrow> pstring r' = Some (s, b) \<Longrightarrow> pstring (bsl # e # r') = Some (bsl # e # s, b)"
  by simp

lemma pstring_append: "pstring s = Some (a, b) \<Longrightarrow> pstring (s @ t) = Some (a, b @ t)"
proof (induction s arbitrary: a b rule: length_induct)
  case (1 s)
  show ?case
  proof (cases s)
    case Nil
    with 1 show ?thesis by simp
  next
    case (Cons c r)
    show ?thesis
    proof (cases "c = bsl")
      case True
      with 1 Cons have "pstring (bsl # r) = Some (a, b)" by simp
      then obtain e r' s' where e: "r = e # r'" "pstring r' = Some (s', b)" "a = bsl # e # s'"
        "escape_ok e r" by (rule pstring_escape) blast
      have "pstring (r' @ t) = Some (s', b @ t)" using 1(1) Cons e(1,2) by simp
      moreover have "escape_ok e (e # r' @ t)" using e(1,4) escape_ok_append [of e r t] by simp
      ultimately have "pstring (bsl # e # r' @ t) = Some (bsl # e # s', b @ t)"
        by (intro pstring_escapeI)
      with True Cons e(1,3) show ?thesis by (simp del: pstring.simps)
    next
      case False
      with 1 Cons show ?thesis by (auto split: if_splits)
    qed
  qed
qed

lemma raw_ok_pstring: "raw_ok s \<Longrightarrow> pstring (s @ dq # rest) = Some (s, rest)"
  using pstring_append [of "s @ [dq]" s "[]" rest] by (simp add: raw_ok_def)

lemma pstring_raw_ok: "pstring s = Some (a, b) \<Longrightarrow> s = a @ dq # b \<and> raw_ok a"
proof (induction s arbitrary: a b rule: length_induct)
  case (1 s)
  show ?case
  proof (cases s)
    case Nil
    with 1 show ?thesis by simp
  next
    case (Cons c r)
    show ?thesis
    proof (cases "c = bsl")
      case True
      with 1 Cons have "pstring (bsl # r) = Some (a, b)" by simp
      then obtain e r' s' where e: "r = e # r'" "pstring r' = Some (s', b)" "a = bsl # e # s'"
        "escape_ok e r" by (rule pstring_escape) blast
      have IH: "r' = s' @ dq # b \<and> raw_ok s'"
        using 1(1) [rule_format, of r' s' b] Cons e(1,2) by simp
      moreover have "escape_ok e (e # s' @ [dq])"
        using e(1,4) IH escape_ok_dq [of e "e # s'" b] by simp
      ultimately have "pstring (bsl # e # s' @ [dq]) = Some (bsl # e # s', [])"
        by (intro pstring_escapeI) (auto simp: raw_ok_def)
      with True Cons e(1,3) IH show ?thesis by (simp add: raw_ok_def del: pstring.simps)
    next
      case False
      with 1 Cons show ?thesis by (auto split: if_splits simp: raw_ok_def)
    qed
  qed
qed

lemma num_char_facts [simp]:
  "\<not> num_char dq" "\<not> num_char (CHR '','')" "\<not> num_char (CHR '']'')" "\<not> num_char (CHR ''}'')"
  "\<not> num_char (CHR '':'')"
  by (simp_all add: num_char_def is_digit_def)

lemma num_start:
  assumes "valid_number s"
  obtains c r where "s = c # r" "c = CHR ''-'' \<or> is_digit c"
  using assms by (auto simp: valid_number_def valid_int_def is_digit_def split: list.splits if_splits)

lemma digit_cases: "is_digit c \<Longrightarrow> c \<noteq> dq \<and> c \<noteq> CHR ''['' \<and> c \<noteq> CHR ''{'' \<and> c \<noteq> CHR '']'' \<and> c \<noteq> CHR ''}'' \<and> c \<noteq> CHR ''n'' \<and> c \<noteq> CHR ''t'' \<and> c \<noteq> CHR ''f'' \<and> \<not> json_space c"
  by (auto simp: is_digit_def json_space_def)

lemma pnumber_append:
  assumes "valid_number s" "stops_number t"
  shows "pnumber (s @ t) = Some (JNum s, t)"
proof -
  have all: "list_all num_char s" using assms(1) by (simp add: valid_number_def)
  have "takeWhile num_char (s @ t) = s" "dropWhile num_char (s @ t) = t"
    using all assms(2) by (cases t; simp add: stops_number_def list_all_iff takeWhile_append dropWhile_append)+
  then show ?thesis using assms(1) by (simp add: pnumber_def)
qed

lemma skip_ws_Cons: "\<not> json_space c \<Longrightarrow> skip_ws (c # r) = c # r"
  by (simp add: skip_ws_def)

text \<open>The first character of a value's text and what it tells.\<close>

lemma raw_text_start:
  assumes "wf_json j"
  obtains c r where "raw_text j = c # r" "\<not> json_space c" "c \<noteq> CHR '']''" "c \<noteq> CHR ''}''"
proof (cases "\<exists>s. j = JNum s")
  case True
  then obtain s where j: "j = JNum s" by blast
  with assms have "valid_number s" by simp
  then obtain c r where "s = c # r" "c = CHR ''-'' \<or> is_digit c" by (rule num_start)
  with j show ?thesis using that [of c r] digit_cases [of c] by (auto simp: json_space_def)
next
  case False
  then have "\<exists>c r. raw_text j = c # r \<and> \<not> json_space c \<and> c \<noteq> CHR '']'' \<and> c \<noteq> CHR ''}''"
    by (cases j) (simp_all add: json_space_def)
  then show ?thesis using that by blast
qed

lemma elems_text_start:
  assumes "xs \<noteq> []" "list_all wf_json xs"
  obtains c r where "elems_text xs = c # r" "\<not> json_space c" "c \<noteq> CHR '']''"
proof -
  obtain x ys where xs: "xs = x # ys" using assms(1) by (cases xs) auto
  with assms(2) have "wf_json x" by simp
  then obtain c r where "raw_text x = c # r" "\<not> json_space c" "c \<noteq> CHR '']''"
    by (rule raw_text_start)
  with xs show ?thesis by (cases ys) (auto intro: that)
qed

lemma members_text_start: "ms \<noteq> [] \<Longrightarrow> \<exists>r. members_text ms = dq # r"
  by (cases ms rule: members_text.cases) auto

theorem pvalue_raw_text:
  "wf_json j \<Longrightarrow> stops_number t \<Longrightarrow> 2 * length (raw_text j) < n \<Longrightarrow> pvalue n (raw_text j @ t) = Some (j, t)"
  "xs \<noteq> [] \<Longrightarrow> list_all wf_json xs \<Longrightarrow> 2 * length (elems_text xs) + 1 < n \<Longrightarrow>
     pelems n (elems_text xs @ CHR '']'' # t) = Some (xs, t)"
  "ms \<noteq> [] \<Longrightarrow> list_all (\<lambda>(k, v). raw_ok k \<and> wf_json v) ms \<Longrightarrow> 2 * length (members_text ms) + 1 < n \<Longrightarrow>
     pmembers n (members_text ms @ CHR ''}'' # t) = Some (ms, t)"
proof (induction j and xs and ms arbitrary: n t and n t and n t rule: raw_text_elems_text_members_text.induct)
  case 1
  then show ?case by (cases n) (simp_all add: skip_ws_Cons json_space_def pword_def)
next
  case (2 b)
  then show ?case by (cases n) (simp_all add: skip_ws_Cons json_space_def pword_def)
next
  case (3 s)
  then obtain c r where s: "s = c # r" "c = CHR ''-'' \<or> is_digit c" by (auto elim: num_start)
  then have c: "\<not> json_space c" "c \<noteq> dq" "c \<noteq> CHR ''[''" "c \<noteq> CHR ''{''" "c \<noteq> CHR ''n''" "c \<noteq> CHR ''t''" "c \<noteq> CHR ''f''"
    using digit_cases [of c] by (auto simp: json_space_def)
  from 3(3) obtain m where n: "n = Suc m" by (cases n) auto
  have "pnumber (c # r @ t) = Some (JNum s, t)" using pnumber_append [of s t] 3 s by simp
  with c s n show ?case by (simp add: skip_ws_Cons pword_def)
next
  case (4 s)
  then obtain m where n: "n = Suc m" by (cases n) auto
  with 4 show ?case by (simp add: skip_ws_Cons json_space_def raw_ok_pstring)
next
  case (5 xs)
  then obtain m where n: "n = Suc m" by (cases n) auto
  show ?case
  proof (cases "xs = []")
    case True
    with n show ?thesis by (simp add: skip_ws_Cons json_space_def)
  next
    case False
    with 5 obtain c r where c: "elems_text xs = c # r" "\<not> json_space c" "c \<noteq> CHR '']''"
      by (auto elim: elems_text_start)
    have "pelems m (elems_text xs @ CHR '']'' # t) = Some (xs, t)"
      using 5 False n by simp
    with c n show ?thesis by (simp add: skip_ws_Cons json_space_def)
  qed
next
  case (6 ms)
  then obtain m where n: "n = Suc m" by (cases n) auto
  show ?case
  proof (cases "ms = []")
    case True
    with n show ?thesis by (simp add: skip_ws_Cons json_space_def)
  next
    case False
    then obtain r where c: "members_text ms = dq # r" using members_text_start by blast
    have "pmembers m (members_text ms @ CHR ''}'' # t) = Some (ms, t)"
      using 6 False n by simp
    with c n show ?thesis by (simp add: skip_ws_Cons json_space_def)
  qed
next
  case 7
  then show ?case by simp
next
  case (8 x)
  then obtain m where n: "n = Suc m" by (cases n) auto
  have "pvalue m (raw_text x @ CHR '']'' # t) = Some (x, CHR '']'' # t)"
    using 8 n by (simp add: stops_number_def)
  with n show ?case by (simp add: skip_ws_Cons json_space_def)
next
  case (9 x y xs)
  then obtain m where n: "n = Suc m" by (cases n) auto
  have "pvalue m (raw_text x @ CHR '','' # elems_text (y # xs) @ CHR '']'' # t) =
      Some (x, CHR '','' # elems_text (y # xs) @ CHR '']'' # t)"
    using 9 n by (simp add: stops_number_def)
  moreover have "pelems m (elems_text (y # xs) @ CHR '']'' # t) = Some (y # xs, t)"
    using 9 n by simp
  ultimately show ?case using n by (simp add: skip_ws_Cons json_space_def)
next
  case 10
  then show ?case by simp
next
  case (11 k v)
  then obtain m where n: "n = Suc m" by (cases n) auto
  have "pvalue m (raw_text v @ CHR ''}'' # t) = Some (v, CHR ''}'' # t)"
    using 11 n by (simp add: stops_number_def)
  with 11 n show ?case by (simp add: skip_ws_Cons json_space_def raw_ok_pstring)
next
  case (12 k v p ms)
  then obtain m where n: "n = Suc m" by (cases n) auto
  have "pvalue m (raw_text v @ CHR '','' # members_text (p # ms) @ CHR ''}'' # t) =
      Some (v, CHR '','' # members_text (p # ms) @ CHR ''}'' # t)"
    using 12 n by (simp add: stops_number_def)
  moreover have "pmembers m (members_text (p # ms) @ CHR ''}'' # t) = Some (p # ms, t)"
    using 12 n by simp
  ultimately show ?case using 12 n by (simp add: skip_ws_Cons json_space_def raw_ok_pstring)
qed

corollary parse_raw_text: "wf_json j \<Longrightarrow> parse_json (raw_text j) = Some j"
  using pvalue_raw_text(1) [of j "[]" "2 * length (raw_text j) + 2"]
  by (simp add: parse_json_def stops_number_def skip_ws_def)

subsection \<open>Literals: decoding inverts encoding\<close>

lemma raw_ok_Nil [simp]: "raw_ok []"
  by (simp add: raw_ok_def)

lemma raw_ok_plain:
  assumes "c \<noteq> bsl"
  shows "raw_ok (c # r) \<longleftrightarrow> c \<noteq> dq \<and> 32 \<le> byte c \<and> raw_ok r"
  using assms by (auto simp: raw_ok_def)

lemma raw_ok_escape:
  assumes "escape_ok e (e # r)" "raw_ok r"
  shows "raw_ok (bsl # e # r)"
proof -
  have "escape_ok e (e # r @ [dq])" using escape_ok_append [OF assms(1), of "[dq]"] by simp
  then show ?thesis using assms(2) unfolding raw_ok_def append_Cons by (intro pstring_escapeI)
qed

lemma raw_ok_escapeD:
  assumes "raw_ok (bsl # r)"
  obtains e r' where "r = e # r'" "escape_ok e (e # r')" "raw_ok r'"
proof -
  have "pstring (bsl # (r @ [dq])) = Some (bsl # r, [])" using assms by (simp add: raw_ok_def)
  then obtain e r' s where e: "r @ [dq] = e # r'" "pstring r' = Some (s, [])" "bsl # r = bsl # e # s"
    "escape_ok e (r @ [dq])" by (rule pstring_escape)
  then have r: "r = e # s" and r': "r' = s @ [dq]" by auto
  have "escape_ok e (e # s)"
  proof (cases "e = CHR ''u''")
    case True
    then have "hex4 (e # s @ [dq]) \<noteq> None" using e(4) r by (simp add: escape_ok_def)
    moreover have "hex4 (e # s @ [dq]) = None" if "length s < 4"
      by (rule hex4_no_dq) (use that in \<open>auto simp: take_Cons' take_append less_Suc_eq numeral_eq_Suc\<close>)
    ultimately have "4 \<le> length s" by fastforce
    then obtain a b c d t where "s = a # b # c # d # t"
      by (auto simp: numeral_eq_Suc Suc_le_length_iff)
    with True r e(4) show ?thesis by (simp add: escape_ok_def)
  next
    case False
    with e(4) show ?thesis by (simp add: escape_ok_def)
  qed
  moreover have "raw_ok s" using e(2) r' by (simp add: raw_ok_def)
  ultimately show ?thesis using that r by blast
qed

lemma hex_plain:
  assumes "is_hex c"
  shows "c \<noteq> bsl" "c \<noteq> dq" "32 \<le> byte c" "\<not> html_special c" "c \<noteq> CHR 0xE2"
  using assms by (auto simp: is_hex_def Let_def html_special_def)

lemma escape_plain:
  assumes "escape_ok e r"
  shows "\<not> html_special e" "e \<noteq> CHR 0xE2"
  using assms by (auto simp: escape_ok_def html_special_def)

lemma escape_ok_u:
  "escape_ok (CHR ''u'') (CHR ''u'' # a # b # c # d # r) \<longleftrightarrow> is_hex a \<and> is_hex b \<and> is_hex c \<and> is_hex d"
  by (simp add: escape_ok_def)

lemma raw_ok_unicode:
  "is_hex a \<Longrightarrow> is_hex b \<Longrightarrow> is_hex c \<Longrightarrow> is_hex d \<Longrightarrow> raw_ok r \<Longrightarrow>
    raw_ok (bsl # CHR ''u'' # a # b # c # d # r)"
  by (intro raw_ok_escape) (simp_all add: escape_ok_u raw_ok_plain hex_plain)

lemma raw_ok_induct [consumes 1, case_names Nil plain escape unicode]:
  assumes "raw_ok s"
    and "P []"
    and "\<And>c r. c \<noteq> bsl \<Longrightarrow> c \<noteq> dq \<Longrightarrow> 32 \<le> byte c \<Longrightarrow> raw_ok r \<Longrightarrow> P r \<Longrightarrow> P (c # r)"
    and "\<And>e r. escape_ok e (e # r) \<Longrightarrow> e \<noteq> CHR ''u'' \<Longrightarrow> raw_ok r \<Longrightarrow> P r \<Longrightarrow> P (bsl # e # r)"
    and "\<And>a b c d r. is_hex a \<Longrightarrow> is_hex b \<Longrightarrow> is_hex c \<Longrightarrow> is_hex d \<Longrightarrow> raw_ok r \<Longrightarrow> P r \<Longrightarrow>
      P (bsl # CHR ''u'' # a # b # c # d # r)"
  shows "P s"
  using assms(1)
proof (induction s rule: length_induct)
  case (1 s)
  show ?case
  proof (cases s)
    case Nil
    then show ?thesis using assms(2) by simp
  next
    case (Cons x r)
    show ?thesis
    proof (cases "x = bsl")
      case False
      with 1 Cons show ?thesis using assms(3) [of x r] by (simp add: raw_ok_plain)
    next
      case True
      with 1(2) Cons obtain e r' where e: "r = e # r'" "escape_ok e (e # r')" "raw_ok r'"
        by (auto elim: raw_ok_escapeD)
      show ?thesis
      proof (cases "e = CHR ''u''")
        case False
        with 1(1) Cons True e show ?thesis using assms(4) [of e r'] by simp
      next
        case u: True
        with e(2) have "hex4 (e # r') \<noteq> None" by (simp add: escape_ok_def)
        then obtain y where "hex4 (e # r') = Some y" by blast
        then obtain a b c d t where h: "r' = a # b # c # d # t" "is_hex a" "is_hex b" "is_hex c" "is_hex d"
          by (auto elim: hex4_SomeD)
        then have "raw_ok t" using e(3) by (simp add: raw_ok_plain hex_plain)
        with 1(1) Cons True u e h show ?thesis using assms(5) [of a b c d t] by simp
      qed
    qed
  qed
qed

lemma line_sep_cases:
  assumes "line_sep c r = Some s"
  obtains t where "c = CHR 0xE2" "r = CHR 0x80 # CHR 0xA8 # t" "s = bsl # ''u2028''"
  | t where "c = CHR 0xE2" "r = CHR 0x80 # CHR 0xA9 # t" "s = bsl # ''u2029''"
proof -
  have "\<exists>x t. r = CHR 0x80 # x # t \<and> c = CHR 0xE2 \<and> (x = CHR 0xA8 \<and> s = bsl # ''u2028'' \<or> x = CHR 0xA9 \<and> s = bsl # ''u2029'')"
    using assms by (cases r rule: list.exhaust; cases "tl r") (auto simp: line_sep_def split: if_split_asm)
  then show ?thesis using that by blast
qed

lemma line_sep_None: "c \<noteq> CHR 0xE2 \<Longrightarrow> line_sep c r = None"
  by (simp add: line_sep_def)

lemma hex_digit_hex: "n < 16 \<Longrightarrow> is_hex (hex_digit n) \<and> hex_num (hex_digit n) = n"
  by (auto simp: is_hex_def hex_digit_def hex_num_def)

lemma hex_num_simps [simp]:
  "hex_num (CHR ''0'') = 0" "hex_num (CHR ''2'') = 2" "hex_num (CHR ''8'') = 8" "hex_num (CHR ''9'') = 9"
  "is_hex (CHR ''0'')" "is_hex (CHR ''2'')" "is_hex (CHR ''8'')" "is_hex (CHR ''9'')"
  by (simp_all add: hex_num_def is_hex_def)

lemma byte_less: "byte c < 256"
  by (cases c) (simp add: of_char_def horner_sum_of_bool_2_less)

lemma unquote_plain: "c \<noteq> bsl \<Longrightarrow> unquote (c # r) = c # unquote r"
  by (simp add: unescape_one_def)

lemma unquote_simple: "e \<noteq> CHR ''u'' \<Longrightarrow> unquote (bsl # e # r) = simple_escape e @ unquote r"
  by (simp add: unescape_one_def)

lemma utf8_line_sep:
  "utf8 8232 = [CHR 0xE2, CHR 0x80, CHR 0xA8]" "utf8 8233 = [CHR 0xE2, CHR 0x80, CHR 0xA9]"
  by (simp_all add: utf8_def char_of_eq_iff take_bit_eq_mod)

lemma hex_byte:
  "is_hex (hex_digit (byte c div 16))" "is_hex (hex_digit (byte c mod 16))"
  "hex_num (hex_digit (byte c div 16)) = byte c div 16" "hex_num (hex_digit (byte c mod 16)) = byte c mod 16"
proof -
  have "byte c div 16 < 16" "byte c mod 16 < 16" using byte_less [of c] by (simp_all add: div_less_iff_less_mult)
  then show "is_hex (hex_digit (byte c div 16))" "is_hex (hex_digit (byte c mod 16))"
    "hex_num (hex_digit (byte c div 16)) = byte c div 16" "hex_num (hex_digit (byte c mod 16)) = byte c mod 16"
    by (simp_all add: hex_digit_hex)
qed

lemma quote_char_cases:
  obtains "c \<in> {dq, bsl, CHR 0x08, CHR 0x0C, CHR 0x0A, CHR 0x0D, CHR 0x09}"
  | "quote_char c = u00 c" "byte c < 128"
  | "c \<noteq> bsl" "c \<noteq> dq" "32 \<le> byte c" "quote_char c = [c]"
proof (cases "c \<in> {dq, bsl, CHR 0x08, CHR 0x0C, CHR 0x0A, CHR 0x0D, CHR 0x09}")
  case True
  then show ?thesis using that by blast
next
  case False
  then have c: "c \<noteq> bsl" "c \<noteq> dq" "quote_char c = (if byte c < 32 \<or> html_special c then u00 c else [c])"
    by (simp_all add: quote_char_def)
  moreover have "html_special c \<Longrightarrow> byte c < 128" by (auto simp: html_special_def)
  ultimately show ?thesis using that by (cases "byte c < 32 \<or> html_special c") auto
qed

lemma hex4_u00: "hex4 (tl (u00 c @ t)) = Some (byte c)"
  using hex_byte [of c]
  by (simp add: u00_def)

lemma hex4_line_sep: "hex4 (''u2028'' @ t) = Some 8232" "hex4 (''u2029'' @ t) = Some 8233"
  by simp_all

lemma unquote_code_unit:
  assumes "hex4 (u # a # b # c # d # t) = Some x" "x < 0xD800"
  shows "unquote (bsl # u # a # b # c # d # t) = utf8 x @ unquote t"
proof -
  have "u = CHR ''u''" using assms(1) by (simp split: if_split_asm)
  moreover have "unescape_one bsl (u # a # b # c # d # t) = (utf8 x, 5)"
    using assms calculation by (simp add: unescape_one_def del: hex4.simps)
  ultimately show ?thesis by simp
qed

lemma unquote_u00: "unquote (u00 c @ t) = utf8 (byte c) @ unquote t"
  using unquote_code_unit [of "CHR ''u''" _ _ _ _ t "byte c"] hex4_u00 [of c t] byte_less [of c]
  by (simp add: u00_def del: hex4.simps unquote.simps)

lemma unquote_line_sep:
  "unquote (bsl # ''u2028'' @ t) = [CHR 0xE2, CHR 0x80, CHR 0xA8] @ unquote t"
  "unquote (bsl # ''u2029'' @ t) = [CHR 0xE2, CHR 0x80, CHR 0xA9] @ unquote t"
  using hex4_line_sep [of t] by (simp_all add: unquote_code_unit utf8_line_sep del: hex4.simps unquote.simps)

lemma raw_ok_u00: "raw_ok t \<Longrightarrow> raw_ok (u00 c @ t)"
  using hex_byte [of c]
  by (simp add: u00_def raw_ok_unicode)

lemma raw_ok_line_sep: "raw_ok t \<Longrightarrow> raw_ok (bsl # ''u2028'' @ t)" "raw_ok t \<Longrightarrow> raw_ok (bsl # ''u2029'' @ t)"
  by (simp_all add: raw_ok_unicode)

lemma utf8_byte: "byte c < 128 \<Longrightarrow> utf8 (byte c) = [c]"
  by (simp add: utf8_def)

lemma unquote_quote_char: "unquote (quote_char c @ t) = c # unquote t"
proof (cases rule: quote_char_cases [of c])
  case 1
  then show ?thesis
    by (elim insertE) (simp_all add: quote_char_def unquote_simple simple_escape_def del: unquote.simps)
next
  case 2
  then show ?thesis by (simp add: unquote_u00 utf8_byte)
next
  case 3
  then show ?thesis by (simp add: unquote_plain del: unquote.simps)
qed

lemma raw_ok_quote_char: "raw_ok t \<Longrightarrow> raw_ok (quote_char c @ t)"
proof (cases rule: quote_char_cases [of c])
  case 1
  moreover assume "raw_ok t"
  ultimately show ?thesis
    by (elim insertE) (simp_all add: quote_char_def raw_ok_escape escape_ok_def)
qed (simp_all add: raw_ok_u00 raw_ok_plain)

theorem unquote_quote: "unquote (quote s) = s"
proof (induction s rule: quote.induct)
  case 1
  then show ?case by simp
next
  case (2 c r)
  show ?case
  proof (cases "line_sep c r")
    case None
    with 2 show ?thesis by (simp add: unquote_quote_char)
  next
    case (Some s)
    moreover have "quote (c # r) = s @ quote (drop 2 r)" using Some by simp
    moreover have "unquote (quote (drop 2 r)) = drop 2 r" using 2(2) [OF Some] .
    ultimately show ?thesis using unquote_line_sep [of "quote (drop 2 r)"]
      by (cases rule: line_sep_cases) (simp_all del: unquote.simps quote.simps)
  qed
qed

lemma raw_ok_quote: "raw_ok (quote s)"
proof (induction s rule: quote.induct)
  case 1
  then show ?case by simp
next
  case (2 c r)
  show ?case
  proof (cases "line_sep c r")
    case None
    with 2 show ?thesis by (simp add: raw_ok_quote_char)
  next
    case (Some s)
    then have "raw_ok (s @ quote (drop 2 r))" using 2(2) [OF Some] raw_ok_line_sep [of "quote (drop 2 r)"]
      by (cases rule: line_sep_cases) simp_all
    with Some show ?thesis by simp
  qed
qed

text \<open>The code unit of the low surrogate at the start of a raw text.\<close>

definition low_surrogate :: "string \<Rightarrow> nat option" where
  "low_surrogate r =
     (case r of [] \<Rightarrow> None
      | b # r' \<Rightarrow> (case (if b = bsl then hex4 r' else None) of
          Some y \<Rightarrow> if 0xDC00 \<le> y \<and> y < 0xE000 then Some y else None
        | None \<Rightarrow> None))"

lemma unquote_unicode:
  assumes "is_hex a" "is_hex b" "is_hex c" "is_hex d"
  shows "unquote (bsl # CHR ''u'' # a # b # c # d # r) =
    (let x = 4096 * hex_num a + 256 * hex_num b + 16 * hex_num c + hex_num d in
     if 0xD800 \<le> x \<and> x < 0xDC00 then
       (case low_surrogate r of
          Some y \<Rightarrow> utf8 (0x10000 + (x - 0xD800) * 1024 + (y - 0xDC00)) @ unquote (drop 6 r)
        | None \<Rightarrow> utf8 rune_error @ unquote r)
     else if 0xDC00 \<le> x \<and> x < 0xE000 then utf8 rune_error @ unquote r
     else utf8 x @ unquote r)"
proof -
  define x where "x = 4096 * hex_num a + 256 * hex_num b + 16 * hex_num c + hex_num d"
  have h: "hex4 (CHR ''u'' # a # b # c # d # r) = Some x" using assms by (simp add: x_def)
  have "unescape_one bsl (CHR ''u'' # a # b # c # d # r) =
     (if 0xD800 \<le> x \<and> x < 0xDC00 then
       (case low_surrogate r of
          Some y \<Rightarrow> (utf8 (0x10000 + (x - 0xD800) * 1024 + (y - 0xDC00)), 11)
        | None \<Rightarrow> (utf8 rune_error, 5))
     else if 0xDC00 \<le> x \<and> x < 0xE000 then (utf8 rune_error, 5)
     else (utf8 x, 5))"
    using h by (cases r) (simp_all add: unescape_one_def low_surrogate_def del: hex4.simps split: option.split)
  then show ?thesis
    by (cases "low_surrogate r") (simp_all add: x_def [symmetric] Let_def)
qed

lemma html_raw_plain:
  assumes "\<not> html_special c" "c \<noteq> CHR 0xE2"
  shows "html_raw (c # r) = c # html_raw r"
  using assms by (simp add: line_sep_None)

lemma html_raw_escape:
  "escape_ok e r' \<Longrightarrow> html_raw (bsl # e # r) = bsl # e # html_raw r"
  using escape_plain [of e r'] by (simp add: html_raw_plain html_special_def del: html_raw.simps)

lemma html_raw_hex: "is_hex a \<Longrightarrow> html_raw (a # r) = a # html_raw r"
  by (rule html_raw_plain) (rule hex_plain, assumption)+

lemma html_raw_unicode:
  assumes "is_hex a" "is_hex b" "is_hex c" "is_hex d"
  shows "html_raw (bsl # CHR ''u'' # a # b # c # d # r) = bsl # CHR ''u'' # a # b # c # d # html_raw r"
proof -
  have "html_raw (bsl # CHR ''u'' # a # b # c # d # r) = bsl # CHR ''u'' # html_raw (a # b # c # d # r)"
    by (simp add: html_raw_plain html_special_def del: html_raw.simps)
  also have "html_raw (a # b # c # d # r) = a # b # c # d # html_raw r"
    using assms by (simp only: html_raw_hex)
  finally show ?thesis by simp
qed

text \<open>What a character of a raw text outside the escapes becomes.\<close>

lemma html_raw_cases:
  assumes "c \<noteq> bsl"
  obtains "html_raw (c # r) = c # html_raw r"
  | "html_special c" "html_raw (c # r) = u00 c @ html_raw r"
  | t where "c = CHR 0xE2" "r = CHR 0x80 # CHR 0xA8 # t" "html_raw (c # r) = bsl # ''u2028'' @ html_raw t"
  | t where "c = CHR 0xE2" "r = CHR 0x80 # CHR 0xA9 # t" "html_raw (c # r) = bsl # ''u2029'' @ html_raw t"
proof (cases "line_sep c r")
  case None
  then show ?thesis using that(1,2) by (cases "html_special c") simp_all
next
  case (Some s)
  then show ?thesis by (cases rule: line_sep_cases) (use Some that(3,4) in simp_all)
qed

lemma raw_ok_cases:
  assumes "raw_ok s"
  obtains "s = []"
  | c r where "s = c # r" "c \<noteq> bsl" "c \<noteq> dq" "32 \<le> byte c" "raw_ok r"
  | e r where "s = bsl # e # r" "escape_ok e (e # r)" "e \<noteq> CHR ''u''" "raw_ok r"
  | a b c d r where "s = bsl # CHR ''u'' # a # b # c # d # r" "is_hex a" "is_hex b" "is_hex c" "is_hex d" "raw_ok r"
proof -
  note elims = that
  have "s = t \<longrightarrow> thesis" if "raw_ok t" for t
    using that
  proof (induction t rule: raw_ok_induct)
    case (plain c r)
    then show ?case using elims(2) [of c r] by simp
  next
    case (escape e r)
    then show ?case using elims(3) [of e r] by simp
  next
    case (unicode a b c d r)
    then show ?case using elims(4) [of a b c d r] by simp
  qed (use elims(1) in simp)
  with assms show ?thesis by blast
qed

lemma hex4_not_u: "e \<noteq> CHR ''u'' \<Longrightarrow> hex4 (e # t) = None"
  by (cases "e # t" rule: hex4.cases) simp_all

lemma low_surrogate_html_raw:
  assumes "raw_ok r"
  shows "low_surrogate (html_raw r) = low_surrogate r \<and>
    (low_surrogate r \<noteq> None \<longrightarrow>
       raw_ok (drop 6 r) \<and> length (drop 6 r) < length r \<and> drop 6 (html_raw r) = html_raw (drop 6 r))"
  using assms
proof (cases rule: raw_ok_cases)
  case 1
  then show ?thesis by (simp add: low_surrogate_def)
next
  case (2 c t)
  have "low_surrogate (html_raw (c # t)) = None"
    using 2(2)
  proof (cases rule: html_raw_cases [of c t])
    case 2
    then have "hex4 (tl (u00 c @ html_raw t)) = Some (byte c)" using hex4_u00 by blast
    moreover have "byte c < 0xDC00" using byte_less [of c] by (rule order.strict_trans) simp
    ultimately show ?thesis using 2 by (simp add: low_surrogate_def u00_def del: hex4.simps)
  next
    case (3 u)
    then show ?thesis using hex4_line_sep(1) [of "html_raw u"]
      by (simp add: low_surrogate_def del: hex4.simps html_raw.simps)
  next
    case (4 u)
    then show ?thesis using hex4_line_sep(2) [of "html_raw u"]
      by (simp add: low_surrogate_def del: hex4.simps html_raw.simps)
  next
    case 1
    show ?thesis unfolding 1 using 2(2) by (simp add: low_surrogate_def)
  qed
  moreover have "low_surrogate (c # t) = None" using 2(2) by (simp add: low_surrogate_def)
  ultimately show ?thesis using 2(1) by simp
next
  case (3 e t)
  have "hex4 (e # t) = None" "hex4 (e # html_raw t) = None"
    using 3(3) by (rule hex4_not_u)+
  then show ?thesis using 3 by (simp add: html_raw_escape [of e "e # t"] low_surrogate_def del: html_raw.simps)
next
  case (4 a b c d t)
  then show ?thesis by (simp add: html_raw_unicode low_surrogate_def del: html_raw.simps)
qed

theorem unquote_html_raw: "raw_ok s \<Longrightarrow> unquote (html_raw s) = unquote s"
proof (induction s rule: length_induct)
  case (1 s)
  note IH = 1(1) [rule_format]
  from 1(2) show ?case
  proof (cases rule: raw_ok_cases)
    case 1
    then show ?thesis by simp
  next
    case (2 c r)
    show ?thesis
      using 2(2)
    proof (cases rule: html_raw_cases [of c r])
      case 1
      then show ?thesis using IH [of r] 2 by (simp add: unquote_plain del: html_raw.simps unquote.simps)
    next
      case h: 2
      then have "byte c < 128" by (auto simp: html_special_def)
      then show ?thesis using h IH [of r] 2
        by (simp add: unquote_plain unquote_u00 utf8_byte del: html_raw.simps unquote.simps)
    next
      case h: (3 t)
      then have "raw_ok t" using 2(5) by (simp add: raw_ok_plain)
      then show ?thesis using h IH [of t] 2(1) unquote_line_sep(1) [of "html_raw t"]
        by (simp add: unquote_plain del: html_raw.simps unquote.simps)
    next
      case h: (4 t)
      then have "raw_ok t" using 2(5) by (simp add: raw_ok_plain)
      then show ?thesis using h IH [of t] 2(1) unquote_line_sep(2) [of "html_raw t"]
        by (simp add: unquote_plain del: html_raw.simps unquote.simps)
    qed
  next
    case (3 e r)
    then show ?thesis using IH [of r]
      by (simp add: html_raw_escape [of e "e # r"] unquote_simple del: html_raw.simps unquote.simps)
  next
    case (4 a b c d r)
    have "unquote (html_raw (drop 6 r)) = unquote (drop 6 r)" if "low_surrogate r \<noteq> None"
      using low_surrogate_html_raw [OF 4(6)] that IH [of "drop 6 r"] 4(1) by simp
    moreover have "unquote (html_raw r) = unquote r" using IH [of r] 4(1,6) by simp
    moreover have "html_raw s = bsl # CHR ''u'' # a # b # c # d # html_raw r"
      using 4 by (simp only: html_raw_unicode)
    ultimately show ?thesis
      using low_surrogate_html_raw [OF 4(6)] 4(1)
      by (cases "low_surrogate r") (simp_all only: unquote_unicode [OF 4(2-5)] Let_def option.case, auto)
  qed
qed

theorem raw_ok_html_raw: "raw_ok s \<Longrightarrow> raw_ok (html_raw s)"
proof (induction s rule: length_induct)
  case (1 s)
  note IH = 1(1) [rule_format]
  from 1(2) show ?case
  proof (cases rule: raw_ok_cases)
    case 1
    then show ?thesis by simp
  next
    case (2 c r)
    show ?thesis
      using 2(2)
    proof (cases rule: html_raw_cases [of c r])
      case 1
      then show ?thesis using IH [of r] 2 by (simp add: raw_ok_plain del: html_raw.simps)
    next
      case h: 2
      then show ?thesis using IH [of r] 2 by (simp add: raw_ok_u00 del: html_raw.simps)
    next
      case h: (3 t)
      then have "raw_ok t" using 2(5) by (simp add: raw_ok_plain)
      then show ?thesis using h IH [of t] 2(1) raw_ok_line_sep(1) [of "html_raw t"]
        by (simp del: html_raw.simps)
    next
      case h: (4 t)
      then have "raw_ok t" using 2(5) by (simp add: raw_ok_plain)
      then show ?thesis using h IH [of t] 2(1) raw_ok_line_sep(2) [of "html_raw t"]
        by (simp del: html_raw.simps)
    qed
  next
    case (3 e r)
    then have "escape_ok e (e # html_raw r)" by (simp add: escape_ok_def)
    then show ?thesis using IH [of r] 3
      by (simp add: html_raw_escape [of e "e # r"] raw_ok_escape del: html_raw.simps)
  next
    case (4 a b c d r)
    then show ?thesis using IH [of r] by (simp add: html_raw_unicode raw_ok_unicode del: html_raw.simps)
  qed
qed

text \<open>What the scanner returns is well formed, and so is a compacted message.\<close>

lemma pword_wf: "pword s = Some (j, t) \<Longrightarrow> wf_json j"
  by (auto simp: pword_def pnumber_def Let_def split: if_splits)

lemma pstring_raw_okD: "pstring s = Some (a, b) \<Longrightarrow> raw_ok a"
  by (simp add: pstring_raw_ok)

lemma pelems_SucD:
  assumes "pelems (Suc n) s = Some (xs, t)"
  obtains x r where "pvalue n s = Some (x, r)" "xs = [x]"
  | x r ys u where "pvalue n s = Some (x, r)" "pelems n u = Some (ys, t)" "xs = x # ys"
  using assms that by (auto split: option.splits list.splits if_split_asm)

lemma pmembers_SucD:
  assumes "pmembers (Suc n) s = Some (ms, t)"
  obtains r k u v x w where "pstring r = Some (k, u)" "pvalue n v = Some (x, w)" "ms = [(k, x)]"
  | r k u v x w ns y where "pstring r = Some (k, u)" "pvalue n v = Some (x, w)" "pmembers n y = Some (ns, t)"
      "ms = (k, x) # ns"
  using assms that by (auto split: option.splits list.splits if_split_asm)

lemma pvalue_SucD:
  assumes "pvalue (Suc n) s = Some (j, t)"
  obtains r x where "pstring r = Some (x, t)" "j = JStr x"
  | "j = JArr []" | "j = JObj []"
  | r xs where "pelems n r = Some (xs, t)" "j = JArr xs"
  | r ms where "pmembers n r = Some (ms, t)" "j = JObj ms"
  | r where "pword r = Some (j, t)"
  using assms that by (auto split: list.splits if_split_asm)

lemma pvalue_wf_all:
  "(\<forall>s j t. pvalue n s = Some (j, t) \<longrightarrow> wf_json j) \<and>
   (\<forall>s xs t. pelems n s = Some (xs, t) \<longrightarrow> list_all wf_json xs) \<and>
   (\<forall>s ms t. pmembers n s = Some (ms, t) \<longrightarrow> list_all (\<lambda>(k, v). raw_ok k \<and> wf_json v) ms)"
proof (induction n)
  case 0
  then show ?case by simp
next
  case (Suc n)
  show ?case
  proof (intro conjI allI impI)
    fix s j t assume "pvalue (Suc n) s = Some (j, t)"
    then show "wf_json j"
    proof (cases rule: pvalue_SucD)
      case (1 r x)
      then show ?thesis by (simp add: pstring_raw_okD)
    next
      case (4 r xs)
      then show ?thesis using Suc.IH wf_json.simps(3) [of xs] by blast
    next
      case (5 r ms)
      then show ?thesis using Suc.IH wf_json.simps(4) [of ms] by blast
    qed (simp_all add: pword_wf)
  next
    fix s xs t assume "pelems (Suc n) s = Some (xs, t)"
    then show "list_all wf_json xs"
    proof (cases rule: pelems_SucD)
      case (1 x r)
      with Suc.IH have "wf_json x" by blast
      with 1 show ?thesis by simp
    next
      case (2 x r ys u)
      with Suc.IH have "wf_json x" "list_all wf_json ys" by blast+
      with 2 show ?thesis by simp
    qed
  next
    fix s ms t assume "pmembers (Suc n) s = Some (ms, t)"
    then show "list_all (\<lambda>(k, v). raw_ok k \<and> wf_json v) ms"
    proof (cases rule: pmembers_SucD)
      case (1 r k u v x w)
      with Suc.IH have "wf_json x" by blast
      with 1 show ?thesis by (simp add: pstring_raw_okD)
    next
      case (2 r k u v x w ns y)
      with Suc.IH have "wf_json x" "list_all (\<lambda>(k, v). raw_ok k \<and> wf_json v) ns" by blast+
      with 2 show ?thesis by (simp add: pstring_raw_okD)
    qed
  qed
qed

theorem parse_json_wf:
  assumes "parse_json s = Some j"
  shows "wf_json j"
proof -
  obtain t where "pvalue (2 * length s + 2) s = Some (j, t)"
    using assms by (auto simp: parse_json_def simp del: pvalue.simps split: option.splits if_splits)
  then show ?thesis using pvalue_wf_all [of "2 * length s + 2"] by blast
qed

lemma wf_compact: "wf_json j \<Longrightarrow> wf_json (compact j)"
  by (induction j rule: compact.induct) (auto simp: list_all_iff raw_ok_html_raw)

subsection \<open>Objects as maps\<close>

text \<open>The members of an object as a Go map: decoded keys, the last value of each.\<close>

definition members_map :: "(string \<times> json) list \<Rightarrow> (string, json) gomap" where
  "members_map ms = fold (\<lambda>(k, v). put (unquote k) v) ms []"

definition marshal_map :: "(string, json) gomap \<Rightarrow> json" where
  "marshal_map m = JObj (map (\<lambda>(k, v). (quote k, compact v)) (sort_key fst m))"

lemma members_map_wf: "wf_map (members_map ms)"
proof -
  have "wf_map m \<Longrightarrow> wf_map (fold (\<lambda>(k, v). put (unquote k) v) ms m)" for m
    by (induction ms arbitrary: m) auto
  then show ?thesis by (simp add: members_map_def)
qed

lemma map_of_members_map: "map_of (members_map ms) k = map_of (rev (map (\<lambda>(k, v). (unquote k, v)) ms)) k"
proof -
  have "map_of (fold (\<lambda>(k, v). put (unquote k) v) ms m) = map_of m ++ map_of (rev (map (\<lambda>(k, v). (unquote k, v)) ms))" for m
    by (induction ms arbitrary: m) (auto simp: fun_eq_iff map_add_def split: option.splits)
  from this [of "[]"] show ?thesis by (simp add: members_map_def)
qed

lemma map_of_marshal_map:
  assumes "wf_map m" "marshal_map m = JObj ms"
  shows "map_of (members_map ms) k = map_option compact (map_of m k)"
proof -
  define sm where "sm = sort_key fst m"
  have "distinct (map fst sm)" "set sm = set m" using assms(1)
    by (simp_all add: sm_def distinct_map) 
  then have eq: "map_of sm = map_of m"
    using assms(1) by (simp add: map_of_inject_set)
  have "map (\<lambda>(k, v). (unquote k, v)) ms = map (\<lambda>(k, v). (k, compact v)) sm"
    using assms(2) by (auto simp: marshal_map_def sm_def unquote_quote)
  then have "map_of (members_map ms) k = map_of (rev (map (\<lambda>(k, v). (k, compact v)) sm)) k"
    by (simp add: map_of_members_map)
  also have "\<dots> = map_of (map (\<lambda>(k, v). (k, compact v)) sm) k"
    using \<open>distinct (map fst sm)\<close> by (subst fun_cong [OF map_of_inject_set [THEN iffD2]]) (simp_all add: comp_def split_def rev_map [symmetric])
  also have "\<dots> = map_option compact (map_of sm k)" by (simp add: map_of_map)
  finally show ?thesis by (simp add: eq)
qed

lemma wf_members_map: "list_all (\<lambda>(k, v). raw_ok k \<and> wf_json v) ms \<Longrightarrow> (k, v) \<in> set (members_map ms) \<Longrightarrow> wf_json v"
proof -
  have "list_all (\<lambda>(k, v). raw_ok k \<and> wf_json v) ms \<Longrightarrow> \<forall>(k, v) \<in> set m. wf_json v \<Longrightarrow>
     \<forall>(k, v) \<in> set (fold (\<lambda>(k, v). put (unquote k) v) ms m). wf_json v" for m
  proof (induction ms arbitrary: m)
    case (Cons p ms)
    obtain a b where p: "p = (a, b)" by fastforce
    have "\<forall>(k, v) \<in> set (put (unquote a) b m). wf_json v"
      using Cons.prems p set_put_subset [of "unquote a" b m] by auto
    with Cons p show ?case by simp
  qed simp
  from this [of "[]"] show "list_all (\<lambda>(k, v). raw_ok k \<and> wf_json v) ms \<Longrightarrow> (k, v) \<in> set (members_map ms) \<Longrightarrow> wf_json v"
    by (auto simp: members_map_def)
qed

lemma wf_marshal_map: "(\<And>k v. (k, v) \<in> set m \<Longrightarrow> wf_json v) \<Longrightarrow> wf_json (marshal_map m)"
  by (auto simp: marshal_map_def list_all_iff raw_ok_quote wf_compact)

subsection \<open>Numbers\<close>

text \<open>\<open>strconv.ParseFloat\<close> of a decimal number: optional sign, digits with an optional point,
  optional exponent; a value that would round above the largest float is an error.\<close>

definition split_sign :: "string \<Rightarrow> bool \<times> string" where
  "split_sign s =
     (case s of [] \<Rightarrow> (False, [])
      | c # r \<Rightarrow> if c = CHR ''-'' then (True, r) else if c = CHR ''+'' then (False, r) else (False, s))"

definition parse_exp :: "string \<Rightarrow> int option" where
  "parse_exp s =
     (case s of [] \<Rightarrow> Some 0
      | c # r \<Rightarrow>
          if c = CHR ''e'' \<or> c = CHR ''E'' then
            (case split_sign r of (neg, t) \<Rightarrow>
               if t \<noteq> [] \<and> list_all is_digit t
               then Some (if neg then - int (digits_val t) else int (digits_val t)) else None)
          else None)"

definition dec_value :: "nat \<Rightarrow> int \<Rightarrow> real" where
  "dec_value m e = (if 0 \<le> e then real m * 10 ^ nat e else real m / 10 ^ nat (- e))"

definition float_limit :: real where "float_limit = 2 ^ 1024 - 2 ^ 970"

definition parse_float :: "string \<Rightarrow> real option" where
  "parse_float s =
     (case split_sign s of (neg, t) \<Rightarrow>
        let ip = takeWhile is_digit t;
            r1 = dropWhile is_digit t;
            dot = (r1 \<noteq> [] \<and> hd r1 = CHR ''.'');
            fp = (if dot then takeWhile is_digit (tl r1) else []);
            r2 = (if dot then dropWhile is_digit (tl r1) else r1)
        in if ip = [] \<and> fp = [] then None
           else (case parse_exp r2 of None \<Rightarrow> None
             | Some e \<Rightarrow>
                 let v = dec_value (digits_val (ip @ fp)) (e - int (length fp))
                 in if float_limit \<le> v then None else Some (if neg then - v else v)))"

end
