(* ===== verification/Durations.thy ===== *)
theory Durations
  imports Json
begin

text \<open>
  Go's text form of durations as the settings use it: \<open>time.ParseDuration\<close>,
  \<open>Duration.String\<close> and the settings' own \<open>FormatDuration\<close>. The fraction of a unit is computed
  exactly where Go uses \<open>float64\<close>. The lemmas show that a duration of whole seconds is read
  back from its printed form.
\<close>

text \<open>The units in nanoseconds; the micro sign and the Greek letter are two bytes each.\<close>

definition unit_map :: "(string, int) gomap" where
  "unit_map =
     [(''ns'', 1), (''us'', 1000), ([CHR 0xC2, CHR 0xB5, CHR ''s''], 1000), ([CHR 0xCE, CHR 0xBC, CHR ''s''], 1000),
      (''ms'', millisecond), (''s'', second), (''m'', minute), (''h'', hour)]"

definition unit_char :: "char \<Rightarrow> bool" where
  "unit_char c \<longleftrightarrow> c \<noteq> CHR ''.'' \<and> \<not> is_digit c"

definition fraction_value :: "int \<Rightarrow> string \<Rightarrow> int" where
  "fraction_value u ds = int (digits_val ds) * u div 10 ^ length ds"

text \<open>One number with its unit: its value and the rest of the text.\<close>

definition duration_term :: "string \<Rightarrow> (int \<times> string) option" where
  "duration_term s =
     (let ip = takeWhile is_digit s; r1 = dropWhile is_digit s;
          dot = (r1 \<noteq> [] \<and> hd r1 = CHR ''.'');
          fp = (if dot then takeWhile is_digit (tl r1) else []);
          r2 = (if dot then dropWhile is_digit (tl r1) else r1);
          u = takeWhile unit_char r2; v = int (digits_val ip)
      in if 2 ^ 63 < v \<or> ip = [] \<and> fp = [] \<or> u = [] then None
         else (case map_of unit_map u of None \<Rightarrow> None
           | Some un \<Rightarrow>
               if 2 ^ 63 div un < v \<or> 2 ^ 63 < v * un + fraction_value un fp then None
               else Some (v * un + fraction_value un fp, dropWhile unit_char r2)))"

lemma duration_term_shorter: "duration_term s = Some (v, r) \<Longrightarrow> length r < length s"
proof -
  assume a: "duration_term s = Some (v, r)"
  define r1 where "r1 = dropWhile is_digit s"
  define r2 where "r2 = (if r1 \<noteq> [] \<and> hd r1 = CHR ''.'' then dropWhile is_digit (tl r1) else r1)"
  have r: "r = dropWhile unit_char r2" "takeWhile unit_char r2 \<noteq> []"
    using a by (auto simp: duration_term_def Let_def r1_def r2_def split: option.splits if_splits)
  have "length (dropWhile is_digit (tl r1)) \<le> length (tl r1)" by (rule length_dropWhile_le)
  then have "length r2 \<le> length r1" by (auto simp: r2_def)
  moreover have "length r1 \<le> length s" by (simp add: r1_def length_dropWhile_le)
  moreover have "length r2 = length (takeWhile unit_char r2) + length r"
    unfolding r(1) by (metis length_append takeWhile_dropWhile_id)
  ultimately show ?thesis using r(2) by (cases "takeWhile unit_char r2") auto
qed

function duration_terms :: "int \<Rightarrow> string \<Rightarrow> int option" where
  "duration_terms d s =
     (if s = [] then Some d
      else (case duration_term s of None \<Rightarrow> None
        | Some (v, r) \<Rightarrow> if 2 ^ 63 < d + v then None else duration_terms (d + v) r))"
  by pat_completeness auto
termination by (relation "measure (\<lambda>(d, s). length s)") (auto dest: duration_term_shorter)

declare duration_terms.simps [simp del]

definition parse_duration :: "string \<Rightarrow> int option" where
  "parse_duration s =
     (case split_sign s of (neg, t) \<Rightarrow>
        if t = ''0'' then Some 0
        else if t = [] then None
        else (case duration_terms 0 t of None \<Rightarrow> None
          | Some d \<Rightarrow> if neg then Some (- d) else if 2 ^ 63 - 1 < d then None else Some d))"

text \<open>\<open>fmtFrac\<close>: the fraction without its trailing zeros, with the point if any digit is left.\<close>

definition fmt_frac :: "nat \<Rightarrow> nat \<Rightarrow> string" where
  "fmt_frac u prec =
     (let ds = show_nat (u mod 10 ^ prec);
          padded = replicate (prec - length ds) (CHR ''0'') @ ds;
          kept = rev (dropWhile (\<lambda>c. c = CHR ''0'') (rev padded))
      in if prec = 0 \<or> kept = [] then [] else CHR ''.'' # kept)"

definition duration_string :: "int \<Rightarrow> string" where
  "duration_string d =
     (let u = nat \<bar>d\<bar>; sec = 1000000000;
          body =
            (if u = 0 then ''0s''
             else if u < 1000 then show_nat u @ ''ns''
             else if u < 1000000 then show_nat (u div 1000) @ fmt_frac u 3 @ [CHR 0xC2, CHR 0xB5, CHR ''s'']
             else if u < sec then show_nat (u div 1000000) @ fmt_frac u 6 @ ''ms''
             else
               (let s = u div sec;
                    tail = show_nat (s mod 60) @ fmt_frac u 9 @ ''s'';
                    m = s div 60
                in if m = 0 then tail
                   else if m div 60 = 0 then show_nat (m mod 60) @ ''m'' @ tail
                   else show_nat (m div 60) @ ''h'' @ show_nat (m mod 60) @ ''m'' @ tail))
      in if d < 0 then CHR ''-'' # body else body)"

definition format_duration :: "int \<Rightarrow> string" where
  "format_duration d =
     (if d = 0 then ''0s''
      else if go_mod d hour = 0 then itoa (go_div d hour) @ ''h''
      else if go_mod d minute = 0 then itoa (go_div d minute) @ ''m''
      else if go_mod d second = 0 then itoa (go_div d second) @ ''s''
      else duration_string d)"

subsection \<open>Whole seconds\<close>

lemma unit_map_facts:
  "map_of unit_map ''s'' = Some second" "map_of unit_map ''m'' = Some minute" "map_of unit_map ''h'' = Some hour"
  by (simp_all add: unit_map_def)

lemma duration_term_single:
  assumes "u \<in> {''s'', ''m'', ''h''}" "map_of unit_map u = Some un" "0 < un" "int n * un < 2 ^ 63"
  shows "duration_term (show_nat n @ u) = Some (int n * un, [])"
proof -
  have dig: "\<forall>c \<in> set (show_nat n). is_digit c" by (rule show_nat_digits)
  have u: "takeWhile is_digit u = []" "dropWhile is_digit u = u" "u \<noteq> []" "hd u \<noteq> CHR ''.''"
      "takeWhile unit_char u = u" "dropWhile unit_char u = []"
    using assms(1) by (auto simp: is_digit_def unit_char_def)
  have t: "takeWhile is_digit (show_nat n @ u) = show_nat n" "dropWhile is_digit (show_nat n @ u) = u"
    using dig u by (simp_all add: takeWhile_append dropWhile_append)
  have "int n \<le> int n * un" using assms(3) by (cases "n = 0") (auto simp: mult_le_cancel_left1)
  then have n: "int n \<le> 2 ^ 63" using assms(4) by linarith
  have "int n * un div un \<le> 2 ^ 63 div un" using assms(3,4) by (intro zdiv_mono1) auto
  then have d: "int n \<le> 2 ^ 63 div un" using assms(3) by simp
  show ?thesis using n d assms(2,4) show_nat_nonempty [of n] u(3)
    by (simp add: duration_term_def t u fraction_value_def digits_val_def [of "[]"] Let_def)
qed

lemma parse_duration_single:
  assumes "u \<in> {''s'', ''m'', ''h''}" "map_of unit_map u = Some un" "0 < un" "int n * un < 2 ^ 63"
  shows "parse_duration (show_nat n @ u) = Some (int n * un)"
proof -
  obtain c r where s: "show_nat n = c # r" using show_nat_nonempty [of n] by (cases "show_nat n") auto
  then have "is_digit c" using show_nat_digits [of n] by simp
  then have "split_sign (show_nat n @ u) = (False, show_nat n @ u)"
    using s by (auto simp: split_sign_def is_digit_def)
  moreover have "show_nat n @ u \<noteq> ''0''" "show_nat n @ u \<noteq> []"
    using assms(1) s by auto
  moreover have "duration_terms 0 (show_nat n @ u) = Some (int n * un)"
    using duration_term_single [OF assms] s assms(4)
    by (subst duration_terms.simps) (simp add: duration_terms.simps)
  ultimately show ?thesis using assms(4) by (simp add: parse_duration_def)
qed

theorem parse_format_duration:
  assumes "0 \<le> d" "d < 2 ^ 63" "d mod second = 0"
  shows "parse_duration (format_duration d) = Some d"
proof (cases "d = 0")
  case True
  have "parse_duration ''0s'' = Some 0" by code_simp
  with True show ?thesis by (simp add: format_duration_def)
next
  case False
  then have pos: "0 < d" using assms(1) by simp
  have unit: "parse_duration (itoa (go_div d un) @ u) = Some d"
    if "u \<in> {''s'', ''m'', ''h''}" "map_of unit_map u = Some un" "0 < un" "d mod un = 0" for u un
  proof -
    have "0 \<le> d div un" using pos that(3) by (simp add: pos_imp_zdiv_nonneg_iff)
    moreover have "d div un * un = d" using that(4) mult_div_mod_eq [of un d] by (simp add: mult.commute)
    moreover have "itoa (go_div d un) = show_nat (nat (d div un))"
      using calculation(1) pos that(3) by (simp add: itoa_def go_div_nonneg_eq)
    ultimately show ?thesis using parse_duration_single [OF that(1-3), of "nat (d div un)"] assms(2) by simp
  qed
  show ?thesis
    using False pos assms(3) unit [of "''h''" hour] unit [of "''m''" minute] unit [of "''s''" second]
    by (simp add: format_duration_def go_mod_nonneg_eq unit_map_facts)
qed

end
