(* ===== verification/Apierr.thy ===== *)
theory Apierr
  imports Prelude
begin

text \<open>
  Package \<open>apierr\<close>: the errors the admin API returns. A message is its stable key and its
  parameters; the English text rendered from a template is left out, since nothing in the code
  depends on it. A parameter is a string, a number or a nested message.
\<close>

datatype msg = Msg (msg_key: string) (msg_args: "(string \<times> param) list")
and param = PStr string | PInt int | PMsg msg

record api_error =
  ae_status :: nat
  ae_code :: string
  ae_msg :: msg
  ae_fields :: "(string, msg) gomap"

definition validation :: "msg \<Rightarrow> (string, msg) gomap \<Rightarrow> api_error" where
  "validation m fs = \<lparr>ae_status = 400, ae_code = ''validation'', ae_msg = m, ae_fields = fs\<rparr>"

definition not_found :: "msg \<Rightarrow> api_error" where
  "not_found m = \<lparr>ae_status = 404, ae_code = ''not_found'', ae_msg = m, ae_fields = []\<rparr>"

definition conflict :: "msg \<Rightarrow> api_error" where
  "conflict m = \<lparr>ae_status = 409, ae_code = ''conflict'', ae_msg = m, ae_fields = []\<rparr>"

definition pool_check_failed :: "msg \<Rightarrow> api_error" where
  "pool_check_failed m = \<lparr>ae_status = 422, ae_code = ''pool_check_failed'', ae_msg = m, ae_fields = []\<rparr>"

definition internal :: "msg \<Rightarrow> api_error" where
  "internal m = \<lparr>ae_status = 500, ae_code = ''internal'', ae_msg = m, ae_fields = []\<rparr>"

definition pool_not_found :: "string \<Rightarrow> api_error" where
  "pool_not_found i = not_found (Msg ''pool_not_found'' [(''id'', PStr i)])"

end
