(* ===== verification/State.thy ===== *)
theory State
  imports Json Apierr
begin

text \<open>
  Package \<open>state\<close> (\<open>state.go\<close>): pools and settings in the state file.

  \<^item> \<open>state_file\<close> and \<open>pool\<close> are the Go structs; \<open>check\<close> and \<open>pool_field_errors\<close> are the validation
    shared by the API and the loader, with \<open>net.ParseIP\<close> for IPv6 (\<open>parse_ip6\<close>).
  \<^item> \<open>encode_file\<close> and \<open>decode_file\<close> are marshalling and unmarshalling of the structs, the
    version 1 form of a pool included; \<open>clone\<close> is their composition, as in the code.
  \<^item> \<open>store\<close> holds the current file and what the disk holds; whether a write succeeds is a
    parameter. \<open>mutate\<close> takes the closure as a function of the file that also returns what the
    closure assigns to the variables it captures.

  The lemmas show that \<open>check\<close> decides the declarative invariant \<open>valid_file\<close>, that a file
  survives marshalling, and that \<open>mutate\<close> is a transaction that keeps both; the locale
  \<open>transactions\<close> states the last for any store with these laws.
\<close>

definition current_version :: int where "current_version = 2"
definition max_pool_addresses :: nat where "max_pool_addresses = 8"

record address =
  host :: string
  port :: int

text \<open>\<open>Address.String\<close>: \<open>net.JoinHostPort\<close> puts brackets around a host with a colon.\<close>

definition addr_string :: "address \<Rightarrow> string" where
  "addr_string a =
     (if CHR '':'' \<in> set (host a) then ''['' @ host a @ '']:'' @ itoa (port a)
      else host a @ '':'' @ itoa (port a))"

record pool =
  p_id :: string
  p_name :: string
  p_coin :: string
  p_addresses :: "address list"
  p_tls :: bool
  p_tls_skip_verify :: bool
  p_username :: string
  p_password :: string
  p_profit_switch :: bool
  p_timed_target :: bool
  p_solo :: bool
  p_profit_home :: bool

definition zero_pool :: pool where
  "zero_pool = \<lparr>p_id = [], p_name = [], p_coin = [], p_addresses = [], p_tls = False,
     p_tls_skip_verify = False, p_username = [], p_password = [], p_profit_switch = False,
     p_timed_target = False, p_solo = False, p_profit_home = False\<rparr>"

record state_file =
  f_version :: int
  f_active :: string
  f_fallback :: "string list"
  f_pools :: "pool list"
  f_settings :: "(string, json) gomap"
  f_token :: string

definition zero_file :: state_file where
  "zero_file = \<lparr>f_version = 0, f_active = [], f_fallback = [], f_pools = [], f_settings = [], f_token = []\<rparr>"

definition find_pool :: "pool list \<Rightarrow> string \<Rightarrow> pool option" where
  "find_pool ps i = List.find (\<lambda>p. p_id p = i) ps"

subsection \<open>Validation\<close>

definition pool_id_char :: "char \<Rightarrow> bool" where
  "pool_id_char c \<longleftrightarrow> 97 \<le> byte c \<and> byte c \<le> 122 \<or> is_digit c \<or> c = CHR ''_''"

definition valid_pool_id :: "string \<Rightarrow> bool" where
  "valid_pool_id s \<longleftrightarrow> 1 \<le> length s \<and> length s \<le> 32 \<and> list_all pool_id_char s"

text \<open>\<open>net.ParseIP\<close> on text with a colon, without a zone: hexadecimal groups, one ellipsis at
  most, the last two groups possibly a dotted IPv4 address.\<close>

definition parse_ip4_octet :: "string \<Rightarrow> bool" where
  "parse_ip4_octet s \<longleftrightarrow>
     s \<noteq> [] \<and> list_all is_digit s \<and> digits_val s \<le> 255 \<and> (length s = 1 \<or> hd s \<noteq> CHR ''0'')"

definition parse_ip4 :: "string \<Rightarrow> bool" where
  "parse_ip4 s \<longleftrightarrow> (let fs = split_on (CHR ''.'') s in length fs = 4 \<and> list_all parse_ip4_octet fs)"

function ip6_groups :: "nat \<Rightarrow> bool \<Rightarrow> string \<Rightarrow> bool" where
  "ip6_groups i ellipsis s =
     (if 16 \<le> i then s = [] \<and> \<not> ellipsis
      else
       (let h = takeWhile is_hex s; r = dropWhile is_hex s in
        if h = [] \<or> 4 < length h then False
        else if r \<noteq> [] \<and> hd r = CHR ''.'' then
          (ellipsis \<or> i = 12) \<and> i + 4 \<le> 16 \<and> parse_ip4 s \<and> (if i + 4 < 16 then ellipsis else \<not> ellipsis)
        else if r = [] then (if i + 2 < 16 then ellipsis else \<not> ellipsis)
        else if hd r \<noteq> CHR '':'' \<or> tl r = [] then False
        else if hd (tl r) = CHR '':'' then
          (if ellipsis then False
           else if tl (tl r) = [] then i + 2 < 16
           else ip6_groups (i + 2) True (tl (tl r)))
        else ip6_groups (i + 2) ellipsis (tl r)))"
  by pat_completeness auto
termination by (relation "measure (\<lambda>(i, e, s). 16 - i)") auto

definition parse_ip6 :: "string \<Rightarrow> bool" where
  "parse_ip6 s \<longleftrightarrow>
     CHR ''%'' \<notin> set s \<and> CHR ''.'' \<notin> set (takeWhile (\<lambda>c. c \<noteq> CHR '':'') s) \<and>
     (if has_prefix s ''::'' then drop 2 s = [] \<or> ip6_groups 0 True (drop 2 s)
      else ip6_groups 0 False s)"

fun has_sub :: "string \<Rightarrow> string \<Rightarrow> bool" where
  "has_sub [] p = (p = [])"
| "has_sub (c # s) p = (has_prefix (c # s) p \<or> has_sub s p)"

definition host_error :: "string \<Rightarrow> msg option" where
  "host_error h =
     (if h = [] then Some (Msg ''addr_host_missing'' [])
      else if hd h = CHR ''['' \<or> last h = CHR '']'' then Some (Msg ''addr_ipv6_brackets'' [])
      else if has_sub h ''://'' \<or> CHR '' '' \<in> set h \<or> CHR ''/'' \<in> set h then Some (Msg ''addr_scheme'' [])
      else if length (filter (\<lambda>c. c = CHR '':'') h) = 1 then Some (Msg ''addr_port_separate'' [])
      else if CHR '':'' \<in> set h \<and> \<not> parse_ip6 h then Some (Msg ''addr_ipv6_invalid'' [])
      else None)"

definition address_reason :: "string list \<Rightarrow> address \<Rightarrow> msg option" where
  "address_reason seen a =
     (case host_error (host a) of Some m \<Rightarrow> Some m
      | None \<Rightarrow>
          if port a < 1 \<or> 65535 < port a then Some (Msg ''addr_port'' [])
          else if to_lower (addr_string a) \<in> set seen then Some (Msg ''addr_duplicate'' [])
          else None)"

fun address_loop :: "nat \<Rightarrow> string list \<Rightarrow> address list \<Rightarrow> msg option" where
  "address_loop i seen [] = None"
| "address_loop i seen (a # as) =
     (case address_reason seen a of
        Some r \<Rightarrow> Some (Msg ''pool_address''
          [(''n'', PInt (int i + 1)), (''address'', PStr (addr_string a)), (''reason'', PMsg r)])
      | None \<Rightarrow> address_loop (Suc i) (to_lower (addr_string a) # seen) as)"

definition addresses_error :: "address list \<Rightarrow> msg option" where
  "addresses_error as =
     (if as = [] then Some (Msg ''pool_addresses_empty'' [])
      else if max_pool_addresses < length as
      then Some (Msg ''pool_addresses_many'' [(''max'', PInt (int max_pool_addresses))])
      else address_loop 0 [] as)"

definition pool_field_errors :: "pool \<Rightarrow> (string, msg) gomap" where
  "pool_field_errors p = concat
    [if p_name p = [] \<or> 64 < rune_count (p_name p) then [(''name'', Msg ''pool_name'' [])] else [],
     if 16 < length (p_coin p) then [(''coin'', Msg ''pool_coin'' [])] else [],
     (case addresses_error (p_addresses p) of Some m \<Rightarrow> [(''addresses'', m)] | None \<Rightarrow> []),
     if p_username p = [] \<or> 256 < length (p_username p) then [(''username'', Msg ''pool_username'' [])]
     else if CHR '' '' \<in> set (p_username p) \<or> CHR 0x09 \<in> set (p_username p)
     then [(''username'', Msg ''pool_username_spaces'' [])] else [],
     if 256 < length (p_password p) then [(''password'', Msg ''pool_password'' [])] else [],
     if p_tls_skip_verify p \<and> \<not> p_tls p then [(''tls_skip_verify'', Msg ''pool_skip_verify'' [])] else [],
     if p_solo p \<and> p_profit_switch p then [(''profit_switch'', Msg ''pool_solo_profit'' [])] else []]"

datatype state_error =
    PoolWithoutId
  | InvalidPoolId string
  | DuplicatePoolId string
  | InvalidPoolFields string "(string, msg) gomap"
  | ActiveNotInPools string
  | ActiveEmpty
  | FallbackNotInPools string
  | FallbackIsActive string
  | FallbackTwice string

fun check_pools :: "string list \<Rightarrow> pool list \<Rightarrow> state_error + string list" where
  "check_pools ids [] = Inr ids"
| "check_pools ids (p # ps) =
     (if p_id p = [] then Inl PoolWithoutId
      else if \<not> valid_pool_id (p_id p) then Inl (InvalidPoolId (p_id p))
      else if p_id p \<in> set ids then Inl (DuplicatePoolId (p_id p))
      else if pool_field_errors p \<noteq> [] then Inl (InvalidPoolFields (p_id p) (pool_field_errors p))
      else check_pools (p_id p # ids) ps)"

fun check_fallback :: "string \<Rightarrow> string list \<Rightarrow> string list \<Rightarrow> string list \<Rightarrow> state_error option" where
  "check_fallback active ids seen [] = None"
| "check_fallback active ids seen (i # is) =
     (if i \<notin> set ids then Some (FallbackNotInPools i)
      else if i = active then Some (FallbackIsActive i)
      else if i \<in> set seen then Some (FallbackTwice i)
      else check_fallback active ids (i # seen) is)"

definition check :: "state_file \<Rightarrow> state_error option" where
  "check f =
     (case check_pools [] (f_pools f) of Inl e \<Rightarrow> Some e
      | Inr ids \<Rightarrow>
          if f_active f \<noteq> [] \<and> f_active f \<notin> set ids then Some (ActiveNotInPools (f_active f))
          else if f_active f = [] \<and> f_pools f \<noteq> [] then Some ActiveEmpty
          else check_fallback (f_active f) ids [] (f_fallback f))"

subsection \<open>Marshalling\<close>

definition json_string :: "string \<Rightarrow> json" where "json_string s = JStr (quote s)"
definition json_int :: "int \<Rightarrow> json" where "json_int i = JNum (itoa i)"

definition encode_address :: "address \<Rightarrow> json" where
  "encode_address a = JObj [(''host'', json_string (host a)), (''port'', json_int (port a))]"

definition omitempty :: "string \<Rightarrow> bool \<Rightarrow> (string \<times> json) list" where
  "omitempty k b = (if b then [(k, JBool True)] else [])"

definition encode_pool :: "pool \<Rightarrow> json" where
  "encode_pool p = JObj
    ([(''id'', json_string (p_id p)), (''name'', json_string (p_name p)), (''coin'', json_string (p_coin p)),
      (''addresses'', JArr (map encode_address (p_addresses p))), (''tls'', JBool (p_tls p)),
      (''tls_skip_verify'', JBool (p_tls_skip_verify p)), (''username'', json_string (p_username p)),
      (''password'', json_string (p_password p))] @
     omitempty ''profit_switch'' (p_profit_switch p) @ omitempty ''timed_target'' (p_timed_target p) @
     omitempty ''solo'' (p_solo p) @ omitempty ''profit_home'' (p_profit_home p))"

definition encode_file :: "state_file \<Rightarrow> json" where
  "encode_file f = JObj
    ([(''version'', json_int (f_version f)), (''active_pool'', json_string (f_active f)),
      (''fallback_pools'', JArr (map json_string (f_fallback f))),
      (''pools'', JArr (map encode_pool (f_pools f))), (''settings'', marshal_map (f_settings f))] @
     (if f_token f = [] then [] else [(''telegram_token'', json_string (f_token f))]))"

text \<open>Unmarshalling into a field: null leaves it, another type is an error.\<close>

definition into_string :: "(string \<Rightarrow> 'a \<Rightarrow> 'a) \<Rightarrow> json \<Rightarrow> 'a \<Rightarrow> 'a option" where
  "into_string upd v x = (case v of JStr s \<Rightarrow> Some (upd (unquote s) x) | JNull \<Rightarrow> Some x | _ \<Rightarrow> None)"

definition into_bool :: "(bool \<Rightarrow> 'a \<Rightarrow> 'a) \<Rightarrow> json \<Rightarrow> 'a \<Rightarrow> 'a option" where
  "into_bool upd v x = (case v of JBool b \<Rightarrow> Some (upd b x) | JNull \<Rightarrow> Some x | _ \<Rightarrow> None)"

definition into_int :: "(int \<Rightarrow> 'a \<Rightarrow> 'a) \<Rightarrow> json \<Rightarrow> 'a \<Rightarrow> 'a option" where
  "into_int upd v x =
     (case v of JNum s \<Rightarrow> map_option (\<lambda>i. upd i x) (parse_int s) | JNull \<Rightarrow> Some x | _ \<Rightarrow> None)"

definition into_list :: "(json \<Rightarrow> 'b option) \<Rightarrow> ('b list \<Rightarrow> 'a \<Rightarrow> 'a) \<Rightarrow> json \<Rightarrow> 'a \<Rightarrow> 'a option" where
  "into_list dec upd v x =
     (case v of JArr js \<Rightarrow> map_option (\<lambda>l. upd l x) (those (map dec js)) | JNull \<Rightarrow> Some (upd [] x) | _ \<Rightarrow> None)"

fun decode_fields :: "(string \<Rightarrow> json \<Rightarrow> 'a \<Rightarrow> 'a option) \<Rightarrow> (string \<times> json) list \<Rightarrow> 'a \<Rightarrow> 'a option" where
  "decode_fields f [] x = Some x"
| "decode_fields f ((k, v) # ms) x =
     (case f (to_lower (unquote k)) v x of None \<Rightarrow> None | Some y \<Rightarrow> decode_fields f ms y)"

definition decode_struct :: "(string \<Rightarrow> json \<Rightarrow> 'a \<Rightarrow> 'a option) \<Rightarrow> 'a \<Rightarrow> json \<Rightarrow> 'a option" where
  "decode_struct f z j = (case j of JObj ms \<Rightarrow> decode_fields f ms z | JNull \<Rightarrow> Some z | _ \<Rightarrow> None)"

definition address_field :: "string \<Rightarrow> json \<Rightarrow> address \<Rightarrow> address option" where
  "address_field k v a =
     (if k = ''host'' then into_string (\<lambda>s a. a\<lparr>host := s\<rparr>) v a
      else if k = ''port'' then into_int (\<lambda>i a. a\<lparr>port := i\<rparr>) v a
      else Some a)"

definition decode_address :: "json \<Rightarrow> address option" where
  "decode_address = decode_struct address_field \<lparr>host = [], port = 0\<rparr>"

text \<open>The fields of a pool, with the single host and port of version 1 beside them.\<close>

definition pool_field :: "string \<Rightarrow> json \<Rightarrow> pool \<times> address \<Rightarrow> (pool \<times> address) option" where
  "pool_field k v x =
     (if k = ''id'' then into_string (\<lambda>s (p, a). (p\<lparr>p_id := s\<rparr>, a)) v x
      else if k = ''name'' then into_string (\<lambda>s (p, a). (p\<lparr>p_name := s\<rparr>, a)) v x
      else if k = ''coin'' then into_string (\<lambda>s (p, a). (p\<lparr>p_coin := s\<rparr>, a)) v x
      else if k = ''addresses'' then into_list decode_address (\<lambda>l (p, a). (p\<lparr>p_addresses := l\<rparr>, a)) v x
      else if k = ''tls'' then into_bool (\<lambda>b (p, a). (p\<lparr>p_tls := b\<rparr>, a)) v x
      else if k = ''tls_skip_verify'' then into_bool (\<lambda>b (p, a). (p\<lparr>p_tls_skip_verify := b\<rparr>, a)) v x
      else if k = ''username'' then into_string (\<lambda>s (p, a). (p\<lparr>p_username := s\<rparr>, a)) v x
      else if k = ''password'' then into_string (\<lambda>s (p, a). (p\<lparr>p_password := s\<rparr>, a)) v x
      else if k = ''profit_switch'' then into_bool (\<lambda>b (p, a). (p\<lparr>p_profit_switch := b\<rparr>, a)) v x
      else if k = ''timed_target'' then into_bool (\<lambda>b (p, a). (p\<lparr>p_timed_target := b\<rparr>, a)) v x
      else if k = ''solo'' then into_bool (\<lambda>b (p, a). (p\<lparr>p_solo := b\<rparr>, a)) v x
      else if k = ''profit_home'' then into_bool (\<lambda>b (p, a). (p\<lparr>p_profit_home := b\<rparr>, a)) v x
      else if k = ''host'' then into_string (\<lambda>s (p, a). (p, a\<lparr>host := s\<rparr>)) v x
      else if k = ''port'' then into_int (\<lambda>i (p, a). (p, a\<lparr>port := i\<rparr>)) v x
      else Some x)"

definition decode_pool :: "json \<Rightarrow> pool option" where
  "decode_pool j =
     (case decode_struct pool_field (zero_pool, \<lparr>host = [], port = 0\<rparr>) j of
        None \<Rightarrow> None
      | Some (p, a) \<Rightarrow>
          Some (if p_addresses p = [] \<and> (host a \<noteq> [] \<or> port a \<noteq> 0) then p\<lparr>p_addresses := [a]\<rparr> else p))"

definition decode_string :: "json \<Rightarrow> string option" where
  "decode_string v = into_string (\<lambda>s _. s) v []"

definition file_field :: "string \<Rightarrow> json \<Rightarrow> state_file \<Rightarrow> state_file option" where
  "file_field k v f =
     (if k = ''version'' then into_int (\<lambda>i f. f\<lparr>f_version := i\<rparr>) v f
      else if k = ''active_pool'' then into_string (\<lambda>s f. f\<lparr>f_active := s\<rparr>) v f
      else if k = ''fallback_pools'' then into_list decode_string (\<lambda>l f. f\<lparr>f_fallback := l\<rparr>) v f
      else if k = ''pools'' then into_list decode_pool (\<lambda>l f. f\<lparr>f_pools := l\<rparr>) v f
      else if k = ''settings'' then
        (case v of JObj ms \<Rightarrow> Some (f\<lparr>f_settings := members_map ms\<rparr>) | JNull \<Rightarrow> Some (f\<lparr>f_settings := []\<rparr>) | _ \<Rightarrow> None)
      else if k = ''telegram_token'' then into_string (\<lambda>s f. f\<lparr>f_token := s\<rparr>) v f
      else Some f)"

definition decode_file :: "json \<Rightarrow> state_file option" where
  "decode_file = decode_struct file_field zero_file"

definition clone :: "state_file \<Rightarrow> state_file" where
  "clone f = (case decode_file (encode_file f) of Some c \<Rightarrow> c | None \<Rightarrow> f)"

subsection \<open>The store\<close>

datatype go_error = ApiErr api_error | CheckErr state_error | WriteErr

record store =
  st_cur :: state_file
  st_disk :: "json option"

datatype disk_read = Missing | ReadFails | Contents string

datatype open_error =
    MkdirFails | CannotRead | CannotParse | NewerVersion int | BadState state_error | SaveFails

definition empty_file :: state_file where "empty_file = zero_file\<lparr>f_version := current_version\<rparr>"

definition open_store :: "bool \<Rightarrow> disk_read \<Rightarrow> bool \<Rightarrow> open_error + store" where
  "open_store mkdir_ok r write_ok =
     (if \<not> mkdir_ok then Inl MkdirFails
      else (case r of
          Missing \<Rightarrow> Inr \<lparr>st_cur = empty_file, st_disk = None\<rparr>
        | ReadFails \<Rightarrow> Inl CannotRead
        | Contents text \<Rightarrow>
            (case parse_json text of None \<Rightarrow> Inl CannotParse
             | Some j \<Rightarrow>
               (case decode_file j of None \<Rightarrow> Inl CannotParse
                | Some f \<Rightarrow>
                    if current_version < f_version f then Inl (NewerVersion (f_version f))
                    else
                      (let old = f_version f < current_version;
                           g = f\<lparr>f_version := current_version\<rparr>;
                           retired = has_key (f_settings g) ''rewrite_login_prefixes'';
                           g = (if retired then g\<lparr>f_settings := del ''rewrite_login_prefixes'' (f_settings g)\<rparr> else g)
                       in case check g of
                            Some e \<Rightarrow> Inl (BadState e)
                          | None \<Rightarrow>
                              if old \<or> retired then
                                (if write_ok then Inr \<lparr>st_cur = g, st_disk = Some (encode_file g)\<rparr>
                                 else Inl SaveFails)
                              else Inr \<lparr>st_cur = g, st_disk = Some j\<rparr>)))))"

definition current :: "store \<Rightarrow> state_file" where "current s = clone (st_cur s)"

definition mutate :: "(state_file \<Rightarrow> go_error + state_file \<times> 'a) \<Rightarrow> bool \<Rightarrow> store \<Rightarrow> (go_error + 'a) \<times> store" where
  "mutate fn write_ok s =
     (case fn (clone (st_cur s)) of
        Inl e \<Rightarrow> (Inl e, s)
      | Inr (next, a) \<Rightarrow>
          (case check next of
             Some e \<Rightarrow> (Inl (CheckErr e), s)
           | None \<Rightarrow>
               if write_ok then (Inr a, s\<lparr>st_cur := next, st_disk := Some (encode_file next)\<rparr>)
               else (Inl WriteErr, s)))"

subsection \<open>What the validation decides\<close>

definition valid_pool :: "pool \<Rightarrow> bool" where
  "valid_pool p \<longleftrightarrow> valid_pool_id (p_id p) \<and> pool_field_errors p = []"

definition valid_file :: "state_file \<Rightarrow> bool" where
  "valid_file f \<longleftrightarrow>
     (let ids = map p_id (f_pools f) in
      distinct ids \<and> list_all valid_pool (f_pools f) \<and>
      (f_pools f = [] \<longleftrightarrow> f_active f = []) \<and> (f_active f \<noteq> [] \<longrightarrow> f_active f \<in> set ids) \<and>
      distinct (f_fallback f) \<and> set (f_fallback f) \<subseteq> set ids - {f_active f})"

lemma valid_pool_id_nonempty: "valid_pool_id i \<Longrightarrow> i \<noteq> []"
  by (auto simp: valid_pool_id_def)

lemma check_pools_iff:
  "(\<exists>r. check_pools ids ps = Inr r) \<longleftrightarrow>
     distinct (map p_id ps) \<and> list_all valid_pool ps \<and> set (map p_id ps) \<inter> set ids = {}"
  by (induction ids ps rule: check_pools.induct) (auto simp: valid_pool_def valid_pool_id_nonempty)

lemma check_pools_ids: "check_pools ids ps = Inr r \<Longrightarrow> set r = set (map p_id ps) \<union> set ids"
  by (induction ids ps rule: check_pools.induct) (auto split: if_splits)

lemma check_fallback_iff:
  "check_fallback active ids seen is = None \<longleftrightarrow>
     distinct is \<and> set is \<subseteq> set ids - {active} \<and> set is \<inter> set seen = {}"
  by (induction active ids seen "is" rule: check_fallback.induct) auto

theorem check_iff_valid: "check f = None \<longleftrightarrow> valid_file f"
proof (cases "check_pools [] (f_pools f)")
  case (Inl e)
  then have "\<not> (distinct (map p_id (f_pools f)) \<and> list_all valid_pool (f_pools f))"
    using check_pools_iff [of "[]" "f_pools f"] by simp
  with Inl show ?thesis by (auto simp: check_def valid_file_def Let_def)
next
  case (Inr r)
  then have ps: "distinct (map p_id (f_pools f))" "list_all valid_pool (f_pools f)"
    using check_pools_iff [of "[]" "f_pools f"] by auto
  have r: "set r = p_id ` set (f_pools f)" using check_pools_ids [OF Inr] by simp
  have "p_id p \<noteq> []" if "p \<in> set (f_pools f)" for p
    using that ps(2) valid_pool_id_nonempty by (simp add: list_all_iff valid_pool_def)
  then have "[] \<notin> p_id ` set (f_pools f)" by force
  then show ?thesis using Inr ps r
    by (auto simp: check_def valid_file_def Let_def check_fallback_iff)
qed

text \<open>A valid address list has distinct health keys.\<close>

lemma address_loop_distinct:
  "address_loop i seen as = None \<Longrightarrow>
     distinct (map (to_lower \<circ> addr_string) as) \<and> set (map (to_lower \<circ> addr_string) as) \<inter> set seen = {} \<and>
     (\<forall>a \<in> set as. 1 \<le> port a \<and> port a \<le> 65535 \<and> host_error (host a) = None)"
proof (induction i seen as rule: address_loop.induct)
  case (2 i seen a as)
  then have r: "address_reason seen a = None" by (simp split: option.split_asm)
  with 2(2) have l: "address_loop (Suc i) (to_lower (addr_string a) # seen) as = None" by simp
  have "host_error (host a) = None" "1 \<le> port a" "port a \<le> 65535" "to_lower (addr_string a) \<notin> set seen"
    using r by (simp_all add: address_reason_def split: option.split_asm if_split_asm)
  with 2(1) [OF r l] show ?case by auto
qed simp

lemma valid_pool_addresses:
  assumes "valid_pool p"
  shows "p_addresses p \<noteq> []" "length (p_addresses p) \<le> 8"
    "distinct (map (to_lower \<circ> addr_string) (p_addresses p))"
    "\<And>a. a \<in> set (p_addresses p) \<Longrightarrow> 1 \<le> port a \<and> port a \<le> 65535"
proof -
  have e: "addresses_error (p_addresses p) = None"
    using assms by (auto simp: valid_pool_def pool_field_errors_def split: option.splits)
  then show "p_addresses p \<noteq> []" "length (p_addresses p) \<le> 8"
    by (auto simp: addresses_error_def max_pool_addresses_def split: if_splits)
  from e have "address_loop 0 [] (p_addresses p) = None"
    by (auto simp: addresses_error_def split: if_splits)
  from address_loop_distinct [OF this]
  show "distinct (map (to_lower \<circ> addr_string) (p_addresses p))"
    "\<And>a. a \<in> set (p_addresses p) \<Longrightarrow> 1 \<le> port a \<and> port a \<le> 65535" by auto
qed

lemma valid_pool_fields:
  assumes "valid_pool p"
  shows "p_tls_skip_verify p \<longrightarrow> p_tls p" "\<not> (p_solo p \<and> p_profit_switch p)"
  using assms by (simp_all add: valid_pool_def pool_field_errors_def split: if_split_asm)

subsection \<open>Round trips\<close>

lemma into_simps [simp]:
  "into_string upd (json_string s) x = Some (upd s x)"
  "into_bool upd1 (JBool b) x = Some (upd1 b x)"
  "- (2 ^ 63) \<le> i \<Longrightarrow> i < 2 ^ 63 \<Longrightarrow> into_int upd2 (json_int i) x = Some (upd2 i x)"
  by (simp_all add: into_string_def json_string_def unquote_quote into_bool_def into_int_def json_int_def parse_int_itoa)

lemma those_map_Some: "(\<And>x. x \<in> set xs \<Longrightarrow> f x = Some (g x)) \<Longrightarrow> those (map f xs) = Some (map g xs)"
  by (induction xs) auto

lemma into_list_map [simp]:
  "(\<And>x. x \<in> set xs \<Longrightarrow> dec (enc x) = Some x) \<Longrightarrow> into_list dec upd (JArr (map enc xs)) y = Some (upd xs y)"
  using those_map_Some [of xs "dec \<circ> enc" "\<lambda>x. x"] by (simp add: into_list_def comp_def)

lemma field_names:
  "to_lower (unquote ''host'') = ''host''" "to_lower (unquote ''port'') = ''port''"
  "to_lower (unquote ''id'') = ''id''" "to_lower (unquote ''name'') = ''name''"
  "to_lower (unquote ''coin'') = ''coin''" "to_lower (unquote ''addresses'') = ''addresses''"
  "to_lower (unquote ''tls'') = ''tls''" "to_lower (unquote ''tls_skip_verify'') = ''tls_skip_verify''"
  "to_lower (unquote ''username'') = ''username''" "to_lower (unquote ''password'') = ''password''"
  "to_lower (unquote ''profit_switch'') = ''profit_switch''" "to_lower (unquote ''timed_target'') = ''timed_target''"
  "to_lower (unquote ''solo'') = ''solo''" "to_lower (unquote ''profit_home'') = ''profit_home''"
  "to_lower (unquote ''version'') = ''version''" "to_lower (unquote ''active_pool'') = ''active_pool''"
  "to_lower (unquote ''fallback_pools'') = ''fallback_pools''" "to_lower (unquote ''pools'') = ''pools''"
  "to_lower (unquote ''settings'') = ''settings''" "to_lower (unquote ''telegram_token'') = ''telegram_token''"
  by code_simp+

lemma decode_address_encode:
  "1 \<le> port a \<Longrightarrow> port a \<le> 65535 \<Longrightarrow> decode_address (encode_address a) = Some a"
  by (simp add: decode_address_def encode_address_def decode_struct_def address_field_def field_names
      del: unquote.simps)

lemma decode_fields_append:
  "decode_fields f (as @ bs) x = (case decode_fields f as x of None \<Rightarrow> None | Some y \<Rightarrow> decode_fields f bs y)"
  by (induction f as x rule: decode_fields.induct) (auto split: option.splits)

lemma decode_pool_encode:
  assumes "\<And>a. a \<in> set (p_addresses p) \<Longrightarrow> 1 \<le> port a \<and> port a \<le> 65535"
  shows "decode_pool (encode_pool p) = Some p"
proof -
  have "decode_address (encode_address a) = Some a" if "a \<in> set (p_addresses p)" for a
    using assms [OF that] by (simp add: decode_address_encode)
  then have l: "into_list decode_address upd (JArr (map encode_address (p_addresses p))) y = Some (upd (p_addresses p) y)"
    for upd :: "address list \<Rightarrow> pool \<times> address \<Rightarrow> pool \<times> address" and y by simp
  show ?thesis
    by (cases p) (use l in \<open>simp add: decode_pool_def encode_pool_def decode_struct_def decode_fields_append
      field_names pool_field_def omitempty_def zero_pool_def del: unquote.simps into_list_map\<close>)
qed


text \<open>A map that is marshalled and read back: sorted keys, compacted values.\<close>

definition normal_map :: "(string, json) gomap \<Rightarrow> (string, json) gomap" where
  "normal_map m = map (\<lambda>(k, v). (k, compact v)) (sort_key fst m)"

lemma fold_put_distinct:
  "distinct (map fst m @ map fst ms) \<Longrightarrow> fold (\<lambda>(k, v). put k v) ms m = m @ ms"
proof (induction ms arbitrary: m)
  case (Cons p ms)
  obtain k v where p: "p = (k, v)" by fastforce
  have "put k v m = m @ [(k, v)]"
    using Cons.prems p by (induction m) auto
  with Cons p show ?case by (simp add: Cons.IH)
qed simp

lemma members_marshal:
  assumes "wf_map m"
  obtains ms where "marshal_map m = JObj ms" "members_map ms = normal_map m"
proof -
  define sm where "sm = map (\<lambda>(k, v). (k, compact v)) (sort_key fst m)"
  have "distinct (map fst sm)" using assms by (simp add: sm_def comp_def split_def distinct_map)
  then have "fold (\<lambda>(k, v). put k v) sm [] = sm" using fold_put_distinct [of "[]" sm] by simp
  moreover have "fold (\<lambda>(k, v). put (unquote k) v) (map (\<lambda>(k, v). (quote k, v)) xs) m' = fold (\<lambda>(k, v). put k v) xs m'"
    for xs :: "(string, json) gomap" and m'
    by (induction xs arbitrary: m') (auto simp: unquote_quote)
  from this [of sm "[]"] calculation have "members_map (map (\<lambda>(k, v). (quote k, v)) sm) = normal_map m"
    by (simp add: members_map_def normal_map_def sm_def)
  moreover have "marshal_map m = JObj (map (\<lambda>(k, v). (quote k, v)) sm)"
    by (auto simp: marshal_map_def sm_def)
  ultimately show ?thesis using that by blast
qed

lemma decode_string_json [simp]: "decode_string (json_string s) = Some s"
  by (simp add: decode_string_def)

theorem decode_file_encode:
  assumes "valid_file f" "wf_map (f_settings f)" "f_version f = current_version"
  shows "decode_file (encode_file f) = Some (f\<lparr>f_settings := normal_map (f_settings f)\<rparr>)"
proof -
  have "decode_pool (encode_pool p) = Some p" if "p \<in> set (f_pools f)" for p
    using assms(1) that valid_pool_addresses(4) [of p]
    by (auto simp: valid_file_def Let_def list_all_iff intro: decode_pool_encode)
  then have l: "into_list decode_pool upd (JArr (map encode_pool (f_pools f))) y = Some (upd (f_pools f) y)"
    for upd :: "pool list \<Rightarrow> state_file \<Rightarrow> state_file" and y by simp
  obtain ms where "marshal_map (f_settings f) = JObj ms" "members_map ms = normal_map (f_settings f)"
    using assms(2) by (rule members_marshal)
  with l assms(3) show ?thesis
    by (cases f) (simp add: decode_file_def encode_file_def decode_struct_def decode_fields_append
      field_names file_field_def current_version_def zero_file_def del: unquote.simps)
qed

lemma clone_valid:
  assumes "valid_file f" "wf_map (f_settings f)" "f_version f = current_version"
  shows "clone f = f\<lparr>f_settings := normal_map (f_settings f)\<rparr>"
  using assms by (simp add: clone_def decode_file_encode)

lemma valid_file_settings [simp]: "valid_file (f\<lparr>f_settings := m\<rparr>) = valid_file f"
  by (simp add: valid_file_def)

lemma normal_map_facts:
  "wf_map m \<Longrightarrow> wf_map (normal_map m)" "fst ` set (normal_map m) = fst ` set m"
  "(k, v) \<in> set (normal_map m) \<longleftrightarrow> (\<exists>w. (k, w) \<in> set m \<and> v = compact w)"
  by (force simp: normal_map_def comp_def split_def distinct_map)+

lemma map_of_normal_map: "wf_map m \<Longrightarrow> map_of (normal_map m) k = map_option compact (map_of m k)"
proof -
  assume wf: "wf_map m"
  have "map_of (normal_map m) k = map_option compact (map_of (sort_key fst m) k)"
    by (simp add: normal_map_def map_of_map)
  also have "map_of (sort_key fst m) = map_of m"
    using wf by (subst map_of_inject_set) (simp_all add: distinct_map)
  finally show ?thesis .
qed

subsection \<open>Transactions\<close>

text \<open>The file as the code writes it: the members the model leaves free are proper.\<close>

definition wf_file :: "state_file \<Rightarrow> bool" where
  "wf_file f \<longleftrightarrow> valid_file f \<and> wf_map (f_settings f) \<and> f_version f = current_version \<and>
     \<not> has_key (f_settings f) ''rewrite_login_prefixes'' \<and> (\<forall>(k, v) \<in> set (f_settings f). wf_json v)"

lemma wf_file_clone: "wf_file f \<Longrightarrow> wf_file (clone f)"
  using clone_valid [of f] normal_map_facts(1,2) [of "f_settings f"] normal_map_facts(3)
  by (auto simp: wf_file_def has_key_iff intro!: wf_compact)

lemma mutate_cases:
  assumes "mutate fn w s = (r, s')"
  obtains e where "r = Inl e" "s' = s"
  | f a where "r = Inr a" "fn (clone (st_cur s)) = Inr (f, a)" "valid_file f" "w"
      "s' = \<lparr>st_cur = f, st_disk = Some (encode_file f)\<rparr>"
  using assms by (cases s) (auto simp: mutate_def check_iff_valid split: sum.splits option.splits if_splits prod.splits)

text \<open>The laws a client of the store relies on: a failed transaction changes nothing, and one
  that succeeds leaves a checked result of its function.\<close>

locale transactions =
  fixes run :: "('f \<Rightarrow> 'e + 'f \<times> 'a) \<Rightarrow> bool \<Rightarrow> 's \<Rightarrow> ('e + 'a) \<times> 's"
    and view :: "'s \<Rightarrow> 'f"
    and content :: "'s \<Rightarrow> 'f"
    and valid :: "'f \<Rightarrow> bool"
  assumes failed: "run fn w s = (Inl e, s') \<Longrightarrow> s' = s"
    and succeeded: "run fn w s = (Inr a, s') \<Longrightarrow> fn (view s) = Inr (content s', a) \<and> valid (content s')"
begin

lemma run_valid: "valid (content s) \<Longrightarrow> valid (content (snd (run fn w s)))"
  by (cases "run fn w s"; cases "fst (run fn w s)") (auto dest: failed succeeded)

lemma runs_valid: "valid (content s) \<Longrightarrow> valid (content (fold (\<lambda>(fn, w) s. snd (run fn w s)) ops s))"
proof (induction ops arbitrary: s)
  case (Cons op ops)
  then show ?case by (cases op) (simp add: run_valid)
qed simp

lemma run_inv:
  assumes "Q (content s)" "\<And>f a. fn (view s) = Inr (f, a) \<Longrightarrow> valid f \<Longrightarrow> Q f"
  shows "Q (content (snd (run fn w s)))"
  using assms by (cases "run fn w s"; cases "fst (run fn w s)") (auto dest: failed succeeded)

end

interpretation st: transactions mutate "\<lambda>s. clone (st_cur s)" st_cur valid_file
proof
  fix fn w s e s' assume "mutate fn w s = (Inl e, s')"
  then show "s' = s" by (rule mutate_cases) simp_all
next
  fix fn w s a s' assume "mutate fn w s = (Inr a, s')"
  then show "fn (clone (st_cur s)) = Inr (st_cur s', a) \<and> valid_file (st_cur s')"
    by (rule mutate_cases) simp_all
qed

lemma raw_ok_field_names:
  "raw_ok ''host''" "raw_ok ''port''" "raw_ok ''id''" "raw_ok ''name''" "raw_ok ''coin''" "raw_ok ''addresses''"
  "raw_ok ''tls''" "raw_ok ''tls_skip_verify''" "raw_ok ''username''" "raw_ok ''password''" "raw_ok ''profit_switch''"
  "raw_ok ''timed_target''" "raw_ok ''solo''" "raw_ok ''profit_home''" "raw_ok ''version''" "raw_ok ''active_pool''"
  "raw_ok ''fallback_pools''" "raw_ok ''pools''" "raw_ok ''settings''" "raw_ok ''telegram_token''"
  by code_simp+

lemma wf_json_string [simp]: "wf_json (json_string s)"
  by (simp add: json_string_def raw_ok_quote)

lemma valid_int_digits:
  assumes "list_all is_digit s" "s \<noteq> []" "hd s \<noteq> CHR ''0'' \<or> length s = 1"
  shows "valid_int s \<and> list_all num_char s \<and> hd s \<noteq> CHR ''-''"
proof -
  have "\<not> is_digit (CHR ''-'')" by (simp add: is_digit_def)
  moreover obtain c r where s: "s = c # r" using assms(2) by (cases s) auto
  moreover have "dropWhile is_digit r = []" using assms(1) s by (simp add: list_all_iff)
  then have "valid_frac (dropWhile is_digit r)" by (simp only: valid_frac_def list.case)
  moreover have "valid_frac []" by (simp add: valid_frac_def)
  ultimately show ?thesis using assms
    by (auto simp: valid_int_def list_all_iff num_char_def)
qed

lemma show_nat_leading: "hd (show_nat n) \<noteq> CHR ''0'' \<or> n < 10"
proof (induction n rule: show_nat.induct)
  case (1 n)
  show ?case
  proof (cases "n < 100")
    case True
    then show ?thesis
      by (subst (1) show_nat.simps, cases "n < 10") (auto simp: show_nat.simps [of "n div 10"] char_of_eq_iff take_bit_eq_mod)
  next
    case False
    then have "hd (show_nat (n div 10)) \<noteq> CHR ''0''" using 1 by auto
    then show ?thesis using False show_nat_nonempty [of "n div 10"]
      by (subst (1) show_nat.simps) simp
  qed
qed

lemma wf_json_int [simp]: "wf_json (json_int i)"
proof -
  have s: "valid_int (show_nat n) \<and> list_all num_char (show_nat n) \<and> hd (show_nat n) \<noteq> CHR ''-''" for n
  proof (rule valid_int_digits)
    show "list_all is_digit (show_nat n)" using show_nat_digits by (simp add: list_all_iff)
    show "hd (show_nat n) \<noteq> CHR ''0'' \<or> length (show_nat n) = 1"
      using show_nat_leading [of n] by (cases "n < 10") (simp_all add: show_nat.simps [of n])
  qed (rule show_nat_nonempty)
  have m: "num_char (CHR ''-'')" by (simp add: num_char_def)
  show ?thesis
    using s [of "nat i"] s [of "nat (- i)"] show_nat_nonempty [of "nat i"] m
    by (auto simp: json_int_def itoa_def valid_number_def split: list.splits)
qed


lemma wf_encode_address [simp]: "wf_json (encode_address a)"
  by (simp add: encode_address_def raw_ok_field_names)

lemma wf_encode_pool [simp]: "wf_json (encode_pool p)"
  by (auto simp: encode_pool_def raw_ok_field_names omitempty_def list_all_iff)

lemma wf_encode_file: "\<forall>(k, v) \<in> set (f_settings f). wf_json v \<Longrightarrow> wf_json (encode_file f)"
  using wf_marshal_map [of "f_settings f"]
  by (auto simp: encode_file_def raw_ok_field_names list_all_iff)

lemma same_version: "f_version f = v \<Longrightarrow> f\<lparr>f_version := v\<rparr> = f"
  by simp

subsection \<open>Properties\<close>

text \<open>The validation of the state accepts exactly the files of the declared invariant: pools
  with distinct valid ids and no field errors, an active pool if there is any pool, and fallback
  pools that exist, are not active and are listed once.\<close>

theorem check_decides_valid_file: "check f = None \<longleftrightarrow> valid_file f"
  by (rule check_iff_valid)

text \<open>C33: a state that was saved is the state a restart loads: after a successful transaction on
  a file with proper settings, opening the store on what the disk holds gives the current state
  back, whatever later writes do.\<close>

theorem saved_state_reopens:
  assumes "mutate fn w s = (Inr a, s')" "wf_file (st_cur s')"
  shows "\<exists>j. st_disk s' = Some j \<and>
    open_store True (Contents (raw_text j)) w' = Inr \<lparr>st_cur = current s', st_disk = Some j\<rparr>"
  using assms(1)
proof (rule mutate_cases)
  fix f b assume *: "Inr a = Inr b" "valid_file f" "s' = \<lparr>st_cur = f, st_disk = Some (encode_file f)\<rparr>"
  then have f: "wf_file f" using assms(2) by simp
  then have "parse_json (raw_text (encode_file f)) = Some (encode_file f)"
    by (intro parse_raw_text wf_encode_file) (simp add: wf_file_def)
  moreover have d: "decode_file (encode_file f) = Some (clone f)"
    using f by (simp add: wf_file_def decode_file_encode clone_valid)
  moreover have c: "wf_file (clone f)" using f by (rule wf_file_clone)
  moreover have "check (clone f) = None" using c by (simp add: wf_file_def check_iff_valid)
  ultimately show ?thesis using *(3)
    by (simp add: open_store_def current_def wf_file_def Let_def same_version)
qed simp

abbreviation example_pool :: pool where
  "example_pool \<equiv> zero_pool\<lparr>p_id := ''btc'', p_name := ''BTC'', p_addresses := [\<lparr>host = ''p.io'', port = 3333\<rparr>],
     p_username := ''acc.{worker}'', p_password := ''x''\<rparr>"

abbreviation example_create :: "state_file \<Rightarrow> go_error + state_file \<times> unit" where
  "example_create \<equiv> \<lambda>f. Inr (f\<lparr>f_pools := [example_pool], f_active := ''btc''\<rparr>, ())"

abbreviation example_store :: store where "example_store \<equiv> \<lparr>st_cur = empty_file, st_disk = None\<rparr>"

lemma example_checks: "check (empty_file\<lparr>f_pools := [example_pool], f_active := ''btc''\<rparr>) = None"
  by (simp add: check_def zero_pool_def valid_pool_id_def pool_id_char_def is_digit_def pool_field_errors_def
    rune_count_def addresses_error_def address_reason_def host_error_def max_pool_addresses_def empty_file_def zero_file_def)

lemma example_clone: "clone empty_file = empty_file"
  by (simp add: clone_valid valid_file_def empty_file_def zero_file_def normal_map_def)

lemma example_mutate:
  "mutate example_create True example_store =
    (Inr (), \<lparr>st_cur = empty_file\<lparr>f_pools := [example_pool], f_active := ''btc''\<rparr>,
       st_disk = Some (encode_file (empty_file\<lparr>f_pools := [example_pool], f_active := ''btc''\<rparr>))\<rparr>)"
  using example_checks by (simp add: mutate_def example_clone)

theorem saved_state_reopens_witness:
  "\<exists>j. st_disk (snd (mutate example_create True example_store)) = Some j \<and>
    open_store True (Contents (raw_text j)) True =
      Inr \<lparr>st_cur = current (snd (mutate example_create True example_store)), st_disk = Some j\<rparr>"
proof (rule saved_state_reopens)
  show "mutate example_create True example_store = (Inr (), snd (mutate example_create True example_store))"
    by (simp add: example_mutate)
  show "wf_file (st_cur (snd (mutate example_create True example_store)))"
    unfolding example_mutate using example_checks
    by (simp add: wf_file_def check_iff_valid empty_file_def zero_file_def has_key_def)
qed

text \<open>C8: a transaction either returns an error and leaves the store (memory and disk) as it was,
  or its new state passed the validation and is in memory and on disk; so no sequence of
  transactions, failed writes included, leaves an invalid state.\<close>

theorem mutate_atomic:
  "(case mutate fn w s of
      (Inl e, s') \<Rightarrow> s' = s
    | (Inr a, s') \<Rightarrow> fn (clone (st_cur s)) = Inr (st_cur s', a) \<and> valid_file (st_cur s') \<and>
        st_disk s' = Some (encode_file (st_cur s')) \<and> w) \<and>
   (valid_file (st_cur s) \<longrightarrow> valid_file (st_cur (fold (\<lambda>(fn, w) s. snd (mutate fn w s)) ops s)))"
proof (intro conjI impI)
  show "case mutate fn w s of (Inl e, s') \<Rightarrow> s' = s
    | (Inr a, s') \<Rightarrow> fn (clone (st_cur s)) = Inr (st_cur s', a) \<and> valid_file (st_cur s') \<and>
        st_disk s' = Some (encode_file (st_cur s')) \<and> w"
    by (cases "mutate fn w s"; cases "fst (mutate fn w s)") (auto elim: mutate_cases)
qed (rule st.runs_valid)

theorem mutate_atomic_witness:
  "valid_file (st_cur (fold (\<lambda>(fn, w) s. snd (mutate fn w s)) [(example_create, True), (example_create, False)] example_store))"
  by (rule mutate_atomic [where fn = example_create and w = True and s = example_store, THEN conjunct2, THEN mp])
    (simp add: valid_file_def empty_file_def zero_file_def)

end
