(* ===== verification/Settings.thy ===== *)
theory Settings
  imports Durations State
begin

text \<open>
  Package \<open>settings\<close>: the registry of runtime settings (\<open>registry.go\<close>) and the store that
  validates, saves and publishes changes (\<open>store.go\<close>).

  \<^item> \<open>settings_values\<close> is the snapshot the rest of the program reads, \<open>defs\<close> the registry in its
    display order, group by group. A value of any setting is a \<open>val\<close>; writing one of another
    type, a panic in Go, leaves the snapshot alone and never happens (\<open>val_type\<close>).
  \<^item> \<open>parse_setting\<close>, \<open>build\<close>, \<open>prepare\<close>, \<open>commit_pending\<close> and \<open>save_settings\<close> are the operations of
    the store. The listeners are called by the components that register them.
  \<^item> \<open>unicode.IsSpace\<close> is modelled for ASCII; the patterns reject everything else anyway.

  The lemmas show that the registry is a set of independent fields (\<open>settings_lens\<close>), that what
  \<open>prepare\<close> accepts is in range and consistent, and that saved overrides load to the same values.
\<close>

subsection \<open>The registry\<close>

record settings_values =
  v_test_worker :: string
  v_switch_drain :: duration
  v_failback_delay :: duration
  v_pool_probe_interval :: duration
  v_tls_handshake_timeout :: duration
  v_first_message_timeout :: duration
  v_upstream_dial_timeout :: duration
  v_upstream_connect_budget :: duration
  v_miner_idle_timeout :: duration
  v_upstream_idle_timeout :: duration
  v_upstream_job_timeout :: duration
  v_max_connections :: int
  v_max_pending_connections :: int
  v_max_conn_per_ip :: int
  v_max_line_kib :: int
  v_tls_min_version :: string
  v_history_detail :: duration
  v_history_retention :: duration
  v_history_miners :: duration
  v_profit_switch :: string
  v_profit_interval :: duration
  v_profit_margin :: int
  v_profit_return_margin :: int
  v_timed_switch :: string
  v_timed_period :: duration
  v_timed_duration :: duration
  v_hunt_switch :: string
  v_offline_after :: duration
  v_telegram_chats :: string
  v_telegram_language :: string
  v_log_level :: string

definition profit_off :: string where "profit_off = ''off''"
definition profit_advise :: string where "profit_advise = ''advise''"
definition profit_auto :: string where "profit_auto = ''auto''"
definition timed_off :: string where "timed_off = ''off''"
definition timed_on :: string where "timed_on = ''on''"
definition hunt_off :: string where "hunt_off = ''off''"
definition hunt_on :: string where "hunt_on = ''on''"

definition max_line_bytes :: "settings_values \<Rightarrow> int" where
  "max_line_bytes v = v_max_line_kib v * 1024"

datatype val = VDur int | VInt int | VStr string
datatype setting_type = TDuration | TInt | TEnum | TString
datatype applies = Immediately | NewConnections | NextDrain

record setting =
  d_key :: string
  d_group :: string
  d_type :: setting_type
  d_unit :: string
  d_default :: val
  d_range :: "(val \<times> val) option"
  d_options :: "string list"
  d_min_len :: nat
  d_max_len :: nat
  d_pattern :: "(string \<Rightarrow> bool) option"
  d_applies :: applies
  d_get :: "settings_values \<Rightarrow> val"
  d_set :: "val \<Rightarrow> settings_values \<Rightarrow> settings_values"

definition worker_char :: "char \<Rightarrow> bool" where
  "worker_char c \<longleftrightarrow> is_digit c \<or> 65 \<le> byte c \<and> byte c \<le> 90 \<or> 97 \<le> byte c \<and> byte c \<le> 122 \<or> c = CHR ''_'' \<or> c = CHR ''-''"

definition worker_pattern :: "string \<Rightarrow> bool" where
  "worker_pattern s \<longleftrightarrow> s \<noteq> [] \<and> list_all worker_char s"

definition chat_id :: "string \<Rightarrow> bool" where
  "chat_id s \<longleftrightarrow> (let t = trim_prefix s ''-'' in 1 \<le> length t \<and> length t \<le> 20 \<and> list_all is_digit t)"

definition chats_pattern :: "string \<Rightarrow> bool" where
  "chats_pattern s \<longleftrightarrow> s = [] \<or> list_all chat_id (split_on (CHR '','') s)"

definition dur :: "(int \<Rightarrow> settings_values \<Rightarrow> settings_values) \<Rightarrow> val \<Rightarrow> settings_values \<Rightarrow> settings_values" where
  "dur upd x v = (case x of VDur d \<Rightarrow> upd d v | _ \<Rightarrow> v)"

definition num :: "(int \<Rightarrow> settings_values \<Rightarrow> settings_values) \<Rightarrow> val \<Rightarrow> settings_values \<Rightarrow> settings_values" where
  "num upd x v = (case x of VInt i \<Rightarrow> upd i v | _ \<Rightarrow> v)"

definition str :: "(string \<Rightarrow> settings_values \<Rightarrow> settings_values) \<Rightarrow> val \<Rightarrow> settings_values \<Rightarrow> settings_values" where
  "str upd x v = (case x of VStr s \<Rightarrow> upd s v | _ \<Rightarrow> v)"

definition base_def ::
  "string \<Rightarrow> string \<Rightarrow> setting_type \<Rightarrow> val \<Rightarrow> applies \<Rightarrow> (settings_values \<Rightarrow> val) \<Rightarrow>
     (val \<Rightarrow> settings_values \<Rightarrow> settings_values) \<Rightarrow> setting" where
  "base_def k g t d a getter setter =
     \<lparr>d_key = k, d_group = g, d_type = t, d_unit = [], d_default = d, d_range = None, d_options = [],
      d_min_len = 0, d_max_len = 0, d_pattern = None, d_applies = a, d_get = getter, d_set = setter\<rparr>"

definition defs_logins :: "setting list" where
  "defs_logins =
    [(base_def ''test_worker'' ''logins'' TString (VStr ''proxytest'') Immediately
        (\<lambda>v. VStr (v_test_worker v)) (str (\<lambda>x v. v\<lparr>v_test_worker := x\<rparr>)))
        \<lparr>d_min_len := 1, d_max_len := 32, d_pattern := Some worker_pattern\<rparr>]"

definition defs_switching :: "setting list" where
  "defs_switching =
    [(base_def ''switch_drain'' ''switching'' TDuration (VDur (10 * second)) NextDrain
        (\<lambda>v. VDur (v_switch_drain v)) (dur (\<lambda>x v. v\<lparr>v_switch_drain := x\<rparr>)))
        \<lparr>d_range := Some (VDur (0), VDur (300 * second))\<rparr>,
     (base_def ''failback_delay'' ''switching'' TDuration (VDur (2 * minute)) Immediately
        (\<lambda>v. VDur (v_failback_delay v)) (dur (\<lambda>x v. v\<lparr>v_failback_delay := x\<rparr>)))
        \<lparr>d_range := Some (VDur (30 * second), VDur (60 * minute))\<rparr>,
     (base_def ''pool_probe_interval'' ''switching'' TDuration (VDur (30 * second)) Immediately
        (\<lambda>v. VDur (v_pool_probe_interval v)) (dur (\<lambda>x v. v\<lparr>v_pool_probe_interval := x\<rparr>)))
        \<lparr>d_range := Some (VDur (10 * second), VDur (10 * minute))\<rparr>]"

definition defs_profit :: "setting list" where
  "defs_profit =
    [(base_def ''profit_switch'' ''profit'' TEnum (VStr ''off'') Immediately
        (\<lambda>v. VStr (v_profit_switch v)) (str (\<lambda>x v. v\<lparr>v_profit_switch := x\<rparr>)))
        \<lparr>d_options := [''off'', ''advise'', ''auto'']\<rparr>,
     (base_def ''profit_interval'' ''profit'' TDuration (VDur (day)) Immediately
        (\<lambda>v. VDur (v_profit_interval v)) (dur (\<lambda>x v. v\<lparr>v_profit_interval := x\<rparr>)))
        \<lparr>d_range := Some (VDur (hour), VDur (7 * day))\<rparr>,
     (base_def ''profit_margin'' ''profit'' TInt (VInt 5) Immediately
        (\<lambda>v. VInt (v_profit_margin v)) (num (\<lambda>x v. v\<lparr>v_profit_margin := x\<rparr>)))
        \<lparr>d_unit := ''%'', d_range := Some (VInt 0, VInt 50)\<rparr>,
     (base_def ''profit_return_margin'' ''profit'' TInt (VInt 1) Immediately
        (\<lambda>v. VInt (v_profit_return_margin v)) (num (\<lambda>x v. v\<lparr>v_profit_return_margin := x\<rparr>)))
        \<lparr>d_unit := ''%'', d_range := Some (VInt 0, VInt 50)\<rparr>]"

definition defs_timed :: "setting list" where
  "defs_timed =
    [(base_def ''timed_switch'' ''timed'' TEnum (VStr ''off'') Immediately
        (\<lambda>v. VStr (v_timed_switch v)) (str (\<lambda>x v. v\<lparr>v_timed_switch := x\<rparr>)))
        \<lparr>d_options := [''off'', ''on'']\<rparr>,
     (base_def ''timed_period'' ''timed'' TDuration (VDur (30 * minute)) Immediately
        (\<lambda>v. VDur (v_timed_period v)) (dur (\<lambda>x v. v\<lparr>v_timed_period := x\<rparr>)))
        \<lparr>d_range := Some (VDur (10 * minute), VDur (day))\<rparr>,
     (base_def ''timed_duration'' ''timed'' TDuration (VDur (10 * minute)) Immediately
        (\<lambda>v. VDur (v_timed_duration v)) (dur (\<lambda>x v. v\<lparr>v_timed_duration := x\<rparr>)))
        \<lparr>d_range := Some (VDur (minute), VDur (12 * hour))\<rparr>]"

definition defs_hunt :: "setting list" where
  "defs_hunt =
    [(base_def ''hunt_switch'' ''hunt'' TEnum (VStr ''off'') Immediately
        (\<lambda>v. VStr (v_hunt_switch v)) (str (\<lambda>x v. v\<lparr>v_hunt_switch := x\<rparr>)))
        \<lparr>d_options := [''off'', ''on'']\<rparr>]"

definition defs_alerts :: "setting list" where
  "defs_alerts =
    [(base_def ''offline_after'' ''alerts'' TDuration (VDur (minute)) Immediately
        (\<lambda>v. VDur (v_offline_after v)) (dur (\<lambda>x v. v\<lparr>v_offline_after := x\<rparr>)))
        \<lparr>d_range := Some (VDur (30 * second), VDur (60 * minute))\<rparr>,
     (base_def ''telegram_chats'' ''alerts'' TString (VStr []) Immediately
        (\<lambda>v. VStr (v_telegram_chats v)) (str (\<lambda>x v. v\<lparr>v_telegram_chats := x\<rparr>)))
        \<lparr>d_min_len := 0, d_max_len := 200, d_pattern := Some chats_pattern\<rparr>,
     (base_def ''telegram_language'' ''alerts'' TEnum (VStr ''en'') Immediately
        (\<lambda>v. VStr (v_telegram_language v)) (str (\<lambda>x v. v\<lparr>v_telegram_language := x\<rparr>)))
        \<lparr>d_options := [''en'', ''ru'']\<rparr>]"

definition defs_timeouts :: "setting list" where
  "defs_timeouts =
    [(base_def ''tls_handshake_timeout'' ''timeouts'' TDuration (VDur (10 * second)) NewConnections
        (\<lambda>v. VDur (v_tls_handshake_timeout v)) (dur (\<lambda>x v. v\<lparr>v_tls_handshake_timeout := x\<rparr>)))
        \<lparr>d_range := Some (VDur (second), VDur (60 * second))\<rparr>,
     (base_def ''first_message_timeout'' ''timeouts'' TDuration (VDur (15 * second)) NewConnections
        (\<lambda>v. VDur (v_first_message_timeout v)) (dur (\<lambda>x v. v\<lparr>v_first_message_timeout := x\<rparr>)))
        \<lparr>d_range := Some (VDur (5 * second), VDur (120 * second))\<rparr>,
     (base_def ''upstream_dial_timeout'' ''timeouts'' TDuration (VDur (5 * second)) NewConnections
        (\<lambda>v. VDur (v_upstream_dial_timeout v)) (dur (\<lambda>x v. v\<lparr>v_upstream_dial_timeout := x\<rparr>)))
        \<lparr>d_range := Some (VDur (second), VDur (30 * second))\<rparr>,
     (base_def ''upstream_connect_budget'' ''timeouts'' TDuration (VDur (15 * second)) NewConnections
        (\<lambda>v. VDur (v_upstream_connect_budget v)) (dur (\<lambda>x v. v\<lparr>v_upstream_connect_budget := x\<rparr>)))
        \<lparr>d_range := Some (VDur (5 * second), VDur (120 * second))\<rparr>,
     (base_def ''miner_idle_timeout'' ''timeouts'' TDuration (VDur (10 * minute)) Immediately
        (\<lambda>v. VDur (v_miner_idle_timeout v)) (dur (\<lambda>x v. v\<lparr>v_miner_idle_timeout := x\<rparr>)))
        \<lparr>d_range := Some (VDur (minute), VDur (60 * minute))\<rparr>,
     (base_def ''upstream_idle_timeout'' ''timeouts'' TDuration (VDur (15 * minute)) Immediately
        (\<lambda>v. VDur (v_upstream_idle_timeout v)) (dur (\<lambda>x v. v\<lparr>v_upstream_idle_timeout := x\<rparr>)))
        \<lparr>d_range := Some (VDur (minute), VDur (60 * minute))\<rparr>,
     (base_def ''upstream_job_timeout'' ''timeouts'' TDuration (VDur (minute)) Immediately
        (\<lambda>v. VDur (v_upstream_job_timeout v)) (dur (\<lambda>x v. v\<lparr>v_upstream_job_timeout := x\<rparr>)))
        \<lparr>d_range := Some (VDur (10 * second), VDur (60 * minute))\<rparr>]"

definition defs_limits :: "setting list" where
  "defs_limits =
    [(base_def ''max_connections'' ''limits'' TInt (VInt 5000) NewConnections
        (\<lambda>v. VInt (v_max_connections v)) (num (\<lambda>x v. v\<lparr>v_max_connections := x\<rparr>)))
        \<lparr>d_range := Some (VInt 10, VInt 100000)\<rparr>,
     (base_def ''max_pending_connections'' ''limits'' TInt (VInt 500) NewConnections
        (\<lambda>v. VInt (v_max_pending_connections v)) (num (\<lambda>x v. v\<lparr>v_max_pending_connections := x\<rparr>)))
        \<lparr>d_range := Some (VInt 10, VInt 10000)\<rparr>,
     (base_def ''max_conn_per_ip'' ''limits'' TInt (VInt 0) NewConnections
        (\<lambda>v. VInt (v_max_conn_per_ip v)) (num (\<lambda>x v. v\<lparr>v_max_conn_per_ip := x\<rparr>)))
        \<lparr>d_range := Some (VInt 0, VInt 100000)\<rparr>,
     (base_def ''max_line_bytes'' ''limits'' TInt (VInt 64) NewConnections
        (\<lambda>v. VInt (v_max_line_kib v)) (num (\<lambda>x v. v\<lparr>v_max_line_kib := x\<rparr>)))
        \<lparr>d_unit := ''KiB'', d_range := Some (VInt 4, VInt 1024)\<rparr>]"

definition defs_tls :: "setting list" where
  "defs_tls =
    [(base_def ''tls_min_version'' ''tls'' TEnum (VStr ''1.2'') NewConnections
        (\<lambda>v. VStr (v_tls_min_version v)) (str (\<lambda>x v. v\<lparr>v_tls_min_version := x\<rparr>)))
        \<lparr>d_options := [''1.0'', ''1.1'', ''1.2'', ''1.3'']\<rparr>]"

definition defs_history :: "setting list" where
  "defs_history =
    [(base_def ''history_detail_retention'' ''history'' TDuration (VDur (7 * day)) Immediately
        (\<lambda>v. VDur (v_history_detail v)) (dur (\<lambda>x v. v\<lparr>v_history_detail := x\<rparr>)))
        \<lparr>d_range := Some (VDur (day), VDur (90 * day))\<rparr>,
     (base_def ''history_retention'' ''history'' TDuration (VDur (365 * day)) Immediately
        (\<lambda>v. VDur (v_history_retention v)) (dur (\<lambda>x v. v\<lparr>v_history_retention := x\<rparr>)))
        \<lparr>d_range := Some (VDur (7 * day), VDur (3650 * day))\<rparr>,
     (base_def ''history_miner_retention'' ''history'' TDuration (VDur (90 * day)) Immediately
        (\<lambda>v. VDur (v_history_miners v)) (dur (\<lambda>x v. v\<lparr>v_history_miners := x\<rparr>)))
        \<lparr>d_range := Some (VDur (7 * day), VDur (3650 * day))\<rparr>]"

definition defs_logging :: "setting list" where
  "defs_logging =
    [(base_def ''log_level'' ''logging'' TEnum (VStr ''info'') Immediately
        (\<lambda>v. VStr (v_log_level v)) (str (\<lambda>x v. v\<lparr>v_log_level := x\<rparr>)))
        \<lparr>d_options := [''debug'', ''info'', ''warn'', ''error'']\<rparr>]"

definition defs :: "setting list" where
  "defs = defs_logins @ defs_switching @ defs_profit @ defs_timed @ defs_hunt @
     defs_alerts @ defs_timeouts @ defs_limits @ defs_tls @ defs_history @ defs_logging"

definition lookup_def :: "string \<Rightarrow> setting option" where
  "lookup_def k = List.find (\<lambda>d. d_key d = k) defs"

definition zero_values :: settings_values where
  "zero_values =
    \<lparr>v_test_worker = [], v_switch_drain = 0, v_failback_delay = 0, v_pool_probe_interval = 0,
     v_tls_handshake_timeout = 0, v_first_message_timeout = 0, v_upstream_dial_timeout = 0, v_upstream_connect_budget = 0,
     v_miner_idle_timeout = 0, v_upstream_idle_timeout = 0, v_upstream_job_timeout = 0, v_max_connections = 0,
     v_max_pending_connections = 0, v_max_conn_per_ip = 0, v_max_line_kib = 0, v_tls_min_version = [],
     v_history_detail = 0, v_history_retention = 0, v_history_miners = 0, v_profit_switch = [],
     v_profit_interval = 0, v_profit_margin = 0, v_profit_return_margin = 0, v_timed_switch = [],
     v_timed_period = 0, v_timed_duration = 0, v_hunt_switch = [], v_offline_after = 0,
     v_telegram_chats = [], v_telegram_language = [], v_log_level = []\<rparr>"

definition defaults :: settings_values where
  "defaults = fold (\<lambda>d v. d_set d (d_default d) v) defs zero_values"

definition cross_check :: "settings_values \<Rightarrow> (string, msg) gomap" where
  "cross_check v = concat
    [if v_upstream_connect_budget v < v_upstream_dial_timeout v
     then [(''upstream_connect_budget'', Msg ''setting_budget_below_dial''
             [(''dial'', PStr (format_duration (v_upstream_dial_timeout v)))])] else [],
     if v_upstream_idle_timeout v < v_upstream_job_timeout v
     then [(''upstream_job_timeout'', Msg ''setting_job_above_idle''
             [(''idle'', PStr (format_duration (v_upstream_idle_timeout v)))])] else [],
     if v_max_connections v < v_max_pending_connections v
     then [(''max_pending_connections'', Msg ''setting_pending_above_total'' [])] else [],
     if v_profit_margin v < v_profit_return_margin v
     then [(''profit_return_margin'', Msg ''setting_return_above_margin'' [(''margin'', PInt (v_profit_margin v))])] else [],
     if v_timed_period v \<le> v_timed_duration v
     then [(''timed_duration'', Msg ''setting_timed_duration''
             [(''period'', PStr (format_duration (v_timed_period v)))])] else [],
     if v_history_retention v < v_history_detail v
     then [(''history_retention'', Msg ''setting_history_below_detail''
             [(''detail'', PStr (format_duration (v_history_detail v)))])] else [],
     if v_history_miners v < v_history_detail v
     then [(''history_miner_retention'', Msg ''setting_history_below_detail''
             [(''detail'', PStr (format_duration (v_history_detail v)))])] else []]"

subsection \<open>Values\<close>

text \<open>The canonical JSON form and the text used in events.\<close>

definition encode_val :: "val \<Rightarrow> json" where
  "encode_val x = (case x of VDur d \<Rightarrow> json_string (format_duration d) | VInt i \<Rightarrow> json_int i | VStr s \<Rightarrow> json_string s)"

definition format_val :: "setting \<Rightarrow> val \<Rightarrow> string" where
  "format_val d x =
     (case x of VDur t \<Rightarrow> format_duration t
      | VInt i \<Rightarrow> if d_unit d \<noteq> [] then itoa i @ '' '' @ d_unit d else itoa i
      | VStr s \<Rightarrow> s)"

definition val_le :: "val \<Rightarrow> val \<Rightarrow> bool" where
  "val_le a b = (case (a, b) of (VDur x, VDur y) \<Rightarrow> x \<le> y | (VInt x, VInt y) \<Rightarrow> x \<le> y | _ \<Rightarrow> False)"

definition between :: "setting \<Rightarrow> val \<Rightarrow> bool" where
  "between d x = (case d_range d of None \<Rightarrow> True | Some (lo, hi) \<Rightarrow> val_le lo x \<and> val_le x hi)"

definition out_of_range :: "setting \<Rightarrow> msg" where
  "out_of_range d =
     (case d_type d of
        TEnum \<Rightarrow> Msg ''setting_option'' [(''options'', PStr (join '', '' (d_options d)))]
      | TString \<Rightarrow> Msg ''setting_length'' [(''min'', PInt (int (d_min_len d))), (''max'', PInt (int (d_max_len d)))]
      | _ \<Rightarrow> Msg ''setting_range''
          (case d_range d of None \<Rightarrow> []
           | Some (lo, hi) \<Rightarrow> [(''min'', PStr (format_val d lo)), (''max'', PStr (format_val d hi))]))"

definition check_string :: "setting \<Rightarrow> string \<Rightarrow> msg option" where
  "check_string d s =
     (if rune_count s < d_min_len d \<or> d_max_len d < rune_count s then Some (out_of_range d)
      else if list_ex is_space s then Some (Msg ''setting_spaces'' [])
      else (case d_pattern d of
          Some p \<Rightarrow> if p s then None else Some (Msg ''setting_pattern'' [])
        | None \<Rightarrow> None))"

text \<open>The conversion of a float to an integer type cuts the fraction off.\<close>

definition truncate_real :: "real \<Rightarrow> int" where
  "truncate_real x = (if 0 \<le> x then \<lfloor>x\<rfloor> else - \<lfloor>- x\<rfloor>)"

definition parse_duration_setting :: "setting \<Rightarrow> json \<Rightarrow> msg + val" where
  "parse_duration_setting d raw =
     (let check = (\<lambda>v. if between d (VDur v) then Inr (VDur v) else Inl (out_of_range d));
          bad = Inl (Msg ''setting_duration'' [])
      in case raw of
          JStr s \<Rightarrow> (case parse_duration (trim_space (unquote s)) of Some v \<Rightarrow> check v | None \<Rightarrow> bad)
        | JNum s \<Rightarrow> (case parse_float s of Some f \<Rightarrow> check (truncate_real (f * real_of_int second)) | None \<Rightarrow> bad)
        | _ \<Rightarrow> bad)"

definition parse_int_setting :: "setting \<Rightarrow> json \<Rightarrow> msg + val" where
  "parse_int_setting d raw =
     (case (case raw of JNum s \<Rightarrow> parse_float s | JNull \<Rightarrow> Some 0 | _ \<Rightarrow> None) of
        None \<Rightarrow> Inl (Msg ''setting_integer'' [])
      | Some f \<Rightarrow>
          if f \<noteq> of_int \<lfloor>f\<rfloor> \<or> f < - (2 ^ 63) \<or> 2 ^ 63 \<le> f then Inl (Msg ''setting_integer'' [])
          else if between d (VInt \<lfloor>f\<rfloor>) then Inr (VInt \<lfloor>f\<rfloor>)
          else Inl (out_of_range d))"

definition parse_setting :: "setting \<Rightarrow> json \<Rightarrow> msg + val" where
  "parse_setting d raw =
     (case d_type d of
        TDuration \<Rightarrow> parse_duration_setting d raw
      | TInt \<Rightarrow> parse_int_setting d raw
      | TEnum \<Rightarrow>
          (case decode_string raw of None \<Rightarrow> Inl (Msg ''setting_string'' [])
           | Some s \<Rightarrow> if s \<in> set (d_options d) then Inr (VStr s) else Inl (out_of_range d))
      | TString \<Rightarrow>
          (case decode_string raw of None \<Rightarrow> Inl (Msg ''setting_string'' [])
           | Some s \<Rightarrow>
               (case check_string d (trim_space s) of
                  Some m \<Rightarrow> Inl m | None \<Rightarrow> Inr (VStr (trim_space s)))))"

subsection \<open>The store\<close>

type_synonym overrides = "(string, json) gomap"

record settings_store =
  ss_cur :: settings_values
  ss_overrides :: overrides

record build_result =
  b_values :: settings_values
  b_norm :: overrides
  b_unknown :: "string list"
  b_errs :: "(string, msg) gomap"

text \<open>One override: an unknown key, an error, or a value that is set and kept unless it is the default.\<close>

definition build_step :: "string \<times> json \<Rightarrow> build_result \<Rightarrow> build_result" where
  "build_step kv b =
     (case kv of (key, raw) \<Rightarrow>
        (case lookup_def key of
           None \<Rightarrow> b\<lparr>b_unknown := b_unknown b @ [key]\<rparr>
         | Some d \<Rightarrow>
             (case parse_setting d raw of
                Inl m \<Rightarrow> b\<lparr>b_errs := put key m (b_errs b)\<rparr>
              | Inr x \<Rightarrow>
                  b\<lparr>b_values := d_set d x (b_values b),
                    b_norm := (if encode_val x \<noteq> encode_val (d_default d)
                               then put key (encode_val x) (b_norm b) else b_norm b)\<rparr>)))"

definition build :: "overrides \<Rightarrow> build_result" where
  "build ov =
     (let b = fold build_step ov \<lparr>b_values = defaults, b_norm = [], b_unknown = [], b_errs = []\<rparr>
      in b\<lparr>b_errs := (if b_errs b = [] then cross_check (b_values b) else b_errs b), b_unknown := sort (b_unknown b)\<rparr>)"

definition new_settings :: "overrides \<Rightarrow> (string, msg) gomap + settings_store \<times> string list" where
  "new_settings saved =
     (let b = build saved in
      if b_errs b \<noteq> [] then Inl (b_errs b)
      else Inr (\<lparr>ss_cur = b_values b, ss_overrides = b_norm b\<rparr>, b_unknown b))"

record change =
  ch_key :: string
  ch_old :: string
  ch_new :: string
  ch_applies :: applies

record pending =
  pe_values :: settings_values
  pe_overrides :: overrides
  pe_changes :: "change list"

definition prepare_step :: "string \<times> json \<Rightarrow> overrides \<times> (string, msg) gomap \<Rightarrow> overrides \<times> (string, msg) gomap" where
  "prepare_step kv acc =
     (case kv of (key, raw) \<Rightarrow> case acc of (next, errs) \<Rightarrow>
        (case lookup_def key of
           None \<Rightarrow> (next, put key (Msg ''setting_unknown'' []) errs)
         | Some d \<Rightarrow>
             if raw = JNull then (del key next, errs)
             else
               (case parse_setting d raw of
                  Inl m \<Rightarrow> (next, put key m errs)
                | Inr x \<Rightarrow>
                    if encode_val x = encode_val (d_default d) then (del key next, errs)
                    else (put key (encode_val x) next, errs))))"

definition invalid_settings :: "(string, msg) gomap \<Rightarrow> api_error" where
  "invalid_settings errs = validation (Msg ''settings_invalid'' []) errs"

definition changes_between :: "settings_values \<Rightarrow> settings_values \<Rightarrow> change list" where
  "changes_between old new =
     map (\<lambda>d. \<lparr>ch_key = d_key d, ch_old = format_val d (d_get d old), ch_new = format_val d (d_get d new),
              ch_applies = d_applies d\<rparr>)
       (filter (\<lambda>d. format_val d (d_get d old) \<noteq> format_val d (d_get d new)) defs)"

definition prepare :: "(string, json) gomap \<Rightarrow> settings_store \<Rightarrow> api_error + pending" where
  "prepare chs s =
     (case fold prepare_step chs (ss_overrides s, []) of (next, errs) \<Rightarrow>
        if errs \<noteq> [] then Inl (invalid_settings errs)
        else
          (let b = build next in
           if b_errs b \<noteq> [] then Inl (invalid_settings (b_errs b))
           else Inr \<lparr>pe_values = b_values b, pe_overrides = b_norm b,
                     pe_changes = changes_between (ss_cur s) (b_values b)\<rparr>))"

definition commit_pending :: "pending \<Rightarrow> settings_store \<Rightarrow> settings_store" where
  "commit_pending p s = s\<lparr>ss_overrides := pe_overrides p, ss_cur := pe_values p\<rparr>"

definition save_settings ::
  "(string, json) gomap \<Rightarrow> bool \<Rightarrow> store \<Rightarrow> settings_store \<Rightarrow> (go_error + pending) \<times> store \<times> settings_store" where
  "save_settings chs write_ok st s =
     (case mutate (\<lambda>f. case prepare chs s of
                       Inl e \<Rightarrow> Inl (ApiErr e)
                     | Inr p \<Rightarrow> Inr (f\<lparr>f_settings := pe_overrides p\<rparr>, p)) write_ok st of
        (Inl e, st') \<Rightarrow> (Inl e, st', s)
      | (Inr p, st') \<Rightarrow> (Inr p, st', commit_pending p s))"

record setting_meta =
  me_key :: string
  me_value :: json
  me_default :: json
  me_range :: "(json \<times> json) option"
  me_modified :: bool

definition describe :: "settings_store \<Rightarrow> setting_meta list" where
  "describe s =
     map (\<lambda>d. \<lparr>me_key = d_key d, me_value = encode_val (d_get d (ss_cur s)), me_default = encode_val (d_default d),
              me_range = map_option (\<lambda>(lo, hi). (encode_val lo, encode_val hi)) (d_range d),
              me_modified = encode_val (d_get d (ss_cur s)) \<noteq> encode_val (d_default d)\<rparr>) defs"

subsection \<open>The registry as independent fields\<close>

lemmas all_defs = defs_def defs_logins_def defs_switching_def defs_profit_def defs_timed_def defs_hunt_def
  defs_alerts_def defs_timeouts_def defs_limits_def defs_tls_def defs_history_def defs_logging_def

fun val_type :: "setting \<Rightarrow> val \<Rightarrow> bool" where
  "val_type d (VDur _) = (d_type d = TDuration)"
| "val_type d (VInt _) = (d_type d = TInt)"
| "val_type d (VStr _) = (d_type d = TEnum \<or> d_type d = TString)"

lemma defs_keys: "distinct (map d_key defs)"
  by (simp add: all_defs base_def_def)

lemma lens_get_set:
  assumes "d \<in> set defs" "val_type d x"
  shows "d_get d (d_set d x v) = x"
proof -
  have "\<forall>d \<in> set defs. val_type d x \<longrightarrow> d_get d (d_set d x v) = x"
    by (cases x) (simp_all add: all_defs base_def_def dur_def num_def str_def)
  with assms show ?thesis by blast
qed

lemma lens_type: "d \<in> set defs \<Longrightarrow> val_type d (d_get d v) \<and> val_type d (d_default d)"
proof -
  have "\<forall>d \<in> set defs. val_type d (d_get d v) \<and> val_type d (d_default d)"
    by (simp add: all_defs base_def_def)
  then show "d \<in> set defs \<Longrightarrow> val_type d (d_get d v) \<and> val_type d (d_default d)" by blast
qed

lemma lens_other:
  assumes "d \<in> set defs" "e \<in> set defs" "d_key d \<noteq> d_key e"
  shows "d_get e (d_set d x v) = d_get e v"
proof -
  have "\<forall>d \<in> set defs. \<forall>e \<in> set defs. d_key d \<noteq> d_key e \<longrightarrow> d_get e (d_set d x v) = d_get e v"
    by (cases x) (simp_all add: all_defs base_def_def dur_def num_def str_def)
  with assms show ?thesis by blast
qed

lemma lens_complete:
  assumes "\<And>d. d \<in> set defs \<Longrightarrow> d_get d v = d_get d w"
  shows "v = w"
proof -
  have "\<forall>d \<in> set defs. d_get d v = d_get d w" using assms by blast
  then show ?thesis
    by (cases v; cases w) (simp add: all_defs base_def_def)
qed

lemma lookup_def_iff: "lookup_def k = Some d \<longleftrightarrow> d \<in> set defs \<and> d_key d = k"
proof
  show "lookup_def k = Some d \<Longrightarrow> d \<in> set defs \<and> d_key d = k"
    unfolding lookup_def_def by (rule find_Some_iff')
  show "d \<in> set defs \<and> d_key d = k \<Longrightarrow> lookup_def k = Some d"
    unfolding lookup_def_def using find_distinct_key [OF defs_keys, of d] by auto
qed

subsection \<open>What a valid value is\<close>

text \<open>A value of the setting's type within its limits, and values that pass the cross checks.\<close>

definition val_ok :: "setting \<Rightarrow> val \<Rightarrow> bool" where
  "val_ok d x \<longleftrightarrow>
     val_type d x \<and>
     (case x of
        VStr s \<Rightarrow> (if d_type d = TEnum then s \<in> set (d_options d) else check_string d s = None)
      | _ \<Rightarrow> between d x)"

definition values_ok :: "settings_values \<Rightarrow> bool" where
  "values_ok v \<longleftrightarrow> (\<forall>d \<in> set defs. val_ok d (d_get d v)) \<and> cross_check v = []"

lemma parse_setting_ok: "parse_setting d raw = Inr x \<Longrightarrow> val_ok d x"
  by (auto simp: parse_setting_def parse_duration_setting_def parse_int_setting_def val_ok_def Let_def
      split: setting_type.splits json.splits option.splits if_splits)

lemma defaults_get: "d \<in> set defs \<Longrightarrow> d_get d defaults = d_default d"
proof -
  have "d \<in> set ds \<Longrightarrow> set ds \<subseteq> set defs \<Longrightarrow> distinct (map d_key ds) \<Longrightarrow>
      d_get d (fold (\<lambda>d v. d_set d (d_default d) v) ds v) = d_default d" for ds v
  proof (induction ds arbitrary: v)
    case (Cons e ds)
    have keep: "d_get d (fold (\<lambda>d v. d_set d (d_default d) v) ds w) = d_get d w"
      if "d \<notin> set ds" "\<forall>e \<in> set ds. d_key e \<noteq> d_key d" for w
      using that Cons.prems(1,2)
    proof (induction ds arbitrary: w)
      case (Cons f fs)
      then have "d_get d (d_set f (d_default f) w) = d_get d w" by (intro lens_other) auto
      with Cons show ?case by simp
    qed simp
    show ?case
    proof (cases "d = e")
      case True
      then have "\<forall>f \<in> set ds. d_key f \<noteq> d_key d" using Cons.prems(3) by (auto simp: image_iff)
      then have "d_get d (fold (\<lambda>d v. d_set d (d_default d) v) ds (d_set e (d_default e) v)) = d_get d (d_set e (d_default e) v)"
        by (intro keep) auto
      also have "\<dots> = d_default d" using True Cons.prems by (simp add: lens_get_set lens_type)
      finally show ?thesis by simp
    next
      case False
      then show ?thesis using Cons by simp
    qed
  qed simp
  from this [of defs] defs_keys show "d \<in> set defs \<Longrightarrow> d_get d defaults = d_default d"
    by (simp add: defaults_def)
qed

lemma defaults_ok: "values_ok defaults"
proof -
  have "\<forall>d \<in> set defs. val_ok d (d_default d)"
    by (simp add: all_defs base_def_def val_ok_def between_def val_le_def check_string_def rune_count_def
        worker_pattern_def worker_char_def is_digit_def chats_pattern_def is_space_def)
  moreover have "cross_check defaults = []"
    by (simp add: defaults_def all_defs base_def_def cross_check_def dur_def num_def str_def zero_values_def)
  ultimately show ?thesis by (simp add: values_ok_def defaults_get)
qed

subsection \<open>Building a snapshot\<close>

abbreviation start_build :: build_result where
  "start_build \<equiv> \<lparr>b_values = defaults, b_norm = [], b_unknown = [], b_errs = []\<rparr>"

text \<open>What the snapshot has for a setting after some of the overrides.\<close>

definition override_of :: "overrides \<Rightarrow> setting \<Rightarrow> val" where
  "override_of ov d =
     (case map_of ov (d_key d) of None \<Rightarrow> d_default d
      | Some raw \<Rightarrow> (case parse_setting d raw of Inr x \<Rightarrow> x | Inl _ \<Rightarrow> d_default d))"

text \<open>The normalized override of a key.\<close>

definition norm_entry :: "overrides \<Rightarrow> string \<Rightarrow> json option" where
  "norm_entry ov k =
     (case lookup_def k of None \<Rightarrow> None
      | Some d \<Rightarrow>
          if encode_val (override_of ov d) \<noteq> encode_val (d_default d) then Some (encode_val (override_of ov d)) else None)"

lemma norm_entry_cong:
  assumes "\<And>d. d \<in> set defs \<Longrightarrow> d_key d = k \<Longrightarrow> override_of ov' d = override_of ov d"
  shows "norm_entry ov' k = norm_entry ov k"
proof (cases "lookup_def k")
  case (Some d)
  then have "override_of ov' d = override_of ov d" using assms by (simp add: lookup_def_iff)
  with Some show ?thesis by (simp add: norm_entry_def)
qed (simp add: norm_entry_def)

definition build_inv :: "overrides \<Rightarrow> build_result \<Rightarrow> bool" where
  "build_inv ov b \<longleftrightarrow>
     (\<forall>d \<in> set defs. d_get d (b_values b) = override_of ov d) \<and> wf_map (b_norm b) \<and>
     (\<forall>k. map_of (b_norm b) k = norm_entry ov k)"

lemma build_inv_cong:
  assumes "\<And>e. e \<in> set defs \<Longrightarrow> override_of ov' e = override_of ov e"
    and "b_values b' = b_values b" "b_norm b' = b_norm b" "build_inv ov b"
  shows "build_inv ov' b'"
  using assms norm_entry_cong [of _ ov' ov] by (simp add: build_inv_def)

lemma build_step_inv:
  assumes inv: "build_inv ov b" and k: "\<not> has_key ov k"
  shows "build_inv ((k, raw) # ov) (build_step (k, raw) b)"
proof (cases "lookup_def k")
  case None
  then have "\<And>d. d \<in> set defs \<Longrightarrow> d_key d \<noteq> k" using lookup_def_iff [of k] by (metis option.distinct(1))
  then have same: "\<And>d. d \<in> set defs \<Longrightarrow> override_of ((k, raw) # ov) d = override_of ov d"
    by (simp add: override_of_def)
  show ?thesis by (rule build_inv_cong [OF same]) (use inv None in \<open>simp_all add: build_step_def\<close>)
next
  case (Some d)
  then have d: "d \<in> set defs" "d_key d = k" by (simp_all add: lookup_def_iff)
  have other: "override_of ((k, raw) # ov) e = override_of ov e" if "d_key e \<noteq> k" for e
    using that by (simp add: override_of_def)
  have uniq: "e = d" if "e \<in> set defs" "d_key e = k" for e
    using that d lookup_def_iff [of k e] Some by simp
  have old: "override_of ov d = d_default d" using k d by (simp add: override_of_def has_key_def)
  show ?thesis
  proof (cases "parse_setting d raw")
    case (Inl m)
    then have "override_of ((k, raw) # ov) d = override_of ov d" using old d by (simp add: override_of_def)
    then have same: "override_of ((k, raw) # ov) e = override_of ov e" if "e \<in> set defs" for e
      using uniq [OF that] other [of e] by blast
    show ?thesis by (rule build_inv_cong [OF same]) (use inv Some Inl in \<open>simp_all add: build_step_def\<close>)
  next
    case (Inr x)
    have new: "override_of ((k, raw) # ov) d = x" using Inr d by (simp add: override_of_def)
    have tx: "val_type d x" using parse_setting_ok [OF Inr] by (simp add: val_ok_def)
    have vals: "d_get e (d_set d x (b_values b)) = override_of ((k, raw) # ov) e" if "e \<in> set defs" for e
    proof (cases "d_key e = k")
      case True
      then show ?thesis using uniq [OF that] new d tx by (simp add: lens_get_set)
    next
      case False
      then show ?thesis using that d inv other by (simp add: lens_other build_inv_def)
    qed
    have none: "map_of (b_norm b) k = None"
      using inv Some old by (simp add: build_inv_def norm_entry_def)
    have norm: "map_of (b_norm (build_step (k, raw) b)) j = norm_entry ((k, raw) # ov) j" for j
    proof (cases "j = k")
      case True
      then show ?thesis using Some Inr new none by (simp add: build_step_def norm_entry_def)
    next
      case False
      then have "norm_entry ((k, raw) # ov) j = norm_entry ov j"
        using other by (intro norm_entry_cong) simp
      moreover have "map_of (b_norm (build_step (k, raw) b)) j = map_of (b_norm b) j"
        using False Some Inr by (simp add: build_step_def)
      ultimately show ?thesis using inv by (simp add: build_inv_def)
    qed
    have "b_values (build_step (k, raw) b) = d_set d x (b_values b)"
      "wf_map (b_norm (build_step (k, raw) b))"
      using inv Some Inr by (simp_all add: build_step_def build_inv_def)
    then show ?thesis using vals norm by (simp add: build_inv_def)
  qed
qed

lemma build_fold_inv:
  assumes "wf_map ov"
  shows "build_inv (rev ov) (fold build_step ov start_build)"
  using assms
proof (induction ov rule: rev_induct)
  case Nil
  then show ?case
    by (auto simp: build_inv_def override_of_def norm_entry_def defaults_get split: option.splits)
next
  case (snoc p ov)
  obtain k raw where p: "p = (k, raw)" by fastforce
  with snoc have "\<not> has_key (rev ov) k" "build_inv (rev ov) (fold build_step ov start_build)"
    by (auto simp: has_key_iff)
  then show ?case using p build_step_inv by simp
qed

lemma map_of_rev_wf: "wf_map m \<Longrightarrow> map_of (rev m) = map_of m"
  by (subst map_of_inject_set) (simp_all add: rev_map [symmetric])

lemma override_of_rev: "wf_map ov \<Longrightarrow> override_of (rev ov) d = override_of ov d"
  by (simp add: override_of_def map_of_rev_wf)

lemma build_values:
  assumes "wf_map ov"
  shows "d \<in> set defs \<Longrightarrow> d_get d (b_values (build ov)) = override_of ov d"
    and "wf_map (b_norm (build ov))"
    and "map_of (b_norm (build ov)) k = norm_entry ov k"
  using build_fold_inv [OF assms] norm_entry_cong [of k "rev ov" ov]
  by (simp_all add: build_def Let_def build_inv_def override_of_rev [OF assms])

text \<open>Errors are only lost when there are none.\<close>

lemma build_step_errs:
  "b_errs (build_step p b) = [] \<longleftrightarrow>
     b_errs b = [] \<and> (case lookup_def (fst p) of Some d \<Rightarrow> (\<exists>x. parse_setting d (snd p) = Inr x) | None \<Rightarrow> True)"
proof -
  have "put k m e \<noteq> []" for k and m :: msg and e by (cases e) auto
  then show ?thesis
    by (cases p) (auto simp: build_step_def split: option.splits sum.splits)
qed

lemma build_errs:
  "b_errs (build ov) = [] \<longleftrightarrow>
     (\<forall>(k, raw) \<in> set ov. case lookup_def k of Some d \<Rightarrow> (\<exists>x. parse_setting d raw = Inr x) | None \<Rightarrow> True) \<and>
     cross_check (b_values (build ov)) = []"
proof -
  have "b_errs (fold build_step ov b) = [] \<longleftrightarrow> b_errs b = [] \<and>
      (\<forall>p \<in> set ov. case lookup_def (fst p) of Some d \<Rightarrow> (\<exists>x. parse_setting d (snd p) = Inr x) | None \<Rightarrow> True)" for b
    by (induction ov arbitrary: b) (auto simp: build_step_errs)
  then show ?thesis by (auto simp: build_def Let_def split_def)
qed

lemma build_ok:
  assumes "wf_map ov" "b_errs (build ov) = []"
  shows "values_ok (b_values (build ov))"
proof -
  have "val_ok d (override_of ov d)" if d: "d \<in> set defs" for d
  proof (cases "map_of ov (d_key d)")
    case None
    then show ?thesis using d defaults_ok by (simp add: override_of_def values_ok_def defaults_get)
  next
    case (Some raw)
    then have "(d_key d, raw) \<in> set ov" by (rule map_of_SomeD)
    moreover have "lookup_def (d_key d) = Some d" using d by (simp add: lookup_def_iff)
    ultimately obtain x where "parse_setting d raw = Inr x" using assms(2) by (fastforce simp: build_errs)
    then show ?thesis using Some parse_setting_ok by (simp add: override_of_def)
  qed
  moreover have "cross_check (b_values (build ov)) = []" using assms(2) by (simp add: build_errs)
  ultimately show ?thesis using build_values(1) [OF assms(1)] by (simp add: values_ok_def)
qed

subsection \<open>Reading saved values back\<close>

definition whole_val :: "val \<Rightarrow> bool" where
  "whole_val x = (case x of VDur t \<Rightarrow> t mod second = 0 | _ \<Rightarrow> True)"

definition whole_values :: "settings_values \<Rightarrow> bool" where
  "whole_values v \<longleftrightarrow> (\<forall>d \<in> set defs. whole_val (d_get d v))"

lemma trim_no_space: "\<not> list_ex is_space s \<Longrightarrow> trim_space s = s"
proof -
  assume "\<not> list_ex is_space s"
  then have n: "\<forall>c \<in> set s. \<not> is_space c" by (simp add: list_ex_iff)
  have "dropWhile is_space t = t" if "\<forall>c \<in> set t. \<not> is_space c" for t
    using that by (cases t) auto
  from this [of s] this [of "rev s"] n show ?thesis by (simp add: trim_space_def)
qed

lemma digit_no_space: "is_digit c \<Longrightarrow> \<not> is_space c"
  by (auto simp: is_digit_def is_space_def)

lemma show_nat_no_space: "\<not> list_ex is_space (show_nat n)"
  using show_nat_digits [of n] digit_no_space by (auto simp: list_ex_iff)

lemma format_duration_no_space:
  assumes "0 \<le> t" "t mod second = 0"
  shows "\<not> list_ex is_space (format_duration t)"
proof (cases "t = 0")
  case True
  then show ?thesis by (simp add: format_duration_def is_space_def)
next
  case False
  then have pos: "0 < t" using assms(1) by simp
  have g: "\<not> go_div t un < 0" if "0 < un" for un
    using pos that by (simp add: go_div_nonneg_eq pos_imp_zdiv_neg_iff)
  have n: "\<not> list_ex is_space (itoa (go_div t un))" if "0 < un" for un
    using g [OF that] show_nat_no_space by (simp add: itoa_def)
  have "list_ex is_space ''h'' = False" "list_ex is_space ''m'' = False" "list_ex is_space ''s'' = False"
    by (simp_all add: is_space_def)
  then show ?thesis using False pos assms(2) n by (simp add: format_duration_def go_mod_nonneg_eq)
qed

lemma parse_float_show_nat:
  assumes "n < 1000000"
  shows "parse_float (show_nat n) = Some (real n)"
proof -
  obtain c r where s: "show_nat n = c # r" using show_nat_nonempty [of n] by (cases "show_nat n") auto
  then have "is_digit c" using show_nat_digits [of n] by simp
  then have "split_sign (show_nat n) = (False, show_nat n)"
    using s by (auto simp: split_sign_def is_digit_def)
  moreover have tw: "takeWhile is_digit (show_nat n) = show_nat n" "dropWhile is_digit (show_nat n) = []"
    using show_nat_digits [of n] by (simp_all add: takeWhile_eq_all_conv dropWhile_eq_Nil_conv)
  moreover have "real n < float_limit"
  proof -
    have "(1000000::real) < float_limit" by (simp add: float_limit_def)
    moreover have "real n < 1000000" using assms by simp
    ultimately show ?thesis by linarith
  qed
  ultimately show ?thesis using show_nat_nonempty [of n]
    by (simp add: parse_float_def parse_exp_def dec_value_def tw Let_def)
qed

lemma ranges:
  assumes "d \<in> set defs" "val_ok d x"
  shows "case x of VDur t \<Rightarrow> 0 \<le> t \<and> t < 2 ^ 63 | VInt i \<Rightarrow> 0 \<le> i \<and> i < 1000000 | VStr _ \<Rightarrow> True"
proof -
  have "\<forall>d \<in> set defs. val_type d x \<longrightarrow> between d x \<longrightarrow>
      (case x of VDur t \<Rightarrow> 0 \<le> t \<and> t < 2 ^ 63 | VInt i \<Rightarrow> 0 \<le> i \<and> i < 1000000 | VStr _ \<Rightarrow> True)"
    by (cases x) (simp_all add: all_defs base_def_def between_def val_le_def)
  then show ?thesis using assms by (cases x) (auto simp: val_ok_def)
qed

lemma decode_string_encode [simp]: "decode_string (encode_val (VStr s)) = Some s"
  by (simp add: encode_val_def)

lemma parse_encode:
  assumes d: "d \<in> set defs" and x: "val_ok d x" "whole_val x"
  shows "parse_setting d (encode_val x) = Inr x"
proof (cases x)
  case (VDur t)
  then have t: "0 \<le> t" "t < 2 ^ 63" "t mod second = 0" "d_type d = TDuration" "between d (VDur t)"
    using ranges [OF assms(1,2)] x by (auto simp: val_ok_def whole_val_def)
  have "trim_space (format_duration t) = format_duration t"
    using t format_duration_no_space by (simp add: trim_no_space)
  then have "parse_duration (trim_space (unquote (quote (format_duration t)))) = Some t"
    using parse_format_duration [OF t(1-3)] by (simp add: unquote_quote)
  then show ?thesis using VDur t(4,5)
    by (simp add: parse_setting_def parse_duration_setting_def encode_val_def json_string_def Let_def)
next
  case (VInt i)
  then have i: "0 \<le> i" "i < 1000000" "d_type d = TInt" "between d (VInt i)"
    using ranges [OF assms(1,2)] x by (auto simp: val_ok_def)
  then have "parse_float (itoa i) = Some (real_of_int i)"
    using parse_float_show_nat [of "nat i"] by (simp add: itoa_def)
  then show ?thesis using VInt i
    by (simp add: parse_setting_def parse_int_setting_def encode_val_def json_int_def)
next
  case (VStr s)
  show ?thesis
  proof (cases "d_type d = TEnum")
    case True
    then show ?thesis using VStr x by (simp add: parse_setting_def val_ok_def)
  next
    case False
    then have "d_type d = TString" "check_string d s = None" using VStr x by (auto simp: val_ok_def)
    moreover have "trim_space s = s"
      using calculation(2) by (intro trim_no_space) (simp add: check_string_def split: if_split_asm)
    ultimately show ?thesis using VStr by (simp add: parse_setting_def)
  qed
qed

lemma parse_encode_norm:
  assumes "d \<in> set defs" "val_ok d x" "whole_val x"
  shows "(case (if encode_val x \<noteq> encode_val (d_default d) then Some (encode_val x) else None) of
      None \<Rightarrow> d_default d | Some raw \<Rightarrow> (case parse_setting d raw of Inr y \<Rightarrow> y | Inl _ \<Rightarrow> d_default d)) = x"
proof (cases "encode_val x = encode_val (d_default d)")
  case True
  have "d_default d = d_get d defaults" using assms(1) by (simp add: defaults_get)
  moreover have "val_ok d (d_default d)" using defaults_ok assms(1) by (auto simp: values_ok_def defaults_get)
  moreover have "whole_val (d_default d)"
  proof -
    have "\<forall>d \<in> set defs. whole_val (d_default d)" by (simp add: all_defs base_def_def whole_val_def)
    with assms(1) show ?thesis by blast
  qed
  ultimately have "parse_setting d (encode_val (d_default d)) = Inr (d_default d)"
    using assms(1) parse_encode by blast
  moreover have "parse_setting d (encode_val x) = Inr x" using assms parse_encode by blast
  ultimately show ?thesis using True by simp
next
  case False
  then show ?thesis using assms by (simp add: parse_encode)
qed

lemma reload_build:
  assumes wf: "wf_map ov" and ok: "b_errs (build ov) = []" and whole: "whole_values (b_values (build ov))"
    and same: "wf_map nv" "\<And>k. map_of nv k = norm_entry ov k"
  shows "b_values (build nv) = b_values (build ov)" "b_errs (build nv) = []"
    "\<And>k. norm_entry nv k = norm_entry ov k" "b_unknown (build nv) = []"
proof -
  have vals: "val_ok d (override_of ov d) \<and> whole_val (override_of ov d)" if "d \<in> set defs" for d
    using that build_ok [OF wf ok] whole build_values(1) [OF wf that] by (auto simp: values_ok_def whole_values_def)
  have eq: "override_of nv d = override_of ov d" if d: "d \<in> set defs" for d
  proof -
    have "map_of nv (d_key d) = (if encode_val (override_of ov d) \<noteq> encode_val (d_default d)
        then Some (encode_val (override_of ov d)) else None)"
      using d same(2) [of "d_key d"] lookup_def_iff [of "d_key d" d] by (simp add: norm_entry_def)
    then show ?thesis using parse_encode_norm [OF d, of "override_of ov d"] vals [OF d]
      by (simp add: override_of_def [of nv])
  qed
  show v: "b_values (build nv) = b_values (build ov)"
    by (rule lens_complete) (simp add: build_values(1) [OF same(1)] build_values(1) [OF wf] eq)
  show "\<And>k. norm_entry nv k = norm_entry ov k" using eq by (intro norm_entry_cong)
  have good: "\<exists>d x. lookup_def k = Some d \<and> parse_setting d raw = Inr x" if kr: "(k, raw) \<in> set nv" for k raw
  proof -
    have "norm_entry ov k = Some raw" using kr same by (metis map_of_is_SomeI)
    then obtain d where d: "lookup_def k = Some d" "raw = encode_val (override_of ov d)"
      by (auto simp: norm_entry_def split: option.splits if_splits)
    then have "d \<in> set defs" by (simp add: lookup_def_iff)
    then show ?thesis using d vals parse_encode by blast
  qed
  have "\<forall>(k, raw) \<in> set nv. case lookup_def k of Some d \<Rightarrow> (\<exists>x. parse_setting d raw = Inr x) | None \<Rightarrow> True"
  proof (rule ballI)
    fix q assume q: "q \<in> set nv"
    obtain k raw where kr: "q = (k, raw)" by fastforce
    with q obtain d x where "lookup_def k = Some d" "parse_setting d raw = Inr x" using good by blast
    then show "case q of (k, raw) \<Rightarrow> (case lookup_def k of Some d \<Rightarrow> (\<exists>x. parse_setting d raw = Inr x) | None \<Rightarrow> True)"
      by (simp add: kr)
  qed
  moreover have "cross_check (b_values (build ov)) = []" using ok build_errs by blast
  ultimately show "b_errs (build nv) = []" unfolding build_errs [of nv] v by blast
  have "b_unknown (fold build_step nv b) = b_unknown b" for b
    using good
  proof (induction nv arbitrary: b)
    case (Cons p nv)
    obtain k raw where p: "p = (k, raw)" by fastforce
    then have "(k, raw) \<in> set (p # nv)" by simp
    then obtain d x where "lookup_def k = Some d" "parse_setting d raw = Inr x" using Cons.prems by blast
    then have "b_unknown (build_step p b) = b_unknown b" using p by (simp add: build_step_def)
    moreover have "b_unknown (fold build_step nv (build_step p b)) = b_unknown (build_step p b)"
      by (rule Cons.IH) (rule Cons.prems, simp)
    ultimately show ?case by simp
  qed simp
  then show "b_unknown (build nv) = []" by (simp add: build_def Let_def)
qed

subsection \<open>Preparing a change\<close>

lemma prepare_fold_map:
  "wf_map next \<Longrightarrow> fold prepare_step chs (next, errs) = (next', errs') \<Longrightarrow> wf_map next'"
proof (induction chs arbitrary: "next" errs)
  case (Cons p chs)
  obtain k raw where p: "p = (k, raw)" by fastforce
  obtain n e where s: "prepare_step p (next, errs) = (n, e)" by fastforce
  then have "wf_map n" using Cons.prems(1) p
    by (auto simp: prepare_step_def split: option.splits if_splits sum.splits)
  with Cons s show ?case by auto
qed simp

lemma prepare_fold_other:
  assumes "fold prepare_step chs (next, errs) = (next', errs')" "\<not> has_key chs k"
  shows "map_of next' k = map_of next k"
  using assms
proof (induction chs arbitrary: "next" errs)
  case (Cons p chs)
  obtain j raw where p: "p = (j, raw)" by fastforce
  then have j: "j \<noteq> k" "\<not> has_key chs k" using Cons.prems(2) by (auto simp: has_key_iff)
  obtain n e where s: "prepare_step p (next, errs) = (n, e)" by fastforce
  then have "map_of n k = map_of next k" using p j(1)
    by (auto simp: prepare_step_def split: option.splits if_splits sum.splits)
  with Cons s j show ?case by auto
qed simp

lemma prepareD:
  assumes "prepare chs s = Inr p"
  obtains "next" where "fold prepare_step chs (ss_overrides s, []) = (next, [])"
    "b_errs (build next) = []" "pe_values p = b_values (build next)" "pe_overrides p = b_norm (build next)"
  using assms by (auto simp: prepare_def Let_def split: prod.splits if_splits)

definition settings_inv :: "settings_store \<Rightarrow> bool" where
  "settings_inv s \<longleftrightarrow> wf_map (ss_overrides s) \<and> ss_cur s = b_values (build (ss_overrides s)) \<and> values_ok (ss_cur s)"

lemma prepare_valid:
  "wf_map (ss_overrides s) \<Longrightarrow> prepare chs s = Inr p \<Longrightarrow> values_ok (pe_values p) \<and> wf_map (pe_overrides p)"
  by (erule prepareD) (metis build_ok build_values(2) prepare_fold_map)

subsection \<open>Properties\<close>

text \<open>C19: settings that pass validation are all within the limits of the registry and consistent with
  each other (budget and dial timeout, job and idle timeout, pending and total connections, the
  profit margins, the timed duration and period, the history tiers), whatever was set before.\<close>

theorem prepared_settings_valid:
  assumes "wf_map (ss_overrides s)" "prepare chs s = Inr p"
  shows "values_ok (ss_cur (commit_pending p s)) \<and>
    (let v = ss_cur (commit_pending p s) in
       v_upstream_dial_timeout v \<le> v_upstream_connect_budget v \<and> v_upstream_job_timeout v \<le> v_upstream_idle_timeout v \<and>
       v_max_pending_connections v \<le> v_max_connections v \<and> v_profit_return_margin v \<le> v_profit_margin v \<and>
       v_timed_duration v < v_timed_period v \<and> v_history_detail v \<le> v_history_retention v \<and>
       v_history_detail v \<le> v_history_miners v)"
proof -
  have ok: "values_ok (pe_values p)" using prepare_valid [OF assms] by simp
  then have "cross_check (pe_values p) = []" by (simp add: values_ok_def)
  then show ?thesis using ok
    by (simp add: commit_pending_def Let_def cross_check_def not_less split: if_split_asm)
qed

abbreviation example_settings :: settings_store where
  "example_settings \<equiv> \<lparr>ss_cur = defaults, ss_overrides = []\<rparr>"

abbreviation example_changes :: "(string, json) gomap" where
  "example_changes \<equiv> [(''profit_margin'', JNum ''9'')]"

lemma example_lookup: "lookup_def ''profit_margin'' = Some (defs_profit ! 2)"
  by (simp add: lookup_def_iff all_defs base_def_def)

lemma example_parse: "parse_setting (defs_profit ! 2) (JNum ''9'') = Inr (VInt 9)"
proof -
  have "show_nat 9 = ''9''" by code_simp
  then have "parse_float ''9'' = Some 9" using parse_float_show_nat [of 9] by simp
  then show ?thesis
    by (simp add: parse_setting_def parse_int_setting_def defs_profit_def base_def_def between_def val_le_def)
qed

lemma example_step: "build_step (''profit_margin'', JNum ''9'') start_build =
    start_build\<lparr>b_values := defaults\<lparr>v_profit_margin := 9\<rparr>, b_norm := [(''profit_margin'', json_int 9)]\<rparr>"
proof -
  have "json_int 9 \<noteq> json_int 5" by code_simp
  then show ?thesis
    by (simp add: build_step_def example_lookup example_parse encode_val_def)
      (simp add: defs_profit_def base_def_def num_def)
qed

lemma example_prepare:
  obtains p where "prepare example_changes example_settings = Inr p"
    "pe_values p = defaults\<lparr>v_profit_margin := 9\<rparr>"
proof -
  have j: "json_int 9 = JNum ''9''" by code_simp
  have dd: "d_default (defs_profit ! 2) = VInt 5" by (simp add: defs_profit_def base_def_def)
  have "json_int 9 \<noteq> json_int 5" by code_simp
  then have "fold prepare_step example_changes ([], []) = ([(''profit_margin'', JNum ''9'')], [])"
    by (simp add: prepare_step_def example_lookup example_parse encode_val_def j dd)
  moreover have "cross_check (defaults\<lparr>v_profit_margin := 9\<rparr>) = []"
    by (simp add: defaults_def all_defs base_def_def cross_check_def dur_def num_def str_def zero_values_def)
  ultimately show ?thesis using that
    by (simp add: prepare_def build_def example_step Let_def)
qed

theorem prepared_settings_valid_witness:
  "\<exists>p. prepare example_changes example_settings = Inr p \<and> values_ok (ss_cur (commit_pending p example_settings)) \<and>
     v_profit_margin (ss_cur (commit_pending p example_settings)) = 9"
proof -
  obtain p where p: "prepare example_changes example_settings = Inr p" "pe_values p = defaults\<lparr>v_profit_margin := 9\<rparr>"
    by (rule example_prepare)
  then show ?thesis using prepared_settings_valid [of example_settings example_changes p]
    by (auto simp: commit_pending_def)
qed

text \<open>A change touches only the settings it names: every other setting keeps its value.\<close>

theorem prepare_keeps_other_settings:
  assumes "settings_inv s" "prepare chs s = Inr p" "d \<in> set defs" "\<not> has_key chs (d_key d)"
  shows "d_get d (pe_values p) = d_get d (ss_cur s)"
proof -
  obtain "next" where n: "fold prepare_step chs (ss_overrides s, []) = (next, [])"
    "pe_values p = b_values (build next)" using assms(2) by (rule prepareD)
  have wf: "wf_map (ss_overrides s)" "wf_map next"
    using assms(1) prepare_fold_map [OF _ n(1)] by (auto simp: settings_inv_def)
  have "override_of next d = override_of (ss_overrides s) d"
    using prepare_fold_other [OF n(1) assms(4)] by (simp add: override_of_def)
  then show ?thesis using assms(1,3) n(2) build_values(1) [OF wf(1)] build_values(1) [OF wf(2)]
    by (simp add: settings_inv_def)
qed

theorem prepare_keeps_other_settings_witness:
  "\<exists>p. prepare example_changes example_settings = Inr p \<and>
     d_get (hd defs_logins) (pe_values p) = d_get (hd defs_logins) (ss_cur example_settings)"
proof -
  obtain p where p: "prepare example_changes example_settings = Inr p" by (rule example_prepare)
  have "settings_inv example_settings"
    using defaults_ok by (simp add: settings_inv_def build_def)
  then have "d_get (hd defs_logins) (pe_values p) = d_get (hd defs_logins) (ss_cur example_settings)"
    by (rule prepare_keeps_other_settings [OF _ p]) (simp_all add: all_defs base_def_def has_key_def)
  with p show ?thesis by blast
qed

text \<open>The overrides a change saves load to the same settings after a restart, with no unknown key
  and the same overrides, for durations of whole seconds.\<close>

theorem saved_settings_reload:
  assumes "wf_map (ss_overrides s)" "prepare chs s = Inr p" "whole_values (pe_values p)"
  shows "\<exists>t. new_settings (pe_overrides p) = Inr (t, []) \<and> ss_cur t = pe_values p \<and>
    map_of (ss_overrides t) = map_of (pe_overrides p)"
proof -
  obtain "next" where n: "fold prepare_step chs (ss_overrides s, []) = (next, [])" "b_errs (build next) = []"
    "pe_values p = b_values (build next)" "pe_overrides p = b_norm (build next)" using assms(2) by (rule prepareD)
  have wf: "wf_map next" using assms(1) n(1) by (rule prepare_fold_map)
  have nv: "wf_map (pe_overrides p)" "\<And>k. map_of (pe_overrides p) k = norm_entry next k"
    using build_values(2,3) [OF wf] n(4) by simp_all
  have w: "whole_values (b_values (build next))" using assms(3) n(3) by simp
  note r = reload_build [OF wf n(2) w nv]
  have "map_of (b_norm (build (pe_overrides p))) = map_of (pe_overrides p)"
    using r(3) nv build_values(3) [OF nv(1)] by (auto simp: fun_eq_iff)
  then show ?thesis using r n(3) by (simp add: new_settings_def Let_def)
qed

theorem saved_settings_reload_witness:
  "\<exists>p t. prepare example_changes example_settings = Inr p \<and> new_settings (pe_overrides p) = Inr (t, []) \<and>
     ss_cur t = pe_values p"
proof -
  obtain p where p: "prepare example_changes example_settings = Inr p" "pe_values p = defaults\<lparr>v_profit_margin := 9\<rparr>"
    by (rule example_prepare)
  have "whole_values (pe_values p)"
    by (simp add: p(2) whole_values_def whole_val_def defaults_def all_defs base_def_def dur_def num_def str_def zero_values_def)
  then show ?thesis using saved_settings_reload [of example_settings example_changes p] p(1) by auto
qed

end
