(* ===== verification/Stats.thy ===== *)
theory Stats
  imports Prelude
begin

text \<open>
  Package \<open>stats\<close>: the hashrate estimate of a sliding window of minute buckets (\<open>rate\<close>) and the
  share counters in total, per pool and per worker (\<open>collector\<close>).

  Counters are 64 bit words; a difficulty and a rate are reals (\<open>float64\<close> without rounding). A
  collector owns its rates, so they are values in it. The lemmas show that the buckets sum
  exactly the shares of the window and that the totals are the sums over the pools.
\<close>

definition n_buckets :: nat where "n_buckets = 10"
definition bucket_len :: duration where "bucket_len = minute"
definition hashes_per_difficulty :: real where "hashes_per_difficulty = 4294967296"

record rate =
  r_start :: time
  r_sums :: "real list"
  r_stamps :: "int list"

definition new_rate :: "time \<Rightarrow> rate" where
  "new_rate start = \<lparr>r_start = start, r_sums = replicate n_buckets 0, r_stamps = replicate n_buckets 0\<rparr>"

definition minute_of :: "time \<Rightarrow> int" where
  "minute_of now = go_div (unix now) 60"

definition bucket_of :: "int \<Rightarrow> nat" where
  "bucket_of m = nat (go_mod m (int n_buckets))"

definition rate_add :: "real \<Rightarrow> time \<Rightarrow> rate \<Rightarrow> rate" where
  "rate_add diff now r =
     (let m = minute_of now; i = bucket_of m;
          r = (if r_stamps r ! i \<noteq> m then r\<lparr>r_stamps := (r_stamps r)[i := m], r_sums := (r_sums r)[i := 0]\<rparr> else r)
      in r\<lparr>r_sums := (r_sums r)[i := r_sums r ! i + diff]\<rparr>)"

definition window_sum :: "int \<Rightarrow> rate \<Rightarrow> real" where
  "window_sum m r =
     (\<Sum>i\<leftarrow>[0..<n_buckets]. if m - int n_buckets < r_stamps r ! i \<and> r_stamps r ! i \<le> m then r_sums r ! i else 0)"

definition hashrate :: "time \<Rightarrow> rate \<Rightarrow> real" where
  "hashrate now r =
     (let m = minute_of now;
          window_start = of_unix ((m - int n_buckets + 1) * 60);
          window_start = (if window_start < r_start r then r_start r else window_start);
          span = time_sub now window_start;
          span = (if span < bucket_len then bucket_len else span)
      in window_sum m r * hashes_per_difficulty / (real_of_int span / real_of_int second))"

record pool_shares =
  ps_accepted :: "64 word"
  ps_rejected :: "64 word"
  ps_reasons :: "(string, 64 word) gomap"

record counters =
  c_accepted :: "64 word"
  c_rejected :: "64 word"
  c_diff :: real

definition zero_counters :: counters where
  "zero_counters = \<lparr>c_accepted = 0, c_rejected = 0, c_diff = 0\<rparr>"

record collector =
  col_start :: time
  col_accepted :: "64 word"
  col_rejected :: "64 word"
  col_reasons :: "(string, 64 word) gomap"
  col_by_pool :: "(string, pool_shares) gomap"
  col_rate :: rate
  col_pool_rate :: "(string, rate) gomap"
  col_diff :: real
  col_pool_diff :: "(string, real) gomap"
  col_workers :: "(string, counters) gomap"
  col_junk :: "64 word"
  col_tls :: "64 word"

definition new_collector :: "time \<Rightarrow> collector" where
  "new_collector now = \<lparr>col_start = now, col_accepted = 0, col_rejected = 0, col_reasons = [], col_by_pool = [],
     col_rate = new_rate now, col_pool_rate = [], col_diff = 0, col_pool_diff = [], col_workers = [],
     col_junk = 0, col_tls = 0\<rparr>"

definition max_workers :: nat where "max_workers = 10000"
definition max_reasons :: nat where "max_reasons = 50"

definition add_reason :: "string \<Rightarrow> (string, 64 word) gomap \<Rightarrow> (string, 64 word) gomap" where
  "add_reason reason m =
     (let reason = (if reason = [] then ''unknown'' else reason);
          reason = (if \<not> has_key m reason \<and> max_reasons \<le> length m then ''other'' else reason)
      in put reason (get_or 0 m reason + 1) m)"

text \<open>The counters of a worker, created while there is room; \<^term>\<open>None\<close> for no worker.\<close>

definition worker_entry :: "string \<Rightarrow> (string, counters) gomap \<Rightarrow> counters option" where
  "worker_entry name ws =
     (if name = [] then None
      else (case map_of ws name of Some w \<Rightarrow> Some w
        | None \<Rightarrow> if length ws < max_workers then Some zero_counters else None))"

definition count_worker :: "string \<Rightarrow> bool \<Rightarrow> real \<Rightarrow> (string, counters) gomap \<Rightarrow> (string, counters) gomap" where
  "count_worker name accepted diff ws =
     (case worker_entry name ws of None \<Rightarrow> ws
      | Some w \<Rightarrow>
          put name (if accepted then w\<lparr>c_accepted := c_accepted w + 1, c_diff := c_diff w + diff\<rparr>
                    else w\<lparr>c_rejected := c_rejected w + 1\<rparr>) ws)"

definition share :: "string \<Rightarrow> string \<Rightarrow> bool \<Rightarrow> real \<Rightarrow> string \<Rightarrow> time \<Rightarrow> collector \<Rightarrow> collector" where
  "share pool_id worker accepted diff reason now c =
     (let ps = (case map_of (col_by_pool c) pool_id of Some p \<Rightarrow> p
                | None \<Rightarrow> \<lparr>ps_accepted = 0, ps_rejected = 0, ps_reasons = []\<rparr>);
          c = c\<lparr>col_workers := count_worker worker accepted diff (col_workers c)\<rparr>
      in if accepted then
           c\<lparr>col_accepted := col_accepted c + 1,
             col_by_pool := put pool_id (ps\<lparr>ps_accepted := ps_accepted ps + 1\<rparr>) (col_by_pool c),
             col_diff := col_diff c + diff,
             col_pool_diff := put pool_id (get_or 0 (col_pool_diff c) pool_id + diff) (col_pool_diff c),
             col_rate := rate_add diff now (col_rate c),
             col_pool_rate :=
               put pool_id (rate_add diff now (get_or (new_rate now) (col_pool_rate c) pool_id)) (col_pool_rate c)\<rparr>
         else
           c\<lparr>col_rejected := col_rejected c + 1,
             col_by_pool := put pool_id (ps\<lparr>ps_rejected := ps_rejected ps + 1,
                                            ps_reasons := add_reason reason (ps_reasons ps)\<rparr>) (col_by_pool c),
             col_reasons := add_reason reason (col_reasons c)\<rparr>)"

record totals =
  t_total :: counters
  t_pools :: "(string, counters) gomap"
  t_workers :: "(string, counters) gomap"

definition collector_totals :: "collector \<Rightarrow> totals" where
  "collector_totals c =
     \<lparr>t_total = \<lparr>c_accepted = col_accepted c, c_rejected = col_rejected c, c_diff = col_diff c\<rparr>,
      t_pools = map (\<lambda>(i, ps). (i, \<lparr>c_accepted = ps_accepted ps, c_rejected = ps_rejected ps,
                                    c_diff = get_or 0 (col_pool_diff c) i\<rparr>)) (col_by_pool c),
      t_workers = col_workers c\<rparr>"

definition upstream_invalid_json :: "collector \<Rightarrow> collector" where
  "upstream_invalid_json c = c\<lparr>col_junk := col_junk c + 1\<rparr>"

definition tls_handshake_failed :: "collector \<Rightarrow> collector" where
  "tls_handshake_failed c = c\<lparr>col_tls := col_tls c + 1\<rparr>"

record summary =
  su_accepted :: "64 word"
  su_rejected :: "64 word"
  su_reasons :: "(string, 64 word) gomap"
  su_by_pool :: "(string, pool_shares) gomap"
  su_hashrate :: real
  su_pool_hashrate :: "(string, real) gomap"
  su_junk :: "64 word"
  su_tls :: "64 word"

definition collector_snapshot :: "time \<Rightarrow> collector \<Rightarrow> summary" where
  "collector_snapshot now c = \<lparr>su_accepted = col_accepted c, su_rejected = col_rejected c, su_reasons = col_reasons c,
     su_by_pool = col_by_pool c, su_hashrate = hashrate now (col_rate c),
     su_pool_hashrate = map (\<lambda>(i, r). (i, hashrate now r)) (col_pool_rate c),
     su_junk = col_junk c, su_tls = col_tls c\<rparr>"

subsection \<open>The sliding window\<close>

text \<open>The reference: a log of (minute, difficulty), newest first, and the sum over a window.\<close>

definition log_sum :: "int \<Rightarrow> (int \<times> real) list \<Rightarrow> real" where
  "log_sum m ds = sum_list (map snd (filter (\<lambda>(k, d). m - int n_buckets < k \<and> k \<le> m) ds))"

definition rate_inv :: "int \<Rightarrow> (int \<times> real) list \<Rightarrow> rate \<Rightarrow> bool" where
  "rate_inv newest ds r \<longleftrightarrow>
     0 \<le> newest \<and> length (r_sums r) = n_buckets \<and> length (r_stamps r) = n_buckets \<and>
     (\<forall>(k, d) \<in> set ds. 0 \<le> k \<and> k \<le> newest) \<and>
     (\<forall>i < n_buckets. 0 \<le> r_stamps r ! i \<and> r_stamps r ! i \<le> newest \<and>
        (r_stamps r ! i = 0 \<or> bucket_of (r_stamps r ! i) = i) \<and>
        (\<forall>(k, d) \<in> set ds. bucket_of k = i \<longrightarrow> k \<le> r_stamps r ! i) \<and>
        r_sums r ! i = sum_list (map snd (filter (\<lambda>(k, d). bucket_of k = i \<and> k = r_stamps r ! i) ds)))"

lemma bucket_of_nonneg: "0 \<le> m \<Longrightarrow> bucket_of m = nat (m mod 10) \<and> bucket_of m < n_buckets"
  by (cases "m = 0") (simp_all add: bucket_of_def n_buckets_def go_mod_nonneg_eq)

lemma rate_inv_new: "rate_inv 0 [] (new_rate t)"
  by (simp add: rate_inv_def new_rate_def n_buckets_def)

lemma rate_inv_add:
  assumes inv: "rate_inv newest ds r" and m: "minute_of now = m" "newest \<le> m"
  shows "rate_inv m ((m, diff) # ds) (rate_add diff now r)"
proof -
  have m0: "0 \<le> m" "bucket_of m < n_buckets"
    using inv m bucket_of_nonneg [of m] by (auto simp: rate_inv_def)
  define b where "b = bucket_of m"
  define r' where "r' = rate_add diff now r"
  have len: "length (r_sums r) = n_buckets" "length (r_stamps r) = n_buckets" using inv by (auto simp: rate_inv_def)
  have stamps: "r_stamps r' = (r_stamps r)[b := m]"
    using m(1) by (auto simp: r'_def rate_add_def Let_def b_def list_update_id [symmetric] simp del: list_update_id)
      (metis list_update_id)
  have sums: "r_sums r' = (r_sums r)[b := (if r_stamps r ! b = m then r_sums r ! b else 0) + diff]"
    using m(1) m0 len by (simp add: r'_def rate_add_def Let_def b_def)
  have other: "r_stamps r' ! i = r_stamps r ! i \<and> r_sums r' ! i = r_sums r ! i" if "i \<noteq> b" for i
    using that by (simp add: stamps sums)
  have old: "k \<le> newest" if "(k, d) \<in> set ds" for k d using inv that by (auto simp: rate_inv_def)
  have none: "filter (\<lambda>(k, d). bucket_of k = b \<and> k = m) ds = []" if "r_stamps r ! b \<noteq> m"
  proof -
    have "k \<noteq> m" if k: "(k, d) \<in> set ds" "bucket_of k = b" for k d
    proof
      assume "k = m"
      with k have "m \<le> r_stamps r ! b" using inv m0 unfolding rate_inv_def b_def by blast
      moreover have "r_stamps r ! b \<le> m" using inv m0 m(2) unfolding rate_inv_def b_def by fastforce
      ultimately show False using \<open>r_stamps r ! b \<noteq> m\<close> by simp
    qed
    then show ?thesis by (auto simp: filter_empty_conv)
  qed
  show ?thesis
    unfolding rate_inv_def r'_def [symmetric]
  proof (intro conjI allI impI)
    show "0 \<le> m" by (rule m0)
    show "length (r_sums r') = n_buckets" "length (r_stamps r') = n_buckets" using len by (simp_all add: stamps sums)
    show "\<forall>(k, d) \<in> set ((m, diff) # ds). 0 \<le> k \<and> k \<le> m" using inv m0 m(2) by (fastforce simp: rate_inv_def)
    fix i assume i: "i < n_buckets"
    show "0 \<le> r_stamps r' ! i" "r_stamps r' ! i \<le> m" "r_stamps r' ! i = 0 \<or> bucket_of (r_stamps r' ! i) = i"
      using inv i m0 m(2) len unfolding rate_inv_def stamps b_def by (cases "i = bucket_of m"; fastforce)+
    show "\<forall>(k, d) \<in> set ((m, diff) # ds). bucket_of k = i \<longrightarrow> k \<le> r_stamps r' ! i"
    proof (cases "i = b")
      case True
      then show ?thesis using i len old m(2) by (fastforce simp: stamps)
    next
      case False
      then show ?thesis using inv i other [OF False] by (fastforce simp: rate_inv_def b_def)
    qed
    show "r_sums r' ! i = sum_list (map snd (filter (\<lambda>(k, d). bucket_of k = i \<and> k = r_stamps r' ! i) ((m, diff) # ds)))"
    proof (cases "i = b")
      case True
      have "r_sums r ! b = sum_list (map snd (filter (\<lambda>(k, d). bucket_of k = b \<and> k = r_stamps r ! b) ds))"
        using inv i True unfolding rate_inv_def by blast
      then show ?thesis using True i len none by (auto simp: stamps sums b_def)
    next
      case False
      have "r_sums r ! i = sum_list (map snd (filter (\<lambda>(k, d). bucket_of k = i \<and> k = r_stamps r ! i) ds))"
        using inv i unfolding rate_inv_def by blast
      then show ?thesis using False other [OF False] by (simp add: b_def)
    qed
  qed
qed

lemma sum_partition:
  fixes ds :: "(int \<times> real) list"
  assumes "\<forall>x \<in> set ds. g x < n"
  shows "sum_list (map snd (filter P ds)) = (\<Sum>i\<leftarrow>[0..<n]. sum_list (map snd (filter (\<lambda>x. g x = i \<and> P x) ds)))"
  using assms
proof (induction ds)
  case Nil
  then show ?case by (simp add: sum_list_0)
next
  case (Cons x ds)
  have one: "(\<Sum>i\<leftarrow>[0..<n]. if g x = i then y else 0) = y" if "g x < n" for y :: real
    using that by (subst sum_list_distinct_conv_sum_set) (simp_all add: sum.delta)
  have "(\<Sum>i\<leftarrow>[0..<n]. sum_list (map snd (filter (\<lambda>y. g y = i \<and> P y) (x # ds)))) =
      (\<Sum>i\<leftarrow>[0..<n]. (if g x = i then (if P x then snd x else 0) else 0) +
         sum_list (map snd (filter (\<lambda>y. g y = i \<and> P y) ds)))"
    by (rule arg_cong [where f = sum_list], rule map_cong) auto
  also have "\<dots> = (if P x then snd x else 0) + sum_list (map snd (filter P ds))"
    using Cons one by (subst sum_list_addf) simp
  finally show ?case by simp
qed

lemma window_sum_exact:
  assumes inv: "rate_inv newest ds r" and m: "newest \<le> m"
  shows "window_sum m r = log_sum m ds"
proof -
  define W where "W k \<longleftrightarrow> m - int n_buckets < k \<and> k \<le> m" for k
  have stamp: "r_stamps r ! i \<le> m" if "i < n_buckets" for i
    using inv that m unfolding rate_inv_def by fastforce
  have same: "k = r_stamps r ! i" if "(k, d) \<in> set ds" "bucket_of k = i" "W k" "i < n_buckets" for k d i
  proof -
    have k: "0 \<le> k" "k \<le> r_stamps r ! i" "0 \<le> r_stamps r ! i"
        "r_stamps r ! i = 0 \<or> bucket_of (r_stamps r ! i) = i"
      using inv that unfolding rate_inv_def by fastforce+
    show ?thesis
    proof (cases "r_stamps r ! i = 0")
      case True
      then show ?thesis using k by simp
    next
      case False
      then have "k mod 10 = r_stamps r ! i mod 10"
        using k that(2) bucket_of_nonneg [of k] bucket_of_nonneg [of "r_stamps r ! i"]
        by (simp add: eq_nat_nat_iff)
      then have "10 dvd r_stamps r ! i - k" by (simp add: mod_eq_dvd_iff [symmetric])
      moreover have "r_stamps r ! i - k < 10"
        using that(3) stamp [OF that(4)] by (simp add: W_def n_buckets_def)
      ultimately have "\<not> 0 < r_stamps r ! i - k" using zdvd_not_zless by blast
      then show ?thesis using k(2) by simp
    qed
  qed
  have "(if W (r_stamps r ! i) then r_sums r ! i else 0) =
      sum_list (map snd (filter (\<lambda>x. bucket_of (fst x) = i \<and> W (fst x)) ds))" if i: "i < n_buckets" for i
  proof -
    have "r_sums r ! i = sum_list (map snd (filter (\<lambda>(k, d). bucket_of k = i \<and> k = r_stamps r ! i) ds))"
      using inv i unfolding rate_inv_def by blast
    moreover have "filter (\<lambda>x. bucket_of (fst x) = i \<and> W (fst x)) ds =
        (if W (r_stamps r ! i) then filter (\<lambda>(k, d). bucket_of k = i \<and> k = r_stamps r ! i) ds else [])"
      using same i by (auto intro!: filter_cong simp: filter_empty_conv)
    ultimately show ?thesis by simp
  qed
  then have "window_sum m r = (\<Sum>i\<leftarrow>[0..<n_buckets]. sum_list (map snd (filter (\<lambda>x. bucket_of (fst x) = i \<and> W (fst x)) ds)))"
    unfolding window_sum_def W_def by (intro arg_cong [where f = sum_list] map_cong) auto
  also have "\<dots> = sum_list (map snd (filter (\<lambda>x. W (fst x)) ds))"
  proof (rule sum_partition [symmetric], intro ballI)
    fix x assume "x \<in> set ds"
    then have "0 \<le> fst x" using inv unfolding rate_inv_def by fastforce
    then show "bucket_of (fst x) < n_buckets" using bucket_of_nonneg by blast
  qed
  finally show ?thesis by (simp add: log_sum_def W_def split_def)
qed

subsection \<open>The counters\<close>

definition reasons_ok :: "(string, 64 word) gomap \<Rightarrow> bool" where
  "reasons_ok m \<longleftrightarrow> wf_map m \<and>
     (length m \<le> max_reasons \<or> length m = Suc max_reasons \<and> has_key m ''other'')"

abbreviation sum_of :: "('v \<Rightarrow> 'a::comm_monoid_add) \<Rightarrow> (string, 'v) gomap \<Rightarrow> 'a" where
  "sum_of f m \<equiv> sum_list (map (f \<circ> snd) m)"

definition collector_inv :: "collector \<Rightarrow> bool" where
  "collector_inv c \<longleftrightarrow>
     wf_map (col_by_pool c) \<and> wf_map (col_pool_diff c) \<and> wf_map (col_workers c) \<and> wf_map (col_pool_rate c) \<and>
     length (col_workers c) \<le> max_workers \<and> reasons_ok (col_reasons c) \<and>
     (\<forall>(i, ps) \<in> set (col_by_pool c). reasons_ok (ps_reasons ps) \<and> ps_rejected ps = sum_of (\<lambda>x. x) (ps_reasons ps)) \<and>
     col_accepted c = sum_of ps_accepted (col_by_pool c) \<and>
     col_rejected c = sum_of ps_rejected (col_by_pool c) \<and>
     col_rejected c = sum_of (\<lambda>x. x) (col_reasons c) \<and>
     col_diff c = sum_of (\<lambda>x. x) (col_pool_diff c)"

lemma total_put:
  fixes f :: "'v \<Rightarrow> 'a::ab_group_add"
  assumes "wf_map m"
  shows "sum_of f (put k v m) = sum_of f m + f v - (case map_of m k of None \<Rightarrow> 0 | Some u \<Rightarrow> f u)"
  using sum_put [OF assms, of f k v] by (simp add: algebra_simps)

lemma add_reason_ok:
  assumes "reasons_ok m"
  shows "reasons_ok (add_reason r m) \<and> sum_of (\<lambda>x. x) (add_reason r m) = sum_of (\<lambda>x. x) m + 1"
proof -
  obtain k where k: "add_reason r m = put k (get_or 0 m k + 1) m"
      "has_key m k \<or> length m < max_reasons \<or> k = ''other''"
    by (auto simp: add_reason_def Let_def not_le split: if_splits)
  have "sum_of (\<lambda>x. x) (put k (get_or 0 m k + 1) m) = sum_of (\<lambda>x. x) m + 1"
    using assms by (subst total_put) (auto simp: reasons_ok_def get_or_def split: option.splits)
  then show ?thesis using assms k by (auto simp: reasons_ok_def length_put)
qed

lemma count_worker_ok:
  "wf_map ws \<Longrightarrow> length ws \<le> max_workers \<Longrightarrow>
     wf_map (count_worker n a d ws) \<and> length (count_worker n a d ws) \<le> max_workers"
  by (auto simp: count_worker_def worker_entry_def length_put has_key_def split: option.splits if_splits)

lemma collector_inv_new: "collector_inv (new_collector now)"
  by (simp add: collector_inv_def new_collector_def reasons_ok_def)

lemma collector_inv_share [inv_intros]:
  assumes "collector_inv c"
  shows "collector_inv (share p w a d r now c)"
proof -
  define ps where "ps = (case map_of (col_by_pool c) p of Some p \<Rightarrow> p | None \<Rightarrow> \<lparr>ps_accepted = 0, ps_rejected = 0, ps_reasons = []\<rparr>)"
  have ps: "reasons_ok (ps_reasons ps)" "ps_rejected ps = sum_of (\<lambda>x. x) (ps_reasons ps)"
    using assms by (auto simp: ps_def collector_inv_def reasons_ok_def split: option.splits dest: map_of_SomeD)
  have acc: "(case map_of (col_by_pool c) p of None \<Rightarrow> 0 | Some u \<Rightarrow> ps_accepted u) = ps_accepted ps"
    and rej: "(case map_of (col_by_pool c) p of None \<Rightarrow> 0 | Some u \<Rightarrow> ps_rejected u) = ps_rejected ps"
    by (simp_all add: ps_def split: option.split)
  have diff: "(case map_of (col_pool_diff c) p of None \<Rightarrow> 0 | Some u \<Rightarrow> u) = get_or 0 (col_pool_diff c) p"
    by (simp add: get_or_def)
  have pools: "\<forall>(i, q) \<in> set (put p v (col_by_pool c)). reasons_ok (ps_reasons q) \<and> ps_rejected q = sum_of (\<lambda>x. x) (ps_reasons q)"
    if "reasons_ok (ps_reasons v)" "ps_rejected v = sum_of (\<lambda>x. x) (ps_reasons v)" for v
    using assms that set_put_subset [of p v "col_by_pool c"] by (fastforce simp: collector_inv_def)
  have pools_acc: "\<forall>(i, q) \<in> set (put p (ps\<lparr>ps_accepted := ps_accepted ps + 1\<rparr>) (col_by_pool c)).
      reasons_ok (ps_reasons q) \<and> ps_rejected q = sum_of (\<lambda>x. x) (ps_reasons q)"
    by (rule pools) (simp_all add: ps)
  have pools_rej: "\<forall>(i, q) \<in> set (put p (ps\<lparr>ps_rejected := ps_rejected ps + 1, ps_reasons := add_reason r (ps_reasons ps)\<rparr>) (col_by_pool c)).
      reasons_ok (ps_reasons q) \<and> ps_rejected q = sum_of (\<lambda>x. x) (ps_reasons q)"
    by (rule pools) (simp_all add: ps add_reason_ok)
  have sums: "sum_of ps_rejected (col_by_pool c) = sum_of (\<lambda>x. x) (col_reasons c)"
    using assms unfolding collector_inv_def by metis
  show ?thesis
  proof (cases a)
    case True
    then show ?thesis using assms pools_acc sums count_worker_ok [of "col_workers c" w a d]
      by (simp add: share_def Let_def ps_def [symmetric] collector_inv_def total_put acc rej diff)
  next
    case False
    then show ?thesis using assms pools_rej sums count_worker_ok [of "col_workers c" w a d]
        add_reason_ok [of "col_reasons c" r]
      by (simp add: share_def Let_def ps_def [symmetric] collector_inv_def total_put acc rej diff)
  qed
qed

subsection \<open>Properties\<close>

text \<open>Over any sequence of share answers the totals are the sums over the pools (accepted,
  rejected and difficulty), every rejected share is counted under one reason, in total and per
  pool, and the tables of workers and reasons stay bounded.\<close>

theorem share_counters_balance:
  "collector_inv (fold (\<lambda>(p, w, a, d, r, t) c. share p w a d r t c) answers (new_collector now))"
proof -
  have "collector_inv c \<Longrightarrow> collector_inv (fold (\<lambda>(p, w, a, d, r, t) c. share p w a d r t c) answers c)" for c
    by (induction answers arbitrary: c) (auto intro: collector_inv_share)
  then show ?thesis by (simp add: collector_inv_new)
qed

text \<open>For shares recorded in the order of their minutes, the ten buckets sum exactly the
  difficulty of the shares of the last ten minutes, as a full log of the shares would.\<close>

theorem rate_window_exact:
  assumes "\<forall>(d, t) \<in> set adds. 0 \<le> unix t" "sorted (map (minute_of \<circ> snd) adds)"
    and "\<forall>(d, t) \<in> set adds. minute_of t \<le> m" "0 \<le> m"
  shows "window_sum m (fold (\<lambda>(d, t) r. rate_add d t r) adds (new_rate start)) =
    log_sum m (rev (map (\<lambda>(d, t). (minute_of t, d)) adds))"
proof -
  have "\<exists>newest. rate_inv newest (rev (map (\<lambda>(d, t). (minute_of t, d)) adds))
      (fold (\<lambda>(d, t) r. rate_add d t r) adds (new_rate start)) \<and> newest \<le> m \<and>
      (\<forall>k. (\<forall>(d, t) \<in> set adds. minute_of t \<le> k) \<longrightarrow> 0 \<le> k \<longrightarrow> newest \<le> k)"
    using assms
  proof (induction adds rule: rev_induct)
    case Nil
    then show ?case using rate_inv_new by (intro exI [of _ 0]) auto
  next
    case (snoc x adds)
    obtain d t where x: "x = (d, t)" by fastforce
    have "0 \<le> minute_of t" using snoc.prems x by (auto simp: minute_of_def go_div_nonneg_eq)
    moreover obtain newest where n: "rate_inv newest (rev (map (\<lambda>(d, t). (minute_of t, d)) adds))
        (fold (\<lambda>(d, t) r. rate_add d t r) adds (new_rate start))"
        "\<forall>k. (\<forall>(d, t) \<in> set adds. minute_of t \<le> k) \<longrightarrow> 0 \<le> k \<longrightarrow> newest \<le> k"
      using snoc by (auto simp: sorted_append)
    moreover have "\<forall>(e, u) \<in> set adds. minute_of u \<le> minute_of t"
      using snoc.prems(2) x by (auto simp: sorted_append)
    ultimately have "newest \<le> minute_of t" by blast
    from rate_inv_add [OF n(1) refl this]
    have "rate_inv (minute_of t) ((minute_of t, d) # rev (map (\<lambda>(d, t). (minute_of t, d)) adds))
        (rate_add d t (fold (\<lambda>(d, t) r. rate_add d t r) adds (new_rate start)))" .
    then show ?case using snoc.prems x by (intro exI [of _ "minute_of t"]) auto
  qed
  then show ?thesis using window_sum_exact by blast
qed

theorem rate_window_exact_witness:
  "window_sum 12 (fold (\<lambda>(d, t) r. rate_add d t r) [(5, 60 * second), (7, 720 * second)] (new_rate 0)) =
    log_sum 12 (rev (map (\<lambda>(d, t). (minute_of t, d)) [(5, 60 * second), (7, 720 * second)]))"
  by (rule rate_window_exact) (simp_all add: unix_def minute_of_def go_div_nonneg_eq)

end
