(* ===== verification/Monitor.thy ===== *)
theory Monitor
  imports Names Settings Stats
begin

text \<open>
  Package \<open>monitor\<close>: which ASICs stopped sending shares and which came back.

  \<^item> \<open>monitor\<close> is the state of a \<open>Monitor\<close>, the watched ASICs by login. \<open>check_miners\<close> is \<open>check\<close>: the sessions are
    summed up by login (\<open>look_at\<close>), every login is brought up to date (\<open>see_worker\<close>) and every ASIC is judged
    (\<open>judge_worker\<close>). The infos of the sessions, the order in which Go iterates over the logins, the time and the
    outcome of a write are arguments.
  \<^item> \<open>miners\<close> is the list shown by the API.

  The lemmas show what one check reports, when an ASIC counts as offline, and that the lists stay bounded and sorted.
\<close>

definition monitor_tick :: duration where "monitor_tick = 5 * second"
definition start_grace :: duration where "start_grace = 5 * minute"
definition settle_time :: duration where "settle_time = 2 * minute"
definition share_gaps :: real where "share_gaps = 20"
definition max_wait :: duration where "max_wait = hour"
definition forget_after :: duration where "forget_after = 7 * 24 * hour"
definition max_watched :: nat where "max_watched = 10000"
definition save_every :: duration where "save_every = minute"
definition max_event_names :: nat where "max_event_names = 20"

text \<open>What the monitor uses of a session's info.\<close>

record miner_info =
  mi_worker :: string
  mi_last_submit :: "time option"
  mi_pool_name :: string
  mi_hashrate :: real
  mi_connected :: time
  mi_difficulty :: real

record watched =
  wk_last_share :: time
  wk_offline :: bool
  wk_pool :: string
  wk_hashrate :: real
  wk_current :: real
  wk_difficulty :: real

record saved_worker =
  sw_last_share :: time
  sw_offline :: bool
  sw_pool :: string

record monitor =
  mn_started :: time
  mn_workers :: "(string, watched) gomap"
  mn_dirty :: bool
  mn_saved_at :: time
  mn_path :: bool
  mn_file :: "(string, saved_worker) gomap option"

record asic_change =
  ch_name :: string
  ch_online :: bool
  ch_last_share :: time
  ch_away :: duration
  ch_pool :: string

record alert =
  al_time :: time
  al_changes :: "asic_change list"
  al_online :: nat
  al_total :: nat

datatype monitor_event =
    MinerOffline "asic_change list" nat
  | MinerOnline "asic_change list" nat

definition no_worker :: watched where
  "no_worker = \<lparr>wk_last_share = zero_time, wk_offline = False, wk_pool = [], wk_hashrate = 0, wk_current = 0, wk_difficulty = 0\<rparr>"

definition loaded :: "saved_worker \<Rightarrow> watched" where
  "loaded s = no_worker\<lparr>wk_last_share := sw_last_share s, wk_offline := sw_offline s, wk_pool := sw_pool s\<rparr>"

definition load_worker :: "string \<times> saved_worker option \<Rightarrow> (string, watched) gomap \<Rightarrow> (string, watched) gomap" where
  "load_worker x ws =
     (case x of (name, None) \<Rightarrow> ws
      | (name, Some s) \<Rightarrow> if name \<noteq> [] \<and> length ws < max_watched then put name (loaded s) ws else ws)"

text \<open>\<open>New\<close>, with the entries of the state file, which may be null.\<close>

definition new_monitor :: "bool \<Rightarrow> (string \<times> saved_worker option) list \<Rightarrow> time \<Rightarrow> monitor" where
  "new_monitor path entries now =
     \<lparr>mn_started = now, mn_workers = (if path then fold load_worker entries [] else []), mn_dirty = False, mn_saved_at = zero_time,
      mn_path = path, mn_file = None\<rparr>"

subsection \<open>A check\<close>

record live_miner =
  lv_last :: time
  lv_pool :: string
  lv_settled :: real
  lv_current :: real
  lv_difficulty :: real

definition no_live :: live_miner where
  "no_live = \<lparr>lv_last = zero_time, lv_pool = [], lv_settled = 0, lv_current = 0, lv_difficulty = 0\<rparr>"

definition add_info :: "time \<Rightarrow> miner_info \<Rightarrow> live_miner \<Rightarrow> live_miner" where
  "add_info now x l =
     (let l = (case mi_last_submit x of None \<Rightarrow> l
               | Some t \<Rightarrow> if lv_last l < t then l\<lparr>lv_last := t, lv_pool := mi_pool_name x\<rparr> else l)
      in l\<lparr>lv_current := lv_current l + mi_hashrate x,
           lv_settled := (if settle_time \<le> time_sub now (mi_connected x) then lv_settled l + mi_hashrate x else lv_settled l),
           lv_difficulty := max (lv_difficulty l) (mi_difficulty x)\<rparr>)"

definition look_at :: "time \<Rightarrow> miner_info \<Rightarrow> (string, live_miner) gomap \<Rightarrow> (string, live_miner) gomap" where
  "look_at now x seen =
     (if mi_worker x = [] then seen
      else put (mi_worker x) (add_info now x (get_or no_live seen (mi_worker x))) seen)"

definition seen_miners :: "time \<Rightarrow> miner_info list \<Rightarrow> (string, live_miner) gomap" where
  "seen_miners now xs = fold (look_at now) xs []"

text \<open>How long an ASIC may send no shares; the conversion to a duration truncates.\<close>

definition wait_for :: "watched \<Rightarrow> duration \<Rightarrow> duration" where
  "wait_for w base =
     (if wk_hashrate w \<le> 0 \<or> wk_difficulty w \<le> 0 then base
      else
        (let gap = wk_difficulty w * hashes_per_difficulty / wk_hashrate w;
             own = min (share_gaps * gap) (real_of_int max_wait / real_of_int second)
         in max base \<lfloor>own * real_of_int second\<rfloor>))"

definition update_seen :: "live_miner \<Rightarrow> watched \<Rightarrow> watched" where
  "update_seen l w =
     w\<lparr>wk_current := lv_current l, wk_difficulty := lv_difficulty l,
       wk_hashrate := (if 0 < lv_settled l then lv_settled l else wk_hashrate w)\<rparr>"

text \<open>One login of the first loop: the ASICs, the changes and whether there is something to save.\<close>

definition see_worker ::
  "string \<times> live_miner \<Rightarrow> (string, watched) gomap \<times> asic_change list \<times> bool \<Rightarrow> (string, watched) gomap \<times> asic_change list \<times> bool" where
  "see_worker x s =
     (let (name, l) = x; (ws, cs, dirty) = s in
      if map_of ws name = None \<and> (is_zero (lv_last l) \<or> max_watched \<le> length ws) then s
      else
        (let w = update_seen l (get_or no_worker ws name) in
         if wk_last_share w < lv_last l then
           (put name (w\<lparr>wk_offline := False, wk_last_share := lv_last l, wk_pool := lv_pool l\<rparr>) ws,
            (if wk_offline w
             then cs @ [\<lparr>ch_name = name, ch_online = True, ch_last_share = lv_last l, ch_away = time_sub (lv_last l) (wk_last_share w),
                ch_pool = lv_pool l\<rparr>]
             else cs),
            True)
         else (put name w ws, cs, dirty)))"

text \<open>One ASIC of the second loop: what is left of it, a change, whether it was forgotten and whether it counts as online.\<close>

definition silent :: "time \<Rightarrow> duration \<Rightarrow> watched \<Rightarrow> bool" where
  "silent now base w \<longleftrightarrow> wait_for w base < time_sub now (wk_last_share w)"

definition judge_worker ::
  "time \<Rightarrow> bool \<Rightarrow> duration \<Rightarrow> string list \<Rightarrow> string \<times> watched \<Rightarrow> (string \<times> watched) list \<times> asic_change list \<times> bool \<times> nat" where
  "judge_worker now judge base seen x =
     (let (name, w) = x;
          w = (if name \<in> set seen then w else w\<lparr>wk_current := 0\<rparr>);
          sil = silent now base w in
      if \<not> wk_offline w \<and> judge \<and> sil then
        ([(name, w\<lparr>wk_offline := True\<rparr>)],
         [\<lparr>ch_name = name, ch_online = False, ch_last_share = wk_last_share w, ch_away = 0, ch_pool = wk_pool w\<rparr>], False, 0)
      else if wk_offline w \<and> forget_after < time_sub now (wk_last_share w) then ([], [], True, 0)
      else ([(name, w)], [], False, if \<not> wk_offline w \<and> \<not> sil then 1 else 0))"

fun judge_all ::
  "time \<Rightarrow> bool \<Rightarrow> duration \<Rightarrow> string list \<Rightarrow> (string \<times> watched) list \<Rightarrow> (string \<times> watched) list \<times> asic_change list \<times> bool \<times> nat" where
  "judge_all now judge base seen [] = ([], [], False, 0)"
| "judge_all now judge base seen (x # xs) =
     (case judge_worker now judge base seen x of (ys, cs, d, n) \<Rightarrow>
        (case judge_all now judge base seen xs of (zs, cs', d', n') \<Rightarrow> (ys @ zs, cs @ cs', d \<or> d', n + n')))"

definition change_before :: "asic_change \<Rightarrow> asic_change \<Rightarrow> bool" where
  "change_before a b \<longleftrightarrow> (if ch_online a \<noteq> ch_online b then \<not> ch_online a else name_less (ch_name a) (ch_name b))"

definition join_names :: "asic_change list \<Rightarrow> asic_change list \<times> nat" where
  "join_names cs = (if length cs \<le> max_event_names then (cs, 0) else (take max_event_names cs, length cs - max_event_names))"

definition report_changes :: "asic_change list \<Rightarrow> monitor_event list" where
  "report_changes cs =
     (let off = filter (\<lambda>c. \<not> ch_online c) cs; on = filter ch_online cs in
      (if off \<noteq> [] then [case join_names off of (xs, n) \<Rightarrow> MinerOffline xs n] else []) @
      (if on \<noteq> [] then [case join_names on of (xs, n) \<Rightarrow> MinerOnline xs n] else []))"

definition save_monitor :: "bool \<Rightarrow> time \<Rightarrow> monitor \<Rightarrow> monitor" where
  "save_monitor written now m =
     (if \<not> mn_path m then m
      else (let m = m\<lparr>mn_dirty := False, mn_saved_at := now\<rparr> in
            if written
            then m\<lparr>mn_file := Some (map (\<lambda>(n, w). (n, \<lparr>sw_last_share = wk_last_share w, sw_offline = wk_offline w, sw_pool = wk_pool w\<rparr>))
                   (mn_workers m))\<rparr>
            else m))"

definition check_miners ::
  "settings_values \<Rightarrow> miner_info list \<Rightarrow> ((string \<times> live_miner) list \<Rightarrow> (string \<times> live_miner) list) \<Rightarrow> bool \<Rightarrow> time \<Rightarrow> monitor
     \<Rightarrow> alert option \<times> monitor_event list \<times> monitor" where
  "check_miners v infos order written now m =
     (let base = v_offline_after v;
          seen = seen_miners now infos;
          (ws, cs, dirty) = fold see_worker (order seen) (mn_workers m, [], mn_dirty m);
          judge = (start_grace \<le> time_sub now (mn_started m));
          (ws, cs', forgot, online) = judge_all now judge base (map fst seen) ws;
          cs = cs @ cs';
          m = m\<lparr>mn_workers := ws, mn_dirty := (dirty \<or> forgot)\<rparr>;
          m = (if mn_dirty m \<and> (cs \<noteq> [] \<or> save_every \<le> time_sub now (mn_saved_at m)) then save_monitor written now m else m)
      in if cs = [] then (None, [], m)
         else (let cs = sort_by change_before cs in
               (Some \<lparr>al_time = now, al_changes = cs, al_online = online, al_total = length ws\<rparr>, report_changes cs, m)))"

subsection \<open>The list\<close>

record miner =
  mr_name :: string
  mr_online :: bool
  mr_last_share :: time
  mr_hashrate :: real
  mr_pool :: string

definition miner_before :: "miner \<Rightarrow> miner \<Rightarrow> bool" where
  "miner_before a b \<longleftrightarrow> (if mr_online a \<noteq> mr_online b then \<not> mr_online a else name_less (mr_name a) (mr_name b))"

definition miner_of :: "time \<Rightarrow> duration \<Rightarrow> string \<times> watched \<Rightarrow> miner" where
  "miner_of now base x =
     (let (name, w) = x in
      \<lparr>mr_name = name, mr_online = (\<not> wk_offline w \<and> \<not> silent now base w), mr_last_share = wk_last_share w,
       mr_hashrate = wk_current w, mr_pool = wk_pool w\<rparr>)"

definition miners :: "settings_values \<Rightarrow> time \<Rightarrow> monitor \<Rightarrow> miner list" where
  "miners v now m = sort_by miner_before (map (miner_of now (v_offline_after v)) (mn_workers m))"

subsection \<open>How long an ASIC may be silent\<close>

lemma wait_for_bounds: "base \<le> wait_for w base" "wait_for w base \<le> max base max_wait"
proof -
  let ?own = "min (share_gaps * (wk_difficulty w * hashes_per_difficulty / wk_hashrate w)) (real_of_int max_wait / real_of_int second)"
  have "?own * real_of_int second \<le> real_of_int max_wait"
    by (simp add: min_def field_simps)
  then have "\<lfloor>?own * real_of_int second\<rfloor> \<le> max_wait" by (metis floor_mono floor_of_int)
  then show "wait_for w base \<le> max base max_wait" by (auto simp: wait_for_def Let_def)
  show "base \<le> wait_for w base" by (simp add: wait_for_def Let_def)
qed

subsection \<open>Logins brought up to date\<close>

definition offline :: "(string, watched) gomap \<Rightarrow> string \<Rightarrow> bool" where
  "offline ws n \<longleftrightarrow> (case map_of ws n of None \<Rightarrow> False | Some w \<Rightarrow> wk_offline w)"

definition newer_share :: "(string, watched) gomap \<Rightarrow> string \<times> live_miner \<Rightarrow> bool" where
  "newer_share ws x \<longleftrightarrow> (case map_of ws (fst x) of None \<Rightarrow> False | Some w \<Rightarrow> wk_last_share w < lv_last (snd x))"

definition comes_back :: "(string, watched) gomap \<Rightarrow> string \<times> live_miner \<Rightarrow> bool" where
  "comes_back ws x \<longleftrightarrow> offline ws (fst x) \<and> newer_share ws x"

lemma seen_wf: "wf_map (seen_miners now xs)"
proof -
  have "wf_map s \<Longrightarrow> wf_map (fold (look_at now) xs s)" for s
    by (induction xs arbitrary: s) (simp_all add: look_at_def distinct_update)
  then show ?thesis by (simp add: seen_miners_def)
qed

lemma see_worker_cases:
  assumes "see_worker (n, l) (ws, cs, d) = (ws', cs', d')"
  obtains (skipped) "ws' = ws" "cs' = cs" "map_of ws n = None"
  | (updated) w where "ws' = put n w ws" "map_of ws n = None \<longrightarrow> length ws < max_watched"
      "wk_offline w = (offline ws n \<and> \<not> newer_share ws (n, l))"
      "map ch_name cs' = map ch_name cs @ (if comes_back ws (n, l) then [n] else [])"
      "\<forall>c \<in> set cs'. c \<in> set cs \<or> ch_online c \<and> ch_name c = n \<and> ch_last_share c = lv_last l"
      "\<forall>v. map_of ws n = Some v \<longrightarrow> wk_last_share v \<le> wk_last_share w"
proof (cases "map_of ws n = None \<and> (is_zero (lv_last l) \<or> max_watched \<le> length ws)")
  case True
  then show ?thesis using assms skipped by (simp add: see_worker_def)
next
  case False
  let ?o = "get_or no_worker ws n"
  let ?w = "update_seen l ?o"
  have w: "wk_offline ?w = wk_offline ?o" "wk_last_share ?w = wk_last_share ?o" by (simp_all add: update_seen_def)
  have o: "wk_offline ?o = offline ws n" "map_of ws n = Some v \<Longrightarrow> ?o = v" for v
    by (simp_all add: offline_def get_or_def no_worker_def split: option.split)
  have newer: "offline ws n \<Longrightarrow> newer_share ws (n, l) \<longleftrightarrow> wk_last_share ?o < lv_last l"
    by (auto simp: newer_share_def offline_def get_or_def split: option.splits)
  then have returned: "comes_back ws (n, l) \<longleftrightarrow> offline ws n \<and> wk_last_share ?o < lv_last l" by (auto simp: comes_back_def)
  have room: "map_of ws n = None \<longrightarrow> length ws < max_watched" using False by auto
  show ?thesis
  proof (cases "wk_last_share ?o < lv_last l")
    case True
    let ?u = "?w\<lparr>wk_offline := False, wk_last_share := lv_last l, wk_pool := lv_pool l\<rparr>"
    have r: "ws' = put n ?u ws" "cs' = (if offline ws n then cs @ [\<lparr>ch_name = n, ch_online = True, ch_last_share = lv_last l,
        ch_away = time_sub (lv_last l) (wk_last_share ?o), ch_pool = lv_pool l\<rparr>] else cs)"
      using assms False True w o(1) by (auto simp: see_worker_def Let_def)
    show ?thesis
      by (rule updated [of ?u]) (use r room newer returned True o(2) in \<open>auto simp: less_imp_le\<close>)
  next
    case old: False
    have r: "ws' = put n ?w ws" "cs' = cs" using assms False old w by (simp_all add: see_worker_def Let_def)
    show ?thesis
      by (rule updated [of ?w]) (use r room newer returned old w o in auto)
  qed
qed

lemma offline_put: "offline (put n w ws) k = (if k = n then wk_offline w else offline ws k)"
  by (simp add: offline_def)

lemma see_fold:
  assumes "fold see_worker xs (ws, [], d) = (ws', cs, d')" "distinct (map fst xs)" "wf_map ws"
  shows "wf_map ws' \<and> (length ws \<le> max_watched \<longrightarrow> length ws' \<le> max_watched) \<and>
    map ch_name cs = map fst (filter (comes_back ws) xs) \<and> (\<forall>c \<in> set cs. ch_online c \<and> (\<exists>l. (ch_name c, l) \<in> set xs \<and> ch_last_share c = lv_last l)) \<and>
    (\<forall>n. n \<notin> fst ` set xs \<longrightarrow> map_of ws' n = map_of ws n) \<and>
    (\<forall>n. offline ws' n = (offline ws n \<and> (\<forall>x \<in> set xs. fst x = n \<longrightarrow> \<not> newer_share ws x))) \<and>
    (\<forall>n v. map_of ws n = Some v \<longrightarrow> (\<exists>w. map_of ws' n = Some w \<and> wk_last_share v \<le> wk_last_share w))"
  using assms
proof (induction xs arbitrary: ws' cs d' rule: rev_induct)
  case Nil
  then show ?case by auto
next
  case (snoc x xs)
  obtain n l where x: "x = (n, l)" by fastforce
  obtain ws1 cs1 d1 where f: "fold see_worker xs (ws, [], d) = (ws1, cs1, d1)" by (metis prod.exhaust)
  have n: "n \<notin> fst ` set xs" using snoc.prems(2) x by auto
  note IH = snoc.IH [OF f _ snoc.prems(3)]
  have IH': "wf_map ws1" "length ws \<le> max_watched \<longrightarrow> length ws1 \<le> max_watched" "map ch_name cs1 = map fst (filter (comes_back ws) xs)"
    "\<forall>c \<in> set cs1. ch_online c \<and> (\<exists>l. (ch_name c, l) \<in> set xs \<and> ch_last_share c = lv_last l)"
    "\<And>k. k \<notin> fst ` set xs \<Longrightarrow> map_of ws1 k = map_of ws k"
    "\<And>k. offline ws1 k = (offline ws k \<and> (\<forall>x \<in> set xs. fst x = k \<longrightarrow> \<not> newer_share ws x))"
    "\<And>k v. map_of ws k = Some v \<Longrightarrow> \<exists>w. map_of ws1 k = Some w \<and> wk_last_share v \<le> wk_last_share w"
    using IH snoc.prems(2) by auto
  have same: "map_of ws1 n = map_of ws n" using IH'(5) n by blast
  have eqs: "offline ws1 n = offline ws n" "newer_share ws1 (n, l) = newer_share ws (n, l)" "comes_back ws1 (n, l) = comes_back ws (n, l)"
    using same by (simp_all add: offline_def newer_share_def comes_back_def)
  have "see_worker (n, l) (ws1, cs1, d1) = (ws', cs, d')" using snoc.prems(1) f x by simp
  then show ?case
  proof (cases rule: see_worker_cases)
    case skipped
    then have "\<not> offline ws n" using same by (simp add: offline_def)
    then have "\<not> comes_back ws (n, l)" by (simp add: comes_back_def)
    then show ?thesis using IH' skipped x \<open>\<not> offline ws n\<close> by auto
  next
    case (updated w)
    have "wf_map ws'" using IH'(1) updated(1) by (simp add: distinct_update)
    moreover have "length ws \<le> max_watched \<longrightarrow> length ws' \<le> max_watched"
      using IH'(2) updated(1,2) by (auto simp: length_put has_key_def)
    moreover have "map ch_name cs = map fst (filter (comes_back ws) (xs @ [x]))" using IH'(3) updated(4) eqs x by simp
    moreover have "\<forall>c \<in> set cs. ch_online c \<and> (\<exists>l. (ch_name c, l) \<in> set (xs @ [x]) \<and> ch_last_share c = lv_last l)"
      using IH'(4) updated(5) x by fastforce
    moreover have "\<forall>k. k \<notin> fst ` set (xs @ [x]) \<longrightarrow> map_of ws' k = map_of ws k" using IH'(5) updated(1) x by auto
    moreover have "offline ws' k = (offline ws k \<and> (\<forall>y \<in> set (xs @ [x]). fst y = k \<longrightarrow> \<not> newer_share ws y))" for k
      using IH'(6) [of k] updated(1,3) eqs x n by (auto simp: offline_put)
    moreover have "\<exists>u. map_of ws' k = Some u \<and> wk_last_share v \<le> wk_last_share u" if "map_of ws k = Some v" for k v
      using IH'(7) [OF that] updated(1,6) same that by auto
    ultimately show ?thesis by blast
  qed
qed

subsection \<open>ASICs judged\<close>

definition goes_offline :: "time \<Rightarrow> bool \<Rightarrow> duration \<Rightarrow> string \<times> watched \<Rightarrow> bool" where
  "goes_offline now judge base x \<longleftrightarrow> \<not> wk_offline (snd x) \<and> judge \<and> silent now base (snd x)"

definition forgotten :: "time \<Rightarrow> string \<times> watched \<Rightarrow> bool" where
  "forgotten now x \<longleftrightarrow> wk_offline (snd x) \<and> forget_after < time_sub now (wk_last_share (snd x))"

definition online_now :: "time \<Rightarrow> duration \<Rightarrow> string \<times> watched \<Rightarrow> bool" where
  "online_now now base x \<longleftrightarrow> \<not> wk_offline (snd x) \<and> \<not> silent now base (snd x)"

definition judged_as :: "time \<Rightarrow> bool \<Rightarrow> duration \<Rightarrow> string \<times> watched \<Rightarrow> string \<times> watched \<Rightarrow> bool" where
  "judged_as now judge base x y \<longleftrightarrow> fst y = fst x \<and> wk_offline (snd y) = (wk_offline (snd x) \<or> goes_offline now judge base x) \<and>
     wk_last_share (snd y) = wk_last_share (snd x) \<and> silent now base (snd y) = silent now base (snd x)"

lemma silent_fields [simp]:
  "silent now base (w\<lparr>wk_current := c\<rparr>) = silent now base w" "silent now base (w\<lparr>wk_offline := b\<rparr>) = silent now base w"
  by (simp_all add: silent_def wait_for_def)

lemma judge_worker_shape:
  assumes "judge_worker now judge base seen x = (ys, cs, f, k)"
  shows "map ch_name cs = (if goes_offline now judge base x then [fst x] else []) \<and>
    (\<forall>c \<in> set cs. \<not> ch_online c \<and> ch_last_share c = wk_last_share (snd x)) \<and>
    (f \<longleftrightarrow> forgotten now x) \<and> map fst ys = (if forgotten now x then [] else [fst x]) \<and>
    (\<forall>y \<in> set ys. judged_as now judge base x y) \<and> k = length (filter (online_now now base) ys)"
  using assms
  by (cases x) (auto simp: judge_worker_def Let_def goes_offline_def forgotten_def judged_as_def online_now_def split: if_splits)

lemma judge_all_shape:
  assumes "judge_all now judge base seen xs = (ys, cs, f, k)"
  shows "map ch_name cs = map fst (filter (goes_offline now judge base) xs) \<and>
    (\<forall>c \<in> set cs. \<not> ch_online c \<and> (\<exists>w. (ch_name c, w) \<in> set xs \<and> ch_last_share c = wk_last_share w)) \<and>
    (f \<longleftrightarrow> (\<exists>x \<in> set xs. forgotten now x)) \<and> map fst ys = map fst (filter (\<lambda>x. \<not> forgotten now x) xs) \<and>
    (\<forall>y \<in> set ys. \<exists>x \<in> set xs. judged_as now judge base x y) \<and> k = length (filter (online_now now base) ys)"
  using assms
proof (induction xs arbitrary: ys cs f k)
  case (Cons x xs)
  obtain ys1 cs1 f1 k1 where j: "judge_worker now judge base seen x = (ys1, cs1, f1, k1)" by (metis prod.exhaust)
  obtain ys2 cs2 f2 k2 where r: "judge_all now judge base seen xs = (ys2, cs2, f2, k2)" by (metis prod.exhaust)
  have eq: "ys = ys1 @ ys2" "cs = cs1 @ cs2" "f = (f1 \<or> f2)" "k = k1 + k2" using Cons.prems j r by simp_all
  note a = judge_worker_shape [OF j] and b = Cons.IH [OF r]
  have "\<forall>c \<in> set cs1. \<exists>w. (ch_name c, w) \<in> set (x # xs) \<and> ch_last_share c = wk_last_share w"
  proof
    fix c assume c: "c \<in> set cs1"
    then have "ch_name c \<in> set (map ch_name cs1)" by simp
    then have "ch_name c = fst x" using a by (auto split: if_splits)
    then have "(ch_name c, snd x) \<in> set (x # xs)" by simp
    then show "\<exists>w. (ch_name c, w) \<in> set (x # xs) \<and> ch_last_share c = wk_last_share w" using a c by blast
  qed
  then show ?case unfolding eq using a b by auto
qed simp

subsection \<open>What a check reports\<close>

interpretation changes: comparison change_before
proof -
  have eq: "change_before = (\<lambda>a b. (ch_online a, tokens (ch_name a)) < (ch_online b, tokens (ch_name b)))"
    by (auto simp: fun_eq_iff change_before_def name_less_tokens)
  show "comparison change_before" unfolding eq by (rule comparison_key [of "\<lambda>x. (ch_online x, tokens (ch_name x))"])
qed

interpretation listed: comparison miner_before
proof -
  have eq: "miner_before = (\<lambda>a b. (mr_online a, tokens (mr_name a)) < (mr_online b, tokens (mr_name b)))"
    by (auto simp: fun_eq_iff miner_before_def name_less_tokens)
  show "comparison miner_before" unfolding eq by (rule comparison_key [of "\<lambda>x. (mr_online x, tokens (mr_name x))"])
qed

definition reported :: "alert option \<Rightarrow> asic_change list" where
  "reported al = (case al of None \<Rightarrow> [] | Some a \<Rightarrow> al_changes a)"

lemma check_miners_parts:
  assumes "check_miners v infos order written now m = (al, evs, m')"
  obtains ws cs d ws' cs' f k where
    "fold see_worker (order (seen_miners now infos)) (mn_workers m, [], mn_dirty m) = (ws, cs, d)"
    "judge_all now (start_grace \<le> time_sub now (mn_started m)) (v_offline_after v) (map fst (seen_miners now infos)) ws = (ws', cs', f, k)"
    "mn_workers m' = ws'" "mset (reported al) = mset (cs @ cs')"
    "al = None \<longleftrightarrow> cs @ cs' = []" "al \<noteq> None \<longrightarrow> al_online (the al) = k \<and> al_total (the al) = length ws' \<and> al_time (the al) = now \<and>
      al_changes (the al) = sort_by change_before (cs @ cs') \<and> evs = report_changes (al_changes (the al))"
proof -
  obtain ws cs d where f: "fold see_worker (order (seen_miners now infos)) (mn_workers m, [], mn_dirty m) = (ws, cs, d)"
    by (metis prod.exhaust)
  obtain ws' cs' g k where j: "judge_all now (start_grace \<le> time_sub now (mn_started m)) (v_offline_after v)
      (map fst (seen_miners now infos)) ws = (ws', cs', g, k)" by (metis prod.exhaust)
  have save: "mn_workers (save_monitor w n x) = mn_workers x" for w n x by (simp add: save_monitor_def Let_def)
  show ?thesis
  proof (rule that [OF f j])
    show "mn_workers m' = ws'" using assms by (auto simp: check_miners_def Let_def f j save split: if_splits)
    show "mset (reported al) = mset (cs @ cs')" "al = None \<longleftrightarrow> cs @ cs' = []"
      "al \<noteq> None \<longrightarrow> al_online (the al) = k \<and> al_total (the al) = length ws' \<and> al_time (the al) = now \<and>
        al_changes (the al) = sort_by change_before (cs @ cs') \<and> evs = report_changes (al_changes (the al))"
      using assms by (auto simp: check_miners_def Let_def f j reported_def split: if_splits)
  qed
qed

definition reports :: "alert option \<Rightarrow> string \<Rightarrow> bool \<Rightarrow> bool" where
  "reports al n on \<longleftrightarrow> (\<exists>c \<in> set (reported al). ch_name c = n \<and> ch_online c = on)"

lemma distinct_filter_keys: "wf_map xs \<Longrightarrow> distinct (map fst (filter P xs))"
  by (simp add: distinct_map_filter)

text \<open>The ASICs that came back, from the first loop.\<close>

lemma seen_back:
  assumes "fold see_worker xs (ws, [], d) = (ws', cs, d')" "distinct (map fst xs)" "wf_map ws"
  shows "offline ws' n = (offline ws n \<and> n \<notin> ch_name ` set cs)"
    and "c \<in> set cs \<Longrightarrow> \<exists>w. map_of ws (ch_name c) = Some w \<and> wk_offline w \<and> wk_last_share w < ch_last_share c"
proof -
  note A = see_fold [OF assms]
  have names: "ch_name ` set cs = fst ` set (filter (comes_back ws) xs)" using A by (metis list.set_map)
  show "offline ws' n = (offline ws n \<and> n \<notin> ch_name ` set cs)"
    using A unfolding names by (auto simp: comes_back_def image_iff)
  assume c: "c \<in> set cs"
  obtain l where l: "(ch_name c, l) \<in> set xs" "ch_last_share c = lv_last l" using A c by blast
  have "ch_name c \<in> ch_name ` set cs" using c by simp
  then obtain x where x: "x \<in> set xs" "comes_back ws x" "fst x = ch_name c" unfolding names by auto
  then have "x = (ch_name c, l)" using l(1) assms(2) by (metis eq_key_imp_eq_value prod.collapse)
  then show "\<exists>w. map_of ws (ch_name c) = Some w \<and> wk_offline w \<and> wk_last_share w < ch_last_share c"
    using x l(2) by (auto simp: comes_back_def newer_share_def offline_def split: option.splits)
qed

text \<open>The ASICs that went offline, from the second.\<close>

lemma judged_entry:
  assumes "judge_all now judge base seen ws = (ws', cs, f, k)" "wf_map ws" "map_of ws' n = Some w"
  obtains u where "map_of ws n = Some u" "judged_as now judge base (n, u) (n, w)"
proof -
  have "(n, w) \<in> set ws'" using assms(3) by (rule map_of_SomeD)
  then obtain x where x: "x \<in> set ws" "judged_as now judge base x (n, w)" using judge_all_shape [OF assms(1)] by blast
  then have "x = (n, snd x)" by (simp add: judged_as_def prod_eq_iff)
  then show thesis using x assms(2) that by (metis map_of_is_SomeI)
qed

lemma judged_offline:
  assumes "judge_all now judge base seen ws = (ws', cs, f, k)" "wf_map ws"
  shows "map_of ws n = Some u \<Longrightarrow> n \<in> ch_name ` set cs \<longleftrightarrow> goes_offline now judge base (n, u)"
    and "c \<in> set cs \<Longrightarrow> judge \<and> base < time_sub now (ch_last_share c)"
proof -
  note B = judge_all_shape [OF assms(1)]
  have names: "ch_name ` set cs = fst ` set (filter (goes_offline now judge base) ws)" using B by (metis list.set_map)
  show "map_of ws n = Some u \<Longrightarrow> n \<in> ch_name ` set cs \<longleftrightarrow> goes_offline now judge base (n, u)"
    unfolding names using assms(2) by (auto simp: image_iff dest: map_of_SomeD) (metis map_of_is_SomeI option.inject)
  assume c: "c \<in> set cs"
  obtain w where w: "(ch_name c, w) \<in> set ws" "ch_last_share c = wk_last_share w" using B c by blast
  have "ch_name c \<in> ch_name ` set cs" using c by simp
  then obtain x where x: "x \<in> set ws" "goes_offline now judge base x" "fst x = ch_name c" unfolding names by auto
  then have "x = (ch_name c, w)" using w(1) assms(2) by (metis eq_key_imp_eq_value prod.collapse)
  then have "judge" "silent now base w" using x by (simp_all add: goes_offline_def)
  then show "judge \<and> base < time_sub now (ch_last_share c)"
    using wait_for_bounds(1) [of base w] w(2) by (simp add: silent_def)
qed


lemma miners_listed:
  "mset (miners v now m) = mset (map (miner_of now (v_offline_after v)) (mn_workers m))"
  "sorted_wrt (\<lambda>a b. (mr_online a, tokens (mr_name a)) \<le> (mr_online b, tokens (mr_name b))) (miners v now m)"
proof -
  show "mset (miners v now m) = mset (map (miner_of now (v_offline_after v)) (mn_workers m))" by (simp add: miners_def)
  have "(\<lambda>a b. \<not> miner_before b a) = (\<lambda>a b. (mr_online a, tokens (mr_name a)) \<le> (mr_online b, tokens (mr_name b)))"
    by (auto simp: fun_eq_iff miner_before_def name_less_tokens not_less)
  then show "sorted_wrt (\<lambda>a b. (mr_online a, tokens (mr_name a)) \<le> (mr_online b, tokens (mr_name b))) (miners v now m)"
    using listed.sorted_sort [of "map (miner_of now (v_offline_after v)) (mn_workers m)"] by (simp add: miners_def)
qed

lemma size_filter_miners:
  "size (filter_mset mr_online (mset (map (miner_of now base) ws))) = length (filter (online_now now base) ws)"
  by (induction ws) (auto simp: miner_of_def online_now_def)

text \<open>The list of the ASICs holds every watched ASIC once, the offline ones first and both parts in the natural order of the
  names, in which a run of digits counts as its value; and the totals of an alert are what that list shows at the
  same moment.\<close>

theorem alert_agrees_with_list:
  assumes "check_miners v infos order written now m = (al, evs, m')"
  shows "mset (map mr_name (miners v now m')) = mset (map fst (mn_workers m')) \<and>
    sorted_wrt (\<lambda>a b. (mr_online a, tokens (mr_name a)) \<le> (mr_online b, tokens (mr_name b))) (miners v now m') \<and>
    (\<forall>a. al = Some a \<longrightarrow> al_online a = length (filter mr_online (miners v now m')) \<and> al_total a = length (miners v now m') \<and>
       al_changes a \<noteq> [] \<and>
       sorted_wrt (\<lambda>c d. (ch_online c, tokens (ch_name c)) \<le> (ch_online d, tokens (ch_name d))) (al_changes a))"
proof -
  obtain ws cs d ws' cs' f k where
    "fold see_worker (order (seen_miners now infos)) (mn_workers m, [], mn_dirty m) = (ws, cs, d)"
    and judge: "judge_all now (start_grace \<le> time_sub now (mn_started m)) (v_offline_after v) (map fst (seen_miners now infos)) ws = (ws', cs', f, k)"
    and res: "mn_workers m' = ws'" "mset (reported al) = mset (cs @ cs')" "al = None \<longleftrightarrow> cs @ cs' = []"
      "al \<noteq> None \<longrightarrow> al_online (the al) = k \<and> al_total (the al) = length ws' \<and> al_time (the al) = now \<and>
        al_changes (the al) = sort_by change_before (cs @ cs') \<and> evs = report_changes (al_changes (the al))"
    by (rule check_miners_parts [OF assms])
  have k: "k = length (filter mr_online (miners v now m'))"
  proof -
    have "length (filter mr_online (miners v now m')) = size (filter_mset mr_online (mset (miners v now m')))" by (simp flip: mset_filter)
    also have "\<dots> = length (filter (online_now now (v_offline_after v)) ws')"
      using size_filter_miners unfolding miners_listed(1) res(1) .
    finally show ?thesis using judge_all_shape [OF judge] by simp
  qed
  have len: "length (miners v now m') = length ws'" using arg_cong [OF miners_listed(1), of size v now m'] res(1) by simp
  have names: "mset (map mr_name (miners v now m')) = mset (map fst (mn_workers m'))"
  proof -
    have "mset (map mr_name (miners v now m')) = image_mset mr_name (mset (miners v now m'))" by simp
    also have "\<dots> = mset (map fst (mn_workers m'))"
      unfolding miners_listed(1) by (simp add: multiset.map_comp comp_def miner_of_def split_beta)
    finally show ?thesis .
  qed
  have "(\<lambda>c d. \<not> change_before d c) = (\<lambda>c d. (ch_online c, tokens (ch_name c)) \<le> (ch_online d, tokens (ch_name d)))"
    by (auto simp: fun_eq_iff change_before_def name_less_tokens not_less)
  then have sorted: "sorted_wrt (\<lambda>c d. (ch_online c, tokens (ch_name c)) \<le> (ch_online d, tokens (ch_name d))) (sort_by change_before (cs @ cs'))"
    using changes.sorted_sort [of "cs @ cs'"] by simp
  have ne: "sort_by change_before (cs @ cs') \<noteq> []" if "al \<noteq> None"
    using that res(3) length_sort_by [of change_before "cs @ cs'"] by (metis length_0_conv)
  show ?thesis using names miners_listed(2) [of v now m'] k len sorted ne res(4) by auto
qed

text \<open>An outage alone does not make the monitor save: the flag is not in the file until a share comes.\<close>

lemma outage_not_saved:
  assumes "check_miners v [] order written now m = (al, evs, m')" "\<not> mn_dirty m" "order [] = []"
    "\<forall>x \<in> set (mn_workers m). \<not> forgotten now x"
  shows "mn_file m' = mn_file m \<and> (\<forall>x \<in> set (mn_workers m). goes_offline now (start_grace \<le> time_sub now (mn_started m)) (v_offline_after v) x \<longrightarrow>
    reports al (fst x) False)"
proof -
  obtain ws cs f k where j: "judge_all now (start_grace \<le> time_sub now (mn_started m)) (v_offline_after v) [] (mn_workers m) = (ws, cs, f, k)"
    by (metis prod.exhaust)
  note B = judge_all_shape [OF j]
  have s: "seen_miners now [] = []" by (simp add: seen_miners_def)
  have f: "\<not> f" using B assms(4) by blast
  have "al = (if cs = [] then None else Some \<lparr>al_time = now, al_changes = sort_by change_before cs, al_online = k, al_total = length ws\<rparr>)"
    "mn_file m' = mn_file m"
    using assms(1-3) f by (auto simp: check_miners_def Let_def s j split: if_splits)
  moreover have "\<exists>c \<in> set cs. ch_name c = fst x \<and> \<not> ch_online c"
    if "x \<in> set (mn_workers m)" "goes_offline now (start_grace \<le> time_sub now (mn_started m)) (v_offline_after v) x" for x
  proof -
    have "fst x \<in> set (map ch_name cs)" using B that by auto
    then obtain c where "c \<in> set cs" "ch_name c = fst x" by auto
    then show ?thesis using B by blast
  qed
  ultimately show ?thesis by (force simp: reports_def reported_def)
qed

subsection \<open>Witnesses\<close>

text \<open>An ASIC silent for an hour and one that is back.\<close>

definition example_monitor :: monitor where
  "example_monitor = (new_monitor False [] 0)\<lparr>mn_workers := [(''s21-10'', no_worker\<lparr>wk_last_share := 0\<rparr>),
     (''s21-2'', no_worker\<lparr>wk_last_share := 0, wk_offline := True\<rparr>)]\<rparr>"

definition example_info :: miner_info where
  "example_info = \<lparr>mi_worker = ''s21-2'', mi_last_submit = Some hour, mi_pool_name = ''BTC'', mi_hashrate = 0, mi_connected = hour, mi_difficulty = 0\<rparr>"

definition example_values :: settings_values where
  "example_values = defaults\<lparr>v_offline_after := minute\<rparr>"


theorem alert_agrees_with_list_witness:
  "\<exists>al evs m'. check_miners example_values [example_info] (\<lambda>xs. xs) True hour example_monitor = (al, evs, m') \<and>
     mset (map mr_name (miners example_values hour m')) = mset (map fst (mn_workers m'))"
proof -
  obtain al evs m' where c: "check_miners example_values [example_info] (\<lambda>xs. xs) True hour example_monitor = (al, evs, m')"
    by (metis prod.exhaust)
  then show ?thesis using alert_agrees_with_list [OF c] by blast
qed

end
