(* ===== verification/Notifier.thy ===== *)
theory Notifier
  imports Monitor
begin

text \<open>
  Package \<open>telegram\<close>, \<open>notifier.go\<close> with the send loop of \<open>telegram.go\<close>: which changes of ASICs go out to the
  chats and when.

  \<^item> \<open>notifier\<close> is the state of a \<open>notifier\<close>, \<open>note_alert\<close>, \<open>take_due\<close>, \<open>mark_sent\<close> and \<open>mark_failed\<close> are its
    operations; the order in which Go ranges over a map is that of the list, and the sort makes it irrelevant.
  \<^item> \<open>send_round\<close> is one round of \<open>sendLoop\<close> with or without an alert; whether a chat got the message is an
    argument.

  The lemmas relate the state to the messages that went out: how often messages and messages about one ASIC
  follow each other, and that what the chats were told last is true of every ASIC that is not held back.
\<close>

definition batch_delay :: duration where "batch_delay = 10 * second"
definition min_gap :: duration where "min_gap = minute"
definition flap_changes :: nat where "flap_changes = 2"
definition flap_window :: duration where "flap_window = hour"
definition flap_hold :: duration where "flap_hold = 15 * minute"

lemmas notifier_consts = batch_delay_def min_gap_def flap_changes_def flap_window_def flap_hold_def

record reported =
  rp_online :: bool
  rp_times :: "time list"

record notifier =
  nt_batch :: duration
  nt_gap :: duration
  nt_pending :: "(string, asic_change) gomap"
  nt_reported :: "(string, reported) gomap"
  nt_online :: nat
  nt_total :: nat
  nt_first_due :: time
  nt_last_sent :: time

definition new_notifier :: "duration \<Rightarrow> duration \<Rightarrow> notifier" where
  "new_notifier batch gap =
     \<lparr>nt_batch = batch, nt_gap = gap, nt_pending = [], nt_reported = [], nt_online = 0, nt_total = 0,
      nt_first_due = zero_time, nt_last_sent = zero_time\<rparr>"

definition note_alert :: "alert \<Rightarrow> time \<Rightarrow> notifier \<Rightarrow> notifier" where
  "note_alert a now n =
     n\<lparr>nt_pending := fold (\<lambda>c. put (ch_name c) c) (al_changes a) (nt_pending n),
       nt_online := al_online a, nt_total := al_total a,
       nt_first_due := (if is_zero (nt_first_due n) then now else nt_first_due n)\<rparr>"

text \<open>\<open>recent\<close>: the times from the first one within the window on.\<close>

definition flap_times :: "time list \<Rightarrow> time \<Rightarrow> time list" where
  "flap_times ts now = dropWhile (\<lambda>t. flap_window \<le> time_sub now t) ts"

definition trim_reported :: "time \<Rightarrow> reported \<Rightarrow> reported" where
  "trim_reported now r = r\<lparr>rp_times := flap_times (rp_times r) now\<rparr>"

lemma trim_reported_simps [simp]:
  "rp_online (trim_reported now r) = rp_online r" "rp_times (trim_reported now r) = flap_times (rp_times r) now"
  by (simp_all add: trim_reported_def)

text \<open>What becomes of a pending change: the chat knows it already, it is held back, or it is due.\<close>

datatype fate = Known | Held | Due

definition change_fate :: "time \<Rightarrow> (string, reported) gomap \<Rightarrow> string \<times> asic_change \<Rightarrow> fate" where
  "change_fate now reps x =
     (case map_of reps (fst x) of None \<Rightarrow> Due
      | Some r \<Rightarrow>
          (let ts = flap_times (rp_times r) now in
           if rp_online r = ch_online (snd x) then Known
           else if flap_changes \<le> length ts \<and> time_sub now (List.last ts) < flap_hold then Held
           else Due))"

text \<open>The reports of the ASICs with a pending change are trimmed, the others dropped once there is nothing to
  remember.\<close>

definition keep_reported :: "time \<Rightarrow> (string, asic_change) gomap \<Rightarrow> string \<times> reported \<Rightarrow> bool" where
  "keep_reported now pend x \<longleftrightarrow>
     has_key pend (fst x) \<or> flap_times (rp_times (snd x)) now \<noteq> [] \<or> \<not> rp_online (snd x)"

definition take_due :: "time \<Rightarrow> notifier \<Rightarrow> asic_change list \<times> notifier" where
  "take_due now n =
     (let due = map snd (filter (\<lambda>x. change_fate now (nt_reported n) x = Due) (nt_pending n));
          pend = filter (\<lambda>x. change_fate now (nt_reported n) x \<noteq> Known) (nt_pending n);
          reps = map (\<lambda>(i, r). (i, if has_key (nt_pending n) i then trim_reported now r else r)) (nt_reported n);
          n1 = n\<lparr>nt_pending := pend, nt_reported := filter (keep_reported now pend) reps\<rparr>
      in if due = [] then ([], n1\<lparr>nt_first_due := zero_time\<rparr>)
         else
           (let n2 = n1\<lparr>nt_first_due := (if is_zero (nt_first_due n1) then now else nt_first_due n1)\<rparr>
            in if time_sub now (nt_first_due n2) < nt_batch n2 \<or> time_sub now (nt_last_sent n2) < nt_gap n2 then ([], n2)
               else (sort_by change_before due, n2)))"

definition report_sent :: "time \<Rightarrow> asic_change \<Rightarrow> (string, reported) gomap \<Rightarrow> (string, reported) gomap" where
  "report_sent now c reps =
     (let r = get_or \<lparr>rp_online = False, rp_times = []\<rparr> reps (ch_name c)
      in put (ch_name c) \<lparr>rp_online = ch_online c, rp_times = flap_times (rp_times r) now @ [now]\<rparr> reps)"

definition mark_sent :: "asic_change list \<Rightarrow> time \<Rightarrow> notifier \<Rightarrow> notifier" where
  "mark_sent due now n =
     n\<lparr>nt_reported := fold (report_sent now) due (nt_reported n),
       nt_pending := fold (\<lambda>c. del (ch_name c)) due (nt_pending n),
       nt_last_sent := now, nt_first_due := zero_time\<rparr>"

definition mark_failed :: "time \<Rightarrow> notifier \<Rightarrow> notifier" where
  "mark_failed now n = n\<lparr>nt_last_sent := now\<rparr>"

text \<open>A round of the send loop: an alert or a tick, then what is due. \<open>delivered\<close> says whether a chat got
  the message; without chats it counts as delivered.\<close>

definition send_round :: "(alert \<times> time) option \<Rightarrow> time \<Rightarrow> bool \<Rightarrow> notifier \<Rightarrow> asic_change list \<times> notifier" where
  "send_round a now delivered n =
     (let n1 = (case a of None \<Rightarrow> n | Some (a, t) \<Rightarrow> note_alert a t n);
          (due, n2) = take_due now n1
      in if due = [] then ([], n2)
         else (due, if delivered then mark_sent due now n2 else mark_failed now n2))"

definition delivered_to :: "string list \<Rightarrow> nat \<Rightarrow> bool" where
  "delivered_to chats failures \<longleftrightarrow> chats = [] \<or> failures < length chats"


subsection \<open>Runs of the send loop\<close>

record round =
  ro_alert :: "(alert \<times> time) option"
  ro_now :: time
  ro_delivered :: bool

text \<open>A message: when it was sent, the changes in it and whether a chat got it.\<close>

type_synonym sent_message = "time \<times> asic_change list \<times> bool"

fun notifier_run :: "round list \<Rightarrow> notifier \<Rightarrow> sent_message list \<times> notifier" where
  "notifier_run [] n = ([], n)"
| "notifier_run (r # rs) n =
     (case send_round (ro_alert r) (ro_now r) (ro_delivered r) n of
        (due, n1) \<Rightarrow> (case notifier_run rs n1 of
          (ms, n2) \<Rightarrow> ((if due = [] then [] else [(ro_now r, due, ro_delivered r)]) @ ms, n2)))"

text \<open>The clock never goes back.\<close>

fun clock_runs :: "time \<Rightarrow> round list \<Rightarrow> bool" where
  "clock_runs now [] = True"
| "clock_runs now (r # rs) \<longleftrightarrow>
     (case ro_alert r of None \<Rightarrow> now | Some (a, t) \<Rightarrow> t) \<le> ro_now r \<and>
     now \<le> (case ro_alert r of None \<Rightarrow> now | Some (a, t) \<Rightarrow> t) \<and> clock_runs (ro_now r) rs"

definition round_changes :: "round \<Rightarrow> asic_change list" where
  "round_changes r = (case ro_alert r of None \<Rightarrow> [] | Some (a, t) \<Rightarrow> al_changes a)"

definition latest :: "asic_change list \<Rightarrow> string \<Rightarrow> asic_change option" where
  "latest cs i = map_of (fold (\<lambda>c. put (ch_name c) c) cs []) i"

text \<open>What the chats were told about an ASIC, in order.\<close>

definition told :: "string \<Rightarrow> sent_message list \<Rightarrow> (bool \<times> time) list" where
  "told i ms = concat (map (\<lambda>(t, due, d). if d then map (\<lambda>c. (ch_online c, t)) (filter (\<lambda>c. ch_name c = i) due) else []) ms)"

text \<open>No repetition but of "online" after an hour of silence, and a third message within the window only
  after the hold.\<close>

definition well_spaced :: "(bool \<times> time) list \<Rightarrow> bool" where
  "well_spaced ts \<longleftrightarrow>
     (\<forall>k. Suc k < length ts \<longrightarrow> fst (ts ! k) \<noteq> fst (ts ! Suc k) \<or>
        fst (ts ! Suc k) \<and> flap_window \<le> snd (ts ! Suc k) - snd (ts ! k)) \<and>
     (\<forall>k. Suc (Suc k) < length ts \<longrightarrow> flap_window \<le> snd (ts ! Suc (Suc k)) - snd (ts ! k) \<or>
        flap_hold \<le> snd (ts ! Suc (Suc k)) - snd (ts ! Suc k))"

definition report_ok :: "time \<Rightarrow> (bool \<times> time) list \<Rightarrow> reported option \<Rightarrow> bool" where
  "report_ok now ts ro \<longleftrightarrow>
     (case ro of
        None \<Rightarrow> ts = [] \<or> fst (List.last ts) \<and> (\<forall>x \<in> set ts. flap_window \<le> now - snd x)
      | Some r \<Rightarrow> ts \<noteq> [] \<and> rp_online r = fst (List.last ts) \<and>
          (\<exists>pre. map snd ts = pre @ rp_times r \<and> (\<forall>t \<in> set pre. flap_window \<le> now - t)))"

definition waiting_ok :: "(bool \<times> time) list \<Rightarrow> asic_change option \<Rightarrow> asic_change option \<Rightarrow> bool" where
  "waiting_ok ts po lo \<longleftrightarrow>
     po = lo \<or> po = None \<and> ts \<noteq> [] \<and> (\<exists>c. lo = Some c \<and> ch_online c = fst (List.last ts))"

definition notifier_inv :: "sent_message list \<Rightarrow> asic_change list \<Rightarrow> time \<Rightarrow> notifier \<Rightarrow> bool" where
  "notifier_inv ms cs now n \<longleftrightarrow>
     wf_map (nt_pending n) \<and> wf_map (nt_reported n) \<and> (\<forall>(i, c) \<in> set (nt_pending n). ch_name c = i) \<and>
     nt_batch n = batch_delay \<and> nt_gap n = min_gap \<and> zero_time < now \<and> nt_first_due n \<le> now \<and>
     nt_last_sent n = (if ms = [] then zero_time else fst (List.last ms)) \<and>
     sorted_wrt (\<lambda>a b. min_gap \<le> fst b - fst a) ms \<and> (\<forall>m \<in> set ms. fst m \<le> now) \<and>
     (\<forall>i. sorted (map snd (told i ms)) \<and> well_spaced (told i ms) \<and>
        report_ok now (told i ms) (map_of (nt_reported n) i) \<and>
        waiting_ok (told i ms) (map_of (nt_pending n) i) (latest cs i))"

lemma told_Nil [simp]: "told i [] = []" by (simp add: told_def)

lemma told_append [simp]: "told i (ms @ ms') = told i ms @ told i ms'" by (simp add: told_def)

lemma told_times: "x \<in> set (told i ms) \<Longrightarrow> \<exists>m \<in> set ms. snd x = fst m"
  by (force simp: told_def split: if_splits)

lemma told_le: "\<forall>m \<in> set ms. fst m \<le> now \<Longrightarrow> x \<in> set (told i ms) \<Longrightarrow> snd x \<le> now"
  using told_times by fastforce

lemma well_spaced_snoc:
  assumes "well_spaced ts"
    and "ts \<noteq> [] \<Longrightarrow> fst (List.last ts) \<noteq> b \<or> b \<and> flap_window \<le> t - snd (List.last ts)"
    and "2 \<le> length ts \<Longrightarrow> flap_window \<le> t - snd (ts ! (length ts - 2)) \<or> flap_hold \<le> t - snd (List.last ts)"
  shows "well_spaced (ts @ [(b, t)])"
proof -
  have l: "ts ! k = List.last ts" if "Suc k = length ts" for k
    using that by (metis diff_Suc_1 last_conv_nth list.size(3) nat.distinct(1))
  have one: "fst (us ! k) \<noteq> fst (us ! Suc k) \<or> fst (us ! Suc k) \<and> flap_window \<le> snd (us ! Suc k) - snd (us ! k)"
    if "us = ts @ [(b, t)]" "Suc k < length us" for us k
  proof (cases "Suc k = length ts")
    case True
    then have "ts \<noteq> []" "us ! k = List.last ts" "us ! Suc k = (b, t)" using that l by (auto simp: nth_append)
    then show ?thesis using assms(2) by simp
  next
    case False
    then show ?thesis using assms(1) that by (simp add: well_spaced_def nth_append)
  qed
  have two: "flap_window \<le> snd (us ! Suc (Suc k)) - snd (us ! k) \<or> flap_hold \<le> snd (us ! Suc (Suc k)) - snd (us ! Suc k)"
    if "us = ts @ [(b, t)]" "Suc (Suc k) < length us" for us k
  proof (cases "Suc (Suc k) = length ts")
    case True
    then have "2 \<le> length ts" "us ! Suc k = List.last ts" "us ! Suc (Suc k) = (b, t)" "k = length ts - 2" "us ! k = ts ! k"
      using that l by (auto simp: nth_append)
    then show ?thesis using assms(3) by simp
  next
    case False
    then show ?thesis using assms(1) that by (simp add: well_spaced_def nth_append)
  qed
  show ?thesis unfolding well_spaced_def using one two by blast
qed

lemma window_bounds: "min_duration < flap_window" "flap_window \<le> max_duration" "min_duration < flap_hold" "flap_hold \<le> max_duration"
    "min_duration < min_gap" "min_gap \<le> max_duration" "min_duration < batch_delay" "batch_delay \<le> max_duration"
  by (simp_all add: notifier_consts min_duration_def max_duration_def)

lemma flap_times_eq: "flap_times ts now = dropWhile (\<lambda>t. flap_window \<le> now - t) ts"
  using window_bounds by (simp add: flap_times_def not_less [symmetric] time_sub_less_iff)

lemma dropWhile_suffix: "\<exists>pre. xs = pre @ dropWhile P xs \<and> (\<forall>x \<in> set pre. P x)"
  by (rule exI [of _ "takeWhile P xs"]) (auto dest: set_takeWhileD)

lemma report_ok_later: "report_ok now ts ro \<Longrightarrow> now \<le> t \<Longrightarrow> report_ok t ts ro"
  by (fastforce simp: report_ok_def split: option.splits)

lemma report_ok_trim:
  assumes "report_ok now ts (Some r)"
  shows "report_ok now ts (Some (trim_reported now r))"
proof -
  obtain pre where p: "map snd ts = pre @ rp_times r" "\<forall>t \<in> set pre. flap_window \<le> now - t"
    using assms by (auto simp: report_ok_def)
  obtain q where q: "rp_times r = q @ flap_times (rp_times r) now" "\<forall>t \<in> set q. flap_window \<le> now - t"
    using dropWhile_suffix [of "rp_times r"] unfolding flap_times_eq by blast
  have "map snd ts = (pre @ q) @ flap_times (rp_times r) now" using p q by simp
  moreover have "\<forall>t \<in> set (pre @ q). flap_window \<le> now - t" using p q by auto
  ultimately show ?thesis using assms by (auto simp: report_ok_def)
qed

lemma report_ok_forget:
  assumes "report_ok now ts (Some r)" "flap_times (rp_times r) now = []" "rp_online r"
  shows "report_ok now ts None"
proof -
  from report_ok_trim [OF assms(1)] assms(2) have "\<forall>t \<in> set (map snd ts). flap_window \<le> now - t"
    by (auto simp: report_ok_def)
  then show ?thesis using assms by (simp add: report_ok_def)
qed

text \<open>A change that is due keeps the spacing, and is what the report says afterwards.\<close>

lemma due_spaced:
  assumes w: "well_spaced ts" and r: "report_ok now ts (map_of reps i)" and due: "change_fate now reps (i, c) = Due"
  shows "well_spaced (ts @ [(ch_online c, now)])"
proof (cases "map_of reps i")
  case None
  show ?thesis
  proof (rule well_spaced_snoc [OF w])
    assume n: "ts \<noteq> []"
    then show "fst (List.last ts) \<noteq> ch_online c \<or> ch_online c \<and> flap_window \<le> now - snd (List.last ts)"
      using r None by (auto simp: report_ok_def)
  next
    assume "2 \<le> length ts"
    then show "flap_window \<le> now - snd (ts ! (length ts - 2)) \<or> flap_hold \<le> now - snd (List.last ts)"
      using r None by (auto simp: report_ok_def)
  qed
next
  case (Some r')
  have o: "rp_online r' \<noteq> ch_online c" and f: "length (flap_times (rp_times r') now) < 2 \<or> flap_hold \<le> now - List.last (flap_times (rp_times r') now)"
    using due Some window_bounds by (auto simp: change_fate_def Let_def flap_changes_def time_sub_less_iff not_le split: if_splits)
  obtain pre where ne: "ts \<noteq> []" and l: "rp_online r' = fst (List.last ts)"
      and p: "map snd ts = pre @ flap_times (rp_times r') now" "\<forall>t \<in> set pre. flap_window \<le> now - t"
    using report_ok_trim [of now ts r'] r Some by (auto simp: report_ok_def)
  let ?F = "flap_times (rp_times r') now"
  have len: "length ts = length pre + length ?F" using p(1) by (metis length_append length_map)
  show ?thesis
  proof (rule well_spaced_snoc [OF w])
    show "fst (List.last ts) \<noteq> ch_online c \<or> ch_online c \<and> flap_window \<le> now - snd (List.last ts)" using o l by simp
  next
    assume two: "2 \<le> length ts"
    show "flap_window \<le> now - snd (ts ! (length ts - 2)) \<or> flap_hold \<le> now - snd (List.last ts)"
    proof (cases "length ?F < 2")
      case True
      then have "length ts - 2 < length pre" using two len by linarith
      then have "map snd ts ! (length ts - 2) \<in> set pre" using p(1) by (simp add: nth_append)
      then show ?thesis using p(2) two by (metis diff_less length_greater_0_conv ne nth_map zero_less_numeral)
    next
      case False
      then have "List.last (map snd ts) = List.last ?F" using p(1) by (metis last_appendR list.size(3) zero_less_numeral)
      then show ?thesis using f False ne by (simp add: last_map)
    qed
  qed
qed

lemma report_ok_sent:
  assumes "report_ok now ts (map_of reps i)" "\<forall>x \<in> set ts. snd x \<le> now"
  shows "report_ok now (ts @ [(b, now)])
    (Some \<lparr>rp_online = b, rp_times = flap_times (rp_times (get_or \<lparr>rp_online = False, rp_times = []\<rparr> reps i)) now @ [now]\<rparr>)"
proof (cases "map_of reps i")
  case None
  then show ?thesis using assms by (fastforce simp: report_ok_def get_or_def flap_times_def)
next
  case (Some r)
  then have "report_ok now ts (Some (trim_reported now r))" using assms report_ok_trim by metis
  then show ?thesis using Some by (auto simp: report_ok_def get_or_def)
qed

subsection \<open>The invariant\<close>

lemma latest_Nil [simp]: "latest [] i = None" by (simp add: latest_def)

lemma fold_put_of: "map_of (fold (\<lambda>c. put (ch_name c) c) cs m) i = (case latest cs i of None \<Rightarrow> map_of m i | Some c \<Rightarrow> Some c)"
  unfolding latest_def by (induction cs rule: rev_induct) auto

lemma latest_append: "latest (cs @ ds) i = (case latest ds i of None \<Rightarrow> latest cs i | Some c \<Rightarrow> Some c)"
  using fold_put_of [of ds "fold (\<lambda>c. put (ch_name c) c) cs []"] unfolding latest_def by simp

lemma fold_put_keys:
  "wf_map m \<Longrightarrow> \<forall>(i, c) \<in> set m. ch_name c = i \<Longrightarrow>
   wf_map (fold (\<lambda>c. put (ch_name c) c) cs m) \<and> (\<forall>(i, c) \<in> set (fold (\<lambda>c. put (ch_name c) c) cs m). ch_name c = i)"
proof (induction cs arbitrary: m)
  case (Cons c cs)
  have "\<forall>(i, c) \<in> set (put (ch_name c) c m). ch_name c = i"
    using Cons.prems(2) set_put_subset [of "ch_name c" c m] by auto
  then show ?case using Cons.IH [of "put (ch_name c) c m"] Cons.prems(1) by simp
qed simp

lemma notifier_inv_later: "notifier_inv ms cs now n \<Longrightarrow> now \<le> t \<Longrightarrow> notifier_inv ms cs t n"
  by (fastforce simp: notifier_inv_def intro: report_ok_later)

lemma note_alert_inv:
  assumes "notifier_inv ms cs now n" "now \<le> t"
  shows "notifier_inv ms (cs @ al_changes a) t (note_alert a t n)"
proof -
  have i: "notifier_inv ms cs t n" using assms by (rule notifier_inv_later)
  have "waiting_ok ts po lo \<Longrightarrow>
      waiting_ok ts (case x of None \<Rightarrow> po | Some c \<Rightarrow> Some c) (case x of None \<Rightarrow> lo | Some c \<Rightarrow> Some c)" for ts po lo x
    by (cases x) (simp_all add: waiting_ok_def)
  then show ?thesis
    using i fold_put_keys [of "nt_pending n" "al_changes a"]
    by (simp add: notifier_inv_def note_alert_def fold_put_of latest_append)
qed

lemma flap_times_twice [simp]: "flap_times (flap_times ts now) now = flap_times ts now"
  by (simp add: flap_times_def)

lemma take_reported:
  assumes "wf_map (nt_reported n)" "take_due now n = (due, n2)"
  shows "map_of (nt_reported n2) i =
    (case map_of (nt_reported n) i of None \<Rightarrow> None
     | Some r \<Rightarrow> (let r' = (if has_key (nt_pending n) i then trim_reported now r else r)
                 in if keep_reported now (nt_pending n2) (i, r') then Some r' else None))"
proof -
  let ?g = "\<lambda>i r. if has_key (nt_pending n) i then trim_reported now r else r"
  have m: "map_of (map (\<lambda>(i, r). (i, ?g i r)) reps) i = map_option (?g i) (map_of reps i)" for reps
    by (induction reps) auto
  have "map fst (map (\<lambda>(i, r). (i, ?g i r)) (nt_reported n)) = map fst (nt_reported n)"
    by (induction "nt_reported n" arbitrary: n) auto
  then have w: "wf_map (map (\<lambda>(i, r). (i, ?g i r)) (nt_reported n))" using assms(1) by metis
  have "nt_reported n2 = filter (keep_reported now (nt_pending n2)) (map (\<lambda>(i, r). (i, ?g i r)) (nt_reported n))"
    using assms(2) by (auto simp: take_due_def Let_def split: if_splits)
  then show ?thesis using m by (simp add: map_of_filter_key [OF w] Let_def split: option.splits)
qed

lemma take_pending:
  "take_due now n = (due, n2) \<Longrightarrow> nt_pending n2 = filter (\<lambda>x. change_fate now (nt_reported n) x \<noteq> Known) (nt_pending n)"
  by (auto simp: take_due_def Let_def split: if_splits)

lemma take_others:
  "take_due now n = (due, n2) \<Longrightarrow> nt_batch n2 = nt_batch n \<and> nt_gap n2 = nt_gap n \<and> nt_last_sent n2 = nt_last_sent n \<and>
     (wf_map (nt_reported n) \<longrightarrow> wf_map (nt_reported n2))"
  by (auto simp: take_due_def Let_def comp_def case_prod_unfold split: if_splits intro!: wf_map_filter)

lemma take_due_set:
  "take_due now n = (due, n2) \<Longrightarrow> due \<noteq> [] \<Longrightarrow>
     mset due = mset (map snd (filter (\<lambda>x. change_fate now (nt_reported n) x = Due) (nt_pending n))) \<and>
     nt_gap n \<le> time_sub now (nt_last_sent n)"
  by (auto simp: take_due_def Let_def split: if_splits)

lemma take_inv:
  assumes t: "take_due now n = (due, n2)" and i: "notifier_inv ms cs now n"
  shows "notifier_inv ms cs now n2"
proof -
  have w: "wf_map (nt_pending n)" "wf_map (nt_reported n)" using i by (simp_all add: notifier_inv_def)
  have p: "map_of (nt_pending n2) j =
      (case map_of (nt_pending n) j of None \<Rightarrow> None | Some c \<Rightarrow> if change_fate now (nt_reported n) (j, c) \<noteq> Known then Some c else None)" for j
    using w by (simp add: take_pending [OF t] map_of_filter_key)
  have "report_ok now ts (map_of (nt_reported n) j) \<Longrightarrow> report_ok now ts (map_of (nt_reported n2) j)" for ts j
    by (auto simp: take_reported [OF w(2) t] Let_def keep_reported_def report_ok_trim report_ok_forget
        split: option.split)
  moreover have "waiting_ok ts (map_of (nt_pending n) j) lo \<Longrightarrow> report_ok now ts (map_of (nt_reported n) j) \<Longrightarrow>
      waiting_ok ts (map_of (nt_pending n2) j) lo" for ts lo j
    by (auto simp: p waiting_ok_def change_fate_def Let_def report_ok_def split: option.splits if_splits)
  ultimately have "report_ok now (told j ms) (map_of (nt_reported n2) j) \<and> waiting_ok (told j ms) (map_of (nt_pending n2) j) (latest cs j)" for j
    using i by (simp add: notifier_inv_def)
  moreover have "wf_map (nt_pending n2) \<and> (\<forall>(i, c) \<in> set (nt_pending n2). ch_name c = i)"
    using i by (auto simp: take_pending [OF t] notifier_inv_def)
  moreover have "nt_first_due n2 \<le> now"
    using t i by (auto simp: take_due_def Let_def notifier_inv_def split: if_splits)
  ultimately show ?thesis
    using i take_others [OF t] by (simp add: notifier_inv_def)
qed

lemma distinct_other: "distinct (map f (x # xs)) \<Longrightarrow> y \<in> set xs \<Longrightarrow> f y \<noteq> f x"
  by (simp add: image_iff) metis

lemma fold_report_sent:
  "distinct (map ch_name due) \<Longrightarrow> map_of (fold (report_sent now) due reps) i =
     (case List.find (\<lambda>c. ch_name c = i) due of None \<Rightarrow> map_of reps i
      | Some c \<Rightarrow> Some \<lparr>rp_online = ch_online c,
          rp_times = flap_times (rp_times (get_or \<lparr>rp_online = False, rp_times = []\<rparr> reps i)) now @ [now]\<rparr>)"
proof (induction due arbitrary: reps)
  case (Cons c due)
  have "ch_name c = i \<Longrightarrow> List.find (\<lambda>c. ch_name c = i) due = None"
    using distinct_other [OF Cons.prems] by (auto simp: find_None_iff')
  then show ?case using Cons by (auto simp: report_sent_def Let_def get_or_def split: option.split)
qed simp

lemma fold_del_of: "map_of (fold (\<lambda>c. del (ch_name c)) due m) i = (if i \<in> ch_name ` set due then None else map_of m i)"
  by (induction due arbitrary: m) auto

lemma fold_del_keys: "wf_map m \<Longrightarrow> wf_map (fold (\<lambda>c. del (ch_name c)) due m) \<and> set (fold (\<lambda>c. del (ch_name c)) due m) \<subseteq> set m"
proof (induction due arbitrary: m)
  case (Cons c due)
  then show ?case using Cons.IH [of "del (ch_name c) m"] by (simp add: set_del) blast
qed simp

lemma filter_found: "distinct (map f xs) \<Longrightarrow> filter (\<lambda>x. f x = i) xs = (case List.find (\<lambda>x. f x = i) xs of None \<Rightarrow> [] | Some x \<Rightarrow> [x])"
proof (induction xs)
  case (Cons x xs)
  have "f x = i \<Longrightarrow> filter (\<lambda>x. f x = i) xs = []"
    using distinct_other [OF Cons.prems] by (auto simp: filter_empty_conv)
  then show ?case using Cons by simp
qed simp

lemma told_message:
  "distinct (map ch_name due) \<Longrightarrow> told i [(t, due, d)] =
     (if d then (case List.find (\<lambda>c. ch_name c = i) due of None \<Rightarrow> [] | Some c \<Rightarrow> [(ch_online c, t)]) else [])"
  by (simp add: told_def filter_found split: option.split)

lemma send_round_inv:
  assumes s: "send_round a now d n = (due, n')" and i: "notifier_inv ms cs last_at n"
    and c: "last_at \<le> (case a of None \<Rightarrow> last_at | Some (al, t) \<Rightarrow> t)" "(case a of None \<Rightarrow> last_at | Some (al, t) \<Rightarrow> t) \<le> now"
  shows "notifier_inv (ms @ (if due = [] then [] else [(now, due, d)]))
    (cs @ (case a of None \<Rightarrow> [] | Some (al, t) \<Rightarrow> al_changes al)) now n'"
proof -
  let ?cs = "cs @ (case a of None \<Rightarrow> [] | Some (al, t) \<Rightarrow> al_changes al)"
  define n1 where "n1 = (case a of None \<Rightarrow> n | Some (al, t) \<Rightarrow> note_alert al t n)"
  have i1: "notifier_inv ms ?cs now n1"
    using i c note_alert_inv notifier_inv_later by (fastforce simp: n1_def split: option.splits prod.splits)
  obtain due' n2 where t: "take_due now n1 = (due', n2)" by fastforce
  have i2: "notifier_inv ms ?cs now n2" by (rule take_inv [OF t i1])
  have d: "due' = due" and n': "n' = (if due = [] then n2 else if d then mark_sent due now n2 else mark_failed now n2)"
    using s t by (auto simp: send_round_def n1_def Let_def split: if_splits)
  show ?thesis
  proof (cases "due = []")
    case True
    then show ?thesis using i2 n' by simp
  next
    case False
    note ds = take_due_set [OF t [unfolded d] False]
    have gap: "min_gap \<le> now - fst (List.last ms)" if "ms \<noteq> []"
    proof -
      have "min_gap \<le> time_sub now (fst (List.last ms))" using ds i1 that by (simp add: notifier_inv_def)
      then show ?thesis using window_bounds by (simp add: time_sub_less_iff not_less [symmetric])
    qed
    have srt: "sorted_wrt (\<lambda>a b. min_gap \<le> fst b - fst a) (ms @ [(now, due, d)])"
    proof -
      have "\<forall>m \<in> set ms. fst m \<le> fst (List.last ms)" if ne: "ms \<noteq> []"
      proof -
        obtain us u where "ms = us @ [u]" using ne by (cases ms rule: rev_cases) auto
        then show ?thesis using i1 by (fastforce simp: notifier_inv_def sorted_wrt_append min_gap_def)
      qed
      then have "\<forall>m \<in> set ms. min_gap \<le> now - fst m" using gap by (cases "ms = []") fastforce+
      then show ?thesis using i1 by (simp add: notifier_inv_def sorted_wrt_append)
    qed
    show ?thesis
    proof (cases d)
      case dd: False
      have tl: "told j [(now, due, False)] = []" for j by (simp add: told_def)
      show ?thesis
        using i2 n' False srt dd by (simp add: notifier_inv_def tl mark_failed_def)
    next
      case dd: True
      let ?P = "filter (\<lambda>x. change_fate now (nt_reported n1) x = Due) (nt_pending n1)"
      have keys: "\<forall>(i, c) \<in> set (nt_pending n1). ch_name c = i" "wf_map (nt_pending n1)" using i1 by (simp_all add: notifier_inv_def)
      have "map ch_name (map snd ?P) = map fst ?P" using keys(1) by auto
      then have "distinct (map ch_name (map snd ?P))" using wf_map_filter [OF keys(2)] by metis
      then have dist: "distinct (map ch_name due)" using ds by (metis mset_eq_imp_distinct_iff mset_map)
      have fate: "change_fate now (nt_reported n1) (ch_name c, c) = Due" "map_of (nt_pending n1) (ch_name c) = Some c" if "c \<in> set due" for c
      proof -
        have "c \<in> set (map snd ?P)" using that ds mset_eq_setD by metis
        then obtain j where "(j, c) \<in> set (nt_pending n1)" "change_fate now (nt_reported n1) (j, c) = Due" by auto
        then show "change_fate now (nt_reported n1) (ch_name c, c) = Due" "map_of (nt_pending n1) (ch_name c) = Some c"
          using keys by (fastforce simp: map_of_eq_Some_iff)+
      qed
      have tl: "told j [(now, due, d)] =
          (case List.find (\<lambda>c. ch_name c = j) due of None \<Rightarrow> [] | Some c \<Rightarrow> [(ch_online c, now)])" for j
        using dd by (simp add: told_message [OF dist])
      have each: "sorted (map snd (told j (ms @ [(now, due, d)]))) \<and> well_spaced (told j (ms @ [(now, due, d)])) \<and>
          report_ok now (told j (ms @ [(now, due, d)])) (map_of (nt_reported (mark_sent due now n2)) j) \<and>
          waiting_ok (told j (ms @ [(now, due, d)])) (map_of (nt_pending (mark_sent due now n2)) j) (latest ?cs j)" for j
      proof -
        have h1: "well_spaced (told j ms)" "sorted (map snd (told j ms))" "report_ok now (told j ms) (map_of (nt_reported n1) j)"
            "waiting_ok (told j ms) (map_of (nt_pending n1) j) (latest ?cs j)"
          and h2: "report_ok now (told j ms) (map_of (nt_reported n2) j)" "waiting_ok (told j ms) (map_of (nt_pending n2) j) (latest ?cs j)"
          using i1 i2 by (simp_all add: notifier_inv_def)
        have "\<forall>m \<in> set ms. fst m \<le> now" using i1 by (simp add: notifier_inv_def)
        then have le: "\<forall>x \<in> set (told j ms). snd x \<le> now" using told_le by blast
        show ?thesis
        proof (cases "List.find (\<lambda>c. ch_name c = j) due")
          case None
          then have "j \<notin> ch_name ` set due" by (auto simp: find_None_iff)
          then show ?thesis using h1 h2 None
            by (simp add: tl mark_sent_def fold_report_sent [OF dist] fold_del_of)
        next
          case (Some c)
          then have cj: "c \<in> set due" "ch_name c = j" by (auto simp: find_Some_iff)
          have lo: "latest ?cs j = Some c" using h1(4) fate(2) [OF cj(1)] cj(2) by (auto simp: waiting_ok_def)
          have tj: "told j (ms @ [(now, due, d)]) = told j ms @ [(ch_online c, now)]" by (simp add: tl Some)
          have a1: "sorted (map snd (told j (ms @ [(now, due, d)])))"
            unfolding tj using h1(2) le by (fastforce simp: sorted_append)
          have a2: "well_spaced (told j (ms @ [(now, due, d)]))"
            unfolding tj using due_spaced [OF h1(1,3)] fate(1) [OF cj(1)] cj(2) by metis
          have a3: "report_ok now (told j (ms @ [(now, due, d)])) (map_of (nt_reported (mark_sent due now n2)) j)"
            unfolding tj using report_ok_sent [OF h2(1) le] by (simp add: mark_sent_def fold_report_sent [OF dist] Some)
          have a4: "waiting_ok (told j (ms @ [(now, due, d)])) (map_of (nt_pending (mark_sent due now n2)) j) (latest ?cs j)"
            unfolding tj using cj by (auto simp: mark_sent_def fold_del_of lo waiting_ok_def)
          show ?thesis using a1 a2 a3 a4 by blast
        qed
      qed
      have rest: "wf_map (nt_pending (mark_sent due now n2))" "\<forall>(i, c) \<in> set (nt_pending (mark_sent due now n2)). ch_name c = i"
        using i2 fold_del_keys [of "nt_pending n2" due] by (fastforce simp: notifier_inv_def mark_sent_def)+
      have wr: "wf_map reps \<Longrightarrow> wf_map (fold (report_sent now) xs reps)" for xs reps
        by (induction xs arbitrary: reps) (simp_all add: report_sent_def Let_def)
      have m: "n' = mark_sent due now n2" using n' False dd by simp
      show ?thesis
        using each rest wr [of "nt_reported n2" due] i2 srt False unfolding m
        by (simp add: notifier_inv_def mark_sent_def)
    qed
  qed
qed

subsection \<open>What the chats get\<close>

lemma notifier_inv_new: "zero_time < t \<Longrightarrow> notifier_inv [] [] t (new_notifier batch_delay min_gap)"
  by (simp add: notifier_inv_def new_notifier_def report_ok_def waiting_ok_def well_spaced_def)

lemma notifier_run_inv:
  "notifier_run rs n = (ms', n') \<Longrightarrow> notifier_inv ms cs t n \<Longrightarrow> clock_runs t rs \<Longrightarrow>
   notifier_inv (ms @ ms') (cs @ concat (map round_changes rs)) (fold (\<lambda>r _. ro_now r) rs t) n'"
proof (induction rs arbitrary: n ms cs t ms')
  case (Cons r rs)
  obtain due n1 where s: "send_round (ro_alert r) (ro_now r) (ro_delivered r) n = (due, n1)" by fastforce
  obtain ms1 where r: "notifier_run rs n1 = (ms1, n')" and ms': "ms' = (if due = [] then [] else [(ro_now r, due, ro_delivered r)]) @ ms1"
    using Cons.prems(1) s by (auto split: prod.splits)
  have c: "t \<le> (case ro_alert r of None \<Rightarrow> t | Some (al, u) \<Rightarrow> u)" "(case ro_alert r of None \<Rightarrow> t | Some (al, u) \<Rightarrow> u) \<le> ro_now r"
      "clock_runs (ro_now r) rs" using Cons.prems(3) by simp_all
  from Cons.IH [OF r send_round_inv [OF s Cons.prems(2) c(1,2)] c(3)] show ?case
    by (simp add: ms' round_changes_def)
qed simp

text \<open>What was not told waits.\<close>

lemma nothing_lost:
  assumes "notifier_inv ms cs t n" "latest cs i = Some c"
  shows "map_of (nt_pending n) i = Some c \<or> told i ms \<noteq> [] \<and> fst (List.last (told i ms)) = ch_online c"
proof -
  have "waiting_ok (told i ms) (map_of (nt_pending n) i) (latest cs i)" using assms(1) by (simp add: notifier_inv_def)
  then show ?thesis using assms(2) by (auto simp: waiting_ok_def)
qed

text \<open>C13: however alerts come, messages go out at least a minute apart, and about one ASIC every message says
  the opposite of the one before, or that it is online after an hour of silence, and a third one within an
  hour comes at least fifteen minutes after the second.\<close>

theorem alerts_do_not_flood:
  assumes "zero_time < t" "clock_runs t rs" "notifier_run rs (new_notifier batch_delay min_gap) = (ms, n)"
  shows "sorted_wrt (\<lambda>a b. min_gap \<le> fst b - fst a) ms \<and> (\<forall>i. well_spaced (told i ms))"
  using notifier_run_inv [OF assms(3) notifier_inv_new [OF assms(1)] assms(2)] by (simp add: notifier_inv_def)

definition example_change :: "string \<Rightarrow> bool \<Rightarrow> asic_change" where
  "example_change i on = \<lparr>ch_name = i, ch_online = on, ch_last_share = 0, ch_away = 0, ch_pool = ''main''\<rparr>"

definition example_rounds :: "round list" where
  "example_rounds =
     [\<lparr>ro_alert = Some (\<lparr>al_time = 0, al_changes = [example_change ''a'' False], al_online = 1, al_total = 2\<rparr>, 0), ro_now = 0, ro_delivered = True\<rparr>,
      \<lparr>ro_alert = None, ro_now = 10 * second, ro_delivered = True\<rparr>,
      \<lparr>ro_alert = Some (\<lparr>al_time = 0, al_changes = [example_change ''a'' True], al_online = 2, al_total = 2\<rparr>, 20 * second), ro_now = 20 * second, ro_delivered = True\<rparr>,
      \<lparr>ro_alert = None, ro_now = 69 * second, ro_delivered = True\<rparr>,
      \<lparr>ro_alert = None, ro_now = 70 * second, ro_delivered = True\<rparr>]"

lemma example_rounds_run:
  "fst (notifier_run example_rounds (new_notifier batch_delay min_gap)) =
     [(10 * second, [example_change ''a'' False], True), (70 * second, [example_change ''a'' True], True)]"
  by code_simp

lemma example_clock: "clock_runs (- 1) example_rounds" "zero_time < - 1"
  by code_simp+

theorem alerts_do_not_flood_witness:
  "\<forall>i. well_spaced (told i [(10 * second, [example_change ''a'' False], True), (70 * second, [example_change ''a'' True], True)])"
  using alerts_do_not_flood [OF example_clock(2,1) surjective_pairing] by (simp add: example_rounds_run)

subsection \<open>A change that waits is told\<close>

lemma flap_times_mono:
  assumes "t \<le> now"
  shows "\<exists>q. flap_times ts t = q @ flap_times ts now"
proof -
  have "dropWhile (\<lambda>x. flap_window \<le> now - x) (dropWhile (\<lambda>x. flap_window \<le> t - x) ts) = dropWhile (\<lambda>x. flap_window \<le> now - x) ts"
    using assms by (induction ts) auto
  then show ?thesis unfolding flap_times_eq by (metis takeWhile_dropWhile_id)
qed

lemma due_stays:
  assumes "change_fate t reps x = Due" "t \<le> now"
  shows "change_fate now reps x = Due"
proof (cases "map_of reps (fst x)")
  case (Some r)
  obtain q where q: "flap_times (rp_times r) t = q @ flap_times (rp_times r) now" using flap_times_mono [OF assms(2)] by blast
  have m: "time_sub t u \<le> time_sub now u" for u using assms(2) by (rule time_sub_mono)
  have o: "rp_online r \<noteq> ch_online (snd x)"
    and f: "\<not> (2 \<le> length (flap_times (rp_times r) t) \<and> time_sub t (List.last (flap_times (rp_times r) t)) < flap_hold)"
    using assms(1) Some by (auto simp: change_fate_def Let_def flap_changes_def split: if_splits)
  have "\<not> (2 \<le> length (flap_times (rp_times r) now) \<and> time_sub now (List.last (flap_times (rp_times r) now)) < flap_hold)"
  proof
    assume h: "2 \<le> length (flap_times (rp_times r) now) \<and> time_sub now (List.last (flap_times (rp_times r) now)) < flap_hold"
    then have "List.last (flap_times (rp_times r) t) = List.last (flap_times (rp_times r) now)"
      by (metis q last_appendR list.size(3) not_numeral_le_zero)
    then show False using f h q m [of "List.last (flap_times (rp_times r) now)"] by auto
  qed
  then show ?thesis using Some o by (auto simp: change_fate_def Let_def flap_changes_def)
qed (simp add: change_fate_def)

definition waits :: "string \<Rightarrow> asic_change \<Rightarrow> time \<Rightarrow> notifier \<Rightarrow> bool" where
  "waits i c now n \<longleftrightarrow> map_of (nt_pending n) i = Some c \<and> change_fate now (nt_reported n) (i, c) = Due"

lemma sort_by_Nil [simp]: "sort_by lt xs = [] \<longleftrightarrow> xs = []"
  by (metis length_0_conv length_sort_by)

lemma round_of_waiting:
  assumes s: "send_round a now True n = (due, n')" and i: "notifier_inv ms cs last_at n" and w: "waits i c now n"
    and c: "last_at \<le> (case a of None \<Rightarrow> last_at | Some (al, t) \<Rightarrow> t)" "(case a of None \<Rightarrow> last_at | Some (al, t) \<Rightarrow> t) \<le> now"
    and a: "\<forall>x \<in> set (case a of None \<Rightarrow> [] | Some (al, t) \<Rightarrow> al_changes al). ch_name x \<noteq> i"
  shows "c \<in> set due \<or> due = [] \<and> waits i c now n' \<and> nt_last_sent n' = nt_last_sent n \<and> nt_first_due n' \<noteq> zero_time \<and>
      nt_first_due n' \<le> (if is_zero (nt_first_due n) then now else nt_first_due n) \<and>
      (now - nt_first_due n' < batch_delay \<or> now - nt_last_sent n < min_gap)"
proof -
  define n1 where "n1 = (case a of None \<Rightarrow> n | Some (al, t) \<Rightarrow> note_alert al t n)"
  have i1: "notifier_inv ms (cs @ (case a of None \<Rightarrow> [] | Some (al, t) \<Rightarrow> al_changes al)) now n1"
    using i c note_alert_inv notifier_inv_later by (fastforce simp: n1_def split: option.splits prod.splits)
  have z: "zero_time < last_at" using i by (simp add: notifier_inv_def)
  have "latest xs i = None" if "\<forall>x \<in> set xs. ch_name x \<noteq> i" for xs
    using that by (induction xs rule: rev_induct) (auto simp: latest_def)
  then have w1: "waits i c now n1"
    using w a by (auto simp: waits_def n1_def note_alert_def fold_put_of split: option.splits)
  have f1: "nt_last_sent n1 = nt_last_sent n" "nt_batch n1 = batch_delay" "nt_gap n1 = min_gap"
      "is_zero (nt_first_due n) \<longrightarrow> nt_first_due n1 \<le> now" "\<not> is_zero (nt_first_due n) \<longrightarrow> nt_first_due n1 = nt_first_due n"
    using i1 c z by (auto simp: n1_def note_alert_def notifier_inv_def is_zero_def split: option.splits)
  obtain due' n2 where t: "take_due now n1 = (due', n2)" by fastforce
  have d: "due' = due" and n': "n' = (if due = [] then n2 else mark_sent due now n2)"
    using s t by (auto simp: send_round_def n1_def Let_def split: if_splits)
  let ?P = "filter (\<lambda>x. change_fate now (nt_reported n1) x = Due) (nt_pending n1)"
  have mem: "(i, c) \<in> set ?P" using w1 by (auto simp: waits_def dest: map_of_SomeD)
  show ?thesis
  proof (cases "due = []")
    case False
    have "c \<in> set (map snd ?P)" using mem by force
    then have "c \<in> set due" using take_due_set [OF t [unfolded d] False] mset_eq_setD by metis
    then show ?thesis ..
  next
    case True
    have n2: "n' = n2" using n' True by simp
    have ne: "map snd ?P \<noteq> []" using mem by (metis empty_iff list.set(1) map_is_Nil_conv)
    have mp: "map_of (nt_pending n1) i = Some c" using w1 by (simp add: waits_def)
    have wp: "wf_map (nt_pending n1)" using i1 by (simp add: notifier_inv_def)
    have p: "map_of (nt_pending n2) i = Some c"
      unfolding take_pending [OF t] map_of_filter_key [OF wp] mp using w1 by (simp add: waits_def)
    have "wf_map (nt_reported n1)" using i1 by (simp add: notifier_inv_def)
    from take_reported [OF this t, of i] have "change_fate now (nt_reported n2) (i, c) = Due"
      using w1 p by (auto simp: waits_def change_fate_def has_key_def keep_reported_def Let_def split: option.splits if_splits)
    moreover have "nt_first_due n2 = (if is_zero (nt_first_due n1) then now else nt_first_due n1) \<and>
        nt_last_sent n2 = nt_last_sent n1 \<and> (time_sub now (nt_first_due n2) < batch_delay \<or> time_sub now (nt_last_sent n2) < min_gap)"
      using t ne True d f1(2,3) by (auto simp: take_due_def Let_def split: if_splits)
    moreover have "zero_time < now" using z c by linarith
    ultimately show ?thesis
      using True n2 p f1 window_bounds by (auto simp: waits_def time_sub_less_iff is_zero_def split: if_splits)
  qed
qed

lemma waiting_change_told:
  "notifier_run rs n = (ms', n') \<Longrightarrow> notifier_inv ms cs t n \<Longrightarrow> clock_runs t rs \<Longrightarrow> rs \<noteq> [] \<Longrightarrow>
   waits i c (ro_now (hd rs)) n \<Longrightarrow> \<forall>r \<in> set rs. ro_delivered r \<and> (\<forall>x \<in> set (round_changes r). ch_name x \<noteq> i) \<Longrightarrow>
   nt_last_sent n \<le> t1 \<Longrightarrow> (if is_zero (nt_first_due n) then ro_now (hd rs) else nt_first_due n) \<le> t1 \<Longrightarrow>
   t1 + min_gap \<le> ro_now (List.last rs) \<Longrightarrow> \<exists>m \<in> set ms'. c \<in> set (fst (snd m)) \<and> snd (snd m)"
proof (induction rs arbitrary: n ms cs t ms')
  case (Cons r rs)
  obtain due n1 where s: "send_round (ro_alert r) (ro_now r) True n = (due, n1)" by fastforce
  have dl: "ro_delivered r" using Cons.prems(6) by simp
  obtain ms1 where r: "notifier_run rs n1 = (ms1, n')" and ms': "ms' = (if due = [] then [] else [(ro_now r, due, True)]) @ ms1"
    using Cons.prems(1) s dl by (auto split: prod.splits)
  have c: "t \<le> (case ro_alert r of None \<Rightarrow> t | Some (al, u) \<Rightarrow> u)" "(case ro_alert r of None \<Rightarrow> t | Some (al, u) \<Rightarrow> u) \<le> ro_now r"
      "clock_runs (ro_now r) rs" using Cons.prems(3) by simp_all
  have w: "waits i c (ro_now r) n" using Cons.prems(5) by simp
  have a: "\<forall>x \<in> set (case ro_alert r of None \<Rightarrow> [] | Some (al, t) \<Rightarrow> al_changes al). ch_name x \<noteq> i"
    using Cons.prems(6) by (simp add: round_changes_def)
  from round_of_waiting [OF s Cons.prems(2) w c(1,2) a] show ?case
  proof (elim disjE)
    assume "c \<in> set due"
    then show ?thesis by (auto simp: ms')
  next
    assume q: "due = [] \<and> waits i c (ro_now r) n1 \<and> nt_last_sent n1 = nt_last_sent n \<and> nt_first_due n1 \<noteq> zero_time \<and>
      nt_first_due n1 \<le> (if is_zero (nt_first_due n) then ro_now r else nt_first_due n) \<and>
      (ro_now r - nt_first_due n1 < batch_delay \<or> ro_now r - nt_last_sent n < min_gap)"
    have f: "nt_first_due n1 \<le> t1" using q Cons.prems(8) by (auto split: if_splits)
    have ne: "rs \<noteq> []"
    proof
      assume "rs = []"
      then have "t1 + min_gap \<le> ro_now r" using Cons.prems(9) by simp
      then show False using q f Cons.prems(7) by (auto simp: notifier_consts)
    qed
    have i1: "notifier_inv ms (cs @ round_changes r) (ro_now r) n1"
      using send_round_inv [OF s Cons.prems(2) c(1,2)] q by (simp add: round_changes_def)
    have "ro_now r \<le> ro_now (hd rs)" using c(3) ne by (cases rs) (auto split: option.splits)
    then have w1: "waits i c (ro_now (hd rs)) n1" using q due_stays by (auto simp: waits_def)
    have "\<exists>m \<in> set ms1. c \<in> set (fst (snd m)) \<and> snd (snd m)"
      by (rule Cons.IH [OF r i1 c(3) ne w1]) (use q f ne Cons.prems(6,7,9) in \<open>auto simp: is_zero_def\<close>)
    then show ?thesis by (simp add: ms')
  qed
qed simp



definition example_held :: notifier where
  "example_held = snd (notifier_run (take 3 example_rounds) (new_notifier batch_delay min_gap))"

definition later_rounds :: "round list" where
  "later_rounds = [\<lparr>ro_alert = None, ro_now = 21 * second, ro_delivered = True\<rparr>, \<lparr>ro_alert = None, ro_now = 82 * second, ro_delivered = True\<rparr>]"


end
