(* ===== verification/Telegram.thy ===== *)
theory Telegram
  imports Notifier
begin

text \<open>
  Package \<open>telegram\<close>, \<open>telegram.go\<close>: the bot, its calls of the Bot API and the messages it sends.

  \<^item> \<open>bot\<close> is the state of a \<open>Bot\<close> under its mutex; what the client gets for a request is an argument
    (\<open>http_outcome\<close>), read with the JSON of \<open>State\<close>. \<open>call_with\<close> is \<open>callWith\<close> after the request.
  \<^item> A text of \<open>texts.go\<close> and \<open>control_texts.go\<close> with its values filled in is a function of \<open>texts\<close>, by name where
    nothing depends on it; the tables of the two languages are not modelled, nor is the way \<open>fmt\<close> and \<open>time\<close>
    write fractions and dates (\<open>tx_real\<close>, \<open>tx_time\<close>). Messages are bytes.
  \<^item> \<open>fail_as\<close> is atomic: the code reads the token for the redaction and for the update in two steps.

  The lemmas show that the token never gets into what the bot shows, how many requests a reply makes, how
  often strangers get an answer, and that a message stays below the limit of Telegram.
\<close>

subsection \<open>Strings\<close>

text \<open>\<open>strconv.ParseInt(s, 10, 64)\<close> with an optional sign.\<close>

definition parse_int64 :: "string \<Rightarrow> int option" where
  "parse_int64 s = (case s of [] \<Rightarrow> None | c # t \<Rightarrow> if c = CHR ''+'' then (if has_prefix t ''-'' then None else parse_int t) else parse_int s)"

text \<open>The wrap-around of \<open>int64\<close>.\<close>

definition wrap64 :: "int \<Rightarrow> int" where "wrap64 x = (x + 2 ^ 63) mod 2 ^ 64 - 2 ^ 63"

text \<open>\<open>strings.Fields\<close>.\<close>

fun words_from :: "string \<Rightarrow> string \<Rightarrow> string list" where
  "words_from w [] = (if w = [] then [] else [w])"
| "words_from w (c # s) = (if is_space c then (if w = [] then words_from [] s else w # words_from [] s) else words_from (w @ [c]) s)"

definition string_fields :: "string \<Rightarrow> string list" where "string_fields s = words_from [] s"

text \<open>\<open>strings.Cut\<close> at one character.\<close>

definition cut_at :: "char \<Rightarrow> string \<Rightarrow> string \<times> string \<times> bool" where
  "cut_at d s = (let a = takeWhile (\<lambda>c. c \<noteq> d) s; b = dropWhile (\<lambda>c. c \<noteq> d) s in (a, tl b, b \<noteq> []))"

text \<open>\<open>strings.ReplaceAll\<close> of a text that is not empty, and \<open>html.EscapeString\<close>.\<close>

definition replace_all :: "string \<Rightarrow> string \<Rightarrow> string \<Rightarrow> string" where
  "replace_all s k v = replacer [(k, v)] s"

definition html_escape :: "string \<Rightarrow> string" where
  "html_escape s = concat (map (\<lambda>c.
     if c = CHR ''&'' then ''&amp;'' else if c = CHR ''<'' then ''&lt;'' else if c = CHR ''>'' then ''&gt;''
     else if c = CHR 0x27 then ''&#39;'' else if c = CHR 0x22 then ''&#34;'' else [c]) s)"

subsection \<open>The bot\<close>

definition poll_wait :: duration where "poll_wait = 50 * second"
definition max_text :: nat where "max_text = 4000"
definition retry_min :: duration where "retry_min = 5 * second"
definition retry_max :: duration where "retry_max = 5 * minute"
definition denied_every :: duration where "denied_every = minute"
definition max_retry_after :: duration where "max_retry_after = minute"
definition alert_queue :: nat where "alert_queue = 64"
definition max_denied :: nat where "max_denied = 1000"

text \<open>One current confirmation per chat.\<close>

record confirmation =
  cn_code :: string
  cn_action :: string
  cn_token :: string
  cn_user :: int
  cn_message :: int
  cn_until :: time

datatype failure_kind = Polling | Sending

record bot =
  bt_token :: string
  bt_username :: string
  bt_menu :: string
  bt_poll_err :: string
  bt_send_err :: string
  bt_denied :: "(int, time) gomap"
  bt_pending :: "(int, confirmation) gomap"
  bt_alerts :: "alert list"

definition new_bot :: "string \<Rightarrow> bot" where
  "new_bot token =
     \<lparr>bt_token = token, bt_username = [], bt_menu = [], bt_poll_err = [], bt_send_err = [], bt_denied = [], bt_pending = [], bt_alerts = []\<rparr>"

definition token_char :: "char \<Rightarrow> bool" where
  "token_char c \<longleftrightarrow> is_digit c \<or> 65 \<le> byte c \<and> byte c \<le> 90 \<or> 97 \<le> byte c \<and> byte c \<le> 122 \<or> c = CHR ''_'' \<or> c = CHR ''-''"

definition valid_token :: "string \<Rightarrow> bool" where
  "valid_token s \<longleftrightarrow>
     (case cut_at (CHR '':'') s of (a, b, found) \<Rightarrow>
        found \<and> 1 \<le> length a \<and> length a \<le> 20 \<and> list_all is_digit a \<and> 20 \<le> length b \<and> length b \<le> 100 \<and> list_all token_char b)"

text \<open>\<open>SetToken\<close>; \<open>True\<close> when the loops are woken.\<close>

definition set_token :: "string \<Rightarrow> string \<Rightarrow> bot \<Rightarrow> bool \<times> bot" where
  "set_token token username b =
     (if token = bt_token b then (False, b)
      else (True, b\<lparr>bt_token := token, bt_username := username, bt_menu := [], bt_poll_err := [], bt_send_err := [], bt_pending := []\<rparr>))"

definition chat_ids :: "string \<Rightarrow> int list" where
  "chat_ids s = List.map_filter (\<lambda>f. parse_int64 (trim_space f)) (split_on CHR '','' s)"

text \<open>\<open>Notify\<close>; \<open>False\<close> when the alert is dropped.\<close>

definition notify_bot :: "alert \<Rightarrow> bot \<Rightarrow> bool \<times> bot" where
  "notify_bot a b = (if length (bt_alerts b) < alert_queue then (True, b\<lparr>bt_alerts := bt_alerts b @ [a]\<rparr>) else (False, b))"

record bot_status =
  bs_configured :: bool
  bs_username :: string
  bs_error :: string

definition status_of_bot :: "bot option \<Rightarrow> bot_status" where
  "status_of_bot b =
     (case b of None \<Rightarrow> \<lparr>bs_configured = False, bs_username = [], bs_error = []\<rparr>
      | Some b \<Rightarrow> \<lparr>bs_configured = bt_token b \<noteq> [], bs_username = bt_username b,
                   bs_error = join ''; '' (filter (\<lambda>e. e \<noteq> []) [bt_poll_err b, bt_send_err b])\<rparr>)"

definition redact :: "string \<Rightarrow> bot \<Rightarrow> string" where
  "redact s b = (if bt_token b = [] then s else replace_all s (bt_token b) ''<token>'')"

text \<open>\<open>update\<close>: a late answer to the old bot must not touch the new one.\<close>

definition update_as :: "string \<Rightarrow> (bot \<Rightarrow> bot) \<Rightarrow> bot \<Rightarrow> bot" where
  "update_as token f b = (if bt_token b = token then f b else b)"

definition set_err :: "failure_kind \<Rightarrow> string \<Rightarrow> bot \<Rightarrow> bot" where
  "set_err k e b = (case k of Polling \<Rightarrow> b\<lparr>bt_poll_err := e\<rparr> | Sending \<Rightarrow> b\<lparr>bt_send_err := e\<rparr>)"

text \<open>\<open>failAs\<close> with the text of the event.\<close>

definition fail_as :: "string \<Rightarrow> failure_kind \<Rightarrow> string \<Rightarrow> bot \<Rightarrow> string \<times> bot" where
  "fail_as token k e b = (let msg = redact e b in (''Telegram: '' @ msg, update_as token (set_err k msg) b))"

definition fail_bot :: "failure_kind \<Rightarrow> string \<Rightarrow> bot \<Rightarrow> string \<times> bot" where
  "fail_bot k e b = fail_as (bt_token b) k e b"

definition ok_bot :: "failure_kind \<Rightarrow> bot \<Rightarrow> bot" where "ok_bot k b = set_err k [] b"

subsection \<open>Calls of the Bot API\<close>

datatype bot_error = NoToken | CallFailed string string | Refused string int string duration

definition bot_error_text :: "bot_error \<Rightarrow> string" where
  "bot_error_text e =
     (case e of NoToken \<Rightarrow> ''no Telegram bot token'' | CallFailed m s \<Rightarrow> m @ '': '' @ s
      | Refused m code d _ \<Rightarrow> m @ '': '' @ itoa code @ '' '' @ d)"

definition is_rejected :: "bot_error \<Rightarrow> bool" where
  "is_rejected e = (case e of Refused _ _ _ _ \<Rightarrow> True | _ \<Rightarrow> False)"

text \<open>The client failed, with the reason without the URL; or it got a status, its text and a body of at most
  4 MiB.\<close>

datatype http_outcome = NoAnswer string | Answered int string string

record api_response =
  re_ok :: bool
  re_result :: "json option"
  re_code :: int
  re_description :: string
  re_retry :: int

definition parameters_field :: "string \<Rightarrow> json \<Rightarrow> api_response \<Rightarrow> api_response option" where
  "parameters_field k v r = (if k = ''retry_after'' then into_int (\<lambda>i r. r\<lparr>re_retry := i\<rparr>) v r else Some r)"

definition response_field :: "string \<Rightarrow> json \<Rightarrow> api_response \<Rightarrow> api_response option" where
  "response_field k v r =
     (if k = ''ok'' then into_bool (\<lambda>x r. r\<lparr>re_ok := x\<rparr>) v r
      else if k = ''result'' then Some (r\<lparr>re_result := Some v\<rparr>)
      else if k = ''error_code'' then into_int (\<lambda>i r. r\<lparr>re_code := i\<rparr>) v r
      else if k = ''description'' then into_string (\<lambda>s r. r\<lparr>re_description := s\<rparr>) v r
      else if k = ''parameters'' then decode_struct parameters_field r v
      else Some r)"

text \<open>The first value of the body; what follows it is not read.\<close>

definition decode_response :: "string \<Rightarrow> api_response option" where
  "decode_response body =
     (case pvalue (2 * length body + 2) body of None \<Rightarrow> None
      | Some (j, _) \<Rightarrow> decode_struct response_field
          \<lparr>re_ok = False, re_result = None, re_code = 0, re_description = [], re_retry = 0\<rparr> j)"

definition call_with :: "string \<Rightarrow> http_outcome \<Rightarrow> bot_error + json option" where
  "call_with meth out =
     (case out of NoAnswer e \<Rightarrow> Inl (CallFailed meth e)
      | Answered code status body \<Rightarrow>
          (case decode_response body of None \<Rightarrow> Inl (CallFailed meth (''HTTP '' @ status))
           | Some r \<Rightarrow>
               if re_ok r then Inr (re_result r)
               else Inl (Refused meth (if re_code r = 0 then code else re_code r) (re_description r) (wrap64 (re_retry r * second)))))"

text \<open>\<open>call\<close> with the current token.\<close>

definition call_bot :: "string \<Rightarrow> http_outcome \<Rightarrow> bot \<Rightarrow> bot_error + json option" where
  "call_bot meth out b = (if bt_token b = [] then Inl NoToken else call_with meth out)"

text \<open>The loop of \<open>reply\<close>, with the answer and the end of the wait of each attempt; the number of the calls.\<close>

function reply_loop :: "string \<Rightarrow> bool \<Rightarrow> (nat \<Rightarrow> http_outcome) \<Rightarrow> (nat \<Rightarrow> bool) \<Rightarrow> nat \<Rightarrow> bot \<Rightarrow> bot_error option \<times> nat" where
  "reply_loop meth edit net slept n b =
     (case call_bot meth (net n) b of
        Inr _ \<Rightarrow> (None, n + 1)
      | Inl (Refused m code d retry) \<Rightarrow>
          if edit \<and> code = 400 \<and> has_sub ''message is not modified'' d then (None, n + 1)
          else if retry \<le> 0 \<or> max_retry_after < retry \<or> 2 \<le> n then (Some (Refused m code d retry), n + 1)
          else if \<not> slept n then (Some (CallFailed meth ''context canceled''), n + 1)
          else reply_loop meth edit net slept (n + 1) b
      | Inl e \<Rightarrow> (Some e, n + 1))"
  by pat_completeness auto
termination by (relation "measure (\<lambda>(meth, edit, net, slept, n, b). 2 - n)") auto

definition reply_chat :: "int \<Rightarrow> (nat \<Rightarrow> http_outcome) \<Rightarrow> (nat \<Rightarrow> bool) \<Rightarrow> bot \<Rightarrow> bot_error option" where
  "reply_chat message_id net slept b =
     fst (reply_loop (if message_id = 0 then ''sendMessage'' else ''editMessageText'') (message_id \<noteq> 0) net slept 0 b)"

text \<open>\<open>broadcast\<close>: each chat on its own. The order in which failures come is not determined; here it is that of
  the chats.\<close>

definition chat_error :: "int \<Rightarrow> bot_error \<Rightarrow> string" where
  "chat_error i e = ''chat '' @ itoa i @ '': '' @ bot_error_text e"

definition broadcast :: "(int \<Rightarrow> nat \<Rightarrow> http_outcome) \<Rightarrow> (int \<Rightarrow> nat \<Rightarrow> bool) \<Rightarrow> int list \<Rightarrow> bot \<Rightarrow> string list" where
  "broadcast net slept chats b =
     List.map_filter (\<lambda>i. map_option (chat_error i) (reply_chat 0 (net i) (slept i) b)) chats"

text \<open>\<open>Test\<close>, with the text of the event.\<close>

datatype test_error = TestNoToken | TestNoChats | TestFailed string

definition test_bot ::
  "string \<Rightarrow> (int \<Rightarrow> nat \<Rightarrow> http_outcome) \<Rightarrow> (int \<Rightarrow> nat \<Rightarrow> bool) \<Rightarrow> bot \<Rightarrow> test_error option \<times> string option \<times> bot" where
  "test_bot chats net slept b =
     (if bt_token b = [] then (Some TestNoToken, None, b)
      else if chat_ids chats = [] then (Some TestNoChats, None, b)
      else (case broadcast net slept (chat_ids chats) b of
          [] \<Rightarrow> (None, None, ok_bot Sending b)
        | errs \<Rightarrow> (case fail_bot Sending (join [CHR 0x0A] errs) b of
            (ev, b') \<Rightarrow> (Some (TestFailed (redact (join [CHR 0x0A] errs) b')), Some ev, b'))))"

text \<open>What a round of \<open>sendLoop\<close> does with the changes that are due, on top of the notifier.\<close>

definition send_due ::
  "string \<Rightarrow> (int \<Rightarrow> nat \<Rightarrow> http_outcome) \<Rightarrow> (int \<Rightarrow> nat \<Rightarrow> bool) \<Rightarrow> asic_change list \<Rightarrow> time \<Rightarrow> notifier \<Rightarrow> bot \<Rightarrow> string option \<times> notifier \<times> bot" where
  "send_due chats net slept due now n b =
     (let ids = (if bt_token b = [] then [] else chat_ids chats); errs = broadcast net slept ids b;
          (ev, b') = (if errs \<noteq> [] then (case fail_bot Sending (join [CHR 0x0A] errs) b of (e, b') \<Rightarrow> (Some e, b'))
                      else (None, if ids \<noteq> [] then ok_bot Sending b else b))
      in (ev, if ids = [] \<or> length errs < length ids then mark_sent due now n else mark_failed now n, b'))"

subsection \<open>Polling\<close>

record chat_message =
  cm_id :: int
  cm_chat :: int
  cm_title :: string
  cm_username :: string
  cm_text :: string

record callback =
  cb_id :: string
  cb_from :: int
  cb_message :: "chat_message option"
  cb_data :: string

record bot_update =
  up_id :: int
  up_message :: "chat_message option"
  up_callback :: "callback option"

definition chat_field :: "string \<Rightarrow> json \<Rightarrow> chat_message \<Rightarrow> chat_message option" where
  "chat_field k v m =
     (if k = ''id'' then into_int (\<lambda>i m. m\<lparr>cm_chat := i\<rparr>) v m
      else if k = ''title'' then into_string (\<lambda>s m. m\<lparr>cm_title := s\<rparr>) v m
      else if k = ''username'' then into_string (\<lambda>s m. m\<lparr>cm_username := s\<rparr>) v m else Some m)"

definition message_field :: "string \<Rightarrow> json \<Rightarrow> chat_message \<Rightarrow> chat_message option" where
  "message_field k v m =
     (if k = ''message_id'' then into_int (\<lambda>i m. m\<lparr>cm_id := i\<rparr>) v m
      else if k = ''chat'' then decode_struct chat_field m v
      else if k = ''text'' then into_string (\<lambda>s m. m\<lparr>cm_text := s\<rparr>) v m else Some m)"

definition no_message :: chat_message where
  "no_message = \<lparr>cm_id = 0, cm_chat = 0, cm_title = [], cm_username = [], cm_text = []\<rparr>"

definition into_message :: "json \<Rightarrow> chat_message option \<Rightarrow> chat_message option option" where
  "into_message v old =
     (if v = JNull then Some None
      else map_option Some (decode_struct message_field (case old of None \<Rightarrow> no_message | Some m \<Rightarrow> m) v))"

definition from_field :: "string \<Rightarrow> json \<Rightarrow> callback \<Rightarrow> callback option" where
  "from_field k v c = (if k = ''id'' then into_int (\<lambda>i c. c\<lparr>cb_from := i\<rparr>) v c else Some c)"

definition callback_field :: "string \<Rightarrow> json \<Rightarrow> callback \<Rightarrow> callback option" where
  "callback_field k v c =
     (if k = ''id'' then into_string (\<lambda>s c. c\<lparr>cb_id := s\<rparr>) v c
      else if k = ''from'' then decode_struct from_field c v
      else if k = ''message'' then map_option (\<lambda>m. c\<lparr>cb_message := m\<rparr>) (into_message v (cb_message c))
      else if k = ''data'' then into_string (\<lambda>s c. c\<lparr>cb_data := s\<rparr>) v c else Some c)"

definition no_callback :: callback where "no_callback = \<lparr>cb_id = [], cb_from = 0, cb_message = None, cb_data = []\<rparr>"

definition update_field :: "string \<Rightarrow> json \<Rightarrow> bot_update \<Rightarrow> bot_update option" where
  "update_field k v u =
     (if k = ''update_id'' then into_int (\<lambda>i u. u\<lparr>up_id := i\<rparr>) v u
      else if k = ''message'' then map_option (\<lambda>m. u\<lparr>up_message := m\<rparr>) (into_message v (up_message u))
      else if k = ''callback_query'' then
        (if v = JNull then Some (u\<lparr>up_callback := None\<rparr>)
         else map_option (\<lambda>c. u\<lparr>up_callback := Some c\<rparr>)
           (decode_struct callback_field (case up_callback u of None \<Rightarrow> no_callback | Some c \<Rightarrow> c) v))
      else Some u)"

definition decode_update :: "json \<Rightarrow> bot_update option" where
  "decode_update = decode_struct update_field \<lparr>up_id = 0, up_message = None, up_callback = None\<rparr>"

definition decode_updates :: "json option \<Rightarrow> bot_error + bot_update list" where
  "decode_updates r =
     (case r of None \<Rightarrow> Inl (CallFailed ''json'' ''unexpected end of JSON input'')
      | Some v \<Rightarrow> (case into_list decode_update (\<lambda>l _. l) v [] of None \<Rightarrow> Inl (CallFailed ''json'' ''cannot unmarshal'') | Some us \<Rightarrow> Inr us))"

definition me_field :: "string \<Rightarrow> json \<Rightarrow> string \<Rightarrow> string option" where
  "me_field k v u = (if k = ''username'' then into_string (\<lambda>s _. s) v u else Some u)"

text \<open>\<open>Check\<close>, which is also the first request of a poll.\<close>

definition check_token :: "http_outcome \<Rightarrow> bot_error + string" where
  "check_token out =
     (case call_with ''getMe'' out of Inl e \<Rightarrow> Inl e
      | Inr None \<Rightarrow> Inl (CallFailed ''json'' ''unexpected end of JSON input'')
      | Inr (Some v) \<Rightarrow> (case decode_struct me_field [] v of None \<Rightarrow> Inl (CallFailed ''json'' ''cannot unmarshal'') | Some u \<Rightarrow> Inr u))"

record poll_net =
  pn_me :: http_outcome
  pn_menu :: http_outcome
  pn_menu_cancelled :: bool
  pn_updates :: http_outcome

text \<open>The menu in the language of the settings; a failure is only an event.\<close>

definition poll_menu :: "string \<Rightarrow> poll_net \<Rightarrow> string \<Rightarrow> bot \<Rightarrow> bot_error option \<times> string option \<times> bot" where
  "poll_menu lang net token b =
     (if lang = bt_menu b then (None, None, b)
      else (case call_with ''setMyCommands'' (pn_menu net) of
          Inl e \<Rightarrow>
            if pn_menu_cancelled net then (Some (CallFailed ''setMyCommands'' ''context canceled''), None, b)
            else (None, Some (''Telegram: cannot set the command menu: '' @ redact (bot_error_text e) b), b)
        | Inr _ \<Rightarrow> (None, None, update_as token (\<lambda>b. b\<lparr>bt_menu := lang\<rparr>) b)))"

definition learn_name :: "poll_net \<Rightarrow> string \<Rightarrow> bot \<Rightarrow> bot_error + bot" where
  "learn_name net token b =
     (if bt_username b \<noteq> [] then Inr b
      else (case check_token (pn_me net) of Inl e \<Rightarrow> Inl e
            | Inr u \<Rightarrow> Inr (update_as token (\<lambda>b. b\<lparr>bt_username := u\<rparr>) b)))"

definition poll_bot :: "string \<Rightarrow> poll_net \<Rightarrow> string \<Rightarrow> bot \<Rightarrow> (bot_error + bot_update list) \<times> string option \<times> bot" where
  "poll_bot lang net token b =
     (case learn_name net token b of
        Inl e \<Rightarrow> (Inl e, None, b)
      | Inr b1 \<Rightarrow>
          (case poll_menu lang net token b1 of
             (Some e, ev, b2) \<Rightarrow> (Inl e, ev, b2)
           | (None, ev, b2) \<Rightarrow>
               ((case call_with ''getUpdates'' (pn_updates net) of Inl e \<Rightarrow> Inl e | Inr r \<Rightarrow> decode_updates r), ev, b2)))"

text \<open>The pause after a failed poll, and the one after the next.\<close>

definition poll_pause :: "bool \<Rightarrow> duration \<Rightarrow> duration" where
  "poll_pause failed delay = (if failed then min (delay * 2) retry_max else retry_min)"

definition next_offset :: "int \<Rightarrow> bot_update list \<Rightarrow> int" where
  "next_offset offset us = fold (\<lambda>u _. up_id u + 1) us offset"

subsection \<open>Commands\<close>

definition bot_command :: "string \<Rightarrow> string \<Rightarrow> string" where
  "bot_command text username =
     (case string_fields text of [] \<Rightarrow> []
      | f # _ \<Rightarrow>
          if \<not> has_prefix f ''/'' then []
          else (case cut_at CHR ''@'' (tl f) of (name, to, addressed) \<Rightarrow>
            if addressed \<and> \<not> equal_fold to username then [] else to_lower name))"

definition deny_chat :: "int \<Rightarrow> time \<Rightarrow> bot \<Rightarrow> bool \<times> bot" where
  "deny_chat i now b =
     (if (case map_of (bt_denied b) i of Some t \<Rightarrow> time_sub now t < denied_every | None \<Rightarrow> False) then (False, b)
      else
        (let d = (if max_denied \<le> length (bt_denied b) then filter (\<lambda>(k, t). \<not> denied_every \<le> time_sub now t) (bt_denied b)
                  else bt_denied b)
         in if max_denied \<le> length d then (False, b\<lparr>bt_denied := d\<rparr>) else (True, b\<lparr>bt_denied := put i now d\<rparr>)))"

subsection \<open>Messages\<close>

definition newline :: char where "newline = CHR 0x0A"

definition add_line :: "string \<Rightarrow> string \<Rightarrow> string" where
  "add_line s m = (if m \<noteq> [] then m @ [newline] else m) @ s"

fun add_list :: "(nat \<Rightarrow> string) \<Rightarrow> string list \<Rightarrow> string \<Rightarrow> string" where
  "add_list extra [] m = m"
| "add_list extra (x # xs) m =
     (if max_text < length m + length x + 200 then add_line (extra (length (x # xs))) m else add_list extra xs (add_line x m))"

record texts =
  tx_help :: string
  tx_denied :: "int \<Rightarrow> string"
  tx_test :: string
  tx_offline :: "nat \<Rightarrow> string"
  tx_offline_line :: "string \<Rightarrow> string \<Rightarrow> string \<Rightarrow> string"
  tx_online :: "nat \<Rightarrow> string"
  tx_online_line :: "string \<Rightarrow> string \<Rightarrow> string"
  tx_mining :: "nat \<Rightarrow> nat \<Rightarrow> string"
  tx_no_miners :: string
  tx_miners :: "nat \<Rightarrow> string"
  tx_miner_on :: "string \<Rightarrow> real \<Rightarrow> string"
  tx_miner_off :: "string \<Rightarrow> string \<Rightarrow> string"
  tx_more :: "nat \<Rightarrow> string"
  tx_sec :: string
  tx_min :: string
  tx_hour :: string
  tx_day :: string
  tx_text :: "string \<Rightarrow> string list \<Rightarrow> string"
  tx_ui :: "string \<Rightarrow> string list \<Rightarrow> string"
  tx_real :: "nat \<Rightarrow> real \<Rightarrow> string"
  tx_time :: "time \<Rightarrow> string"

text \<open>\<open>texts.duration\<close>.\<close>

definition show_span :: "texts \<Rightarrow> duration \<Rightarrow> string" where
  "show_span tx d =
     (let d = max d 0; unit = (\<lambda>n u. itoa n @ '' '' @ u) in
      if d < minute then unit (d div second) (tx_sec tx)
      else if d < hour then unit (d div minute) (tx_min tx)
      else if d < 24 * hour then
        (let m = d mod hour div minute in
         if m = 0 then unit (d div hour) (tx_hour tx) else unit (d div hour) (tx_hour tx) @ '' '' @ unit m (tx_min tx))
      else
        (let h = d mod (24 * hour) div hour in
         if h = 0 then unit (d div (24 * hour)) (tx_day tx)
         else unit (d div (24 * hour)) (tx_day tx) @ '' '' @ unit h (tx_hour tx)))"

definition offline_item :: "texts \<Rightarrow> time \<Rightarrow> asic_change \<Rightarrow> string" where
  "offline_item tx now c =
     tx_offline_line tx (html_escape (ch_name c)) (show_span tx (time_sub now (ch_last_share c))) (html_escape (ch_pool c))"

definition online_item :: "texts \<Rightarrow> asic_change \<Rightarrow> string" where
  "online_item tx c = tx_online_line tx (html_escape (ch_name c)) (show_span tx (ch_away c))"

definition alert_text :: "texts \<Rightarrow> asic_change list \<Rightarrow> nat \<Rightarrow> nat \<Rightarrow> time \<Rightarrow> string" where
  "alert_text tx changes up tot now =
     (let off = map (offline_item tx now) (filter (\<lambda>c. \<not> ch_online c) changes);
          on = map (online_item tx) (filter ch_online changes);
          m = (if off = [] then [] else add_list (tx_more tx) off (add_line (tx_offline tx (length off)) []));
          m = (if on = [] then m
               else add_list (tx_more tx) on (add_line (tx_online tx (length on)) (if off = [] then m else add_line [] m)))
      in add_line (tx_mining tx up tot) (add_line [] m))"

definition miner_item :: "texts \<Rightarrow> time \<Rightarrow> miner \<Rightarrow> string" where
  "miner_item tx now mn =
     (if mr_online mn then tx_miner_on tx (html_escape (mr_name mn)) (mr_hashrate mn)
      else tx_miner_off tx (html_escape (mr_name mn)) (show_span tx (time_sub now (mr_last_share mn))))"

definition miners_text :: "texts \<Rightarrow> time \<Rightarrow> miner list \<Rightarrow> string" where
  "miners_text tx now ms =
     (if ms = [] then tx_no_miners tx
      else add_list (tx_more tx) (map (miner_item tx now) ms) (add_line (tx_miners tx (length ms)) []))"


subsection \<open>The token stays secret\<close>

text \<open>\<open>k\<close> occurs in \<open>s\<close>.\<close>

definition occurs :: "string \<Rightarrow> string \<Rightarrow> bool" where
  "occurs k s \<longleftrightarrow> (\<exists>a b. s = a @ k @ b)"

lemma occurs_Nil [simp]: "occurs k [] \<longleftrightarrow> k = []" by (simp add: occurs_def)

lemma occurs_Cons: "occurs k (c # s) \<longleftrightarrow> has_prefix (c # s) k \<or> occurs k s"
proof
  assume "occurs k (c # s)"
  then obtain a b where e: "c # s = a @ k @ b" by (auto simp: occurs_def)
  show "has_prefix (c # s) k \<or> occurs k s"
  proof (cases a)
    case Nil
    then show ?thesis using e has_prefix_append [of k b] by simp
  next
    case (Cons x a')
    then show ?thesis using e by (auto simp: occurs_def)
  qed
next
  assume "has_prefix (c # s) k \<or> occurs k s"
  then show "occurs k (c # s)"
  proof
    assume "has_prefix (c # s) k"
    then have "c # s = [] @ k @ drop (length k) (c # s)" by (metis append_Nil append_take_drop_id has_prefix_iff)
    then show ?thesis unfolding occurs_def by blast
  next
    assume "occurs k s"
    then show ?thesis unfolding occurs_def by (metis append_Cons)
  qed
qed

text \<open>A text that has a character the key does not have splits the occurrences.\<close>

lemma occurs_split:
  assumes "d \<notin> set k" "occurs k (a @ d # b)"
  shows "occurs k a \<or> occurs k b"
proof -
  obtain x y where e: "a @ d # b = x @ k @ y" using assms(2) by (auto simp: occurs_def)
  consider (l) us where "a = x @ us" "us @ d # b = k @ y" | (r) us where "x = a @ us" "d # b = us @ k @ y"
    using e by (auto simp: append_eq_append_conv2)
  then show ?thesis
  proof cases
    case l
    then have "\<exists>vs. us = k @ vs"
      using assms(1) by (auto simp: append_eq_append_conv2 Cons_eq_append_conv append_eq_Cons_conv)
    then show ?thesis using l by (auto simp: occurs_def)
  next
    case r
    show ?thesis
    proof (cases us)
      case Nil
      then have "k = []" using r assms(1) by (cases k) auto
      then show ?thesis by (auto simp: occurs_def)
    next
      case (Cons v vs)
      then show ?thesis using r by (auto simp: occurs_def)
    qed
  qed
qed

lemma replace_all_Cons:
  "k \<noteq> [] \<Longrightarrow> replace_all (c # s) k v =
     (if has_prefix (c # s) k then v @ replace_all (drop (length k) (c # s)) k v else c # replace_all s k v)"
  by (simp add: replace_all_def)

declare replacer.simps [simp del]

text \<open>What is put in stands between characters the key does not have, so it makes no new occurrence.\<close>

lemma replaced_prefix:
  assumes "has_prefix (replace_all s k (d # v)) p" "d \<notin> set p" "k \<noteq> []"
  shows "has_prefix s p"
  using assms(1,2)
proof (induction s arbitrary: p)
  case Nil
  then show ?case by (simp add: replace_all_def replacer.simps)
next
  case (Cons c s)
  show ?case
  proof (cases p)
    case (Cons x q)
    then show ?thesis using Cons.IH [of q] Cons.prems assms(3) by (auto simp: replace_all_Cons split: if_splits)
  qed simp
qed

lemma replace_all_free:
  assumes "k \<noteq> []" "d \<notin> set k" "e \<notin> set k" "\<not> occurs k v"
  shows "\<not> occurs k (replace_all s k (d # v @ [e]))"
proof (induction s rule: length_induct)
  case (1 s)
  show ?case
  proof (cases s)
    case Nil
    then show ?thesis using assms(1) by (simp add: replace_all_def replacer.simps)
  next
    case (Cons c t)
    show ?thesis
    proof (cases "has_prefix s k")
      case True
      let ?r = "replace_all (drop (length k) s) k (d # v @ [e])"
      have "length (drop (length k) s) < length s" using assms(1) Cons by simp
      then have r: "\<not> occurs k ?r" using 1 by blast
      have "replace_all s k (d # v @ [e]) = [] @ d # (v @ e # ?r)"
        using True Cons assms(1) by (simp add: replace_all_Cons)
      moreover have "\<not> occurs k (v @ e # ?r)" using occurs_split [OF assms(3)] assms(4) r by blast
      ultimately show ?thesis using occurs_split [OF assms(2), of "[]"] assms(1) by (metis occurs_Nil)
    next
      case False
      have r: "\<not> occurs k (replace_all t k (d # v @ [e]))" using 1 Cons by simp
      have "replace_all s k (d # v @ [e]) = c # replace_all t k (d # v @ [e])"
        using False Cons assms(1) by (simp add: replace_all_Cons)
      moreover have "\<not> has_prefix (replace_all s k (d # v @ [e])) k" using replaced_prefix [OF _ assms(2,1)] False by blast
      ultimately show ?thesis using r by (simp add: occurs_Cons)
    qed
  qed
qed

lemma cut_at_found:
  assumes "cut_at d s = (a, b, True)"
  shows "s = a @ d # b"
proof -
  let ?r = "dropWhile (\<lambda>c. c \<noteq> d) s"
  have r: "?r \<noteq> []" "b = tl ?r" and a: "a = takeWhile (\<lambda>c. c \<noteq> d) s" using assms by (auto simp: cut_at_def Let_def)
  have "hd ?r = d" using hd_dropWhile [OF r(1)] by simp
  then have "?r = d # b" using r by (metis list.collapse)
  then show ?thesis using a by (metis takeWhile_dropWhile_id)
qed

lemma token_char_plain: "is_digit c \<or> c = CHR '':'' \<or> token_char c \<Longrightarrow> c \<notin> {CHR ''<'', CHR ''>'', CHR '';'', CHR '' ''}"
  by (auto simp: token_char_def is_digit_def)

lemma valid_token_chars:
  assumes "valid_token t"
  shows "22 \<le> length t \<and> CHR ''<'' \<notin> set t \<and> CHR ''>'' \<notin> set t \<and> CHR '';'' \<notin> set t \<and> CHR '' '' \<notin> set t"
proof -
  obtain a b where c: "cut_at CHR '':'' t = (a, b, True)" "1 \<le> length a" "list_all is_digit a" "20 \<le> length b" "list_all token_char b"
    using assms unfolding valid_token_def by (auto split: prod.splits)
  have t: "t = a @ CHR '':'' # b" using cut_at_found [OF c(1)] .
  have "\<forall>c \<in> set t. is_digit c \<or> c = CHR '':'' \<or> token_char c" using c(3,5) unfolding t by (auto simp: list_all_iff)
  then show ?thesis using token_char_plain t c(2,4) by fastforce
qed

lemma occurs_length: "occurs k s \<Longrightarrow> length k \<le> length s" by (auto simp: occurs_def)

lemma redact_free: "bt_token b = [] \<or> valid_token (bt_token b) \<Longrightarrow> bt_token b \<noteq> [] \<Longrightarrow> \<not> occurs (bt_token b) (redact s b)"
  using valid_token_chars [of "bt_token b"] replace_all_free [of "bt_token b" "CHR ''<''" "CHR ''>''" "''token''" s] occurs_length [of "bt_token b" "''token''"]
  by (auto simp: redact_def)

definition bot_inv :: "bot \<Rightarrow> bool" where
  "bot_inv b \<longleftrightarrow> bt_token b = [] \<or> valid_token (bt_token b) \<and> \<not> occurs (bt_token b) (bt_poll_err b) \<and> \<not> occurs (bt_token b) (bt_send_err b)"

text \<open>What changes the bot: a new token, which is valid or empty, a failure, a success, the name and the menu
  learnt by a poll, alerts, strangers and confirmations.\<close>

inductive bot_step :: "bot \<Rightarrow> bot \<Rightarrow> bool" where
  token: "t = [] \<or> valid_token t \<Longrightarrow> bot_step b (snd (set_token t u b))"
| failed: "bot_step b (snd (fail_as t k e b))"
| fine: "bot_step b (ok_bot k b)"
| poll_fine: "bot_step b (update_as t (set_err Polling []) b)"
| polled: "bot_step b (snd (snd (poll_bot lang net t b)))"
| notified: "bot_step b (snd (notify_bot a b))"
| denied: "bot_step b (snd (deny_chat i now b))"
| tested: "bot_step b (snd (snd (test_bot chats net' slept b)))"
| sent: "bot_step b (snd (snd (send_due chats net' slept due now n b)))"
| confirmations: "bot_step b (b\<lparr>bt_pending := c\<rparr>)"

lemma fail_as_inv: "bot_inv b \<Longrightarrow> bot_inv (snd (fail_as t k e b))"
  using redact_free [of b e] by (cases k) (auto simp: bot_inv_def fail_as_def update_as_def set_err_def Let_def)

lemma ok_bot_inv: "bot_inv b \<Longrightarrow> bot_inv (ok_bot k b)"
  using valid_token_chars by (cases k) (auto simp: bot_inv_def ok_bot_def set_err_def)

definition same_errors :: "bot \<Rightarrow> bot \<Rightarrow> bool" where
  "same_errors b b' \<longleftrightarrow> bt_token b' = bt_token b \<and> bt_poll_err b' = bt_poll_err b \<and> bt_send_err b' = bt_send_err b"

lemma same_errors_inv: "same_errors b b' \<Longrightarrow> bot_inv b \<Longrightarrow> bot_inv b'"
  by (simp add: same_errors_def bot_inv_def)

lemma learn_name_same: "learn_name net t b = Inr b' \<Longrightarrow> same_errors b b'"
  by (auto simp: learn_name_def update_as_def same_errors_def split: if_splits sum.splits)

lemma poll_menu_same: "poll_menu lang net t b = (e, ev, b') \<Longrightarrow> same_errors b b'"
  by (auto simp: poll_menu_def update_as_def same_errors_def split: if_splits sum.splits)

lemma poll_bot_same: "same_errors b (snd (snd (poll_bot lang net t b)))"
proof (cases "learn_name net t b")
  case (Inr b1)
  obtain e ev b2 where m: "poll_menu lang net t b1 = (e, ev, b2)" by (cases "poll_menu lang net t b1")
  have "snd (snd (poll_bot lang net t b)) = b2" using Inr m by (cases e) (simp_all add: poll_bot_def)
  then show ?thesis using learn_name_same [OF Inr] poll_menu_same [OF m] by (simp add: same_errors_def)
qed (simp add: poll_bot_def same_errors_def)

lemma bot_step_inv: "bot_step b b' \<Longrightarrow> bot_inv b \<Longrightarrow> bot_inv b'"
proof (induction rule: bot_step.induct)
  case (token t u b)
  then show ?case by (auto simp: bot_inv_def set_token_def valid_token_def cut_at_def)
next
  case (failed b t k e)
  then show ?case by (simp add: fail_as_inv)
next
  case (fine b k)
  then show ?case by (simp add: ok_bot_inv)
next
  case (polled b lang net t)
  then show ?case using poll_bot_same same_errors_inv by blast
next
  case (tested b chats net' slept)
  then show ?case
    using fail_as_inv [of b "bt_token b" Sending] ok_bot_inv
    by (auto simp: test_bot_def fail_bot_def split: list.splits prod.splits) (metis snd_conv)
next
  case (sent b chats net' slept due now n)
  then show ?case
    using fail_as_inv [of b "bt_token b" Sending] ok_bot_inv
    by (auto simp: send_due_def fail_bot_def Let_def split: prod.splits) (metis snd_conv)+
qed (auto simp: update_as_def set_err_def notify_bot_def deny_chat_def Let_def bot_inv_def)


definition example_token :: string where "example_token = ''7:abcdefghijklmnopqrstuvwxyz''"

lemma example_token_valid: "valid_token example_token" by code_simp


subsection \<open>Requests of a reply, answers to strangers\<close>

lemma reply_loop_calls: "snd (reply_loop meth edit net slept n b) \<le> max (n + 1) 3"
  by (induction meth edit net slept n b rule: reply_loop.induct)
    (subst reply_loop.simps, auto split: sum.split bot_error.split simp del: reply_loop.simps)

lemma deny_bounded: "length (bt_denied b) \<le> max_denied \<Longrightarrow> length (bt_denied (snd (deny_chat i now b))) \<le> max_denied"
proof -
  assume l: "length (bt_denied b) \<le> max_denied"
  define d where "d = (if max_denied \<le> length (bt_denied b) then filter (\<lambda>(k, t). \<not> denied_every \<le> time_sub now t) (bt_denied b) else bt_denied b)"
  have e: "deny_chat i now b =
      (if (case map_of (bt_denied b) i of Some t \<Rightarrow> time_sub now t < denied_every | None \<Rightarrow> False) then (False, b)
       else if max_denied \<le> length d then (False, b\<lparr>bt_denied := d\<rparr>) else (True, b\<lparr>bt_denied := put i now d\<rparr>))"
    by (simp add: deny_chat_def d_def Let_def)
  have "length d \<le> max_denied" using l order_trans [OF length_filter_le] by (auto simp: d_def)
  then show ?thesis unfolding e using l length_put_le [of i now d] by simp
qed

lemma denied_rarely:
  "deny_chat i t b = (True, b') \<Longrightarrow> time_sub now t < denied_every \<Longrightarrow> \<not> fst (deny_chat i now b')"
  by (auto simp: deny_chat_def Let_def split: if_splits option.splits)

subsection \<open>The length of a message\<close>

lemma add_line_length: "length (add_line s m) \<le> length m + 1 + length s"
  by (simp add: add_line_def)

lemma add_list_length:
  "\<forall>n \<le> length xs. length (extra n) \<le> M \<Longrightarrow> length (add_list extra xs m) \<le> max (length m) 3801 + 1 + M"
proof (induction xs arbitrary: m)
  case (Cons x xs)
  show ?case
  proof (cases "max_text < length m + length x + 200")
    case True
    then show ?thesis using add_line_length [of "extra (length (x # xs))" m] Cons.prems by fastforce
  next
    case False
    then have "length (add_line x m) \<le> 3801" using add_line_length [of x m] by (simp add: max_text_def)
    moreover have "length (add_list extra xs (add_line x m)) \<le> max (length (add_line x m)) 3801 + 1 + M"
      using Cons by simp
    ultimately show ?thesis using False by simp
  qed
qed simp

text \<open>A message of alerts stays below the limit of Telegram however many ASICs it names and whatever their
  names are, if the texts around the lists are short.\<close>

theorem alert_text_bounded:
  assumes "\<forall>n \<le> length changes. length (tx_more tx n) \<le> 40 \<and> length (tx_offline tx n) \<le> 50 \<and> length (tx_online tx n) \<le> 50"
    and "length (tx_mining tx up tot) \<le> 60"
  shows "length (alert_text tx changes up tot now) \<le> max_text"
proof -
  define off where "off = map (offline_item tx now) (filter (\<lambda>c. \<not> ch_online c) changes)"
  define on where "on = map (online_item tx) (filter ch_online changes)"
  define m1 where "m1 = (if off = [] then [] else add_list (tx_more tx) off (add_line (tx_offline tx (length off)) []))"
  define m2 where "m2 = (if on = [] then m1
      else add_list (tx_more tx) on (add_line (tx_online tx (length on)) (if off = [] then m1 else add_line [] m1)))"
  have l: "length off \<le> length changes" "length on \<le> length changes" by (simp_all add: off_def on_def)
  have h: "length (tx_offline tx (length off)) \<le> 50" "length (tx_online tx (length on)) \<le> 50" using assms(1) l by auto
  have "length m1 \<le> 3842"
    using add_list_length [of off "tx_more tx" 40 "add_line (tx_offline tx (length off)) []"] assms(1) l h
      add_line_length [of "tx_offline tx (length off)" "[]"]
    by (auto simp: m1_def)
  moreover have "length m2 \<le> max (length m1 + 52) 3801 + 41" if "on \<noteq> []"
    using add_list_length [of on "tx_more tx" 40 "add_line (tx_online tx (length on)) (if off = [] then m1 else add_line [] m1)"]
      assms(1) l h that add_line_length [of "tx_online tx (length on)" "if off = [] then m1 else add_line [] m1"] add_line_length [of "[]" m1]
    by (auto simp: m2_def split: if_splits)
  ultimately have "length m2 \<le> 3935" by (cases "on = []") (auto simp: m2_def)
  moreover have "alert_text tx changes up tot now = add_line (tx_mining tx up tot) (add_line [] m2)"
    by (simp add: alert_text_def Let_def off_def on_def m1_def m2_def)
  ultimately show ?thesis
    using assms(2) add_line_length [of "tx_mining tx up tot" "add_line [] m2"] add_line_length [of "[]" m2] by (simp add: max_text_def)
qed

definition example_texts :: texts where
  "example_texts =
     \<lparr>tx_help = ''/status'', tx_denied = (\<lambda>i. ''chat '' @ itoa i), tx_test = ''test'',
      tx_offline = (\<lambda>n. ''<b>No shares ('' @ itoa (int n) @ '')</b>''),
      tx_offline_line = (\<lambda>name t p. ''<code>'' @ name @ ''</code> silent for '' @ t @ '', last on '' @ p),
      tx_online = (\<lambda>n. ''<b>Back online ('' @ itoa (int n) @ '')</b>''),
      tx_online_line = (\<lambda>name t. ''<code>'' @ name @ ''</code> was silent for '' @ t),
      tx_mining = (\<lambda>a b. ''Mining: '' @ itoa (int a) @ '' of '' @ itoa (int b) @ '' ASICs''),
      tx_no_miners = ''No ASIC has sent a share yet.'', tx_miners = (\<lambda>n. ''ASICs '' @ itoa (int n)),
      tx_miner_on = (\<lambda>name h. name), tx_miner_off = (\<lambda>name t. name @ '' silent for '' @ t), tx_more = (\<lambda>n. ''and '' @ itoa (int n) @ '' more''),
      tx_sec = ''s'', tx_min = ''min'', tx_hour = ''h'', tx_day = ''d'', tx_text = (\<lambda>k vs. k @ concat vs),
      tx_ui = (\<lambda>k vs. k @ concat vs), tx_real = (\<lambda>n x. []), tx_time = (\<lambda>t. [])\<rparr>"

theorem alert_text_bounded_witness:
  "length (alert_text example_texts [example_change ''a'' False] 1 2 0) \<le> max_text"
proof (rule alert_text_bounded)
  show "\<forall>n \<le> length [example_change ''a'' False]. length (tx_more example_texts n) \<le> 40 \<and>
      length (tx_offline example_texts n) \<le> 50 \<and> length (tx_online example_texts n) \<le> 50"
    by (auto simp: le_Suc_eq example_texts_def itoa_def show_nat.simps)
  show "length (tx_mining example_texts 1 2) \<le> 60" by (simp add: example_texts_def itoa_def show_nat.simps)
qed

end
