(* ===== verification/Points.thy ===== *)
theory Points
  imports Stats
begin

text \<open>
  Package \<open>history\<close>, \<open>point.go\<close>: the points of the statistics history and how they are made and merged.

  \<^item> \<open>point\<close> is \<open>Point\<close> with \<open>pool_part\<close> and \<open>worker_part\<close>; \<open>add_point\<close> is \<open>Point.add\<close>.
  \<^item> \<open>delta\<close> and \<open>worker_delta\<close> make the points of a minute from two \<open>sample\<close>s of the counters; shares are counted
    modulo $2^{64}$ as in the code.

  The locale \<open>amount\<close> is what the roll-ups and charts use of a point: a quantity that adds up when points are merged.
  It is interpreted for the recorded seconds, the shares, the difficulty and the miner seconds, in total, per
  pool and per login.
\<close>

record pool_part =
  pp_d :: real
  pp_a :: "64 word"
  pp_r :: "64 word"
  pp_m :: real

record worker_part =
  wp_d :: real
  wp_a :: "64 word"
  wp_r :: "64 word"
  wp_o :: int

record point =
  pt_t :: int
  pt_s :: int
  pt_d :: real
  pt_a :: "64 word"
  pt_r :: "64 word"
  pt_m :: real
  pt_p :: "(string, pool_part) gomap"
  pt_w :: "(string, worker_part) gomap"

definition zero_pool_part :: pool_part where "zero_pool_part = \<lparr>pp_d = 0, pp_a = 0, pp_r = 0, pp_m = 0\<rparr>"
definition zero_worker_part :: worker_part where "zero_worker_part = \<lparr>wp_d = 0, wp_a = 0, wp_r = 0, wp_o = 0\<rparr>"

definition empty_point :: "int \<Rightarrow> point" where
  "empty_point t = \<lparr>pt_t = t, pt_s = 0, pt_d = 0, pt_a = 0, pt_r = 0, pt_m = 0, pt_p = [], pt_w = []\<rparr>"

definition hashrate_over :: "real \<Rightarrow> int \<Rightarrow> real" where
  "hashrate_over diff seconds = (if seconds \<le> 0 then 0 else diff * hashes_per_difficulty / real_of_int seconds)"

definition point_hashrate :: "point \<Rightarrow> real" where
  "point_hashrate p = hashrate_over (pt_d p) (pt_s p)"

definition pool_hashrate :: "string \<Rightarrow> point \<Rightarrow> real" where
  "pool_hashrate i p = hashrate_over (pp_d (get_or zero_pool_part (pt_p p) i)) (pt_s p)"

subsection \<open>Merging\<close>

definition add_pool_part :: "real \<Rightarrow> pool_part \<Rightarrow> pool_part \<Rightarrow> pool_part" where
  "add_pool_part wq b m = \<lparr>pp_d = pp_d m + pp_d b, pp_a = pp_a m + pp_a b, pp_r = pp_r m + pp_r b, pp_m = pp_m m + pp_m b * wq\<rparr>"

definition add_worker_part :: "worker_part \<Rightarrow> worker_part \<Rightarrow> worker_part" where
  "add_worker_part b m = \<lparr>wp_d = wp_d m + wp_d b, wp_a = wp_a m + wp_a b, wp_r = wp_r m + wp_r b, wp_o = wp_o m + wp_o b\<rparr>"

text \<open>One of the merge loops: every entry of the second map is added to the entry of its key.\<close>

definition merge_into :: "'v \<Rightarrow> ('b \<Rightarrow> 'v \<Rightarrow> 'v) \<Rightarrow> (string, 'b) gomap \<Rightarrow> (string, 'v) gomap \<Rightarrow> (string, 'v) gomap" where
  "merge_into z f qs ps = fold (\<lambda>(k, b) m. put k (f b (get_or z m k)) m) qs ps"

definition weight :: "int \<Rightarrow> int \<Rightarrow> real" where
  "weight part s = (if 0 < s then real_of_int part / real_of_int s else 1 / 2)"

definition add_point :: "point \<Rightarrow> point \<Rightarrow> point" where
  "add_point p q =
     (let s = pt_s p + pt_s q; wp = weight (pt_s p) s; wq = weight (pt_s q) s
      in p\<lparr>pt_s := s, pt_d := pt_d p + pt_d q, pt_a := pt_a p + pt_a q, pt_r := pt_r p + pt_r q,
           pt_m := pt_m p * wp + pt_m q * wq,
           pt_p := (if pt_p p \<noteq> [] \<or> pt_p q \<noteq> []
                    then merge_into zero_pool_part (add_pool_part wq) (pt_p q)
                           (map (\<lambda>(i, a). (i, a\<lparr>pp_m := pp_m a * wp\<rparr>)) (pt_p p))
                    else pt_p p),
           pt_w := (if pt_w q \<noteq> [] then merge_into zero_worker_part add_worker_part (pt_w q) (pt_w p) else pt_w p)\<rparr>)"

definition clone_point :: "point \<Rightarrow> point" where
  "clone_point p = add_point (empty_point (pt_t p)) p"

subsection \<open>Points of a minute\<close>

record sample =
  sm_totals :: totals
  sm_miners :: "(string, int) gomap"
  sm_online :: "(string, int) gomap"

definition non_neg :: "real \<Rightarrow> real" where "non_neg x = (if x < 0 then 0 else x)"
definition sub64 :: "64 word \<Rightarrow> 64 word \<Rightarrow> 64 word" where "sub64 a b = (if a < b then 0 else a - b)"

definition pool_delta :: "sample \<Rightarrow> sample \<Rightarrow> string \<Rightarrow> pool_part" where
  "pool_delta prev cur i =
     (let c = get_or zero_counters (t_pools (sm_totals cur)) i; o' = get_or zero_counters (t_pools (sm_totals prev)) i
      in \<lparr>pp_d = non_neg (c_diff c - c_diff o'), pp_a = sub64 (c_accepted c) (c_accepted o'),
          pp_r = sub64 (c_rejected c) (c_rejected o'), pp_m = real_of_int (get_or 0 (sm_miners cur) i)\<rparr>)"

definition delta :: "sample \<Rightarrow> sample \<Rightarrow> point" where
  "delta prev cur =
     (let c = t_total (sm_totals cur); o' = t_total (sm_totals prev);
          ids = remdups (map fst (t_pools (sm_totals cur)) @ map fst (sm_miners cur));
          parts = map (\<lambda>i. (i, pool_delta prev cur i)) ids
      in (empty_point 0)\<lparr>pt_d := non_neg (c_diff c - c_diff o'), pt_a := sub64 (c_accepted c) (c_accepted o'),
          pt_r := sub64 (c_rejected c) (c_rejected o'),
          pt_m := real_of_int (sum_list (map snd (sm_miners cur))),
          pt_p := filter (\<lambda>(i, part). part \<noteq> zero_pool_part) parts\<rparr>)"

definition login_delta :: "sample \<Rightarrow> sample \<Rightarrow> int \<Rightarrow> string \<Rightarrow> worker_part" where
  "login_delta prev cur seconds n =
     (let c = get_or zero_counters (t_workers (sm_totals cur)) n; o' = get_or zero_counters (t_workers (sm_totals prev)) n
      in \<lparr>wp_d = non_neg (c_diff c - c_diff o'), wp_a = sub64 (c_accepted c) (c_accepted o'),
          wp_r = sub64 (c_rejected c) (c_rejected o'),
          wp_o = (if 0 < get_or 0 (sm_online cur) n then seconds else 0)\<rparr>)"

definition worker_delta :: "sample \<Rightarrow> sample \<Rightarrow> int \<Rightarrow> point" where
  "worker_delta prev cur seconds =
     (let names = remdups (map fst (t_workers (sm_totals cur)) @ map fst (sm_online cur));
          parts = map (\<lambda>n. (n, login_delta prev cur seconds n)) names
      in (empty_point 0)\<lparr>pt_w := filter (\<lambda>(n, part). part \<noteq> zero_worker_part) parts\<rparr>)"

subsection \<open>Lookups after a merge\<close>

lemma merge_into_get:
  "wf_map qs \<Longrightarrow> get_or z (merge_into z f qs ps) k =
     (case map_of qs k of None \<Rightarrow> get_or z ps k | Some b \<Rightarrow> f b (get_or z ps k))"
proof (induction qs arbitrary: ps)
  case (Cons x qs)
  obtain j b where x: "x = (j, b)" by fastforce
  have "map_of qs j = None" using Cons.prems x by (simp add: map_of_eq_None_iff)
  then show ?case using Cons.IH [of "put j (f b (get_or z ps j)) ps"] Cons.prems x by (auto simp: merge_into_def split: option.split)
qed (simp add: merge_into_def)

lemma merge_into_wf: "wf_map ps \<Longrightarrow> wf_map (merge_into z f qs ps)"
  unfolding merge_into_def by (induction qs arbitrary: ps) auto

lemma get_or_map: "g z = z \<Longrightarrow> get_or z (map (\<lambda>(i, a). (i, g a)) ps) k = g (get_or z ps k)"
  by (simp add: get_or_def map_of_map split: option.splits)

lemma map_fst_map [simp]: "map fst (map (\<lambda>(i, a). (i, g a)) ps) = map fst ps"
  by (simp add: case_prod_beta comp_def)

definition wf_point :: "point \<Rightarrow> bool" where
  "wf_point p \<longleftrightarrow> 0 \<le> pt_s p \<and> wf_map (pt_p p) \<and> wf_map (pt_w p)"

definition pool_of :: "string \<Rightarrow> point \<Rightarrow> pool_part" where "pool_of i p = get_or zero_pool_part (pt_p p) i"
definition login_of :: "string \<Rightarrow> point \<Rightarrow> worker_part" where "login_of n p = get_or zero_worker_part (pt_w p) n"

lemma add_point_simps [simp]:
  "pt_t (add_point p q) = pt_t p" "pt_s (add_point p q) = pt_s p + pt_s q" "pt_d (add_point p q) = pt_d p + pt_d q"
  "pt_a (add_point p q) = pt_a p + pt_a q" "pt_r (add_point p q) = pt_r p + pt_r q"
  by (simp_all add: add_point_def Let_def)

lemma wf_add_point [simp]: "wf_point p \<Longrightarrow> wf_point q \<Longrightarrow> wf_point (add_point p q)"
  by (auto simp: wf_point_def add_point_def Let_def case_prod_beta comp_def intro!: merge_into_wf)

lemma wf_empty_point [simp]: "wf_point (empty_point t)"
  by (simp add: wf_point_def empty_point_def)

lemma wf_clone_point [simp]: "wf_point p \<Longrightarrow> wf_point (clone_point p)"
  by (simp add: clone_point_def)

lemma merge_into_neutral:
  assumes "wf_map qs" "\<And>m. f z m = m"
  shows "get_or z (merge_into z f qs ps) k = f (get_or z qs k) (get_or z ps k)"
  unfolding merge_into_get [OF assms(1)] using assms(2) by (simp add: get_or_def split: option.split)

lemma login_of_add:
  assumes "wf_point q"
  shows "login_of n (add_point p q) = add_worker_part (login_of n q) (login_of n p)"
proof -
  have e: "add_worker_part zero_worker_part m = m" for m by (simp add: add_worker_part_def zero_worker_part_def)
  have "get_or zero_worker_part [] n = zero_worker_part" by (simp add: get_or_def)
  then show ?thesis using assms e merge_into_neutral [of "pt_w q" add_worker_part zero_worker_part "pt_w p" n]
    by (auto simp: login_of_def add_point_def Let_def wf_point_def)
qed

lemma pool_of_add:
  assumes "wf_point q"
  shows "pool_of i (add_point p q) = add_pool_part (weight (pt_s q) (pt_s p + pt_s q)) (pool_of i q)
    ((pool_of i p)\<lparr>pp_m := pp_m (pool_of i p) * weight (pt_s p) (pt_s p + pt_s q)\<rparr>)"
proof -
  let ?w = "weight (pt_s p) (pt_s p + pt_s q)"
  have z: "zero_pool_part\<lparr>pp_m := pp_m zero_pool_part * ?w\<rparr> = zero_pool_part" by (simp add: zero_pool_part_def)
  have g: "get_or zero_pool_part (map (\<lambda>(i, a). (i, a\<lparr>pp_m := pp_m a * ?w\<rparr>)) (pt_p p)) i =
    (pool_of i p)\<lparr>pp_m := pp_m (pool_of i p) * ?w\<rparr>"
    using get_or_map [of "\<lambda>a. a\<lparr>pp_m := pp_m a * ?w\<rparr>", OF z] by (simp add: pool_of_def)
  have e: "add_pool_part wq zero_pool_part m = m" for wq m by (simp add: add_pool_part_def zero_pool_part_def)
  have n: "get_or zero_pool_part [] i = zero_pool_part" by (simp add: get_or_def)
  show ?thesis
  proof (cases "pt_p p = [] \<and> pt_p q = []")
    case True
    then show ?thesis using n e z by (simp add: pool_of_def add_point_def Let_def)
  next
    case False
    then have "pt_p (add_point p q) = merge_into zero_pool_part (add_pool_part (weight (pt_s q) (pt_s p + pt_s q))) (pt_p q)
      (map (\<lambda>(i, a). (i, a\<lparr>pp_m := pp_m a * ?w\<rparr>)) (pt_p p))" by (simp add: add_point_def Let_def)
    then show ?thesis using assms e g by (simp add: pool_of_def merge_into_neutral wf_point_def)
  qed
qed

lemma weight_share:
  assumes "0 \<le> a" "0 \<le> b"
  shows "(x * weight a (a + b) + y * weight b (a + b)) * real_of_int (a + b) = x * real_of_int a + y * real_of_int b"
proof (cases "0 < a + b")
  case True
  then have "real_of_int (a + b) \<noteq> 0" by linarith
  then show ?thesis using True by (simp only: weight_def if_True distrib_right) simp
next
  case False
  then have "a = 0" "b = 0" using assms by auto
  then show ?thesis by simp
qed

subsection \<open>Quantities that add up\<close>

locale amount =
  fixes amount :: "point \<Rightarrow> 'a::comm_monoid_add"
  assumes amount_add: "wf_point p \<Longrightarrow> wf_point q \<Longrightarrow> amount (add_point p q) = amount p + amount q"
    and amount_empty: "amount (empty_point t) = 0"
begin

lemma amount_clone: "wf_point p \<Longrightarrow> amount (clone_point p) = amount p"
  by (simp add: clone_point_def amount_add amount_empty)

lemma amount_fold: "wf_point p \<Longrightarrow> \<forall>q \<in> set qs. wf_point q \<Longrightarrow> wf_point (fold (\<lambda>q p. add_point p q) qs p) \<and>
    amount (fold (\<lambda>q p. add_point p q) qs p) = amount p + sum_list (map amount qs)"
  by (induction qs arbitrary: p) (auto simp: amount_add add.assoc)

end

interpretation seconds: amount pt_s by unfold_locales (simp_all add: empty_point_def)
interpretation difficulty: amount pt_d by unfold_locales (simp_all add: empty_point_def)
interpretation accepted: amount pt_a by unfold_locales (simp_all add: empty_point_def)
interpretation rejected: amount pt_r by unfold_locales (simp_all add: empty_point_def)

lemma empty_parts [simp]: "pool_of i (empty_point t) = zero_pool_part" "login_of n (empty_point t) = zero_worker_part"
  by (simp_all add: pool_of_def login_of_def empty_point_def get_or_def)

interpretation miner_seconds: amount "\<lambda>p. pt_m p * real_of_int (pt_s p)"
proof
  fix p q assume "wf_point p" "wf_point q"
  then show "pt_m (add_point p q) * real_of_int (pt_s (add_point p q)) = pt_m p * real_of_int (pt_s p) + pt_m q * real_of_int (pt_s q)"
    using weight_share [of "pt_s p" "pt_s q" "pt_m p" "pt_m q"] by (simp add: wf_point_def add_point_def Let_def)
qed (simp add: empty_point_def)

interpretation pool_difficulty: amount "\<lambda>p. pp_d (pool_of i p)" for i
  by unfold_locales (simp_all add: pool_of_add add_pool_part_def zero_pool_part_def)
interpretation pool_accepted: amount "\<lambda>p. pp_a (pool_of i p)" for i
  by unfold_locales (simp_all add: pool_of_add add_pool_part_def zero_pool_part_def)
interpretation pool_rejected: amount "\<lambda>p. pp_r (pool_of i p)" for i
  by unfold_locales (simp_all add: pool_of_add add_pool_part_def zero_pool_part_def)

interpretation pool_miner_seconds: amount "\<lambda>p. pp_m (pool_of i p) * real_of_int (pt_s p)" for i
proof
  fix p q assume "wf_point p" "wf_point q"
  then show "pp_m (pool_of i (add_point p q)) * real_of_int (pt_s (add_point p q)) =
    pp_m (pool_of i p) * real_of_int (pt_s p) + pp_m (pool_of i q) * real_of_int (pt_s q)"
    using weight_share [of "pt_s p" "pt_s q" "pp_m (pool_of i p)" "pp_m (pool_of i q)"]
    by (simp add: pool_of_add add_pool_part_def wf_point_def)
qed (simp add: zero_pool_part_def)

interpretation login_difficulty: amount "\<lambda>p. wp_d (login_of n p)" for n
  by unfold_locales (simp_all add: login_of_add add_worker_part_def zero_worker_part_def)
interpretation login_accepted: amount "\<lambda>p. wp_a (login_of n p)" for n
  by unfold_locales (simp_all add: login_of_add add_worker_part_def zero_worker_part_def)
interpretation login_rejected: amount "\<lambda>p. wp_r (login_of n p)" for n
  by unfold_locales (simp_all add: login_of_add add_worker_part_def zero_worker_part_def)
interpretation login_online: amount "\<lambda>p. wp_o (login_of n p)" for n
  by unfold_locales (simp_all add: login_of_add add_worker_part_def zero_worker_part_def)

text \<open>The points of a minute are well-formed and hold the differences of the counters.\<close>

lemma wf_delta: "0 \<le> s \<Longrightarrow> wf_point ((delta prev cur)\<lparr>pt_t := t, pt_s := s\<rparr>)"
  "0 \<le> s \<Longrightarrow> wf_point ((worker_delta prev cur s)\<lparr>pt_t := t, pt_s := s\<rparr>)"
  by (simp_all add: wf_point_def delta_def worker_delta_def empty_point_def Let_def distinct_map_filter comp_def)

lemma get_or_nonzero:
  "get_or z (filter (\<lambda>(n, part). part \<noteq> z) (map (\<lambda>n. (n, f n)) ns)) k = (if k \<in> set ns then f k else z)"
  by (induction ns) (auto simp: get_or_def)

lemma login_of_delta:
  "login_of n (worker_delta prev cur s) =
     (if has_key (t_workers (sm_totals cur)) n \<or> has_key (sm_online cur) n then login_delta prev cur s n else zero_worker_part)"
  by (simp add: login_of_def worker_delta_def Let_def has_key_iff get_or_nonzero)

lemma pool_of_delta:
  "pool_of i (delta prev cur) =
     (if has_key (t_pools (sm_totals cur)) i \<or> has_key (sm_miners cur) i then pool_delta prev cur i else zero_pool_part)"
  by (simp add: pool_of_def delta_def Let_def has_key_iff get_or_nonzero)

lemma sub64_exact: "b \<le> a \<Longrightarrow> sub64 a b = a - b"
  by (auto simp: sub64_def)

end
