(* ===== verification/Tiers.thy ===== *)
theory Tiers
  imports Points
begin

text \<open>
  Package \<open>history\<close>, \<open>files.go\<close>: the files of the statistics history, one per UTC day or month.

  \<^item> \<open>tier\<close> is \<open>tier\<close>; \<open>file_start\<close> and \<open>next_file\<close> find the file of a point with the Gregorian calendar
    of the standard library (\<open>month_on\<close>, \<open>month_back\<close>).
  \<^item> A file is a list of lines, each what \<open>json.Unmarshal\<close> makes of it, and a flag for a last line without a
    newline. The files of a tier are a map from the time a file starts; the code has that time in the name, and
    ignores files with other names. What the disk does with a write or read is an argument.
  \<^item> \<open>append_point\<close>, \<open>read_file\<close>, \<open>read_tier\<close>, \<open>newest\<close> and \<open>prune_tier\<close> are the operations of the same names.

  The locale \<open>calendar\<close> is what the operations need of the two functions that place files in time. The lemmas show
  that a tier reads back exactly the points that were appended, whatever was damaged beside them.
\<close>

record tier =
  tr_step :: int
  tr_monthly :: bool

definition minute_tier :: tier where "minute_tier = \<lparr>tr_step = 60, tr_monthly = False\<rparr>"
definition hour_tier :: tier where "hour_tier = \<lparr>tr_step = 3600, tr_monthly = True\<rparr>"
definition worker_detail_tier :: tier where "worker_detail_tier = \<lparr>tr_step = 600, tr_monthly = False\<rparr>"
definition worker_hour_tier :: tier where "worker_hour_tier = \<lparr>tr_step = 3600, tr_monthly = True\<rparr>"

subsection \<open>The calendar\<close>

definition leap_year :: "int \<Rightarrow> bool" where
  "leap_year y \<longleftrightarrow> y mod 4 = 0 \<and> (y mod 100 \<noteq> 0 \<or> y mod 400 = 0)"

text \<open>A month is counted from January of year 0; its days.\<close>

definition month_days :: "int \<Rightarrow> int" where
  "month_days m =
     (if m mod 12 = 1 then (if leap_year (m div 12) then 29 else 28)
      else if m mod 12 \<in> {3, 5, 8, 10} then 30 else 31)"

lemma month_days_pos: "28 \<le> month_days m"
  by (simp add: month_days_def)

text \<open>The month \<open>m\<close> that starts on day \<open>s\<close>, or a later or earlier one, with the start of the one that holds day \<open>d\<close>.\<close>

function month_on :: "int \<Rightarrow> int \<Rightarrow> int \<Rightarrow> int \<times> int" where
  "month_on m s d = (if d < s + month_days m then (m, s) else month_on (m + 1) (s + month_days m) d)"
  by pat_completeness auto
termination
proof (relation "measure (\<lambda>(m, s, d). nat (d - s))", goal_cases)
  case (2 m s d)
  then show ?case using month_days_pos [of m] by simp
qed simp

function month_back :: "int \<Rightarrow> int \<Rightarrow> int \<Rightarrow> int \<times> int" where
  "month_back m s d = (if s \<le> d then (m, s) else month_back (m - 1) (s - month_days (m - 1)) d)"
  by pat_completeness auto
termination
proof (relation "measure (\<lambda>(m, s, d). nat (s - d))", goal_cases)
  case (2 m s d)
  then show ?case using month_days_pos [of "m - 1"] by simp
qed simp

declare month_on.simps [simp del] month_back.simps [simp del]

text \<open>January 1970 is month 23640 and starts on day 0 of the Unix time.\<close>

definition month_at :: "int \<Rightarrow> int \<times> int" where
  "month_at d = (if 0 \<le> d then month_on 23640 0 d else month_back 23640 0 d)"

definition file_start :: "tier \<Rightarrow> int \<Rightarrow> int" where
  "file_start t ts = (if tr_monthly t then 86400 * snd (month_at (ts div 86400)) else ts - ts mod 86400)"

definition next_file :: "tier \<Rightarrow> int \<Rightarrow> int" where
  "next_file t start = (if tr_monthly t then start + 86400 * month_days (fst (month_at (start div 86400))) else start + 86400)"

locale calendar =
  fixes start :: "int \<Rightarrow> int" and after :: "int \<Rightarrow> int"
  assumes start_le: "start x \<le> x"
    and before_next: "x < after (start x)"
    and same_file: "start x \<le> y \<Longrightarrow> y < after (start x) \<Longrightarrow> start y = start x"
    and next_start: "start (after (start x)) = after (start x)"
begin

lemma start_idem: "start (start x) = start x"
  using same_file [of x "start x"] before_next [of x] start_le [of x] by simp

lemma start_mono: "x \<le> y \<Longrightarrow> start x \<le> start y"
proof (rule ccontr)
  assume "x \<le> y" "\<not> start x \<le> start y"
  then have "start y \<le> x" "x < after (start y)" using start_le [of x] before_next [of y] by linarith+
  then show False using same_file [of y x] \<open>\<not> start x \<le> start y\<close> by simp
qed

lemma next_greater: "start k = k \<Longrightarrow> k < after k"
  using before_next [of k] by simp

lemma between: "start k = k \<Longrightarrow> start x = k \<longleftrightarrow> k \<le> x \<and> x < after k"
  using same_file [of k x] start_le [of x] before_next [of x] by auto

lemma next_le: "start k = k \<Longrightarrow> start j = j \<Longrightarrow> k < j \<Longrightarrow> after k \<le> j"
  using between [of k j] by auto

end

text \<open>Months.\<close>

text \<open>\<open>month_of m\<close> counts the days from the start of January 1970.\<close>

definition month_start :: "int \<Rightarrow> int" where
  "month_start m = (if 23640 \<le> m then (\<Sum>i \<in> {23640..<m}. month_days i) else - (\<Sum>i \<in> {m..<23640}. month_days i))"

lemma month_start_next: "month_start (m + 1) = month_start m + month_days m"
proof -
  consider "23640 \<le> m" | "m = 23639" | "m < 23639" by linarith
  then show ?thesis
  proof cases
    case 1
    then have "{23640..<m + 1} = insert m {23640..<m}" by auto
    then show ?thesis using 1 by (simp add: month_start_def)
  next
    case 2
    moreover have "{23639..<23640::int} = {23639}" by auto
    ultimately show ?thesis by (simp add: month_start_def)
  next
    case 3
    then have "{m..<23640} = insert m {m + 1..<23640}" by auto
    then show ?thesis using 3 by (simp add: month_start_def)
  qed
qed

lemma month_start_less: "m < n \<Longrightarrow> month_start m + month_days m \<le> month_start n"
proof (induction "nat (n - m)" arbitrary: n)
  case (Suc k)
  show ?case
  proof (cases "n = m + 1")
    case True
    then show ?thesis using month_start_next by simp
  next
    case False
    then have "month_start m + month_days m \<le> month_start (n - 1)" using Suc(1) [of "n - 1"] Suc(2,3) by simp
    then show ?thesis using month_start_next [of "n - 1"] month_days_pos [of "n - 1"] by simp
  qed
qed simp

lemma month_start_unique:
  "month_start m \<le> d \<Longrightarrow> d < month_start m + month_days m \<Longrightarrow> month_start n \<le> d \<Longrightarrow> d < month_start n + month_days n \<Longrightarrow> m = n"
  using month_start_less [of m n] month_start_less [of n m] by force

lemma month_on_holds:
  "s = month_start m \<Longrightarrow> s \<le> d \<Longrightarrow> month_on m s d = (n, r) \<Longrightarrow> r = month_start n \<and> r \<le> d \<and> d < r + month_days n"
proof (induction m s d rule: month_on.induct)
  case (1 m s d)
  note e = month_on.simps [of m s d]
  show ?case
  proof (cases "d < s + month_days m")
    case True
    then show ?thesis using 1(2-4) unfolding e by auto
  next
    case False
    show ?thesis using 1(1) [OF False] 1(2-4) False month_start_next [of m] unfolding e by simp
  qed
qed

lemma month_back_holds:
  "s = month_start m \<Longrightarrow> d < s + month_days m \<Longrightarrow> month_back m s d = (n, r) \<Longrightarrow> r = month_start n \<and> r \<le> d \<and> d < r + month_days n"
proof (induction m s d rule: month_back.induct)
  case (1 m s d)
  note e = month_back.simps [of m s d]
  show ?case
  proof (cases "s \<le> d")
    case True
    then show ?thesis using 1(2-4) unfolding e by auto
  next
    case False
    show ?thesis using 1(1) [OF False] 1(2-4) False month_start_next [of "m - 1"] unfolding e by simp
  qed
qed

lemma month_at_holds: "month_at d = (n, r) \<Longrightarrow> r = month_start n \<and> r \<le> d \<and> d < r + month_days n"
  using month_on_holds [of 0 23640 d n r] month_back_holds [of 0 23640 d n r] month_days_pos [of 23640]
  by (auto simp: month_at_def month_start_def split: if_splits)

lemma month_at_start: "month_at (month_start m) = (m, month_start m)"
proof -
  obtain n r where n: "month_at (month_start m) = (n, r)" by fastforce
  then have "n = m" using month_at_holds [OF n] month_start_unique [of n "month_start m" m] month_days_pos [of m] by simp
  then show ?thesis using month_at_holds [OF n] n by simp
qed

lemma day_bounds: "s \<le> x div 86400 \<longleftrightarrow> 86400 * s \<le> x" "x div 86400 < e \<longleftrightarrow> x < 86400 * (e :: int)"
proof -
  have "x = 86400 * (x div 86400) + x mod 86400" "0 \<le> x mod 86400" "x mod 86400 < 86400" by simp_all
  then show "s \<le> x div 86400 \<longleftrightarrow> 86400 * s \<le> x" "x div 86400 < e \<longleftrightarrow> x < 86400 * e" by linarith+
qed

lemma calendar_months: "tr_monthly t \<Longrightarrow> calendar (file_start t) (next_file t)"
proof (unfold_locales, goal_cases)
  case (1 x)
  obtain n r where n: "month_at (x div 86400) = (n, r)" by fastforce
  then show ?case using month_at_holds [OF n] 1 by (simp add: file_start_def day_bounds)
next
  case (2 x)
  obtain n r where n: "month_at (x div 86400) = (n, r)" by fastforce
  then show ?case using month_at_holds [OF n] month_at_start [of n] 2 by (simp add: file_start_def next_file_def day_bounds distrib_left)
next
  case (3 x y)
  obtain n r where n: "month_at (x div 86400) = (n, r)" by fastforce
  obtain n' r' where n': "month_at (y div 86400) = (n', r')" by fastforce
  have "month_start n \<le> y div 86400" "y div 86400 < month_start n + month_days n"
    using 3 n month_at_holds [OF n] month_at_start [of n] by (simp_all add: file_start_def next_file_def day_bounds distrib_left)
  then have "n' = n" using month_at_holds [OF n'] month_start_unique [of n' "y div 86400" n] by simp
  then show ?case using 3 n n' month_at_holds [OF n] month_at_holds [OF n'] by (simp add: file_start_def)
next
  case (4 x)
  obtain n r where n: "month_at (x div 86400) = (n, r)" by fastforce
  have "month_start (n + 1) = month_start n + month_days n" by (rule month_start_next)
  then have a: "86400 * month_start n + 86400 * month_days n = 86400 * month_start (n + 1)" by simp
  show ?case using 4 n month_at_holds [OF n] month_at_start [of n] month_at_start [of "n + 1"]
    by (simp add: file_start_def next_file_def a)
qed

lemma calendar_days: "\<not> tr_monthly t \<Longrightarrow> calendar (file_start t) (next_file t)"
proof -
  assume t: "\<not> tr_monthly t"
  have f: "file_start t x = 86400 * (x div 86400)" "next_file t x = x + 86400" for x
    using t by (simp_all add: file_start_def next_file_def minus_mod_eq_mult_div)
  have day: "y div 86400 = q" if "86400 * q \<le> y" "y < 86400 * (q + 1)" for y q :: int
    using that day_bounds(1) [of q y] day_bounds(2) [of y "q + 1"] by simp
  show ?thesis
    using day_bounds(1) [of "x div 86400" x for x] day_bounds(2) [of x "x div 86400 + 1" for x] day
    by unfold_locales (simp_all add: f distrib_left)
qed

interpretation files: calendar "file_start t" "next_file t" for t
  using calendar_months calendar_days by blast

subsection \<open>One file\<close>

record day_file =
  fi_lines :: "point option list"
  fi_partial :: bool

type_synonym files = "(int, day_file) gomap"

definition no_file :: day_file where "no_file = \<lparr>fi_lines = [], fi_partial = False\<rparr>"

text \<open>What becomes of a write: all of it, a part of the line (all of it but the newline, or less), or nothing.\<close>

datatype written = Complete | Cut bool | Unwritten

definition append_point :: "written \<Rightarrow> point \<Rightarrow> day_file \<Rightarrow> day_file" where
  "append_point w p f =
     (case w of
        Complete \<Rightarrow> \<lparr>fi_lines = fi_lines f @ [Some p], fi_partial = False\<rparr>
      | Cut whole \<Rightarrow> \<lparr>fi_lines = fi_lines f @ [if whole then Some p else None], fi_partial = True\<rparr>
      | Unwritten \<Rightarrow> f)"

text \<open>The line goes to the end of its file, which is created if it is missing.\<close>

definition append_to :: "tier \<Rightarrow> written \<Rightarrow> point \<Rightarrow> files \<Rightarrow> files" where
  "append_to t w p fs =
     (let k = file_start t (pt_t p); f = (case map_of fs k of None \<Rightarrow> no_file | Some f \<Rightarrow> f)
      in put k (append_point w p f) fs)"

primrec parsed_lines :: "point option list \<Rightarrow> point list" where
  "parsed_lines [] = []"
| "parsed_lines (l # ls) = (case l of None \<Rightarrow> parsed_lines ls | Some p \<Rightarrow> p # parsed_lines ls)"

definition read_file :: "int \<Rightarrow> int \<Rightarrow> day_file \<Rightarrow> point list" where
  "read_file frm to f = filter (\<lambda>p. frm \<le> pt_t p \<and> pt_t p < to) (parsed_lines (fi_lines f))"

text \<open>\<open>readable\<close> tells which files the disk can read; a missing file is no data.\<close>

function read_from :: "tier \<Rightarrow> (int \<Rightarrow> bool) \<Rightarrow> files \<Rightarrow> int \<Rightarrow> int \<Rightarrow> int \<Rightarrow> point list option" where
  "read_from t readable fs frm to start =
     (if to \<le> start \<or> file_start t start \<noteq> start then Some []
      else case map_of fs start of
        None \<Rightarrow> read_from t readable fs frm to (next_file t start)
      | Some f \<Rightarrow>
          if \<not> readable start then None
          else map_option ((@) (read_file frm to f)) (read_from t readable fs frm to (next_file t start)))"
  by pat_completeness auto
termination
  by (relation "measure (\<lambda>(t, readable, fs, frm, to, start). nat (to - start))") (auto dest: files.next_greater)

declare read_from.simps [simp del]

definition read_tier :: "tier \<Rightarrow> (int \<Rightarrow> bool) \<Rightarrow> files \<Rightarrow> int \<Rightarrow> int \<Rightarrow> point list option" where
  "read_tier t readable fs frm to = read_from t readable fs frm to (file_start t frm)"

text \<open>\<open>files\<close> in the order of their names, \<open>newest\<close> and \<open>prune\<close>.\<close>

definition file_starts :: "files \<Rightarrow> int list" where "file_starts fs = sort (map fst fs)"

fun newest_of :: "(int \<Rightarrow> bool) \<Rightarrow> files \<Rightarrow> int list \<Rightarrow> int" where
  "newest_of readable fs [] = 0"
| "newest_of readable fs (k # ks) =
     (let ps = (case map_of fs k of None \<Rightarrow> [] | Some f \<Rightarrow> read_file 0 (2 ^ 62) f)
      in if \<not> readable k \<or> ps = [] then newest_of readable fs ks else fold (\<lambda>p l. max l (pt_t p)) ps 0)"

definition newest :: "(int \<Rightarrow> bool) \<Rightarrow> files \<Rightarrow> int" where
  "newest readable fs = newest_of readable fs (rev (file_starts fs))"

definition prune_tier :: "tier \<Rightarrow> (int \<Rightarrow> bool) \<Rightarrow> time \<Rightarrow> files \<Rightarrow> files" where
  "prune_tier t removable limit fs = filter (\<lambda>(k, f). \<not> (of_unix (next_file t k) \<le> limit \<and> removable k)) fs"

subsection \<open>What a tier holds\<close>

definition stored :: "files \<Rightarrow> point list" where
  "stored fs = concat (map (\<lambda>(k, f). parsed_lines (fi_lines f)) fs)"

text \<open>Every file starts where one may start, and holds well-formed points of its time on the grid of the tier.\<close>

definition tier_ok :: "tier \<Rightarrow> files \<Rightarrow> bool" where
  "tier_ok t fs \<longleftrightarrow> wf_map fs \<and> (\<forall>k f p. (k, f) \<in> set fs \<longrightarrow>
     file_start t k = k \<and> (Some p \<in> set (fi_lines f) \<longrightarrow> file_start t (pt_t p) = k \<and> wf_point p \<and> pt_t p mod tr_step t = 0))"

lemma parsed_append [simp]: "parsed_lines (ls @ ls') = parsed_lines ls @ parsed_lines ls'"
  by (induction ls) (auto split: option.split)

lemma in_parsed [simp]: "p \<in> set (parsed_lines ls) \<longleftrightarrow> Some p \<in> set ls"
  by (induction ls) (auto split: option.splits)

lemma in_stored: "p \<in> set (stored fs) \<longleftrightarrow> (\<exists>k f. (k, f) \<in> set fs \<and> Some p \<in> set (fi_lines f))"
  by (force simp: stored_def)

lemma stored_point:
  assumes "tier_ok t fs" "p \<in> set (stored fs)"
  shows "wf_point p" "pt_t p mod tr_step t = 0"
  using assms by (auto simp: in_stored tier_ok_def)

definition points_of :: "day_file option \<Rightarrow> point list" where
  "points_of x = (case x of None \<Rightarrow> [] | Some f \<Rightarrow> parsed_lines (fi_lines f))"

lemma mset_stored_put:
  "wf_map fs \<Longrightarrow> mset (stored (put k f fs)) + mset (points_of (map_of fs k)) = mset (stored fs) + mset (points_of (Some f))"
proof (induction fs)
  case (Cons x fs)
  obtain j g where "x = (j, g)" by fastforce
  then show ?case using Cons by (auto simp: stored_def points_of_def map_of_eq_None_iff)
qed (simp add: stored_def points_of_def)

lemma append_to_stored:
  assumes "wf_map fs"
  shows "mset (stored (append_to t w p fs)) =
    (if w = Complete \<or> w = Cut True then add_mset p (mset (stored fs)) else mset (stored fs))"
proof -
  let ?k = "file_start t (pt_t p)"
  show ?thesis
    using mset_stored_put [OF assms, of ?k "append_point w p (case map_of fs ?k of None \<Rightarrow> no_file | Some f \<Rightarrow> f)"]
    by (auto simp: append_to_def Let_def append_point_def points_of_def no_file_def split: option.splits written.splits)
qed

lemma append_to_ok:
  assumes "tier_ok t fs" "wf_point p" "pt_t p mod tr_step t = 0"
  shows "tier_ok t (append_to t w p fs)"
proof -
  let ?k = "file_start t (pt_t p)" and ?fs = "append_to t w p fs"
  let ?f = "append_point w p (case map_of fs ?k of None \<Rightarrow> no_file | Some f \<Rightarrow> f)"
  have fs: "?fs = put ?k ?f fs" by (simp add: append_to_def Let_def)
  have "Some q \<in> set (fi_lines ?f) \<Longrightarrow> q = p \<or> (\<exists>f. (?k, f) \<in> set fs \<and> Some q \<in> set (fi_lines f))" for q
    by (auto simp: append_point_def no_file_def dest: map_of_SomeD split: option.splits written.splits if_splits)
  note old = this
  have q: "file_start t (pt_t q) = ?k \<and> wf_point q \<and> pt_t q mod tr_step t = 0" if "Some q \<in> set (fi_lines ?f)" for q
    using old [OF that] assms unfolding tier_ok_def by blast
  show ?thesis
    unfolding tier_ok_def
  proof (intro conjI allI impI)
    show "wf_map ?fs" using assms(1) fs by (simp add: tier_ok_def)
    fix k f r assume "(k, f) \<in> set ?fs"
    then consider "k = ?k" "f = ?f" | "(k, f) \<in> set fs" using set_put_subset [of ?k ?f fs] fs by auto
    then show "file_start t k = k"
      "Some r \<in> set (fi_lines f) \<Longrightarrow> file_start t (pt_t r) = k"
      "Some r \<in> set (fi_lines f) \<Longrightarrow> wf_point r"
      "Some r \<in> set (fi_lines f) \<Longrightarrow> pt_t r mod tr_step t = 0"
      using q assms(1) files.start_idem [of t "pt_t p"] unfolding tier_ok_def by (cases; blast)+
  qed
qed

subsection \<open>Reading\<close>

lemma read_file_mset: "mset (read_file a b f) = filter_mset (\<lambda>p. a \<le> pt_t p \<and> pt_t p < b) (mset (points_of (Some f)))"
  by (simp add: read_file_def points_of_def)

text \<open>The points of the files from \<open>k\<close> on.\<close>

definition stored_from :: "int \<Rightarrow> files \<Rightarrow> point multiset" where
  "stored_from k fs = mset (stored (filter (\<lambda>(j, f). k \<le> j) fs))"

lemma stored_from_next:
  assumes "tier_ok t fs" "file_start t k = k"
  shows "stored_from k fs = mset (points_of (map_of fs k)) + stored_from (next_file t k) fs"
proof -
  have "mset (stored (filter (\<lambda>(j, f). k \<le> j) gs)) =
      mset (points_of (map_of gs k)) + mset (stored (filter (\<lambda>(j, f). next_file t k \<le> j) gs))"
    if "wf_map gs" "\<forall>(j, f) \<in> set gs. file_start t j = j" for gs
    using that
  proof (induction gs)
    case (Cons x gs)
    obtain j g where x: "x = (j, g)" by fastforce
    then have j: "file_start t j = j" "j \<notin> fst ` set gs" using Cons.prems by auto
    have "k \<le> j \<longleftrightarrow> j = k \<or> next_file t k \<le> j"
      using files.next_le [OF assms(2) j(1)] files.next_greater [OF assms(2)] by linarith
    moreover have "\<not> next_file t k \<le> k" using files.next_greater [OF assms(2)] by simp
    moreover have "map_of gs j = None" using j(2) by (simp add: map_of_eq_None_iff)
    ultimately show ?case using Cons x by (auto simp: stored_def points_of_def)
  qed (simp add: stored_def points_of_def)
  moreover have "wf_map fs" "\<forall>(j, f) \<in> set fs. file_start t j = j" using assms(1) by (auto simp: tier_ok_def)
  ultimately show ?thesis by (simp add: stored_from_def)
qed

lemma stored_from_late:
  assumes "tier_ok t fs" "to \<le> k"
  shows "filter_mset (\<lambda>p. a \<le> pt_t p \<and> pt_t p < to) (stored_from k fs) = {#}"
proof -
  have "k \<le> pt_t p" if p: "p \<in># stored_from k fs" for p
  proof -
    obtain j f where j: "(j, f) \<in> set fs" "k \<le> j" "Some p \<in> set (fi_lines f)"
      using p by (auto simp: stored_from_def in_stored)
    then have "file_start t (pt_t p) = j" using assms(1) by (auto simp: tier_ok_def)
    then show ?thesis using files.start_le [of t "pt_t p"] j(2) by simp
  qed
  then show ?thesis using assms(2) by force
qed

lemma read_from_exact:
  assumes "tier_ok t fs" "\<forall>k. readable k" "file_start t start = start"
  shows "\<exists>ps. read_from t readable fs a b start = Some ps \<and>
    mset ps = filter_mset (\<lambda>p. a \<le> pt_t p \<and> pt_t p < b) (stored_from start fs)"
  using assms
proof (induction t readable fs a b start rule: read_from.induct)
  case (1 t readable fs a b start)
  note e = read_from.simps [of t readable fs a b start]
  show ?case
  proof (cases "b \<le> start")
    case True
    then show ?thesis using stored_from_late [OF 1(3) True, of a] by (intro exI [of _ "[]"]) (simp only: e, simp)
  next
    case False
    have n: "file_start t (next_file t start) = next_file t start" using files.next_start [of t start] 1(5) by simp
    note split = stored_from_next [OF 1(3,5)]
    have r: "readable start" using 1(4) by blast
    show ?thesis
    proof (cases "map_of fs start")
      case None
      then obtain ps where "read_from t readable fs a b (next_file t start) = Some ps"
        "mset ps = filter_mset (\<lambda>p. a \<le> pt_t p \<and> pt_t p < b) (stored_from (next_file t start) fs)"
        using 1(1) [OF _ None 1(3,4) n] False 1(5) by auto
      then show ?thesis using None False 1(5) split by (simp add: e points_of_def)
    next
      case (Some f)
      then obtain ps where "read_from t readable fs a b (next_file t start) = Some ps"
        "mset ps = filter_mset (\<lambda>p. a \<le> pt_t p \<and> pt_t p < b) (stored_from (next_file t start) fs)"
        using 1(2) [OF _ Some _ 1(3,4) n] False r 1(5) by auto
      then show ?thesis using Some False r 1(5) split by (simp add: e read_file_mset)
    qed
  qed
qed

lemma stored_filter:
  assumes "\<And>k f p. (k, f) \<in> set fs \<Longrightarrow> \<not> Q k f \<Longrightarrow> Some p \<in> set (fi_lines f) \<Longrightarrow> \<not> P p"
  shows "filter_mset P (mset (stored (filter (\<lambda>(k, f). Q k f) fs))) = filter_mset P (mset (stored fs))"
  using assms
proof (induction fs)
  case (Cons x fs)
  obtain k f where x: "x = (k, f)" by fastforce
  have "\<not> Q k f \<Longrightarrow> filter_mset P (mset (parsed_lines (fi_lines f))) = {#}" using Cons.prems [of k f] x by simp
  moreover have "filter_mset P (mset (stored (filter (\<lambda>(k, f). Q k f) fs))) = filter_mset P (mset (stored fs))"
    by (rule Cons.IH) (use Cons.prems in force)
  ultimately show ?case using x by (simp add: stored_def)
qed simp

lemma read_tier_exact:
  assumes "tier_ok t fs" "\<forall>k. readable k"
  obtains ps where "read_tier t readable fs a b = Some ps"
    "mset ps = filter_mset (\<lambda>p. a \<le> pt_t p \<and> pt_t p < b) (mset (stored fs))"
proof -
  let ?P = "\<lambda>p. a \<le> pt_t p \<and> pt_t p < b"
  have "\<not> ?P p" if "(k, f) \<in> set fs" "\<not> file_start t a \<le> k" "Some p \<in> set (fi_lines f)" for k f p
  proof -
    have "file_start t (pt_t p) = k" using that assms(1) by (auto simp: tier_ok_def)
    then show ?thesis using that(2) files.start_mono [of a "pt_t p" t] by auto
  qed
  then have "filter_mset ?P (stored_from (file_start t a) fs) = filter_mset ?P (mset (stored fs))"
    unfolding stored_from_def by (rule stored_filter)
  moreover obtain ps where "read_from t readable fs a b (file_start t a) = Some ps"
    "mset ps = filter_mset ?P (stored_from (file_start t a) fs)"
    using read_from_exact [OF assms files.start_idem [of t a], of a b] by blast
  ultimately show thesis using that [of ps] by (simp add: read_tier_def)
qed

subsection \<open>The newest point and pruning\<close>

lemma fold_max:
  fixes l :: int
  shows "l \<le> fold (\<lambda>p l. max l (f p)) ps l" "\<forall>p \<in> set ps. f p \<le> fold (\<lambda>p l. max l (f p)) ps l"
    "fold (\<lambda>p l. max l (f p)) ps l = l \<or> (\<exists>p \<in> set ps. f p = fold (\<lambda>p l. max l (f p)) ps l)"
proof (induction ps arbitrary: l)
  case (Cons p ps)
  {
    case 1
    show ?case using Cons(1) [of "max l (f p)"] by simp
  next
    case 2
    show ?case using Cons(1,2) [of "max l (f p)"] by simp
  next
    case 3
    show ?case using Cons(3) [of "max l (f p)"] by (auto simp: max_def)
  }
qed simp_all

lemma newest_of_bounds:
  assumes "tier_ok t fs" "\<forall>k. readable k" "\<forall>p \<in> set (stored fs). 0 \<le> pt_t p \<and> pt_t p < 2 ^ 62"
  shows "sorted_wrt (>) ks \<Longrightarrow> \<forall>k f p. k \<in> set ks \<longrightarrow> map_of fs k = Some f \<longrightarrow> Some p \<in> set (fi_lines f) \<longrightarrow> pt_t p \<le> newest_of readable fs ks"
    and "newest_of readable fs ks = 0 \<or> (\<exists>p \<in> set (stored fs). pt_t p = newest_of readable fs ks)"
proof (induction ks)
  case (Cons k ks)
  let ?ps = "case map_of fs k of None \<Rightarrow> [] | Some f \<Rightarrow> read_file 0 (2 ^ 62) f"
  have ps: "Some p \<in> set (fi_lines f) \<Longrightarrow> map_of fs k = Some f \<Longrightarrow> p \<in> set ?ps" for p f
    using assms(3) [rule_format, of p] in_stored [of p fs] by (auto simp: read_file_def dest: map_of_SomeD)
  have st: "p \<in> set ?ps \<Longrightarrow> p \<in> set (stored fs) \<and> file_start t (pt_t p) = k" for p
    using assms(1) by (auto simp: in_stored read_file_def tier_ok_def dest: map_of_SomeD split: option.splits)
  {
    case 1
    show ?case
    proof (cases "?ps = []")
      case True
      then have "map_of fs k = Some f \<Longrightarrow> Some p \<in> set (fi_lines f) \<Longrightarrow> False" for f p using ps [of p f] by simp
      moreover have "newest_of readable fs (k # ks) = newest_of readable fs ks" using True by (simp add: Let_def)
      ultimately show ?thesis using Cons(1) 1 by auto
    next
      case False
      then obtain q where q: "q \<in> set ?ps" by (cases ?ps) auto
      define m where "m = fold (\<lambda>p l. max l (pt_t p)) ?ps 0"
      have m: "newest_of readable fs (k # ks) = m" using False assms(2) by (simp only: newest_of.simps Let_def m_def) simp
      have le: "pt_t q \<le> m" if "q \<in> set ?ps" for q
        unfolding m_def using fold_max(2) [where f = pt_t and ps = ?ps and l = 0] that by blast
      have "pt_t p \<le> m" if "j \<in> set ks" "map_of fs j = Some f" "Some p \<in> set (fi_lines f)" for j f p
      proof -
        have j: "j < k" "file_start t (pt_t p) = j" "file_start t j = j" "file_start t k = k"
          using 1 that assms(1) st [OF q] files.start_idem [of t "pt_t q"] by (auto simp: tier_ok_def dest: map_of_SomeD)
        then show ?thesis
          using files.next_le [OF j(3,4,1)] files.before_next [of "pt_t p" t] files.start_le [of t "pt_t q"] st [OF q] le [OF q]
          by simp
      qed
      moreover have "pt_t p \<le> m" if "map_of fs k = Some f" "Some p \<in> set (fi_lines f)" for f p
        by (rule le [OF ps [OF that(2,1)]])
      ultimately show ?thesis unfolding m by auto
    qed
  next
    case 2
    show ?case using Cons(2) st fold_max(3) [where f = pt_t and ps = ?ps and l = 0] by (auto simp: Let_def)
  }
qed simp_all

lemma newest_bounds:
  assumes "tier_ok t fs" "\<forall>k. readable k" "\<forall>p \<in> set (stored fs). 0 \<le> pt_t p \<and> pt_t p < 2 ^ 62"
  shows "\<forall>p \<in> set (stored fs). pt_t p \<le> newest readable fs"
    and "newest readable fs = 0 \<or> (\<exists>p \<in> set (stored fs). pt_t p = newest readable fs)"
proof -
  have wf: "wf_map fs" using assms(1) by (simp add: tier_ok_def)
  have "sorted_wrt (>) (rev (file_starts fs))"
    using wf strict_sorted_iff [of "file_starts fs"] by (simp add: file_starts_def sorted_wrt_rev)
  then have "map_of fs k = Some f \<Longrightarrow> Some p \<in> set (fi_lines f) \<Longrightarrow> pt_t p \<le> newest readable fs" for k f p
    using newest_of_bounds(1) [OF assms, of "rev (file_starts fs)"]
    by (force simp: newest_def file_starts_def dest: map_of_SomeD)
  then show "\<forall>p \<in> set (stored fs). pt_t p \<le> newest readable fs"
    using wf by (auto simp: in_stored)
  show "newest readable fs = 0 \<or> (\<exists>p \<in> set (stored fs). pt_t p = newest readable fs)"
    using newest_of_bounds(2) [OF assms] by (simp add: newest_def)
qed

lemma prune_tier_ok: "tier_ok t fs \<Longrightarrow> tier_ok t (prune_tier t removable limit fs)"
  by (auto simp: tier_ok_def prune_tier_def)

lemma prune_tier_stored: "set (stored (prune_tier t removable limit fs)) \<subseteq> set (stored fs)"
  unfolding in_stored subset_iff prune_tier_def by auto

text \<open>Pruning keeps what is not older than the limit.\<close>

lemma prune_tier_keeps:
  assumes "tier_ok t fs" "\<And>p. p \<in> set (stored fs) \<Longrightarrow> P p \<Longrightarrow> limit \<le> of_unix (pt_t p)"
  shows "filter_mset P (mset (stored (prune_tier t removable limit fs))) = filter_mset P (mset (stored fs))"
proof -
  have "\<not> P p" if "(k, f) \<in> set fs" "\<not> \<not> (of_unix (next_file t k) \<le> limit \<and> removable k)" "Some p \<in> set (fi_lines f)" for k f p
  proof
    assume "P p"
    moreover have "p \<in> set (stored fs)" using that by (auto simp: in_stored)
    ultimately have "of_unix (next_file t k) \<le> of_unix (pt_t p)" using that(2) assms(2) by force
    moreover have "file_start t (pt_t p) = k" using that assms(1) by (auto simp: tier_ok_def)
    ultimately show False using files.before_next [of "pt_t p" t] by (simp add: of_unix_def)
  qed
  then show ?thesis unfolding prune_tier_def by (rule stored_filter)
qed

end
