(* ===== verification/History.thy ===== *)
theory History
  imports Tiers Settings
begin

text \<open>
  Package \<open>history\<close>, \<open>history.go\<close>: the recorder of the statistics history.

  \<^item> \<open>recorder\<close> is the state of a \<open>Recorder\<close> and its two \<open>series\<close> on disk and in memory. \<open>add_minute\<close> and
    \<open>flush\<close> are \<open>addLocked\<close> and \<open>flushLocked\<close>, \<open>recover\<close> is \<open>recover\<close>, and \<open>start_recorder\<close>, \<open>record_minute\<close>,
    \<open>stop_recorder\<close> and \<open>prune_all\<close> are what \<open>Run\<close> calls. The samples, the retention, the time and what the disk does
    are arguments.
  \<^item> A crash is a start that follows anything but a stop: what was in memory is gone.

  The lemmas show that the hourly points are exactly the sums of the fine points of their hours, through every
  restart and crash.
\<close>

record retention =
  rt_detail :: duration
  rt_total :: duration
  rt_miners :: duration

text \<open>The retention from the settings, as \<open>main\<close> passes it.\<close>

definition retention_of :: "settings_values \<Rightarrow> retention" where
  "retention_of v = \<lparr>rt_detail = v_history_detail v, rt_total = v_history_retention v, rt_miners = v_history_miners v\<rparr>"

record series =
  se_fine :: tier
  se_coarse :: tier
  se_keep_fine :: "retention \<Rightarrow> duration"
  se_keep_coarse :: "retention \<Rightarrow> duration"
  se_cur :: point
  se_acc :: point
  se_fine_files :: files
  se_coarse_files :: files

definition no_point :: point where "no_point = empty_point 0"

definition new_totals :: "files \<Rightarrow> files \<Rightarrow> series" where
  "new_totals fine coarse = \<lparr>se_fine = minute_tier, se_coarse = hour_tier, se_keep_fine = rt_detail, se_keep_coarse = rt_total,
     se_cur = no_point, se_acc = no_point, se_fine_files = fine, se_coarse_files = coarse\<rparr>"

definition new_workers :: "files \<Rightarrow> files \<Rightarrow> series" where
  "new_workers fine coarse = \<lparr>se_fine = worker_detail_tier, se_coarse = worker_hour_tier, se_keep_fine = rt_detail,
     se_keep_coarse = rt_miners, se_cur = no_point, se_acc = no_point, se_fine_files = fine, se_coarse_files = coarse\<rparr>"

record recorder =
  re_last :: sample
  re_last_at :: time
  re_totals :: series
  re_workers :: series

text \<open>What the disk does: with a line of a tier, with reading and with removing a file.\<close>

record disk =
  di_write :: "tier \<Rightarrow> point \<Rightarrow> written"
  di_read :: "tier \<Rightarrow> int \<Rightarrow> bool"
  di_remove :: "tier \<Rightarrow> int \<Rightarrow> bool"

definition good_disk :: disk where
  "good_disk = \<lparr>di_write = (\<lambda>_ _. Complete), di_read = (\<lambda>_ _. True), di_remove = (\<lambda>_ _. True)\<rparr>"

definition write_fine :: "disk \<Rightarrow> point \<Rightarrow> series \<Rightarrow> series" where
  "write_fine d p s = s\<lparr>se_fine_files := append_to (se_fine s) (di_write d (se_fine s) p) p (se_fine_files s)\<rparr>"

definition write_coarse :: "disk \<Rightarrow> point \<Rightarrow> series \<Rightarrow> series" where
  "write_coarse d p s = s\<lparr>se_coarse_files := append_to (se_coarse s) (di_write d (se_coarse s) p) p (se_coarse_files s)\<rparr>"

subsection \<open>Recording\<close>

definition interval :: "tier \<Rightarrow> int \<Rightarrow> int" where
  "interval t x = x - go_mod x (tr_step t)"

text \<open>\<open>flushLocked\<close> in its three parts.\<close>

definition close_hour :: "disk \<Rightarrow> int \<Rightarrow> series \<Rightarrow> bool \<times> series" where
  "close_hour d ct s =
     (if 0 < pt_s (se_acc s) \<and> pt_t (se_acc s) \<noteq> ct
      then (True, (write_coarse d (se_acc s) s)\<lparr>se_acc := no_point\<rparr>) else (False, s))"

definition roll_up :: "int \<Rightarrow> series \<Rightarrow> series" where
  "roll_up ct s =
     (let a = (if pt_s (se_acc s) = 0 then empty_point ct else se_acc s)
      in s\<lparr>se_acc := add_point a (se_cur s), se_cur := no_point\<rparr>)"

definition end_hour :: "disk \<Rightarrow> int \<Rightarrow> series \<Rightarrow> bool \<times> series" where
  "end_hour d fin s =
     (if pt_t (se_acc s) + tr_step (se_coarse s) \<le> fin
      then (True, (write_coarse d (se_acc s) s)\<lparr>se_acc := no_point\<rparr>) else (False, s))"

definition flush :: "disk \<Rightarrow> int \<Rightarrow> series \<Rightarrow> bool \<times> series" where
  "flush d fin s =
     (let s1 = write_fine d (se_cur s) s; ct = interval (se_coarse s) (pt_t (se_cur s));
          (b1, s2) = close_hour d ct s1; (b2, s3) = end_hour d fin (roll_up ct s2)
      in (b1 \<or> b2, s3))"

definition add_minute :: "disk \<Rightarrow> point \<Rightarrow> int \<Rightarrow> series \<Rightarrow> bool \<times> series" where
  "add_minute d p fin s =
     (let ft = interval (se_fine s) (pt_t p);
          (b1, s1) = (if 0 < pt_s (se_cur s) \<and> pt_t (se_cur s) \<noteq> ft then flush d fin s else (False, s));
          c = (if pt_s (se_cur s1) = 0 then empty_point ft else se_cur s1);
          s2 = s1\<lparr>se_cur := add_point c p\<rparr>;
          (b2, s3) = (if pt_t (se_cur s2) + tr_step (se_fine s2) \<le> fin then flush d fin s2 else (False, s2))
      in (b1 \<or> b2, s3))"

text \<open>\<open>Duration.Round\<close> to seconds, of a positive duration.\<close>

definition round_seconds :: "duration \<Rightarrow> int" where
  "round_seconds x = (x + second div 2) div second"

definition record_locked :: "disk \<Rightarrow> time \<Rightarrow> sample \<Rightarrow> recorder \<Rightarrow> bool \<times> recorder" where
  "record_locked d now smp r =
     (if now \<le> re_last_at r then (False, r)
      else
        let t = unix (time_truncate (re_last_at r) minute);
            secs = round_seconds (time_sub now (re_last_at r));
            r1 = r\<lparr>re_last := smp, re_last_at := now\<rparr>
        in if secs \<le> 0 then (False, r1)
           else
             let p = (delta (re_last r) smp)\<lparr>pt_t := t, pt_s := secs\<rparr>;
                 w = (worker_delta (re_last r) smp secs)\<lparr>pt_t := t, pt_s := secs\<rparr>;
                 (b1, ts) = add_minute d p (unix now) (re_totals r1);
                 (b2, ws) = add_minute d w (unix now) (re_workers r1)
             in (b2 \<or> b1, r1\<lparr>re_totals := ts, re_workers := ws\<rparr>))"

definition prune_series :: "disk \<Rightarrow> retention \<Rightarrow> time \<Rightarrow> series \<Rightarrow> series" where
  "prune_series d ret now s =
     s\<lparr>se_fine_files := prune_tier (se_fine s) (di_remove d (se_fine s)) (now - se_keep_fine s ret) (se_fine_files s),
       se_coarse_files := prune_tier (se_coarse s) (di_remove d (se_coarse s)) (now - se_keep_coarse s ret) (se_coarse_files s)\<rparr>"

definition prune_all :: "disk \<Rightarrow> retention \<Rightarrow> time \<Rightarrow> recorder \<Rightarrow> recorder" where
  "prune_all d ret now r =
     r\<lparr>re_totals := prune_series d ret now (re_totals r), re_workers := prune_series d ret now (re_workers r)\<rparr>"

definition record_minute :: "disk \<Rightarrow> retention \<Rightarrow> time \<Rightarrow> sample \<Rightarrow> recorder \<Rightarrow> recorder" where
  "record_minute d ret now smp r =
     (let (hour_done, r') = record_locked d now smp r in if hour_done then prune_all d ret now r' else r')"

definition stop_series :: "disk \<Rightarrow> series \<Rightarrow> series" where
  "stop_series d s = (if 0 < pt_s (se_cur s) then (write_fine d (se_cur s) s)\<lparr>se_cur := no_point\<rparr> else s)"

definition stop_recorder :: "disk \<Rightarrow> time \<Rightarrow> sample \<Rightarrow> recorder \<Rightarrow> recorder" where
  "stop_recorder d now smp r =
     (let r' = snd (record_locked d now smp r)
      in r'\<lparr>re_totals := stop_series d (re_totals r'), re_workers := stop_series d (re_workers r')\<rparr>)"

subsection \<open>Starting\<close>

text \<open>The points of an hour, in the order they were read.\<close>

definition group_of :: "tier \<Rightarrow> point list \<Rightarrow> int \<Rightarrow> point" where
  "group_of t ps ct = fold (\<lambda>q p. add_point p q) (filter (\<lambda>p. interval t (pt_t p) = ct) ps) (empty_point ct)"

definition group_starts :: "tier \<Rightarrow> point list \<Rightarrow> int list" where
  "group_starts t ps = sort (remdups (map (\<lambda>p. interval t (pt_t p)) ps))"

text \<open>The loop over the hours: a complete one is written, unless the disk fails, the current one continues.\<close>

fun finish_hours :: "disk \<Rightarrow> int \<Rightarrow> point list \<Rightarrow> int list \<Rightarrow> series \<Rightarrow> series" where
  "finish_hours d now ps [] s = s"
| "finish_hours d now ps (ct # cts) s =
     (if now < ct + tr_step (se_coarse s) then finish_hours d now ps cts (s\<lparr>se_acc := group_of (se_coarse s) ps ct\<rparr>)
      else
        let g = group_of (se_coarse s) ps ct; s' = write_coarse d g s
        in if di_write d (se_coarse s) g = Complete then finish_hours d now ps cts s' else s')"

definition recover :: "disk \<Rightarrow> retention \<Rightarrow> time \<Rightarrow> series \<Rightarrow> series" where
  "recover d ret now s =
     (let a = unix (now - se_keep_fine s ret);
          newest_hour = newest (di_read d (se_coarse s)) (se_coarse_files s);
          a' = (if newest_hour \<noteq> 0 then max a (newest_hour + tr_step (se_coarse s)) else a)
      in case read_tier (se_fine s) (di_read d (se_fine s)) (se_fine_files s) a' (unix now + tr_step (se_fine s)) of
           None \<Rightarrow> s
         | Some ps \<Rightarrow> finish_hours d (unix now) ps (group_starts (se_coarse s) ps) s)"

text \<open>A new process: memory is empty, the files are those on disk.\<close>

definition fresh_series :: "series \<Rightarrow> series" where
  "fresh_series s = s\<lparr>se_cur := no_point, se_acc := no_point\<rparr>"

definition start_recorder :: "disk \<Rightarrow> retention \<Rightarrow> time \<Rightarrow> sample \<Rightarrow> recorder \<Rightarrow> recorder" where
  "start_recorder d ret now smp r =
     prune_all d ret now
       (r\<lparr>re_last := smp, re_last_at := now,
          re_totals := recover d ret now (fresh_series (re_totals r)),
          re_workers := recover d ret now (fresh_series (re_workers r))\<rparr>)"

subsection \<open>The grid of the intervals\<close>

lemma interval_nonneg: "0 \<le> x \<Longrightarrow> 0 < tr_step t \<Longrightarrow> interval t x = tr_step t * (x div tr_step t)"
  by (simp add: interval_def go_mod_nonneg_eq minus_mod_eq_mult_div)

lemma interval_grid:
  assumes "0 \<le> x" "0 < tr_step t"
  shows "interval t x \<le> x" "x < interval t x + tr_step t" "interval t x mod tr_step t = 0" "0 \<le> interval t x"
proof -
  have "x = tr_step t * (x div tr_step t) + x mod tr_step t" "0 \<le> x mod tr_step t" "x mod tr_step t < tr_step t" "0 \<le> x div tr_step t"
    using assms by (simp_all add: pos_imp_zdiv_nonneg_iff)
  then show "interval t x \<le> x" "x < interval t x + tr_step t" "interval t x mod tr_step t = 0" "0 \<le> interval t x"
    using assms by (simp_all only: interval_nonneg) simp_all
qed

text \<open>Multiples of a step are apart by the step.\<close>

lemma grid_apart: "a mod c = 0 \<Longrightarrow> b mod c = 0 \<Longrightarrow> 0 < c \<Longrightarrow> a < b \<Longrightarrow> a + c \<le> (b :: int)"
proof -
  assume "a mod c = 0" "b mod c = 0" "0 < c" "a < b"
  then obtain i j where ij: "a = c * i" "b = c * j" by (metis dvd_def mod_0_imp_dvd)
  then have "i + 1 \<le> j" using \<open>a < b\<close> \<open>0 < c\<close> by simp
  then have "c * (i + 1) \<le> c * j" using \<open>0 < c\<close> by simp
  then show ?thesis using ij by (simp add: distrib_left)
qed

lemma interval_below:
  assumes "0 \<le> x" "0 < tr_step t" "a mod tr_step t = 0" "a \<le> x"
  shows "a \<le> interval t x"
  using grid_apart [of "interval t x" "tr_step t" a] interval_grid [OF assms(1,2)] assms by force

lemma interval_mono: "0 \<le> x \<Longrightarrow> x \<le> y \<Longrightarrow> 0 < tr_step t \<Longrightarrow> interval t x \<le> interval t y"
  using interval_below [of y t "interval t x"] interval_grid [of x t] by simp

lemma interval_on_grid: "0 \<le> x \<Longrightarrow> 0 < tr_step t \<Longrightarrow> x mod tr_step t = 0 \<Longrightarrow> interval t x = x"
  by (simp add: interval_def go_mod_nonneg_eq)

lemma interval_coarser:
  assumes "0 \<le> x" "0 < tr_step f" "tr_step f dvd tr_step c" "0 < tr_step c"
  shows "interval c (interval f x) = interval c x"
proof -
  have "interval c x mod tr_step f = 0" using interval_grid(3) [of x c] assms by (metis dvd_trans mod_0_imp_dvd dvd_imp_mod_0)
  then have "interval c x \<le> interval f x" using interval_below [of x f] interval_grid(1) [of x c] assms by simp
  then have "interval c x \<le> interval c (interval f x)"
    using interval_below [of "interval f x" c "interval c x"] interval_grid [of x f] interval_grid [of x c] assms by simp
  moreover have "interval c (interval f x) \<le> interval c x"
    using interval_mono [of "interval f x" x c] interval_grid [of x f] assms by simp
  ultimately show ?thesis by simp
qed

subsection \<open>A series at rest\<close>

text \<open>Seconds on the grid; the two series of the recorder are such.\<close>

definition shape :: "series \<Rightarrow> bool" where
  "shape s \<longleftrightarrow> 0 < tr_step (se_fine s) \<and> tr_step (se_fine s) mod 60 = 0 \<and> tr_step (se_fine s) dvd tr_step (se_coarse s) \<and>
     0 < tr_step (se_coarse s)"

definition hour_of :: "series \<Rightarrow> point \<Rightarrow> int" where
  "hour_of s p = interval (se_coarse s) (pt_t p)"

text \<open>What is on disk at time \<open>l\<close>.\<close>

definition files_inv :: "int \<Rightarrow> series \<Rightarrow> bool" where
  "files_inv l s \<longleftrightarrow> shape s \<and> tier_ok (se_fine s) (se_fine_files s) \<and> tier_ok (se_coarse s) (se_coarse_files s) \<and>
     (\<forall>p \<in> set (stored (se_fine_files s)). 0 \<le> pt_t p \<and> pt_t p \<le> l \<and> 0 < pt_s p) \<and>
     (\<forall>p \<in> set (stored (se_coarse_files s)). 0 \<le> pt_t p \<and> pt_t p + tr_step (se_coarse s) \<le> l \<and> 0 < pt_s p)"

text \<open>With the hour being filled after every stored one, and the fine interval after it.\<close>

definition acc_ok :: "int \<Rightarrow> series \<Rightarrow> bool" where
  "acc_ok x s \<longleftrightarrow> 0 < pt_s (se_acc s) \<longrightarrow> 0 \<le> pt_t (se_acc s) \<and> pt_t (se_acc s) \<le> x \<and> pt_t (se_acc s) mod tr_step (se_coarse s) = 0 \<and>
     (\<forall>p \<in> set (stored (se_coarse_files s)). pt_t p + tr_step (se_coarse s) \<le> pt_t (se_acc s))"

definition cur_ok :: "int \<Rightarrow> series \<Rightarrow> bool" where
  "cur_ok l s \<longleftrightarrow> 0 < pt_s (se_cur s) \<longrightarrow> 0 \<le> pt_t (se_cur s) \<and> pt_t (se_cur s) \<le> l \<and> pt_t (se_cur s) mod tr_step (se_fine s) = 0 \<and>
     (\<forall>p \<in> set (stored (se_coarse_files s)). pt_t p + tr_step (se_coarse s) \<le> hour_of s (se_cur s)) \<and>
     acc_ok (hour_of s (se_cur s)) s"

definition series_inv :: "int \<Rightarrow> series \<Rightarrow> bool" where
  "series_inv l s \<longleftrightarrow> files_inv l s \<and> wf_point (se_acc s) \<and> wf_point (se_cur s) \<and> acc_ok l s \<and> cur_ok l s"

text \<open>The amounts of an hour: in the fine points on disk, and in the hourly ones with the hour in memory.\<close>

definition in_fine :: "(point \<Rightarrow> 'a::comm_monoid_add) \<Rightarrow> int \<Rightarrow> series \<Rightarrow> 'a" where
  "in_fine g h s = (\<Sum>p \<in># filter_mset (\<lambda>p. hour_of s p = h) (mset (stored (se_fine_files s))). g p)"

definition in_hours :: "(point \<Rightarrow> 'a::comm_monoid_add) \<Rightarrow> int \<Rightarrow> series \<Rightarrow> 'a" where
  "in_hours g h s = (\<Sum>p \<in># filter_mset (\<lambda>p. pt_t p = h) (mset (stored (se_coarse_files s))). g p)"

definition in_acc :: "(point \<Rightarrow> 'a::comm_monoid_add) \<Rightarrow> int \<Rightarrow> series \<Rightarrow> 'a" where
  "in_acc g h s = (if 0 < pt_s (se_acc s) \<and> pt_t (se_acc s) = h then g (se_acc s) else 0)"

definition in_cur :: "(point \<Rightarrow> 'a::comm_monoid_add) \<Rightarrow> int \<Rightarrow> series \<Rightarrow> 'a" where
  "in_cur g h s = (if 0 < pt_s (se_cur s) \<and> hour_of s (se_cur s) = h then g (se_cur s) else 0)"

lemma write_simps [simp]:
  "se_fine (write_fine d p s) = se_fine s" "se_coarse (write_fine d p s) = se_coarse s"
  "se_cur (write_fine d p s) = se_cur s" "se_acc (write_fine d p s) = se_acc s"
  "se_coarse_files (write_fine d p s) = se_coarse_files s"
  "se_fine (write_coarse d p s) = se_fine s" "se_coarse (write_coarse d p s) = se_coarse s"
  "se_cur (write_coarse d p s) = se_cur s" "se_acc (write_coarse d p s) = se_acc s"
  "se_fine_files (write_coarse d p s) = se_fine_files s"
  by (simp_all add: write_fine_def write_coarse_def)

lemma no_point_simps [simp]: "pt_s no_point = 0" "wf_point no_point" "pt_s (empty_point t) = 0" "pt_t (empty_point t) = t"
  by (simp_all add: no_point_def empty_point_def wf_point_def)

lemma hour_of_cong: "se_coarse s = se_coarse s' \<Longrightarrow> hour_of s = hour_of s'"
  by (simp add: hour_of_def fun_eq_iff)

lemma stored_write_fine:
  "tier_ok (se_fine s) (se_fine_files s) \<Longrightarrow>
     mset (stored (se_fine_files (write_fine good_disk p s))) = add_mset p (mset (stored (se_fine_files s)))"
  by (simp add: write_fine_def append_to_stored good_disk_def tier_ok_def)

lemma stored_write_coarse:
  "tier_ok (se_coarse s) (se_coarse_files s) \<Longrightarrow>
     mset (stored (se_coarse_files (write_coarse good_disk p s))) = add_mset p (mset (stored (se_coarse_files s)))"
  by (simp add: write_coarse_def append_to_stored good_disk_def tier_ok_def)

lemma set_write_fine:
  "tier_ok (se_fine s) (se_fine_files s) \<Longrightarrow> set (stored (se_fine_files (write_fine good_disk p s))) = insert p (set (stored (se_fine_files s)))"
  using stored_write_fine [of s p] by (metis set_mset_add_mset_insert set_mset_mset)

lemma set_write_coarse:
  "tier_ok (se_coarse s) (se_coarse_files s) \<Longrightarrow> set (stored (se_coarse_files (write_coarse good_disk p s))) = insert p (set (stored (se_coarse_files s)))"
  using stored_write_coarse [of s p] by (metis set_mset_add_mset_insert set_mset_mset)

lemma files_write_fine:
  assumes "files_inv l s" "wf_point p" "0 < pt_s p" "0 \<le> pt_t p" "pt_t p \<le> l" "pt_t p mod tr_step (se_fine s) = 0"
  shows "files_inv l (write_fine good_disk p s)"
  using assms set_write_fine [of s p] append_to_ok [of "se_fine s" "se_fine_files s" p]
  by (auto simp: files_inv_def shape_def write_fine_def)

lemma files_write_coarse:
  assumes "files_inv l s" "wf_point p" "0 \<le> pt_t p" "pt_t p + tr_step (se_coarse s) \<le> l" "pt_t p mod tr_step (se_coarse s) = 0" "0 < pt_s p"
  shows "files_inv l (write_coarse good_disk p s)"
  using assms set_write_coarse [of s p] append_to_ok [of "se_coarse s" "se_coarse_files s" p]
  by (auto simp: files_inv_def shape_def write_coarse_def)

lemma files_inv_mono: "files_inv l s \<Longrightarrow> l \<le> l' \<Longrightarrow> files_inv l' s"
  by (fastforce simp: files_inv_def)

lemma files_inv_memory [simp]:
  "files_inv l (s\<lparr>se_cur := c\<rparr>) = files_inv l s" "files_inv l (s\<lparr>se_acc := c\<rparr>) = files_inv l s"
  by (simp_all add: files_inv_def shape_def)

subsection \<open>Rolling up keeps the grid\<close>

text \<open>The hours on disk go up to the one being flushed.\<close>

definition hours_upto :: "int \<Rightarrow> series \<Rightarrow> bool" where
  "hours_upto x s \<longleftrightarrow> (\<forall>p \<in> set (stored (se_coarse_files s)). pt_t p \<le> x)"

lemma close_hour_inv:
  assumes "close_hour good_disk ct s = (b, s')" "files_inv l s" "wf_point (se_acc s)" "acc_ok ct s" "hours_upto ct s"
    "ct \<le> l" "ct mod tr_step (se_coarse s) = 0"
  shows "files_inv l s'" "wf_point (se_acc s')" "pt_s (se_acc s') = 0 \<or> pt_t (se_acc s') = ct" "acc_ok ct s'" "hours_upto ct s'"
    "se_cur s' = se_cur s" "se_fine s' = se_fine s" "se_coarse s' = se_coarse s" "se_fine_files s' = se_fine_files s"
proof -
  have "files_inv l s' \<and> wf_point (se_acc s') \<and> (pt_s (se_acc s') = 0 \<or> pt_t (se_acc s') = ct) \<and> acc_ok ct s' \<and> hours_upto ct s'"
  proof (cases "0 < pt_s (se_acc s) \<and> pt_t (se_acc s) \<noteq> ct")
    case True
    then have a: "0 \<le> pt_t (se_acc s)" "pt_t (se_acc s) < ct" "pt_t (se_acc s) mod tr_step (se_coarse s) = 0"
      using assms(4) by (auto simp: acc_ok_def)
    have "pt_t (se_acc s) + tr_step (se_coarse s) \<le> ct"
      using grid_apart [OF a(3) assms(7) _ a(2)] assms(2) by (simp add: files_inv_def shape_def)
    then have f: "files_inv l (write_coarse good_disk (se_acc s) s)" using files_write_coarse [OF assms(2,3) a(1) _ a(3)] assms(6) True by simp
    have "set (stored (se_coarse_files (write_coarse good_disk (se_acc s) s))) = insert (se_acc s) (set (stored (se_coarse_files s)))"
      using set_write_coarse [of s] assms(2) by (simp add: files_inv_def)
    moreover have "s' = (write_coarse good_disk (se_acc s) s)\<lparr>se_acc := no_point\<rparr>" using assms(1) True by (simp add: close_hour_def)
    ultimately show ?thesis using assms(5) a f by (auto simp: acc_ok_def hours_upto_def)
  next
    case False
    then have "pt_s (se_acc s) = 0 \<or> pt_t (se_acc s) = ct" using assms(3) by (auto simp: wf_point_def)
    then show ?thesis using assms False by (auto simp: close_hour_def)
  qed
  then show "files_inv l s'" "wf_point (se_acc s')" "pt_s (se_acc s') = 0 \<or> pt_t (se_acc s') = ct" "acc_ok ct s'" "hours_upto ct s'"
    by blast+
  show "se_cur s' = se_cur s" "se_fine s' = se_fine s" "se_coarse s' = se_coarse s" "se_fine_files s' = se_fine_files s"
    using assms(1) by (auto simp: close_hour_def split: if_splits)
qed

lemma roll_up_acc:
  assumes "wf_point (se_acc s)" "wf_point (se_cur s)" "pt_s (se_acc s) = 0 \<or> pt_t (se_acc s) = ct" "0 < pt_s (se_cur s)"
  shows "pt_t (se_acc (roll_up ct s)) = ct" "0 < pt_s (se_acc (roll_up ct s))" "wf_point (se_acc (roll_up ct s))"
    "se_cur (roll_up ct s) = no_point" "se_fine (roll_up ct s) = se_fine s" "se_coarse (roll_up ct s) = se_coarse s"
    "se_fine_files (roll_up ct s) = se_fine_files s" "se_coarse_files (roll_up ct s) = se_coarse_files s"
  using assms by (auto simp: roll_up_def Let_def wf_point_def [of "se_acc s"])

lemma end_hour_inv:
  assumes "end_hour good_disk l s = (b, s')" "files_inv l s" "wf_point (se_acc s)" "0 \<le> pt_t (se_acc s)"
    "pt_t (se_acc s) mod tr_step (se_coarse s) = 0" "hours_upto (pt_t (se_acc s)) s" "0 < pt_s (se_acc s)"
  shows "files_inv l s'" "wf_point (se_acc s')" "hours_upto (pt_t (se_acc s)) s'"
    "0 < pt_s (se_acc s') \<longrightarrow> l < pt_t (se_acc s) + tr_step (se_coarse s) \<and> pt_t (se_acc s') = pt_t (se_acc s)"
    "acc_ok (pt_t (se_acc s)) s'" "se_cur s' = se_cur s" "se_fine s' = se_fine s" "se_coarse s' = se_coarse s"
    "se_fine_files s' = se_fine_files s"
proof -
  let ?h = "pt_t (se_acc s)" and ?c = "tr_step (se_coarse s)"
  have "files_inv l s' \<and> wf_point (se_acc s') \<and> hours_upto ?h s' \<and> (0 < pt_s (se_acc s') \<longrightarrow> l < ?h + ?c \<and> pt_t (se_acc s') = ?h) \<and> acc_ok ?h s'"
  proof (cases "?h + ?c \<le> l")
    case True
    have "files_inv l (write_coarse good_disk (se_acc s) s)" by (rule files_write_coarse [OF assms(2,3,4) True assms(5,7)])
    moreover have "set (stored (se_coarse_files (write_coarse good_disk (se_acc s) s))) = insert (se_acc s) (set (stored (se_coarse_files s)))"
      using set_write_coarse [of s] assms(2) by (simp add: files_inv_def)
    moreover have "s' = (write_coarse good_disk (se_acc s) s)\<lparr>se_acc := no_point\<rparr>" using assms(1) True by (simp add: end_hour_def)
    ultimately show ?thesis using assms(6) by (auto simp: acc_ok_def hours_upto_def)
  next
    case False
    have s: "s' = s" using assms(1) False by (simp add: end_hour_def)
    have "pt_t p + ?c \<le> ?h" if "p \<in> set (stored (se_coarse_files s))" for p
    proof -
      have p: "pt_t p + ?c \<le> l" "pt_t p mod ?c = 0" "0 < ?c"
        using that assms(2) stored_point(2) [of "se_coarse s" "se_coarse_files s" p] by (auto simp: files_inv_def shape_def)
      then show ?thesis using grid_apart [OF p(2) assms(5) p(3)] False by simp
    qed
    then show ?thesis using assms(2-6) False s by (simp add: acc_ok_def)
  qed
  then show "files_inv l s'" "wf_point (se_acc s')" "hours_upto ?h s'"
    "0 < pt_s (se_acc s') \<longrightarrow> l < ?h + ?c \<and> pt_t (se_acc s') = ?h" "acc_ok ?h s'" by blast+
  show "se_cur s' = se_cur s" "se_fine s' = se_fine s" "se_coarse s' = se_coarse s" "se_fine_files s' = se_fine_files s"
    using assms(1) by (auto simp: end_hour_def split: if_splits)
qed

lemma flush_inv:
  assumes "flush good_disk l s = (b, s')" "files_inv l s" "wf_point (se_acc s)" "wf_point (se_cur s)" "0 < pt_s (se_cur s)"
    "0 \<le> pt_t (se_cur s)" "pt_t (se_cur s) \<le> l" "pt_t (se_cur s) mod tr_step (se_fine s) = 0"
    "acc_ok (hour_of s (se_cur s)) s" "hours_upto (hour_of s (se_cur s)) s"
  shows "files_inv l s'" "wf_point (se_acc s')" "se_cur s' = no_point" "hours_upto (hour_of s (se_cur s)) s'"
    "acc_ok (hour_of s (se_cur s)) s'" "0 < pt_s (se_acc s') \<longrightarrow> l < hour_of s (se_cur s) + tr_step (se_coarse s)"
    "se_fine s' = se_fine s" "se_coarse s' = se_coarse s"
proof -
  let ?h = "hour_of s (se_cur s)" and ?s1 = "write_fine good_disk (se_cur s) s"
  have c: "0 < tr_step (se_coarse s)" using assms(2) by (simp add: files_inv_def shape_def)
  have h: "?h \<le> l" "?h mod tr_step (se_coarse s) = 0" "0 \<le> ?h"
    using interval_grid [OF assms(6) c] assms(7) by (simp_all add: hour_of_def)
  have f: "files_inv l ?s1" by (rule files_write_fine [OF assms(2,4,5,6,7,8)])
  obtain b1 s2 where 2: "close_hour good_disk ?h ?s1 = (b1, s2)" by fastforce
  note close = close_hour_inv [OF 2 f, simplified, OF assms(3) _ _ h(1) h(2)]
  have pre: "acc_ok ?h ?s1" "hours_upto ?h ?s1" using assms(9,10) by (simp_all add: acc_ok_def hours_upto_def)
  note close = close [OF pre]
  let ?s3 = "roll_up ?h s2"
  note roll = roll_up_acc [OF close(2) _ close(3), unfolded close(6-8), OF assms(4,5)]
  obtain b2 s4 where 4: "end_hour good_disk l ?s3 = (b2, s4)" by fastforce
  have s4: "s' = s4" using assms(1) 2 4 by (simp add: flush_def Let_def hour_of_def)
  have "files_inv l ?s3" using close(1) by (simp add: roll_up_def Let_def)
  moreover have "hours_upto ?h ?s3" using close(5) roll(8) by (simp add: hours_upto_def)
  ultimately have e: "files_inv l s4" "wf_point (se_acc s4)" "hours_upto ?h s4" "0 < pt_s (se_acc s4) \<longrightarrow> l < ?h + tr_step (se_coarse s)"
    "acc_ok ?h s4" "se_cur s4 = se_cur ?s3" "se_fine s4 = se_fine ?s3" "se_coarse s4 = se_coarse ?s3"
    using end_hour_inv [OF 4] roll h by simp_all
  show "files_inv l s'" "wf_point (se_acc s')" "se_cur s' = no_point" "hours_upto ?h s'" "acc_ok ?h s'"
    "0 < pt_s (se_acc s') \<longrightarrow> l < ?h + tr_step (se_coarse s)" "se_fine s' = se_fine s" "se_coarse s' = se_coarse s"
    using e roll by (simp_all add: s4)
qed

subsection \<open>Rolling up keeps the amounts\<close>

lemma in_fine_cong: "se_coarse s = se_coarse s' \<Longrightarrow> se_fine_files s = se_fine_files s' \<Longrightarrow> in_fine g h s = in_fine g h s'"
  by (simp add: in_fine_def hour_of_def)

lemma in_fine_write:
  "tier_ok (se_fine s) (se_fine_files s) \<Longrightarrow>
     in_fine g h (write_fine good_disk p s) = in_fine g h s + (if hour_of s p = h then g p else 0)"
  by (simp add: in_fine_def stored_write_fine hour_of_def add.commute)

lemma in_hours_write:
  "tier_ok (se_coarse s) (se_coarse_files s) \<Longrightarrow>
     in_hours g h (write_coarse good_disk p s) = in_hours g h s + (if pt_t p = h then g p else 0)"
  by (simp add: in_hours_def stored_write_coarse add.commute)

context amount
begin

abbreviation balance :: "int \<Rightarrow> series \<Rightarrow> bool" where
  "balance h s \<equiv> in_fine amount h s = in_hours amount h s + in_acc amount h s"

lemma close_hour_amounts:
  assumes "close_hour good_disk ct s = (b, s')" "tier_ok (se_coarse s) (se_coarse_files s)"
  shows "in_hours amount h s' + in_acc amount h s' = in_hours amount h s + in_acc amount h s" "in_fine amount h s' = in_fine amount h s"
  using assms in_hours_write [of s amount h "se_acc s"]
  by (auto simp: close_hour_def in_acc_def in_hours_def in_fine_def hour_of_def split: if_splits)

lemma roll_up_amounts:
  assumes "wf_point (se_acc s)" "wf_point (se_cur s)" "pt_s (se_acc s) = 0 \<or> pt_t (se_acc s) = ct" "0 < pt_s (se_cur s)"
  shows "in_acc amount h (roll_up ct s) = in_acc amount h s + (if ct = h then amount (se_cur s) else 0)"
    "in_hours amount h (roll_up ct s) = in_hours amount h s" "in_fine amount h (roll_up ct s) = in_fine amount h s"
  using assms roll_up_acc [OF assms] amount_add amount_empty
  by (auto simp: roll_up_def in_acc_def in_hours_def in_fine_def hour_of_def Let_def wf_point_def [of "se_acc s"])

lemma end_hour_amounts:
  assumes "end_hour good_disk l s = (b, s')" "tier_ok (se_coarse s) (se_coarse_files s)" "0 < pt_s (se_acc s)"
  shows "in_hours amount h s' + in_acc amount h s' = in_hours amount h s + in_acc amount h s" "in_fine amount h s' = in_fine amount h s"
  using assms in_hours_write [of s amount h "se_acc s"]
  by (auto simp: end_hour_def in_acc_def in_hours_def in_fine_def hour_of_def split: if_splits)

lemma flush_balance:
  assumes "flush good_disk l s = (b, s')" "files_inv l s" "wf_point (se_acc s)" "wf_point (se_cur s)" "0 < pt_s (se_cur s)"
    "0 \<le> pt_t (se_cur s)" "pt_t (se_cur s) \<le> l" "pt_t (se_cur s) mod tr_step (se_fine s) = 0"
    "acc_ok (hour_of s (se_cur s)) s" "hours_upto (hour_of s (se_cur s)) s" "balance h s"
  shows "balance h s'"
proof -
  let ?h = "hour_of s (se_cur s)" and ?s1 = "write_fine good_disk (se_cur s) s"
  have c: "0 < tr_step (se_coarse s)" using assms(2) by (simp add: files_inv_def shape_def)
  have hh: "?h \<le> l" "?h mod tr_step (se_coarse s) = 0"
    using interval_grid [OF assms(6) c] assms(7) by (simp_all add: hour_of_def)
  have f: "files_inv l ?s1" by (rule files_write_fine [OF assms(2,4,5,6,7,8)])
  obtain b1 s2 where 2: "close_hour good_disk ?h ?s1 = (b1, s2)" by fastforce
  have pre: "acc_ok ?h ?s1" "hours_upto ?h ?s1" using assms(9,10) by (simp_all add: acc_ok_def hours_upto_def)
  note close = close_hour_inv [OF 2 f _ pre hh(1), simplified, OF assms(3) hh(2)]
  let ?s3 = "roll_up ?h s2"
  note roll = roll_up_acc [OF close(2) _ close(3), unfolded close(6-8), OF assms(4,5)]
    and amounts = roll_up_amounts [OF close(2) _ close(3), unfolded close(6-8), OF assms(4,5)]
  obtain b2 s4 where 4: "end_hour good_disk l ?s3 = (b2, s4)" by fastforce
  have s4: "s' = s4" using assms(1) 2 4 by (simp add: flush_def Let_def hour_of_def)
  have t: "tier_ok (se_coarse s) (se_coarse_files s)" "tier_ok (se_fine s) (se_fine_files s)"
    "tier_ok (se_coarse ?s3) (se_coarse_files ?s3)"
    using assms(2) close(1,8) roll(6,8) by (simp_all add: files_inv_def)
  have w: "in_hours amount h ?s1 = in_hours amount h s" "in_acc amount h ?s1 = in_acc amount h s"
    by (simp_all add: in_hours_def in_acc_def)
  show ?thesis
    using close_hour_amounts [OF 2, of h] amounts [of h] end_hour_amounts [OF 4 t(3) roll(2), of h]
      in_fine_write [OF t(2), of amount h "se_cur s"] assms(11) t(1) w s4 by (simp add: ac_simps)
qed

end

subsection \<open>A minute\<close>

lemma minute_of_time: "unix (time_truncate x minute) = interval minute_tier (unix x)" if "0 \<le> x"
proof -
  have "(x - zero_time) mod minute = x mod minute"
    using mod_mult_self1 [of x 1035593280 minute] by (simp add: zero_time_def)
  then have "time_truncate x minute = minute * (x div minute)" by (simp add: time_truncate_def minus_mod_eq_mult_div)
  moreover have "minute * (x div minute) div second = 60 * (x div minute)"
  proof -
    have "minute * (x div minute) = (60 * (x div minute)) * second" by simp
    then show ?thesis by (simp only: nonzero_mult_div_cancel_right)
  qed
  moreover have "x div minute = unix x div 60" using zdiv_zmult2_eq [of 60 x second] by (simp add: unix_def)
  moreover have "0 \<le> unix x" using that by (simp add: unix_def pos_imp_zdiv_nonneg_iff)
  ultimately show ?thesis by (simp add: unix_def interval_nonneg minute_tier_def)
qed

lemma acc_ok_mono: "acc_ok x s \<Longrightarrow> x \<le> y \<Longrightarrow> acc_ok y s"
  by (auto simp: acc_ok_def)

lemma hours_upto_mono: "hours_upto x s \<Longrightarrow> x \<le> y \<Longrightarrow> hours_upto y s"
  by (auto simp: hours_upto_def)

text \<open>Before a minute is added: everything in memory fits the fine interval that starts at \<open>ft\<close>.\<close>

definition ready :: "int \<Rightarrow> int \<Rightarrow> series \<Rightarrow> bool" where
  "ready l ft s \<longleftrightarrow> files_inv l s \<and> wf_point (se_acc s) \<and> wf_point (se_cur s) \<and>
     acc_ok (interval (se_coarse s) ft) s \<and> hours_upto (interval (se_coarse s) ft) s \<and>
     (pt_s (se_cur s) = 0 \<or> pt_t (se_cur s) = ft)"

lemma ready_rest:
  assumes inv: "series_inv l0 s" and l: "0 \<le> l0" "l0 \<le> l" and cur: "pt_s (se_cur s) = 0 \<or> pt_t (se_cur s) = interval (se_fine s) l0"
  shows "ready l (interval (se_fine s) l0) s"
proof -
  let ?h = "interval (se_coarse s) l0"
  have f: "files_inv l s" using inv l(2) files_inv_mono by (auto simp: series_inv_def)
  have sh: "0 < tr_step (se_fine s)" "tr_step (se_fine s) dvd tr_step (se_coarse s)" "0 < tr_step (se_coarse s)"
    using inv by (simp_all add: series_inv_def files_inv_def shape_def)
  have e: "interval (se_coarse s) (interval (se_fine s) l0) = ?h" by (rule interval_coarser [OF l(1) sh])
  have below: "a \<le> ?h" if "a \<le> l0" "a mod tr_step (se_coarse s) = 0" for a
    using interval_below [OF l(1) sh(3) that(2,1)] .
  have "hours_upto ?h s"
    using inv sh(3) stored_point(2) [of "se_coarse s" "se_coarse_files s"] below
    by (fastforce simp: hours_upto_def series_inv_def files_inv_def)
  moreover have "acc_ok ?h s" using inv below by (auto simp: series_inv_def acc_ok_def)
  ultimately show ?thesis using f e inv cur by (simp add: ready_def series_inv_def)
qed

lemma ready_flushed:
  assumes "flush good_disk l s = (b, s')" "files_inv l s" "wf_point (se_acc s)" "wf_point (se_cur s)" "0 < pt_s (se_cur s)"
    "0 \<le> pt_t (se_cur s)" "pt_t (se_cur s) \<le> l" "pt_t (se_cur s) mod tr_step (se_fine s) = 0"
    "acc_ok (hour_of s (se_cur s)) s" "hours_upto (hour_of s (se_cur s)) s" "pt_t (se_cur s) \<le> ft"
  shows "ready l ft s'" "se_fine s' = se_fine s" "se_coarse s' = se_coarse s"
proof -
  note f = flush_inv [OF assms(1-10)]
  have "hour_of s (se_cur s) \<le> interval (se_coarse s) ft"
    using interval_mono [OF assms(6,11), of "se_coarse s"] assms(2) by (simp add: hour_of_def files_inv_def shape_def)
  then show "ready l ft s'" "se_fine s' = se_fine s" "se_coarse s' = se_coarse s"
    using f acc_ok_mono hours_upto_mono by (auto simp: ready_def)
qed

context amount
begin

text \<open>The second half of \<open>addLocked\<close>.\<close>

lemma fill_minute:
  assumes r: "ready l ft s" and ft: "0 \<le> ft" "ft \<le> l" "ft mod tr_step (se_fine s) = 0"
    and p: "0 < pt_s p" "wf_point p" and bal: "balance h s"
    and s2: "s2 = s\<lparr>se_cur := add_point (if pt_s (se_cur s) = 0 then empty_point ft else se_cur s) p\<rparr>"
    and s3: "(if pt_t (se_cur s2) + tr_step (se_fine s2) \<le> l then flush good_disk l s2 else (False, s2)) = (b, s3)"
  shows "series_inv l s3 \<and> balance h s3 \<and> se_fine s3 = se_fine s \<and> se_coarse s3 = se_coarse s"
proof -
  let ?h = "interval (se_coarse s) ft"
  have c: "pt_t (se_cur s2) = ft" "0 < pt_s (se_cur s2)" "wf_point (se_cur s2)" "se_acc s2 = se_acc s" "se_fine s2 = se_fine s"
    "se_coarse s2 = se_coarse s" "se_coarse_files s2 = se_coarse_files s" "se_fine_files s2 = se_fine_files s"
    using r p s2 by (auto simp: ready_def wf_point_def [of "se_cur s"])
  have f: "files_inv l s2" using r s2 by (simp add: ready_def)
  have sh: "0 < tr_step (se_fine s)" "tr_step (se_fine s) dvd tr_step (se_coarse s)" "0 < tr_step (se_coarse s)"
    using r by (simp_all add: ready_def files_inv_def shape_def)
  have h: "hour_of s2 (se_cur s2) = ?h" by (simp add: hour_of_def c)
  have a: "acc_ok ?h s2" "hours_upto ?h s2" "wf_point (se_acc s2)" using r c by (auto simp: ready_def acc_ok_def hours_upto_def)
  have hh: "?h \<le> ft" "?h mod tr_step (se_coarse s) = 0" "0 \<le> ?h" "ft < ?h + tr_step (se_coarse s)" using interval_grid [OF ft(1) sh(3)] by auto
  have bal2: "balance h s2" using bal c by (simp add: in_fine_def in_hours_def in_acc_def hour_of_def)
  show ?thesis
  proof (cases "ft + tr_step (se_fine s) \<le> l")
    case True
    then have fl: "flush good_disk l s2 = (b, s3)" using s3 c by simp
    note args = f a(3) c(3,2) _ _ _ a(1,2) [folded h]
    note i = flush_inv [OF fl f a(3) c(3,2), unfolded c(1,5) h, OF ft a(1,2)]
      and bl = flush_balance [OF fl f a(3) c(3,2), unfolded c(1,5) h, OF ft a(1,2) bal2]
    have "acc_ok l s3" using i(5) hh(1) ft(2) by (auto intro: acc_ok_mono)
    then show ?thesis using i bl c by (simp add: series_inv_def cur_ok_def)
  next
    case False
    then have s3: "s3 = s2" using s3 c by simp
    have "?h + tr_step (se_coarse s) > l"
    proof -
      have "tr_step (se_fine s) dvd ?h + tr_step (se_coarse s)" using dvd_trans [OF sh(2)] hh(2) sh(2) by (simp add: dvd_add mod_0_imp_dvd)
      then have "(?h + tr_step (se_coarse s)) mod tr_step (se_fine s) = 0" by (rule dvd_imp_mod_0)
      then show ?thesis using grid_apart [OF ft(3) _ sh(1) hh(4)] False by simp
    qed
    then have "pt_t q + tr_step (se_coarse s) \<le> ?h" if q: "q \<in> set (stored (se_coarse_files s2))" for q
      using grid_apart [OF _ hh(2) sh(3), of "pt_t q"] f q stored_point(2) [of "se_coarse s2" "se_coarse_files s2" q] c(6)
      by (force simp: files_inv_def)
    then have "cur_ok l s2" using c ft a h by (simp add: cur_ok_def)
    moreover have "acc_ok l s2" using a(1) hh(1) ft(2) by (auto intro: acc_ok_mono)
    ultimately show ?thesis using s3 c f a bal2 by (simp add: series_inv_def)
  qed
qed

lemma add_minute_inv:
  assumes add: "add_minute good_disk p l s = (b, s')" and inv: "series_inv l0 s" and l: "0 \<le> l0" "l0 \<le> l"
    and p: "pt_t p = interval minute_tier l0" "0 < pt_s p" "wf_point p" and bal: "balance h s"
  shows "series_inv l s' \<and> balance h s' \<and> se_fine s' = se_fine s \<and> se_coarse s' = se_coarse s"
proof -
  let ?ft = "interval (se_fine s) (pt_t p)"
  have sh: "0 < tr_step (se_fine s)" "tr_step minute_tier dvd tr_step (se_fine s)"
    using inv by (auto simp: series_inv_def files_inv_def shape_def minute_tier_def)
  have ft: "?ft = interval (se_fine s) l0"
    using interval_coarser [OF l(1) _ sh(2,1)] p(1) by (simp add: minute_tier_def)
  have g: "?ft \<le> l0" "0 \<le> ?ft" "?ft mod tr_step (se_fine s) = 0" using interval_grid [OF l(1) sh(1)] ft by auto
  obtain b1 s1 where 1: "(if 0 < pt_s (se_cur s) \<and> pt_t (se_cur s) \<noteq> ?ft then flush good_disk l s else (False, s)) = (b1, s1)" by fastforce
  obtain b2 s3 where 3: "(let s2 = s1\<lparr>se_cur := add_point (if pt_s (se_cur s1) = 0 then empty_point ?ft else se_cur s1) p\<rparr>
      in if pt_t (se_cur s2) + tr_step (se_fine s2) \<le> l then flush good_disk l s2 else (False, s2)) = (b2, s3)" by fastforce
  have s': "s' = s3" using add 1 3 by (simp add: add_minute_def Let_def split: prod.splits)
  have "ready l ?ft s1 \<and> balance h s1 \<and> se_fine s1 = se_fine s \<and> se_coarse s1 = se_coarse s"
  proof (cases "0 < pt_s (se_cur s) \<and> pt_t (se_cur s) \<noteq> ?ft")
    case True
    have c: "0 \<le> pt_t (se_cur s)" "pt_t (se_cur s) \<le> l0" "pt_t (se_cur s) mod tr_step (se_fine s) = 0"
      "acc_ok (hour_of s (se_cur s)) s" "wf_point (se_acc s)" "wf_point (se_cur s)" "0 < tr_step (se_coarse s)"
      "\<forall>q \<in> set (stored (se_coarse_files s)). pt_t q + tr_step (se_coarse s) \<le> hour_of s (se_cur s)"
      using True inv by (simp_all add: series_inv_def cur_ok_def files_inv_def shape_def)
    have u: "hours_upto (hour_of s (se_cur s)) s" using c(7,8) by (force simp: hours_upto_def)
    have f: "files_inv l s" using inv files_inv_mono [OF _ l(2)] by (simp add: series_inv_def)
    have "pt_t (se_cur s) \<le> ?ft" using interval_below [OF l(1) sh(1) c(3,2)] ft by simp
    moreover have "flush good_disk l s = (b1, s1)" using 1 True by simp
    moreover have "pt_t (se_cur s) \<le> l" using c(2) l(2) by simp
    ultimately show ?thesis
      using ready_flushed [OF _ f c(5,6) _ c(1) _ c(3,4) u] flush_balance [OF _ f c(5,6) _ c(1) _ c(3,4) u bal] True by blast
  next
    case False
    have "pt_s (se_cur s) = 0 \<or> pt_t (se_cur s) = ?ft" using False inv by (auto simp: series_inv_def wf_point_def)
    then show ?thesis using ready_rest [OF inv l] False 1 bal ft by auto
  qed
  then show ?thesis using fill_minute [OF _ g(2) _ _ p(2,3), of l s1 h _ b2 s3] 3 g l(2) s' by (auto simp: Let_def)
qed

end

subsection \<open>The hours of a start\<close>

lemma group_starts_set: "set (group_starts t ps) = (\<lambda>p. interval t (pt_t p)) ` set ps"
  by (simp add: group_starts_def)

lemma finish_hours_files:
  "\<forall>ct \<in> set cts. wf_point (group_of (se_coarse s) ps ct) \<and> pt_t (group_of (se_coarse s) ps ct) = ct \<and>
      ct mod tr_step (se_coarse s) = 0 \<Longrightarrow>
   tier_ok (se_coarse s) (se_coarse_files s) \<Longrightarrow> finish_hours good_disk l ps cts s = s' \<Longrightarrow>
     tier_ok (se_coarse s) (se_coarse_files s') \<and>
     mset (stored (se_coarse_files s')) =
       mset (map (group_of (se_coarse s) ps) (filter (\<lambda>ct. ct + tr_step (se_coarse s) \<le> l) cts)) + mset (stored (se_coarse_files s)) \<and>
     se_acc s' = (if filter (\<lambda>ct. l < ct + tr_step (se_coarse s)) cts = [] then se_acc s
       else group_of (se_coarse s) ps (last (filter (\<lambda>ct. l < ct + tr_step (se_coarse s)) cts))) \<and>
     se_fine s' = se_fine s \<and> se_coarse s' = se_coarse s \<and> se_cur s' = se_cur s \<and> se_fine_files s' = se_fine_files s \<and>
     se_keep_fine s' = se_keep_fine s \<and> se_keep_coarse s' = se_keep_coarse s"
proof (induction cts arbitrary: s)
  case (Cons ct cts)
  let ?c = "tr_step (se_coarse s)" and ?g = "group_of (se_coarse s) ps"
  let ?s = "if l < ct + ?c then s\<lparr>se_acc := ?g ct\<rparr> else write_coarse good_disk (?g ct) s"
  have e: "finish_hours good_disk l ps (ct # cts) s = finish_hours good_disk l ps cts ?s"
    by (simp add: Let_def good_disk_def)
  have c: "se_coarse ?s = se_coarse s" "se_fine ?s = se_fine s" "se_cur ?s = se_cur s" "se_fine_files ?s = se_fine_files s"
    "se_keep_fine ?s = se_keep_fine s" "se_keep_coarse ?s = se_keep_coarse s" by (simp_all add: write_coarse_def)
  have t: "tier_ok (se_coarse ?s) (se_coarse_files ?s)"
    using append_to_ok [OF Cons.prems(2), of "?g ct"] Cons.prems(1,2) by (simp add: write_coarse_def)
  have h: "\<forall>ct \<in> set cts. wf_point (group_of (se_coarse ?s) ps ct) \<and> pt_t (group_of (se_coarse ?s) ps ct) = ct \<and>
      ct mod tr_step (se_coarse ?s) = 0" using Cons.prems(1) c by simp
  have IH: "finish_hours good_disk l ps cts ?s = s'" using Cons.prems(3) e by simp
  have "mset (stored (se_coarse_files ?s)) = (if l < ct + ?c then {#} else {#?g ct#}) + mset (stored (se_coarse_files s))"
    using stored_write_coarse [OF Cons.prems(2), of "?g ct"] by simp
  moreover have "se_acc ?s = (if l < ct + ?c then ?g ct else se_acc s)" by simp
  ultimately show ?case using Cons.IH [OF h t IH, unfolded c] by auto
qed simp

lemma pt_t_fold [simp]: "pt_t (fold (\<lambda>q p. add_point p q) qs p) = pt_t p"
  by (induction qs arbitrary: p) simp_all

lemma pick_group:
  "distinct xs \<Longrightarrow> (\<And>x. pt_t (g x) = x) \<Longrightarrow>
     filter_mset (\<lambda>p. pt_t p = h) (mset (map g xs)) = (if h \<in> set xs then {#g h#} else {#})"
  by (induction xs) auto

context amount
begin

lemma group_amount:
  assumes "\<forall>p \<in> set ps. wf_point p \<and> 0 < pt_s p"
  shows "wf_point (group_of t ps ct)" "pt_t (group_of t ps ct) = ct"
    "amount (group_of t ps ct) = (\<Sum>p \<in># filter_mset (\<lambda>p. interval t (pt_t p) = ct) (mset ps). amount p)"
proof -
  have w: "\<forall>q \<in> set (filter (\<lambda>p. interval t (pt_t p) = ct) ps). wf_point q" using assms by simp
  show "wf_point (group_of t ps ct)" "amount (group_of t ps ct) = (\<Sum>p \<in># filter_mset (\<lambda>p. interval t (pt_t p) = ct) (mset ps). amount p)"
    using amount_fold [OF wf_empty_point w, of ct]
    by (simp_all add: group_of_def amount_empty flip: mset_filter mset_map sum_mset_sum_list)
  show "pt_t (group_of t ps ct) = ct" by (simp add: group_of_def)
qed

definition disk_ok :: "int \<Rightarrow> int \<Rightarrow> series \<Rightarrow> bool" where
  "disk_ok h l s \<longleftrightarrow> files_inv l s \<and> ((\<exists>p \<in> set (stored (se_coarse_files s)). h \<le> pt_t p) \<longrightarrow> in_fine amount h s = in_hours amount h s)"

end

lemma fold_positive:
  "\<forall>q \<in> set qs. 0 < pt_s q \<Longrightarrow> 0 < pt_s p \<or> qs \<noteq> [] \<and> pt_s p = 0 \<Longrightarrow> 0 < pt_s (fold (\<lambda>q p. add_point p q) qs p)"
  by (induction qs arbitrary: p) auto

lemma group_positive:
  assumes "\<forall>p \<in> set ps. 0 < pt_s p" "ct \<in> set (group_starts t ps)"
  shows "0 < pt_s (group_of t ps ct)"
  unfolding group_of_def by (rule fold_positive) (use assms in \<open>auto simp: group_starts_set filter_empty_conv\<close>)

text \<open>What a start reads back, and the hours it makes of it.\<close>

lemma recover_read:
  assumes f: "files_inv l0 s" and l: "l0 \<le> unix now" "unix now < 2 ^ 62" and h: "0 < h" "h mod tr_step (se_coarse s) = 0"
    and keep: "now - se_keep_fine s ret \<le> of_unix h"
  obtains ps where "recover good_disk ret now s = finish_hours good_disk (unix now) ps (group_starts (se_coarse s) ps) s"
    "\<forall>p \<in> set ps. p \<in> set (stored (se_fine_files s))"
    "\<exists>p \<in> set (stored (se_coarse_files s)). h \<le> pt_t p \<Longrightarrow> \<forall>p \<in> set ps. hour_of s p \<noteq> h"
    "\<forall>p \<in> set (stored (se_coarse_files s)). pt_t p < h \<Longrightarrow>
      filter_mset (\<lambda>p. hour_of s p = h) (mset ps) = filter_mset (\<lambda>p. hour_of s p = h) (mset (stored (se_fine_files s)))"
proof -
  let ?c = "tr_step (se_coarse s)" and ?n = "newest (di_read good_disk (se_coarse s)) (se_coarse_files s)"
    and ?a = "unix (now - se_keep_fine s ret)" and ?fine = "stored (se_fine_files s)"
  let ?a' = "if ?n \<noteq> 0 then max ?a (?n + ?c) else ?a"
  have ok: "tier_ok (se_fine s) (se_fine_files s)" "tier_ok (se_coarse s) (se_coarse_files s)" "0 < ?c" "0 < tr_step (se_fine s)"
    and times: "\<forall>p \<in> set ?fine. 0 \<le> pt_t p \<and> pt_t p \<le> unix now"
      "\<forall>p \<in> set (stored (se_coarse_files s)). 0 \<le> pt_t p \<and> pt_t p < 2 ^ 62"
    using f l by (force simp: files_inv_def shape_def)+
  have readable: "\<forall>k. di_read good_disk t k" for t by (simp add: good_disk_def)
  note n = newest_bounds [OF ok(2) readable [of "se_coarse s"] times(2)]
  obtain ps where ps: "read_tier (se_fine s) (di_read good_disk (se_fine s)) (se_fine_files s) ?a' (unix now + tr_step (se_fine s)) = Some ps"
    "mset ps = filter_mset (\<lambda>p. ?a' \<le> pt_t p \<and> pt_t p < unix now + tr_step (se_fine s)) (mset ?fine)"
    using read_tier_exact [OF ok(1) readable] by blast
  have r: "recover good_disk ret now s = finish_hours good_disk (unix now) ps (group_starts (se_coarse s) ps) s"
    using ps(1) by (simp add: recover_def Let_def)
  have set: "p \<in> set ps \<longleftrightarrow> p \<in> set ?fine \<and> ?a' \<le> pt_t p" for p
  proof -
    have "p \<in> set ps \<longleftrightarrow> p \<in># mset ps" by simp
    then show ?thesis unfolding ps(2) using times(1) ok(4) by auto
  qed
  have late: "hour_of s p \<noteq> h" if "q \<in> set (stored (se_coarse_files s))" "h \<le> pt_t q" "p \<in> set ps" for p q
  proof -
    have "h \<le> ?n" using n(1) that(1,2) by force
    then have "h + ?c \<le> pt_t p" using set [of p] that(3) h(1) by auto
    then show ?thesis using interval_grid(2) [of "pt_t p" "se_coarse s"] ok(3) h(1) by (auto simp: hour_of_def)
  qed
  have same: "filter_mset (\<lambda>p. hour_of s p = h) (mset ps) = filter_mset (\<lambda>p. hour_of s p = h) (mset ?fine)"
    if "\<forall>p \<in> set (stored (se_coarse_files s)). pt_t p < h"
  proof -
    have "?a \<le> h" using keep by (simp add: unix_def of_unix_def)
    moreover have "?n + ?c \<le> h" if ne: "?n \<noteq> 0"
    proof -
      obtain q where q: "q \<in> set (stored (se_coarse_files s))" "pt_t q = ?n" using n(2) ne by auto
      then show ?thesis
        using grid_apart [OF stored_point(2) [OF ok(2) q(1)] h(2) ok(3)] \<open>\<forall>p \<in> set (stored (se_coarse_files s)). pt_t p < h\<close> by auto
    qed
    ultimately have a: "?a' \<le> h" by simp
    have "?a' \<le> pt_t p \<and> pt_t p < unix now + tr_step (se_fine s)" if "p \<in> set ?fine" "hour_of s p = h" for p
      using interval_grid(1) [of "pt_t p" "se_coarse s"] times(1) that ok(3,4) a by (force simp: hour_of_def)
    then show ?thesis unfolding ps(2) filter_filter_mset by (intro filter_mset_cong) auto
  qed
  show thesis by (rule that [OF r]) (use set late same in blast)+
qed

context amount
begin

lemma recover_inv:
  assumes d: "disk_ok h l0 s" and l: "l0 \<le> unix now" "unix now < 2 ^ 62" and h: "0 < h" "h mod tr_step (se_coarse s) = 0"
    and keep: "now - se_keep_fine s ret \<le> of_unix h" and empty: "se_cur s = no_point" "se_acc s = no_point"
    and r: "recover good_disk ret now s = s'"
  shows "series_inv (unix now) s' \<and> balance h s' \<and> se_fine s' = se_fine s \<and> se_coarse s' = se_coarse s \<and>
    se_keep_fine s' = se_keep_fine s \<and> se_keep_coarse s' = se_keep_coarse s"
proof -
  let ?c = "tr_step (se_coarse s)" and ?l = "unix now"
  have f: "files_inv l0 s" using d by (simp add: disk_ok_def)
  obtain ps where ps: "finish_hours good_disk ?l ps (group_starts (se_coarse s) ps) s = s'"
    "\<forall>p \<in> set ps. p \<in> set (stored (se_fine_files s))"
    "\<exists>p \<in> set (stored (se_coarse_files s)). h \<le> pt_t p \<Longrightarrow> \<forall>p \<in> set ps. hour_of s p \<noteq> h"
    "\<forall>p \<in> set (stored (se_coarse_files s)). pt_t p < h \<Longrightarrow>
      filter_mset (\<lambda>p. hour_of s p = h) (mset ps) = filter_mset (\<lambda>p. hour_of s p = h) (mset (stored (se_fine_files s)))"
    using recover_read [OF f l h keep] r by metis
  let ?cts = "group_starts (se_coarse s) ps" and ?g = "group_of (se_coarse s) ps"
  have ok: "tier_ok (se_fine s) (se_fine_files s)" "tier_ok (se_coarse s) (se_coarse_files s)" "0 < ?c" "shape s"
    using f by (simp_all add: files_inv_def shape_def)
  have fine: "\<forall>p \<in> set ps. wf_point p \<and> 0 < pt_s p" "\<forall>p \<in> set ps. 0 \<le> pt_t p \<and> pt_t p \<le> ?l"
    using ps(2) f l(1) stored_point(1) [OF ok(1)] by (force simp: files_inv_def)+
  have ct: "0 \<le> ct \<and> ct \<le> ?l \<and> ct mod ?c = 0" if "ct \<in> set ?cts" for ct
    using that fine(2) interval_grid [OF _ ok(3)] by (force simp: group_starts_set)
  have sorted: "sorted ?cts" "distinct ?cts" by (simp_all add: group_starts_def)
  have g: "wf_point (?g x)" "pt_t (?g x) = x" "amount (?g x) = (\<Sum>p \<in># filter_mset (\<lambda>p. hour_of s p = x) (mset ps). amount p)" for x
    using group_amount [OF fine(1)] by (simp_all add: hour_of_def)
  have "\<forall>ct \<in> set ?cts. wf_point (?g ct) \<and> pt_t (?g ct) = ct \<and> ct mod ?c = 0" using g ct by blast
  note e = finish_hours_files [OF this ok(2) ps(1)]
  let ?done = "filter (\<lambda>ct. ct + ?c \<le> ?l) ?cts" and ?open = "filter (\<lambda>ct. ?l < ct + ?c) ?cts"
  have coarse: "set (stored (se_coarse_files s')) = ?g ` set ?done \<union> set (stored (se_coarse_files s))"
    using e by (metis (no_types, lifting) set_mset_mset set_mset_union set_map)
  have files: "files_inv ?l s'"
    using files_inv_mono [OF f l(1)] e ct coarse g(2) group_positive [of ps _ "se_coarse s"] fine(1) by (auto simp: files_inv_def shape_def)
  have one: "x = y" if "x \<in> set ?open" "y \<in> set ?open" for x y
    using that ct grid_apart [of x ?c y] grid_apart [of y ?c x] ok(3) by force
  have acc: "se_acc s' = (if ?open = [] then no_point else ?g (last ?open))" using e empty by simp
  have lo: "?open \<noteq> [] \<Longrightarrow> last ?open \<in> set ?open" by (rule last_in_set)
  have "acc_ok ?l s'"
  proof (cases "?open = []")
    case False
    then have o': "last ?open \<in> set ?cts" "?l < last ?open + ?c" using lo [OF False] by (simp_all only: set_filter mem_Collect_eq)
    have "pt_t p + ?c \<le> last ?open" if "p \<in> set (stored (se_coarse_files s'))" for p
      using grid_apart [of "pt_t p" ?c "last ?open"] files that o' ct [OF o'(1)] e ok(3) stored_point(2) [of "se_coarse s'" "se_coarse_files s'" p]
      by (force simp: files_inv_def)
    then show ?thesis using False acc g(2) ct [OF o'(1)] e by (simp add: acc_ok_def)
  qed (use acc in \<open>simp add: acc_ok_def\<close>)
  moreover have "wf_point (se_acc s')" using acc g(1) by simp
  moreover have "cur_ok ?l s'" "wf_point (se_cur s')" using e empty by (simp_all add: cur_ok_def)
  ultimately have inv: "series_inv ?l s'" using files by (simp add: series_inv_def)
  have hours: "in_hours amount h s' = (if h \<in> set ?done then amount (?g h) else 0) + in_hours amount h s"
  proof -
    have "filter_mset (\<lambda>p. pt_t p = h) (mset (map ?g ?done)) = (if h \<in> set ?done then {#?g h#} else {#})"
      by (rule pick_group) (use sorted(2) g(2) in auto)
    then show ?thesis using e by (simp add: in_hours_def del: mset_map)
  qed
  have memory: "in_acc amount h s' = (if h \<in> set ?open then amount (?g h) else 0)"
  proof (cases "?open = []")
    case False
    have "0 < pt_s (?g (last ?open))" using group_positive [of ps "last ?open" "se_coarse s"] fine(1) lo [OF False] by auto
    then show ?thesis using False acc g(2) one lo [OF False] by (auto simp: in_acc_def)
  qed (use acc in \<open>simp add: in_acc_def\<close>)
  define is_done is_open is_start where "is_done = (h \<in> set ?done)" "is_open = (h \<in> set ?open)" "is_start = (h \<in> set ?cts)"
  have part: "is_start \<longleftrightarrow> is_done \<or> is_open" "\<not> (is_done \<and> is_open)" by (auto simp: is_done_is_open_is_start_def)
  note sums = hours [folded is_done_is_open_is_start_def] memory [folded is_done_is_open_is_start_def]
  have fh: "in_fine amount h s' = in_fine amount h s" using e by (simp add: in_fine_def hour_of_def)
  have "balance h s'"
  proof (cases "\<exists>p \<in> set (stored (se_coarse_files s)). h \<le> pt_t p")
    case True
    then have "\<not> is_start" using ps(3) by (auto simp: is_done_is_open_is_start_def group_starts_set hour_of_def)
    then show ?thesis using True d sums fh part by (simp add: disk_ok_def)
  next
    case False
    then have e0: "filter_mset (\<lambda>p. pt_t p = h) (mset (stored (se_coarse_files s))) = {#}" by auto
    have s0: "in_hours amount h s = 0" by (simp only: in_hours_def e0 image_mset_empty sum_mset.empty)
    have a: "amount (?g h) = in_fine amount h s" using ps(4) False g(3) by (auto simp: in_fine_def not_le)
    have "amount (?g h) = 0" if "\<not> is_start"
    proof -
      have "filter_mset (\<lambda>p. hour_of s p = h) (mset ps) = {#}"
        using that by (auto simp: is_done_is_open_is_start_def group_starts_set hour_of_def image_iff)
      then show ?thesis by (simp only: g(3) image_mset_empty sum_mset.empty)
    qed
    then show ?thesis unfolding fh sums s0 a [symmetric] using part by (cases is_done; cases is_open) simp_all
  qed
  then show ?thesis using inv e by simp
qed

end

subsection \<open>All operations\<close>

lemma unix_le: "x \<le> of_unix h \<Longrightarrow> unix x \<le> h"
  by (simp add: unix_def of_unix_def)

lemma flush_keeps [simp]: "se_keep_fine (snd (flush d l s)) = se_keep_fine s" "se_keep_coarse (snd (flush d l s)) = se_keep_coarse s"
  by (simp_all add: flush_def close_hour_def roll_up_def end_hour_def write_fine_def write_coarse_def Let_def)

lemma add_minute_keeps [simp]:
  "se_keep_fine (snd (add_minute d p l s)) = se_keep_fine s" "se_keep_coarse (snd (add_minute d p l s)) = se_keep_coarse s"
  using flush_keeps by (auto simp: add_minute_def Let_def split_beta)

context amount
begin

lemma rest_disk:
  assumes "series_inv l s" "balance h s"
  shows "disk_ok h l s"
proof -
  have "in_acc amount h s = 0" if "p \<in> set (stored (se_coarse_files s))" "h \<le> pt_t p" for p
    using that assms(1) by (force simp: in_acc_def series_inv_def acc_ok_def files_inv_def shape_def)
  then show ?thesis using assms by (auto simp: disk_ok_def series_inv_def)
qed

lemma stopped_disk:
  assumes "series_inv l s" "balance h s"
  shows "disk_ok h l (stop_series good_disk s)"
proof (cases "0 < pt_s (se_cur s)")
  case True
  let ?s = "write_fine good_disk (se_cur s) s"
  have c: "files_inv l s" "wf_point (se_cur s)" "0 \<le> pt_t (se_cur s)" "pt_t (se_cur s) \<le> l" "pt_t (se_cur s) mod tr_step (se_fine s) = 0"
    "tier_ok (se_fine s) (se_fine_files s)" "0 < tr_step (se_coarse s)"
    "\<forall>p \<in> set (stored (se_coarse_files s)). pt_t p + tr_step (se_coarse s) \<le> hour_of s (se_cur s)"
    using assms(1) True by (simp_all add: series_inv_def cur_ok_def files_inv_def shape_def)
  have f: "files_inv l ?s" by (rule files_write_fine [OF c(1,2) True c(3-5)])
  have "in_fine amount h ?s = in_hours amount h ?s" if p: "p \<in> set (stored (se_coarse_files s))" "h \<le> pt_t p" for p
  proof -
    have "hour_of s (se_cur s) \<noteq> h" using c(7,8) p by force
    then show ?thesis using in_fine_write [OF c(6), of amount h] rest_disk [OF assms] p by (auto simp: disk_ok_def in_hours_def)
  qed
  then show ?thesis using True f by (auto simp: disk_ok_def stop_series_def in_fine_def in_hours_def hour_of_def)
qed (use rest_disk [OF assms] in \<open>simp add: stop_series_def\<close>)

lemma prune_amounts:
  assumes "files_inv l s" "now - se_keep_fine s ret \<le> of_unix h" "now - se_keep_coarse s ret \<le> of_unix h"
  shows "files_inv l (prune_series d ret now s)"
    "in_fine amount h (prune_series d ret now s) = in_fine amount h s" "in_hours amount h (prune_series d ret now s) = in_hours amount h s"
    "set (stored (se_coarse_files (prune_series d ret now s))) \<subseteq> set (stored (se_coarse_files s))"
proof -
  have t: "tier_ok (se_fine s) (se_fine_files s)" "tier_ok (se_coarse s) (se_coarse_files s)" using assms(1) by (simp_all add: files_inv_def)
  have "0 \<le> pt_t p \<Longrightarrow> hour_of s p = h \<Longrightarrow> of_unix h \<le> of_unix (pt_t p)" for p
    using interval_grid(1) [of "pt_t p" "se_coarse s"] assms(1) by (simp add: hour_of_def of_unix_def files_inv_def shape_def)
  then have late: "p \<in> set (stored (se_fine_files s)) \<Longrightarrow> hour_of s p = h \<Longrightarrow> now - se_keep_fine s ret \<le> of_unix (pt_t p)" for p
    using assms(1,2) by (fastforce simp: files_inv_def)
  have "filter_mset (\<lambda>p. hour_of s p = h) (mset (stored (se_fine_files (prune_series d ret now s)))) =
      filter_mset (\<lambda>p. hour_of s p = h) (mset (stored (se_fine_files s)))"
    using prune_tier_keeps [OF t(1), of "\<lambda>p. hour_of s p = h"] late by (simp add: prune_series_def)
  then show "in_fine amount h (prune_series d ret now s) = in_fine amount h s" by (simp add: in_fine_def hour_of_def prune_series_def)
  show "in_hours amount h (prune_series d ret now s) = in_hours amount h s"
    using prune_tier_keeps [OF t(2), of "\<lambda>p. pt_t p = h"] assms(3) by (simp add: in_hours_def prune_series_def)
  show "set (stored (se_coarse_files (prune_series d ret now s))) \<subseteq> set (stored (se_coarse_files s))"
    using prune_tier_stored by (simp add: prune_series_def)
  show "files_inv l (prune_series d ret now s)"
    using assms(1) prune_tier_ok prune_tier_stored by (fastforce simp: files_inv_def shape_def prune_series_def)
qed

lemma prune_disk:
  assumes "disk_ok h l s" "now - se_keep_fine s ret \<le> of_unix h" "now - se_keep_coarse s ret \<le> of_unix h"
  shows "disk_ok h l (prune_series d ret now s)"
  using prune_amounts [of l s now ret h d] assms by (auto simp: disk_ok_def)

lemma prune_rest:
  assumes "series_inv l s" "balance h s" "now - se_keep_fine s ret \<le> of_unix h" "now - se_keep_coarse s ret \<le> of_unix h"
  shows "series_inv l (prune_series d ret now s)" "balance h (prune_series d ret now s)"
proof -
  let ?s = "prune_series d ret now s"
  have f: "files_inv l s" using assms(1) by (simp add: series_inv_def)
  note p = prune_amounts [OF f assms(3,4), of d]
  have m: "se_acc ?s = se_acc s" "se_cur ?s = se_cur s" "se_coarse ?s = se_coarse s" "se_fine ?s = se_fine s" by (simp_all add: prune_series_def)
  have "hour_of ?s = hour_of s" by (simp add: hour_of_def m fun_eq_iff)
  then show "series_inv l ?s" using assms(1) p(1,4) m unfolding series_inv_def acc_ok_def cur_ok_def by (simp, blast)
  show "balance h ?s" using assms(2) p(2,3) m by (simp add: in_acc_def)
qed

end

text \<open>The runs of the recorder during which hour \<open>h\<close> stays within the retention, with whether the process is up. A start may
  follow a stop or, after a crash, anything; the clock may go back while the process runs.\<close>

definition keeps :: "retention \<Rightarrow> time \<Rightarrow> int \<Rightarrow> bool" where
  "keeps ret now h \<longleftrightarrow> now - rt_detail ret \<le> of_unix h \<and> now - rt_total ret \<le> of_unix h \<and> now - rt_miners ret \<le> of_unix h"

inductive history_run :: "int \<Rightarrow> bool \<Rightarrow> recorder \<Rightarrow> bool" for h where
  first: "history_run h False \<lparr>re_last = smp, re_last_at = 0, re_totals = new_totals [] [], re_workers = new_workers [] []\<rparr>"
| start: "history_run h up r \<Longrightarrow> re_last_at r \<le> now \<Longrightarrow> unix now < 2 ^ 62 \<Longrightarrow> keeps ret now h \<Longrightarrow>
    history_run h True (start_recorder good_disk ret now smp r)"
| minute: "history_run h True r \<Longrightarrow> keeps ret now h \<Longrightarrow> history_run h True (record_minute good_disk ret now smp r)"
| stop: "history_run h True r \<Longrightarrow> history_run h False (stop_recorder good_disk now smp r)"
| prune: "history_run h up r \<Longrightarrow> keeps ret now h \<Longrightarrow> history_run h up (prune_all good_disk ret now r)"

definition is_totals :: "series \<Rightarrow> bool" where
  "is_totals s \<longleftrightarrow> se_fine s = minute_tier \<and> se_coarse s = hour_tier \<and> se_keep_fine s = rt_detail \<and> se_keep_coarse s = rt_total"

definition is_workers :: "series \<Rightarrow> bool" where
  "is_workers s \<longleftrightarrow> se_fine s = worker_detail_tier \<and> se_coarse s = worker_hour_tier \<and> se_keep_fine s = rt_detail \<and> se_keep_coarse s = rt_miners"

context amount
begin

definition series_ok :: "int \<Rightarrow> bool \<Rightarrow> int \<Rightarrow> series \<Rightarrow> bool" where
  "series_ok h up l s \<longleftrightarrow> (if up then series_inv l s \<and> balance h s else disk_ok h l s)"

lemma series_ok_disk: "series_ok h up l s \<Longrightarrow> disk_ok h l s"
  using rest_disk by (auto simp: series_ok_def split: if_splits)

lemma series_ok_prune:
  "series_ok h up l s \<Longrightarrow> is_totals s \<or> is_workers s \<Longrightarrow> keeps ret now h \<Longrightarrow> series_ok h up l (prune_series d ret now s)"
  using prune_disk [of h l s now ret d] prune_rest [of l s h now ret d]
  by (auto simp: series_ok_def keeps_def is_totals_def is_workers_def split: if_splits)

lemma series_ok_start:
  assumes "series_ok h up l s" "is_totals s \<or> is_workers s" "keeps ret now h" "l \<le> unix now" "unix now < 2 ^ 62" "0 < h" "h mod 3600 = 0"
  shows "series_ok h True (unix now) (recover good_disk ret now (fresh_series s))"
    "is_totals s \<Longrightarrow> is_totals (recover good_disk ret now (fresh_series s))"
    "is_workers s \<Longrightarrow> is_workers (recover good_disk ret now (fresh_series s))"
proof -
  have d: "disk_ok h l (fresh_series s)"
    using series_ok_disk [OF assms(1)]
    by (auto simp: disk_ok_def fresh_series_def files_inv_def shape_def in_fine_def in_hours_def hour_of_def)
  have c: "se_fine (fresh_series s) = se_fine s" "se_coarse (fresh_series s) = se_coarse s" "se_keep_fine (fresh_series s) = se_keep_fine s"
    "se_keep_coarse (fresh_series s) = se_keep_coarse s" "se_cur (fresh_series s) = no_point" "se_acc (fresh_series s) = no_point"
    by (simp_all add: fresh_series_def)
  have "h mod tr_step (se_coarse (fresh_series s)) = 0" "now - se_keep_fine (fresh_series s) ret \<le> of_unix h"
    using assms(2,3,7) c by (auto simp: is_totals_def is_workers_def keeps_def hour_tier_def worker_hour_tier_def)
  note r = recover_inv [OF d assms(4,5,6) this c(5,6) refl]
  then show "series_ok h True (unix now) (recover good_disk ret now (fresh_series s))"
    "is_totals s \<Longrightarrow> is_totals (recover good_disk ret now (fresh_series s))"
    "is_workers s \<Longrightarrow> is_workers (recover good_disk ret now (fresh_series s))"
    using c by (simp_all add: series_ok_def is_totals_def is_workers_def)
qed

lemma series_ok_minute:
  assumes "series_ok h True l0 s" "add_minute good_disk p l s = (b, s')" "0 \<le> l0" "l0 \<le> l"
    "pt_t p = interval minute_tier l0" "0 < pt_s p" "wf_point p"
  shows "series_ok h True l s'" "is_totals s \<Longrightarrow> is_totals s'" "is_workers s \<Longrightarrow> is_workers s'"
  using add_minute_inv [OF assms(2) _ assms(3-7), of h] assms(1) add_minute_keeps [of good_disk p l s] assms(2)
  by (auto simp: series_ok_def is_totals_def is_workers_def)

lemma series_ok_later: "series_ok h True l s \<Longrightarrow> l \<le> l' \<Longrightarrow> series_ok h True l' s"
  using files_inv_mono [of l s l'] acc_ok_mono [of l s l'] by (auto simp: series_ok_def series_inv_def cur_ok_def)

lemma series_ok_stop: "series_ok h True l s \<Longrightarrow> series_ok h False l (stop_series good_disk s)"
  using stopped_disk by (simp add: series_ok_def)

lemma stop_kind: "is_totals (stop_series d s) = is_totals s" "is_workers (stop_series d s) = is_workers s"
  by (auto simp: stop_series_def is_totals_def is_workers_def write_fine_def)

lemma prune_kind: "is_totals (prune_series d ret now s) = is_totals s" "is_workers (prune_series d ret now s) = is_workers s"
  by (auto simp: prune_series_def is_totals_def is_workers_def)

definition recorder_ok :: "int \<Rightarrow> bool \<Rightarrow> recorder \<Rightarrow> bool" where
  "recorder_ok h up r \<longleftrightarrow> 0 \<le> re_last_at r \<and> is_totals (re_totals r) \<and> is_workers (re_workers r) \<and>
     series_ok h up (unix (re_last_at r)) (re_totals r) \<and> series_ok h up (unix (re_last_at r)) (re_workers r)"

lemma recorder_ok_prune: "recorder_ok h up r \<Longrightarrow> keeps ret now h \<Longrightarrow> recorder_ok h up (prune_all d ret now r)"
  using series_ok_prune by (auto simp: recorder_ok_def prune_all_def prune_kind)

lemma recorder_ok_record:
  assumes "recorder_ok h True r" "record_locked good_disk now smp r = (b, r')"
  shows "recorder_ok h True r'"
proof (cases "now \<le> re_last_at r")
  case True
  then show ?thesis using assms by (simp add: record_locked_def)
next
  case False
  let ?t = "unix (time_truncate (re_last_at r) minute)" and ?secs = "round_seconds (time_sub now (re_last_at r))"
  have l: "0 \<le> unix (re_last_at r)" "unix (re_last_at r) \<le> unix now" "?t = interval minute_tier (unix (re_last_at r))"
    using assms(1) False minute_of_time by (auto simp: recorder_ok_def unix_def pos_imp_zdiv_nonneg_iff intro: zdiv_mono1)
  show ?thesis
  proof (cases "?secs \<le> 0")
    case True
    then show ?thesis using assms False l(2) series_ok_later by (auto simp: record_locked_def recorder_ok_def Let_def)
  next
    case pos: False
    let ?p = "(delta (re_last r) smp)\<lparr>pt_t := ?t, pt_s := ?secs\<rparr>" and ?w = "(worker_delta (re_last r) smp ?secs)\<lparr>pt_t := ?t, pt_s := ?secs\<rparr>"
    obtain b1 ts b2 ws where a: "add_minute good_disk ?p (unix now) (re_totals r) = (b1, ts)"
      "add_minute good_disk ?w (unix now) (re_workers r) = (b2, ws)" by fastforce
    then have r': "r' = r\<lparr>re_last := smp, re_last_at := now, re_totals := ts, re_workers := ws\<rparr>"
      using assms(2) False pos by (simp add: record_locked_def Let_def)
    have ok: "series_ok h True (unix (re_last_at r)) (re_totals r)" "series_ok h True (unix (re_last_at r)) (re_workers r)"
      "is_totals (re_totals r)" "is_workers (re_workers r)" "0 \<le> re_last_at r"
      using assms(1) by (auto simp: recorder_ok_def)
    note m = series_ok_minute [OF ok(1) a(1) l(1,2)] series_ok_minute [OF ok(2) a(2) l(1,2)]
    have "wf_point ?p" "wf_point ?w" "0 < pt_s ?p" "0 < pt_s ?w" using wf_delta [where s = ?secs and prev = "re_last r" and cur = smp and t = ?t] pos by simp_all
    then show ?thesis using m ok False r' l(3) by (simp add: recorder_ok_def)
  qed
qed

lemma history_run_ok: "history_run h up r \<Longrightarrow> 0 < h \<Longrightarrow> h mod 3600 = 0 \<Longrightarrow> recorder_ok h up r"
proof (induction rule: history_run.induct)
  case (first smp)
  have "shape (new_totals [] [])" "shape (new_workers [] [])"
    by (simp_all add: shape_def new_totals_def new_workers_def minute_tier_def hour_tier_def worker_detail_tier_def worker_hour_tier_def)
  then show ?case
    by (auto simp: recorder_ok_def series_ok_def disk_ok_def files_inv_def tier_ok_def stored_def in_fine_def in_hours_def
        is_totals_def is_workers_def new_totals_def new_workers_def)
next
  case (start up r now ret smp)
  then have r: "recorder_ok h up r" by simp
  have l: "unix (re_last_at r) \<le> unix now" "0 \<le> now" using start(2) r by (auto simp: unix_def recorder_ok_def intro: zdiv_mono1)
  have "recorder_ok h True (r\<lparr>re_last := smp, re_last_at := now, re_totals := recover good_disk ret now (fresh_series (re_totals r)),
      re_workers := recover good_disk ret now (fresh_series (re_workers r))\<rparr>)"
  proof -
    have ok: "series_ok h up (unix (re_last_at r)) (re_totals r)" "series_ok h up (unix (re_last_at r)) (re_workers r)"
      "is_totals (re_totals r)" "is_workers (re_workers r)" using r by (auto simp: recorder_ok_def)
    show ?thesis
      using series_ok_start [OF ok(1) _ start(4) l(1) start(3) start.prems] series_ok_start [OF ok(2) _ start(4) l(1) start(3) start.prems]
        ok(3,4) l(2) by (simp add: recorder_ok_def)
  qed
  then show ?case using recorder_ok_prune [OF _ start(4)] by (simp add: start_recorder_def)
next
  case (minute r ret now smp)
  obtain b r' where "record_locked good_disk now smp r = (b, r')" by fastforce
  then show ?case using recorder_ok_record [of h r now smp b r'] minute recorder_ok_prune [OF _ minute(2)] by (auto simp: record_minute_def)
next
  case (stop r now smp)
  obtain b r' where "record_locked good_disk now smp r = (b, r')" by fastforce
  then show ?case using recorder_ok_record [of h r now smp b r'] stop series_ok_stop
    by (auto simp: stop_recorder_def recorder_ok_def stop_kind)
next
  case (prune up r ret now)
  then show ?case using recorder_ok_prune by blast
qed

lemma history_balance:
  assumes "history_run h True r" "0 < h" "h mod 3600 = 0"
  shows "balance h (re_totals r)" "balance h (re_workers r)"
  using history_run_ok [OF assms] by (auto simp: recorder_ok_def series_ok_def)

end

subsection \<open>Properties\<close>

lemma history_run_files:
  assumes "history_run h up r" "0 < h" "h mod 3600 = 0"
  shows "files_inv (unix (re_last_at r)) (re_totals r)" "files_inv (unix (re_last_at r)) (re_workers r)"
    "is_totals (re_totals r)" "is_workers (re_workers r)"
  using seconds.history_run_ok [OF assms] seconds.series_ok_disk by (auto simp: seconds.recorder_ok_def seconds.disk_ok_def)

text \<open>C40: The files of the history are typed. Whatever the recorder went through, each of its four tiers holds well-formed
  points only, every one in the file of its day or month, at a multiple of the step of its tier, not later than the last
  minute recorded, and with time in it.\<close>

theorem history_files_typed:
  assumes "history_run h up r" "0 < h" "h mod 3600 = 0"
  shows "tier_ok minute_tier (se_fine_files (re_totals r)) \<and> tier_ok hour_tier (se_coarse_files (re_totals r)) \<and>
    tier_ok worker_detail_tier (se_fine_files (re_workers r)) \<and> tier_ok worker_hour_tier (se_coarse_files (re_workers r)) \<and>
    (\<forall>p. p \<in> set (stored (se_fine_files (re_totals r))) \<union> set (stored (se_fine_files (re_workers r))) \<longrightarrow>
      0 < pt_s p \<and> pt_t p \<le> unix (re_last_at r)) \<and>
    (\<forall>p. p \<in> set (stored (se_coarse_files (re_totals r))) \<union> set (stored (se_coarse_files (re_workers r))) \<longrightarrow>
      0 < pt_s p \<and> pt_t p + 3600 \<le> unix (re_last_at r))"
  using history_run_files [OF assms] by (auto simp: files_inv_def is_totals_def is_workers_def hour_tier_def worker_hour_tier_def)


subsection \<open>A first hour\<close>

definition example_sample :: "64 word \<Rightarrow> real \<Rightarrow> sample" where
  "example_sample a d = \<lparr>sm_totals = \<lparr>t_total = \<lparr>c_accepted = a, c_rejected = 0, c_diff = d\<rparr>, t_pools = [], t_workers = []\<rparr>,
     sm_miners = [(''btc'', 2)], sm_online = [(''rig1'', 1)]\<rparr>"

definition example_retention :: retention where
  "example_retention = \<lparr>rt_detail = 3 * day, rt_total = 365 * day, rt_miners = 30 * day\<rparr>"

definition example_recorder :: "time \<Rightarrow> sample \<Rightarrow> point \<Rightarrow> recorder" where
  "example_recorder now smp c = \<lparr>re_last = smp, re_last_at = now, re_totals = new_totals [] [], re_workers = (new_workers [] [])\<lparr>se_cur := c\<rparr>\<rparr>"

lemma recover_nothing:
  assumes "se_fine_files s = []" "shape s"
  shows "recover good_disk ret now s = s"
proof -
  have "read_tier (se_fine s) (di_read good_disk (se_fine s)) [] a b = Some []" for a b
  proof -
    obtain ps where "read_tier (se_fine s) (di_read good_disk (se_fine s)) [] a b = Some ps" "mset ps = {#}"
      by (rule read_tier_exact [of "se_fine s" "[]" "di_read good_disk (se_fine s)" a b])
        (simp_all add: tier_ok_def good_disk_def stored_def)
    then show ?thesis by simp
  qed
  then show ?thesis using assms by (simp add: recover_def Let_def group_starts_def)
qed

lemma example_start:
  "history_run 3600 True (example_recorder (of_unix 3600) (example_sample 0 0) no_point)"
proof -
  have s: "shape (new_totals [] [])" "shape (new_workers [] [])"
    by (simp_all add: shape_def new_totals_def new_workers_def minute_tier_def hour_tier_def worker_detail_tier_def worker_hour_tier_def)
  have f: "fresh_series (new_totals [] []) = new_totals [] []" "fresh_series (new_workers [] []) = new_workers [] []"
    by (simp_all add: fresh_series_def new_totals_def new_workers_def)
  have e: "se_fine_files (new_totals [] []) = []" "se_fine_files (new_workers [] []) = []" by (simp_all add: new_totals_def new_workers_def)
  have "prune_series d ret now (new_totals [] []) = new_totals [] []" "prune_series d ret now (new_workers [] []) = new_workers [] []" for d ret now
    by (simp_all add: prune_series_def prune_tier_def new_totals_def new_workers_def)
  then have "start_recorder good_disk example_retention (of_unix 3600) (example_sample 0 0)
      \<lparr>re_last = example_sample 0 0, re_last_at = 0, re_totals = new_totals [] [], re_workers = new_workers [] []\<rparr> =
    example_recorder (of_unix 3600) (example_sample 0 0) no_point"
    using recover_nothing [OF e(1) s(1)] recover_nothing [OF e(2) s(2)]
    by (simp add: start_recorder_def prune_all_def f example_recorder_def) (simp add: new_workers_def)
  then show ?thesis
    using history_run.start [OF history_run.first [where smp = "example_sample 0 0"],
      where now = "of_unix 3600" and ret = example_retention and smp = "example_sample 0 0"]
    by (simp add: of_unix_def unix_def keeps_def example_retention_def)
qed

definition example_minute :: recorder where
  "example_minute = record_minute good_disk example_retention (of_unix 3660) (example_sample 5 100) (example_recorder (of_unix 3600) (example_sample 0 0) no_point)"

lemma example_run: "history_run 3600 True example_minute"
  unfolding example_minute_def
  by (rule history_run.minute [OF example_start]) (simp add: of_unix_def keeps_def example_retention_def)

lemma example_first_minute:
  "unix (time_truncate (of_unix 3600) minute) = 3600" "round_seconds (time_sub (of_unix 3660) (of_unix 3600)) = 60"
  by (simp_all add: of_unix_def unix_def time_truncate_def zero_time_def round_seconds_def time_sub_def max_duration_def min_duration_def)

lemma example_hour:
  "in_acc pt_a 3600 (re_totals example_minute) = 5" "in_hours pt_a 3600 (re_totals example_minute) = 0"
proof -
  define p where "p = (delta (example_sample 0 0) (example_sample 5 100))\<lparr>pt_t := 3600, pt_s := 60\<rparr>"
  define w where "w = (worker_delta (example_sample 0 0) (example_sample 5 100) 60)\<lparr>pt_t := 3600, pt_s := 60\<rparr>"
  have p: "pt_t p = 3600" "pt_s p = 60" "pt_a p = 5" "pt_t w = 3600" "pt_s w = 60"
    by (simp_all add: p_def w_def delta_def worker_delta_def empty_point_def example_sample_def sub64_def Let_def)
  have t: "se_cur (new_totals [] []) = no_point" "se_acc (new_totals [] []) = no_point" "se_fine (new_totals [] []) = minute_tier"
    "se_coarse (new_totals [] []) = hour_tier" "se_coarse_files (new_totals [] []) = []" by (simp_all add: new_totals_def)
  let ?s1 = "(new_totals [] [])\<lparr>se_cur := add_point (empty_point 3600) p\<rparr>"
  let ?s2 = "roll_up 3600 (write_fine good_disk (add_point (empty_point 3600) p) ?s1)"
  have g: "interval minute_tier 3600 = 3600" "interval hour_tier 3600 = 3600" "tr_step minute_tier = 60" "tr_step hour_tier = 3600"
    by (simp_all add: interval_def go_mod_nonneg_eq minute_tier_def hour_tier_def)
  have acc: "pt_t (se_acc ?s2) = 3600" "pt_s (se_acc ?s2) = 60" "pt_a (se_acc ?s2) = 5"
    using p by (simp_all add: roll_up_def Let_def t) (simp add: empty_point_def)
  have "flush good_disk 3660 ?s1 = (False, ?s2)"
    using p acc by (simp add: flush_def Let_def t g close_hour_def end_hour_def) (simp add: roll_up_def Let_def t g)
  then have a: "add_minute good_disk p 3660 (new_totals [] []) = (False, ?s2)" using p by (simp add: add_minute_def Let_def t g)
  obtain ws where "add_minute good_disk w 3660 ((new_workers [] [])\<lparr>se_cur := no_point\<rparr>) = (False, ws)"
    using p by (simp add: add_minute_def Let_def new_workers_def worker_detail_tier_def interval_def go_mod_nonneg_eq)
  then have m: "re_totals example_minute = ?s2"
    using a example_first_minute
    by (simp add: example_minute_def record_minute_def record_locked_def example_recorder_def Let_def p_def [symmetric] w_def [symmetric])
      (simp add: of_unix_def unix_def)
  show "in_acc pt_a 3600 (re_totals example_minute) = 5" using acc m by (simp add: in_acc_def)
  show "in_hours pt_a 3600 (re_totals example_minute) = 0" by (simp add: m in_hours_def roll_up_def Let_def t stored_def)
qed


theorem history_files_typed_witness:
  "history_run 3600 True example_minute \<and> tier_ok minute_tier (se_fine_files (re_totals example_minute))"
  using history_files_typed [OF example_run] example_run by simp

end
