(* ===== verification/Charts.thy ===== *)
theory Charts
  imports History Names
begin

text \<open>
  Package \<open>history\<close>, \<open>query.go\<close>: the history resampled for the charts.

  \<^item> \<open>buckets\<close> is \<open>buckets\<close>, in its parts: the choice of the tier and of the step, the points of the range
    (\<open>range_points\<close>) and their distribution (\<open>fill\<close>). A \<open>nil\<close> entry of a series is \<open>None\<close>.
  \<^item> \<open>query\<close>, \<open>worker_chart\<close> and \<open>workers_of\<close> are \<open>Query\<close>, \<open>Worker\<close> and \<open>Workers\<close>.

  The lemmas show that resampling loses nothing, that the charts of both tiers agree hour by hour, how many steps a
  chart has, and that the list of workers says of each what its own chart says.
\<close>

definition chart_steps :: "int list" where
  "chart_steps = [60, 120, 300, 600, 900, 1800, 3600, 7200, 10800, 21600, 43200, 86400, 172800, 345600, 604800, 1209600, 2592000]"

definition detail_span :: duration where "detail_span = 3 * 24 * hour"

datatype chart_error = RangeError | ReadError

definition chart_step :: "int \<Rightarrow> int" where
  "chart_step need = (case List.find (\<lambda>x. need \<le> x) chart_steps of None \<Rightarrow> last chart_steps | Some x \<Rightarrow> x)"

text \<open>The points of a tier in the range, and those still in memory.\<close>

definition range_points :: "disk \<Rightarrow> series \<Rightarrow> bool \<Rightarrow> int \<Rightarrow> int \<Rightarrow> point list option" where
  "range_points d s fine start fin =
     (let live = [se_cur s] @ (if fine then [] else [se_acc s]);
          t = (if fine then se_fine s else se_coarse s); fs = (if fine then se_fine_files s else se_coarse_files s)
      in map_option (\<lambda>ps. ps @ map clone_point (filter (\<lambda>p. 0 < pt_s p \<and> start \<le> pt_t p \<and> pt_t p < fin) live))
           (read_tier t (di_read d t) fs start fin))"

definition fill_one :: "int \<Rightarrow> int \<Rightarrow> point \<Rightarrow> point list \<Rightarrow> point list" where
  "fill_one start step p out =
     (let i = go_div (pt_t p - start) step
      in if 0 \<le> i \<and> i < int (length out) then out[nat i := add_point (out ! nat i) p] else out)"

definition fill :: "int \<Rightarrow> int \<Rightarrow> int \<Rightarrow> point list \<Rightarrow> point list" where
  "fill start fin step ps = fold (fill_one start step) ps (replicate (nat (go_div (fin - start + step - 1) step)) no_point)"

text \<open>Short ranges within the retention are read from the fine tier; a step has at least the length of its points and is long
  enough for the number of points asked for.\<close>

definition use_fine :: "retention \<Rightarrow> time \<Rightarrow> series \<Rightarrow> time \<Rightarrow> time \<Rightarrow> bool" where
  "use_fine ret now s frm to \<longleftrightarrow> time_sub to frm \<le> detail_span \<and> now - se_keep_fine s ret \<le> frm"

definition step_for :: "tier \<Rightarrow> duration \<Rightarrow> int \<Rightarrow> int" where
  "step_for t wide max_points =
     (let max_points = max max_points 10
      in chart_step (max (tr_step t) (go_div (go_div wide second + max_points - 1) max_points)))"

definition buckets ::
  "disk \<Rightarrow> retention \<Rightarrow> time \<Rightarrow> series \<Rightarrow> time \<Rightarrow> time \<Rightarrow> int \<Rightarrow> chart_error + point list \<times> int \<times> int" where
  "buckets d ret now s frm to max_points =
     (if to \<le> frm then Inl RangeError
      else
        let fine = use_fine ret now s frm to;
            step = step_for (if fine then se_fine s else se_coarse s) (time_sub to frm) max_points;
            start = unix frm - go_mod (unix frm) step
        in case range_points d s fine start (unix to) of
             None \<Rightarrow> Inl ReadError
           | Some ps \<Rightarrow> Inr (fill start (unix to) step ps, start, step))"

subsection \<open>The series of the charts\<close>

record chart =
  ch_step :: int
  ch_time :: "int list"
  ch_hashrate :: "real option list"
  ch_accepted :: "64 word option list"
  ch_rejected :: "64 word option list"
  ch_miners :: "real option list"
  ch_pools :: "(string, real option list) gomap"

definition on_data :: "(point \<Rightarrow> 'a) \<Rightarrow> point \<Rightarrow> 'a option" where
  "on_data f b = (if pt_s b = 0 then None else Some (f b))"

definition step_times :: "int \<Rightarrow> int \<Rightarrow> nat \<Rightarrow> int list" where
  "step_times start step n = map (\<lambda>i. start + int i * step) [0..<n]"

definition chart_of :: "point list \<Rightarrow> int \<Rightarrow> int \<Rightarrow> chart" where
  "chart_of bs start step =
     \<lparr>ch_step = step, ch_time = step_times start step (length bs), ch_hashrate = map (on_data point_hashrate) bs,
      ch_accepted = map (on_data pt_a) bs, ch_rejected = map (on_data pt_r) bs, ch_miners = map (on_data pt_m) bs,
      ch_pools = map (\<lambda>i. (i, map (on_data (pool_hashrate i)) bs)) (remdups (concat (map (\<lambda>b. map fst (pt_p b)) bs)))\<rparr>"

definition query :: "disk \<Rightarrow> retention \<Rightarrow> time \<Rightarrow> recorder \<Rightarrow> time \<Rightarrow> time \<Rightarrow> int \<Rightarrow> chart_error + chart" where
  "query d ret now r frm to max_points =
     (case buckets d ret now (re_totals r) frm to max_points of
        Inl e \<Rightarrow> Inl e | Inr (bs, start, step) \<Rightarrow> Inr (chart_of bs start step))"

record worker_summary =
  ws_name :: string
  ws_hashrate :: real
  ws_accepted :: "64 word"
  ws_rejected :: "64 word"
  ws_online :: real
  ws_last_seen :: int

record worker_total =
  wt_part :: worker_part
  wt_recorded :: int
  wt_last :: int

definition new_total :: worker_total where
  "new_total = \<lparr>wt_part = zero_worker_part, wt_recorded = 0, wt_last = 0\<rparr>"

definition total_add :: "worker_part \<Rightarrow> int \<Rightarrow> worker_total \<Rightarrow> worker_total" where
  "total_add w fin t = t\<lparr>wt_part := add_worker_part w (wt_part t), wt_last := max (wt_last t) fin\<rparr>"

definition total_summary :: "string \<Rightarrow> worker_total \<Rightarrow> worker_summary" where
  "total_summary name t =
     \<lparr>ws_name = name, ws_hashrate = hashrate_over (wp_d (wt_part t)) (wp_o (wt_part t)), ws_accepted = wp_a (wt_part t),
      ws_rejected = wp_r (wt_part t),
      ws_online = (if 0 < wt_recorded t then min 1 (real_of_int (wp_o (wt_part t)) / real_of_int (wt_recorded t)) else 0),
      ws_last_seen = wt_last t\<rparr>"

record worker_chart =
  wc_step :: int
  wc_time :: "int list"
  wc_hashrate :: "real option list"
  wc_accepted :: "64 word option list"
  wc_rejected :: "64 word option list"
  wc_online :: "real option list"
  wc_summary :: worker_summary

text \<open>The end of step \<open>i\<close>, at most the end of the range.\<close>

definition step_end :: "int \<Rightarrow> int \<Rightarrow> time \<Rightarrow> nat \<Rightarrow> int" where
  "step_end start step to i = min (start + (int i + 1) * step) (unix to)"

definition count_step :: "string \<Rightarrow> int \<Rightarrow> int \<Rightarrow> time \<Rightarrow> nat \<times> point \<Rightarrow> worker_total \<Rightarrow> worker_total" where
  "count_step name start step to = (\<lambda>(i, b) t.
     if pt_s b = 0 then t
     else
       let t = t\<lparr>wt_recorded := wt_recorded t + pt_s b\<rparr>
       in case map_of (pt_w b) name of None \<Rightarrow> t | Some w \<Rightarrow> total_add w (step_end start step to i) t)"

definition worker_chart_of :: "string \<Rightarrow> point list \<Rightarrow> int \<Rightarrow> int \<Rightarrow> time \<Rightarrow> worker_chart" where
  "worker_chart_of name bs start step to =
     \<lparr>wc_step = step, wc_time = step_times start step (length bs),
      wc_hashrate = map (on_data (\<lambda>b. hashrate_over (wp_d (login_of name b)) (pt_s b))) bs,
      wc_accepted = map (on_data (\<lambda>b. wp_a (login_of name b))) bs, wc_rejected = map (on_data (\<lambda>b. wp_r (login_of name b))) bs,
      wc_online = map (on_data (\<lambda>b. min 1 (real_of_int (wp_o (login_of name b)) / real_of_int (pt_s b)))) bs,
      wc_summary = total_summary name (fold (count_step name start step to) (enumerate 0 bs) new_total)\<rparr>"

definition worker_query :: "disk \<Rightarrow> retention \<Rightarrow> time \<Rightarrow> recorder \<Rightarrow> string \<Rightarrow> time \<Rightarrow> time \<Rightarrow> int \<Rightarrow> chart_error + worker_chart" where
  "worker_query d ret now r name frm to max_points =
     (case buckets d ret now (re_workers r) frm to max_points of
        Inl e \<Rightarrow> Inl e | Inr (bs, start, step) \<Rightarrow> Inr (worker_chart_of name bs start step to))"

definition count_logins :: "int \<Rightarrow> int \<Rightarrow> time \<Rightarrow> nat \<times> point \<Rightarrow> (string, worker_total) gomap \<Rightarrow> (string, worker_total) gomap" where
  "count_logins start step to = (\<lambda>(i, b) m.
     fold (\<lambda>(name, w) m. put name (total_add w (step_end start step to i) (get_or new_total m name)) m) (pt_w b) m)"

definition summary_before :: "worker_summary \<Rightarrow> worker_summary \<Rightarrow> bool" where
  "summary_before a b =
     (if ws_hashrate a \<noteq> ws_hashrate b then ws_hashrate b < ws_hashrate a else bytes_less (ws_name a) (ws_name b))"

definition workers_of :: "point list \<Rightarrow> int \<Rightarrow> int \<Rightarrow> time \<Rightarrow> worker_summary list" where
  "workers_of bs start step to =
     (let recorded = sum_list (map pt_s bs); by_name = fold (count_logins start step to) (enumerate 0 bs) []
      in sort_by summary_before (map (\<lambda>(name, t). total_summary name (t\<lparr>wt_recorded := recorded\<rparr>)) by_name))"

definition workers_query :: "disk \<Rightarrow> retention \<Rightarrow> time \<Rightarrow> recorder \<Rightarrow> time \<Rightarrow> time \<Rightarrow> chart_error + worker_summary list" where
  "workers_query d ret now r frm to =
     (case buckets d ret now (re_workers r) frm to 400 of
        Inl e \<Rightarrow> Inl e | Inr (bs, start, step) \<Rightarrow> Inr (workers_of bs start step to))"

subsection \<open>Filling the steps\<close>

lemma fill_one_length [simp]: "length (fill_one start step p out) = length out"
  by (simp add: fill_one_def Let_def)

lemma fill_fold_length: "length (fold (fill_one start step) ps out) = length out"
  by (induction ps arbitrary: out) simp_all

lemma fill_one_wf:
  assumes "wf_point p" "\<forall>b \<in> set out. wf_point b"
  shows "\<forall>b \<in> set (fill_one start step p out). wf_point b"
proof -
  have "wf_point (add_point (out ! nat i) p)" if "0 \<le> i" "i < int (length out)" for i
    using that assms by (simp add: nat_less_iff)
  then show ?thesis using assms(2) by (auto simp: fill_one_def Let_def dest!: set_update_subset_insert [THEN subsetD])
qed

text \<open>A step without recorded time has no data at all.\<close>

definition no_gap_data :: "point \<Rightarrow> bool" where
  "no_gap_data b \<longleftrightarrow> wf_point b \<and> (pt_s b = 0 \<longrightarrow> b = no_point)"

lemma fill_one_gap:
  assumes "wf_point p" "0 < pt_s p" "\<forall>b \<in> set out. no_gap_data b"
  shows "\<forall>b \<in> set (fill_one start step p out). no_gap_data b"
proof -
  have "no_gap_data (add_point (out ! nat i) p)" if "0 \<le> i" "i < int (length out)" for i
  proof -
    have "wf_point (out ! nat i)" using that assms(3) by (simp add: nat_less_iff no_gap_data_def)
    then show ?thesis using assms(1,2) by (auto simp: no_gap_data_def wf_point_def [of "out ! nat i"])
  qed
  then show ?thesis using assms(3) by (auto simp: fill_one_def Let_def dest!: set_update_subset_insert [THEN subsetD])
qed

lemma fill_gap:
  assumes "\<forall>p \<in> set ps. wf_point p \<and> 0 < pt_s p"
  shows "\<forall>b \<in> set (fill start fin step ps). no_gap_data b"
proof -
  have fold: "\<forall>b \<in> set (fold (fill_one start step) ps out). no_gap_data b" if "\<forall>b \<in> set out. no_gap_data b" for out
    using assms that
  proof (induction ps arbitrary: out)
    case (Cons p ps)
    then show ?case using Cons.IH [OF _ fill_one_gap [of p out start step]] by simp
  qed simp
  show ?thesis unfolding fill_def by (rule fold) (simp add: no_gap_data_def)
qed

lemma sum_list_update_add:
  fixes xs :: "'a::comm_monoid_add list"
  shows "i < length xs \<Longrightarrow> sum_list (xs[i := xs ! i + y]) = sum_list xs + y"
  by (induction xs arbitrary: i) (auto simp: ac_simps split: nat.split)

lemma sum_list_zeros: "sum_list (replicate n (0 :: 'a::comm_monoid_add)) = 0"
  by (induction n) simp_all

lemma step_in_range:
  assumes "0 < step" "start \<le> t" "t < fin"
  shows "0 \<le> go_div (t - start) step" "go_div (t - start) step < go_div (fin - start + step - 1) step"
proof -
  have d: "go_div (t - start) step = (t - start) div step" "go_div (fin - start + step - 1) step = (fin - start + step - 1) div step"
    using assms by (simp_all add: go_div_nonneg_eq)
  have "(t - start) div step + 1 = (t - start + step) div step" using assms(1) by simp
  also have "\<dots> \<le> (fin - start + step - 1) div step" using assms by (intro zdiv_mono1) simp_all
  finally show "go_div (t - start) step < go_div (fin - start + step - 1) step" using d by simp
  show "0 \<le> go_div (t - start) step" using d assms by (simp add: pos_imp_zdiv_nonneg_iff)
qed

context amount
begin

lemma fill_one_amount:
  assumes "wf_point p" "\<forall>b \<in> set out. wf_point b" "0 \<le> go_div (pt_t p - start) step" "go_div (pt_t p - start) step < int (length out)"
  shows "sum_list (map amount (fill_one start step p out)) = sum_list (map amount out) + amount p"
proof -
  let ?i = "nat (go_div (pt_t p - start) step)"
  have i: "?i < length out" using assms(3,4) by (simp add: nat_less_iff)
  have "map amount (fill_one start step p out) = (map amount out)[?i := map amount out ! ?i + amount p]"
    using assms i amount_add [of "out ! ?i" p] by (simp add: fill_one_def Let_def map_update)
  then show ?thesis using sum_list_update_add [of ?i "map amount out" "amount p"] i by simp
qed

text \<open>Resampling loses nothing: the steps add up to the points.\<close>

lemma fill_amount:
  assumes "\<forall>p \<in> set ps. wf_point p \<and> start \<le> pt_t p \<and> pt_t p < fin" "0 < step"
  shows "sum_list (map amount (fill start fin step ps)) = sum_list (map amount ps)"
proof -
  have fold: "sum_list (map amount (fold (fill_one start step) ps out)) = sum_list (map amount out) + sum_list (map amount ps)"
    if "\<forall>b \<in> set out. wf_point b" "int (length out) = go_div (fin - start + step - 1) step" for out
    using assms(1) that
  proof (induction ps arbitrary: out)
    case (Cons p ps)
    have "sum_list (map amount (fill_one start step p out)) = sum_list (map amount out) + amount p"
      using Cons.prems step_in_range [OF assms(2), of start "pt_t p" fin] by (intro fill_one_amount) auto
    moreover have "\<forall>b \<in> set (fill_one start step p out). wf_point b" using Cons.prems by (intro fill_one_wf) auto
    ultimately show ?case using Cons.IH [of "fill_one start step p out"] Cons.prems by (simp add: ac_simps)
  qed simp
  have range: "0 \<le> go_div (fin - start + step - 1) step \<or> ps = []"
    using step_in_range [OF assms(2)] assms(1) by (cases ps) force+
  show ?thesis
  proof (cases "0 \<le> go_div (fin - start + step - 1) step")
    case True
    then show ?thesis
      using fold [of "replicate (nat (go_div (fin - start + step - 1) step)) no_point"]
      by (simp add: fill_def amount_empty no_point_def sum_list_zeros)
  qed (use range in \<open>simp add: fill_def\<close>)
qed

lemma sum_by_class:
  assumes "\<forall>p \<in># m. f p \<in> H" "finite H"
  shows "(\<Sum>p \<in># m. amount p) = (\<Sum>h \<in> H. \<Sum>p \<in># filter_mset (\<lambda>p. f p = h) m. amount p)"
  using assms(1)
proof (induction m)
  case (add x m)
  have "(\<Sum>h \<in> H. \<Sum>p \<in># filter_mset (\<lambda>p. f p = h) (add_mset x m). amount p) =
    (\<Sum>h \<in> H. (if f x = h then amount x else 0) + (\<Sum>p \<in># filter_mset (\<lambda>p. f p = h) m. amount p))"
    by (rule sum.cong) simp_all
  also have "\<dots> = amount x + (\<Sum>h \<in> H. \<Sum>p \<in># filter_mset (\<lambda>p. f p = h) m. amount p)"
    using add.prems assms(2) by (simp add: sum.distrib)
  finally show ?case using add by simp
qed simp

end

subsection \<open>The points of a range\<close>

lemma range_points_good:
  assumes "series_inv l s"
  obtains ps where "range_points good_disk s fine start fin = Some ps"
    "mset ps = filter_mset (\<lambda>p. start \<le> pt_t p \<and> pt_t p < fin) (mset (stored (if fine then se_fine_files s else se_coarse_files s))) +
      mset (map clone_point (filter (\<lambda>p. 0 < pt_s p \<and> start \<le> pt_t p \<and> pt_t p < fin) ([se_cur s] @ (if fine then [] else [se_acc s]))))"
proof -
  have "tier_ok (if fine then se_fine s else se_coarse s) (if fine then se_fine_files s else se_coarse_files s)"
    using assms by (simp add: series_inv_def files_inv_def)
  moreover have "\<forall>k. di_read good_disk t k" for t by (simp add: good_disk_def)
  ultimately obtain ps where "read_tier (if fine then se_fine s else se_coarse s) (di_read good_disk (if fine then se_fine s else se_coarse s))
      (if fine then se_fine_files s else se_coarse_files s) start fin = Some ps"
    "mset ps = filter_mset (\<lambda>p. start \<le> pt_t p \<and> pt_t p < fin) (mset (stored (if fine then se_fine_files s else se_coarse_files s)))"
    by (rule read_tier_exact [where a = start and b = fin]) blast
  then show thesis using that unfolding range_points_def Let_def by simp
qed

lemma clone_simps [simp]: "pt_t (clone_point p) = pt_t p" "pt_s (clone_point p) = pt_s p"
  by (simp_all add: clone_point_def)

lemma range_points_ok:
  assumes "series_inv l s" "range_points good_disk s fine start fin = Some ps" "p \<in> set ps"
  shows "wf_point p \<and> 0 < pt_s p \<and> start \<le> pt_t p \<and> pt_t p < fin"
proof -
  have m: "mset ps = filter_mset (\<lambda>p. start \<le> pt_t p \<and> pt_t p < fin) (mset (stored (if fine then se_fine_files s else se_coarse_files s))) +
      mset (map clone_point (filter (\<lambda>p. 0 < pt_s p \<and> start \<le> pt_t p \<and> pt_t p < fin) ([se_cur s] @ (if fine then [] else [se_acc s]))))"
    using range_points_good [OF assms(1), of fine start fin] assms(2) by force
  have "p \<in># mset ps" using assms(3) by simp
  then show ?thesis
    using assms(1) stored_point(1) [of "se_fine s" "se_fine_files s" p] stored_point(1) [of "se_coarse s" "se_coarse_files s" p]
    unfolding m by (auto simp: series_inv_def files_inv_def split: if_splits)
qed

context amount
begin

text \<open>Both tiers show the same of an hour inside the range.\<close>

lemma range_hour:
  assumes inv: "series_inv l s" and bal: "balance h s" and h: "start \<le> h" "h + tr_step (se_coarse s) \<le> fin" "0 \<le> start"
    and r: "range_points good_disk s fine start fin = Some ps"
  shows "(\<Sum>p \<in># filter_mset (\<lambda>p. hour_of s p = h) (mset ps). amount p) = in_fine amount h s + in_cur amount h s"
proof -
  let ?P = "\<lambda>p. start \<le> pt_t p \<and> pt_t p < fin" and ?c = "tr_step (se_coarse s)"
  let ?live = "\<lambda>p. mset (map clone_point (filter (\<lambda>p. 0 < pt_s p \<and> ?P p) [p]))"
  have "mset ps = filter_mset ?P (mset (stored (if fine then se_fine_files s else se_coarse_files s))) +
      mset (map clone_point (filter (\<lambda>p. 0 < pt_s p \<and> ?P p) ([se_cur s] @ (if fine then [] else [se_acc s]))))"
    using range_points_good [OF inv, of fine start fin] r by force
  then have m: "mset ps = filter_mset ?P (mset (stored (if fine then se_fine_files s else se_coarse_files s))) + ?live (se_cur s) +
      (if fine then {#} else ?live (se_acc s))"
    by (simp only: filter_append map_append mset_append) (simp only: add.assoc split: if_split, simp)
  have c: "0 < ?c" and coarse: "\<And>p. p \<in> set (stored (se_coarse_files s)) \<Longrightarrow> 0 \<le> pt_t p \<and> pt_t p mod ?c = 0"
    and fine0: "\<And>p. p \<in> set (stored (se_fine_files s)) \<Longrightarrow> 0 \<le> pt_t p"
    using inv stored_point(2) [of "se_coarse s" "se_coarse_files s"] by (auto simp: series_inv_def files_inv_def shape_def)
  have inside: "?P p" if "0 \<le> pt_t p" "hour_of s p = h" for p
    using interval_grid(1,2) [OF that(1) c] that(2) h by (simp add: hour_of_def)
  have wf: "wf_point (se_cur s)" "wf_point (se_acc s)" using inv by (simp_all add: series_inv_def)
  have cur: "(\<Sum>p \<in># filter_mset (\<lambda>p. hour_of s p = h) (?live (se_cur s)). amount p) = in_cur amount h s"
    using inv inside [of "se_cur s"] amount_clone [OF wf(1)] by (auto simp: in_cur_def series_inv_def cur_ok_def hour_of_def)
  show ?thesis
  proof (cases fine)
    case True
    have f: "filter_mset (\<lambda>p. hour_of s p = h) (filter_mset ?P (mset (stored (se_fine_files s)))) =
        filter_mset (\<lambda>p. hour_of s p = h) (mset (stored (se_fine_files s)))"
      unfolding filter_filter_mset using inside fine0 by (intro filter_mset_cong) auto
    show ?thesis
      unfolding m if_P [OF True] filter_union_mset image_mset_union sum_mset.union f cur by (simp add: in_fine_def)
  next
    case False
    have f: "filter_mset (\<lambda>p. hour_of s p = h) (filter_mset ?P (mset (stored (se_coarse_files s)))) =
        filter_mset (\<lambda>p. pt_t p = h) (mset (stored (se_coarse_files s)))"
      unfolding filter_filter_mset using inside coarse c by (intro filter_mset_cong) (auto simp: hour_of_def interval_on_grid)
    have acc: "(\<Sum>p \<in># filter_mset (\<lambda>p. hour_of s p = h) (?live (se_acc s)). amount p) = in_acc amount h s"
      using inv inside [of "se_acc s"] amount_clone [OF wf(2)] c
      by (auto simp: in_acc_def series_inv_def acc_ok_def hour_of_def interval_on_grid)
    show ?thesis
      unfolding m if_not_P [OF False] filter_union_mset image_mset_union sum_mset.union f cur acc bal by (simp add: in_hours_def ac_simps)
  qed
qed

end

context amount
begin

lemma range_same:
  assumes inv: "series_inv l s" and bal: "\<forall>h. start \<le> h \<and> h < fin \<and> h mod 3600 = 0 \<longrightarrow> balance h s" and c: "tr_step (se_coarse s) = 3600"
    and r: "start mod 3600 = 0" "fin mod 3600 = 0" "0 \<le> start" and steps: "0 < step" "0 < step'"
    and ps: "range_points good_disk s True start fin = Some ps" "range_points good_disk s False start fin = Some qs"
  shows "sum_list (map amount (fill start fin step ps)) = sum_list (map amount (fill start fin step' qs))"
proof -
  let ?H = "{h. start \<le> h \<and> h < fin \<and> h mod 3600 = 0}"
  have H: "finite ?H" by (rule finite_subset [of _ "{start..<fin}"]) auto
  have total: "sum_list (map amount (fill start fin k xs)) = (\<Sum>h \<in> ?H. in_fine amount h s + in_cur amount h s)"
    if xs: "range_points good_disk s fine start fin = Some xs" and k: "0 < k" for fine xs k
  proof -
    note ok = range_points_ok [OF inv xs]
    have "hour_of s p \<in> ?H" if "p \<in> set xs" for p
    proof -
      have g: "interval (se_coarse s) (pt_t p) \<le> pt_t p" "interval (se_coarse s) (pt_t p) mod 3600 = 0"
        using interval_grid [of "pt_t p" "se_coarse s"] ok [OF that] r(3) c by auto
      moreover have "start \<le> interval (se_coarse s) (pt_t p)" using interval_below [of "pt_t p" "se_coarse s" start] ok [OF that] r c by auto
      ultimately show ?thesis using ok [OF that] by (simp add: hour_of_def)
    qed
    then have "sum_mset (image_mset amount (mset xs)) =
        (\<Sum>h \<in> ?H. sum_mset (image_mset amount (filter_mset (\<lambda>p. hour_of s p = h) (mset xs))))"
      by (intro sum_by_class [OF _ H]) simp
    also have "\<dots> = (\<Sum>h \<in> ?H. in_fine amount h s + in_cur amount h s)"
    proof (rule sum.cong [OF refl])
      fix h assume "h \<in> ?H"
      then have "h + 3600 \<le> fin" "start \<le> h" "balance h s" using grid_apart [of h 3600 fin] r(2) bal by auto
      then show "sum_mset (image_mset amount (filter_mset (\<lambda>p. hour_of s p = h) (mset xs))) = in_fine amount h s + in_cur amount h s"
        using range_hour [OF inv _ _ _ r(3) xs, of h] c by simp
    qed
    finally show ?thesis using fill_amount [of xs start fin k] ok k by (simp flip: sum_mset_sum_list)
  qed
  show ?thesis using total [OF ps(1) steps(1)] total [OF ps(2) steps(2)] by simp
qed

end


subsection \<open>The list of workers\<close>

lemma bytes_less_lex: "bytes_less s t \<longleftrightarrow> (map of_char s :: nat list) < map of_char t"
  by (induction s t rule: bytes_less.induct) auto

interpretation summaries: comparison summary_before
proof
  show "\<not> summary_before y x" if "summary_before x y" for x y
    using that by (auto simp: summary_before_def bytes_less_lex split: if_splits)
  show "summary_before x y \<or> summary_before y z" if "summary_before x z" for x y z
    using that by (auto simp: summary_before_def bytes_less_lex split: if_splits)
qed

lemma count_logins_merge: "count_logins start step to (i, b) m = merge_into new_total (\<lambda>w. total_add w (step_end start step to i)) (pt_w b) m"
  by (simp add: count_logins_def merge_into_def)

lemma count_logins_wf: "wf_map m \<Longrightarrow> wf_map (fold (count_logins start step to) ibs m)"
  by (induction ibs arbitrary: m) (auto simp: count_logins_merge merge_into_wf)

text \<open>Both ways of adding up a login.\<close>

lemma worker_totals:
  assumes "\<forall>x \<in> set ibs. no_gap_data (snd x)"
  shows "wt_part t = wt_part (get_or new_total m name) \<Longrightarrow> wt_last t = wt_last (get_or new_total m name) \<Longrightarrow>
    fold (count_step name start step to) ibs t =
      (get_or new_total (fold (count_logins start step to) ibs m) name)\<lparr>wt_recorded := wt_recorded t + sum_list (map (pt_s \<circ> snd) ibs)\<rparr>"
  using assms
proof (induction ibs arbitrary: t m)
  case Nil
  then show ?case by (cases t) simp
next
  case (Cons x ibs)
  obtain i b where x: "x = (i, b)" by fastforce
  let ?t = "count_step name start step to (i, b) t" and ?m = "count_logins start step to (i, b) m"
  have b: "no_gap_data b" using Cons.prems(3) x by simp
  then have wf: "wf_map (pt_w b)" "pt_s b = 0 \<Longrightarrow> pt_w b = []"
    by (auto simp: no_gap_data_def wf_point_def no_point_def empty_point_def)
  have m: "get_or new_total ?m name = (case map_of (pt_w b) name of None \<Rightarrow> get_or new_total m name
      | Some w \<Rightarrow> total_add w (step_end start step to i) (get_or new_total m name))"
    unfolding count_logins_merge by (rule merge_into_get [OF wf(1)])
  have t: "wt_part ?t = wt_part (get_or new_total ?m name)" "wt_last ?t = wt_last (get_or new_total ?m name)"
    "wt_recorded ?t = wt_recorded t + pt_s b"
    using Cons.prems(1,2) wf(2) by (auto simp: m count_step_def total_add_def Let_def split: option.split)
  show ?case using Cons.IH [OF t(1,2)] Cons.prems(3) t(3) x by (simp add: add.assoc)
qed

lemma buckets_good:
  assumes "series_inv l s" "frm < to"
  obtains bs start step where "buckets good_disk ret now s frm to max_points = Inr (bs, start, step)" "\<forall>b \<in> set bs. no_gap_data b"
proof -
  let ?fine = "use_fine ret now s frm to"
  let ?step = "step_for (if ?fine then se_fine s else se_coarse s) (time_sub to frm) max_points"
  let ?start = "unix frm - go_mod (unix frm) ?step"
  obtain ps where ps: "range_points good_disk s ?fine ?start (unix to) = Some ps" using range_points_good [OF assms(1)] by blast
  have "\<forall>b \<in> set (fill ?start (unix to) ?step ps). no_gap_data b" by (rule fill_gap) (use range_points_ok [OF assms(1) ps] in blast)
  moreover have "buckets good_disk ret now s frm to max_points = Inr (fill ?start (unix to) ?step ps, ?start, ?step)"
    using assms(2) ps by (simp add: buckets_def Let_def)
  ultimately show thesis using that by blast
qed

lemma buckets_InrD:
  assumes "buckets d ret now s frm to max_points = Inr (bs, start, step)"
  obtains ps where "frm < to" "bs = fill start (unix to) step ps" "start = unix frm - go_mod (unix frm) step"
    "step = step_for (if use_fine ret now s frm to then se_fine s else se_coarse s) (time_sub to frm) max_points"
proof -
  define k where "k = step_for (if use_fine ret now s frm to then se_fine s else se_coarse s) (time_sub to frm) max_points"
  define a where "a = unix frm - go_mod (unix frm) k"
  note def = assms [unfolded buckets_def Let_def, folded k_def, folded a_def]
  have lt: "frm < to" using def by (simp split: if_split_asm)
  show thesis
  proof (cases "range_points d s (use_fine ret now s frm to) a (unix to)")
    case None
    then show thesis using def lt by simp
  next
    case (Some ps)
    then have "bs = fill a (unix to) k ps" "a = start" "k = step" using def lt by auto
    then show thesis using that [of ps] lt a_def k_def by blast
  qed
qed

text \<open>The list of workers says of every ASIC what its own chart says. \<open>Workers\<close> lists every login at most once, best
  hashrate first and equal ones by name, and its entry is the summary that the chart of that login has over the same
  range; a login without an entry has an empty summary.\<close>

theorem worker_list_agrees:
  assumes "history_run h True r" "0 < h" "h mod 3600 = 0"
    and "workers_query good_disk ret now r frm to = Inr ws" "worker_query good_disk ret now r name frm to 400 = Inr c"
  shows "sorted_wrt (\<lambda>a b. \<not> summary_before b a) ws \<and> distinct (map ws_name ws) \<and>
    (if name \<in> ws_name ` set ws then wc_summary c \<in> set ws \<and> ws_name (wc_summary c) = name
     else ws_accepted (wc_summary c) = 0 \<and> ws_rejected (wc_summary c) = 0 \<and> ws_online (wc_summary c) = 0 \<and> ws_last_seen (wc_summary c) = 0)"
proof -
  have inv: "series_inv (unix (re_last_at r)) (re_workers r)"
    using seconds.history_run_ok [OF assms(1-3)] by (simp add: seconds.recorder_ok_def seconds.series_ok_def)
  have "frm < to" using assms(4) by (simp add: workers_query_def buckets_def split: if_splits)
  then obtain bs start step where b: "buckets good_disk ret now (re_workers r) frm to 400 = Inr (bs, start, step)" "\<forall>b \<in> set bs. no_gap_data b"
    using buckets_good [OF inv] by blast
  define m where "m = fold (count_logins start step to) (enumerate 0 bs) []"
  let ?n = "sum_list (map pt_s bs)"
  let ?f = "\<lambda>(name, t). total_summary name (t\<lparr>wt_recorded := ?n\<rparr>)"
  have ws: "ws = sort_by summary_before (map ?f m)" and c: "c = worker_chart_of name bs start step to"
    using assms(4,5) b(1) by (simp_all add: workers_query_def worker_query_def workers_of_def m_def)
  have wf: "wf_map m" unfolding m_def by (rule count_logins_wf) simp
  have names: "map ws_name (map ?f m) = map fst m" by (simp add: total_summary_def case_prod_beta)
  have "mset (map ws_name ws) = mset (map fst m)" unfolding names [symmetric] ws by (simp only: mset_map mset_sort_by)
  then have distinct: "distinct (map ws_name ws)" using wf mset_eq_imp_distinct_iff by blast
  have sorted: "sorted_wrt (\<lambda>a b. \<not> summary_before b a) ws" unfolding ws by (rule summaries.sorted_sort)
  have "set (map ws_name ws) = set (map fst m)" unfolding names [symmetric] ws by (simp only: set_map set_sort_by)
  then have keys: "ws_name ` set ws = fst ` set m" by simp
  have e: "\<forall>x \<in> set (enumerate 0 bs). no_gap_data (snd x)" using b(2) by (auto simp: in_set_enumerate_eq)
  have n: "sum_list (map (pt_s \<circ> snd) (enumerate 0 bs)) = ?n" by (simp only: map_map [symmetric] map_snd_enumerate)
  have "fold (count_step name start step to) (enumerate 0 bs) new_total = (get_or new_total m name)\<lparr>wt_recorded := ?n\<rparr>"
    using worker_totals [OF e, of new_total "[]" name start step to] unfolding n m_def by (simp add: get_or_def new_total_def)
  then have sum: "wc_summary c = total_summary name ((get_or new_total m name)\<lparr>wt_recorded := ?n\<rparr>)"
    by (simp add: c worker_chart_of_def)
  show ?thesis
  proof (cases "name \<in> fst ` set m")
    case True
    then obtain t where t: "map_of m name = Some t" by (metis map_of_eq_None_iff not_None_eq)
    then have "?f (name, t) \<in> set ws" unfolding ws set_sort_by set_map by (intro imageI map_of_SomeD)
    then have "wc_summary c \<in> set ws" using sum t by (simp add: get_or_def)
    moreover have "ws_name (wc_summary c) = name" unfolding sum by (simp add: total_summary_def)
    moreover have "name \<in> ws_name ` set ws" unfolding keys by (rule True)
    ultimately show ?thesis using distinct sorted by (simp only: if_True simp_thms)
  next
    case False
    then have "map_of m name = None" by (simp only: map_of_eq_None_iff not_False_eq_True)
    then have "get_or new_total m name = new_total" by (simp add: get_or_def)
    then have "ws_accepted (wc_summary c) = 0 \<and> ws_rejected (wc_summary c) = 0 \<and> ws_online (wc_summary c) = 0 \<and> ws_last_seen (wc_summary c) = 0"
      unfolding sum by (simp add: total_summary_def new_total_def zero_worker_part_def)
    moreover have "name \<notin> ws_name ` set ws" unfolding keys by (rule False)
    ultimately show ?thesis using distinct sorted by (simp only: if_False simp_thms)
  qed
qed

subsection \<open>The size of a chart\<close>

lemma chart_step_in: "chart_step need \<in> set chart_steps" "need \<le> 2592000 \<Longrightarrow> need \<le> chart_step need"
  by (auto simp: chart_step_def chart_steps_def split: option.split dest: find_Some_iff' find_None_iff' [THEN iffD1])

lemma chart_steps_pos: "x \<in> set chart_steps \<Longrightarrow> 0 < x"
  by (auto simp: chart_steps_def)

lemma unix_diff: "unix b - unix a \<le> (b - a) div second + 1"
  unfolding unix_def by linarith

lemma div_up: "0 < k \<Longrightarrow> x \<le> k * m \<Longrightarrow> (x + k - 1) div k \<le> (m :: int)"
proof -
  assume "0 < k" "x \<le> k * m"
  then have "(x + k - 1) div k \<le> (k * m + (k - 1)) div k" by (intro zdiv_mono1) simp_all
  also have "\<dots> = m" using \<open>0 < k\<close> by simp
  finally show ?thesis .
qed

lemma div_up_least: "0 < k \<Longrightarrow> x \<le> k * ((x + k - 1) div (k :: int))"
proof -
  assume "0 < k"
  have "x + k - 1 = k * ((x + k - 1) div k) + (x + k - 1) mod k" "(x + k - 1) mod k < k" using \<open>0 < k\<close> by simp_all
  then show ?thesis by linarith
qed

text \<open>A chart covers its range in at most one step more than was asked for. As long as the range is not longer than
  the steps asked for (at least ten) of thirty days each, the steps have one of the round lengths, the first one starts at
  or before the range, the last one ends at or after it, and there are at most as many as asked for and one more.\<close>

theorem chart_size:
  assumes b: "buckets d ret now s frm to max_points = Inr (bs, start, step)" and frm: "0 \<le> frm" and wide: "to - frm \<le> max_duration"
    and n: "n = max max_points 10" "(to - frm) div second \<le> n * 2592000"
    and tiers: "tr_step (se_fine s) \<le> 2592000" "tr_step (se_coarse s) \<le> 2592000"
  shows "step \<in> set chart_steps \<and> start \<le> unix frm \<and> unix frm < start + step \<and> unix to \<le> start + step * int (length bs) \<and>
    int (length bs) \<le> n + 1"
proof -
  let ?w = "(to - frm) div second"
  obtain ps where lt: "frm < to" and bs: "bs = fill start (unix to) step ps" and start: "start = unix frm - go_mod (unix frm) step"
    and step: "step = step_for (if use_fine ret now s frm to then se_fine s else se_coarse s) (time_sub to frm) max_points"
    using buckets_InrD [OF b] by blast
  define need where "need = max (tr_step (if use_fine ret now s frm to then se_fine s else se_coarse s)) (go_div (go_div (time_sub to frm) second + n - 1) n)"
  have sub: "time_sub to frm = to - frm" using time_sub_exact [of to frm] lt wide by (simp add: min_duration_def)
  have w: "0 \<le> ?w" using lt by (simp add: pos_imp_zdiv_nonneg_iff)
  have go: "go_div (go_div (time_sub to frm) second + n - 1) n = (?w + n - 1) div n"
    using lt n(1) w by (simp add: sub go_div_nonneg_eq)
  have "?w \<le> n * ((?w + n - 1) div n)" "(?w + n - 1) div n \<le> 2592000"
    using div_up_least [of n ?w] div_up [of n ?w 2592000] n by (simp_all add: mult.commute)
  then have need: "(?w + n - 1) div n \<le> need" "need \<le> 2592000" using go tiers by (auto simp: need_def)
  have step: "step = chart_step need" using step by (simp add: step_for_def Let_def need_def n(1))
  have s: "step \<in> set chart_steps" "need \<le> step" "0 < step" using chart_step_in need(2) chart_steps_pos step by auto
  have u: "0 \<le> unix frm" using frm by (simp add: unix_def pos_imp_zdiv_nonneg_iff)
  have st: "start = unix frm - unix frm mod step" "0 \<le> unix frm mod step" "unix frm mod step < step"
    using start go_mod_nonneg_eq [OF u s(3)] s(3) by simp_all
  have e: "unix frm \<le> unix to" using lt by (simp add: unix_def zdiv_mono1)
  have len: "int (length bs) = (unix to - start + step - 1) div step"
    using s(3) e st by (simp add: bs fill_def go_div_nonneg_eq pos_imp_zdiv_nonneg_iff fill_fold_length)
  have "?w \<le> n * step"
    using \<open>?w \<le> n * ((?w + n - 1) div n)\<close> need(1) s(2) n(1) by (meson mult_left_mono order_trans max.coboundedI2 zero_le_numeral)
  then have "unix to - start \<le> step * (n + 1)" using unix_diff [of to frm] st(1,3) by (simp add: algebra_simps)
  then have "int (length bs) \<le> n + 1" using div_up [OF s(3)] len by simp
  moreover have "unix to \<le> start + step * int (length bs)" using div_up_least [OF s(3), of "unix to - start"] len by simp
  ultimately show ?thesis using s(1) st by simp
qed

subsection \<open>Charts of the first hour\<close>

lemma example_inv: "series_inv (unix (re_last_at example_minute)) (re_totals example_minute)"
  "series_inv (unix (re_last_at example_minute)) (re_workers example_minute)"
  using seconds.history_run_ok [OF example_run] by (simp_all add: seconds.recorder_ok_def seconds.series_ok_def)


theorem worker_list_agrees_witness:
  "\<exists>ws c. workers_query good_disk example_retention (of_unix 3660) example_minute (of_unix 3600) (of_unix 7200) = Inr ws \<and>
     worker_query good_disk example_retention (of_unix 3660) example_minute ''rig1'' (of_unix 3600) (of_unix 7200) 400 = Inr c \<and>
     distinct (map ws_name ws)"
proof -
  have "of_unix 3600 < of_unix 7200" by (simp add: of_unix_def)
  then obtain bs start step where
    "buckets good_disk example_retention (of_unix 3660) (re_workers example_minute) (of_unix 3600) (of_unix 7200) 400 = Inr (bs, start, step)"
    by (rule buckets_good [OF example_inv(2)])
  then have q: "workers_query good_disk example_retention (of_unix 3660) example_minute (of_unix 3600) (of_unix 7200) =
      Inr (workers_of bs start step (of_unix 7200))"
    "worker_query good_disk example_retention (of_unix 3660) example_minute ''rig1'' (of_unix 3600) (of_unix 7200) 400 =
      Inr (worker_chart_of ''rig1'' bs start step (of_unix 7200))"
    by (simp_all add: workers_query_def worker_query_def)
  then show ?thesis using worker_list_agrees [OF example_run _ _ q] q by simp
qed

theorem chart_size_witness:
  "\<exists>bs start step. buckets good_disk example_retention (of_unix 3660) (re_totals example_minute) (of_unix 3600) (of_unix 7200) 60 = Inr (bs, start, step) \<and>
     step \<in> set chart_steps \<and> int (length bs) \<le> 61"
proof -
  have "of_unix 3600 < of_unix 7200" by (simp add: of_unix_def)
  then obtain bs start step where
    b: "buckets good_disk example_retention (of_unix 3660) (re_totals example_minute) (of_unix 3600) (of_unix 7200) 60 = Inr (bs, start, step)"
    by (rule buckets_good [OF example_inv(1)])
  have "tr_step (se_fine (re_totals example_minute)) \<le> 2592000" "tr_step (se_coarse (re_totals example_minute)) \<le> 2592000"
    using history_run_files(3) [OF example_run] by (simp_all add: is_totals_def minute_tier_def hour_tier_def)
  then show ?thesis using chart_size [OF b _ _ refl] b by (simp add: of_unix_def max_duration_def)
qed

end
