(* ===== verification/Pools.thy ===== *)
theory Pools
  imports State
begin

text \<open>
  Package \<open>pool\<close>, the file-level part of \<open>manager.go\<close>: what the operations of the pool manager do to
  the state file, as the closures they pass to \<open>Mutate\<close>.

  \<^item> \<open>input\<close> is a create or update request; \<open>apply_input\<close>, \<open>validate\<close>, \<open>check_name\<close> and \<open>make_id\<close> are
    the functions of the same names.
  \<^item> \<open>create_in\<close>, \<open>update_in\<close>, \<open>delete_in\<close>, \<open>fallback_in\<close>, \<open>profit_home_in\<close> and \<open>activate_in\<close> are the
    closures: the error, or the new file and what the closure assigns to the captured variables.
  \<^item> \<open>make_id\<close> searches for a free id with fuel; one more candidate than there are pools is enough.

  The lemmas show that a made id is free and proper, that the closures keep the declared invariant of a
  file, and what each of them changes.
\<close>

record input =
  in_id :: "string option"
  in_name :: "string option"
  in_coin :: "string option"
  in_addresses :: "address list option"
  in_host :: "string option"
  in_port :: "int option"
  in_tls :: "bool option"
  in_tls_skip_verify :: "bool option"
  in_username :: "string option"
  in_password :: "string option"
  in_profit_switch :: "bool option"
  in_timed_target :: "bool option"
  in_solo :: "bool option"

definition no_input :: input where
  "no_input = \<lparr>in_id = None, in_name = None, in_coin = None, in_addresses = None, in_host = None, in_port = None,
     in_tls = None, in_tls_skip_verify = None, in_username = None, in_password = None, in_profit_switch = None,
     in_timed_target = None, in_solo = None\<rparr>"

definition set_or :: "'a option \<Rightarrow> 'a \<Rightarrow> 'a" where
  "set_or x old = (case x of Some v \<Rightarrow> v | None \<Rightarrow> old)"

definition set_trimmed :: "string option \<Rightarrow> string \<Rightarrow> string" where
  "set_trimmed x old = (case x of Some v \<Rightarrow> trim_space v | None \<Rightarrow> old)"

definition input_addresses :: "input \<Rightarrow> address list \<Rightarrow> address list" where
  "input_addresses i old =
     (case in_addresses i of
        Some as \<Rightarrow> map (\<lambda>a. a\<lparr>host := trim_space (host a)\<rparr>) as
      | None \<Rightarrow>
          if in_host i \<noteq> None \<or> in_port i \<noteq> None then
            (let a = (if old \<noteq> [] then hd old else \<lparr>host = [], port = 0\<rparr>)
             in [\<lparr>host = set_trimmed (in_host i) (host a), port = set_or (in_port i) (port a)\<rparr>])
          else old)"

definition apply_input :: "input \<Rightarrow> pool \<Rightarrow> pool" where
  "apply_input i p =
     (let p = p\<lparr>p_name := set_trimmed (in_name i) (p_name p), p_coin := set_trimmed (in_coin i) (p_coin p),
                p_username := set_trimmed (in_username i) (p_username p),
                p_addresses := input_addresses i (p_addresses p),
                p_password := set_or (in_password i) (p_password p), p_tls := set_or (in_tls i) (p_tls p),
                p_tls_skip_verify := set_or (in_tls_skip_verify i) (p_tls_skip_verify p),
                p_profit_switch := set_or (in_profit_switch i) (p_profit_switch p),
                p_timed_target := set_or (in_timed_target i) (p_timed_target p), p_solo := set_or (in_solo i) (p_solo p)\<rparr>;
          p = (if \<not> p_profit_switch p \<or> p_solo p then p\<lparr>p_profit_home := False\<rparr> else p)
      in p\<lparr>p_coin := to_upper (p_coin p)\<rparr>)"

definition invalid_pool :: "(string, msg) gomap \<Rightarrow> api_error" where
  "invalid_pool errs = validation (Msg ''pool_invalid'' []) errs"

definition validate :: "pool \<Rightarrow> api_error + pool" where
  "validate p =
     (let p = (if p_tls_skip_verify p \<and> \<not> p_tls p then p\<lparr>p_tls_skip_verify := False\<rparr> else p)
      in if pool_field_errors p \<noteq> [] then Inl (invalid_pool (pool_field_errors p)) else Inr p)"

definition check_name :: "state_file \<Rightarrow> pool \<Rightarrow> api_error option" where
  "check_name f p =
     (if \<exists>x \<in> set (f_pools f). p_id x \<noteq> p_id p \<and> equal_fold (trim_space (p_name x)) (p_name p)
      then Some (invalid_pool [(''name'', Msg ''pool_name_taken'' [])]) else None)"

subsection \<open>Ids\<close>

fun id_chars :: "string \<Rightarrow> string \<Rightarrow> string" where
  "id_chars b [] = b"
| "id_chars b (c # cs) =
     (if 97 \<le> byte c \<and> byte c \<le> 122 \<or> is_digit c then id_chars (b @ [c]) cs
      else if b \<noteq> [] \<and> last b \<noteq> CHR ''_'' then id_chars (b @ ''_'') cs
      else id_chars b cs)"

definition trim_under :: "string \<Rightarrow> string" where
  "trim_under s = rev (dropWhile (\<lambda>c. c = CHR ''_'') (rev (dropWhile (\<lambda>c. c = CHR ''_'') s)))"

definition id_base :: "string \<Rightarrow> string" where
  "id_base name =
     (let b = trim_under (id_chars [] (to_lower name));
          b = (if 24 < length b then trim_under (take 24 b) else b)
      in if b = [] then ''pool'' else b)"

definition id_candidate :: "string \<Rightarrow> nat \<Rightarrow> string" where
  "id_candidate base n = (if n = 0 then base else base @ ''_'' @ show_nat (n + 1))"

fun free_id :: "string list \<Rightarrow> string \<Rightarrow> nat \<Rightarrow> nat \<Rightarrow> string option" where
  "free_id taken base n 0 = None"
| "free_id taken base n (Suc fuel) =
     (if id_candidate base n \<notin> set taken then Some (id_candidate base n) else free_id taken base (n + 1) fuel)"

definition make_id :: "string \<Rightarrow> state_file \<Rightarrow> string" where
  "make_id name f =
     (case free_id (map p_id (f_pools f)) (id_base name) 0 (length (f_pools f) + 1) of Some i \<Rightarrow> i | None \<Rightarrow> [])"

subsection \<open>Closures\<close>

definition only_timed_target :: "state_file \<Rightarrow> pool \<Rightarrow> state_file" where
  "only_timed_target f p =
     (if \<not> p_timed_target p then f
      else f\<lparr>f_pools := map (\<lambda>x. if p_id x \<noteq> p_id p then x\<lparr>p_timed_target := False\<rparr> else x) (f_pools f)\<rparr>)"

definition without :: "string list \<Rightarrow> string \<Rightarrow> string list" where
  "without ids i = filter (\<lambda>x. x \<noteq> i) ids"

fun existing_once :: "pool list \<Rightarrow> string \<Rightarrow> string list \<Rightarrow> string list \<Rightarrow> string list" where
  "existing_once ps skip out [] = out"
| "existing_once ps skip out (i # is) =
     (if find_pool ps i \<noteq> None \<and> i \<noteq> skip \<and> i \<notin> set out then existing_once ps skip (out @ [i]) is
      else existing_once ps skip out is)"

definition same_endpoint :: "pool \<Rightarrow> pool \<Rightarrow> bool" where
  "same_endpoint a b \<longleftrightarrow>
     p_addresses a = p_addresses b \<and> p_tls a = p_tls b \<and> p_tls_skip_verify a = p_tls_skip_verify b"

definition create_in :: "input \<Rightarrow> state_file \<Rightarrow> go_error + state_file \<times> (pool \<times> bool)" where
  "create_in i f =
     (case validate (apply_input i (zero_pool\<lparr>p_password := ''x''\<rparr>)) of
        Inl e \<Rightarrow> Inl (ApiErr e)
      | Inr p \<Rightarrow>
          (case check_name f p of
             Some e \<Rightarrow> Inl (ApiErr e)
           | None \<Rightarrow>
               (let add = (\<lambda>j. let p = p\<lparr>p_id := j\<rparr>; f = only_timed_target f p; f = f\<lparr>f_pools := f_pools f @ [p]\<rparr>
                            in if f_active f = [] then Inr (f\<lparr>f_active := j\<rparr>, p, True) else Inr (f, p, False))
                in case in_id i of
                     Some j \<Rightarrow>
                       if j = [] then add (make_id (p_name p) f)
                       else if \<not> valid_pool_id j then Inl (ApiErr (invalid_pool [(''id'', Msg ''pool_id'' [])]))
                       else if find_pool (f_pools f) j \<noteq> None
                       then Inl (ApiErr (conflict (Msg ''pool_id_taken'' [(''id'', PStr j)])))
                       else add j
                   | None \<Rightarrow> add (make_id (p_name p) f))))"

fun replace_pool :: "pool \<Rightarrow> pool list \<Rightarrow> pool list" where
  "replace_pool p [] = []"
| "replace_pool p (x # xs) = (if p_id x = p_id p then p # xs else x # replace_pool p xs)"

text \<open>The updated pool, the old one, and whether connections are affected.\<close>

definition update_in :: "string \<Rightarrow> input \<Rightarrow> state_file \<Rightarrow> go_error + state_file \<times> (pool \<times> pool \<times> bool)" where
  "update_in j i f =
     (case find_pool (f_pools f) j of
        None \<Rightarrow> Inl (ApiErr (pool_not_found j))
      | Some p \<Rightarrow>
          (case validate (apply_input i p) of
             Inl e \<Rightarrow> Inl (ApiErr e)
           | Inr n \<Rightarrow>
               (case check_name f n of
                  Some e \<Rightarrow> Inl (ApiErr e)
                | None \<Rightarrow>
                    Inr (only_timed_target (f\<lparr>f_pools := replace_pool n (f_pools f)\<rparr>) n, n, p,
                      \<not> same_endpoint n p \<or> p_username n \<noteq> p_username p \<or> p_password n \<noteq> p_password p))))"

definition delete_in :: "string \<Rightarrow> state_file \<Rightarrow> go_error + state_file \<times> string" where
  "delete_in j f =
     (case find_pool (f_pools f) j of
        None \<Rightarrow> Inl (ApiErr (pool_not_found j))
      | Some p \<Rightarrow>
          if f_active f = j then Inl (ApiErr (conflict (Msg ''pool_delete_active'' [])))
          else Inr (f\<lparr>f_pools := filter (\<lambda>x. p_id x \<noteq> j) (f_pools f), f_fallback := without (f_fallback f) j\<rparr>, p_name p))"

fun fallback_names :: "state_file \<Rightarrow> string list \<Rightarrow> string list \<Rightarrow> api_error + string list" where
  "fallback_names f seen [] = Inr []"
| "fallback_names f seen (j # js) =
     (case find_pool (f_pools f) j of
        None \<Rightarrow> Inl (validation (Msg ''pool_not_found'' [(''id'', PStr j)]) [])
      | Some p \<Rightarrow>
          if j = f_active f then Inl (validation (Msg ''fallback_active'' []) [])
          else if j \<in> set seen then Inl (validation (Msg ''fallback_duplicate'' [(''id'', PStr j)]) [])
          else (case fallback_names f (j # seen) js of Inl e \<Rightarrow> Inl e | Inr ns \<Rightarrow> Inr (p_name p # ns)))"

definition fallback_in :: "string list \<Rightarrow> state_file \<Rightarrow> go_error + state_file \<times> string list" where
  "fallback_in js f =
     (case fallback_names f [] js of Inl e \<Rightarrow> Inl (ApiErr e) | Inr ns \<Rightarrow> Inr (f\<lparr>f_fallback := js\<rparr>, ns))"

definition profit_home_in :: "string \<Rightarrow> state_file \<Rightarrow> go_error + state_file \<times> string" where
  "profit_home_in j f =
     (let mark = f\<lparr>f_pools := map (\<lambda>x. x\<lparr>p_profit_home := p_id x = j\<rparr>) (f_pools f)\<rparr> in
      if j = [] then Inr (mark, [])
      else (case find_pool (f_pools f) j of
          None \<Rightarrow> Inl (ApiErr (pool_not_found j))
        | Some p \<Rightarrow>
            if \<not> p_profit_switch p \<or> p_solo p
            then Inl (ApiErr (conflict (Msg ''profit_home_not_taking_part'' [(''pool'', PStr (p_name p))])))
            else Inr (mark, p_name p)))"

text \<open>The closure of \<open>activate\<close>. \<open>changed\<close> tells whether the pool or the test worker changed during the
  check; the result is the pool that was active before.\<close>

definition activate_in ::
  "string \<Rightarrow> bool \<Rightarrow> string list option \<Rightarrow> string \<Rightarrow> state_file \<Rightarrow> go_error + state_file \<times> string" where
  "activate_in j changed fallback name f =
     (if find_pool (f_pools f) j = None then Inl (ApiErr (pool_not_found j))
      else if changed then Inl (ApiErr (pool_check_failed (Msg ''pool_check_failed'' [(''pool'', PStr name)])))
      else
        (let from = f_active f; f = f\<lparr>f_active := j\<rparr> in
         case fallback of
           Some ids \<Rightarrow> Inr (f\<lparr>f_fallback := existing_once (f_pools f) j [] ids\<rparr>, from)
         | None \<Rightarrow>
             (let order = without (f_fallback f) j;
                  order = (if from \<noteq> [] \<and> from \<noteq> j then from # without order from else order)
              in Inr (f\<lparr>f_fallback := order\<rparr>, from))))"

subsection \<open>Made ids\<close>

lemma trim_under_subset: "set (trim_under s) \<subseteq> set s"
  unfolding trim_under_def by (auto dest!: set_dropWhileD)

lemma trim_under_length: "length (trim_under s) \<le> length s"
  unfolding trim_under_def by (simp add: order.trans [OF length_dropWhile_le] length_dropWhile_le)

lemma id_chars_proper: "list_all pool_id_char b \<Longrightarrow> list_all pool_id_char (id_chars b cs)"
  by (induction b cs rule: id_chars.induct) (auto simp: pool_id_char_def)

lemma id_base_proper: "list_all pool_id_char (id_base name) \<and> 1 \<le> length (id_base name) \<and> length (id_base name) \<le> 24"
proof -
  define b where "b = trim_under (id_chars [] (to_lower name))"
  define b' where "b' = (if 24 < length b then trim_under (take 24 b) else b)"
  have p: "list_all pool_id_char b"
    using trim_under_subset id_chars_proper [of "[]" "to_lower name"] by (force simp: b_def list_all_iff)
  then have p': "list_all pool_id_char b'"
    using trim_under_subset [of "take 24 b"] by (fastforce simp: b'_def list_all_iff dest: in_set_takeD)
  have "length b' \<le> 24" using trim_under_length [of "take 24 b"] by (auto simp: b'_def)
  moreover have "id_base name = (if b' = [] then ''pool'' else b')" by (simp add: id_base_def b_def b'_def Let_def)
  moreover have "list_all pool_id_char ''pool''" by code_simp
  ultimately show ?thesis using p' by (cases b') auto
qed

lemma show_nat_inj: "show_nat m = show_nat n \<longleftrightarrow> m = n"
  by (metis digits_val_show_nat)

lemma id_candidate_inj: "id_candidate base m = id_candidate base n \<Longrightarrow> m = n"
  by (auto simp: id_candidate_def show_nat_inj split: if_splits)

lemma show_nat_length: "n < 10 ^ k \<Longrightarrow> 0 < k \<Longrightarrow> length (show_nat n) \<le> k"
proof (induction k arbitrary: n)
  case (Suc k)
  show ?case
  proof (cases "n < 10")
    case True
    then show ?thesis by (subst show_nat.simps) simp
  next
    case False
    then have "0 < k" using Suc.prems(1) by (cases k) auto
    moreover have "n div 10 < 10 ^ k" using Suc.prems(1) by (simp add: div_less_iff_less_mult mult.commute)
    ultimately have "length (show_nat (n div 10)) \<le> k" using Suc.IH by blast
    then show ?thesis using False by (subst show_nat.simps) simp
  qed
qed simp

lemma free_id_some: "free_id taken base n fuel = Some i \<Longrightarrow> i \<notin> set taken \<and> (\<exists>m. m < n + fuel \<and> i = id_candidate base m)"
proof (induction taken base n fuel rule: free_id.induct)
  case (2 taken base n fuel)
  show ?case
  proof (cases "id_candidate base n \<in> set taken")
    case True
    then show ?thesis using 2 by simp
  next
    case False
    then show ?thesis using 2(2) by (auto intro: exI [of _ n])
  qed
qed simp

lemma free_id_none: "free_id taken base n fuel = None \<Longrightarrow> id_candidate base ` {n..<n + fuel} \<subseteq> set taken"
proof (induction taken base n fuel rule: free_id.induct)
  case (2 taken base n fuel)
  then have "id_candidate base n \<in> set taken" "free_id taken base (n + 1) fuel = None" by (auto split: if_splits)
  moreover have "{n..<n + Suc fuel} = insert n {n + 1..<n + 1 + fuel}" by auto
  ultimately show ?case using 2 by (simp split: if_splits)
qed simp

text \<open>One candidate more than there are ids is free.\<close>

lemma free_id_enough: "length taken < fuel \<Longrightarrow> \<exists>i. free_id taken base n fuel = Some i"
proof (rule ccontr)
  assume "length taken < fuel" "\<nexists>i. free_id taken base n fuel = Some i"
  then have s: "id_candidate base ` {n..<n + fuel} \<subseteq> set taken" using free_id_none by (cases "free_id taken base n fuel") auto
  have "card (id_candidate base ` {n..<n + fuel}) = fuel"
    by (subst card_image) (auto intro: inj_onI id_candidate_inj)
  then have "fuel \<le> card (set taken)" using card_mono [OF _ s] by simp
  then show False using card_length [of taken] \<open>length taken < fuel\<close> by linarith
qed

lemma make_id_cases:
  obtains m where "free_id (map p_id (f_pools f)) (id_base name) 0 (length (f_pools f) + 1) = Some (make_id name f)"
    "make_id name f \<notin> set (map p_id (f_pools f))" "m \<le> length (f_pools f)" "make_id name f = id_candidate (id_base name) m"
proof -
  obtain i where i: "free_id (map p_id (f_pools f)) (id_base name) 0 (length (f_pools f) + 1) = Some i"
    using free_id_enough [of "map p_id (f_pools f)" "length (f_pools f) + 1"] by auto
  then have "make_id name f = i" by (simp add: make_id_def)
  then show ?thesis using that free_id_some [OF i] i by auto
qed

lemma make_id_valid:
  assumes "length (f_pools f) < 999999"
  shows "valid_pool_id (make_id name f)"
proof (rule make_id_cases [of f name])
  fix m assume m: "m \<le> length (f_pools f)" "make_id name f = id_candidate (id_base name) m"
  have "length (show_nat (m + 1)) \<le> 6" using m(1) assms by (intro show_nat_length) simp_all
  moreover have "list_all pool_id_char (show_nat (m + 1))"
    using show_nat_digits [of "m + 1"] by (simp add: list_all_iff pool_id_char_def)
  moreover have "pool_id_char CHR ''_''" by code_simp
  ultimately show ?thesis using id_base_proper [of name] m(2)
    by (auto simp: valid_pool_id_def id_candidate_def)
qed

subsection \<open>The closures keep a file valid\<close>

lemma find_pool_iff: "find_pool ps j = Some p \<Longrightarrow> p \<in> set ps \<and> p_id p = j"
  by (auto simp: find_pool_def dest: find_Some_iff')

lemma find_pool_none: "find_pool ps j = None \<longleftrightarrow> j \<notin> p_id ` set ps"
  by (auto simp: find_pool_def find_None_iff')

lemma find_pool_some: "find_pool ps j \<noteq> None \<longleftrightarrow> j \<in> p_id ` set ps"
  by (simp add: find_pool_none del: not_None_eq)

lemma field_errors_marks [simp]:
  "pool_field_errors (p\<lparr>p_id := j\<rparr>) = pool_field_errors p" "pool_field_errors (p\<lparr>p_timed_target := b\<rparr>) = pool_field_errors p"
  "pool_field_errors (p\<lparr>p_profit_home := b\<rparr>) = pool_field_errors p"
  by (simp_all add: pool_field_errors_def)

lemma valid_pool_marks [simp]:
  "valid_pool (p\<lparr>p_timed_target := b\<rparr>) = valid_pool p" "valid_pool (p\<lparr>p_profit_home := b\<rparr>) = valid_pool p"
  by (simp_all add: valid_pool_def)

lemma validate_ok: "validate p = Inr q \<Longrightarrow> pool_field_errors q = [] \<and> p_id q = p_id p"
  by (auto simp: validate_def Let_def split: if_splits)

lemma apply_input_id [simp]: "p_id (apply_input i p) = p_id p"
  by (simp add: apply_input_def Let_def)

lemma only_timed_target_simps [simp]:
  "map p_id (f_pools (only_timed_target f p)) = map p_id (f_pools f)" "f_active (only_timed_target f p) = f_active f"
  "f_fallback (only_timed_target f p) = f_fallback f" "f_settings (only_timed_target f p) = f_settings f"
  "f_version (only_timed_target f p) = f_version f" "f_token (only_timed_target f p) = f_token f"
  by (simp_all add: only_timed_target_def comp_def if_distrib)

lemma only_timed_target_pools:
  "list_all valid_pool (f_pools (only_timed_target f p)) \<longleftrightarrow> list_all valid_pool (f_pools f)"
proof -
  have "valid_pool \<circ> (\<lambda>x. if p_id x \<noteq> p_id p then x\<lparr>p_timed_target := False\<rparr> else x) = valid_pool"
    by (simp add: fun_eq_iff)
  then show ?thesis by (simp add: only_timed_target_def list.pred_map)
qed

lemma only_timed_target_ids [simp]: "p_id ` set (f_pools (only_timed_target f p)) = p_id ` set (f_pools f)"
  by (metis only_timed_target_simps(1) list.set_map)

lemma only_timed_target_nil [simp]: "f_pools (only_timed_target f p) = [] \<longleftrightarrow> f_pools f = []"
  by (simp add: only_timed_target_def)

lemmas valid_file_simps = valid_file_def Let_def list.set_map

lemma create_in_cases:
  assumes "create_in i f = Inr (f', p, made)" "length (f_pools f) < 999999"
  obtains "valid_pool p" "p_id p \<notin> p_id ` set (f_pools f)" "check_name f (p\<lparr>p_id := []\<rparr>) = None"
    "made \<longleftrightarrow> f_active f = []"
    "f' = (only_timed_target f p)\<lparr>f_pools := f_pools (only_timed_target f p) @ [p], f_active := (if made then p_id p else f_active f)\<rparr>"
proof -
  obtain q where q: "validate (apply_input i (zero_pool\<lparr>p_password := ''x''\<rparr>)) = Inr q"
    using assms(1) by (auto simp: create_in_def split: sum.splits)
  have n: "check_name f q = None" using assms(1) q by (auto simp: create_in_def split: option.splits)
  have e: "pool_field_errors q = []" "p_id q = []" using validate_ok [OF q] by (simp_all add: zero_pool_def)
  obtain j where j: "valid_pool_id j" "j \<notin> p_id ` set (f_pools f)" "p = q\<lparr>p_id := j\<rparr>" "made \<longleftrightarrow> f_active f = []"
    "f' = (only_timed_target f p)\<lparr>f_pools := f_pools (only_timed_target f p) @ [p], f_active := (if made then p_id p else f_active f)\<rparr>"
  proof (cases "in_id i = None \<or> in_id i = Some []")
    case True
    moreover have "make_id (p_name q) f \<notin> p_id ` set (f_pools f)" by (rule make_id_cases [of f "p_name q"]) simp
    ultimately show ?thesis using that [of "make_id (p_name q) f"] assms q n make_id_valid [OF assms(2)]
      by (auto simp: create_in_def Let_def split: if_splits)
  next
    case False
    then obtain j where "in_id i = Some j" "j \<noteq> []" by auto
    then show ?thesis using that [of j] assms(1) q n find_pool_none [of "f_pools f" j]
      by (auto simp: create_in_def Let_def split: if_splits)
  qed
  have "p\<lparr>p_id := []\<rparr> = q" using j(3) e(2) by (cases q) simp
  then show ?thesis using that j e(1) n by (simp add: valid_pool_def)
qed

lemma create_in_valid:
  assumes "valid_file f" "length (f_pools f) < 999999" "create_in i f = Inr (f', r)"
  shows "valid_file f'"
proof -
  obtain p made where r: "r = (p, made)" by fastforce
  show ?thesis using assms(3) [unfolded r] assms(2)
  proof (rule create_in_cases)
    assume p: "valid_pool p" "p_id p \<notin> p_id ` set (f_pools f)" "made \<longleftrightarrow> f_active f = []"
      and f': "f' = (only_timed_target f p)\<lparr>f_pools := f_pools (only_timed_target f p) @ [p], f_active := (if made then p_id p else f_active f)\<rparr>"
    have "p_id p \<noteq> []" using p(1) by (auto simp: valid_pool_def dest: valid_pool_id_nonempty)
    moreover have "f_active f = [] \<Longrightarrow> f_fallback f = []" using assms(1) by (auto simp: valid_file_simps)
    ultimately show ?thesis using p(1,2,3) assms(1) only_timed_target_pools [of f p]
      by (auto simp: f' valid_file_simps)
  qed
qed

lemma replace_pool_ids [simp]: "map p_id (replace_pool n ps) = map p_id ps"
  by (induction ps) auto

lemma replace_pool_id_set [simp]: "p_id ` set (replace_pool n ps) = p_id ` set ps"
  by (metis replace_pool_ids list.set_map)

lemma replace_pool_set: "set (replace_pool n ps) \<subseteq> insert n (set ps)"
  by (induction ps) auto

lemma replace_pool_nil [simp]: "replace_pool n ps = [] \<longleftrightarrow> ps = []"
  by (cases ps) auto

lemma update_in_cases:
  assumes "update_in j i f = Inr (f', n, p, changed)"
  obtains "find_pool (f_pools f) j = Some p" "p_id n = j" "pool_field_errors n = []" "check_name f n = None"
    "changed \<longleftrightarrow> \<not> same_endpoint n p \<or> p_username n \<noteq> p_username p \<or> p_password n \<noteq> p_password p"
    "f' = only_timed_target (f\<lparr>f_pools := replace_pool n (f_pools f)\<rparr>) n"
proof -
  obtain q where q: "find_pool (f_pools f) j = Some q" using assms by (auto simp: update_in_def split: option.splits)
  obtain r where r: "validate (apply_input i q) = Inr r" using assms q by (auto simp: update_in_def split: sum.splits)
  have "check_name f r = None" "r = n" "q = p" "f' = only_timed_target (f\<lparr>f_pools := replace_pool n (f_pools f)\<rparr>) n"
    "changed \<longleftrightarrow> \<not> same_endpoint n p \<or> p_username n \<noteq> p_username p \<or> p_password n \<noteq> p_password p"
    using assms q r by (auto simp: update_in_def split: option.splits)
  then show ?thesis using that q validate_ok [OF r] find_pool_iff [OF q] by auto
qed

lemma update_in_valid:
  assumes "valid_file f" "update_in j i f = Inr (f', r)"
  shows "valid_file f'"
proof -
  obtain n p changed where r: "r = (n, p, changed)" by (metis prod.exhaust)
  show ?thesis using assms(2) [unfolded r]
  proof (rule update_in_cases)
    assume f: "find_pool (f_pools f) j = Some p" "p_id n = j" "pool_field_errors n = []"
      and f': "f' = only_timed_target (f\<lparr>f_pools := replace_pool n (f_pools f)\<rparr>) n"
    have "valid_pool_id j" using find_pool_iff [OF f(1)] assms(1) by (auto simp: valid_file_simps list_all_iff valid_pool_def)
    then have "valid_pool n" using f by (simp add: valid_pool_def)
    then have "list_all valid_pool (replace_pool n (f_pools f))"
      using assms(1) replace_pool_set [of n "f_pools f"] by (auto simp: valid_file_simps list_all_iff)
    then show ?thesis using assms(1) by (simp add: f' valid_file_simps only_timed_target_pools)
  qed
qed

lemma delete_in_valid:
  assumes "valid_file f" "delete_in j f = Inr (f', r)"
  shows "valid_file f'"
proof -
  have f: "find_pool (f_pools f) j \<noteq> None" "f_active f \<noteq> j"
    "f' = f\<lparr>f_pools := filter (\<lambda>x. p_id x \<noteq> j) (f_pools f), f_fallback := without (f_fallback f) j\<rparr>"
    using assms(2) by (auto simp: delete_in_def split: option.splits if_splits)
  then have "f_pools f \<noteq> []" by (auto simp: find_pool_def)
  then have "f_active f \<in> p_id ` set (f_pools f)" using assms(1) by (auto simp: valid_file_simps)
  then obtain x where "x \<in> set (f_pools f)" "p_id x = f_active f" by auto
  then have "x \<in> set (filter (\<lambda>x. p_id x \<noteq> j) (f_pools f))" using f(2) by auto
  then show ?thesis using assms(1) f(2,3) \<open>p_id x = f_active f\<close>
    by (auto simp: valid_file_simps without_def list_all_iff distinct_map inj_on_def filter_empty_conv)
qed

lemma fallback_names_ok:
  "fallback_names f seen js = Inr ns \<Longrightarrow>
     distinct js \<and> set js \<inter> set seen = {} \<and> set js \<subseteq> p_id ` set (f_pools f) - {f_active f} \<and> length ns = length js"
proof (induction f seen js arbitrary: ns rule: fallback_names.induct)
  case (2 f seen j js)
  then obtain p ms where "find_pool (f_pools f) j = Some p" "j \<noteq> f_active f" "j \<notin> set seen" "fallback_names f (j # seen) js = Inr ms"
    "ns = p_name p # ms" by (auto split: option.splits if_splits sum.splits)
  with 2(1) [of p ms] show ?case using find_pool_iff [of "f_pools f" j p] by auto
qed simp

lemma fallback_in_valid:
  assumes "valid_file f" "fallback_in js f = Inr (f', r)"
  shows "valid_file f'"
proof -
  obtain ns where "fallback_names f [] js = Inr ns" "f' = f\<lparr>f_fallback := js\<rparr>"
    using assms(2) by (auto simp: fallback_in_def split: sum.splits)
  then show ?thesis using assms(1) fallback_names_ok [of f "[]" js ns] by (auto simp: valid_file_simps)
qed

lemma profit_home_in_file:
  "profit_home_in j f = Inr (f', r) \<Longrightarrow> f' = f\<lparr>f_pools := map (\<lambda>x. x\<lparr>p_profit_home := p_id x = j\<rparr>) (f_pools f)\<rparr>"
  by (auto simp: profit_home_in_def Let_def split: if_splits option.splits)

lemma profit_home_in_valid:
  assumes "valid_file f" "profit_home_in j f = Inr (f', r)"
  shows "valid_file f'"
proof -
  have f': "f' = f\<lparr>f_pools := map (\<lambda>x. x\<lparr>p_profit_home := p_id x = j\<rparr>) (f_pools f)\<rparr>"
    by (rule profit_home_in_file [OF assms(2)])
  have "map p_id (f_pools f') = map p_id (f_pools f)" by (simp add: f' comp_def)
  moreover have "list_all valid_pool (f_pools f')" using assms(1) by (auto simp: f' valid_file_simps list_all_iff)
  moreover have "f_active f' = f_active f" "f_fallback f' = f_fallback f" "f_pools f' = [] \<longleftrightarrow> f_pools f = []"
    by (simp_all add: f')
  ultimately show ?thesis using assms(1) unfolding valid_file_def Let_def by simp
qed

lemma existing_once_props:
  "distinct out \<Longrightarrow> set out \<subseteq> p_id ` set ps - {skip} \<Longrightarrow>
     distinct (existing_once ps skip out is) \<and> set (existing_once ps skip out is) \<subseteq> p_id ` set ps - {skip}"
proof (induction ps skip out "is" rule: existing_once.induct)
  case (2 ps skip out i js)
  then show ?case using find_pool_some [of ps i] by auto
qed simp

lemma existing_once_id:
  "distinct (out @ is) \<Longrightarrow> set is \<subseteq> p_id ` set ps - {skip} \<Longrightarrow> existing_once ps skip out is = out @ is"
proof (induction ps skip out "is" rule: existing_once.induct)
  case (2 ps skip out i js)
  then show ?case using find_pool_some [of ps i] by auto
qed simp

lemma activate_in_cases:
  assumes "activate_in j changed fallback name f = Inr (f', from)"
  obtains "find_pool (f_pools f) j \<noteq> None" "\<not> changed" "from = f_active f"
    "f' = f\<lparr>f_active := j, f_fallback := (case fallback of Some ids \<Rightarrow> existing_once (f_pools f) j [] ids
       | None \<Rightarrow> if from \<noteq> [] \<and> from \<noteq> j then from # without (without (f_fallback f) j) from else without (f_fallback f) j)\<rparr>"
  using assms by (auto simp: activate_in_def Let_def split: if_splits option.splits)

lemma activate_in_valid:
  assumes "valid_file f" "activate_in j changed fallback name f = Inr (f', from)"
  shows "valid_file f'"
  using assms(2)
proof (rule activate_in_cases)
  assume f: "find_pool (f_pools f) j \<noteq> None" "from = f_active f"
    and f': "f' = f\<lparr>f_active := j, f_fallback := (case fallback of Some ids \<Rightarrow> existing_once (f_pools f) j [] ids
       | None \<Rightarrow> if from \<noteq> [] \<and> from \<noteq> j then from # without (without (f_fallback f) j) from else without (f_fallback f) j)\<rparr>"
  have j: "j \<in> p_id ` set (f_pools f)" using f(1) find_pool_some by blast
  then have "j \<noteq> []" "f_pools f \<noteq> []"
    using assms(1) by (auto simp: valid_file_simps list_all_iff valid_pool_def dest: valid_pool_id_nonempty)
  moreover have "distinct (f_fallback f')" "set (f_fallback f') \<subseteq> p_id ` set (f_pools f) - {j}"
    using existing_once_props [of "[]" "f_pools f" j] assms(1) f(2)
    by (auto simp: f' valid_file_simps without_def split: option.splits if_splits)
  ultimately show ?thesis using assms(1) j by (auto simp: f' valid_file_simps)
qed

subsection \<open>Properties\<close>

text \<open>No operation of the pool manager is refused by the validation of the state: on a valid file
  every create, update, delete, fallback, profit home, activation or restore that passes its own checks
  yields a valid file, so the only other failure left is a failed write.\<close>

theorem operations_keep_file_valid:
  assumes "valid_file f" "length (f_pools f) < 999999"
  shows "(\<forall>i f' r. create_in i f = Inr (f', r) \<longrightarrow> check f' = None) \<and>
    (\<forall>j i f' r. update_in j i f = Inr (f', r) \<longrightarrow> check f' = None) \<and>
    (\<forall>j f' r. delete_in j f = Inr (f', r) \<longrightarrow> check f' = None) \<and>
    (\<forall>js f' r. fallback_in js f = Inr (f', r) \<longrightarrow> check f' = None) \<and>
    (\<forall>j f' r. profit_home_in j f = Inr (f', r) \<longrightarrow> check f' = None) \<and>
    (\<forall>j c fb n f' r. activate_in j c fb n f = Inr (f', r) \<longrightarrow> check f' = None)"
  unfolding check_iff_valid
  using create_in_valid [OF assms] update_in_valid [OF assms(1)] delete_in_valid [OF assms(1)]
    fallback_in_valid [OF assms(1)] profit_home_in_valid [OF assms(1)] activate_in_valid [OF assms(1)] by blast

abbreviation second_pool :: pool where
  "second_pool \<equiv> example_pool\<lparr>p_id := ''alt'', p_name := ''Alt''\<rparr>"

definition two_pools :: state_file where
  "two_pools = empty_file\<lparr>f_pools := [example_pool, second_pool], f_active := ''btc''\<rparr>"

lemma two_pools_valid: "valid_file two_pools"
  unfolding check_iff_valid [symmetric]
  by (simp add: two_pools_def check_def zero_pool_def valid_pool_id_def pool_id_char_def is_digit_def pool_field_errors_def
    rune_count_def addresses_error_def address_reason_def host_error_def max_pool_addresses_def empty_file_def zero_file_def)

lemma two_pools_find: "find_pool (f_pools two_pools) ''alt'' = Some second_pool" "f_active two_pools = ''btc''"
  "f_fallback two_pools = []" "length (f_pools two_pools) = 2"
  by (simp_all add: two_pools_def find_pool_def zero_pool_def empty_file_def zero_file_def)

theorem operations_keep_file_valid_witness:
  "\<exists>f' r. fallback_in [''alt''] two_pools = Inr (f', r) \<and> check f' = None"
proof -
  have r: "fallback_in [''alt''] two_pools = Inr (two_pools\<lparr>f_fallback := [''alt'']\<rparr>, [''Alt''])"
    by (simp add: fallback_in_def two_pools_find zero_pool_def)
  have "length (f_pools two_pools) < 999999" using two_pools_find(4) by simp
  note operations_keep_file_valid [OF two_pools_valid this, THEN conjunct2, THEN conjunct2, THEN conjunct2, THEN conjunct1, rule_format, OF r]
  with r show ?thesis by blast
qed

text \<open>C36: the search for an id ends: one candidate more than there are pools is enough. The id made for
  a pool without one is not taken, and it is a proper id whatever the name is.\<close>

theorem made_id_fresh_and_valid:
  assumes "length (f_pools f) < 999999"
  shows "free_id (map p_id (f_pools f)) (id_base name) 0 (length (f_pools f) + 1) = Some (make_id name f) \<and>
    find_pool (f_pools f) (make_id name f) = None \<and> valid_pool_id (make_id name f)"
  using make_id_valid [OF assms] by (auto simp: find_pool_none intro: make_id_cases [of f name])

theorem made_id_fresh_and_valid_witness: "valid_pool_id (make_id ''Best Pool!'' two_pools)"
  using made_id_fresh_and_valid [of two_pools "''Best Pool!''"] two_pools_find(4) by simp

text \<open>A temporary switch can be undone exactly. After an activation of another pool, restoring the
  pool that was active with the fallback order from before gives back the same file.\<close>

theorem restore_undoes_activate:
  assumes "valid_file f" "f_pools f \<noteq> []" "activate_in j changed None name f = Inr (f1, from)"
  shows "activate_in from False (Some (f_fallback f)) name' f1 = Inr (f, j)"
  using assms(3)
proof (rule activate_in_cases)
  assume a: "find_pool (f_pools f) j \<noteq> None" "from = f_active f"
    and f1: "f1 = f\<lparr>f_active := j, f_fallback := (case None of Some ids \<Rightarrow> existing_once (f_pools f) j [] ids
       | None \<Rightarrow> if from \<noteq> [] \<and> from \<noteq> j then from # without (without (f_fallback f) j) from else without (f_fallback f) j)\<rparr>"
  have v: "f_active f \<in> p_id ` set (f_pools f)" "distinct (f_fallback f)" "set (f_fallback f) \<subseteq> p_id ` set (f_pools f) - {f_active f}"
    using assms(1,2) by (auto simp: valid_file_simps)
  then have "find_pool (f_pools f) from \<noteq> None" using a(2) find_pool_some by blast
  moreover have "existing_once (f_pools f) from [] (f_fallback f) = f_fallback f"
    using v a(2) existing_once_id [of "[]" "f_fallback f" "f_pools f" "from"] by simp
  ultimately show ?thesis by (simp add: activate_in_def f1 a(2) Let_def)
qed

theorem restore_undoes_activate_witness:
  "\<exists>f1. activate_in ''alt'' False None ''Alt'' two_pools = Inr (f1, ''btc'') \<and> f1 \<noteq> two_pools \<and>
     activate_in ''btc'' False (Some []) ''BTC'' f1 = Inr (two_pools, ''alt'')"
proof -
  obtain f1 where f1: "activate_in ''alt'' False None ''Alt'' two_pools = Inr (f1, ''btc'')" "f_active f1 = ''alt''"
    by (simp add: activate_in_def two_pools_find Let_def)
  moreover have "f_pools two_pools \<noteq> []" using two_pools_find(4) by auto
  ultimately show ?thesis using restore_undoes_activate [OF two_pools_valid _ f1(1), of "''BTC''"] two_pools_find by auto
qed

end
