(* ===== verification/Health.thy ===== *)
theory Health
  imports State Ordering
begin

text \<open>
  Package \<open>pool\<close>, \<open>health.go\<close>: the health of the addresses of the pools.

  \<^item> \<open>addr_health\<close> and \<open>pool_health\<close> are the Go structs; \<open>health_state\<close> holds the maps of a
    \<open>Manager\<close> under \<open>hmu\<close>, with the check versions and the test worker.
  \<^item> \<open>probe_result_if\<close>, \<open>dial_result\<close>, \<open>refresh_pool\<close>, \<open>forget_health\<close> and \<open>pool_edited\<close> are one
    section under the mutex each; they return the events emitted after it.
  \<^item> \<open>choose_address\<close> is the choice of the preferred address, \<open>ordered_addresses\<close> the dial order.
  \<^item> The error of a check is its text; the product of a duration and 0.8 is exact here.

  The lemmas show the hysteresis of the status, what the preferred address is, the dial order and that
  the status of a pool is derived from its addresses.
\<close>

datatype status = Unknown | Up | Down

definition probe_fails_to_down :: nat where "probe_fails_to_down = 2"
definition dial_fails_to_down :: nat where "dial_fails_to_down = 3"
definition probe_oks_to_up :: nat where "probe_oks_to_up = 2"
definition rtt_samples :: nat where "rtt_samples = 5"
definition switch_ratio :: real where "switch_ratio = 8 / 10"
definition switch_min_gain :: duration where "switch_min_gain = 5 * millisecond"

record addr_health =
  ah_status :: status
  ah_probe_fails :: nat
  ah_probe_oks :: nat
  ah_dial_fails :: nat
  ah_last_check :: time
  ah_last_error :: string
  ah_up_since :: time
  ah_samples :: "duration list"
  ah_rtt :: duration

definition new_addr :: addr_health where
  "new_addr = \<lparr>ah_status = Unknown, ah_probe_fails = 0, ah_probe_oks = 0, ah_dial_fails = 0, ah_last_check = zero_time,
     ah_last_error = [], ah_up_since = zero_time, ah_samples = [], ah_rtt = 0\<rparr>"

definition add_sample :: "duration \<Rightarrow> addr_health \<Rightarrow> addr_health" where
  "add_sample rtt h =
     (let kept = (if length (ah_samples h) = rtt_samples then tl (ah_samples h) else ah_samples h);
          samples = kept @ [rtt];
          s = sort samples
      in h\<lparr>ah_samples := samples, ah_rtt := s ! ((length s - 1) div 2)\<rparr>)"

record pool_health =
  ph_status :: status
  ph_up_since :: time
  ph_preferred :: string

definition new_pool_health :: pool_health where
  "new_pool_health = \<lparr>ph_status = Unknown, ph_up_since = zero_time, ph_preferred = []\<rparr>"

record health_state =
  hs_addrs :: "(string, addr_health) gomap"
  hs_pools :: "(string, pool_health) gomap"
  hs_versions :: "(string, 64 word) gomap"
  hs_test_worker :: string

record health =
  h_status :: status
  h_last_check :: time
  h_last_error :: string
  h_up_since :: time

record address_health =
  av_address :: address
  av_status :: status
  av_last_check :: time
  av_last_error :: string
  av_rtt :: duration
  av_preferred :: bool

datatype health_event =
    AddressDown string string string
  | AddressUp string string
  | PoolUpAgain string
  | PoolUp string
  | PoolDown string string
  | AddressPreferred string "string \<times> duration option" "string \<times> duration option"

definition addr_key :: "string \<Rightarrow> address \<Rightarrow> string" where
  "addr_key i a = i @ ''|'' @ to_lower (addr_string a)"

subsection \<open>Views\<close>

text \<open>One address in the loop of \<open>healthLocked\<close>: the view so far and the time of its error.\<close>

definition health_step :: "pool \<Rightarrow> pool_health \<Rightarrow> health_state \<Rightarrow> address \<Rightarrow> health \<times> time \<Rightarrow> health \<times> time" where
  "health_step p ph hs a acc =
     (case map_of (hs_addrs hs) (addr_key (p_id p) a) of None \<Rightarrow> acc
      | Some ah \<Rightarrow>
          (let (h, err_at) = acc;
               h = (if h_last_check h < ah_last_check ah then h\<lparr>h_last_check := ah_last_check ah\<rparr> else h)
           in if ah_last_error ah \<noteq> [] \<and> ph_status ph \<noteq> Up \<and> err_at \<le> ah_last_check ah
              then (h\<lparr>h_last_error := (if 1 < length (p_addresses p) then addr_string a @ '': '' @ ah_last_error ah
                       else ah_last_error ah)\<rparr>, ah_last_check ah)
              else (h, err_at)))"

definition health_of :: "pool list \<Rightarrow> health_state \<Rightarrow> string \<Rightarrow> health" where
  "health_of ps hs i =
     (case map_of (hs_pools hs) i of
        None \<Rightarrow> \<lparr>h_status = Unknown, h_last_check = zero_time, h_last_error = [], h_up_since = zero_time\<rparr>
      | Some ph \<Rightarrow>
          (let h = \<lparr>h_status = ph_status ph, h_last_check = zero_time, h_last_error = [], h_up_since = ph_up_since ph\<rparr>;
               p = (case find_pool ps i of Some p \<Rightarrow> p | None \<Rightarrow> zero_pool)
           in fst (fold (health_step (p\<lparr>p_id := i\<rparr>) ph hs) (p_addresses p) (h, zero_time))))"

definition preferred_of :: "health_state \<Rightarrow> string \<Rightarrow> string" where
  "preferred_of hs i = (case map_of (hs_pools hs) i of Some ph \<Rightarrow> ph_preferred ph | None \<Rightarrow> [])"

definition address_healths :: "health_state \<Rightarrow> pool \<Rightarrow> address_health list" where
  "address_healths hs p =
     map (\<lambda>a. let k = addr_key (p_id p) a in
            (case map_of (hs_addrs hs) k of
               None \<Rightarrow> \<lparr>av_address = a, av_status = Unknown, av_last_check = zero_time, av_last_error = [], av_rtt = 0,
                        av_preferred = k = preferred_of hs (p_id p)\<rparr>
             | Some ah \<Rightarrow> \<lparr>av_address = a, av_status = ah_status ah, av_last_check = ah_last_check ah,
                        av_last_error = ah_last_error ah, av_rtt = ah_rtt ah,
                        av_preferred = k = preferred_of hs (p_id p)\<rparr>))
       (p_addresses p)"

definition addr_entry :: "health_state \<Rightarrow> string \<Rightarrow> addr_health" where
  "addr_entry hs k = get_or new_addr (hs_addrs hs) k"

subsection \<open>The choice of an address\<close>

record choice =
  c_best :: string
  c_best_rtt :: duration
  c_first :: string
  c_cur_ok :: bool
  c_cur_rtt :: duration

definition addr_down :: "health_state \<Rightarrow> string \<Rightarrow> bool" where
  "addr_down hs k \<longleftrightarrow> (case map_of (hs_addrs hs) k of Some ah \<Rightarrow> ah_status ah = Down | None \<Rightarrow> False)"

definition addr_rtt :: "health_state \<Rightarrow> string \<Rightarrow> duration" where
  "addr_rtt hs k = (case map_of (hs_addrs hs) k of Some ah \<Rightarrow> ah_rtt ah | None \<Rightarrow> 0)"

definition choose_step :: "health_state \<Rightarrow> string \<Rightarrow> string \<Rightarrow> choice \<Rightarrow> choice" where
  "choose_step hs cur k c =
     (if addr_down hs k then c
      else
        (let rtt = addr_rtt hs k;
             c = (if c_first c = [] then c\<lparr>c_first := k\<rparr> else c);
             c = (if k = cur then c\<lparr>c_cur_ok := True, c_cur_rtt := rtt\<rparr> else c)
         in if 0 < rtt \<and> (c_best c = [] \<or> rtt < c_best_rtt c) then c\<lparr>c_best := k, c_best_rtt := rtt\<rparr> else c))"

definition choose_address :: "health_state \<Rightarrow> pool \<Rightarrow> string \<Rightarrow> string" where
  "choose_address hs p cur =
     (let c0 = \<lparr>c_best = [], c_best_rtt = 0, c_first = [], c_cur_ok = False, c_cur_rtt = 0\<rparr>;
          c = fold (\<lambda>a. choose_step hs cur (addr_key (p_id p) a)) (p_addresses p) c0
      in if c_best c = [] then (if c_cur_ok c then cur else c_first c)
         else if \<not> c_cur_ok c \<or> c_cur_rtt c = 0 \<or> cur = c_best c then c_best c
         else if real_of_int (c_best_rtt c) < real_of_int (c_cur_rtt c) * switch_ratio \<and>
                 switch_min_gain \<le> c_cur_rtt c - c_best_rtt c
         then c_best c
         else cur)"

record cand =
  cd_address :: address
  cd_rtt :: duration
  cd_pref :: bool
  cd_order :: nat

definition cand_less :: "cand \<Rightarrow> cand \<Rightarrow> bool" where
  "cand_less x y =
     (if cd_pref x \<noteq> cd_pref y then cd_pref x
      else if (0 < cd_rtt x) \<noteq> (0 < cd_rtt y) then 0 < cd_rtt x
      else if cd_rtt x \<noteq> cd_rtt y then cd_rtt x < cd_rtt y
      else cd_order x < cd_order y)"

definition address_cands :: "health_state \<Rightarrow> pool \<Rightarrow> cand list" where
  "address_cands hs p =
     map (\<lambda>(i, a). \<lparr>cd_address = a, cd_rtt = addr_rtt hs (addr_key (p_id p) a),
                    cd_pref = addr_key (p_id p) a = preferred_of hs (p_id p), cd_order = i\<rparr>)
       (filter (\<lambda>(i, a). \<not> addr_down hs (addr_key (p_id p) a)) (enumerate 0 (p_addresses p)))"

definition ordered_addresses :: "health_state \<Rightarrow> pool \<Rightarrow> address list" where
  "ordered_addresses hs p = map cd_address (sort_by cand_less (address_cands hs p))"

definition describe_addr :: "health_state \<Rightarrow> pool \<Rightarrow> string \<Rightarrow> string \<times> duration option" where
  "describe_addr hs p k =
     (case List.find (\<lambda>a. addr_key (p_id p) a = k) (p_addresses p) of
        Some a \<Rightarrow> (addr_string a, if 0 < addr_rtt hs k then Some (addr_rtt hs k) else None)
      | None \<Rightarrow> (k, None))"

subsection \<open>The status of a pool\<close>

definition addr_status :: "health_state \<Rightarrow> string \<Rightarrow> status" where
  "addr_status hs k = (case map_of (hs_addrs hs) k of Some ah \<Rightarrow> ah_status ah | None \<Rightarrow> Unknown)"

definition derived_status :: "health_state \<Rightarrow> pool \<Rightarrow> status" where
  "derived_status hs p =
     (let sts = map (\<lambda>a. addr_status hs (addr_key (p_id p) a)) (p_addresses p);
          any_up = fold (\<lambda>st b. b \<or> st = Up) sts False;
          all_down = fold (\<lambda>st b. b \<and> st = Down) sts (0 < length sts)
      in if any_up then Up else if all_down then Down else Unknown)"

definition last_error_of :: "health_state \<Rightarrow> pool \<Rightarrow> string" where
  "last_error_of hs p =
     fold (\<lambda>a e. case map_of (hs_addrs hs) (addr_key (p_id p) a) of
             Some ah \<Rightarrow> if ah_last_error ah \<noteq> [] then ah_last_error ah else e | None \<Rightarrow> e) (p_addresses p) []"

text \<open>The earliest start among the addresses that are up and whose run was not broken.\<close>

definition earliest_up :: "health_state \<Rightarrow> pool \<Rightarrow> time" where
  "earliest_up hs p =
     fold (\<lambda>a t. case map_of (hs_addrs hs) (addr_key (p_id p) a) of
             Some ah \<Rightarrow> if ah_status ah = Up \<and> \<not> is_zero (ah_up_since ah) \<and> (is_zero t \<or> ah_up_since ah < t)
                        then ah_up_since ah else t
           | None \<Rightarrow> t) (p_addresses p) zero_time"

definition status_events :: "pool \<Rightarrow> string \<Rightarrow> status \<Rightarrow> status \<Rightarrow> health_event list" where
  "status_events p err prev nxt =
     (if nxt = prev then []
      else (case nxt of
          Up \<Rightarrow> [if prev = Down then PoolUpAgain (p_name p) else PoolUp (p_name p)]
        | Down \<Rightarrow> [PoolDown (p_name p)
                    (if 1 < length (p_addresses p) then ''all addresses unreachable, last error: '' @ err else err)]
        | Unknown \<Rightarrow> []))"

definition preferred_events :: "health_state \<Rightarrow> pool \<Rightarrow> string \<Rightarrow> string \<Rightarrow> health_event list" where
  "preferred_events hs p old best =
     (if best = old then []
      else (case map_of (hs_addrs hs) old of
          Some oh \<Rightarrow> if 0 < ah_rtt oh \<and> ah_status oh \<noteq> Down \<and> best \<noteq> []
                     then [AddressPreferred (p_name p) (describe_addr hs p best) (describe_addr hs p old)] else []
        | None \<Rightarrow> []))"

definition refresh_pool :: "pool \<Rightarrow> health_state \<Rightarrow> health_event list \<times> health_state" where
  "refresh_pool p hs =
     (let ph = get_or new_pool_health (hs_pools hs) (p_id p);
          nxt = derived_status hs p;
          since = (if nxt = Up then earliest_up hs p else zero_time);
          best = choose_address hs p (ph_preferred ph)
      in (status_events p (last_error_of hs p) (ph_status ph) nxt @ preferred_events hs p (ph_preferred ph) best,
          hs\<lparr>hs_pools := put (p_id p) \<lparr>ph_status = nxt, ph_up_since = since, ph_preferred = best\<rparr> (hs_pools hs)\<rparr>))"

text \<open>\<open>addrChangedLocked\<close>: the event of the address, then the pool.\<close>

definition addr_events :: "pool \<Rightarrow> address \<Rightarrow> status \<Rightarrow> addr_health \<Rightarrow> health_event list" where
  "addr_events p a prev h =
     (if 1 < length (p_addresses p) \<and> prev \<noteq> ah_status h then
        (case ah_status h of
           Down \<Rightarrow> [AddressDown (p_name p) (addr_string a) (ah_last_error h)]
         | Up \<Rightarrow> (if prev = Down then [AddressUp (p_name p) (addr_string a)] else [])
         | Unknown \<Rightarrow> [])
      else [])"

definition addr_changed ::
  "pool \<Rightarrow> address \<Rightarrow> (addr_health \<Rightarrow> addr_health) \<Rightarrow> health_state \<Rightarrow> health_event list \<times> health_state" where
  "addr_changed p a f hs =
     (let k = addr_key (p_id p) a;
          h = addr_entry hs k;
          h' = f h;
          (evs, hs') = refresh_pool p (hs\<lparr>hs_addrs := put k h' (hs_addrs hs)\<rparr>)
      in (addr_events p a (ah_status h) h' @ evs, hs'))"

subsection \<open>Results of checks and dials\<close>

definition probe_addr :: "duration \<Rightarrow> string option \<Rightarrow> time \<Rightarrow> addr_health \<Rightarrow> addr_health" where
  "probe_addr rtt err now h =
     (let h = h\<lparr>ah_last_check := now\<rparr>;
          h = (if 0 < rtt then add_sample rtt h else h)
      in case err of
           Some e \<Rightarrow>
             (let h = h\<lparr>ah_last_error := e, ah_probe_oks := 0, ah_probe_fails := ah_probe_fails h + 1, ah_up_since := zero_time\<rparr>
              in if ah_status h \<noteq> Down \<and> probe_fails_to_down \<le> ah_probe_fails h then h\<lparr>ah_status := Down\<rparr> else h)
         | None \<Rightarrow>
             (let h = h\<lparr>ah_last_error := [], ah_probe_fails := 0, ah_dial_fails := 0, ah_probe_oks := ah_probe_oks h + 1\<rparr>
              in if probe_oks_to_up \<le> ah_probe_oks h \<and> (ah_status h \<noteq> Up \<or> is_zero (ah_up_since h))
                 then h\<lparr>ah_status := Up, ah_up_since := now\<rparr> else h))"

definition probe_result_if ::
  "pool \<Rightarrow> address \<Rightarrow> duration \<Rightarrow> string option \<Rightarrow> bool \<Rightarrow> time \<Rightarrow> health_state \<Rightarrow> health_event list \<times> health_state" where
  "probe_result_if p a rtt err accept now hs =
     (if accept then addr_changed p a (probe_addr rtt err now) hs else ([], hs))"

definition dial_addr :: "string option \<Rightarrow> time \<Rightarrow> addr_health \<Rightarrow> addr_health" where
  "dial_addr err now h =
     (case err of
        None \<Rightarrow> h\<lparr>ah_dial_fails := 0\<rparr>
      | Some e \<Rightarrow>
          (let h = h\<lparr>ah_last_check := now, ah_dial_fails := ah_dial_fails h + 1, ah_last_error := e\<rparr>
           in if ah_status h \<noteq> Down \<and> dial_fails_to_down \<le> ah_dial_fails h
              then h\<lparr>ah_status := Down, ah_probe_oks := 0, ah_up_since := zero_time,
                     ah_last_error := e @ '' (3 failed session connects)''\<rparr>
              else h))"

definition dial_result ::
  "pool \<Rightarrow> address \<Rightarrow> string option \<Rightarrow> time \<Rightarrow> health_state \<Rightarrow> health_event list \<times> health_state" where
  "dial_result p a err now hs = addr_changed p a (dial_addr err now) hs"

text \<open>A session without jobs marks its address at once (\<open>sessionFailure\<close> in \<open>probe.go\<close>).\<close>

definition stall_addr :: "string \<Rightarrow> time \<Rightarrow> addr_health \<Rightarrow> addr_health" where
  "stall_addr err now h =
     h\<lparr>ah_status := Down, ah_last_check := now, ah_last_error := err, ah_probe_oks := 0, ah_probe_fails := 0,
       ah_dial_fails := 0, ah_up_since := zero_time\<rparr>"

subsection \<open>Forgetting\<close>

definition bump_version :: "string \<Rightarrow> health_state \<Rightarrow> health_state" where
  "bump_version i hs = hs\<lparr>hs_versions := put i (get_or 0 (hs_versions hs) i + 1) (hs_versions hs)\<rparr>"

definition forget_health :: "string \<Rightarrow> health_state \<Rightarrow> health_state" where
  "forget_health i hs =
     (bump_version i hs)\<lparr>hs_pools := del i (hs_pools hs),
        hs_addrs := filter (\<lambda>(k, _). \<not> has_prefix k (i @ ''|'')) (hs_addrs hs)\<rparr>"

definition pool_edited :: "pool \<Rightarrow> pool \<Rightarrow> health_state \<Rightarrow> health_event list \<times> health_state" where
  "pool_edited old new hs =
     (if p_tls old \<noteq> p_tls new \<or> p_tls_skip_verify old \<noteq> p_tls_skip_verify new \<or>
         p_username old \<noteq> p_username new \<or> p_password old \<noteq> p_password new
      then ([], forget_health (p_id new) hs)
      else
        (let keep = map (addr_key (p_id new)) (p_addresses new);
             hs1 = bump_version (p_id new) hs;
             addrs = fold (\<lambda>a m. if addr_key (p_id old) a \<in> set keep then m else del (addr_key (p_id old) a) m)
                       (p_addresses old) (hs_addrs hs1)
         in refresh_pool new (hs1\<lparr>hs_addrs := addrs\<rparr>)))"

subsection \<open>Lemmas\<close>

subsection \<open>Keys\<close>

lemma valid_pool_id_bar: "valid_pool_id i \<Longrightarrow> CHR ''|'' \<notin> set i"
  by (auto simp: valid_pool_id_def list_all_iff pool_id_char_def is_digit_def)

lemma addr_key_nonempty [simp]: "addr_key i a \<noteq> []"
  by (simp add: addr_key_def)

lemma addr_key_prefix [simp]: "has_prefix (addr_key i a) (i @ ''|'')"
  by (simp add: addr_key_def has_prefix_iff)

lemma append_sep_eq: "x \<notin> set i \<Longrightarrow> x \<notin> set j \<Longrightarrow> i @ x # s = j @ x # t \<longleftrightarrow> i = j \<and> s = t"
proof (induction i arbitrary: j)
  case Nil
  then show ?case by (cases j) auto
next
  case (Cons c i)
  then show ?case by (cases j) auto
qed

lemma addr_key_other:
  assumes "CHR ''|'' \<notin> set i" "CHR ''|'' \<notin> set j" "i \<noteq> j"
  shows "\<not> has_prefix (addr_key j a) (i @ ''|'')"
proof
  assume "has_prefix (addr_key j a) (i @ ''|'')"
  then have "take (length i + 1) (addr_key j a) = i @ ''|''" by (simp add: has_prefix_iff)
  then have "addr_key j a = i @ CHR ''|'' # drop (length i + 1) (addr_key j a)"
    by (metis append.assoc append_Cons append_Nil append_take_drop_id)
  then have "j @ CHR ''|'' # to_lower (addr_string a) = i @ CHR ''|'' # drop (length i + 1) (addr_key j a)"
    by (simp add: addr_key_def)
  then show False using assms append_sep_eq [of "CHR ''|''" j i] by auto
qed

subsection \<open>Hysteresis\<close>

text \<open>What happens to one address, and its health after a history, oldest first.\<close>

datatype addr_input = Probed duration "string option" time | Dialed "string option" time | Stalled string time

fun addr_input_step :: "addr_input \<Rightarrow> addr_health \<Rightarrow> addr_health" where
  "addr_input_step (Probed rtt err now) h = probe_addr rtt err now h"
| "addr_input_step (Dialed err now) h = dial_addr err now h"
| "addr_input_step (Stalled err now) h = stall_addr err now h"

definition addr_after :: "addr_input list \<Rightarrow> addr_health" where
  "addr_after es = fold addr_input_step es new_addr"

fun is_probe :: "addr_input \<Rightarrow> bool" where
  "is_probe (Probed _ _ _) = True" | "is_probe _ = False"
fun ok_probe :: "addr_input \<Rightarrow> bool" where
  "ok_probe (Probed _ err _) = (err = None)" | "ok_probe _ = False"
fun failed_dial :: "addr_input \<Rightarrow> bool" where
  "failed_dial (Dialed err _) = (err \<noteq> None)" | "failed_dial _ = False"
fun is_dial :: "addr_input \<Rightarrow> bool" where
  "is_dial (Dialed _ _) = True" | "is_dial _ = False"
fun is_stall :: "addr_input \<Rightarrow> bool" where
  "is_stall (Stalled _ _) = True" | "is_stall _ = False"

text \<open>The lengths of the series at the end of a history given newest first: successful checks,
  failed checks, and failed dials not broken by a successful check or dial.\<close>

definition ok_series :: "addr_input list \<Rightarrow> nat" where
  "ok_series es = length (takeWhile ok_probe (filter is_probe es))"

definition fail_series :: "addr_input list \<Rightarrow> nat" where
  "fail_series es = length (takeWhile (\<lambda>e. \<not> ok_probe e) (filter is_probe es))"

definition dial_series :: "addr_input list \<Rightarrow> nat" where
  "dial_series es = length (takeWhile failed_dial (filter (\<lambda>e. is_dial e \<or> ok_probe e) es))"

lemmas series_defs = ok_series_def fail_series_def dial_series_def
lemmas threshold_defs = probe_fails_to_down_def dial_fails_to_down_def probe_oks_to_up_def

lemma series_simps [simp]:
  "ok_series (Probed rtt err now # es) = (if err = None then Suc (ok_series es) else 0)"
  "fail_series (Probed rtt err now # es) = (if err = None then 0 else Suc (fail_series es))"
  "dial_series (Probed rtt err now # es) = (if err = None then 0 else dial_series es)"
  "ok_series (Dialed err now # es) = ok_series es" "fail_series (Dialed err now # es) = fail_series es"
  "dial_series (Dialed err now # es) = (if err = None then 0 else Suc (dial_series es))"
  "ok_series (Stalled e now # es) = ok_series es" "fail_series (Stalled e now # es) = fail_series es"
  "dial_series (Stalled e now # es) = dial_series es"
  by (simp_all add: series_defs)

definition series_inv :: "addr_input list \<Rightarrow> addr_health \<Rightarrow> bool" where
  "series_inv es h \<longleftrightarrow> ah_probe_oks h \<le> ok_series es \<and> ah_probe_fails h \<le> fail_series es \<and> ah_dial_fails h \<le> dial_series es \<and>
     (ah_status h \<noteq> Down \<longrightarrow> ah_probe_fails h = fail_series es \<and> ah_dial_fails h = dial_series es \<and>
        fail_series es < 2 \<and> dial_series es < 3)"

lemma add_sample_simps [simp]:
  "ah_status (add_sample r h) = ah_status h" "ah_probe_fails (add_sample r h) = ah_probe_fails h"
  "ah_probe_oks (add_sample r h) = ah_probe_oks h" "ah_dial_fails (add_sample r h) = ah_dial_fails h"
  "ah_up_since (add_sample r h) = ah_up_since h"
  by (simp_all add: add_sample_def Let_def)

lemma series_inv_step: "series_inv es h \<Longrightarrow> series_inv (e # es) (addr_input_step e h)"
  by (cases e) (auto simp: series_inv_def probe_addr_def dial_addr_def stall_addr_def Let_def threshold_defs split: option.split)

lemma series_inv_after: "series_inv (rev es) (addr_after es)"
proof (induction es rule: rev_induct)
  case Nil
  then show ?case by (simp add: addr_after_def series_inv_def new_addr_def series_defs)
next
  case (snoc e es)
  then show ?case using series_inv_step by (simp add: addr_after_def)
qed

lemma addr_after_snoc: "addr_after (es @ [e]) = addr_input_step e (addr_after es)"
  by (simp add: addr_after_def)

lemma two_oks_up:
  "ok_probe e1 \<Longrightarrow> ok_probe e2 \<Longrightarrow> ah_status (addr_input_step e2 (addr_input_step e1 h)) = Up"
  by (cases e1; cases e2) (auto simp: probe_addr_def Let_def threshold_defs)

lemma step_transition:
  assumes "series_inv es h" "ah_status (addr_input_step e h) \<noteq> ah_status h"
  shows "ah_status (addr_input_step e h) = Up \<and> ok_probe e \<and> 2 \<le> ok_series (e # es) \<or>
    ah_status (addr_input_step e h) = Down \<and> (is_stall e \<or> 2 \<le> fail_series (e # es) \<or> 3 \<le> dial_series (e # es))"
  using assms
  by (cases e) (auto simp: series_inv_def probe_addr_def dial_addr_def stall_addr_def Let_def threshold_defs
      split: option.splits if_splits)

subsection \<open>The preferred address\<close>

definition usable_keys :: "health_state \<Rightarrow> pool \<Rightarrow> string list" where
  "usable_keys hs p = filter (\<lambda>k. \<not> addr_down hs k) (map (addr_key (p_id p)) (p_addresses p))"

definition choice_inv :: "health_state \<Rightarrow> string \<Rightarrow> string list \<Rightarrow> choice \<Rightarrow> bool" where
  "choice_inv hs cur ks c \<longleftrightarrow>
     c_first c = (case ks of [] \<Rightarrow> [] | k # _ \<Rightarrow> k) \<and> (c_cur_ok c \<longleftrightarrow> cur \<in> set ks) \<and>
     (cur \<in> set ks \<longrightarrow> c_cur_rtt c = addr_rtt hs cur) \<and>
     (if c_best c = [] then \<forall>k \<in> set ks. addr_rtt hs k \<le> 0
      else c_best c \<in> set ks \<and> c_best_rtt c = addr_rtt hs (c_best c) \<and> 0 < c_best_rtt c \<and>
        (\<forall>k \<in> set ks. 0 < addr_rtt hs k \<longrightarrow> c_best_rtt c \<le> addr_rtt hs k))"

lemma choice_inv_step:
  assumes "choice_inv hs cur ks c" "k \<noteq> []" "[] \<notin> set ks"
  shows "choice_inv hs cur (if addr_down hs k then ks else ks @ [k]) (choose_step hs cur k c)"
proof (cases "addr_down hs k")
  case False
  let ?c = "choose_step hs cur k c" and ?new = "0 < addr_rtt hs k \<and> (c_best c = [] \<or> addr_rtt hs k < c_best_rtt c)"
  have c: "c_first ?c = (if c_first c = [] then k else c_first c)" "c_cur_ok ?c = (c_cur_ok c \<or> k = cur)"
    "c_cur_rtt ?c = (if k = cur then addr_rtt hs k else c_cur_rtt c)"
    "c_best ?c = (if ?new then k else c_best c)" "c_best_rtt ?c = (if ?new then addr_rtt hs k else c_best_rtt c)"
    using False by (auto simp: choose_step_def Let_def)
  note i = assms(1) [unfolded choice_inv_def]
  have "c_first ?c = (case ks @ [k] of [] \<Rightarrow> [] | x # _ \<Rightarrow> x)" using i assms(3) by (cases ks) (auto simp: c)
  moreover have "c_cur_ok ?c \<longleftrightarrow> cur \<in> set (ks @ [k])" using i by (auto simp: c)
  moreover have "cur \<in> set (ks @ [k]) \<longrightarrow> c_cur_rtt ?c = addr_rtt hs cur" using i by (auto simp: c)
  moreover have "if c_best ?c = [] then \<forall>x \<in> set (ks @ [k]). addr_rtt hs x \<le> 0
      else c_best ?c \<in> set (ks @ [k]) \<and> c_best_rtt ?c = addr_rtt hs (c_best ?c) \<and> 0 < c_best_rtt ?c \<and>
        (\<forall>x \<in> set (ks @ [k]). 0 < addr_rtt hs x \<longrightarrow> c_best_rtt ?c \<le> addr_rtt hs x)"
  proof (cases ?new)
    case True
    then show ?thesis using i assms(2) by (cases "c_best c = []") (fastforce simp: c)+
  next
    case False
    then show ?thesis using i by (cases "c_best c = []") (auto simp: c)
  qed
  ultimately show ?thesis using False by (simp add: choice_inv_def)
qed (simp add: choose_step_def assms(1))

lemma choice_inv_fold:
  assumes "[] \<notin> set ks" "[] \<notin> set qs" "choice_inv hs cur qs c"
  shows "choice_inv hs cur (qs @ filter (\<lambda>k. \<not> addr_down hs k) ks) (fold (choose_step hs cur) ks c)"
  using assms
proof (induction ks arbitrary: qs c)
  case (Cons k ks)
  then have k: "k \<noteq> []" by auto
  show ?case
    using Cons.IH [OF _ _ choice_inv_step [OF Cons.prems(3) k Cons.prems(2)]] Cons.prems by (auto split: if_splits)
qed simp

lemma choose_address_cases:
  obtains c where "choice_inv hs cur (usable_keys hs p) c"
    "choose_address hs p cur = (if c_best c = [] then (if c_cur_ok c then cur else c_first c)
       else if \<not> c_cur_ok c \<or> c_cur_rtt c = 0 \<or> cur = c_best c then c_best c
       else if real_of_int (c_best_rtt c) < real_of_int (c_cur_rtt c) * switch_ratio \<and>
               switch_min_gain \<le> c_cur_rtt c - c_best_rtt c then c_best c else cur)"
proof -
  define c0 where "c0 = \<lparr>c_best = [], c_best_rtt = 0, c_first = [], c_cur_ok = False, c_cur_rtt = 0\<rparr>"
  define c where "c = fold (choose_step hs cur) (map (addr_key (p_id p)) (p_addresses p)) c0"
  have "choice_inv hs cur ([] @ usable_keys hs p) c"
    unfolding c_def usable_keys_def by (rule choice_inv_fold) (auto simp: choice_inv_def c0_def addr_key_def)
  moreover have "fold (\<lambda>a. choose_step hs cur (addr_key (p_id p) a)) (p_addresses p) c0 = c"
    by (simp add: c_def fold_map comp_def)
  ultimately show ?thesis using that [of c] by (simp add: choose_address_def c0_def Let_def)
qed

lemma choose_usable:
  "choose_address hs p cur \<in> set (usable_keys hs p) \<or> usable_keys hs p = [] \<and> choose_address hs p cur = []"
  by (rule choose_address_cases [of hs cur p]) (auto simp: choice_inv_def split: list.splits if_splits)

text \<open>What clearly faster means.\<close>

definition clearly_faster :: "health_state \<Rightarrow> string \<Rightarrow> string \<Rightarrow> bool" where
  "clearly_faster hs k cur \<longleftrightarrow> 10 * addr_rtt hs k < 8 * addr_rtt hs cur \<and> addr_rtt hs k + 5 * millisecond \<le> addr_rtt hs cur"

lemma ratio_int: "real_of_int a < real_of_int b * switch_ratio \<longleftrightarrow> 10 * a < 8 * b"
  by (simp add: switch_ratio_def) linarith

interpretation cand: comparison cand_less
  by unfold_locales (auto simp: cand_less_def split: if_splits)

lemma address_cands_addresses:
  "map cd_address (address_cands hs p) = filter (\<lambda>a. \<not> addr_down hs (addr_key (p_id p) a)) (p_addresses p)"
proof -
  have "map snd (filter (\<lambda>(i, a). P a) (enumerate n xs)) = filter P xs" for P :: "address \<Rightarrow> bool" and n xs
    by (induction xs arbitrary: n) auto
  then show ?thesis by (simp add: address_cands_def comp_def split_def)
qed

lemma fold_or: "fold (\<lambda>x b. b \<or> P x) xs b \<longleftrightarrow> b \<or> (\<exists>x \<in> set xs. P x)"
  by (induction xs arbitrary: b) auto

lemma fold_and: "fold (\<lambda>x b. b \<and> P x) xs b \<longleftrightarrow> b \<and> (\<forall>x \<in> set xs. P x)"
  by (induction xs arbitrary: b) auto

lemma derived_status_iff:
  "derived_status hs p = Up \<longleftrightarrow> (\<exists>a \<in> set (p_addresses p). addr_status hs (addr_key (p_id p) a) = Up)"
  "derived_status hs p = Down \<longleftrightarrow> p_addresses p \<noteq> [] \<and> (\<forall>a \<in> set (p_addresses p). addr_status hs (addr_key (p_id p) a) = Down)"
proof -
  have "derived_status hs p =
    (if \<exists>a \<in> set (p_addresses p). addr_status hs (addr_key (p_id p) a) = Up then Up
     else if p_addresses p \<noteq> [] \<and> (\<forall>a \<in> set (p_addresses p). addr_status hs (addr_key (p_id p) a) = Down) then Down else Unknown)"
    by (auto simp: derived_status_def Let_def fold_or fold_and image_iff dest: sym)
  then show "derived_status hs p = Up \<longleftrightarrow> (\<exists>a \<in> set (p_addresses p). addr_status hs (addr_key (p_id p) a) = Up)"
    "derived_status hs p = Down \<longleftrightarrow> p_addresses p \<noteq> [] \<and> (\<forall>a \<in> set (p_addresses p). addr_status hs (addr_key (p_id p) a) = Down)"
    by auto
qed

text \<open>The start of the unbroken run of an address that is up.\<close>

definition up_run :: "health_state \<Rightarrow> string \<Rightarrow> time option" where
  "up_run hs k = (case map_of (hs_addrs hs) k of
     Some ah \<Rightarrow> if ah_status ah = Up \<and> \<not> is_zero (ah_up_since ah) then Some (ah_up_since ah) else None | None \<Rightarrow> None)"

lemma earliest_up_fold:
  "(let r = fold (\<lambda>a t. case map_of (hs_addrs hs) (addr_key (p_id p) a) of
             Some ah \<Rightarrow> if ah_status ah = Up \<and> \<not> is_zero (ah_up_since ah) \<and> (is_zero t \<or> ah_up_since ah < t)
                        then ah_up_since ah else t
           | None \<Rightarrow> t) as t0
    in (if is_zero r then is_zero t0 \<and> (\<forall>a \<in> set as. up_run hs (addr_key (p_id p) a) = None)
        else (r = t0 \<or> (\<exists>a \<in> set as. up_run hs (addr_key (p_id p) a) = Some r)) \<and> (is_zero t0 \<or> r \<le> t0) \<and>
          (\<forall>a \<in> set as. \<forall>t. up_run hs (addr_key (p_id p) a) = Some t \<longrightarrow> r \<le> t)))"
proof (induction as arbitrary: t0)
  case (Cons a as)
  show ?case
    using Cons.IH [of "case map_of (hs_addrs hs) (addr_key (p_id p) a) of
             Some ah \<Rightarrow> if ah_status ah = Up \<and> \<not> is_zero (ah_up_since ah) \<and> (is_zero t0 \<or> ah_up_since ah < t0)
                        then ah_up_since ah else t0
           | None \<Rightarrow> t0"]
    by (cases "map_of (hs_addrs hs) (addr_key (p_id p) a)")
      (auto simp: Let_def up_run_def split: if_splits)
qed (simp add: Let_def)

subsection \<open>Properties\<close>

text \<open>The status of an address has hysteresis. Over any history of checks, dials and stalled
  sessions, it turns UP only on the second successful check in a row, and DOWN only on a stalled session,
  the second failed check or the third failed dial in a row; and those series always have that effect.\<close>

theorem status_hysteresis:
  "(ah_status (addr_after (es @ [e])) \<noteq> ah_status (addr_after es) \<longrightarrow>
     ah_status (addr_after (es @ [e])) = Up \<and> ok_probe e \<and> 2 \<le> ok_series (e # rev es) \<or>
     ah_status (addr_after (es @ [e])) = Down \<and>
       (is_stall e \<or> 2 \<le> fail_series (e # rev es) \<or> 3 \<le> dial_series (e # rev es))) \<and>
   (2 \<le> fail_series (rev es) \<or> 3 \<le> dial_series (rev es) \<longrightarrow> ah_status (addr_after es) = Down) \<and>
   (\<forall>fs e1 e2. es = fs @ [e1, e2] \<and> ok_probe e1 \<and> ok_probe e2 \<longrightarrow> ah_status (addr_after es) = Up)"
proof (intro conjI allI impI)
  assume "ah_status (addr_after (es @ [e])) \<noteq> ah_status (addr_after es)"
  then show "ah_status (addr_after (es @ [e])) = Up \<and> ok_probe e \<and> 2 \<le> ok_series (e # rev es) \<or>
     ah_status (addr_after (es @ [e])) = Down \<and>
       (is_stall e \<or> 2 \<le> fail_series (e # rev es) \<or> 3 \<le> dial_series (e # rev es))"
    unfolding addr_after_snoc by (rule step_transition [OF series_inv_after])
next
  assume "2 \<le> fail_series (rev es) \<or> 3 \<le> dial_series (rev es)"
  then show "ah_status (addr_after es) = Down" using series_inv_after [of es] by (auto simp: series_inv_def)
next
  fix fs e1 e2 assume "es = fs @ [e1, e2] \<and> ok_probe e1 \<and> ok_probe e2"
  then show "ah_status (addr_after es) = Up" using two_oks_up by (simp add: addr_after_def)
qed

theorem status_hysteresis_witness:
  "ah_status (addr_after [Probed 5 None 1, Dialed (Some ''e'') 2, Probed 5 None 3]) = Up \<and>
   ah_status (addr_after [Probed 5 None 1, Probed 0 (Some ''e'') 2, Dialed (Some ''e'') 3, Probed 0 (Some ''e'') 4]) = Down"
  using status_hysteresis [of "[Probed 5 None 1, Probed 0 (Some ''e'') 2, Dialed (Some ''e'') 3, Probed 0 (Some ''e'') 4]"]
  by (simp add: addr_after_def probe_addr_def dial_addr_def Let_def threshold_defs new_addr_def)

text \<open>The preferred address is never DOWN and there is one whenever some address is not DOWN. A
  usable measured current address is left only for one that is at least 20 percent and 5 ms faster, and
  is left when there is such a one; without it, the fastest measured address is chosen, and without
  measurements the current or the first usable one.\<close>

theorem preferred_address_choice:
  "(let b = choose_address hs p cur; ks = usable_keys hs p; measured = (\<lambda>k. k \<in> set ks \<and> 0 < addr_rtt hs k) in
     (ks = [] \<longrightarrow> b = []) \<and> (ks \<noteq> [] \<longrightarrow> b \<in> set ks) \<and>
     (measured cur \<longrightarrow>
        (if b = cur then \<forall>k. measured k \<longrightarrow> \<not> clearly_faster hs k cur
         else measured b \<and> clearly_faster hs b cur \<and> (\<forall>k. measured k \<longrightarrow> addr_rtt hs b \<le> addr_rtt hs k))) \<and>
     ((cur \<notin> set ks \<or> addr_rtt hs cur = 0) \<and> (\<exists>k. measured k) \<longrightarrow>
        measured b \<and> (\<forall>k. measured k \<longrightarrow> addr_rtt hs b \<le> addr_rtt hs k)) \<and>
     ((\<forall>k. \<not> measured k) \<and> ks \<noteq> [] \<longrightarrow> b = (if cur \<in> set ks then cur else hd ks)))"
proof (rule choose_address_cases [of hs cur p])
  fix c assume i: "choice_inv hs cur (usable_keys hs p) c"
    and b: "choose_address hs p cur = (if c_best c = [] then (if c_cur_ok c then cur else c_first c)
       else if \<not> c_cur_ok c \<or> c_cur_rtt c = 0 \<or> cur = c_best c then c_best c
       else if real_of_int (c_best_rtt c) < real_of_int (c_cur_rtt c) * switch_ratio \<and>
               switch_min_gain \<le> c_cur_rtt c - c_best_rtt c then c_best c else cur)"
  have faster: "clearly_faster hs k cur" if "clearly_faster hs k' cur" "addr_rtt hs k \<le> addr_rtt hs k'" for k k'
    using that by (simp add: clearly_faster_def)
  show ?thesis
  proof (cases "c_best c = []")
    case True
    then have "\<forall>k \<in> set (usable_keys hs p). addr_rtt hs k \<le> 0" using i by (simp add: choice_inv_def)
    then show ?thesis using i True b by (fastforce simp: choice_inv_def Let_def split: list.splits)
  next
    case False
    then have best: "c_best c \<in> set (usable_keys hs p)" "c_best_rtt c = addr_rtt hs (c_best c)" "0 < addr_rtt hs (c_best c)"
      "\<And>k. k \<in> set (usable_keys hs p) \<Longrightarrow> 0 < addr_rtt hs k \<Longrightarrow> addr_rtt hs (c_best c) \<le> addr_rtt hs k"
      and cur: "c_cur_ok c \<longleftrightarrow> cur \<in> set (usable_keys hs p)" "cur \<in> set (usable_keys hs p) \<Longrightarrow> c_cur_rtt c = addr_rtt hs cur"
      using i by (auto simp: choice_inv_def)
    have b': "choose_address hs p cur = (if cur \<notin> set (usable_keys hs p) \<or> addr_rtt hs cur = 0 \<or> cur = c_best c then c_best c
       else if clearly_faster hs (c_best c) cur then c_best c else cur)"
      using b False best(2) cur by (auto simp: ratio_int switch_min_gain_def clearly_faster_def)
    have nf: "\<not> clearly_faster hs k (c_best c)" if "k \<in> set (usable_keys hs p)" "0 < addr_rtt hs k" for k
      using best(4) [OF that] best(3) by (simp add: clearly_faster_def)
    have nf': "\<not> clearly_faster hs k cur"
      if "k \<in> set (usable_keys hs p)" "0 < addr_rtt hs k" "\<not> clearly_faster hs (c_best c) cur" for k
      using faster best(4) [OF that(1,2)] that(3) by blast
    let ?U = "set (usable_keys hs p)" and ?b = "choose_address hs p cur"
    have ne: "usable_keys hs p \<noteq> []" using best(1) by auto
    have bU: "?b \<in> ?U" using choose_usable ne by blast
    have b1: "?b = c_best c" if "cur \<notin> ?U \<or> addr_rtt hs cur = 0" using that b' by auto
    have b2: "if ?b = cur then \<forall>k. k \<in> ?U \<and> 0 < addr_rtt hs k \<longrightarrow> \<not> clearly_faster hs k cur
        else (?b \<in> ?U \<and> 0 < addr_rtt hs ?b) \<and> clearly_faster hs ?b cur \<and>
          (\<forall>k. k \<in> ?U \<and> 0 < addr_rtt hs k \<longrightarrow> addr_rtt hs ?b \<le> addr_rtt hs k)" if "cur \<in> ?U" "0 < addr_rtt hs cur"
    proof (cases "cur = c_best c")
      case True
      then show ?thesis using b' nf by simp
    next
      case False
      then show ?thesis using b' that nf' best(1,3,4) by (cases "clearly_faster hs (c_best c) cur") simp_all
    qed
    have m: "\<exists>k. k \<in> ?U \<and> 0 < addr_rtt hs k" using best(1,3) by blast
    show ?thesis unfolding Let_def
      using ne bU b1 b2 m best(1,3,4) by (intro conjI impI) (simp_all split: if_split)
  qed
qed

theorem preferred_address_choice_witness:
  "choose_address \<lparr>hs_addrs = [(''p|a:1'', new_addr\<lparr>ah_rtt := 100 * millisecond\<rparr>), (''p|b:1'', new_addr\<lparr>ah_rtt := 60 * millisecond\<rparr>)],
      hs_pools = [], hs_versions = [], hs_test_worker = []\<rparr>
     (zero_pool\<lparr>p_id := ''p'', p_addresses := [\<lparr>host = ''a'', port = 1\<rparr>, \<lparr>host = ''b'', port = 1\<rparr>]\<rparr>) ''p|a:1'' = ''p|b:1''"
proof -
  define hs where "hs = \<lparr>hs_addrs = [(''p|a:1'', new_addr\<lparr>ah_rtt := 100 * millisecond\<rparr>), (''p|b:1'', new_addr\<lparr>ah_rtt := 60 * millisecond\<rparr>)],
      hs_pools = [], hs_versions = [], hs_test_worker = []\<rparr>"
  define p where "p = zero_pool\<lparr>p_id := ''p'', p_addresses := [\<lparr>host = ''a'', port = 1\<rparr>, \<lparr>host = ''b'', port = 1\<rparr>]\<rparr>"
  have keys: "addr_key ''p'' \<lparr>host = ''a'', port = 1\<rparr> = ''p|a:1''" "addr_key ''p'' \<lparr>host = ''b'', port = 1\<rparr> = ''p|b:1''"
    by code_simp+
  have ks: "usable_keys hs p = [''p|a:1'', ''p|b:1'']"
    by (simp add: usable_keys_def p_def keys addr_down_def hs_def new_addr_def)
  have r: "addr_rtt hs ''p|a:1'' = 100 * millisecond" "addr_rtt hs ''p|b:1'' = 60 * millisecond" by (simp_all add: addr_rtt_def hs_def)
  have "choose_address hs p ''p|a:1'' = ''p|b:1''"
    using conjunct1 [OF conjunct2 [OF conjunct2 [OF preferred_address_choice [of hs p "''p|a:1''", unfolded Let_def]]], unfolded ks]
      conjunct1 [OF conjunct2 [OF preferred_address_choice [of hs p "''p|a:1''", unfolded Let_def]], unfolded ks]
    by (auto simp: r clearly_faster_def split: if_split_asm dest!: spec [of _ "''p|b:1''"])
  then show ?thesis by (simp add: hs_def p_def)
qed

text \<open>A new session dials exactly the addresses of the pool that are not DOWN, each once: the
  preferred one first, then the measured ones by latency, then the others in the order of the pool.\<close>

theorem dial_order:
  "mset (ordered_addresses hs p) = mset (filter (\<lambda>a. \<not> addr_down hs (addr_key (p_id p) a)) (p_addresses p)) \<and>
   (\<exists>cs. ordered_addresses hs p = map cd_address cs \<and> set cs = set (address_cands hs p) \<and>
      sorted_wrt (\<lambda>x y. (cd_pref y \<longrightarrow> cd_pref x) \<and>
        (cd_pref x = cd_pref y \<longrightarrow> (0 < cd_rtt y \<longrightarrow> 0 < cd_rtt x \<and> cd_rtt x \<le> cd_rtt y) \<and>
          (cd_rtt x = cd_rtt y \<longrightarrow> cd_order x \<le> cd_order y))) cs)"
proof
  show "mset (ordered_addresses hs p) = mset (filter (\<lambda>a. \<not> addr_down hs (addr_key (p_id p) a)) (p_addresses p))"
    unfolding ordered_addresses_def address_cands_addresses [symmetric] by simp
  show "\<exists>cs. ordered_addresses hs p = map cd_address cs \<and> set cs = set (address_cands hs p) \<and>
      sorted_wrt (\<lambda>x y. (cd_pref y \<longrightarrow> cd_pref x) \<and>
        (cd_pref x = cd_pref y \<longrightarrow> (0 < cd_rtt y \<longrightarrow> 0 < cd_rtt x \<and> cd_rtt x \<le> cd_rtt y) \<and>
          (cd_rtt x = cd_rtt y \<longrightarrow> cd_order x \<le> cd_order y))) cs"
  proof (intro exI conjI)
    show "ordered_addresses hs p = map cd_address (sort_by cand_less (address_cands hs p))" by (rule ordered_addresses_def)
    show "sorted_wrt (\<lambda>x y. (cd_pref y \<longrightarrow> cd_pref x) \<and>
        (cd_pref x = cd_pref y \<longrightarrow> (0 < cd_rtt y \<longrightarrow> 0 < cd_rtt x \<and> cd_rtt x \<le> cd_rtt y) \<and>
          (cd_rtt x = cd_rtt y \<longrightarrow> cd_order x \<le> cd_order y))) (sort_by cand_less (address_cands hs p))"
      by (rule sorted_wrt_mono_rel [OF _ cand.sorted_sort]) (auto simp: cand_less_def split: if_splits)
  qed simp
qed

theorem dial_order_witness:
  "mset (ordered_addresses \<lparr>hs_addrs = [], hs_pools = [], hs_versions = [], hs_test_worker = []\<rparr> example_pool) =
     mset (p_addresses example_pool)"
  using dial_order [of "\<lparr>hs_addrs = [], hs_pools = [], hs_versions = [], hs_test_worker = []\<rparr>" example_pool]
  by (simp add: addr_down_def)

text \<open>After every result of a check or a dial, the status of the pool is the one its addresses
  give: UP if one is UP, DOWN if there are addresses and all are DOWN; its time is the earliest
  start among the unbroken runs of addresses that are UP; and its preferred address is usable.\<close>

theorem pool_status_derived:
  "\<exists>hs1 ph. snd (addr_changed p a f hs) = hs1 \<and> map_of (hs_pools hs1) (p_id p) = Some ph \<and>
     (let st = (\<lambda>a. addr_status hs1 (addr_key (p_id p) a)); as = set (p_addresses p) in
      (ph_status ph = Up \<longleftrightarrow> (\<exists>a \<in> as. st a = Up)) \<and> (ph_status ph = Down \<longleftrightarrow> as \<noteq> {} \<and> (\<forall>a \<in> as. st a = Down)) \<and>
      (if is_zero (ph_up_since ph) then \<forall>a \<in> as. up_run hs1 (addr_key (p_id p) a) = None
       else (\<exists>a \<in> as. up_run hs1 (addr_key (p_id p) a) = Some (ph_up_since ph)) \<and>
         (\<forall>a \<in> as. \<forall>t. up_run hs1 (addr_key (p_id p) a) = Some t \<longrightarrow> ph_up_since ph \<le> t)) \<and>
      (ph_preferred ph \<in> set (usable_keys hs1 p) \<or> usable_keys hs1 p = []))"
proof -
  define hs0 where "hs0 = hs\<lparr>hs_addrs := put (addr_key (p_id p) a) (f (addr_entry hs (addr_key (p_id p) a))) (hs_addrs hs)\<rparr>"
  define ph where "ph = \<lparr>ph_status = derived_status hs0 p, ph_up_since = (if derived_status hs0 p = Up then earliest_up hs0 p else zero_time),
     ph_preferred = choose_address hs0 p (ph_preferred (get_or new_pool_health (hs_pools hs0) (p_id p)))\<rparr>"
  define hs1 where "hs1 = hs0\<lparr>hs_pools := put (p_id p) ph (hs_pools hs0)\<rparr>"
  have r: "snd (addr_changed p a f hs) = hs1"
    by (simp add: addr_changed_def refresh_pool_def Let_def hs0_def hs1_def ph_def)
  have same: "addr_status hs1 = addr_status hs0" "up_run hs1 = up_run hs0" "usable_keys hs1 p = usable_keys hs0 p"
    by (simp_all add: hs1_def addr_status_def up_run_def usable_keys_def addr_down_def fun_eq_iff)
  have z: "is_zero zero_time" by (simp add: is_zero_def)
  have not_up: "up_run hs0 k = None" if "addr_status hs0 k \<noteq> Up" for k
    using that by (auto simp: up_run_def addr_status_def split: option.splits)
  have since: "if is_zero (ph_up_since ph) then \<forall>a \<in> set (p_addresses p). up_run hs0 (addr_key (p_id p) a) = None
       else (\<exists>a \<in> set (p_addresses p). up_run hs0 (addr_key (p_id p) a) = Some (ph_up_since ph)) \<and>
         (\<forall>a \<in> set (p_addresses p). \<forall>t. up_run hs0 (addr_key (p_id p) a) = Some t \<longrightarrow> ph_up_since ph \<le> t)"
  proof (cases "derived_status hs0 p = Up")
    case True
    then show ?thesis using earliest_up_fold [of hs0 p "p_addresses p" zero_time] z
      by (auto simp: ph_def earliest_up_def Let_def split: if_splits)
  next
    case False
    then show ?thesis using z not_up by (auto simp: ph_def derived_status_iff)
  qed
  have st: "ph_status ph = derived_status hs0 p" by (simp add: ph_def)
  have "map_of (hs_pools hs1) (p_id p) = Some ph" by (simp add: hs1_def)
  moreover have "ph_preferred ph \<in> set (usable_keys hs0 p) \<or> usable_keys hs0 p = []"
    using choose_usable by (auto simp: ph_def)
  ultimately show ?thesis
    using r since by (intro exI [of _ hs1] exI [of _ ph]) (simp add: Let_def same st derived_status_iff)
qed

theorem pool_status_derived_witness:
  "\<exists>ph. map_of (hs_pools (snd (addr_changed example_pool \<lparr>host = ''p.io'', port = 3333\<rparr> (probe_addr 5 None 1)
     \<lparr>hs_addrs = [], hs_pools = [], hs_versions = [], hs_test_worker = []\<rparr>))) (p_id example_pool) = Some ph"
  using pool_status_derived [of example_pool "\<lparr>host = ''p.io'', port = 3333\<rparr>" "probe_addr 5 None 1"
      "\<lparr>hs_addrs = [], hs_pools = [], hs_versions = [], hs_test_worker = []\<rparr>"] by blast

text \<open>The latency of an address is the lower median of its last five measured connect times: it
  is one of them, at least half of them are not faster and at least half are not slower.\<close>

theorem latency_is_median:
  "(let ss = ah_samples (add_sample rtt h); m = ah_rtt (add_sample rtt h) in
     ss = (if length (ah_samples h) = 5 then tl (ah_samples h) else ah_samples h) @ [rtt] \<and>
     (length (ah_samples h) \<le> 5 \<longrightarrow> length ss \<le> 5) \<and> m \<in> set ss \<and>
     length ss \<le> 2 * length (filter (\<lambda>x. x \<le> m) ss) \<and> length ss \<le> 2 * length (filter (\<lambda>x. m \<le> x) ss))"
proof -
  define ss where "ss = (if length (ah_samples h) = 5 then tl (ah_samples h) else ah_samples h) @ [rtt]"
  define k where "k = (length ss - 1) div 2"
  have k: "k < length ss" by (simp add: k_def ss_def)
  have r: "ah_samples (add_sample rtt h) = ss" "ah_rtt (add_sample rtt h) = sort ss ! k"
    by (simp_all add: add_sample_def Let_def ss_def k_def rtt_samples_def)
  have lower: "k + 1 \<le> length (filter (\<lambda>x. x \<le> sort ss ! k) ss)"
  proof -
    have "length (filter (\<lambda>x. x \<le> sort ss ! k) ss) = length (filter (\<lambda>x. x \<le> sort ss ! k) (sort ss))"
      by (metis mset_filter mset_sort size_mset)
    also have "\<dots> = length (filter (\<lambda>x. x \<le> sort ss ! k) (take (k + 1) (sort ss))) + length (filter (\<lambda>x. x \<le> sort ss ! k) (drop (k + 1) (sort ss)))"
      by (metis append_take_drop_id filter_append length_append)
    also have "filter (\<lambda>x. x \<le> sort ss ! k) (take (k + 1) (sort ss)) = take (k + 1) (sort ss)"
      using k by (auto simp: filter_id_conv in_set_conv_nth intro!: sorted_nth_mono)
    finally show ?thesis using k by simp
  qed
  have upper: "length ss - k \<le> length (filter (\<lambda>x. sort ss ! k \<le> x) ss)"
  proof -
    have "length (filter (\<lambda>x. sort ss ! k \<le> x) ss) = length (filter (\<lambda>x. sort ss ! k \<le> x) (sort ss))"
      by (metis mset_filter mset_sort size_mset)
    also have "\<dots> = length (filter (\<lambda>x. sort ss ! k \<le> x) (take k (sort ss))) + length (filter (\<lambda>x. sort ss ! k \<le> x) (drop k (sort ss)))"
      by (metis append_take_drop_id filter_append length_append)
    also have "filter (\<lambda>x. sort ss ! k \<le> x) (drop k (sort ss)) = drop k (sort ss)"
      using k by (auto simp: filter_id_conv in_set_conv_nth intro!: sorted_nth_mono)
    finally show ?thesis by simp
  qed
  have "sort ss ! k \<in> set ss" using k by (metis length_sort nth_mem set_sort)
  moreover have "length ss \<le> 2 * (k + 1)" "length ss \<le> 2 * (length ss - k)" by (simp_all add: k_def)
  moreover have "length (ah_samples h) \<le> 5 \<longrightarrow> length ss \<le> 5" by (auto simp: ss_def)
  moreover have "2 * (k + 1) \<le> 2 * length (filter (\<lambda>x. x \<le> sort ss ! k) ss)"
    "2 * (length ss - k) \<le> 2 * length (filter (\<lambda>x. sort ss ! k \<le> x) ss)" using lower upper by simp_all
  ultimately show ?thesis unfolding r Let_def ss_def [symmetric]
    by (intro conjI refl) (blast intro: order.trans)+
qed

theorem latency_is_median_witness:
  "length (ah_samples (add_sample 9 (new_addr\<lparr>ah_samples := [1, 2, 3, 4, 5]\<rparr>))) \<le> 5"
  using latency_is_median [of 9 "new_addr\<lparr>ah_samples := [1, 2, 3, 4, 5]\<rparr>"] by (simp add: Let_def)

end
