(* ===== verification/Stratum.thy ===== *)
theory Stratum
  imports Json
begin

text \<open>
  Package \<open>stratum\<close>: the JSON-RPC envelope and its accessors (\<open>message.go\<close>), the rewriting of
  worker logins (\<open>rewrite.go\<close>) and the framing of lines (\<open>linereader.go\<close>).

  \<^item> A raw field is a \<^typ>\<open>json option\<close>: \<^term>\<open>None\<close> when the key is absent, \<open>Some JNull\<close> for
    an explicit null, as \<open>json.RawMessage\<close> keeps it. White space between the tokens of a raw
    field is not kept; forwarding an unchanged message uses the line itself.
  \<^item> Decoding into the struct takes the keys in order, compares them without regard to ASCII
    case and lets a later one win, as \<open>encoding/json\<close> does.
  \<^item> The reader works on the bytes that the connection still delivers, in chunks of bufio's
    buffer of 4096 bytes, and on the error the connection ends with.

  The lemmas show what a rewritten request keeps of the original one, and that the chunked
  reader implements the splitting of the stream into lines.
\<close>

subsection \<open>The envelope\<close>

record message =
  msg_id :: "json option"
  msg_method :: string
  msg_params :: "json option"
  msg_result :: "json option"
  msg_error :: "json option"

datatype stratum_error = NotObject | BadJson | NilMapPanic

definition empty_message :: message where
  "empty_message = \<lparr>msg_id = None, msg_method = [], msg_params = None, msg_result = None, msg_error = None\<rparr>"

text \<open>One member decoded into the struct; \<^term>\<open>None\<close> is a type error.\<close>

definition set_field :: "string \<times> json \<Rightarrow> message \<Rightarrow> message option" where
  "set_field kv m =
     (case kv of (raw, v) \<Rightarrow>
       let k = unquote raw in
       if equal_fold k ''id'' then Some (m\<lparr>msg_id := Some v\<rparr>)
       else if equal_fold k ''method'' then
         (case v of JStr s \<Rightarrow> Some (m\<lparr>msg_method := unquote s\<rparr>) | JNull \<Rightarrow> Some m | _ \<Rightarrow> None)
       else if equal_fold k ''params'' then Some (m\<lparr>msg_params := Some v\<rparr>)
       else if equal_fold k ''result'' then Some (m\<lparr>msg_result := Some v\<rparr>)
       else if equal_fold k ''error'' then Some (m\<lparr>msg_error := Some v\<rparr>)
       else Some m)"

fun set_fields :: "(string \<times> json) list \<Rightarrow> message \<Rightarrow> message option" where
  "set_fields [] m = Some m"
| "set_fields (kv # ms) m = (case set_field kv m of None \<Rightarrow> None | Some m' \<Rightarrow> set_fields ms m')"

definition parse :: "string \<Rightarrow> stratum_error + message" where
  "parse line =
     (let line = trim_space line in
      if line = [] \<or> hd line \<noteq> CHR ''{'' then Inl NotObject
      else (case parse_json line of
          Some (JObj ms) \<Rightarrow>
            (case set_fields ms empty_message of Some m \<Rightarrow> Inr m | None \<Rightarrow> Inl BadJson)
        | _ \<Rightarrow> Inl BadJson))"

definition is_null :: "json option \<Rightarrow> bool" where
  "is_null raw \<longleftrightarrow> raw = None \<or> raw = Some JNull"

definition is_digits :: "string \<Rightarrow> bool" where
  "is_digits s \<longleftrightarrow> length s \<le> 18 \<and> list_all is_digit s"

definition id_text :: "string \<Rightarrow> string" where
  "id_text t =
     (if 2 < length t \<and> hd t = dq \<and> last t = dq \<and> is_digits (butlast (tl t))
      then butlast (tl t) else t)"

definition id_key :: "message \<Rightarrow> string" where
  "id_key m =
     (case msg_id m of None \<Rightarrow> []
      | Some j \<Rightarrow> if j = JNull then [] else id_text (raw_text j))"

definition result_true :: "json option \<Rightarrow> bool" where
  "result_true raw \<longleftrightarrow> raw = Some (JBool True)"

definition params_array :: "json option \<Rightarrow> json list option" where
  "params_array raw =
     (case raw of Some (JArr xs) \<Rightarrow> Some xs | Some JNull \<Rightarrow> Some [] | _ \<Rightarrow> None)"

definition string_of :: "json \<Rightarrow> string option" where
  "string_of j = (case j of JStr s \<Rightarrow> Some (unquote s) | JNull \<Rightarrow> Some [] | _ \<Rightarrow> None)"

definition string_at :: "json list \<Rightarrow> nat \<Rightarrow> string option" where
  "string_at ps i = (if length ps \<le> i then None else string_of (ps ! i))"

definition is_job :: "message \<Rightarrow> bool" where
  "is_job m \<longleftrightarrow>
     msg_method m = ''mining.notify'' \<and>
     (case params_array (msg_params m) of None \<Rightarrow> False
      | Some ps \<Rightarrow> 9 \<le> length ps \<and> string_at ps 0 \<notin> {None, Some []})"

definition number_at :: "json list \<Rightarrow> nat \<Rightarrow> real option" where
  "number_at ps i =
     (if length ps \<le> i then None
      else (case ps ! i of
          JNum s \<Rightarrow> parse_float s
        | JNull \<Rightarrow> Some 0
        | JStr s \<Rightarrow> parse_float (unquote s)
        | _ \<Rightarrow> None))"

subsection \<open>Building messages\<close>

definition encode_string :: "string \<Rightarrow> json" where
  "encode_string s = JStr (quote s)"

definition newline :: char where "newline = CHR 0x0A"

definition replace_params :: "string \<Rightarrow> json list \<Rightarrow> stratum_error + string" where
  "replace_params line ps =
     (case parse_json (trim_space line) of
        Some (JObj ms) \<Rightarrow>
          Inr (raw_text (marshal_map (put ''params'' (compact (JArr ps)) (members_map ms))) @ [newline])
      | Some JNull \<Rightarrow> Inl NilMapPanic
      | _ \<Rightarrow> Inl BadJson)"

text \<open>The message of an error object \<open>{"code": .., "message": ..}\<close>; \<^term>\<open>None\<close> is a type error.\<close>

fun error_message :: "(string \<times> json) list \<Rightarrow> string \<Rightarrow> string option" where
  "error_message [] s = Some s"
| "error_message ((k, v) # ms) s =
     (if equal_fold (unquote k) ''message'' then
        (case v of JStr t \<Rightarrow> error_message ms (unquote t) | JNull \<Rightarrow> error_message ms s | _ \<Rightarrow> None)
      else error_message ms s)"

definition error_reason :: "json option \<Rightarrow> string" where
  "error_reason raw =
     (case raw of None \<Rightarrow> []
      | Some j \<Rightarrow>
         (case j of JNull \<Rightarrow> []
          | JArr xs \<Rightarrow>
              (case string_at xs 1 of Some s \<Rightarrow> s
               | None \<Rightarrow> if xs \<noteq> [] then raw_text (hd xs) else take 100 (raw_text j))
          | JObj ms \<Rightarrow>
              (case error_message ms [] of
                 Some s \<Rightarrow> if s \<noteq> [] then s else take 100 (raw_text j)
               | None \<Rightarrow> take 100 (raw_text j))
          | JStr s \<Rightarrow> unquote s
          | _ \<Rightarrow> take 100 (raw_text j)))"

subsection \<open>Logins\<close>

record rewrite =
  rw_user :: string
  rw_password :: string

definition worker :: "string \<Rightarrow> string" where
  "worker login =
     (if CHR ''.'' \<notin> set login then (if login = [] then ''default'' else login)
      else let w = tl (dropWhile (\<lambda>c. c \<noteq> CHR ''.'') login) in if w \<noteq> [] then w else ''default'')"

definition rewrite_login :: "string \<Rightarrow> string \<Rightarrow> string \<Rightarrow> string \<Rightarrow> rewrite" where
  "rewrite_login login asic_password user_template pool_password =
     \<lparr>rw_user = replacer [(''{worker}'', worker login), (''{login}'', login)] user_template,
      rw_password = replacer [(''{password}'', asic_password)] pool_password\<rparr>"

subsection \<open>Line framing\<close>

datatype read_error = LineTooLong | EOF | UnexpectedEOF | OtherError

record line_reader =
  lr_stream :: string
  lr_end :: read_error
  lr_max :: nat
  lr_err :: "read_error option"

definition buffer_size :: nat where "buffer_size = 4096"

datatype slice = Line string | BufferFull string | Ended string

text \<open>\<open>bufio.Reader.ReadSlice\<close> on what is left of the stream.\<close>

definition read_slice :: "string \<Rightarrow> slice" where
  "read_slice s =
     (let l = takeWhile (\<lambda>c. c \<noteq> newline) s in
      if length l < buffer_size \<and> length l < length s then Line (l @ [newline])
      else if buffer_size \<le> length l then BufferFull (take buffer_size s)
      else Ended s)"

lemma read_slice_full: "read_slice s = BufferFull c \<Longrightarrow> c = take buffer_size s \<and> buffer_size \<le> length s"
  using length_takeWhile_le [of "\<lambda>c. c \<noteq> newline" s]
  by (auto simp: read_slice_def Let_def split: if_splits)

function read_raw :: "nat \<Rightarrow> read_error \<Rightarrow> string \<Rightarrow> string \<Rightarrow> read_error + string \<times> string" where
  "read_raw mx fin acc s =
     (case read_slice s of
        Line c \<Rightarrow>
          if mx < length acc + length c then Inl LineTooLong else Inr (acc @ c, drop (length c) s)
      | BufferFull c \<Rightarrow>
          if mx < length acc + length c then Inl LineTooLong else read_raw mx fin (acc @ c) (drop (length c) s)
      | Ended c \<Rightarrow>
          if mx < length acc + length c then Inl LineTooLong
          else Inl (if fin = EOF \<and> acc @ c \<noteq> [] then UnexpectedEOF else fin))"
  by pat_completeness auto
termination
  by (relation "measure (\<lambda>(mx, fin, acc, s). length s)")
    (auto dest!: read_slice_full simp: buffer_size_def)

declare read_raw.simps [simp del]

definition blank :: "string \<Rightarrow> bool" where
  "blank s \<longleftrightarrow> list_all (\<lambda>c. byte c \<in> {9, 10, 13, 32}) s"

lemma read_raw_cases:
  "read_slice s = Line c \<Longrightarrow> read_raw mx fin acc s =
     (if mx < length acc + length c then Inl LineTooLong else Inr (acc @ c, drop (length c) s))"
  "read_slice s = BufferFull c \<Longrightarrow> read_raw mx fin acc s =
     (if mx < length acc + length c then Inl LineTooLong else read_raw mx fin (acc @ c) (drop (length c) s))"
  "read_slice s = Ended c \<Longrightarrow> read_raw mx fin acc s =
     (if mx < length acc + length c then Inl LineTooLong
      else Inl (if fin = EOF \<and> acc @ c \<noteq> [] then UnexpectedEOF else fin))"
  by (subst read_raw.simps, simp)+

lemma read_raw_rest: "read_raw mx fin acc s = Inr (l, r) \<Longrightarrow> length r < length s"
proof (induction mx fin acc s rule: read_raw.induct)
  case (1 mx fin acc s)
  show ?case
  proof (cases "read_slice s")
    case (Line c)
    then have "0 < length c" "length c \<le> length s"
      by (auto simp: read_slice_def Let_def split: if_splits)
    then have "length (drop (length c) s) < length s" unfolding length_drop by linarith
    with 1(2) Line show ?thesis by (auto simp: read_raw_cases split: if_splits)
  next
    case (BufferFull c)
    with 1(2) have "\<not> mx < length acc + length c" "read_raw mx fin (acc @ c) (drop (length c) s) = Inr (l, r)"
      by (auto simp: read_raw_cases split: if_splits)
    with 1(1) BufferFull have "length r < length (drop (length c) s)" by blast
    then show ?thesis by simp
  next
    case (Ended c)
    with 1(2) show ?thesis by (simp add: read_raw_cases split: if_splits)
  qed
qed

function read_lines :: "nat \<Rightarrow> read_error \<Rightarrow> string \<Rightarrow> read_error + string \<times> string" where
  "read_lines mx fin s =
     (case read_raw mx fin [] s of
        Inl e \<Rightarrow> Inl e
      | Inr (l, r) \<Rightarrow> if blank l then read_lines mx fin r else Inr (l, r))"
  by pat_completeness auto
termination
  by (relation "measure (\<lambda>(mx, fin, s). length s)") (auto dest: read_raw_rest)

declare read_lines.simps [simp del]

definition read_line :: "line_reader \<Rightarrow> (read_error + string) \<times> line_reader" where
  "read_line l =
     (case lr_err l of
        Some e \<Rightarrow> (Inl e, l)
      | None \<Rightarrow>
          (case read_lines (lr_max l) (lr_end l) (lr_stream l) of
             Inl e \<Rightarrow> (Inl e, l\<lparr>lr_err := Some e\<rparr>)
           | Inr (line, r) \<Rightarrow> (Inr line, l\<lparr>lr_stream := r\<rparr>)))"

subsection \<open>Lemmas\<close>

text \<open>The splitting of the stream the reader stands for: the first line with its terminator if
  it fits, an error if the line or the unterminated rest is longer than the limit.\<close>

definition frame :: "nat \<Rightarrow> read_error \<Rightarrow> string \<Rightarrow> read_error + string \<times> string" where
  "frame mx fin s =
     (let l = takeWhile (\<lambda>c. c \<noteq> newline) s in
      if length l < length s then
        (if length l < mx then Inr (l @ [newline], drop (Suc (length l)) s) else Inl LineTooLong)
      else if mx < length s then Inl LineTooLong
      else Inl (if fin = EOF \<and> s \<noteq> [] then UnexpectedEOF else fin))"

lemma takeWhile_no_newline: "newline \<notin> set acc \<Longrightarrow>
    takeWhile (\<lambda>c. c \<noteq> newline) (acc @ s) = acc @ takeWhile (\<lambda>c. c \<noteq> newline) s"
  by (rule takeWhile_append2) auto

lemma takeWhile_take_newline:
  assumes "buffer_size \<le> length (takeWhile (\<lambda>c. c \<noteq> newline) s)"
  shows "newline \<notin> set (take buffer_size s)"
proof -
  have "take buffer_size s = take buffer_size (takeWhile (\<lambda>c. c \<noteq> newline) s)"
    using assms by (subst takeWhile_eq_take) (simp add: min.absorb1)
  then have "set (take buffer_size s) \<subseteq> set (takeWhile (\<lambda>c. c \<noteq> newline) s)"
    by (metis set_take_subset)
  then show ?thesis by (auto dest: set_takeWhileD)
qed

lemma read_raw_frame_acc:
  assumes "newline \<notin> set acc"
  shows "read_raw mx fin acc s = frame mx fin (acc @ s)"
  using assms
proof (induction mx fin acc s rule: read_raw.induct)
  case (1 mx fin acc s)
  define l where "l = takeWhile (\<lambda>c. c \<noteq> newline) s"
  have l: "length l \<le> length s" by (simp add: l_def length_takeWhile_le)
  have tw: "takeWhile (\<lambda>c. c \<noteq> newline) (acc @ s) = acc @ l"
    using 1(2) by (simp add: takeWhile_no_newline l_def)
  show ?case
  proof (cases "read_slice s")
    case (Line c)
    then have "c = l @ [newline]" "length l < length s"
      by (auto simp: read_slice_def Let_def l_def split: if_splits)
    then show ?thesis using Line tw by (auto simp: read_raw_cases frame_def Let_def not_less_eq)
  next
    case (BufferFull c)
    then have c: "c = take buffer_size s" "buffer_size \<le> length l"
      by (auto simp: read_slice_def Let_def l_def split: if_splits)
    then have nl: "newline \<notin> set (acc @ c)" using takeWhile_take_newline 1(2) by (simp add: l_def)
    have len: "length c = buffer_size" using c l by simp
    show ?thesis
    proof (cases "mx < length acc + length c")
      case True
      then have "mx \<le> length acc + length l" "mx < length acc + length s" using c(2) l len by auto
      then show ?thesis using True BufferFull tw by (auto simp: read_raw_cases frame_def Let_def)
    next
      case False
      have "read_raw mx fin (acc @ c) (drop (length c) s) = frame mx fin ((acc @ c) @ drop (length c) s)"
        using 1(1) BufferFull False nl by blast
      also have "(acc @ c) @ drop (length c) s = acc @ s" using c(1) len by simp
      finally show ?thesis using False BufferFull by (simp add: read_raw_cases)
    qed
  next
    case (Ended c)
    then have "c = s" "length l = length s" using l
      by (auto simp: read_slice_def Let_def l_def split: if_splits)
    then show ?thesis using Ended tw by (auto simp: read_raw_cases frame_def Let_def)
  qed
qed

lemma read_raw_frame: "read_raw mx fin [] s = frame mx fin s"
  by (simp add: read_raw_frame_acc)

lemma frame_line:
  assumes "frame mx fin s = Inr (line, r)"
  shows "s = line @ r \<and> length line \<le> mx \<and> line \<noteq> [] \<and> last line = newline \<and> newline \<notin> set (butlast line)"
proof -
  define l where "l = takeWhile (\<lambda>c. c \<noteq> newline) s"
  have *: "length l < length s" "length l < mx" "line = l @ [newline]" "r = drop (Suc (length l)) s"
    using assms by (auto simp: frame_def Let_def l_def split: if_splits)
  have "s = l @ dropWhile (\<lambda>c. c \<noteq> newline) s" by (simp add: l_def)
  moreover have "dropWhile (\<lambda>c. c \<noteq> newline) s \<noteq> []" using * calculation by (metis append_Nil2 less_irrefl)
  moreover have "hd (dropWhile (\<lambda>c. c \<noteq> newline) s) = newline"
    using calculation(2) hd_dropWhile [of "\<lambda>c. c \<noteq> newline" s] by simp
  ultimately obtain t where "s = l @ newline # t" by (metis list.collapse)
  moreover have "newline \<notin> set l" by (auto simp: l_def dest: set_takeWhileD)
  ultimately show ?thesis using * by simp
qed

lemma blank_append [simp]: "blank (a @ b) \<longleftrightarrow> blank a \<and> blank b"
  by (simp add: blank_def)

lemma read_lines_spec:
  "read_lines mx fin s = Inr (line, r) \<Longrightarrow>
     \<not> blank line \<and> (\<exists>sk t. blank sk \<and> s = sk @ t \<and> frame mx fin t = Inr (line, r))"
proof (induction mx fin s rule: read_lines.induct)
  case (1 mx fin s)
  show ?case
  proof (cases "read_raw mx fin [] s")
    case (Inl e)
    with 1(2) show ?thesis by (subst (asm) read_lines.simps) simp
  next
    case (Inr p)
    obtain l t where p: "p = (l, t)" by fastforce
    show ?thesis
    proof (cases "blank l")
      case True
      then have "read_lines mx fin t = Inr (line, r)"
        using 1(2) Inr p by (subst (asm) read_lines.simps) simp
      then obtain sk u where *: "\<not> blank line" "blank sk" "t = sk @ u" "frame mx fin u = Inr (line, r)"
        using 1(1) [OF Inr p [symmetric] True] p by blast
      have "s = l @ t" using Inr p frame_line [of mx fin s l t] by (simp add: read_raw_frame)
      with * True have "blank (l @ sk)" "s = (l @ sk) @ u" by auto
      with * show ?thesis by blast
    next
      case False
      then have "line = l" "r = t"
        using 1(2) Inr p by (subst (asm) read_lines.simps; simp)+
      then have "frame mx fin s = Inr (line, r)" using Inr p by (simp add: read_raw_frame)
      then show ?thesis using False \<open>line = l\<close> by (intro conjI exI [of _ "[]"] exI [of _ s]) (auto simp: blank_def)
    qed
  qed
qed

lemma string_of_compact [simp]: "wf_json j \<Longrightarrow> string_of (compact j) = string_of j"
  by (cases j) (simp_all add: string_of_def unquote_html_raw)

lemma worker_nonempty: "worker login \<noteq> []"
  by (simp add: worker_def Let_def)

lemma trim_object_line: "trim_space (raw_text (JObj ms) @ [newline]) = raw_text (JObj ms)"
  by (simp add: trim_space_def newline_def is_space_def)

text \<open>A member of a rewritten request: the new parameters, or what it was, compacted.\<close>

lemma replace_params_object:
  assumes "parse_json (trim_space line) = Some (JObj ms)" "list_all wf_json ps"
  obtains out ns where "replace_params line ps = Inr out" "trim_space out @ [newline] = out"
    "parse_json (trim_space out) = Some (JObj ns)"
    "\<And>k. map_of (members_map ns) k =
       (if k = ''params'' then Some (compact (compact (JArr ps)))
        else map_option compact (map_of (members_map ms) k))"
proof -
  define m where "m = put ''params'' (compact (JArr ps)) (members_map ms)"
  have "list_all (\<lambda>(k, v). raw_ok k \<and> wf_json v) ms" using parse_json_wf [OF assms(1)] by simp
  then have "(k, v) \<in> set m \<Longrightarrow> wf_json v" for k v
    using wf_members_map set_put_subset [of "''params''" "compact (JArr ps)" "members_map ms"]
      wf_compact [of "JArr ps"] assms(2) unfolding m_def by fastforce
  then have wf: "wf_json (marshal_map m)" by (rule wf_marshal_map)
  obtain ns where ns: "marshal_map m = JObj ns" by (simp add: marshal_map_def)
  define out where "out = raw_text (JObj ns) @ [newline]"
  have trim: "trim_space out = raw_text (JObj ns)" by (simp only: out_def trim_object_line)
  have "replace_params line ps = Inr out"
    using assms(1) by (simp only: replace_params_def option.case json.case m_def [symmetric] ns out_def)
  moreover have "trim_space out @ [newline] = out" unfolding trim by (simp only: out_def)
  moreover have "parse_json (trim_space out) = Some (JObj ns)"
    using wf parse_raw_text [of "JObj ns"] by (simp only: ns trim)
  moreover have "map_of (members_map ns) k = (if k = ''params'' then Some (compact (compact (JArr ps)))
        else map_option compact (map_of (members_map ms) k))" for k
    using map_of_marshal_map [OF _ ns, of k] members_map_wf [of ms] by (simp add: m_def)
  ultimately show ?thesis by (rule that)
qed

subsection \<open>Properties\<close>

text \<open>A rewritten request has the new parameters under \<open>params\<close> and every other member of the
  original object (id, method, extensions) with its value, compacted; the parameters decode to
  the same strings as before they were put in.\<close>

theorem replace_params_keeps_message:
  assumes "parse_json (trim_space line) = Some (JObj ms)" "list_all wf_json ps"
  shows "\<exists>out ns. replace_params line ps = Inr out \<and> parse_json (trim_space out) = Some (JObj ns) \<and>
    map_of (members_map ns) ''params'' = Some (compact (compact (JArr ps))) \<and>
    (\<forall>k. k \<noteq> ''params'' \<longrightarrow> map_of (members_map ns) k = map_option compact (map_of (members_map ms) k)) \<and>
    (\<forall>i. string_at (map (compact \<circ> compact) ps) i = string_at ps i)"
proof -
  have "string_of (compact (compact x)) = string_of x" if "x \<in> set ps" for x
    using that assms(2) by (simp add: list_all_iff wf_compact)
  then have "string_at (map (compact \<circ> compact) ps) i = string_at ps i" for i
    by (simp add: string_at_def)
  then show ?thesis
    using replace_params_object [OF assms] by (metis (lifting))
qed

abbreviation submit_example :: string where
  "submit_example \<equiv> CHR ''{'' # dq # ''id'' @ dq # '': 4, '' @ dq # ''params'' @ dq # '':['' @ dq # ''a.b'' @ dq # '']}''"

theorem replace_params_keeps_message_witness:
  "\<exists>out ns. replace_params submit_example [encode_string ''x''] = Inr out \<and> parse_json (trim_space out) = Some (JObj ns) \<and>
    map_of (members_map ns) ''params'' = Some (compact (compact (JArr [encode_string ''x'']))) \<and>
    (\<forall>k. k \<noteq> ''params'' \<longrightarrow> map_of (members_map ns) k = map_option compact (map_of (members_map [(''id'', JNum ''4''), (''params'', JArr [JStr ''a.b''])]) k)) \<and>
    (\<forall>i. string_at (map (compact \<circ> compact) [encode_string ''x'']) i = string_at [encode_string ''x''] i)"
proof (rule replace_params_keeps_message)
  show "parse_json (trim_space submit_example) = Some (JObj [(''id'', JNum ''4''), (''params'', JArr [JStr ''a.b''])])"
    by code_simp
  show "list_all wf_json [encode_string ''x'']" by code_simp
qed

text \<open>A successful read returns the next line of the stream that is not blank: whole, with its
  terminator, within the limit, whatever the chunks it arrived in; an error is returned by every
  later read.\<close>

theorem read_line_framing:
  "case read_line l of
     (Inr line, l') \<Rightarrow>
       lr_err l = None \<and> \<not> blank line \<and> length line \<le> lr_max l \<and> last line = newline \<and> newline \<notin> set (butlast line) \<and>
       (\<exists>skipped. blank skipped \<and> lr_stream l = skipped @ line @ lr_stream l')
   | (Inl e, l') \<Rightarrow> read_line l' = (Inl e, l')"
proof (cases "lr_err l")
  case (Some e)
  then show ?thesis by (simp add: read_line_def)
next
  case None
  show ?thesis
  proof (cases "read_lines (lr_max l) (lr_end l) (lr_stream l)")
    case (Inl e)
    with None show ?thesis by (simp add: read_line_def)
  next
    case (Inr p)
    obtain line r where p: "p = (line, r)" by fastforce
    with Inr obtain sk t where "\<not> blank line" "blank sk" "lr_stream l = sk @ t" "frame (lr_max l) (lr_end l) t = Inr (line, r)"
      using read_lines_spec by blast
    with None Inr p frame_line [of "lr_max l" "lr_end l" t line r] show ?thesis
      by (auto simp: read_line_def)
  qed
qed

text \<open>The reader that works in chunks of the buffer's size returns what splitting the whole
  stream at the first terminator gives, the error for a line over the limit included.\<close>

theorem read_raw_is_frame: "read_raw mx fin [] s = frame mx fin s"
  by (rule read_raw_frame)

text \<open>A pool login made from a template with one \<open>{worker}\<close> is the template with the worker in
  its place; the worker name is never empty and is not expanded again, even if it looks like a
  placeholder.\<close>

theorem rewrite_login_worker:
  assumes "CHR ''{'' \<notin> set pre" "CHR ''{'' \<notin> set post"
  shows "rw_user (rewrite_login login pass (pre @ ''{worker}'' @ post) pw) = pre @ worker login @ post \<and> worker login \<noteq> []"
proof -
  let ?ps = "[(''{worker}'', worker login), (''{login}'', login)]"
  have none: "replacer ?ps s = s" if "CHR ''{'' \<notin> set s" for s
    using that by (induction s) auto
  have "replacer ?ps (pre @ ''{worker}'' @ post) = pre @ worker login @ replacer ?ps post"
    using assms(1) by (induction pre) auto
  then show ?thesis using none [OF assms(2)] worker_nonempty by (simp add: rewrite_login_def)
qed

theorem rewrite_login_worker_witness:
  "rw_user (rewrite_login ''farm.{login}'' ''p'' (''acc.'' @ ''{worker}'' @ []) ''x'') = ''acc.'' @ worker ''farm.{login}'' @ []
    \<and> worker ''farm.{login}'' \<noteq> []"
  by (rule rewrite_login_worker) simp_all

text \<open>The key of a numeric request id of at most 18 digits and of the same digits echoed as a
  string are equal, so the answer of a pool that quotes ids is still matched.\<close>

theorem id_key_echoed:
  assumes "n \<noteq> []" "is_digits n" "msg_id a = Some (JNum n)" "msg_id b = Some (JStr n)"
  shows "id_key a = n \<and> id_key b = n"
proof -
  have "hd n \<noteq> dq" using assms(1,2) by (cases n) (auto simp: is_digits_def is_digit_def)
  then show ?thesis using assms by (cases n) (auto simp: id_key_def id_text_def)
qed

theorem id_key_echoed_witness:
  "id_key (empty_message\<lparr>msg_id := Some (JNum ''0012'')\<rparr>) = ''0012'' \<and>
   id_key (empty_message\<lparr>msg_id := Some (JStr ''0012'')\<rparr>) = ''0012''"
  by (rule id_key_echoed) (simp_all add: is_digits_def is_digit_def)

end
