(* ===== verification/Dial.thy ===== *)
theory Dial
  imports Stratum State
begin

text \<open>
  Package \<open>pool\<close>, \<open>dial.go\<close>: connecting to an address and checking it with a handshake of the
  protocol.

  \<^item> What the network does is an argument: the connect time or a failure, the result of the TLS
    handshake, which requests could be written, and all bytes the pool sends with the error that ends
    them. The line readers of a check share one buffered reader, so they continue on the same stream.
  \<^item> \<open>call_observed\<close> sends a request and reads lines until the answer; \<open>check_address\<close> is \<open>Check\<close>.
  \<^item> Which low-level error means that the deadline passed (\<open>timedOut\<close>) is left out: it only chooses a text.

  The lemmas show that a check that succeeds saw every answer and a job on the stream.
\<close>

definition user_agent :: string where "user_agent = ''sha256-stratum-proxy/1.0''"
definition check_line_limit :: nat where "check_line_limit = 64 * 1024"

text \<open>\<open>Dial\<close>: the connect time, at least a microsecond, and whether the connection is usable.\<close>

definition dial :: "pool \<Rightarrow> duration option \<Rightarrow> bool \<Rightarrow> duration option" where
  "dial p connect handshake_ok =
     (case connect of None \<Rightarrow> None
      | Some d \<Rightarrow>
          (let rtt = (if d \<le> 0 then 1000 else d) in
           if \<not> p_tls p then Some rtt else if handshake_ok then Some rtt else None))"

datatype call_error =
    RequestNotWritten
  | ReadFails read_error
  | InvalidResponse stratum_error
  | PoolError string
  | EmptyResult
  | RejectedByPool
  | InvalidSubscription

datatype check_error =
    ConnectFails
  | SubscribeFails call_error
  | AuthorizeFails string call_error
  | NotifyFails call_error

definition request :: "nat \<Rightarrow> string \<Rightarrow> string list \<Rightarrow> string" where
  "request i meth params =
     raw_text (marshal_map [(''id'', JNum (show_nat i)), (''method'', encode_string meth),
       (''params'', JArr (map encode_string params))]) @ [newline]"

text \<open>Judging the answer to a request.\<close>

definition judge_answer :: "bool \<Rightarrow> message \<Rightarrow> call_error option" where
  "judge_answer want_true msg =
     (if \<not> is_null (msg_error msg) then Some (PoolError (error_reason (msg_error msg)))
      else if is_null (msg_result msg) then Some EmptyResult
      else if want_true then (if result_true (msg_result msg) then None else Some RejectedByPool)
      else (case msg_result msg of
          Some (JArr xs) \<Rightarrow> if length xs < 3 then Some InvalidSubscription else None
        | _ \<Rightarrow> Some InvalidSubscription))"

definition answers :: "nat \<Rightarrow> message \<Rightarrow> bool" where
  "answers i msg \<longleftrightarrow>
     msg_method msg = [] \<and> (id_key msg = show_nat i \<or> id_key msg = [dq] @ show_nat i @ [dq])"

lemma read_lines_rest: "read_lines mx fin s = Inr (l, r) \<Longrightarrow> length r < length s"
proof (induction mx fin s rule: read_lines.induct)
  case (1 mx fin s)
  obtain l1 r1 where r1: "read_raw mx fin [] s = Inr (l1, r1)"
    using 1(2) by (subst (asm) read_lines.simps) (auto split: sum.splits)
  show ?case
  proof (cases "blank l1")
    case True
    then have "read_lines mx fin r1 = Inr (l, r)" using 1(2) r1 by (subst (asm) read_lines.simps) simp
    from 1(1) [OF r1 refl True this] read_raw_rest [OF r1] show ?thesis by simp
  next
    case False
    then have "r = r1" using 1(2) r1 by (subst (asm) read_lines.simps) simp
    then show ?thesis using read_raw_rest [OF r1] by simp
  qed
qed

text \<open>The loop of \<open>callObserved\<close>: the error if any, whether a job was seen, and the rest of the stream.\<close>

function call_loop :: "nat \<Rightarrow> bool \<Rightarrow> read_error \<Rightarrow> bool \<Rightarrow> string \<Rightarrow> call_error option \<times> bool \<times> string" where
  "call_loop i want_true fin got_job s =
     (case read_lines check_line_limit fin s of
        Inl e \<Rightarrow> (Some (ReadFails e), got_job, s)
      | Inr (line, r) \<Rightarrow>
          (case parse line of
             Inl e \<Rightarrow> (Some (InvalidResponse e), got_job, r)
           | Inr msg \<Rightarrow>
               (let job = got_job \<or> is_job msg in
                if \<not> answers i msg then call_loop i want_true fin job r
                else (judge_answer want_true msg, job, r))))"
  by pat_completeness auto
termination by (relation "measure (\<lambda>(i, w, fin, j, s). length s)") (auto dest: read_lines_rest)

declare call_loop.simps [simp del]

definition call_observed ::
  "nat \<Rightarrow> bool \<Rightarrow> bool \<Rightarrow> read_error \<Rightarrow> bool \<Rightarrow> string \<Rightarrow> call_error option \<times> bool \<times> string" where
  "call_observed i want_true write_ok fin got_job s =
     (if write_ok then call_loop i want_true fin got_job s else (Some RequestNotWritten, got_job, s))"

text \<open>The wait for a job after the answers.\<close>

function await_job :: "read_error \<Rightarrow> bool \<Rightarrow> string \<Rightarrow> call_error option" where
  "await_job fin got_job s =
     (if got_job then None
      else (case read_lines check_line_limit fin s of
          Inl e \<Rightarrow> Some (ReadFails e)
        | Inr (line, r) \<Rightarrow>
            (case parse line of Inl e \<Rightarrow> Some (InvalidResponse e)
             | Inr msg \<Rightarrow> await_job fin (is_job msg) r)))"
  by pat_completeness auto
termination by (relation "measure (\<lambda>(fin, j, s). length s)") (auto dest: read_lines_rest)

declare await_job.simps [simp del]

text \<open>What the network does during a check.\<close>

record network =
  n_connect :: "duration option"
  n_handshake :: bool
  n_write1 :: bool
  n_write2 :: bool
  n_stream :: string
  n_end :: read_error

record check_result =
  cr_rtt :: duration
  cr_err :: "check_error option"
  cr_sent :: "string list"

definition check_address :: "pool \<Rightarrow> bool \<Rightarrow> string \<Rightarrow> network \<Rightarrow> check_result" where
  "check_address p auth test_worker n =
     (case dial p (n_connect n) (n_handshake n) of
        None \<Rightarrow> \<lparr>cr_rtt = 0, cr_err = Some ConnectFails, cr_sent = []\<rparr>
      | Some rtt \<Rightarrow>
          (let req1 = request 1 ''mining.subscribe'' [user_agent] in
           case call_observed 1 False (n_write1 n) (n_end n) False (n_stream n) of
             (Some e, _, _) \<Rightarrow> \<lparr>cr_rtt = rtt, cr_err = Some (SubscribeFails e), cr_sent = [req1]\<rparr>
           | (None, job1, s1) \<Rightarrow>
               if \<not> auth then \<lparr>cr_rtt = rtt, cr_err = None, cr_sent = [req1]\<rparr>
               else
                 (let rw = rewrite_login test_worker ''x'' (p_username p) (p_password p);
                      req2 = request 2 ''mining.authorize'' [rw_user rw, rw_password rw]
                  in case call_observed 2 True (n_write2 n) (n_end n) job1 s1 of
                       (Some e, _, _) \<Rightarrow>
                         \<lparr>cr_rtt = rtt, cr_err = Some (AuthorizeFails (rw_user rw) e), cr_sent = [req1, req2]\<rparr>
                     | (None, job2, s2) \<Rightarrow>
                         \<lparr>cr_rtt = rtt, cr_err = map_option NotifyFails (await_job (n_end n) job2 s2), cr_sent = [req1, req2]\<rparr>)))"

record addr_result =
  ar_address :: address
  ar_rtt :: duration
  ar_err :: "check_error option"

definition check_all :: "pool \<Rightarrow> bool \<Rightarrow> string \<Rightarrow> (address \<Rightarrow> network) \<Rightarrow> addr_result list" where
  "check_all p auth test_worker net =
     map (\<lambda>a. let c = check_address p auth test_worker (net a) in
              \<lparr>ar_address = a, ar_rtt = cr_rtt c, ar_err = cr_err c\<rparr>) (p_addresses p)"

subsection \<open>Lemmas\<close>

text \<open>The lines on a stream before its end or its first error.\<close>

function stream_lines :: "read_error \<Rightarrow> string \<Rightarrow> string list" where
  "stream_lines fin s =
     (case read_lines check_line_limit fin s of Inl e \<Rightarrow> [] | Inr (l, r) \<Rightarrow> l # stream_lines fin r)"
  by pat_completeness auto
termination by (relation "measure (\<lambda>(fin, s). length s)") (auto dest: read_lines_rest)

declare stream_lines.simps [simp del]

lemma stream_lines_read: "read_lines check_line_limit fin s = Inr (l, r) \<Longrightarrow> stream_lines fin s = l # stream_lines fin r"
  by (subst stream_lines.simps) simp

definition job_on :: "string \<Rightarrow> bool" where
  "job_on line \<longleftrightarrow> (\<exists>msg. parse line = Inr msg \<and> is_job msg)"

definition good_answer :: "nat \<Rightarrow> bool \<Rightarrow> string \<Rightarrow> bool" where
  "good_answer i want_true line \<longleftrightarrow> (\<exists>msg. parse line = Inr msg \<and> answers i msg \<and> judge_answer want_true msg = None)"

text \<open>A call that succeeds consumed lines up to a good answer, all of them valid, and saw their jobs.\<close>

lemma call_loop_ok:
  "call_loop i w fin j s = (None, j', s') \<Longrightarrow>
     \<exists>ls l. stream_lines fin s = ls @ l # stream_lines fin s' \<and> good_answer i w l \<and>
       (\<forall>x \<in> set ls. \<exists>m. parse x = Inr m \<and> \<not> answers i m) \<and> (j' \<longleftrightarrow> j \<or> (\<exists>x \<in> set (ls @ [l]). job_on x))"
proof (induction i w fin j s rule: call_loop.induct)
  case (1 i w fin j s)
  obtain line r where l: "read_lines check_line_limit fin s = Inr (line, r)"
    using 1(2) by (subst (asm) call_loop.simps) (auto split: sum.splits)
  obtain msg where m: "parse line = Inr msg"
    using 1(2) l by (subst (asm) call_loop.simps) (auto split: sum.splits)
  show ?case
  proof (cases "answers i msg")
    case True
    then have "judge_answer w msg = None" "j' = (j \<or> is_job msg)" "s' = r"
      using 1(2) l m by (subst (asm) call_loop.simps; simp)+
    then show ?thesis using True m stream_lines_read [OF l]
      by (intro exI [of _ "[]"] exI [of _ line]) (auto simp: good_answer_def job_on_def)
  next
    case False
    then have "call_loop i w fin (j \<or> is_job msg) r = (None, j', s')"
      using 1(2) l m by (subst (asm) call_loop.simps) simp
    with 1(1) [OF l refl m refl False] obtain ls x where
      *: "stream_lines fin r = ls @ x # stream_lines fin s'" "good_answer i w x"
        "\<forall>y \<in> set ls. \<exists>m. parse y = Inr m \<and> \<not> answers i m"
        "j' \<longleftrightarrow> (j \<or> is_job msg) \<or> (\<exists>y \<in> set (ls @ [x]). job_on y)" by blast
    have "is_job msg \<longleftrightarrow> job_on line" using m by (simp add: job_on_def)
    then show ?thesis using * m False stream_lines_read [OF l]
      by (intro exI [of _ "line # ls"] exI [of _ x]) auto
  qed
qed

lemma await_job_ok: "await_job fin j s = None \<Longrightarrow> j \<or> (\<exists>x \<in> set (stream_lines fin s). job_on x)"
proof (induction fin j s rule: await_job.induct)
  case (1 fin j s)
  show ?case
  proof (cases j)
    case False
    obtain line r where l: "read_lines check_line_limit fin s = Inr (line, r)"
      using 1(2) False by (subst (asm) await_job.simps) (auto split: sum.splits)
    obtain msg where m: "parse line = Inr msg"
      using 1(2) False l by (subst (asm) await_job.simps) (auto split: sum.splits)
    then have "await_job fin (is_job msg) r = None"
      using 1(2) l False by (subst (asm) await_job.simps) simp
    from 1(1) [OF False l refl m this] show ?thesis
      using m stream_lines_read [OF l] by (auto simp: job_on_def)
  qed simp
qed

lemma judge_true: "judge_answer True msg = None \<Longrightarrow> result_true (msg_result msg) \<and> is_null (msg_error msg)"
  by (auto simp: judge_answer_def split: if_splits)

lemma dial_positive: "dial p c h = Some rtt \<Longrightarrow> 0 < rtt"
  by (auto simp: dial_def Let_def split: option.splits if_splits)

text \<open>An address passes the full check only if, on the stream of the pool, a good answer to the
  subscription is followed by an accepting answer to the authorization of the test worker, and one of the
  lines is a job; a job alone or an answer alone does not do. Jobs may come before or between the answers.\<close>

theorem check_needs_answers_and_job:
  assumes "cr_err (check_address p True w n) = None"
  shows "\<exists>pre l1 mid l2 post. stream_lines (n_end n) (n_stream n) = pre @ l1 # mid @ l2 # post \<and>
    good_answer 1 False l1 \<and> good_answer 2 True l2 \<and>
    (\<exists>m. parse l2 = Inr m \<and> result_true (msg_result m) \<and> is_null (msg_error m)) \<and>
    (\<exists>x \<in> set (pre @ l1 # mid @ l2 # post). job_on x) \<and>
    cr_sent (check_address p True w n) = [request 1 ''mining.subscribe'' [user_agent],
      request 2 ''mining.authorize'' [rw_user (rewrite_login w ''x'' (p_username p) (p_password p)),
        rw_password (rewrite_login w ''x'' (p_username p) (p_password p))]] \<and>
    0 < cr_rtt (check_address p True w n)"
proof -
  obtain rtt where rtt: "dial p (n_connect n) (n_handshake n) = Some rtt"
    using assms by (auto simp: check_address_def split: option.splits)
  obtain j1 s1 where c1: "call_observed 1 False (n_write1 n) (n_end n) False (n_stream n) = (None, j1, s1)"
    using assms rtt by (auto simp: check_address_def Let_def split: option.splits prod.splits)
  obtain j2 s2 where c2: "call_observed 2 True (n_write2 n) (n_end n) j1 s1 = (None, j2, s2)"
    using assms rtt c1 by (auto simp: check_address_def Let_def split: option.splits prod.splits)
  have r: "check_address p True w n = \<lparr>cr_rtt = rtt, cr_err = map_option NotifyFails (await_job (n_end n) j2 s2),
      cr_sent = [request 1 ''mining.subscribe'' [user_agent],
      request 2 ''mining.authorize'' [rw_user (rewrite_login w ''x'' (p_username p) (p_password p)),
        rw_password (rewrite_login w ''x'' (p_username p) (p_password p))]]\<rparr>"
    unfolding check_address_def Let_def rtt option.case c1 prod.case c2 by simp
  then have a: "await_job (n_end n) j2 s2 = None" using assms by simp
  obtain ls1 l1 where 1: "stream_lines (n_end n) (n_stream n) = ls1 @ l1 # stream_lines (n_end n) s1" "good_answer 1 False l1"
    "j1 \<longleftrightarrow> (\<exists>x \<in> set (ls1 @ [l1]). job_on x)"
    using c1 call_loop_ok [of 1 False "n_end n" False "n_stream n" j1 s1] by (auto simp: call_observed_def split: if_splits)
  obtain ls2 l2 where 2: "stream_lines (n_end n) s1 = ls2 @ l2 # stream_lines (n_end n) s2" "good_answer 2 True l2"
    "j2 \<longleftrightarrow> j1 \<or> (\<exists>x \<in> set (ls2 @ [l2]). job_on x)"
    using c2 call_loop_ok [of 2 True "n_end n" j1 s1 j2 s2] by (auto simp: call_observed_def split: if_splits)
  have "\<exists>x \<in> set (ls1 @ l1 # ls2 @ l2 # stream_lines (n_end n) s2). job_on x"
    using await_job_ok [OF a] 1(3) 2(3) by auto
  moreover have "\<exists>m. parse l2 = Inr m \<and> result_true (msg_result m) \<and> is_null (msg_error m)"
    using 2(2) judge_true by (auto simp: good_answer_def)
  ultimately show ?thesis using 1(1,2) 2(1,2) dial_positive [OF rtt] r
    by (intro exI [of _ ls1] exI [of _ l1] exI [of _ ls2] exI [of _ l2] exI [of _ "stream_lines (n_end n) s2"]) simp
qed

lemma read_lines_short:
  assumes "newline \<notin> set l" "length l < 4096" "\<not> blank l"
  shows "read_lines check_line_limit fin (l @ newline # r) = Inr (l @ [newline], r)"
proof -
  have "takeWhile (\<lambda>c. c \<noteq> newline) (l @ newline # r) = l" using assms(1) by (subst takeWhile_append2) auto
  then have "read_slice (l @ newline # r) = Line (l @ [newline])"
    using assms(2) by (simp add: read_slice_def Let_def buffer_size_def)
  then have "read_raw check_line_limit fin [] (l @ newline # r) = Inr (l @ [newline], r)"
    using assms(2) by (simp add: read_raw_cases check_line_limit_def)
  then show ?thesis using assms(3) by (subst read_lines.simps) simp
qed

definition subscribed :: string where
  "subscribed = ''{'' @ [dq] @ ''id'' @ [dq] @ '':1,'' @ [dq] @ ''result'' @ [dq] @ '':[[],1,4]}''"

definition notified :: string where
  "notified = ''{'' @ [dq] @ ''method'' @ [dq] @ '':'' @ [dq] @ ''mining.notify'' @ [dq] @ '','' @ [dq] @ ''params'' @ [dq] @ '':['' @
     [dq] @ ''j'' @ [dq] @ '',1,1,1,1,1,1,1,1]}''"

definition authorized :: string where
  "authorized = ''{'' @ [dq] @ ''id'' @ [dq] @ '':2,'' @ [dq] @ ''result'' @ [dq] @ '':true}''"

definition example_network :: network where
  "example_network = \<lparr>n_connect = Some 7, n_handshake = True, n_write1 = True, n_write2 = True,
     n_stream = subscribed @ newline # notified @ newline # authorized @ newline # [], n_end = EOF\<rparr>"

lemma example_lines:
  "parse (subscribed @ [newline]) = Inr (empty_message\<lparr>msg_id := Some (JNum ''1''), msg_result := Some (JArr [JArr [], JNum ''1'', JNum ''4''])\<rparr>)"
  "parse (notified @ [newline]) = Inr (empty_message\<lparr>msg_method := ''mining.notify'',
     msg_params := Some (JArr (JStr ''j'' # replicate 8 (JNum ''1'')))\<rparr>)"
  "parse (authorized @ [newline]) = Inr (empty_message\<lparr>msg_id := Some (JNum ''2''), msg_result := Some (JBool True)\<rparr>)"
  by code_simp+

lemma example_reads:
  "read_lines check_line_limit fin (subscribed @ newline # r) = Inr (subscribed @ [newline], r)"
  "read_lines check_line_limit fin (notified @ newline # r) = Inr (notified @ [newline], r)"
  "read_lines check_line_limit fin (authorized @ newline # r) = Inr (authorized @ [newline], r)"
  by (rule read_lines_short; simp add: subscribed_def notified_def authorized_def blank_def newline_def)+

theorem check_needs_answers_and_job_witness:
  "(\<exists>x \<in> set (stream_lines EOF (n_stream example_network)). job_on x) \<and>
   cr_err (check_address example_pool True ''a.b'' example_network) = None"
proof -
  let ?r1 = "notified @ newline # authorized @ newline # []" and ?r2 = "authorized @ newline # []"
  have a: "answers 1 (empty_message\<lparr>msg_id := Some (JNum ''1''), msg_result := Some (JArr [JArr [], JNum ''1'', JNum ''4''])\<rparr>)"
    "\<not> answers 2 (empty_message\<lparr>msg_method := ''mining.notify'', msg_params := Some (JArr (JStr ''j'' # replicate 8 (JNum ''1'')))\<rparr>)"
    "answers 2 (empty_message\<lparr>msg_id := Some (JNum ''2''), msg_result := Some (JBool True)\<rparr>)" by code_simp+
  have j: "\<not> is_job (empty_message\<lparr>msg_id := Some (JNum ''1''), msg_result := Some (JArr [JArr [], JNum ''1'', JNum ''4''])\<rparr>)"
    "is_job (empty_message\<lparr>msg_method := ''mining.notify'', msg_params := Some (JArr (JStr ''j'' # replicate 8 (JNum ''1'')))\<rparr>)"
    by code_simp+
  have g: "judge_answer False (empty_message\<lparr>msg_id := Some (JNum ''1''), msg_result := Some (JArr [JArr [], JNum ''1'', JNum ''4''])\<rparr>) = None"
    "judge_answer True (empty_message\<lparr>msg_id := Some (JNum ''2''), msg_result := Some (JBool True)\<rparr>) = None" by code_simp+
  have 1: "call_loop 1 False EOF False (subscribed @ newline # ?r1) = (None, False, ?r1)"
    by (subst call_loop.simps) (simp add: example_reads example_lines Let_def a(1) j(1) g(1) del: One_nat_def)
  have 3: "call_loop 2 True EOF True ?r2 = (None, True, [])"
    by (subst call_loop.simps) (simp add: example_reads example_lines Let_def a(3) g(2))
  have 2: "call_loop 2 True EOF False ?r1 = (None, True, [])"
    by (subst call_loop.simps) (simp add: example_reads example_lines Let_def a(2) j(2) 3)
  have "cr_err (check_address example_pool True ''a.b'' example_network) = None"
    unfolding check_address_def call_observed_def example_network_def network.simps
    using 1 2 by (simp add: dial_def Let_def await_job.simps zero_pool_def)
  from check_needs_answers_and_job [OF this] this show ?thesis by (auto simp: example_network_def)
qed

end
