(* ===== verification/Session.thy ===== *)
theory Session
  imports Stratum Settings Stats
begin

text \<open>
  Package \<open>session\<close>, \<open>session.go\<close>: one miner relayed to one pool.

  \<^item> \<open>session\<close> is the state of a \<open>Session\<close>, the fields under both of its mutexes; the pool data
    captured at pick time is \<open>upstream\<close>.
  \<^item> \<open>from_miner\<close> and \<open>from_pool\<close> handle one line of either side. They return what the code sends
    on, the error that ends the session, and \<open>effects\<close>: the calls to the collector, the event log
    and the pool manager. \<open>miner_step\<close> and \<open>pool_step\<close> are one iteration of the two loops, given
    the line or read error and the time, with the deadline they set for the next read.
  \<^item> A write that fails and the closing of the sockets are inputs; the texts of errors and events
    are left out, and so is \<open>Info\<close>, a copy of the fields.

  The lemmas show that a login is rewritten the same way in every message, that the maps stay
  bounded, that every answered share is counted once, and that only jobs extend the deadline of a
  job.
\<close>

record upstream =
  u_pool_id :: string
  u_pool_name :: string
  u_addr :: string
  u_template :: string
  u_password :: string

datatype upstream_failure = AuthorizationRejected | JobTimeout

definition write_timeout :: duration where "write_timeout = 30 * second"
definition pending_max_age :: duration where "pending_max_age = 60 * second"
definition sweep_interval :: duration where "sweep_interval = 10 * second"
definition max_pending_ids :: nat where "max_pending_ids = 10000"
definition max_pending_auth :: nat where "max_pending_auth = 128"
definition max_tracked_login :: nat where "max_tracked_login = 128"
definition max_login_len :: nat where "max_login_len = 256"
definition max_difficulty :: real where "max_difficulty = 10 ^ 30"

record submit_info =
  si_at :: time
  si_diff :: real
  si_worker :: string

record auth_info =
  ai_at :: time
  ai_user :: string

record session =
  s_id :: nat
  s_ip :: string
  s_transport :: string
  s_connected_at :: time
  s_up :: upstream
  s_close_reason :: "string option"
  s_user_agent :: string
  s_worker :: string
  s_upstream_user :: string
  s_difficulty :: real
  s_accepted :: "64 word"
  s_rejected :: "64 word"
  s_last_share :: time
  s_last_submit :: time
  s_rate :: rate
  s_logins :: "(string, string) gomap"
  s_pending_auth :: "(string, auth_info) gomap"
  s_pending_submit :: "(string, submit_info) gomap"
  s_last_sweep :: time
  s_max_line :: int
  s_last_miner :: time
  s_last_pool :: time
  s_authorized_at :: time
  s_last_job :: time

text \<open>The session \<open>Serve\<close> creates once a pool is connected.\<close>

definition new_session :: "nat \<Rightarrow> string \<Rightarrow> string \<Rightarrow> upstream \<Rightarrow> settings_values \<Rightarrow> time \<Rightarrow> session" where
  "new_session i ip transport up cfg now =
     \<lparr>s_id = i, s_ip = ip, s_transport = transport, s_connected_at = now, s_up = up, s_close_reason = None,
      s_user_agent = [], s_worker = [], s_upstream_user = [], s_difficulty = 0, s_accepted = 0, s_rejected = 0,
      s_last_share = zero_time, s_last_submit = zero_time, s_rate = new_rate now, s_logins = [],
      s_pending_auth = [], s_pending_submit = [], s_last_sweep = zero_time, s_max_line = max_line_bytes cfg,
      s_last_miner = now, s_last_pool = now, s_authorized_at = zero_time, s_last_job = zero_time\<rparr>"

text \<open>\<open>Close\<close> keeps the first reason.\<close>

definition close_session :: "string \<Rightarrow> session \<Rightarrow> session" where
  "close_session reason s = (if s_close_reason s = None then s\<lparr>s_close_reason := Some reason\<rparr> else s)"

datatype session_error =
    LoginTooLong
  | LineOverLimit
  | BadRequest stratum_error
  | PoolReconnect
  | Upstream upstream_failure
  | MinerRead
  | PoolRead
  | WriteFailed

datatype effect =
    CountShare string string bool real string time
  | InvalidJson
  | ThrottledEvent string duration string
  | ReportFailure upstream_failure

subsection \<open>Deadlines\<close>

definition job_base :: "session \<Rightarrow> time" where
  "job_base s =
     (if is_zero (s_authorized_at s) then zero_time
      else if s_authorized_at s < s_last_job s then s_last_job s
      else s_authorized_at s)"

definition pool_deadline :: "settings_values \<Rightarrow> session \<Rightarrow> time" where
  "pool_deadline v s =
     (if \<not> is_zero (job_base s) then job_base s + v_upstream_job_timeout v
      else s_last_pool s + v_upstream_idle_timeout v)"

definition miner_deadline :: "settings_values \<Rightarrow> session \<Rightarrow> time" where
  "miner_deadline v s = s_last_miner s + v_miner_idle_timeout v"

definition job_timed_out :: "settings_values \<Rightarrow> time \<Rightarrow> session \<Rightarrow> bool" where
  "job_timed_out v now s \<longleftrightarrow> \<not> is_zero (job_base s) \<and> job_base s + v_upstream_job_timeout v \<le> now"

definition report_failure :: "upstream_failure \<Rightarrow> session \<Rightarrow> effect list" where
  "report_failure k s = (if s_close_reason s = None then [ReportFailure k] else [])"

definition mark_miner_activity :: "time \<Rightarrow> session \<Rightarrow> session" where
  "mark_miner_activity now s = s\<lparr>s_last_miner := now\<rparr>"

definition mark_pool_activity :: "time \<Rightarrow> session \<Rightarrow> session" where
  "mark_pool_activity now s = s\<lparr>s_last_pool := now\<rparr>"

text \<open>The deadlines set on reads that are already blocked when settings change.\<close>

definition refresh_idle_deadlines :: "settings_values \<Rightarrow> session \<Rightarrow> time \<times> time" where
  "refresh_idle_deadlines v s = (miner_deadline v s, pool_deadline v s)"

subsection \<open>Miner to pool\<close>

definition rewrite_for :: "session \<Rightarrow> string \<Rightarrow> string \<Rightarrow> rewrite" where
  "rewrite_for s login asic_password = rewrite_login login asic_password (u_template (s_up s)) (u_password (s_up s))"

definition sweep :: "time \<Rightarrow> session \<Rightarrow> session" where
  "sweep now s =
     (if time_sub now (s_last_sweep s) < sweep_interval then s
      else s\<lparr>s_last_sweep := now,
             s_pending_submit := filter (\<lambda>(k, v). time_sub now (si_at v) \<le> pending_max_age) (s_pending_submit s),
             s_pending_auth := filter (\<lambda>(k, v). time_sub now (ai_at v) \<le> pending_max_age) (s_pending_auth s)\<rparr>)"

definition lift_stratum :: "stratum_error + string \<Rightarrow> session_error + string" where
  "lift_stratum r = (case r of Inl e \<Rightarrow> Inl (BadRequest e) | Inr x \<Rightarrow> Inr x)"

definition track_login :: "string \<Rightarrow> string \<Rightarrow> session \<Rightarrow> session" where
  "track_login login user s =
     (if has_key (s_logins s) login \<or> length (s_logins s) < max_tracked_login
      then s\<lparr>s_logins := put login user (s_logins s)\<rparr> else s)"

definition track_auth :: "string \<Rightarrow> auth_info \<Rightarrow> session \<Rightarrow> session" where
  "track_auth key a s =
     (if key \<noteq> [] \<and> (has_key (s_pending_auth s) key \<or> length (s_pending_auth s) < max_pending_auth)
      then s\<lparr>s_pending_auth := put key a (s_pending_auth s)\<rparr> else s)"

definition authorize :: "string \<Rightarrow> message \<Rightarrow> time \<Rightarrow> session \<Rightarrow> (session_error + string) \<times> session" where
  "authorize line msg now s =
     (case params_array (msg_params msg) of None \<Rightarrow> (Inr line, s)
      | Some ps \<Rightarrow>
         (case string_at ps 0 of None \<Rightarrow> (Inr line, s)
          | Some login \<Rightarrow>
              if max_login_len < length login then (Inl LoginTooLong, s)
              else
                (let asic_pass = (case string_at ps 1 of Some p \<Rightarrow> p | None \<Rightarrow> []);
                     rw = rewrite_for s login asic_pass;
                     s1 = track_login login (rw_user rw) (sweep now s);
                     s2 = track_auth (id_key msg) \<lparr>ai_at = now, ai_user = rw_user rw\<rparr> s1;
                     s3 = s2\<lparr>s_worker := login, s_upstream_user := rw_user rw\<rparr>;
                     ps' = (if 1 < length ps
                            then ps[0 := encode_string (rw_user rw), 1 := encode_string (rw_password rw)]
                            else ps[0 := encode_string (rw_user rw)] @ [encode_string (rw_password rw)])
                 in (lift_stratum (replace_params line ps'), s3))))"

text \<open>The login of a submit, looked up or rewritten and remembered while there is room.\<close>

definition submit_user :: "string \<Rightarrow> session \<Rightarrow> string \<times> session" where
  "submit_user login s =
     (case map_of (s_logins s) login of Some u \<Rightarrow> (u, s)
      | None \<Rightarrow>
          (let u = rw_user (rewrite_for s login []) in
           (u, if length (s_logins s) < max_tracked_login then s\<lparr>s_logins := put login u (s_logins s)\<rparr> else s)))"

definition track_submit :: "string \<Rightarrow> string option \<Rightarrow> time \<Rightarrow> session \<Rightarrow> session" where
  "track_submit key login now s =
     (if key = [] then s
      else
        (let s = sweep now s in
         if length (s_pending_submit s) < max_pending_ids then
           s\<lparr>s_pending_submit := put key
               \<lparr>si_at = now, si_diff = s_difficulty s, si_worker = (case login of Some l \<Rightarrow> l | None \<Rightarrow> s_worker s)\<rparr>
               (s_pending_submit s)\<rparr>
         else s))"

definition submit :: "string \<Rightarrow> message \<Rightarrow> time \<Rightarrow> session \<Rightarrow> (session_error + string) \<times> session" where
  "submit line msg now s =
     (case params_array (msg_params msg) of None \<Rightarrow> (Inr line, s)
      | Some ps \<Rightarrow>
          (let login = string_at ps 0 in
           if (case login of Some l \<Rightarrow> max_login_len < length l | None \<Rightarrow> False) then (Inl LoginTooLong, s)
           else
             (let s1 = s\<lparr>s_last_submit := now\<rparr>;
                  us = (case login of Some l \<Rightarrow> submit_user l s1 | None \<Rightarrow> ([], s1));
                  s2 = track_submit (id_key msg) login now (snd us)
              in case login of None \<Rightarrow> (Inr line, s2)
                 | Some l \<Rightarrow>
                     if fst us = l then (Inr line, s2)
                     else (lift_stratum (replace_params line (ps[0 := encode_string (fst us)])), s2))))"

definition from_miner :: "string \<Rightarrow> message \<Rightarrow> time \<Rightarrow> session \<Rightarrow> (session_error + string) \<times> session" where
  "from_miner line msg now s =
     (if msg_method msg = ''mining.subscribe'' then
        (Inr line,
         case params_array (msg_params msg) of None \<Rightarrow> s
         | Some ps \<Rightarrow> (case string_at ps 0 of Some ua \<Rightarrow> s\<lparr>s_user_agent := ua\<rparr> | None \<Rightarrow> s))
      else if msg_method msg = ''mining.authorize'' then authorize line msg now s
      else if msg_method msg = ''mining.submit'' then submit line msg now s
      else (Inr line, s))"

definition forward_from_miner :: "string \<Rightarrow> message \<Rightarrow> time \<Rightarrow> session \<Rightarrow> (session_error + string) \<times> session" where
  "forward_from_miner line msg now s =
     (case from_miner line msg now s of
        (Inl e, s') \<Rightarrow> (Inl e, s')
      | (Inr out, s') \<Rightarrow> if s_max_line s < int (length out) then (Inl LineOverLimit, s') else (Inr out, s'))"

subsection \<open>Pool to miner\<close>

record pool_result =
  pr_out :: "string option"
  pr_err :: "session_error option"
  pr_effects :: "effect list"

definition forward :: "string \<Rightarrow> effect list \<Rightarrow> pool_result" where
  "forward line es = \<lparr>pr_out = Some line, pr_err = None, pr_effects = es\<rparr>"

definition pool_request :: "string \<Rightarrow> message \<Rightarrow> time \<Rightarrow> session \<Rightarrow> pool_result \<times> session" where
  "pool_request line msg now s =
     (if msg_method msg = ''mining.set_difficulty'' then
        (forward line [],
         case params_array (msg_params msg) of None \<Rightarrow> s
         | Some ps \<Rightarrow>
             (case number_at ps 0 of None \<Rightarrow> s
              | Some d \<Rightarrow> if 0 < d \<and> d \<le> max_difficulty then s\<lparr>s_difficulty := d\<rparr> else s))
      else if msg_method msg = ''mining.notify'' then
        (forward line [], if is_job msg then s\<lparr>s_last_job := now\<rparr> else s)
      else if msg_method msg = ''client.reconnect'' then
        (\<lparr>pr_out = None, pr_err = Some PoolReconnect,
          pr_effects = [ThrottledEvent (''reconnect:'' @ u_pool_id (s_up s)) minute ''pool_reconnect'']\<rparr>, s)
      else (forward line [], s))"

definition share_answer :: "string \<Rightarrow> message \<Rightarrow> string \<Rightarrow> submit_info \<Rightarrow> time \<Rightarrow> session \<Rightarrow> pool_result \<times> session" where
  "share_answer line msg key sub now s =
     (let ok = result_true (msg_result msg) \<and> is_null (msg_error msg);
          s1 = s\<lparr>s_pending_submit := del key (s_pending_submit s)\<rparr>;
          reason = (if ok then [] else error_reason (msg_error msg));
          s2 = (if ok then s1\<lparr>s_accepted := s_accepted s1 + 1, s_last_share := now,
                              s_rate := rate_add (si_diff sub) now (s_rate s1)\<rparr>
                else s1\<lparr>s_rejected := s_rejected s1 + 1\<rparr>)
      in (forward line [CountShare (u_pool_id (s_up s)) (si_worker sub) ok (si_diff sub) reason now], s2))"

definition auth_answer :: "string \<Rightarrow> message \<Rightarrow> string \<Rightarrow> auth_info \<Rightarrow> time \<Rightarrow> session \<Rightarrow> pool_result \<times> session" where
  "auth_answer line msg key a now s =
     (let s1 = s\<lparr>s_pending_auth := del key (s_pending_auth s)\<rparr> in
      if \<not> result_true (msg_result msg) \<or> \<not> is_null (msg_error msg) then
        (\<lparr>pr_out = Some line, pr_err = Some (Upstream AuthorizationRejected),
          pr_effects = [ThrottledEvent (''auth:'' @ u_pool_id (s_up s) @ '':'' @ ai_user a) minute ''authorization_failed'']\<rparr>,
         s1)
      else (forward line [], if is_zero (s_authorized_at s1) then s1\<lparr>s_authorized_at := now\<rparr> else s1))"

definition from_pool :: "string \<Rightarrow> time \<Rightarrow> session \<Rightarrow> pool_result \<times> session" where
  "from_pool line now s =
     (case parse line of
        Inl _ \<Rightarrow> (forward line [InvalidJson], s)
      | Inr msg \<Rightarrow>
          if msg_method msg \<noteq> [] then pool_request line msg now s
          else
            (let key = id_key msg in
             if key = [] then (forward line [], s)
             else (case map_of (s_pending_submit s) key of
                 Some sub \<Rightarrow> share_answer line msg key sub now s
               | None \<Rightarrow>
                   (case map_of (s_pending_auth s) key of
                      Some a \<Rightarrow> auth_answer line msg key a now s
                    | None \<Rightarrow> (forward line [], s)))))"

subsection \<open>The loops\<close>

text \<open>What a loop iteration does: the lines it writes, the reports, and the error it returns; without
  an error the loop goes on and blocks in a read until the deadline.\<close>

record step_result =
  st_to_pool :: "string option"
  st_to_miner :: "string option"
  st_effects :: "effect list"
  st_stop :: "session_error option"

definition stopped :: "session_error \<Rightarrow> step_result" where
  "stopped e = \<lparr>st_to_pool = None, st_to_miner = None, st_effects = [], st_stop = Some e\<rparr>"

text \<open>One line of the miner; \<^term>\<open>None\<close> is a read error. \<open>write_ok\<close> tells if the pool took the line.\<close>

definition miner_step :: "string option \<Rightarrow> bool \<Rightarrow> time \<Rightarrow> session \<Rightarrow> step_result \<times> session" where
  "miner_step read write_ok now s =
     (case read of None \<Rightarrow> (stopped MinerRead, s)
      | Some line \<Rightarrow>
          (let s1 = mark_miner_activity now s in
           case parse line of Inl e \<Rightarrow> (stopped (BadRequest e), s1)
           | Inr msg \<Rightarrow>
               (case forward_from_miner line msg now s1 of
                  (Inl e, s2) \<Rightarrow> (stopped e, s2)
                | (Inr out, s2) \<Rightarrow>
                    (\<lparr>st_to_pool = Some out, st_to_miner = None, st_effects = [],
                      st_stop = (if write_ok then None else Some WriteFailed)\<rparr>, s2))))"

text \<open>What reading from the pool gave: a line, the read deadline passed, or another error.\<close>

datatype pool_read = PoolLine string | DeadlineExceeded | ReadFailed

definition failure_effects :: "session_error option \<Rightarrow> session \<Rightarrow> effect list" where
  "failure_effects e s = (case e of Some (Upstream k) \<Rightarrow> report_failure k s | _ \<Rightarrow> [])"

text \<open>The job timeout is checked at \<open>t0\<close>, before the read; the read returns at \<open>now\<close>. A deadline that
  passed because no job came goes round the loop again, to the check.\<close>

definition pool_step :: "settings_values \<Rightarrow> time \<Rightarrow> pool_read \<Rightarrow> bool \<Rightarrow> time \<Rightarrow> session \<Rightarrow> step_result \<times> session" where
  "pool_step v t0 read write_ok now s =
     (if job_timed_out v t0 s then
        (\<lparr>st_to_pool = None, st_to_miner = None, st_effects = report_failure JobTimeout s,
          st_stop = Some (Upstream JobTimeout)\<rparr>, s)
      else
        (case read of
           ReadFailed \<Rightarrow> (stopped PoolRead, s)
         | DeadlineExceeded \<Rightarrow>
             if job_timed_out v now s
             then (\<lparr>st_to_pool = None, st_to_miner = None, st_effects = [], st_stop = None\<rparr>, s)
             else (stopped PoolRead, s)
         | PoolLine line \<Rightarrow>
             (case from_pool line now (mark_pool_activity now s) of (r, s2) \<Rightarrow>
                (\<lparr>st_to_pool = None, st_to_miner = pr_out r,
                  st_effects = pr_effects r @ failure_effects (pr_err r) s2,
                  st_stop = (if pr_out r \<noteq> None \<and> \<not> write_ok then Some WriteFailed else pr_err r)\<rparr>, s2))))"

subsection \<open>The invariant of a session\<close>

definition session_inv :: "session \<Rightarrow> bool" where
  "session_inv s \<longleftrightarrow>
     wf_map (s_logins s) \<and> wf_map (s_pending_auth s) \<and> wf_map (s_pending_submit s) \<and>
     length (s_logins s) \<le> max_tracked_login \<and> length (s_pending_auth s) \<le> max_pending_auth \<and>
     length (s_pending_submit s) \<le> max_pending_ids \<and>
     0 \<le> s_difficulty s \<and> s_difficulty s \<le> max_difficulty \<and>
     (\<forall>(l, u) \<in> set (s_logins s). u = rw_user (rewrite_for s l []))"

lemma rw_user_password: "rw_user (rewrite_for s l p) = rw_user (rewrite_for s l [])"
  by (simp add: rewrite_for_def rewrite_login_def)

lemma rewrite_for_up: "s_up s' = s_up s \<Longrightarrow> rewrite_for s' = rewrite_for s"
  by (simp add: rewrite_for_def fun_eq_iff)

lemma session_inv_new: "session_inv (new_session i ip tr up cfg now)"
  by (simp add: session_inv_def new_session_def max_difficulty_def)

lemma session_inv_sweep [inv_intros]: "session_inv s \<Longrightarrow> session_inv (sweep now s)"
  by (auto simp: session_inv_def sweep_def rewrite_for_def intro: le_trans [OF length_filter_le])

lemma put_entries: "\<forall>(k, v) \<in> set m. P k v \<Longrightarrow> P k v \<Longrightarrow> \<forall>(k, v) \<in> set (put k v m). P k v"
  using set_put_subset [of k v m] by auto

lemma session_inv_login [inv_intros]:
  assumes "session_inv s" "has_key (s_logins s) l \<or> length (s_logins s) < max_tracked_login"
  shows "session_inv (s\<lparr>s_logins := put l (rw_user (rewrite_for s l p)) (s_logins s)\<rparr>)"
proof -
  have "\<forall>(k, u) \<in> set (put l (rw_user (rewrite_for s l [])) (s_logins s)). u = rw_user (rewrite_for s k [])"
    using assms(1) by (intro put_entries) (simp_all add: session_inv_def)
  then show ?thesis using assms
    by (auto simp: session_inv_def length_put rewrite_for_def rewrite_login_def)
qed

lemma session_inv_track_login [inv_intros]:
  "session_inv s \<Longrightarrow> session_inv (track_login l (rw_user (rewrite_for s l p)) s)"
  by (simp add: track_login_def session_inv_login)

lemma session_inv_track_auth [inv_intros]: "session_inv s \<Longrightarrow> session_inv (track_auth k a s)"
  by (auto simp: track_auth_def session_inv_def length_put rewrite_for_def)

lemma track_up [simp]:
  "s_up (track_login l u s) = s_up s" "s_up (track_auth k a s) = s_up s" "s_up (sweep now s) = s_up s"
  "s_up (track_submit k lo now s) = s_up s" "s_up (snd (submit_user l s)) = s_up s"
  by (auto simp: track_login_def track_auth_def sweep_def track_submit_def Let_def submit_user_def split: option.split)

lemma session_inv_track_submit [inv_intros]: "session_inv s \<Longrightarrow> session_inv (track_submit k l now s)"
  using session_inv_sweep [of s now]
  by (auto simp: track_submit_def Let_def session_inv_def length_put rewrite_for_def)

lemma submit_user_inv: "session_inv s \<Longrightarrow> session_inv (snd (submit_user l s))"
  by (auto simp: submit_user_def Let_def intro: session_inv_login split: option.split)

lemma submit_user_rewrites: "session_inv s \<Longrightarrow> fst (submit_user l s) = rw_user (rewrite_for s l p)"
  using rw_user_password [of s l p]
  by (auto simp: submit_user_def Let_def session_inv_def split: option.split dest!: map_of_SomeD)

lemma authorize_inv [inv_intros]:
  assumes "session_inv s"
  shows "session_inv (snd (authorize line msg now s))"
proof -
  have "session_inv (track_auth k a (track_login l (rw_user (rewrite_for s l p)) (sweep now s)))" for k a l p
    using session_inv_track_login [OF session_inv_sweep [OF assms, of now], of l p]
    by (simp add: rewrite_for_up [of "sweep now s" s] session_inv_track_auth)
  then have "session_inv ((track_auth k a (track_login l (rw_user (rewrite_for s l p)) (sweep now s)))\<lparr>s_worker := w, s_upstream_user := u\<rparr>)"
    for k a l p w u by (simp add: session_inv_def rewrite_for_def)
  then show ?thesis using assms by (simp add: authorize_def Let_def split: option.split)
qed

lemma submit_inv [inv_intros]:
  assumes "session_inv s"
  shows "session_inv (snd (submit line msg now s))"
proof -
  have "session_inv (s\<lparr>s_last_submit := now\<rparr>)" using assms by (simp add: session_inv_def rewrite_for_def)
  then have "session_inv (track_submit k lo now (s\<lparr>s_last_submit := now\<rparr>))"
    "session_inv (track_submit k lo now (snd (submit_user l (s\<lparr>s_last_submit := now\<rparr>))))" for k lo l
    by (simp_all add: session_inv_track_submit submit_user_inv)
  then show ?thesis using assms by (simp add: submit_def Let_def split: option.split)
qed

lemma from_miner_inv [inv_intros]: "session_inv s \<Longrightarrow> session_inv (snd (from_miner line msg now s))"
  by (auto simp: from_miner_def authorize_inv submit_inv split: option.split)
    (simp add: session_inv_def rewrite_for_def)

lemma forward_inv [inv_intros]: "session_inv s \<Longrightarrow> session_inv (snd (forward_from_miner line msg now s))"
  using from_miner_inv [of s line msg now]
  by (auto simp: forward_from_miner_def split: prod.split sum.split)

lemma from_pool_inv [inv_intros]: "session_inv s \<Longrightarrow> session_inv (snd (from_pool line now s))"
  using length_del_le [of _ "s_pending_submit s"] length_del_le [of _ "s_pending_auth s"]
  by (auto simp: from_pool_def pool_request_def share_answer_def auth_answer_def Let_def session_inv_def rewrite_for_def
      intro: le_trans split: sum.split option.split)

lemma miner_step_inv [inv_intros]: "session_inv s \<Longrightarrow> session_inv (snd (miner_step rd ok now s))"
proof -
  assume "session_inv s"
  then have m: "session_inv (mark_miner_activity now s)"
    by (simp add: mark_miner_activity_def session_inv_def rewrite_for_def)
  show ?thesis
  proof (cases rd)
    case (Some line)
    have "session_inv s2" if "forward_from_miner line msg now (mark_miner_activity now s) = (x, s2)" for msg x s2
      using forward_inv [OF m, of line msg now] that by simp
    with m Some show ?thesis
      by (auto simp: miner_step_def Let_def split: sum.split prod.split)
  qed (simp add: miner_step_def \<open>session_inv s\<close>)
qed

lemma pool_step_inv [inv_intros]: "session_inv s \<Longrightarrow> session_inv (snd (pool_step v t0 rd ok now s))"
proof -
  assume "session_inv s"
  then have m: "session_inv (mark_pool_activity now s)"
    by (simp add: mark_pool_activity_def session_inv_def rewrite_for_def)
  have "session_inv s2" if "from_pool line now (mark_pool_activity now s) = (x, s2)" for line x s2
    using from_pool_inv [OF m, of line now] that by simp
  then show ?thesis using \<open>session_inv s\<close>
    by (auto simp: pool_step_def split: pool_read.split prod.split)
qed

subsection \<open>Runs of a session\<close>

text \<open>What the two loops do to a session, one step at a time in any order, with the effects so far.
  The settings may differ at each step.\<close>

inductive relays :: "session \<Rightarrow> effect list \<Rightarrow> session \<Rightarrow> bool" where
  start: "relays s [] s"
| miner: "relays s es s1 \<Longrightarrow> miner_step rd ok now s1 = (r, s2) \<Longrightarrow> relays s (es @ st_effects r) s2"
| pool: "relays s es s1 \<Longrightarrow> pool_step v t0 rd ok now s1 = (r, s2) \<Longrightarrow> relays s (es @ st_effects r) s2"
| close: "relays s es s1 \<Longrightarrow> relays s es (close_session reason s1)"

inductive_cases relaysE: "relays s es s'"

lemma relays_inv: "relays s es s' \<Longrightarrow> session_inv s \<Longrightarrow> session_inv s'"
proof (induction rule: relays.induct)
  case (miner s es s1 rd ok now r s2)
  then show ?case using miner_step_inv [of s1 rd ok now] by simp
next
  case (pool s es s1 v t0 rd ok now r s2)
  then show ?case using pool_step_inv [of s1 v t0 rd ok now] by simp
next
  case (close s es s1 reason)
  then show ?case by (simp add: close_session_def session_inv_def rewrite_for_def)
qed simp

definition count_shares :: "bool \<Rightarrow> effect list \<Rightarrow> nat" where
  "count_shares ok es = length (filter (\<lambda>e. case e of CountShare _ _ a _ _ _ \<Rightarrow> a = ok | _ \<Rightarrow> False) es)"

lemma count_shares_Nil [simp]: "count_shares ok [] = 0"
  by (simp add: count_shares_def)

lemma count_shares_append [simp]: "count_shares ok (as @ bs) = count_shares ok as + count_shares ok bs"
  by (simp add: count_shares_def)

text \<open>The fields that only answers of the pool change.\<close>

definition tally :: "session \<Rightarrow> 64 word \<times> 64 word \<times> upstream \<times> time \<times> time" where
  "tally s = (s_accepted s, s_rejected s, s_up s, s_authorized_at s, s_last_job s)"

lemma tally_track [simp]:
  "tally (track_login l u s) = tally s" "tally (track_auth k a s) = tally s" "tally (sweep now s) = tally s"
  "tally (track_submit k lo now s) = tally s" "tally (snd (submit_user l s)) = tally s"
  "tally (mark_miner_activity now s) = tally s" "tally (mark_pool_activity now s) = tally s"
  "tally (close_session reason s) = tally s"
  by (auto simp: tally_def track_login_def track_auth_def sweep_def track_submit_def Let_def submit_user_def
      mark_miner_activity_def mark_pool_activity_def close_session_def split: option.split)

lemma tally_update [simp]:
  "tally (s\<lparr>s_worker := w, s_upstream_user := u\<rparr>) = tally s" "tally (s\<lparr>s_last_submit := t\<rparr>) = tally s"
  "tally (s\<lparr>s_user_agent := ua\<rparr>) = tally s"
  by (simp_all add: tally_def)

lemma tally_authorize [simp]: "tally (snd (authorize line msg now s)) = tally s"
  by (simp add: authorize_def Let_def split: option.split)

lemma tally_submit [simp]: "tally (snd (submit line msg now s)) = tally s"
  by (simp add: submit_def Let_def split: option.split)

lemma tally_from_miner [simp]: "tally (snd (from_miner line msg now s)) = tally s"
  by (simp add: from_miner_def split: option.split)

lemma tally_forward: "forward_from_miner line msg now s = (x, s') \<Longrightarrow> tally s' = tally s"
proof -
  have "from_miner line msg now s = (y, t) \<Longrightarrow> tally t = tally s" for y t
    using tally_from_miner [of line msg now s] by simp
  then show "forward_from_miner line msg now s = (x, s') \<Longrightarrow> tally s' = tally s"
    by (auto simp: forward_from_miner_def split: prod.splits sum.splits if_splits)
qed

lemma miner_tally: "miner_step rd ok now s = (r, s') \<Longrightarrow> st_effects r = [] \<and> tally s' = tally s"
  by (auto simp: miner_step_def stopped_def Let_def dest!: tally_forward
      split: option.splits sum.splits prod.splits if_splits)

lemma failure_effects_shares [simp]: "count_shares ok (failure_effects e s) = 0"
  by (auto simp: failure_effects_def report_failure_def count_shares_def split: option.split session_error.split)

lemma from_pool_counts:
  "from_pool line now s = (r, s') \<Longrightarrow>
     s_accepted s' = s_accepted s + of_nat (count_shares True (pr_effects r)) \<and>
     s_rejected s' = s_rejected s + of_nat (count_shares False (pr_effects r)) \<and> s_up s' = s_up s"
  by (auto simp: from_pool_def pool_request_def share_answer_def auth_answer_def forward_def Let_def count_shares_def
      split: sum.splits option.splits if_splits)

lemma pool_counts:
  "pool_step v t0 rd ok now s = (r, s') \<Longrightarrow>
     s_accepted s' = s_accepted s + of_nat (count_shares True (st_effects r)) \<and>
     s_rejected s' = s_rejected s + of_nat (count_shares False (st_effects r)) \<and> s_up s' = s_up s"
  by (auto simp: pool_step_def stopped_def report_failure_def count_shares_def [of _ "[]"] mark_pool_activity_def
      dest!: from_pool_counts split: pool_read.splits prod.splits if_splits)
    (simp_all add: count_shares_def)

lemma relays_counts:
  "relays s es s' \<Longrightarrow>
     s_accepted s' = s_accepted s + of_nat (count_shares True es) \<and>
     s_rejected s' = s_rejected s + of_nat (count_shares False es) \<and> s_up s' = s_up s"
proof (induction rule: relays.induct)
  case (start s)
  then show ?case by simp
next
  case (miner s es s1 rd ok now r s2)
  then show ?case using miner_tally [OF miner(2)] by (simp add: tally_def)
next
  case (pool s es s1 v t0 rd ok now r s2)
  then show ?case using pool_counts [OF pool(2)] by simp
next
  case (close s es s1 reason)
  then show ?case by (simp add: close_session_def)
qed

subsection \<open>Jobs and deadlines\<close>

text \<open>A line of the pool that is a job.\<close>

definition job_line :: "string \<Rightarrow> bool" where
  "job_line line \<longleftrightarrow> (case parse line of Inr msg \<Rightarrow> is_job msg | Inl _ \<Rightarrow> False)"

lemma from_pool_times:
  "from_pool line now s = (r, s') \<Longrightarrow>
     (\<not> job_line line \<longrightarrow> s_last_job s' = s_last_job s) \<and>
     (\<not> is_zero (s_authorized_at s) \<longrightarrow> s_authorized_at s' = s_authorized_at s)"
  by (auto simp: from_pool_def pool_request_def share_answer_def auth_answer_def forward_def Let_def job_line_def
      is_job_def split: sum.splits option.splits if_splits)

lemma pool_step_base:
  assumes "pool_step v t0 rd ok now s = (r, s')" "\<not> is_zero (s_authorized_at s)"
    and "\<forall>line. rd = PoolLine line \<longrightarrow> \<not> job_line line"
  shows "job_base s' = job_base s \<and> \<not> is_zero (s_authorized_at s')"
  using assms
  by (auto simp: pool_step_def job_base_def mark_pool_activity_def dest!: from_pool_times
      split: pool_read.splits prod.splits if_splits)

text \<open>A session after steps in which the pool sent no job.\<close>

inductive quiet :: "session \<Rightarrow> session \<Rightarrow> bool" where
  start: "quiet s s"
| miner: "quiet s s1 \<Longrightarrow> miner_step rd ok now s1 = (r, s2) \<Longrightarrow> quiet s s2"
| pool: "quiet s s1 \<Longrightarrow> pool_step v t0 rd ok now s1 = (r, s2) \<Longrightarrow> \<forall>line. rd = PoolLine line \<longrightarrow> \<not> job_line line \<Longrightarrow> quiet s s2"

lemma tally_job_base: "tally s2 = tally s1 \<Longrightarrow> job_base s2 = job_base s1 \<and> s_authorized_at s2 = s_authorized_at s1"
  by (simp add: tally_def job_base_def)

lemma quiet_base:
  "quiet s s' \<Longrightarrow> \<not> is_zero (s_authorized_at s) \<Longrightarrow> job_base s' = job_base s \<and> \<not> is_zero (s_authorized_at s')"
proof (induction rule: quiet.induct)
  case (miner s s1 rd ok now r s2)
  then show ?case using miner_tally [OF miner(2)] tally_job_base [of s2 s1] by simp
next
  case (pool s s1 v t0 rd ok now r s2)
  then show ?case using pool_step_base [OF pool(2) _ pool(3)] by simp
qed simp

subsection \<open>Rewritten requests\<close>

text \<open>A line that is the object of another one with new parameters.\<close>

definition rewritten_as :: "(string \<times> json) list \<Rightarrow> json list \<Rightarrow> string \<Rightarrow> bool" where
  "rewritten_as ms ps out \<longleftrightarrow>
     (\<exists>ns. parse_json (trim_space out) = Some (JObj ns) \<and>
        map_of (members_map ns) ''params'' = Some (JArr (map (compact \<circ> compact) ps)) \<and>
        (\<forall>k. k \<noteq> ''params'' \<longrightarrow> map_of (members_map ns) k = map_option compact (map_of (members_map ms) k)))"

lemma set_fields_params:
  "set_fields ms m = Some m' \<Longrightarrow> list_all (\<lambda>(k, v). raw_ok k \<and> wf_json v) ms \<Longrightarrow>
     (\<forall>j. msg_params m = Some j \<longrightarrow> wf_json j) \<Longrightarrow> msg_params m' = Some j \<Longrightarrow> wf_json j"
proof (induction ms arbitrary: m)
  case (Cons kv ms)
  obtain k v where kv: "kv = (k, v)" by fastforce
  then obtain m1 where m1: "set_field kv m = Some m1" "set_fields ms m1 = Some m'"
    using Cons.prems(1) by (auto split: option.splits)
  have "wf_json v" using Cons.prems(2) kv by simp
  then have "\<forall>j. msg_params m1 = Some j \<longrightarrow> wf_json j"
    using m1(1) Cons.prems(3) kv by (auto simp: set_field_def Let_def split: if_splits json.splits)
  with Cons m1 show ?case by simp
qed simp

lemma parse_object:
  assumes "parse line = Inr msg"
  obtains ms where "parse_json (trim_space line) = Some (JObj ms)"
    "\<And>ps. params_array (msg_params msg) = Some ps \<Longrightarrow> list_all wf_json ps"
proof -
  obtain ms where ms: "parse_json (trim_space line) = Some (JObj ms)" "set_fields ms empty_message = Some msg"
    using assms by (auto simp: parse_def Let_def split: if_splits option.splits json.splits)
  have "wf_json j" if "msg_params msg = Some j" for j
    using set_fields_params [OF ms(2) _ _ that] parse_json_wf [OF ms(1)] by (simp add: empty_message_def)
  then have "list_all wf_json ps" if "params_array (msg_params msg) = Some ps" for ps
    using that by (auto simp: params_array_def split: option.splits json.splits)
  with ms that show ?thesis by blast
qed

lemma wf_encode_string [simp]: "wf_json (encode_string s)"
  by (simp add: encode_string_def raw_ok_quote)

lemma replaced_line:
  assumes "parse_json (trim_space line) = Some (JObj ms)" "list_all wf_json ps"
  obtains out where "lift_stratum (replace_params line ps) = Inr out" "rewritten_as ms ps out"
proof -
  obtain out ns where o: "replace_params line ps = Inr out" "parse_json (trim_space out) = Some (JObj ns)"
    "\<And>k. map_of (members_map ns) k =
       (if k = ''params'' then Some (compact (compact (JArr ps))) else map_option compact (map_of (members_map ms) k))"
    using assms by (rule replace_params_object) blast
  then have "rewritten_as ms ps out" unfolding rewritten_as_def by (intro exI [of _ ns]) simp
  moreover have "lift_stratum (replace_params line ps) = Inr out" using o(1) by (simp add: lift_stratum_def)
  ultimately show ?thesis by (rule that [rotated])
qed

lemma wf_list_update: "list_all wf_json ps \<Longrightarrow> wf_json j \<Longrightarrow> list_all wf_json (ps[i := j])"
  using set_update_subset_insert [of ps i j] by (auto simp: list_all_iff)

abbreviation submit_line :: string where
  "submit_line \<equiv> CHR ''{'' # dq # ''id'' @ dq # '':4,'' @ dq # ''method'' @ dq # '':'' @ dq # ''mining.submit'' @ dq #
     '','' @ dq # ''params'' @ dq # '':['' @ dq # ''f.a'' @ dq # '','' @ dq # ''j1'' @ dq # '']}''"

abbreviation submit_msg :: message where
  "submit_msg \<equiv> empty_message\<lparr>msg_id := Some (JNum ''4''), msg_method := ''mining.submit'',
     msg_params := Some (JArr [JStr ''f.a'', JStr ''j1''])\<rparr>"

lemma submit_line_parses: "parse submit_line = Inr submit_msg"
  by code_simp

subsection \<open>Properties\<close>

text \<open>C3: whatever the session went through, a share is sent to the pool with its login replaced by
  the pool account of that login: the same rewriting as in \<open>mining.authorize\<close>, independent of the
  miner's password. Only the first parameter changes; the other parameters and members keep their
  values, and a login that is already the account is sent byte for byte.\<close>

theorem submit_rewrites_only_login:
  assumes "relays (new_session i ip tr up cfg t) es s" "parse line = Inr msg" "msg_method msg = ''mining.submit''"
    and "params_array (msg_params msg) = Some ps" "string_at ps 0 = Some login" "length login \<le> max_login_len"
  shows "\<exists>out ms. fst (from_miner line msg now s) = Inr out \<and> parse_json (trim_space line) = Some (JObj ms) \<and>
    (let user = rw_user (rewrite_login login [] (u_template up) (u_password up))
     in if user = login then out = line else rewritten_as ms (ps[0 := encode_string user]) out)"
proof -
  have inv: "session_inv s" using relays_inv [OF assms(1)] by (simp add: session_inv_new)
  have up: "s_up s = up" using relays_counts [OF assms(1)] by (simp add: new_session_def)
  define user where "user = rw_user (rewrite_login login [] (u_template up) (u_password up))"
  have u: "fst (submit_user login (s\<lparr>s_last_submit := now\<rparr>)) = user"
    using submit_user_rewrites [of "s\<lparr>s_last_submit := now\<rparr>" login "[]"] inv up
    by (simp add: session_inv_def rewrite_for_def user_def)
  obtain ms where ms: "parse_json (trim_space line) = Some (JObj ms)" "list_all wf_json ps"
    using parse_object [OF assms(2)] assms(4) by blast
  have "list_all wf_json (ps[0 := encode_string user])" using ms(2) by (rule wf_list_update) simp
  from replaced_line [OF ms(1) this] obtain out where
    out: "lift_stratum (replace_params line (ps[0 := encode_string user])) = Inr out"
      "rewritten_as ms (ps[0 := encode_string user]) out" .
  have "fst (from_miner line msg now s) =
      (if user = login then Inr line else lift_stratum (replace_params line (ps[0 := encode_string user])))"
    using assms(3-6) u by (simp add: from_miner_def submit_def Let_def)
  then show ?thesis using out ms(1) unfolding user_def [symmetric] Let_def
    by (cases "user = login") auto
qed

abbreviation example_upstream :: upstream where
  "example_upstream \<equiv> \<lparr>u_pool_id = ''btc'', u_pool_name = ''BTC'', u_addr = ''p.io:1'',
     u_template = ''acc.{worker}'', u_password = ''x''\<rparr>"

theorem submit_rewrites_only_login_witness:
  "\<exists>out ms. fst (from_miner submit_line submit_msg 5 (new_session 1 [] ''tcp'' example_upstream defaults 0)) = Inr out \<and>
    parse_json (trim_space submit_line) = Some (JObj ms) \<and>
    rewritten_as ms ([JStr ''f.a'', JStr ''j1''][0 := encode_string ''acc.a'']) out"
proof -
  have r: "rw_user (rewrite_login ''f.a'' [] ''acc.{worker}'' ''x'') = ''acc.a''" by code_simp
  have s: "string_at [JStr ''f.a'', JStr ''j1''] 0 = Some ''f.a''" by code_simp
  show ?thesis
    using submit_rewrites_only_login [OF relays.start submit_line_parses, of "[JStr ''f.a'', JStr ''j1'']" "''f.a''"
        5 1 "[]" "''tcp''" example_upstream defaults 0] s
    by (simp add: params_array_def max_login_len_def r)
qed

text \<open>An authorization is sent to the pool with the account and the password of the pool in
  the first two parameters, whatever login and password the miner sent; further parameters and
  members are kept, and the session remembers the login and the account.\<close>

theorem authorize_sends_pool_account:
  assumes "parse line = Inr msg" "msg_method msg = ''mining.authorize''"
    and "params_array (msg_params msg) = Some ps" "string_at ps 0 = Some login" "length login \<le> max_login_len"
  shows "\<exists>out ms. fst (from_miner line msg now s) = Inr out \<and> parse_json (trim_space line) = Some (JObj ms) \<and>
    (let rw = rewrite_login login (case string_at ps 1 of Some p \<Rightarrow> p | None \<Rightarrow> []) (u_template (s_up s)) (u_password (s_up s))
     in rewritten_as ms (encode_string (rw_user rw) # encode_string (rw_password rw) # drop 2 ps) out \<and>
        s_worker (snd (from_miner line msg now s)) = login \<and>
        s_upstream_user (snd (from_miner line msg now s)) = rw_user rw)"
proof -
  define rw where "rw = rewrite_login login (case string_at ps 1 of Some p \<Rightarrow> p | None \<Rightarrow> [])
    (u_template (s_up s)) (u_password (s_up s))"
  obtain ms where ms: "parse_json (trim_space line) = Some (JObj ms)" "list_all wf_json ps"
    using parse_object [OF assms(1)] assms(3) by blast
  define qs where "qs = encode_string (rw_user rw) # encode_string (rw_password rw) # drop 2 ps"
  have "list_all wf_json qs" using ms(2) by (auto simp: qs_def list_all_iff dest: in_set_dropD)
  from replaced_line [OF ms(1) this] obtain out where
    out: "lift_stratum (replace_params line qs) = Inr out" "rewritten_as ms qs out" .
  have "ps \<noteq> []" using assms(4) by (auto simp: string_at_def)
  then have qs: "(if 1 < length ps then ps[0 := encode_string (rw_user rw), 1 := encode_string (rw_password rw)]
      else ps[0 := encode_string (rw_user rw)] @ [encode_string (rw_password rw)]) = qs"
    by (cases ps; cases "tl ps") (auto simp: qs_def)
  have rw: "rewrite_for s login (case string_at ps 1 of Some p \<Rightarrow> p | None \<Rightarrow> []) = rw"
    by (simp add: rewrite_for_def rw_def)
  have "fst (from_miner line msg now s) = lift_stratum (replace_params line qs)"
    "s_worker (snd (from_miner line msg now s)) = login" "s_upstream_user (snd (from_miner line msg now s)) = rw_user rw"
    unfolding from_miner_def authorize_def Let_def assms(2,3) using assms(4,5)
    by (simp_all only: rw qs option.case) simp_all
  then show ?thesis using out ms(1) unfolding rw_def [symmetric] qs_def [symmetric] Let_def by auto
qed

abbreviation auth_line :: string where
  "auth_line \<equiv> CHR ''{'' # dq # ''id'' @ dq # '':1,'' @ dq # ''method'' @ dq # '':'' @ dq # ''mining.authorize'' @ dq #
     '','' @ dq # ''params'' @ dq # '':['' @ dq # ''f.a'' @ dq # '','' @ dq # ''secret'' @ dq # '']}''"

abbreviation auth_msg :: message where
  "auth_msg \<equiv> empty_message\<lparr>msg_id := Some (JNum ''1''), msg_method := ''mining.authorize'',
     msg_params := Some (JArr [JStr ''f.a'', JStr ''secret''])\<rparr>"

theorem authorize_sends_pool_account_witness:
  "\<exists>out ms. fst (from_miner auth_line auth_msg 5 (new_session 1 [] ''tcp'' example_upstream defaults 0)) = Inr out \<and>
    parse_json (trim_space auth_line) = Some (JObj ms) \<and>
    rewritten_as ms [encode_string ''acc.a'', encode_string ''x''] out"
proof -
  have p: "parse auth_line = Inr auth_msg" by code_simp
  have r: "rewrite_login ''f.a'' ''secret'' ''acc.{worker}'' ''x'' = \<lparr>rw_user = ''acc.a'', rw_password = ''x''\<rparr>" by code_simp
  have s: "string_at [JStr ''f.a'', JStr ''secret''] 0 = Some ''f.a''"
    "string_at [JStr ''f.a'', JStr ''secret''] 1 = Some ''secret''" by code_simp+
  have u: "s_up (new_session 1 [] ''tcp'' example_upstream defaults 0) = example_upstream" by (simp add: new_session_def)
  show ?thesis
    using authorize_sends_pool_account [OF p, of "[JStr ''f.a'', JStr ''secret'']" "''f.a''" 5
        "new_session 1 [] ''tcp'' example_upstream defaults 0"] s
    by (auto simp: params_array_def max_login_len_def r u Let_def simp del: One_nat_def)
qed



text \<open>C35: the session's counters are exactly the share answers it passed to the collector, accepted
  and rejected, over any run; a single line counts at most one share, and only one whose submit
  was pending and is then removed, so no answer is counted twice.\<close>

theorem shares_counted_once:
  assumes "relays (new_session i ip tr up cfg t) es s"
  shows "s_accepted s = of_nat (count_shares True es) \<and> s_rejected s = of_nat (count_shares False es) \<and>
    (case from_pool line now s of (r, s') \<Rightarrow>
       count_shares True (pr_effects r) + count_shares False (pr_effects r) \<le> 1 \<and>
       (count_shares True (pr_effects r) + count_shares False (pr_effects r) = 1 \<longrightarrow>
         (\<exists>msg. parse line = Inr msg \<and> msg_method msg = [] \<and> has_key (s_pending_submit s) (id_key msg) \<and>
            \<not> has_key (s_pending_submit s') (id_key msg))))"
proof -
  have "s_accepted s = of_nat (count_shares True es)" "s_rejected s = of_nat (count_shares False es)"
    using relays_counts [OF assms] by (simp_all add: new_session_def)
  moreover have "case from_pool line now s of (r, s') \<Rightarrow>
       count_shares True (pr_effects r) + count_shares False (pr_effects r) \<le> 1 \<and>
       (count_shares True (pr_effects r) + count_shares False (pr_effects r) = 1 \<longrightarrow>
         (\<exists>msg. parse line = Inr msg \<and> msg_method msg = [] \<and> has_key (s_pending_submit s) (id_key msg) \<and>
            \<not> has_key (s_pending_submit s') (id_key msg)))"
    by (auto simp: from_pool_def pool_request_def share_answer_def auth_answer_def forward_def Let_def count_shares_def
      has_key_def split: sum.splits option.splits)
  ultimately show ?thesis by blast
qed

theorem shares_counted_once_witness:
  "s_accepted (snd (miner_step (Some submit_line) True 5 (new_session 1 [] ''tcp'' example_upstream defaults 0))) = 0"
proof -
  have "st_effects (fst (miner_step (Some submit_line) True 5 (new_session 1 [] ''tcp'' example_upstream defaults 0))) = []"
    using miner_tally [OF surjective_pairing] by blast
  then show ?thesis
    using shares_counted_once [OF relays.miner [OF relays.start surjective_pairing]] by simp
qed

text \<open>Lines of the pool reach the miner byte for byte, except \<open>client.reconnect\<close>, which is never
  forwarded and ends the session; and no line over the limit goes to the pool.\<close>

theorem pool_lines_forwarded:
  "(case parse line of
      Inr msg \<Rightarrow>
        (if msg_method msg = ''client.reconnect''
         then pr_out (fst (from_pool line now s)) = None \<and> pr_err (fst (from_pool line now s)) = Some PoolReconnect
         else pr_out (fst (from_pool line now s)) = Some line)
    | Inl _ \<Rightarrow> pr_out (fst (from_pool line now s)) = Some line) \<and>
   (case fst (forward_from_miner l m now s) of Inr out \<Rightarrow> int (length out) \<le> s_max_line s | Inl _ \<Rightarrow> True)"
proof
  show "case parse line of
      Inr msg \<Rightarrow>
        (if msg_method msg = ''client.reconnect''
         then pr_out (fst (from_pool line now s)) = None \<and> pr_err (fst (from_pool line now s)) = Some PoolReconnect
         else pr_out (fst (from_pool line now s)) = Some line)
    | Inl _ \<Rightarrow> pr_out (fst (from_pool line now s)) = Some line"
    by (auto simp: from_pool_def pool_request_def share_answer_def auth_answer_def forward_def Let_def
        split: sum.splits option.splits)
  show "case fst (forward_from_miner l m now s) of Inr out \<Rightarrow> int (length out) \<le> s_max_line s | Inl _ \<Rightarrow> True"
    by (auto simp: forward_from_miner_def split: prod.splits sum.splits if_splits)
qed

text \<open>After an authorization only a job postpones the end of the connection. Whatever else the
  miner and the pool send meanwhile, the loop stops once the job timeout has passed since the later of
  the authorization and the last job, and reports it to the pool manager unless the session was closed
  before; and it never stops for that reason earlier.\<close>

theorem silent_pool_is_left:
  assumes "quiet s s'" "\<not> is_zero (job_base s)"
  shows "(case pool_step v t0 rd ok now s' of (r, _) \<Rightarrow>
      if job_base s + v_upstream_job_timeout v \<le> t0
      then st_stop r = Some (Upstream JobTimeout) \<and>
        st_effects r = (if s_close_reason s' = None then [ReportFailure JobTimeout] else [])
      else st_stop r \<noteq> Some (Upstream JobTimeout))"
proof -
  have "\<not> is_zero (s_authorized_at s)" using assms(2) by (auto simp: job_base_def is_zero_def)
  then have b: "job_base s' = job_base s" using quiet_base [OF assms(1)] by simp
  then have nz: "\<not> is_zero (job_base s')" using assms(2) by simp
  have e: "pr_err (fst (from_pool line now s1)) \<noteq> Some (Upstream JobTimeout)" for line s1
    by (auto simp: from_pool_def pool_request_def share_answer_def auth_answer_def forward_def Let_def
        split: sum.split option.split)
  show ?thesis
    using nz b e by (auto simp: pool_step_def job_timed_out_def report_failure_def stopped_def Let_def
        split: pool_read.split prod.split) (metis fst_conv)+
qed

theorem silent_pool_is_left_witness:
  "st_stop (fst (pool_step defaults (100 * minute) (PoolLine ''x'') True (100 * minute)
     ((new_session 1 [] ''tcp'' example_upstream defaults 0)\<lparr>s_authorized_at := second\<rparr>))) = Some (Upstream JobTimeout)"
proof -
  have t: "v_upstream_job_timeout defaults = minute" by code_simp
  show ?thesis
    using silent_pool_is_left [OF quiet.start, of "(new_session 1 [] ''tcp'' example_upstream defaults 0)\<lparr>s_authorized_at := second\<rparr>"
        defaults "100 * minute" "PoolLine ''x''" True "100 * minute"]
    by (simp add: t job_base_def new_session_def is_zero_def zero_time_def split: prod.splits)
qed

end
