(* ===== verification/Registry.thy ===== *)
theory Registry
  imports Session
begin

text \<open>
  Package \<open>session\<close>, \<open>registry.go\<close> and \<open>Server.Serve\<close>: the live sessions and the drains that close
  them gradually.

  \<^item> \<open>registry\<close> is the state of a \<open>Registry\<close>: the live sessions by id, the generation and flag of
    the current drain, and one \<open>drainer\<close> per drain goroutine that has not returned, by generation.
  \<^item> \<open>start_drain\<close> is the body of \<open>Drain\<close>; \<open>drain_iterate\<close> is one iteration of its goroutine, the
    section under \<open>drainMu\<close>; \<open>drain_finish\<close> is the section at its end. The order in which goroutines
    and callers take the mutex is the order of the steps of \<open>reg_step\<close>; the random order of the
    targets is an argument.
  \<^item> \<open>serve\<close> is \<open>Serve\<close> up to the relay of the session; what the handshake, the first read and the
    router gave are arguments.

  The lemmas show that \<open>Draining\<close> is true exactly while the goroutine of the newest drain runs, that
  an older drain never closes a session after a newer one began, and that a drain left alone closes
  all its targets within its window.
\<close>

subsection \<open>The live sessions\<close>

record drainer =
  dr_targets :: "nat list"
  dr_todo :: "nat list"
  dr_closed :: nat
  dr_reason :: string
  dr_cancelled :: bool

record registry =
  rg_sessions :: "(nat, session) gomap"
  rg_gen :: nat
  rg_draining :: bool
  rg_drains :: "(nat, drainer) gomap"

definition new_registry :: registry where
  "new_registry = \<lparr>rg_sessions = [], rg_gen = 0, rg_draining = False, rg_drains = []\<rparr>"

definition reg_add :: "session \<Rightarrow> registry \<Rightarrow> registry" where
  "reg_add s r = r\<lparr>rg_sessions := put (s_id s) s (rg_sessions r)\<rparr>"

definition reg_remove :: "nat \<Rightarrow> registry \<Rightarrow> registry" where
  "reg_remove i r = r\<lparr>rg_sessions := del i (rg_sessions r)\<rparr>"

definition list_sessions :: "registry \<Rightarrow> session list" where
  "list_sessions r = sort_key s_id (map snd (rg_sessions r))"

definition count_into :: "'k \<Rightarrow> ('k, nat) gomap \<Rightarrow> ('k, nat) gomap" where
  "count_into k m = put k (get_or 0 m k + 1) m"

definition workers :: "registry \<Rightarrow> (string, nat) gomap" where
  "workers r = fold (\<lambda>s m. if s_worker s \<noteq> [] then count_into (s_worker s) m else m) (list_sessions r) []"

definition refresh_deadlines :: "settings_values \<Rightarrow> registry \<Rightarrow> (nat \<times> time \<times> time) list" where
  "refresh_deadlines v r = map (\<lambda>s. (s_id s, refresh_idle_deadlines v s)) (list_sessions r)"

record counts =
  ct_total :: nat
  ct_tcp :: nat
  ct_tls :: nat
  ct_by_pool :: "(string, nat) gomap"

definition count_session :: "session \<Rightarrow> counts \<Rightarrow> counts" where
  "count_session s c =
     (let c = c\<lparr>ct_total := ct_total c + 1\<rparr>;
          c = (if s_transport s = ''tls'' then c\<lparr>ct_tls := ct_tls c + 1\<rparr> else c\<lparr>ct_tcp := ct_tcp c + 1\<rparr>)
      in c\<lparr>ct_by_pool := count_into (u_pool_id (s_up s)) (ct_by_pool c)\<rparr>)"

definition session_counts :: "registry \<Rightarrow> counts" where
  "session_counts r = fold (\<lambda>(_, s). count_session s) (rg_sessions r) \<lparr>ct_total = 0, ct_tcp = 0, ct_tls = 0, ct_by_pool = []\<rparr>"

definition count_where :: "(session \<Rightarrow> bool) \<Rightarrow> registry \<Rightarrow> nat" where
  "count_where p r = fold (\<lambda>(_, s) n. if p s then n + 1 else n) (rg_sessions r) 0"

subsection \<open>Draining\<close>

definition close_id :: "string \<Rightarrow> nat \<Rightarrow> registry \<Rightarrow> registry" where
  "close_id reason i r =
     (case map_of (rg_sessions r) i of None \<Rightarrow> r
      | Some s \<Rightarrow> r\<lparr>rg_sessions := put i (close_session reason s) (rg_sessions r)\<rparr>)"

definition cancel_drain :: "nat \<Rightarrow> registry \<Rightarrow> registry" where
  "cancel_drain g r =
     (case map_of (rg_drains r) g of None \<Rightarrow> r
      | Some d \<Rightarrow> r\<lparr>rg_drains := put g (d\<lparr>dr_cancelled := True\<rparr>) (rg_drains r)\<rparr>)"

definition drain_targets :: "(session \<Rightarrow> bool) \<Rightarrow> registry \<Rightarrow> nat list" where
  "drain_targets p r = map fst (filter (\<lambda>(_, s). p s) (rg_sessions r))"

definition start_drain ::
  "(nat list \<Rightarrow> nat list) \<Rightarrow> (session \<Rightarrow> bool) \<Rightarrow> string \<Rightarrow> registry \<Rightarrow> nat \<times> registry" where
  "start_drain shuffle p reason r =
     (let targets = shuffle (drain_targets p r);
          r1 = cancel_drain (rg_gen r) r;
          r2 = r1\<lparr>rg_gen := rg_gen r1 + 1, rg_draining := targets \<noteq> []\<rparr>
      in (length targets,
          if targets = [] then r2
          else r2\<lparr>rg_drains := put (rg_gen r2)
                 \<lparr>dr_targets = targets, dr_todo = targets, dr_closed = 0, dr_reason = reason, dr_cancelled = False\<rparr>
                 (rg_drains r2)\<rparr>))"

text \<open>The time between two closings.\<close>

definition drain_gap :: "duration \<Rightarrow> nat \<Rightarrow> duration" where
  "drain_gap window n = (if 1 < n then go_div window (int n - 1) else 0)"

text \<open>One iteration: the next target is closed unless the drain was replaced or cancelled.\<close>

definition drain_iterate :: "nat \<Rightarrow> registry \<Rightarrow> registry" where
  "drain_iterate g r =
     (case map_of (rg_drains r) g of None \<Rightarrow> r
      | Some d \<Rightarrow>
          (case dr_todo d of [] \<Rightarrow> r
           | i # rest \<Rightarrow>
               if dr_cancelled d \<or> rg_gen r \<noteq> g
               then r\<lparr>rg_drains := put g (d\<lparr>dr_todo := []\<rparr>) (rg_drains r)\<rparr>
               else (close_id (''drain: '' @ dr_reason d) i r)
                      \<lparr>rg_drains := put g (d\<lparr>dr_todo := rest, dr_closed := dr_closed d + 1\<rparr>) (rg_drains r)\<rparr>))"

datatype drain_event = DrainFinished nat string | DrainCancelled nat nat string

definition drain_finish :: "nat \<Rightarrow> registry \<Rightarrow> drain_event option \<times> registry" where
  "drain_finish g r =
     (case map_of (rg_drains r) g of None \<Rightarrow> (None, r)
      | Some d \<Rightarrow>
          if dr_todo d \<noteq> [] then (None, r)
          else
            (let r' = r\<lparr>rg_drains := del g (rg_drains r)\<rparr> in
             if rg_gen r = g then (Some (DrainFinished (dr_closed d) (dr_reason d)), r'\<lparr>rg_draining := False\<rparr>)
             else (Some (DrainCancelled (dr_closed d) (length (dr_targets d)) (dr_reason d)), r')))"

definition close_all :: "string \<Rightarrow> registry \<Rightarrow> registry" where
  "close_all reason r = fold (\<lambda>s. close_id reason (s_id s)) (list_sessions r) (cancel_drain (rg_gen r) r)"

text \<open>What other code does to a live session: any change but to its id.\<close>

definition update_session :: "nat \<Rightarrow> (session \<Rightarrow> session) \<Rightarrow> registry \<Rightarrow> registry" where
  "update_session i f r =
     (case map_of (rg_sessions r) i of None \<Rightarrow> r
      | Some s \<Rightarrow> r\<lparr>rg_sessions := put i ((f s)\<lparr>s_id := i\<rparr>) (rg_sessions r)\<rparr>)"

text \<open>The steps of the goroutines of the drains, and all steps on the registry.\<close>

inductive drain_step :: "registry \<Rightarrow> registry \<Rightarrow> bool" where
  iterate: "drain_step r (drain_iterate g r)"
| finish: "drain_step r (snd (drain_finish g r))"

inductive reg_step :: "registry \<Rightarrow> registry \<Rightarrow> bool" where
  add: "reg_step r (reg_add s r)"
| remove: "reg_step r (reg_remove i r)"
| update: "reg_step r (update_session i f r)"
| start: "reg_step r (snd (start_drain shuffle p reason r))"
| drain: "drain_step r r' \<Longrightarrow> reg_step r r'"
| shutdown: "reg_step r (close_all reason r)"

inductive reachable_registry :: "registry \<Rightarrow> bool" where
  init: "reachable_registry new_registry"
| step: "reachable_registry r \<Longrightarrow> reg_step r r' \<Longrightarrow> reachable_registry r'"

inductive_cases drain_stepE: "drain_step r r'"
inductive_cases reg_stepE: "reg_step r r'"

subsection \<open>Serving a connection\<close>

record server =
  sv_next_id :: nat
  sv_registry :: registry

datatype serve_result =
    HandshakeFailed
  | NoFirstMessage
  | NotARequest
  | NoPool
  | ShutDown
  | Relaying nat string message

datatype serve_effect = TlsHandshakeCount | ServeEvent string duration string

definition serve ::
  "string \<Rightarrow> bool \<Rightarrow> bool \<Rightarrow> string option \<Rightarrow> upstream option \<Rightarrow> bool \<Rightarrow> settings_values \<Rightarrow> time \<Rightarrow> server
     \<Rightarrow> serve_result \<times> serve_effect list \<times> server" where
  "serve ip is_tls handshake_ok first_line picked down cfg now srv =
     (if is_tls \<and> \<not> handshake_ok then
        (HandshakeFailed, [TlsHandshakeCount, ServeEvent (''tls_handshake:'' @ ip) (10 * minute) ''tls_handshake_failed''], srv)
      else
        (case first_line of None \<Rightarrow> (NoFirstMessage, [], srv)
         | Some line \<Rightarrow>
             (case parse line of Inl _ \<Rightarrow> (NotARequest, [], srv)
              | Inr msg \<Rightarrow>
                  if msg_method msg = [] then (NotARequest, [], srv)
                  else
                    (case picked of None \<Rightarrow> (NoPool, [ServeEvent ''no_pool'' (30 * second) ''no_pool''], srv)
                     | Some up \<Rightarrow>
                         (let i = sv_next_id srv + 1;
                              s = new_session i ip (if is_tls then ''tls'' else ''tcp'') up cfg now;
                              reg = reg_add s (sv_registry srv)
                          in if down
                             then (ShutDown, [], \<lparr>sv_next_id = i, sv_registry = reg_remove i reg\<rparr>)
                             else (Relaying i line msg, [], \<lparr>sv_next_id = i, sv_registry = reg\<rparr>))))))"

text \<open>The beginning of \<open>relay\<close>: the first message goes to the pool like any other.\<close>

definition relay_first :: "string \<Rightarrow> message \<Rightarrow> bool \<Rightarrow> time \<Rightarrow> session \<Rightarrow> step_result \<times> session" where
  "relay_first line msg write_ok now s =
     (case forward_from_miner line msg now s of
        (Inl e, s') \<Rightarrow> (stopped e, s')
      | (Inr out, s') \<Rightarrow>
          (\<lparr>st_to_pool = Some out, st_to_miner = None, st_effects = [],
            st_stop = (if write_ok then None else Some WriteFailed)\<rparr>, s'))"

text \<open>The end of \<open>Serve\<close>: the session is closed and leaves the registry.\<close>

definition end_session :: "nat \<Rightarrow> string \<Rightarrow> server \<Rightarrow> server" where
  "end_session i reason srv = srv\<lparr>sv_registry := reg_remove i (close_id reason i (sv_registry srv))\<rparr>"

subsection \<open>Lemmas\<close>

definition reg_inv :: "registry \<Rightarrow> bool" where
  "reg_inv r \<longleftrightarrow> wf_map (rg_sessions r) \<and> (\<forall>i s. map_of (rg_sessions r) i = Some s \<longrightarrow> s_id s = i) \<and>
     wf_map (rg_drains r) \<and> (\<forall>g. has_key (rg_drains r) g \<longrightarrow> g \<le> rg_gen r) \<and>
     (rg_draining r \<longleftrightarrow> has_key (rg_drains r) (rg_gen r))"

lemma reg_inv_new: "reg_inv new_registry"
  by (simp add: reg_inv_def new_registry_def has_key_def)

lemma reg_inv_put:
  "reg_inv r \<Longrightarrow> s_id s = i \<Longrightarrow> reg_inv (r\<lparr>rg_sessions := put i s (rg_sessions r)\<rparr>)"
  by (simp add: reg_inv_def)

lemma close_session_id [simp]: "s_id (close_session reason s) = s_id s"
  by (simp add: close_session_def)

lemma reg_inv_add [inv_intros]: "reg_inv r \<Longrightarrow> reg_inv (reg_add s r)"
  by (simp add: reg_add_def reg_inv_put)

lemma reg_inv_remove [inv_intros]: "reg_inv r \<Longrightarrow> reg_inv (reg_remove i r)"
  by (simp add: reg_remove_def reg_inv_def)

lemma reg_inv_update [inv_intros]: "reg_inv r \<Longrightarrow> reg_inv (update_session i f r)"
  by (auto simp: update_session_def intro: reg_inv_put split: option.split)

lemma reg_inv_close [inv_intros]: "reg_inv r \<Longrightarrow> reg_inv (close_id reason i r)"
  by (simp add: close_id_def reg_inv_def del: map_of_eq_Some_iff split: option.split)

lemma reg_inv_drainer:
  "reg_inv r \<Longrightarrow> has_key (rg_drains r) g \<Longrightarrow> reg_inv (r\<lparr>rg_drains := put g d (rg_drains r)\<rparr>)"
  by (auto simp: reg_inv_def)

lemma reg_inv_cancel [inv_intros]: "reg_inv r \<Longrightarrow> reg_inv (cancel_drain g r)"
  by (auto simp: cancel_drain_def has_key_def intro!: reg_inv_drainer split: option.split)

lemma cancel_drain_simps [simp]:
  "rg_sessions (cancel_drain g r) = rg_sessions r" "rg_gen (cancel_drain g r) = rg_gen r"
  "rg_draining (cancel_drain g r) = rg_draining r" "has_key (rg_drains (cancel_drain g r)) k = has_key (rg_drains r) k"
  by (auto simp: cancel_drain_def has_key_def split: option.split)

lemma close_id_simps [simp]:
  "rg_gen (close_id reason i r) = rg_gen r" "rg_draining (close_id reason i r) = rg_draining r"
  "rg_drains (close_id reason i r) = rg_drains r"
  by (simp_all add: close_id_def split: option.split)

lemma reg_inv_start [inv_intros]:
  assumes "reg_inv r" shows "reg_inv (snd (start_drain shuffle p reason r))"
  using reg_inv_cancel [OF assms, of "rg_gen r"]
  by (auto simp: start_drain_def Let_def reg_inv_def dest: le_SucI)

lemma reg_inv_iterate [inv_intros]:
  assumes "reg_inv r" shows "reg_inv (drain_iterate g r)"
proof -
  have "reg_inv (close_id reason i r)" for reason :: string and i by (rule reg_inv_close [OF assms])
  from reg_inv_drainer [OF this, where g = g] reg_inv_drainer [OF assms, where g = g] show ?thesis
    using assms by (auto simp: drain_iterate_def has_key_def split: option.split list.split)
qed

lemma reg_inv_finish [inv_intros]: "reg_inv r \<Longrightarrow> reg_inv (snd (drain_finish g r))"
  by (auto simp: drain_finish_def Let_def reg_inv_def split: option.split)

lemma reg_inv_close_all [inv_intros]: "reg_inv r \<Longrightarrow> reg_inv (close_all reason r)"
proof -
  have "reg_inv q \<Longrightarrow> reg_inv (fold (\<lambda>s. close_id reason (s_id s)) ss q)" for ss :: "session list" and q
    by (induction ss arbitrary: q) (auto intro: inv_intros)
  then show "reg_inv (close_all reason r)" if "reg_inv r" using that by (simp add: close_all_def reg_inv_cancel)
qed

lemma reg_inv_step: "reg_step r r' \<Longrightarrow> reg_inv r \<Longrightarrow> reg_inv r'"
  by (elim reg_stepE drain_stepE) (simp_all add: inv_intros)

lemma reachable_inv: "reachable_registry r \<Longrightarrow> reg_inv r"
  by (induction rule: reachable_registry.induct) (auto intro: reg_inv_new reg_inv_step)

text \<open>A registry in which only the newest drain, with the reason and the targets given, can still
  close sessions; \<open>q\<close> gives the sessions it started from.\<close>

definition drain_owned :: "nat \<Rightarrow> string \<Rightarrow> nat set \<Rightarrow> (nat \<Rightarrow> session option) \<Rightarrow> registry \<Rightarrow> bool" where
  "drain_owned g reason targets q r \<longleftrightarrow> rg_gen r = g \<and>
     (\<forall>d. map_of (rg_drains r) g = Some d \<longrightarrow> dr_reason d = reason \<and> set (dr_todo d) \<subseteq> targets) \<and>
     (\<forall>i. case map_of (rg_sessions r) i of None \<Rightarrow> q i = None
        | Some s \<Rightarrow> q i = Some s \<or> (\<exists>s0. q i = Some s0 \<and> s = close_session (''drain: '' @ reason) s0 \<and> i \<in> targets))"

lemma close_session_twice [simp]: "close_session a (close_session a s) = close_session a s"
  by (simp add: close_session_def)

lemma map_of_close_id:
  "map_of (rg_sessions (close_id reason i r)) j =
     (if j = i then map_option (close_session reason) (map_of (rg_sessions r) i) else map_of (rg_sessions r) j)"
  by (auto simp: close_id_def split: option.split)

lemma drain_owned_close:
  assumes "drain_owned g reason T q r" "i \<in> T"
  shows "drain_owned g reason T q (close_id (''drain: '' @ reason) i r)"
proof -
  have "case map_of (rg_sessions (close_id (''drain: '' @ reason) i r)) j of None \<Rightarrow> q j = None
      | Some s \<Rightarrow> q j = Some s \<or> (\<exists>s0. q j = Some s0 \<and> s = close_session (''drain: '' @ reason) s0 \<and> j \<in> T)" for j
  proof (cases "j = i")
    case True
    have "case map_of (rg_sessions r) i of None \<Rightarrow> q i = None
      | Some s \<Rightarrow> q i = Some s \<or> (\<exists>s0. q i = Some s0 \<and> s = close_session (''drain: '' @ reason) s0 \<and> i \<in> T)"
      using assms(1) by (simp add: drain_owned_def)
    then show ?thesis using True assms(2) by (auto simp: map_of_close_id split: option.splits)
  next
    case False
    then show ?thesis using assms(1) by (simp add: drain_owned_def map_of_close_id)
  qed
  then show ?thesis using assms by (simp add: drain_owned_def)
qed

lemma drain_owned_drains:
  assumes "drain_owned g reason T q r" "rg_gen r' = rg_gen r" "rg_sessions r' = rg_sessions r"
    and "\<And>d. map_of (rg_drains r') g = Some d \<Longrightarrow> dr_reason d = reason \<and> set (dr_todo d) \<subseteq> T"
  shows "drain_owned g reason T q r'"
  using assms by (simp add: drain_owned_def)

lemma drain_owned_iterate:
  assumes "drain_owned g reason T q r"
  shows "drain_owned g reason T q (drain_iterate h r)"
proof (cases "\<exists>d i rest. map_of (rg_drains r) h = Some d \<and> dr_todo d = i # rest")
  case True
  then obtain d i rest where d: "map_of (rg_drains r) h = Some d" "dr_todo d = i # rest" by blast
  have gd: "h = g \<Longrightarrow> dr_reason d = reason \<and> set (i # rest) \<subseteq> T" and g: "rg_gen r = g"
    using assms d by (auto simp: drain_owned_def)
  show ?thesis
  proof (cases "dr_cancelled d \<or> rg_gen r \<noteq> h")
    case True
    then show ?thesis using d gd assms
      by (auto simp: drain_iterate_def drain_owned_def)
  next
    case False
    then have h: "h = g" using g by simp
    have c: "drain_owned g reason T q (close_id (''drain: '' @ dr_reason d) i r)"
      using drain_owned_close [OF assms] gd [OF h] by simp
    show ?thesis using d gd [OF h] False h by (intro drain_owned_drains [OF c]) (auto simp: drain_iterate_def)
  qed
next
  case False
  then have "drain_iterate h r = r" by (auto simp: drain_iterate_def split: option.split list.split)
  then show ?thesis using assms by simp
qed

lemma drain_owned_finish:
  "drain_owned g reason T q r \<Longrightarrow> drain_owned g reason T q (snd (drain_finish h r))"
  by (auto simp: drain_finish_def Let_def drain_owned_def split: option.splits)

lemma drain_owned_steps:
  "drain_step\<^sup>*\<^sup>* r r' \<Longrightarrow> drain_owned g reason T q r \<Longrightarrow> drain_owned g reason T q r'"
  by (induction rule: rtranclp_induct) (auto elim!: drain_stepE intro: drain_owned_iterate drain_owned_finish)

lemma start_drain_sessions [simp]: "rg_sessions (snd (start_drain shuffle p reason r)) = rg_sessions r"
  by (simp add: start_drain_def Let_def)

lemma drain_owned_start:
  assumes "reg_inv r"
  shows "drain_owned (rg_gen r + 1) reason (set (shuffle (drain_targets p r))) (map_of (rg_sessions r))
    (snd (start_drain shuffle p reason r))"
proof -
  have "\<not> has_key (rg_drains r) (rg_gen r + 1)" using assms by (auto simp: reg_inv_def)
  then have "map_of (rg_drains (cancel_drain (rg_gen r) r)) (rg_gen r + 1) = None"
    by (auto simp: cancel_drain_def has_key_def split: option.split)
  then show ?thesis by (auto simp: start_drain_def Let_def drain_owned_def split: option.split)
qed

lemma drain_targets_match:
  "reg_inv r \<Longrightarrow> i \<in> set (drain_targets p r) \<Longrightarrow> \<exists>s. map_of (rg_sessions r) i = Some s \<and> p s"
  by (auto simp: drain_targets_def reg_inv_def)

text \<open>The newest drain, left alone.\<close>

lemma drain_runs:
  assumes "map_of (rg_drains r) (rg_gen r) = Some d" "\<not> dr_cancelled d" "dr_todo d = is"
  shows "\<exists>q. (drain_iterate (rg_gen r) ^^ length is) r = q \<and> rg_gen q = rg_gen r \<and>
    map_of (rg_drains q) (rg_gen r) = Some (d\<lparr>dr_todo := [], dr_closed := dr_closed d + length is\<rparr>) \<and>
    (\<forall>i. map_of (rg_sessions q) i = (if i \<in> set is then map_option (close_session (''drain: '' @ dr_reason d)) (map_of (rg_sessions r) i)
       else map_of (rg_sessions r) i))"
  using assms
proof (induction "is" arbitrary: r d)
  case (Cons i js)
  define r1 where "r1 = drain_iterate (rg_gen r) r"
  define d1 where "d1 = d\<lparr>dr_todo := js, dr_closed := dr_closed d + 1\<rparr>"
  have r1: "r1 = (close_id (''drain: '' @ dr_reason d) i r)\<lparr>rg_drains := put (rg_gen r) d1 (rg_drains r)\<rparr>"
    using Cons.prems by (simp add: r1_def d1_def drain_iterate_def)
  have "map_of (rg_drains r1) (rg_gen r1) = Some d1" "\<not> dr_cancelled d1" "dr_todo d1 = js"
    using Cons.prems by (simp_all add: r1 d1_def)
  from Cons.IH [OF this] obtain q where q: "(drain_iterate (rg_gen r1) ^^ length js) r1 = q" "rg_gen q = rg_gen r1"
    "map_of (rg_drains q) (rg_gen r1) = Some (d1\<lparr>dr_todo := [], dr_closed := dr_closed d1 + length js\<rparr>)"
    "\<And>j. map_of (rg_sessions q) j = (if j \<in> set js then map_option (close_session (''drain: '' @ dr_reason d1)) (map_of (rg_sessions r1) j)
       else map_of (rg_sessions r1) j)" by blast
  have g: "rg_gen r1 = rg_gen r" by (simp add: r1)
  have it: "(drain_iterate (rg_gen r) ^^ length (i # js)) r = q"
    using q(1) by (simp add: g funpow_swap1 r1_def [symmetric])
  have s: "map_of (rg_sessions q) j = (if j \<in> set (i # js) then map_option (close_session (''drain: '' @ dr_reason d)) (map_of (rg_sessions r) j)
       else map_of (rg_sessions r) j)" for j
    using q(4) [of j] by (auto simp: r1 d1_def map_of_close_id option.map_comp comp_def)
  have "map_of (rg_drains q) (rg_gen r) = Some (d\<lparr>dr_todo := [], dr_closed := dr_closed d + length (i # js)\<rparr>)"
    using q(3) by (simp add: g d1_def)
  then show ?case using q(2) g it s by (intro exI [of _ q] conjI allI) simp_all
qed simp

lemma close_session_closed [simp]: "s_close_reason (close_session reason s) \<noteq> None"
  by (simp add: close_session_def)

lemma drain_gap_bounds:
  assumes "0 \<le> window" "1 < n"
  shows "drain_gap window n * (int n - 1) \<le> window \<and> window < (drain_gap window n + 1) * (int n - 1)"
proof -
  define k m where "k = window div (int n - 1)" and "m = window mod (int n - 1)"
  have "drain_gap window n = k" using assms by (simp add: drain_gap_def go_div_nonneg_eq k_def)
  moreover have "k * (int n - 1) + m = window" unfolding k_def m_def by (rule div_mult_mod_eq)
  moreover have "0 \<le> m" "m < int n - 1" using assms by (simp_all add: m_def)
  ultimately show ?thesis by (simp add: algebra_simps)
qed

subsection \<open>Properties\<close>

text \<open>C7: once a drain has started, every older drain is powerless. Whatever the goroutines of all
  drains do afterwards, in any order, a session whose state changes is one the filter of the new drain
  selected, and it is closed with the reason of the new drain.\<close>

theorem new_drain_replaces_old:
  assumes "reachable_registry r" "\<And>xs. mset (shuffle xs) = mset xs"
    and "drain_step\<^sup>*\<^sup>* (snd (start_drain shuffle p reason r)) r'"
    and "map_of (rg_sessions r') i = Some s'"
  shows "\<exists>s. map_of (rg_sessions r) i = Some s \<and> (s' = s \<or> p s \<and> s' = close_session (''drain: '' @ reason) s)"
proof -
  note inv = reachable_inv [OF assms(1)]
  have "set (shuffle (drain_targets p r)) = set (drain_targets p r)" using assms(2) by (metis set_mset_mset)
  then have "drain_owned (rg_gen r + 1) reason (set (drain_targets p r)) (map_of (rg_sessions r)) r'"
    using drain_owned_steps [OF assms(3) drain_owned_start [OF inv]] by simp
  then have "map_of (rg_sessions r) i = Some s' \<or>
      (\<exists>s. map_of (rg_sessions r) i = Some s \<and> s' = close_session (''drain: '' @ reason) s \<and> i \<in> set (drain_targets p r))"
    using assms(4) unfolding drain_owned_def by (elim conjE allE [of _ i]) (simp only: option.case)
  then show ?thesis
  proof (elim disjE exE conjE)
    fix s assume s: "map_of (rg_sessions r) i = Some s" "s' = close_session (''drain: '' @ reason) s" "i \<in> set (drain_targets p r)"
    then have "p s" using drain_targets_match [OF inv s(3)] by auto
    then show ?thesis using s by blast
  qed simp
qed

abbreviation example_session :: session where
  "example_session \<equiv> new_session 1 [] ''tcp'' \<lparr>u_pool_id = ''p'', u_pool_name = [], u_addr = [], u_template = [], u_password = []\<rparr> defaults 0"

theorem new_drain_replaces_old_witness:
  "\<exists>s. map_of (rg_sessions (reg_add example_session new_registry)) 1 = Some s \<and>
     close_session ''drain: x'' example_session = close_session (''drain: '' @ ''x'') s"
proof -
  define r where "r = reg_add example_session new_registry"
  have r: "reachable_registry r" unfolding r_def by (rule reachable_registry.step [OF reachable_registry.init reg_step.add])
  have e: "r = \<lparr>rg_sessions = [(1, example_session)], rg_gen = 0, rg_draining = False, rg_drains = []\<rparr>"
    by (simp add: r_def reg_add_def new_registry_def new_session_def)
  define r1 where "r1 = snd (start_drain (\<lambda>xs. xs) (\<lambda>_. True) ''x'' r)"
  have s: "drain_step\<^sup>*\<^sup>* r1 (drain_iterate 1 r1)" by (rule r_into_rtranclp) (rule drain_step.iterate)
  have "map_of (rg_sessions (drain_iterate 1 r1)) 1 = Some (close_session ''drain: x'' example_session)"
    by (simp add: r1_def e start_drain_def Let_def drain_targets_def cancel_drain_def drain_iterate_def close_id_def)
  from new_drain_replaces_old [OF r _ s [unfolded r1_def] this [unfolded r1_def]]
  show ?thesis unfolding r_def [symmetric]
    by (auto simp: close_session_def e new_session_def)
qed

text \<open>C29: a drain no other step disturbs completes. After as many iterations of its goroutine as it has
  targets, every target is closed and no other session touched, the goroutine reports them all as
  finished, and the registry is no longer draining; the pauses add up to at most the window.\<close>

theorem drain_completes:
  assumes "reachable_registry r" "\<And>xs. mset (shuffle xs) = mset xs" "start_drain shuffle p reason r = (n, r1)" "0 < n"
  shows "n = length (drain_targets p r) \<and>
    (let g = rg_gen r1; q = (drain_iterate g ^^ n) r1 in
       rg_draining r1 \<and>
       (\<forall>i s. map_of (rg_sessions r) i = Some s \<longrightarrow>
          map_of (rg_sessions q) i = Some (if p s then close_session (''drain: '' @ reason) s else s)) \<and>
       fst (drain_finish g q) = Some (DrainFinished n reason) \<and> \<not> rg_draining (snd (drain_finish g q))) \<and>
    (0 \<le> window \<longrightarrow> drain_gap window n * (int n - 1) \<le> window)"
proof -
  note inv = reachable_inv [OF assms(1)]
  define T where "T = shuffle (drain_targets p r)"
  have T: "set T = set (drain_targets p r)" "length T = length (drain_targets p r)"
    using assms(2) unfolding T_def by (metis set_mset_mset, metis size_mset)
  have n: "n = length T" and r1: "r1 = snd (start_drain shuffle p reason r)"
    using assms(3) by (auto simp: T_def start_drain_def Let_def)
  have ne: "T \<noteq> []" using n assms(4) by auto
  define d where "d = \<lparr>dr_targets = T, dr_todo = T, dr_closed = 0, dr_reason = reason, dr_cancelled = False\<rparr>"
  have d: "map_of (rg_drains r1) (rg_gen r1) = Some d" "rg_sessions r1 = rg_sessions r" "rg_draining r1"
    using ne by (simp_all add: r1 start_drain_def Let_def d_def T_def)
  obtain q where q: "(drain_iterate (rg_gen r1) ^^ n) r1 = q" "rg_gen q = rg_gen r1"
    "map_of (rg_drains q) (rg_gen r1) = Some (d\<lparr>dr_todo := [], dr_closed := n\<rparr>)"
    "\<And>i. map_of (rg_sessions q) i = (if i \<in> set T then map_option (close_session (''drain: '' @ reason)) (map_of (rg_sessions r) i)
       else map_of (rg_sessions r) i)"
    using drain_runs [OF d(1) _ refl] d(2) by (auto simp: d_def n)
  have sel: "i \<in> set T \<longleftrightarrow> p s" if "map_of (rg_sessions r) i = Some s" for i s
    using that inv by (auto simp: T drain_targets_def reg_inv_def image_iff) (metis case_prodI eq_key_imp_eq_value fst_conv map_of_SomeD)+
  have "drain_finish (rg_gen r1) q = (Some (DrainFinished n reason),
      q\<lparr>rg_drains := del (rg_gen r1) (rg_drains q), rg_draining := False\<rparr>)"
    using q(2,3) by (simp add: drain_finish_def Let_def d_def)
  moreover have "0 \<le> window \<longrightarrow> drain_gap window n * (int n - 1) \<le> window"
    using drain_gap_bounds [of window n] by (cases "1 < n") (auto simp: drain_gap_def)
  ultimately show ?thesis using d(3) q(1,4) sel n T(2) by (simp add: Let_def)
qed

theorem drain_completes_witness:
  "fst (drain_finish 1 ((drain_iterate 1 ^^ 1) (snd (start_drain (\<lambda>xs. xs) (\<lambda>_. True) ''x'' (reg_add example_session new_registry)))))
     = Some (DrainFinished 1 ''x'')"
proof -
  have r: "reachable_registry (reg_add example_session new_registry)"
    by (rule reachable_registry.step [OF reachable_registry.init reg_step.add])
  obtain n r1 where s: "start_drain (\<lambda>xs. xs) (\<lambda>_. True) ''x'' (reg_add example_session new_registry) = (n, r1)" by fastforce
  then have "n = 1" "rg_gen r1 = 1"
    by (auto simp: start_drain_def Let_def reg_add_def new_registry_def new_session_def drain_targets_def cancel_drain_def)
  then show ?thesis using drain_completes [OF r _ s, of 0] s by (simp add: Let_def)
qed

lemma get_or_nil: "get_or z [] k = z"
  by (simp add: get_or_def)

text \<open>\<open>Draining\<close> is true exactly while the goroutine of the newest drain has not returned, and the
  counts of the registry add up.\<close>

theorem draining_while_newest_runs:
  assumes "reachable_registry r"
  shows "(rg_draining r \<longleftrightarrow> has_key (rg_drains r) (rg_gen r)) \<and>
    ct_total (session_counts r) = length (rg_sessions r) \<and>
    ct_tcp (session_counts r) + ct_tls (session_counts r) = ct_total (session_counts r) \<and>
    (\<forall>i. get_or 0 (ct_by_pool (session_counts r)) i = count_where (\<lambda>s. u_pool_id (s_up s) = i) r)"
proof -
  have tot: "ct_total (fold (\<lambda>(_, s). count_session s) ss c) = ct_total c + length ss" for ss :: "(nat, session) gomap" and c
    by (induction ss arbitrary: c) (auto simp: count_session_def Let_def)
  have sum: "ct_tcp (fold (\<lambda>(_, s). count_session s) ss c) + ct_tls (fold (\<lambda>(_, s). count_session s) ss c) =
      ct_total (fold (\<lambda>(_, s). count_session s) ss c)" if "ct_tcp c + ct_tls c = ct_total c" for ss :: "(nat, session) gomap" and c
    using that by (induction ss arbitrary: c) (auto simp: count_session_def Let_def)
  have by_pool: "get_or 0 (ct_by_pool (fold (\<lambda>(_, s). count_session s) ss c)) i =
      fold (\<lambda>(_, s) n. if u_pool_id (s_up s) = i then n + 1 else n) ss (get_or 0 (ct_by_pool c) i)"
    for ss :: "(nat, session) gomap" and c i
    by (induction ss arbitrary: c) (auto simp: count_session_def count_into_def Let_def)
  show ?thesis using reachable_inv [OF assms]
    by (simp add: reg_inv_def session_counts_def tot sum by_pool count_where_def get_or_nil)
qed

theorem draining_while_newest_runs_witness:
  "ct_total (session_counts (reg_add example_session new_registry)) = 1"
  using draining_while_newest_runs [OF reachable_registry.step [OF reachable_registry.init reg_step.add], of example_session]
  by (simp add: reg_add_def new_registry_def)

end
