(* ===== verification/Manager.thy ===== *)
theory Manager
  imports Pools Health Dial Registry
begin

text \<open>
  Package \<open>pool\<close>, \<open>manager.go\<close> and \<open>probe.go\<close>: the pool manager.

  \<^item> \<open>manager\<close> is the state of a \<open>Manager\<close> with what it owns: the state store and the snapshot of
    it, the settings in force, the registry of sessions and the health of the pools, the last switch,
    the gates and the queue of the checks.
  \<^item> Every operation is one section under \<open>opMu\<close> or \<open>hmu\<close>. Longer ones are split where the code
    gives the mutexes up: \<open>activate\<close> captures the pool (\<open>activate_begin\<close>), checks it without a lock
    and commits (\<open>activate_commit\<close>); \<open>start_probe\<close> captures and \<open>record_check\<close> commits; in \<open>pick_from\<close>
    every dial tells what others did to the manager meanwhile.
  \<^item> The results of checks and dials, the time, the outcome of a write to the disk and the random order
    of a drain are arguments. Operations return the events they log.

  The lemmas show the invariant of the manager over all steps, where new sessions go, when sessions are
  moved back or away, and that the result of an outdated check is dropped.
\<close>

record snapshot =
  sn_active :: string
  sn_fallback :: "string list"
  sn_pools :: "pool list"

definition snapshot_of :: "state_file \<Rightarrow> snapshot" where
  "snapshot_of f = \<lparr>sn_active = f_active f, sn_fallback = f_fallback f, sn_pools = f_pools f\<rparr>"

definition snap_get :: "snapshot \<Rightarrow> string \<Rightarrow> pool option" where
  "snap_get s i = find_pool (sn_pools s) i"

datatype role = Active | FallbackAt nat | NoRole

fun index_from :: "nat \<Rightarrow> string \<Rightarrow> string list \<Rightarrow> nat option" where
  "index_from n i [] = None"
| "index_from n i (x # xs) = (if x = i then Some n else index_from (Suc n) i xs)"

definition snap_role :: "snapshot \<Rightarrow> string \<Rightarrow> role" where
  "snap_role s i =
     (if i = sn_active s then Active
      else (case index_from 1 i (sn_fallback s) of Some n \<Rightarrow> FallbackAt n | None \<Rightarrow> NoRole))"

definition snap_name :: "snapshot \<Rightarrow> string \<Rightarrow> string" where
  "snap_name s i = (case snap_get s i of Some p \<Rightarrow> p_name p | None \<Rightarrow> i)"

record switch =
  sw_at :: time
  sw_from :: string
  sw_to :: string
  sw_reason :: string

record manager =
  m_store :: store
  m_snap :: snapshot
  m_settings :: settings_values
  m_reg :: registry
  m_health :: health_state
  m_last_switch :: "switch option"
  m_last_failback :: time
  m_last_probe :: time
  m_probes :: "(string, time) gomap"
  m_busy :: "string list"
  m_pending :: "string list"

datatype manager_event =
    HealthEvent health_event
  | PoolSwitched string string string
  | PoolCreated string
  | FirstPoolActive string
  | PoolUpdated string
  | PoolDeleted string
  | FallbackChanged "string list"
  | ProfitHomeSet string
  | Failback string nat
  | Failover nat

definition new_manager :: "store \<Rightarrow> settings_values \<Rightarrow> registry \<Rightarrow> manager" where
  "new_manager st v reg =
     \<lparr>m_store = st, m_snap = snapshot_of (current st), m_settings = v, m_reg = reg,
      m_health = \<lparr>hs_addrs = [], hs_pools = [], hs_versions = [], hs_test_worker = v_test_worker v\<rparr>,
      m_last_switch = None, m_last_failback = zero_time, m_last_probe = zero_time, m_probes = [], m_busy = [], m_pending = []\<rparr>"

definition pool_health_of :: "manager \<Rightarrow> string \<Rightarrow> health" where
  "pool_health_of m i = health_of (sn_pools (m_snap m)) (m_health m) i"

definition pool_status :: "manager \<Rightarrow> string \<Rightarrow> status" where
  "pool_status m i = h_status (pool_health_of m i)"

definition still_has :: "manager \<Rightarrow> pool \<Rightarrow> address \<Rightarrow> bool" where
  "still_has m p a \<longleftrightarrow>
     (case snap_get (m_snap m) (p_id p) of None \<Rightarrow> False
      | Some c \<Rightarrow> p_tls c = p_tls p \<and> p_tls_skip_verify c = p_tls_skip_verify p \<and>
          p_username c = p_username p \<and> p_password c = p_password p \<and> a \<in> set (p_addresses c))"

definition check_version :: "manager \<Rightarrow> string \<Rightarrow> 64 word" where
  "check_version m i = get_or 0 (hs_versions (m_health m)) i"

definition on_health ::
  "(health_state \<Rightarrow> health_event list \<times> health_state) \<Rightarrow> manager \<Rightarrow> manager_event list \<times> manager" where
  "on_health f m = (case f (m_health m) of (evs, hs) \<Rightarrow> (map HealthEvent evs, m\<lparr>m_health := hs\<rparr>))"

definition session_pool :: "session \<Rightarrow> string" where "session_pool s = u_pool_id (s_up s)"

definition drain_sessions ::
  "(nat list \<Rightarrow> nat list) \<Rightarrow> (session \<Rightarrow> bool) \<Rightarrow> string \<Rightarrow> manager \<Rightarrow> nat \<times> manager" where
  "drain_sessions shuffle p reason m =
     (case start_drain shuffle p reason (m_reg m) of (n, reg) \<Rightarrow> (n, m\<lparr>m_reg := reg\<rparr>))"

subsection \<open>Routing\<close>

definition candidates :: "manager \<Rightarrow> snapshot \<Rightarrow> pool list" where
  "candidates m s =
     List.map_filter (\<lambda>i. if i = [] then None
         else (case snap_get s i of None \<Rightarrow> None | Some p \<Rightarrow> if pool_status m i = Down then None else Some p))
       (sn_active s # sn_fallback s)"

text \<open>One dial: whether the budget had run out before and after it, its error, the time, and what
  others did to the manager while it ran.\<close>

record attempt =
  at_late :: bool
  at_error :: "string option"
  at_late_after :: bool
  at_time :: time
  at_others :: "manager \<Rightarrow> manager"

datatype pick_result = Picked upstream pool address | NoneReachable | BudgetExhausted

definition upstream_of :: "pool \<Rightarrow> address \<Rightarrow> upstream" where
  "upstream_of p a =
     \<lparr>u_pool_id = p_id p, u_pool_name = p_name p, u_addr = addr_string a, u_template = p_username p, u_password = p_password p\<rparr>"

text \<open>The addresses of one pool: the result if the loop ends here, and the number of the next dial.\<close>

fun pick_addresses ::
  "(nat \<Rightarrow> attempt) \<Rightarrow> pool \<Rightarrow> address list \<Rightarrow> nat \<Rightarrow> manager \<Rightarrow> pick_result option \<times> nat \<times> manager_event list \<times> manager" where
  "pick_addresses net p [] k m = (None, k, [], m)"
| "pick_addresses net p (a # as) k m =
     (let t = net k in
      if at_late t then (Some BudgetExhausted, k, [], m)
      else
        (let m1 = at_others t m;
             (evs, m2) = (if still_has m1 p a \<and> (\<not> at_late_after t \<or> at_error t = None)
                          then on_health (dial_result p a (at_error t) (at_time t)) m1 else ([], m1))
         in if at_error t = None then (Some (Picked (upstream_of p a) p a), Suc k, evs, m2)
            else (case pick_addresses net p as (Suc k) m2 of (r, k', evs', m') \<Rightarrow> (r, k', evs @ evs', m'))))"

fun pick_from :: "(nat \<Rightarrow> attempt) \<Rightarrow> pool list \<Rightarrow> nat \<Rightarrow> manager \<Rightarrow> pick_result \<times> manager_event list \<times> manager" where
  "pick_from net [] k m = (NoneReachable, [], m)"
| "pick_from net (p # ps) k m =
     (case pick_addresses net p (ordered_addresses (m_health m) p) k m of
        (Some r, _, evs, m') \<Rightarrow> (r, evs, m')
      | (None, k', evs, m') \<Rightarrow> (case pick_from net ps k' m' of (r, evs', m'') \<Rightarrow> (r, evs @ evs', m'')))"

definition pick :: "(nat \<Rightarrow> attempt) \<Rightarrow> manager \<Rightarrow> pick_result \<times> manager_event list \<times> manager" where
  "pick net m = pick_from net (candidates m (m_snap m)) 0 m"

datatype mode = Switching | Normal | Degraded | AllDown

definition mode :: "manager \<Rightarrow> mode" where
  "mode m =
     (if rg_draining (m_reg m) then Switching
      else if sn_active (m_snap m) = [] then AllDown
      else if pool_status m (sn_active (m_snap m)) \<noteq> Down then Normal
      else if \<exists>i \<in> set (sn_fallback (m_snap m)). pool_status m i \<noteq> Down then Degraded
      else AllDown)"

definition effective :: "manager \<Rightarrow> string" where
  "effective m = (case candidates m (m_snap m) of [] \<Rightarrow> [] | p # _ \<Rightarrow> p_id p)"

subsection \<open>Transactions\<close>

definition persist_err :: "go_error \<Rightarrow> api_error" where
  "persist_err e = (case e of ApiErr a \<Rightarrow> a | _ \<Rightarrow> internal (Msg ''state_save_failed'' []))"

definition transact ::
  "(state_file \<Rightarrow> go_error + state_file \<times> 'a) \<Rightarrow> bool \<Rightarrow> manager \<Rightarrow> (api_error + 'a) \<times> manager" where
  "transact fn write_ok m =
     (case mutate fn write_ok (m_store m) of
        (Inl e, st) \<Rightarrow> (Inl (persist_err e), m\<lparr>m_store := st\<rparr>)
      | (Inr a, st) \<Rightarrow> (Inr a, m\<lparr>m_store := st, m_snap := snapshot_of (clone (st_cur st))\<rparr>))"

subsection \<open>Activation\<close>

text \<open>What an activation captures before the check: the pool, its check version and the test worker.\<close>

definition activate_begin :: "string \<Rightarrow> manager \<Rightarrow> api_error + pool \<times> 64 word \<times> string" where
  "activate_begin i m =
     (case snap_get (m_snap m) i of None \<Rightarrow> Inl (pool_not_found i)
      | Some p \<Rightarrow> Inr (p, check_version m i, v_test_worker (m_settings m)))"

definition any_ok :: "addr_result list \<Rightarrow> bool" where
  "any_ok rs \<longleftrightarrow> list_ex (\<lambda>r. ar_err r = None) rs"

definition check_failed :: "string \<Rightarrow> api_error" where
  "check_failed name = pool_check_failed (Msg ''pool_check_failed'' [(''pool'', PStr name)])"

definition activate_commit ::
  "string \<Rightarrow> bool \<Rightarrow> string \<Rightarrow> string list option \<Rightarrow> pool \<times> 64 word \<times> string \<Rightarrow> bool \<Rightarrow> (nat list \<Rightarrow> nat list) \<Rightarrow> time
     \<Rightarrow> manager \<Rightarrow> (api_error + nat) \<times> manager_event list \<times> manager" where
  "activate_commit i force reason fallback captured write_ok shuffle now m =
     (let (p, version, tw) = captured;
          stale = (check_version m i \<noteq> version \<or> v_test_worker (m_settings m) \<noteq> tw)
      in case snap_get (m_snap m) i of None \<Rightarrow> (Inl (pool_not_found i), [], m)
         | Some c \<Rightarrow>
             if \<not> force \<and> (\<not> same_endpoint p c \<or> p_username p \<noteq> p_username c \<or> p_password p \<noteq> p_password c \<or> stale)
             then (Inl (check_failed (p_name c)), [], m)
             else
               (case transact (activate_in i (\<not> force \<and> stale) fallback (p_name c)) write_ok m of
                  (Inl e, m') \<Rightarrow> (Inl e, [], m')
                | (Inr from, m1) \<Rightarrow>
                    (let m2 = m1\<lparr>m_health := forget_health i (m_health m1),
                                 m_last_switch := Some \<lparr>sw_at = now, sw_from = from, sw_to = i, sw_reason = reason\<rparr>\<rparr>;
                         (n, m3) = drain_sessions shuffle (\<lambda>s. session_pool s \<noteq> i) (''switch to '' @ p_name c) m2
                     in (Inr n, [PoolSwitched (snap_name (m_snap m1) from) (p_name c) reason], m3))))"

text \<open>\<open>activate\<close>: \<open>checks\<close> are the results of the check, \<open>others\<close> is what happened during it.\<close>

definition activate ::
  "string \<Rightarrow> bool \<Rightarrow> string \<Rightarrow> string list option \<Rightarrow> addr_result list \<Rightarrow> (manager \<Rightarrow> manager) \<Rightarrow> bool \<Rightarrow> (nat list \<Rightarrow> nat list)
     \<Rightarrow> time \<Rightarrow> manager \<Rightarrow> (api_error + nat) \<times> manager_event list \<times> manager" where
  "activate i force reason fallback checks others write_ok shuffle now m =
     (case activate_begin i m of
        Inl e \<Rightarrow> (Inl e, [], m)
      | Inr captured \<Rightarrow>
          (let m1 = others m in
           if \<not> force \<and> \<not> any_ok checks then (Inl (check_failed (p_name (fst captured))), [], m1)
           else activate_commit i force reason fallback captured write_ok shuffle now m1))"

definition restore ::
  "string \<Rightarrow> string list \<Rightarrow> string \<Rightarrow> bool \<Rightarrow> (nat list \<Rightarrow> nat list) \<Rightarrow> time \<Rightarrow> manager \<Rightarrow> (api_error + nat) \<times> manager_event list \<times> manager" where
  "restore i fallback reason write_ok shuffle now m =
     activate i True reason (Some fallback) [] (\<lambda>m. m) write_ok shuffle now m"

definition checked :: "addr_result list \<Rightarrow> api_error + addr_result list" where
  "checked rs = (if any_ok rs then Inr rs else Inl (pool_check_failed (Msg ''pool_unreachable'' [])))"

text \<open>The configuration \<open>TestConfig\<close> checks, and the check of it.\<close>

definition config_to_test :: "string \<Rightarrow> input \<Rightarrow> manager \<Rightarrow> api_error + pool" where
  "config_to_test base i m =
     (let tested = (\<lambda>p. let p = apply_input i p; p = (if p_name p = [] then p\<lparr>p_name := ''test''\<rparr> else p) in validate p) in
      if base = [] then tested (zero_pool\<lparr>p_password := ''x''\<rparr>)
      else (case snap_get (m_snap m) base of None \<Rightarrow> Inl (pool_not_found base) | Some c \<Rightarrow> tested c))"

definition test_config :: "string \<Rightarrow> input \<Rightarrow> (address \<Rightarrow> network) \<Rightarrow> manager \<Rightarrow> api_error + addr_result list" where
  "test_config base i net m =
     (case config_to_test base i m of Inl e \<Rightarrow> Inl e
      | Inr p \<Rightarrow> checked (check_all p True (v_test_worker (m_settings m)) net))"

definition reconnect_all :: "(nat list \<Rightarrow> nat list) \<Rightarrow> manager \<Rightarrow> nat \<times> manager" where
  "reconnect_all shuffle m = drain_sessions shuffle (\<lambda>_. True) ''reconnect all'' m"

subsection \<open>Editing\<close>

definition create_pool :: "input \<Rightarrow> bool \<Rightarrow> manager \<Rightarrow> (api_error + pool) \<times> manager_event list \<times> manager" where
  "create_pool i write_ok m =
     (case transact (create_in i) write_ok m of
        (Inl e, m') \<Rightarrow> (Inl e, [], m')
      | (Inr (p, made_active), m') \<Rightarrow>
          (Inr p, PoolCreated (p_name p) # (if made_active then [FirstPoolActive (p_name p)] else []), m'))"

definition update_pool ::
  "string \<Rightarrow> input \<Rightarrow> bool \<Rightarrow> bool \<Rightarrow> (nat list \<Rightarrow> nat list) \<Rightarrow> manager \<Rightarrow> (api_error + pool \<times> nat) \<times> manager_event list \<times> manager" where
  "update_pool j i reconnect write_ok shuffle m =
     (case transact (update_in j i) write_ok m of
        (Inl e, m') \<Rightarrow> (Inl e, [], m')
      | (Inr (new, old, changed), m1) \<Rightarrow>
          (let (evs, m2) = (if changed then on_health (pool_edited old new) m1 else ([], m1));
               (n, m3) = (if reconnect then drain_sessions shuffle (\<lambda>s. session_pool s = j) (''pool '' @ p_name new @ '' changed'') m2
                          else (0, m2))
           in (Inr (new, n), evs @ [PoolUpdated (p_name new)], m3)))"

definition delete_pool ::
  "string \<Rightarrow> bool \<Rightarrow> (nat list \<Rightarrow> nat list) \<Rightarrow> manager \<Rightarrow> (api_error + nat) \<times> manager_event list \<times> manager" where
  "delete_pool j write_ok shuffle m =
     (case transact (delete_in j) write_ok m of
        (Inl e, m') \<Rightarrow> (Inl e, [], m')
      | (Inr name, m1) \<Rightarrow>
          (let m2 = m1\<lparr>m_health := forget_health j (m_health m1)\<rparr>;
               (n, m3) = drain_sessions shuffle (\<lambda>s. session_pool s = j) (''pool '' @ name @ '' deleted'') m2
           in (Inr n, [PoolDeleted name], m3)))"

definition set_fallback :: "string list \<Rightarrow> bool \<Rightarrow> manager \<Rightarrow> (api_error + unit) \<times> manager_event list \<times> manager" where
  "set_fallback js write_ok m =
     (case transact (fallback_in js) write_ok m of
        (Inl e, m') \<Rightarrow> (Inl e, [], m')
      | (Inr names, m') \<Rightarrow> (Inr (), [FallbackChanged names], m'))"

definition set_profit_home :: "string \<Rightarrow> bool \<Rightarrow> manager \<Rightarrow> (api_error + unit) \<times> manager_event list \<times> manager" where
  "set_profit_home j write_ok m =
     (case transact (profit_home_in j) write_ok m of
        (Inl e, m') \<Rightarrow> (Inl e, [], m')
      | (Inr name, m') \<Rightarrow> (Inr (), [ProfitHomeSet name], m'))"

subsection \<open>Checks in the background\<close>

definition recheck_interval :: duration where "recheck_interval = 10 * second"

definition request_probe :: "string \<Rightarrow> address \<Rightarrow> manager \<Rightarrow> manager" where
  "request_probe i a m = m\<lparr>m_pending := List.insert (addr_key i a) (m_pending m)\<rparr>"

definition on_addresses :: "(pool \<Rightarrow> address \<Rightarrow> manager \<Rightarrow> manager) \<Rightarrow> pool list \<Rightarrow> manager \<Rightarrow> manager" where
  "on_addresses f ps m = fold (\<lambda>p. fold (f p) (p_addresses p)) ps m"

text \<open>New settings; another test worker starts all health over.\<close>

definition settings_changed :: "settings_values \<Rightarrow> manager \<Rightarrow> manager" where
  "settings_changed v m =
     (let m = m\<lparr>m_settings := v\<rparr>; hs = m_health m in
      if v_test_worker v = hs_test_worker hs then m
      else
        (let hs1 = fold (\<lambda>p. bump_version (p_id p)) (sn_pools (m_snap m))
               (hs\<lparr>hs_test_worker := v_test_worker v, hs_addrs := [], hs_pools := []\<rparr>)
         in on_addresses (\<lambda>p. request_probe (p_id p)) (sn_pools (m_snap m)) (m\<lparr>m_health := hs1\<rparr>)))"

text \<open>\<open>startProbe\<close> up to the goroutine: the captured version and worker if the check starts.\<close>

definition probe_starts :: "bool \<Rightarrow> pool \<Rightarrow> address \<Rightarrow> time \<Rightarrow> manager \<Rightarrow> bool" where
  "probe_starts down p a now m \<longleftrightarrow>
     addr_key (p_id p) a \<notin> set (m_busy m) \<and> \<not> down \<and>
     recheck_interval \<le> time_sub now (get_or zero_time (m_probes m) (addr_key (p_id p) a)) \<and> still_has m p a"

definition start_probe :: "bool \<Rightarrow> time \<Rightarrow> pool \<Rightarrow> address \<Rightarrow> manager \<Rightarrow> (string \<times> 64 word) option \<times> manager" where
  "start_probe down now p a m =
     (let k = addr_key (p_id p) a in
      if probe_starts down p a now m then
        (Some (v_test_worker (m_settings m), check_version m (p_id p)),
         m\<lparr>m_probes := put k now (m_probes m), m_busy := k # m_busy m, m_pending := removeAll k (m_pending m)\<rparr>)
      else (None, if has_key (m_probes m) k then m else m\<lparr>m_probes := put k zero_time (m_probes m)\<rparr>))"

text \<open>The commit of a check, and the release of its gate.\<close>

definition record_check ::
  "bool \<Rightarrow> pool \<Rightarrow> address \<Rightarrow> string \<Rightarrow> 64 word \<Rightarrow> duration \<Rightarrow> string option \<Rightarrow> time \<Rightarrow> manager \<Rightarrow> manager_event list \<times> manager" where
  "record_check cancelled p a tw version rtt err now m =
     on_health (probe_result_if p a rtt err
       (\<not> cancelled \<and> still_has m p a \<and> v_test_worker (m_settings m) = tw \<and> check_version m (p_id p) = version) now) m"

definition release_gate :: "pool \<Rightarrow> address \<Rightarrow> manager \<Rightarrow> manager" where
  "release_gate p a m = m\<lparr>m_busy := remove1 (addr_key (p_id p) a) (m_busy m)\<rparr>"

text \<open>One address of a check on request (\<open>checkSaved\<close>): the wait for the gate or the time after it may be
  cut off, otherwise the check runs and is recorded.\<close>

datatype saved_outcome = CutOff check_error | Ran time duration "check_error option" bool time

definition check_saved_one ::
  "(check_error \<Rightarrow> string) \<Rightarrow> pool \<Rightarrow> string \<Rightarrow> 64 word \<Rightarrow> address \<Rightarrow> saved_outcome \<Rightarrow> manager
     \<Rightarrow> addr_result \<times> manager_event list \<times> manager" where
  "check_saved_one err_text p tw version a out m =
     (case out of
        CutOff e \<Rightarrow> (\<lparr>ar_address = a, ar_rtt = 0, ar_err = Some e\<rparr>, [], m)
      | Ran start rtt err cancelled now \<Rightarrow>
          (let m1 = m\<lparr>m_probes := put (addr_key (p_id p) a) start (m_probes m)\<rparr>;
               (evs, m2) = record_check cancelled p a tw version rtt (map_option err_text err) now m1
           in (\<lparr>ar_address = a, ar_rtt = rtt, ar_err = err\<rparr>, evs, m2)))"

definition session_failure ::
  "pool \<Rightarrow> address \<Rightarrow> upstream_failure \<Rightarrow> string \<Rightarrow> time \<Rightarrow> manager \<Rightarrow> manager_event list \<times> manager" where
  "session_failure p a kind err now m =
     (if \<not> still_has m p a then ([], m)
      else
        (let (evs, m1) = (if kind = JobTimeout
               then on_health (\<lambda>hs. addr_changed p a (stall_addr err now) (bump_version (p_id p) hs)) m else ([], m))
         in (evs, request_probe (p_id p) a m1)))"

subsection \<open>Failover and failback\<close>

definition failed_keys :: "manager \<Rightarrow> string list" where
  "failed_keys m =
     concat (map (\<lambda>p. map (\<lambda>v. addr_key (p_id p) (av_address v))
         (filter (\<lambda>v. av_status v = Down) (address_healths (m_health m) p))) (sn_pools (m_snap m)))"

definition session_key :: "session \<Rightarrow> string" where
  "session_key s = u_pool_id (s_up s) @ ''|'' @ to_lower (u_addr (s_up s))"

definition check_failover :: "string \<Rightarrow> (nat list \<Rightarrow> nat list) \<Rightarrow> manager \<Rightarrow> manager_event list \<times> manager" where
  "check_failover reason shuffle m =
     (if rg_draining (m_reg m) then ([], m)
      else
        (let failed = failed_keys m; p = (\<lambda>s. session_key s \<in> set failed) in
         if count_where p (m_reg m) = 0 then ([], m)
         else (case drain_sessions shuffle p (''failover: '' @ reason) m of (n, m') \<Rightarrow> ([Failover n], m'))))"

definition check_failback :: "time \<Rightarrow> (nat list \<Rightarrow> nat list) \<Rightarrow> manager \<Rightarrow> manager_event list \<times> manager" where
  "check_failback now shuffle m =
     (let s = m_snap m; v = m_settings m in
      if sn_active s = [] then ([], m)
      else
        (let h = pool_health_of m (sn_active s); p = (\<lambda>x. session_pool x \<noteq> sn_active s) in
         if h_status h \<noteq> Up \<or> is_zero (h_up_since h) \<or> time_sub now (h_up_since h) < v_failback_delay v then ([], m)
         else if time_sub now (m_last_failback m) < v_failback_delay v \<or> rg_draining (m_reg m) then ([], m)
         else if count_where p (m_reg m) = 0 then ([], m)
         else
           (case drain_sessions shuffle p (''failback to '' @ snap_name s (sn_active s)) (m\<lparr>m_last_failback := now\<rparr>) of
              (n, m') \<Rightarrow> ([Failback (snap_name s (sn_active s)) n], m'))))"

text \<open>One round of \<open>Run\<close>: checks are started for all addresses or the requested ones.\<close>

definition probe_all :: "bool \<Rightarrow> time \<Rightarrow> manager \<Rightarrow> manager" where
  "probe_all down now m = on_addresses (\<lambda>p a m. snd (start_probe down now p a m)) (sn_pools (m_snap m)) m"

definition probe_requested :: "bool \<Rightarrow> time \<Rightarrow> manager \<Rightarrow> manager" where
  "probe_requested down now m =
     (let pending = m_pending m in
      on_addresses (\<lambda>p a m. if addr_key (p_id p) a \<in> set pending then snd (start_probe down now p a m) else m)
        (sn_pools (m_snap m)) m)"

definition run_round :: "time \<Rightarrow> string \<Rightarrow> (nat list \<Rightarrow> nat list) \<Rightarrow> manager \<Rightarrow> manager_event list \<times> manager" where
  "run_round now reason shuffle m =
     (let m1 = (if v_pool_probe_interval (m_settings m) \<le> time_sub now (m_last_probe m)
                then probe_all False now (m\<lparr>m_last_probe := now\<rparr>) else m);
          m2 = probe_requested False now m1;
          (evs, m3) = check_failover reason shuffle m2;
          (evs', m4) = check_failback now shuffle m3
      in (evs @ evs', m4))"

subsection \<open>Lemmas\<close>

subsection \<open>The invariant of the manager\<close>

text \<open>The snapshot is what the store holds, the state is valid, and the registry is a reachable one.\<close>

definition manager_inv :: "manager \<Rightarrow> bool" where
  "manager_inv m \<longleftrightarrow> wf_file (st_cur (m_store m)) \<and> m_snap m = snapshot_of (st_cur (m_store m)) \<and> reg_inv (m_reg m)"

lemma snapshot_clone: "wf_file f \<Longrightarrow> snapshot_of (clone f) = snapshot_of f"
  by (simp add: wf_file_def clone_valid snapshot_of_def)

lemma manager_inv_new: "wf_file (st_cur st) \<Longrightarrow> reg_inv reg \<Longrightarrow> manager_inv (new_manager st v reg)"
  by (simp add: manager_inv_def new_manager_def current_def snapshot_clone)

lemma on_health_simps [simp]:
  "m_store (snd (on_health f m)) = m_store m" "m_snap (snd (on_health f m)) = m_snap m" "m_reg (snd (on_health f m)) = m_reg m"
  "m_settings (snd (on_health f m)) = m_settings m" "m_health (snd (on_health f m)) = snd (f (m_health m))"
  by (simp_all add: on_health_def split: prod.split)

lemma manager_inv_health [inv_intros]: "manager_inv m \<Longrightarrow> manager_inv (snd (on_health f m))"
  by (simp add: manager_inv_def)

lemma manager_inv_fields [simp]:
  "manager_inv (m\<lparr>m_health := hs\<rparr>) = manager_inv m" "manager_inv (m\<lparr>m_last_switch := sw\<rparr>) = manager_inv m"
  "manager_inv (m\<lparr>m_last_failback := t\<rparr>) = manager_inv m" "manager_inv (m\<lparr>m_last_probe := t\<rparr>) = manager_inv m"
  "manager_inv (m\<lparr>m_probes := ps\<rparr>) = manager_inv m" "manager_inv (m\<lparr>m_busy := bs\<rparr>) = manager_inv m"
  "manager_inv (m\<lparr>m_pending := qs\<rparr>) = manager_inv m" "manager_inv (m\<lparr>m_settings := v\<rparr>) = manager_inv m"
  by (simp_all add: manager_inv_def)

lemma manager_inv_drain [inv_intros]: "manager_inv m \<Longrightarrow> manager_inv (snd (drain_sessions sh p reason m))"
  using reg_inv_start [of "m_reg m" sh p reason]
  by (auto simp: manager_inv_def drain_sessions_def split: prod.splits)

lemma manager_inv_reg: "manager_inv m \<Longrightarrow> reg_step (m_reg m) r \<Longrightarrow> manager_inv (m\<lparr>m_reg := r\<rparr>)"
  by (simp add: manager_inv_def reg_inv_step)

text \<open>The closures change neither the settings in the file nor its version.\<close>

definition keeps_rest :: "(state_file \<Rightarrow> go_error + state_file \<times> 'a) \<Rightarrow> bool" where
  "keeps_rest fn \<longleftrightarrow> (\<forall>f f' a. fn f = Inr (f', a) \<longrightarrow> f_settings f' = f_settings f \<and> f_version f' = f_version f)"

lemma closures_keep_rest [simp, intro]:
  "keeps_rest (create_in i)" "keeps_rest (update_in j i)" "keeps_rest (delete_in j)" "keeps_rest (fallback_in js)"
  "keeps_rest (profit_home_in j)" "keeps_rest (activate_in j c fb n)"
proof -
  show "keeps_rest (create_in i)"
    by (auto simp: keeps_rest_def create_in_def Let_def split: sum.splits option.splits if_splits)
  show "keeps_rest (update_in j i)"
    by (auto simp: keeps_rest_def update_in_def split: sum.splits option.splits)
  show "keeps_rest (delete_in j)" by (auto simp: keeps_rest_def delete_in_def split: option.splits if_splits)
  show "keeps_rest (fallback_in js)" by (auto simp: keeps_rest_def fallback_in_def split: sum.splits)
  show "keeps_rest (profit_home_in j)" by (auto simp: keeps_rest_def dest: profit_home_in_file)
  show "keeps_rest (activate_in j c fb n)"
    by (auto simp: keeps_rest_def activate_in_def Let_def split: option.splits if_splits)
qed

text \<open>A transaction of the manager, split into its failure and its success.\<close>

lemma transact_cases:
  assumes "transact fn w m = (r, m')" "manager_inv m" "keeps_rest fn"
  obtains e where "r = Inl e" "m' = m"
  | a f where "r = Inr a" "fn (clone (st_cur (m_store m))) = Inr (f, a)" "wf_file f" "w"
      "m' = m\<lparr>m_store := \<lparr>st_cur = f, st_disk = Some (encode_file f)\<rparr>, m_snap := snapshot_of f\<rparr>"
proof -
  obtain r0 st where t: "mutate fn w (m_store m) = (r0, st)" by fastforce
  have wf: "wf_file (clone (st_cur (m_store m)))" using assms(2) wf_file_clone by (simp add: manager_inv_def)
  from t show ?thesis
  proof (rule mutate_cases)
    fix e assume "r0 = Inl e" "st = m_store m"
    then show ?thesis using that(1) [of "persist_err e"] assms(1) t by (auto simp: transact_def)
  next
    fix f a assume a: "r0 = Inr a" "fn (clone (st_cur (m_store m))) = Inr (f, a)" "valid_file f" "w"
      "st = \<lparr>st_cur = f, st_disk = Some (encode_file f)\<rparr>"
    then have "f_settings f = f_settings (clone (st_cur (m_store m)))" "f_version f = f_version (clone (st_cur (m_store m)))"
      using assms(3) unfolding keeps_rest_def by blast+
    then have "wf_file f" using a(3) wf by (simp add: wf_file_def)
    then show ?thesis using that(2) [of a f] a assms(1) t snapshot_clone [of f] by (auto simp: transact_def)
  qed
qed

lemma transact_inv: "transact fn w m = (r, m') \<Longrightarrow> manager_inv m \<Longrightarrow> keeps_rest fn \<Longrightarrow> manager_inv m'"
  by (erule transact_cases) (auto simp: manager_inv_def)

lemma transact_snd_inv: "manager_inv m \<Longrightarrow> keeps_rest fn \<Longrightarrow> manager_inv (snd (transact fn w m))"
  using transact_inv [of fn w m "fst (transact fn w m)" "snd (transact fn w m)"] by simp

lemma inv_drain: "drain_sessions sh p reason m = (n, m') \<Longrightarrow> manager_inv m \<Longrightarrow> manager_inv m'"
  using manager_inv_drain [of m sh p reason] by simp

lemma inv_health: "on_health f m = (evs, m') \<Longrightarrow> manager_inv m \<Longrightarrow> manager_inv m'"
  using manager_inv_health [of m f] by simp

lemmas manager_inv_steps = inv_drain inv_health transact_inv

lemma activate_commit_inv:
  assumes "manager_inv m" "activate_commit i force reason fb cap w sh now m = (r, evs, m')"
  shows "manager_inv m'"
proof -
  obtain p version tw where cap: "cap = (p, version, tw)" by (metis prod.exhaust)
  show ?thesis using assms unfolding activate_commit_def cap Let_def prod.case
    by (auto split: option.splits sum.splits prod.splits if_splits dest!: transact_inv inv_drain)
qed

lemma edits_inv:
  "manager_inv m \<Longrightarrow> manager_inv (snd (snd (create_pool i w m)))"
  "manager_inv m \<Longrightarrow> manager_inv (snd (snd (update_pool j i rc w sh m)))"
  "manager_inv m \<Longrightarrow> manager_inv (snd (snd (delete_pool j w sh m)))"
  "manager_inv m \<Longrightarrow> manager_inv (snd (snd (set_fallback js w m)))"
  "manager_inv m \<Longrightarrow> manager_inv (snd (snd (set_profit_home j w m)))"
  by (auto simp: create_pool_def update_pool_def delete_pool_def set_fallback_def set_profit_home_def Let_def
      split: sum.splits prod.splits if_splits dest!: transact_inv inv_drain inv_health)

lemma fold_inv: "(\<And>x m. manager_inv m \<Longrightarrow> manager_inv (f x m)) \<Longrightarrow> manager_inv m \<Longrightarrow> manager_inv (fold f xs m)"
  by (induction xs arbitrary: m) auto

lemma on_addresses_inv:
  "(\<And>p a m. manager_inv m \<Longrightarrow> manager_inv (f p a m)) \<Longrightarrow> manager_inv m \<Longrightarrow> manager_inv (on_addresses f ps m)"
  unfolding on_addresses_def by (intro fold_inv) auto

lemma start_probe_inv [inv_intros]: "manager_inv m \<Longrightarrow> manager_inv (snd (start_probe down now p a m))"
  by (simp add: start_probe_def Let_def)

lemma request_probe_inv [inv_intros]: "manager_inv m \<Longrightarrow> manager_inv (request_probe i a m)"
  by (simp add: request_probe_def)

lemma settings_changed_inv [inv_intros]: "manager_inv m \<Longrightarrow> manager_inv (settings_changed v m)"
  by (auto simp: settings_changed_def Let_def intro!: on_addresses_inv request_probe_inv)

lemma session_failure_inv: "manager_inv m \<Longrightarrow> manager_inv (snd (session_failure p a k err now m))"
  by (auto simp: session_failure_def Let_def split: prod.splits if_splits intro!: request_probe_inv dest!: inv_health)

lemma failover_inv: "manager_inv m \<Longrightarrow> manager_inv (snd (check_failover reason sh m))"
  by (auto simp: check_failover_def Let_def split: prod.splits dest!: inv_drain)

lemma failback_inv: "manager_inv m \<Longrightarrow> manager_inv (snd (check_failback now sh m))"
  using manager_inv_fields(3) by (auto simp: check_failback_def Let_def split: prod.splits dest!: inv_drain)

text \<open>All steps on the manager: the sections of its operations, in any order, and the steps of the
  sessions and drains it shares the registry with.\<close>

inductive manager_step :: "manager \<Rightarrow> manager \<Rightarrow> bool" where
  create: "manager_step m (snd (snd (create_pool i w m)))"
| update: "manager_step m (snd (snd (update_pool j i rc w sh m)))"
| delete: "manager_step m (snd (snd (delete_pool j w sh m)))"
| fallback: "manager_step m (snd (snd (set_fallback js w m)))"
| profit_home: "manager_step m (snd (snd (set_profit_home j w m)))"
| activate: "activate_commit i force reason fb cap w sh now m = (r, evs, m') \<Longrightarrow> manager_step m m'"
| reconnect: "manager_step m (snd (reconnect_all sh m))"
| settings: "manager_step m (settings_changed v m)"
| probe: "manager_step m (snd (start_probe down now p a m))"
| recorded: "manager_step m (snd (record_check cancelled p a tw version rtt err now m))"
| release: "manager_step m (release_gate p a m)"
| dialed: "manager_step m (snd (on_health (dial_result p a err now) m))"
| failure: "manager_step m (snd (session_failure p a kind err now m))"
| failover: "manager_step m (snd (check_failover reason sh m))"
| failback: "manager_step m (snd (check_failback now sh m))"
| sessions: "reg_step (m_reg m) r \<Longrightarrow> manager_step m (m\<lparr>m_reg := r\<rparr>)"

inductive_cases manager_stepE: "manager_step m m'"

lemma manager_step_inv: "manager_step m m' \<Longrightarrow> manager_inv m \<Longrightarrow> manager_inv m'"
proof (induction rule: manager_step.induct)
  case (activate i force reason fb cap w sh now m r evs m')
  then show ?case using activate_commit_inv by blast
qed (simp_all add: edits_inv settings_changed_inv start_probe_inv record_check_def manager_inv_health release_gate_def
    session_failure_inv failover_inv failback_inv reconnect_all_def manager_inv_drain manager_inv_reg)

lemma manager_steps_inv: "manager_step\<^sup>*\<^sup>* m m' \<Longrightarrow> manager_inv m \<Longrightarrow> manager_inv m'"
  by (induction rule: rtranclp_induct) (auto intro: manager_step_inv)

subsection \<open>Routing\<close>

lemma candidates_set:
  "p \<in> set (candidates m s) \<longleftrightarrow>
     (\<exists>i \<in> set (sn_active s # sn_fallback s). i \<noteq> [] \<and> snap_get s i = Some p \<and> pool_status m i \<noteq> Down)"
  by (auto simp: candidates_def List.map_filter_def image_iff split: option.splits if_splits)

lemma candidates_order:
  "map p_id (candidates m s) = filter (\<lambda>i. i \<noteq> [] \<and> snap_get s i \<noteq> None \<and> pool_status m i \<noteq> Down) (sn_active s # sn_fallback s)"
proof -
  have id: "snap_get s i = Some p \<Longrightarrow> p_id p = i" for i p by (auto simp: snap_get_def dest: find_pool_iff)
  have "map p_id (List.map_filter (\<lambda>i. if i = [] then None
         else (case snap_get s i of None \<Rightarrow> None | Some p \<Rightarrow> if pool_status m i = Down then None else Some p)) is) =
      filter (\<lambda>i. i \<noteq> [] \<and> snap_get s i \<noteq> None \<and> pool_status m i \<noteq> Down) is" for "is"
    by (induction "is") (auto simp: List.map_filter_simps id split: option.splits)
  then show ?thesis unfolding candidates_def .
qed

text \<open>The dials of a pick that failed, and how the loops use the network.\<close>

lemma pick_addresses_spec:
  assumes "pick_addresses net p as k m = (r, k', evs, m')"
  shows "(case r of
      Some (Picked u q a) \<Rightarrow> q = p \<and> u = upstream_of p a \<and> (\<exists>i < length as. a = as ! i \<and> k' = k + i + 1 \<and> at_error (net (k + i)) = None \<and>
        (\<forall>j < i. at_error (net (k + j)) \<noteq> None))
    | Some BudgetExhausted \<Rightarrow> at_late (net k') \<and> k \<le> k' \<and> k' < k + length as \<and> (\<forall>j. k \<le> j \<and> j < k' \<longrightarrow> at_error (net j) \<noteq> None)
    | Some NoneReachable \<Rightarrow> False
    | None \<Rightarrow> k' = k + length as \<and> (\<forall>j < length as. at_error (net (k + j)) \<noteq> None))"
  using assms
proof (induction net p as k m arbitrary: r k' evs m' rule: pick_addresses.induct)
  case (2 net p a as k m)
  show ?case
  proof (cases "at_late (net k)")
    case True
    then show ?thesis using 2(2) by (auto simp: Let_def)
  next
    case False
    define m1 where "m1 = at_others (net k) m"
    obtain ev2 m2 where m2: "(if still_has m1 p a \<and> (\<not> at_late_after (net k) \<or> at_error (net k) = None)
        then on_health (dial_result p a (at_error (net k)) (at_time (net k))) m1 else ([], m1)) = (ev2, m2)" by fastforce
    have eq: "pick_addresses net p (a # as) k m =
        (if at_error (net k) = None then (Some (Picked (upstream_of p a) p a), Suc k, ev2, m2)
         else (case pick_addresses net p as (Suc k) m2 of (r, k', evs', m') \<Rightarrow> (r, k', ev2 @ evs', m')))"
      by (subst pick_addresses.simps) (simp only: Let_def False if_False m1_def [symmetric] m2 prod.case)
    show ?thesis
    proof (cases "at_error (net k)")
      case None
      then show ?thesis using 2(2) eq by auto
    next
      case (Some e)
      obtain ev3 where rest: "pick_addresses net p as (Suc k) m2 = (r, k', ev3, m')"
        using 2(2) Some unfolding eq by (auto split: prod.splits)
      note ih = 2(1) [OF refl False m1_def m2 [symmetric] refl _ rest]
      have shift: "(\<forall>j. Suc k \<le> j \<and> j < n \<longrightarrow> P j) \<and> P k \<Longrightarrow> k \<le> j \<and> j < n \<Longrightarrow> P j" for j n and P :: "nat \<Rightarrow> bool"
        by (cases "j = k") auto
      show ?thesis
      proof (cases r)
        case None
        then show ?thesis using ih Some by (auto simp: less_Suc_eq_0_disj)
      next
        case r: (Some x)
        show ?thesis
        proof (cases x)
          case (Picked u q b)
          then obtain i where i: "q = p" "u = upstream_of p b" "i < length as" "b = as ! i" "k' = Suc k + i + 1"
            "at_error (net (Suc k + i)) = None" "\<forall>j < i. at_error (net (Suc k + j)) \<noteq> None"
            using ih r Some by auto
          then show ?thesis using r Picked Some by (auto intro!: exI [of _ "Suc i"] simp: less_Suc_eq_0_disj)
        next
          case NoneReachable
          then show ?thesis using ih r Some by auto
        next
          case BudgetExhausted
          then show ?thesis using ih r Some shift [of k' "\<lambda>j. at_error (net j) \<noteq> None"] by auto
        qed
      qed
    qed
  qed
qed simp

lemma ordered_addresses_subset: "a \<in> set (ordered_addresses hs p) \<Longrightarrow> a \<in> set (p_addresses p) \<and> \<not> addr_down hs (addr_key (p_id p) a)"
proof -
  assume "a \<in> set (ordered_addresses hs p)"
  then have "a \<in> set (map cd_address (address_cands hs p))" by (simp add: ordered_addresses_def)
  then show ?thesis unfolding address_cands_addresses by simp
qed

lemma pick_from_spec:
  "pick_from net ps k m = (r, evs, m') \<Longrightarrow>
    (case r of
      Picked u p a \<Rightarrow> (\<exists>pre post n. ps = pre @ p # post \<and> a \<in> set (p_addresses p) \<and> u = upstream_of p a \<and>
        k \<le> n \<and> at_error (net n) = None \<and> (\<forall>j. k \<le> j \<and> j < n \<longrightarrow> at_error (net j) \<noteq> None))
    | BudgetExhausted \<Rightarrow> (\<exists>n. k \<le> n \<and> at_late (net n) \<and> (\<forall>j. k \<le> j \<and> j < n \<longrightarrow> at_error (net j) \<noteq> None))
    | NoneReachable \<Rightarrow> (\<exists>n. k \<le> n \<and> (\<forall>j. k \<le> j \<and> j < n \<longrightarrow> at_error (net j) \<noteq> None)))"
proof (induction ps arbitrary: k m r evs m')
  case (Cons p ps)
  define as where "as = ordered_addresses (m_health m) p"
  obtain r1 k1 ev1 m1 where a: "pick_addresses net p as k m = (r1, k1, ev1, m1)" by (metis prod.exhaust)
  note first_pool = pick_addresses_spec [OF a]
  show ?case
  proof (cases r1)
    case None
    then have k1: "k1 = k + length as" "\<forall>j < length as. at_error (net (k + j)) \<noteq> None" using first_pool by auto
    obtain ev2 where rest: "pick_from net ps k1 m1 = (r, ev2, m')"
      using Cons.prems a None by (auto simp: as_def split: prod.splits)
    have ext: "k \<le> j \<Longrightarrow> j < n \<Longrightarrow> at_error (net j) \<noteq> None"
      if "\<forall>j. k1 \<le> j \<and> j < n \<longrightarrow> at_error (net j) \<noteq> None" for j n
    proof (cases "j < k1")
      case True
      then show "k \<le> j \<Longrightarrow> j < n \<Longrightarrow> at_error (net j) \<noteq> None" using k1 by (auto dest: spec [of _ "j - k"])
    qed (use that in auto)
    show ?thesis
    proof (cases r)
      case (Picked u q b)
      then obtain pre post n where *: "ps = pre @ q # post" "b \<in> set (p_addresses q)" "u = upstream_of q b"
        "k1 \<le> n" "at_error (net n) = None" "\<forall>j. k1 \<le> j \<and> j < n \<longrightarrow> at_error (net j) \<noteq> None"
        using Cons.IH [OF rest] by auto
      have "\<exists>pre post. p # ps = pre @ q # post" using *(1) by (metis append_Cons)
      moreover have "\<exists>n. k \<le> n \<and> at_error (net n) = None \<and> (\<forall>j. k \<le> j \<and> j < n \<longrightarrow> at_error (net j) \<noteq> None)"
        using *(4,5) ext [OF *(6)] k1(1) by (intro exI [of _ n]) auto
      ultimately show ?thesis using Picked *(2,3) by simp
    next
      case NoneReachable
      then show ?thesis by auto
    next
      case BudgetExhausted
      then obtain n where *: "k1 \<le> n" "at_late (net n)" "\<forall>j. k1 \<le> j \<and> j < n \<longrightarrow> at_error (net j) \<noteq> None"
        using Cons.IH [OF rest] by auto
      then show ?thesis using BudgetExhausted k1(1) ext [OF *(3)] by (auto intro!: exI [of _ n])
    qed
  next
    case r1: (Some x)
    then have r: "r = x" using Cons.prems a by (auto simp: as_def)
    show ?thesis
    proof (cases x)
      case (Picked u q b)
      then obtain i where i: "q = p" "u = upstream_of p b" "i < length as" "b = as ! i" "at_error (net (k + i)) = None"
        "\<forall>j < i. at_error (net (k + j)) \<noteq> None" using first_pool r1 by auto
      then have "b \<in> set (p_addresses p)" using ordered_addresses_subset [of b "m_health m" p] by (simp add: as_def)
      moreover have "\<forall>j. k \<le> j \<and> j < k + i \<longrightarrow> at_error (net j) \<noteq> None"
        using i(6) by (metis add_diff_inverse_nat add_less_cancel_left linorder_not_less)
      moreover have "\<exists>pre post. p # ps = pre @ p # post" by blast
      ultimately have "\<exists>pre post. p # ps = pre @ p # post"
        "\<exists>n. k \<le> n \<and> at_error (net n) = None \<and> (\<forall>j. k \<le> j \<and> j < n \<longrightarrow> at_error (net j) \<noteq> None)" "b \<in> set (p_addresses p)"
        using i(5) by (blast, intro exI [of _ "k + i"], simp_all)
      then show ?thesis using r Picked i(1,2) by simp
    next
      case NoneReachable
      then show ?thesis using first_pool r1 by auto
    next
      case BudgetExhausted
      then show ?thesis using first_pool r1 r by (auto intro!: exI [of _ k1])
    qed
  qed
qed auto

lemma transact_error:
  assumes "transact fn w m = (Inl e, m')" "manager_inv m" "keeps_rest fn"
    and "\<And>f' a. fn (clone (st_cur (m_store m))) = Inr (f', a) \<Longrightarrow> valid_file f'"
  shows "m' = m \<and> (fn (clone (st_cur (m_store m))) = Inl (ApiErr e) \<or> (\<exists>g. fn (clone (st_cur (m_store m))) = Inl g \<and> e = persist_err g) \<or>
    e = internal (Msg ''state_save_failed'' []) \<and> \<not> w)"
proof -
  have "m' = m" using assms(1-3) by (rule transact_cases) simp_all
  moreover obtain g where "mutate fn w (m_store m) = (Inl g, m_store m)" "e = persist_err g"
    using assms(1) mutate_cases [of fn w "m_store m"] by (auto simp: transact_def split: prod.splits sum.splits)
  ultimately show ?thesis using assms(4)
    by (auto simp: mutate_def check_iff_valid [symmetric] persist_err_def split: sum.splits option.splits if_splits prod.splits)
qed

definition api_refusal :: "go_error \<Rightarrow> bool" where
  "api_refusal g \<longleftrightarrow> (\<exists>e. g = ApiErr e \<and> ae_status e \<in> {400, 404, 409, 422})"

lemma transact_refused:
  assumes "transact fn w m = (Inl e, m')" "manager_inv m" "keeps_rest fn"
    and "\<forall>f' a. fn (clone (st_cur (m_store m))) = Inr (f', a) \<longrightarrow> valid_file f'"
    and "\<forall>g. fn (clone (st_cur (m_store m))) = Inl g \<longrightarrow> api_refusal g"
  shows "m' = m \<and> (ae_status e \<in> {400, 404, 409, 422} \<or> ae_status e = 500 \<and> \<not> w)"
proof -
  have "m' = m \<and> (fn (clone (st_cur (m_store m))) = Inl (ApiErr e) \<or>
      (\<exists>g. fn (clone (st_cur (m_store m))) = Inl g \<and> e = persist_err g) \<or> e = internal (Msg ''state_save_failed'' []) \<and> \<not> w)"
    using assms(4) by (intro transact_error [OF assms(1-3)]) blast
  then show ?thesis using assms(5) by (auto simp: api_refusal_def persist_err_def internal_def)
qed

lemmas error_defs = validation_def not_found_def conflict_def pool_check_failed_def pool_not_found_def invalid_pool_def

lemma fallback_names_error: "fallback_names f seen js = Inl e \<Longrightarrow> ae_status e = 400"
  by (induction f seen js rule: fallback_names.induct) (auto simp: error_defs split: option.splits if_splits sum.splits)

lemma validate_error: "validate p = Inl e \<Longrightarrow> ae_status e = 400"
  by (auto simp: validate_def Let_def error_defs split: if_splits)

lemma check_name_error: "check_name f p = Some e \<Longrightarrow> ae_status e = 400"
  by (auto simp: check_name_def error_defs split: if_splits)

lemma closures_refuse:
  "create_in i f = Inl g \<Longrightarrow> api_refusal g" "update_in j i f = Inl g \<Longrightarrow> api_refusal g" "delete_in j f = Inl g \<Longrightarrow> api_refusal g"
  "fallback_in js f = Inl g \<Longrightarrow> api_refusal g" "profit_home_in j f = Inl g \<Longrightarrow> api_refusal g"
  "activate_in j c fb n f = Inl g \<Longrightarrow> api_refusal g"
proof -
  show "create_in i f = Inl g \<Longrightarrow> api_refusal g"
    by (auto simp: create_in_def Let_def api_refusal_def error_defs dest: validate_error check_name_error
        split: sum.splits option.splits if_splits)
  show "update_in j i f = Inl g \<Longrightarrow> api_refusal g"
    by (auto simp: update_in_def api_refusal_def dest: validate_error check_name_error split: sum.splits option.splits)
      (simp add: error_defs)
  show "delete_in j f = Inl g \<Longrightarrow> api_refusal g"
    by (auto simp: delete_in_def api_refusal_def error_defs split: option.splits if_splits)
  show "fallback_in js f = Inl g \<Longrightarrow> api_refusal g"
    by (auto simp: fallback_in_def api_refusal_def dest: fallback_names_error split: sum.splits)
  show "profit_home_in j f = Inl g \<Longrightarrow> api_refusal g"
    by (auto simp: profit_home_in_def Let_def api_refusal_def error_defs split: option.splits if_splits)
  show "activate_in j c fb n f = Inl g \<Longrightarrow> api_refusal g"
    by (auto simp: activate_in_def Let_def api_refusal_def error_defs split: option.splits if_splits)
qed

subsection \<open>Properties\<close>

text \<open>C1: whatever operations, checks, dials, sessions and drains do, in any order, the state of the
  manager passes the validation, its snapshot shows exactly that state, and the registry is draining
  just while its newest drain runs.\<close>

theorem manager_state_stays_valid:
  assumes "wf_file (st_cur st)" "reachable_registry reg" "manager_step\<^sup>*\<^sup>* (new_manager st v reg) m"
  shows "check (st_cur (m_store m)) = None \<and> m_snap m = snapshot_of (st_cur (m_store m)) \<and>
    (sn_active (m_snap m) \<noteq> [] \<longrightarrow> snap_get (m_snap m) (sn_active (m_snap m)) \<noteq> None) \<and>
    (\<forall>i \<in> set (sn_fallback (m_snap m)). snap_get (m_snap m) i \<noteq> None \<and> i \<noteq> sn_active (m_snap m)) \<and>
    (rg_draining (m_reg m) \<longleftrightarrow> has_key (rg_drains (m_reg m)) (rg_gen (m_reg m)))"
proof -
  have "manager_inv m"
    using manager_steps_inv [OF assms(3) manager_inv_new [OF assms(1) reachable_inv [OF assms(2)]]] .
  then have i: "valid_file (st_cur (m_store m))" "m_snap m = snapshot_of (st_cur (m_store m))" "reg_inv (m_reg m)"
    by (simp_all add: manager_inv_def wf_file_def)
  then show ?thesis
    by (auto simp: check_iff_valid snapshot_of_def snap_get_def find_pool_none valid_file_simps reg_inv_def simp del: not_None_eq)
qed

lemma wf_two_pools: "wf_file two_pools"
  using two_pools_valid by (simp add: wf_file_def) (simp add: two_pools_def empty_file_def zero_file_def has_key_def)

definition example_manager :: manager where
  "example_manager = new_manager \<lparr>st_cur = two_pools, st_disk = None\<rparr> defaults (reg_add example_session new_registry)"

lemma example_registry: "reachable_registry (reg_add example_session new_registry)"
  by (rule reachable_registry.step [OF reachable_registry.init reg_step.add])

lemma example_manager_inv: "manager_inv example_manager"
  unfolding example_manager_def using wf_two_pools reachable_inv [OF example_registry] by (intro manager_inv_new) simp_all

theorem manager_state_stays_valid_witness:
  "check (st_cur (m_store (snd (snd (set_fallback [''alt''] True example_manager))))) = None"
proof -
  have "manager_step\<^sup>*\<^sup>* example_manager (snd (snd (set_fallback [''alt''] True example_manager)))"
    by (rule r_into_rtranclp) (rule manager_step.fallback)
  from manager_state_stays_valid [OF _ example_registry this [unfolded example_manager_def]] wf_two_pools
  show ?thesis by (simp add: example_manager_def)
qed

text \<open>A failed edit or switch changes nothing, logs nothing and says why: its status is 400, 404, 409
  or 422 for a request refused by the checks of the operation, and 500 only if the state could not be
  written.\<close>

theorem failed_edit_changes_nothing:
  assumes "manager_inv m" "length (f_pools (st_cur (m_store m))) < 999999"
    and "create_pool i w m = (Inl e, evs, m') \<or> update_pool j i rc w sh m = (Inl e, evs, m') \<or>
      delete_pool j w sh m = (Inl e, evs, m') \<or> set_fallback js w m = (Inl e, evs, m') \<or>
      set_profit_home j w m = (Inl e, evs, m') \<or> activate_commit j force reason fb cap w sh now m = (Inl e, evs, m')"
  shows "m' = m \<and> evs = [] \<and> (ae_status e \<in> {400, 404, 409, 422} \<or> ae_status e = 500 \<and> \<not> w)"
proof -
  let ?f = "clone (st_cur (m_store m))"
  have f: "valid_file ?f" "length (f_pools ?f) < 999999"
    using assms(1,2) by (auto simp: manager_inv_def wf_file_def clone_valid)
  from assms(3) show ?thesis
  proof (elim disjE)
    assume "create_pool i w m = (Inl e, evs, m')"
    then have "transact (create_in i) w m = (Inl e, m')" "evs = []" by (auto simp: create_pool_def split: sum.splits prod.splits)
    moreover have "\<forall>f' a. create_in i ?f = Inr (f', a) \<longrightarrow> valid_file f'" "\<forall>g. create_in i ?f = Inl g \<longrightarrow> api_refusal g"
      using create_in_valid [OF f] closures_refuse(1) by blast+
    ultimately show ?thesis using transact_refused [OF _ assms(1) closures_keep_rest(1)] by simp
  next
    assume "update_pool j i rc w sh m = (Inl e, evs, m')"
    then have "transact (update_in j i) w m = (Inl e, m')" "evs = []"
      by (auto simp: update_pool_def Let_def split: sum.splits prod.splits if_splits)
    moreover have "\<forall>f' a. update_in j i ?f = Inr (f', a) \<longrightarrow> valid_file f'" "\<forall>g. update_in j i ?f = Inl g \<longrightarrow> api_refusal g"
      using update_in_valid [OF f(1)] closures_refuse(2) by blast+
    ultimately show ?thesis using transact_refused [OF _ assms(1) closures_keep_rest(2)] by simp
  next
    assume "delete_pool j w sh m = (Inl e, evs, m')"
    then have "transact (delete_in j) w m = (Inl e, m')" "evs = []"
      by (auto simp: delete_pool_def Let_def split: sum.splits prod.splits)
    moreover have "\<forall>f' a. delete_in j ?f = Inr (f', a) \<longrightarrow> valid_file f'" "\<forall>g. delete_in j ?f = Inl g \<longrightarrow> api_refusal g"
      using delete_in_valid [OF f(1)] closures_refuse(3) by blast+
    ultimately show ?thesis using transact_refused [OF _ assms(1) closures_keep_rest(3)] by simp
  next
    assume "set_fallback js w m = (Inl e, evs, m')"
    then have "transact (fallback_in js) w m = (Inl e, m')" "evs = []" by (auto simp: set_fallback_def split: sum.splits prod.splits)
    moreover have "\<forall>f' a. fallback_in js ?f = Inr (f', a) \<longrightarrow> valid_file f'" "\<forall>g. fallback_in js ?f = Inl g \<longrightarrow> api_refusal g"
      using fallback_in_valid [OF f(1)] closures_refuse(4) by blast+
    ultimately show ?thesis using transact_refused [OF _ assms(1) closures_keep_rest(4)] by simp
  next
    assume "set_profit_home j w m = (Inl e, evs, m')"
    then have "transact (profit_home_in j) w m = (Inl e, m')" "evs = []" by (auto simp: set_profit_home_def split: sum.splits prod.splits)
    moreover have "\<forall>f' a. profit_home_in j ?f = Inr (f', a) \<longrightarrow> valid_file f'" "\<forall>g. profit_home_in j ?f = Inl g \<longrightarrow> api_refusal g"
      using profit_home_in_valid [OF f(1)] closures_refuse(5) by blast+
    ultimately show ?thesis using transact_refused [OF _ assms(1) closures_keep_rest(5)] by simp
  next
    assume a: "activate_commit j force reason fb cap w sh now m = (Inl e, evs, m')"
    obtain p version tw where cap: "cap = (p, version, tw)" by (metis prod.exhaust)
    from a consider "m' = m" "evs = []" "ae_status e \<in> {404, 422}"
      | b name where "transact (activate_in j b fb name) w m = (Inl e, m')" "evs = []"
      unfolding activate_commit_def cap Let_def prod.case
      by (auto simp: check_failed_def error_defs split: option.splits sum.splits prod.splits if_splits)
    then show ?thesis
    proof cases
      case 2
      moreover have "\<forall>f' a. activate_in j b fb name ?f = Inr (f', a) \<longrightarrow> valid_file f'" "\<forall>g. activate_in j b fb name ?f = Inl g \<longrightarrow> api_refusal g"
        using activate_in_valid [OF f(1)] closures_refuse(6) by blast+
      ultimately show ?thesis using transact_refused [OF _ assms(1) closures_keep_rest(6)] by simp
    qed auto
  qed
qed

theorem failed_edit_changes_nothing_witness:
  "\<exists>e evs m'. delete_pool ''btc'' True (\<lambda>xs. xs) example_manager = (Inl e, evs, m') \<and> m' = example_manager \<and> evs = []"
proof -
  have c: "clone two_pools = two_pools"
    using wf_two_pools by (simp add: wf_file_def clone_valid) (simp add: two_pools_def empty_file_def zero_file_def normal_map_def)
  have "find_pool (f_pools two_pools) ''btc'' \<noteq> None"
    by (simp add: two_pools_def find_pool_def zero_pool_def)
  then have "delete_pool ''btc'' True (\<lambda>xs. xs) example_manager =
      (Inl (conflict (Msg ''pool_delete_active'' [])), [], example_manager)"
    using two_pools_find(2)
    by (auto simp: delete_pool_def transact_def mutate_def example_manager_def new_manager_def c delete_in_def persist_err_def)
  moreover have "length (f_pools (st_cur (m_store example_manager))) < 999999"
    using two_pools_find(4) by (simp add: example_manager_def new_manager_def)
  ultimately show ?thesis
    using failed_edit_changes_nothing [OF example_manager_inv, of no_input True
        "conflict (Msg ''pool_delete_active'' [])" "[]" example_manager "''btc''" False "\<lambda>xs. xs" "[]"] by blast
qed



lemma start_drain_count: "fst (start_drain sh p reason r) = length (sh (drain_targets p r))"
  by (simp add: start_drain_def Let_def)

lemma start_drain_gen [simp]: "rg_gen (snd (start_drain sh p reason r)) = rg_gen r + 1"
  by (simp add: start_drain_def Let_def)

lemma start_drain_todo:
  "reg_inv r \<Longrightarrow> sh (drain_targets p r) \<noteq> [] \<Longrightarrow>
     \<exists>d. map_of (rg_drains (snd (start_drain sh p reason r))) (rg_gen r + 1) = Some d \<and> dr_todo d = sh (drain_targets p r) \<and> dr_reason d = reason"
  by (simp add: start_drain_def Let_def)

lemma forget_status: "health_of ps (forget_health i hs) i = \<lparr>h_status = Unknown, h_last_check = zero_time, h_last_error = [], h_up_since = zero_time\<rparr>"
  by (simp add: health_of_def forget_health_def bump_version_def)

lemma bump_version_get: "get_or 0 (hs_versions (bump_version i hs)) j = get_or 0 (hs_versions hs) j + (if j = i then 1 else 0)"
  by (simp add: bump_version_def)

lemma forget_version: "get_or 0 (hs_versions (forget_health i hs)) i = get_or 0 (hs_versions hs) i + 1"
  using bump_version_get [of i hs i] by (simp add: forget_health_def)

lemma refresh_versions [simp]: "hs_versions (snd (refresh_pool p hs)) = hs_versions hs"
  by (simp add: refresh_pool_def Let_def)

lemma addr_changed_versions [simp]: "hs_versions (snd (addr_changed p a f hs)) = hs_versions hs"
proof -
  obtain evs hs' where r: "refresh_pool p (hs\<lparr>hs_addrs := put (addr_key (p_id p) a) (f (addr_entry hs (addr_key (p_id p) a))) (hs_addrs hs)\<rparr>) = (evs, hs')"
    by fastforce
  have "hs_versions hs' = hs_versions hs"
    using refresh_versions [of p "hs\<lparr>hs_addrs := put (addr_key (p_id p) a) (f (addr_entry hs (addr_key (p_id p) a))) (hs_addrs hs)\<rparr>"] r by simp
  then show ?thesis using r by (simp add: addr_changed_def Let_def)
qed

lemma refresh_addrs [simp]: "hs_addrs (snd (refresh_pool p hs)) = hs_addrs hs"
  by (simp add: refresh_pool_def Let_def)

lemma addr_changed_entry:
  "map_of (hs_addrs (snd (addr_changed p a f hs))) (addr_key (p_id p) a) = Some (f (addr_entry hs (addr_key (p_id p) a)))"
proof -
  obtain evs hs' where r: "refresh_pool p (hs\<lparr>hs_addrs := put (addr_key (p_id p) a) (f (addr_entry hs (addr_key (p_id p) a))) (hs_addrs hs)\<rparr>) = (evs, hs')"
    by fastforce
  have "hs_addrs hs' = put (addr_key (p_id p) a) (f (addr_entry hs (addr_key (p_id p) a))) (hs_addrs hs)"
    using refresh_addrs [of p "hs\<lparr>hs_addrs := put (addr_key (p_id p) a) (f (addr_entry hs (addr_key (p_id p) a))) (hs_addrs hs)\<rparr>"] r by simp
  then show ?thesis using r by (simp add: addr_changed_def Let_def)
qed

lemma pool_edited_version: "p_id old = p_id new \<Longrightarrow> get_or 0 (hs_versions (snd (pool_edited old new hs))) (p_id new) = get_or 0 (hs_versions hs) (p_id new) + 1"
  by (simp add: pool_edited_def Let_def forget_version bump_version_get)

lemma dropped_check:
  "check_version m (p_id p) \<noteq> version \<or> v_test_worker (m_settings m) \<noteq> tw \<Longrightarrow>
     record_check c p a tw version rtt err now m = ([], m)"
  by (auto simp: record_check_def on_health_def probe_result_if_def)

lemma transact_other [simp]:
  "m_health (snd (transact fn w m)) = m_health m" "m_settings (snd (transact fn w m)) = m_settings m" "m_reg (snd (transact fn w m)) = m_reg m"
  by (auto simp: transact_def split: prod.split sum.split)

lemma drain_sessions_other [simp]:
  "m_health (snd (drain_sessions sh p reason m)) = m_health m" "m_settings (snd (drain_sessions sh p reason m)) = m_settings m"
  "m_store (snd (drain_sessions sh p reason m)) = m_store m" "m_snap (snd (drain_sessions sh p reason m)) = m_snap m"
  "m_reg (snd (drain_sessions sh p reason m)) = snd (start_drain sh p reason (m_reg m))"
  "fst (drain_sessions sh p reason m) = length (sh (drain_targets p (m_reg m)))"
  "m_last_switch (snd (drain_sessions sh p reason m)) = m_last_switch m"
  "m_last_failback (snd (drain_sessions sh p reason m)) = m_last_failback m"
  using start_drain_count [of sh p reason "m_reg m"] by (auto simp: drain_sessions_def split: prod.split)

text \<open>A successful activation, spelled out.\<close>

lemma activate_commit_ok:
  assumes "activate_commit i force reason fb (p, version, tw) w sh now m = (Inr n, evs, m')" "manager_inv m"
  obtains c m1 from_pool where "snap_get (m_snap m) i = Some c"
    "force \<or> same_endpoint p c \<and> p_username p = p_username c \<and> p_password p = p_password c \<and>
       check_version m i = version \<and> v_test_worker (m_settings m) = tw"
    "transact (activate_in i (\<not> force \<and> (check_version m i \<noteq> version \<or> v_test_worker (m_settings m) \<noteq> tw)) fb (p_name c)) w m = (Inr from_pool, m1)"
    "m' = snd (drain_sessions sh (\<lambda>s. session_pool s \<noteq> i) (''switch to '' @ p_name c)
       (m1\<lparr>m_health := forget_health i (m_health m1), m_last_switch := Some \<lparr>sw_at = now, sw_from = from_pool, sw_to = i, sw_reason = reason\<rparr>\<rparr>))"
    "n = length (sh (drain_targets (\<lambda>s. session_pool s \<noteq> i) (m_reg m)))"
proof -
  obtain c where c: "snap_get (m_snap m) i = Some c"
    using assms(1) by (auto simp: activate_commit_def Let_def split: option.splits)
  have g: "force \<or> same_endpoint p c \<and> p_username p = p_username c \<and> p_password p = p_password c \<and>
       check_version m i = version \<and> v_test_worker (m_settings m) = tw"
    using assms(1) c by (auto simp: activate_commit_def Let_def split: if_splits)
  define fn where "fn = activate_in i (\<not> force \<and> (check_version m i \<noteq> version \<or> v_test_worker (m_settings m) \<noteq> tw)) fb (p_name c)"
  obtain r m1 where t: "transact fn w m = (r, m1)" by fastforce
  have ng: "\<not> (\<not> force \<and> (\<not> same_endpoint p c \<or> p_username p \<noteq> p_username c \<or> p_password p \<noteq> p_password c \<or>
      check_version m i \<noteq> version \<or> v_test_worker (m_settings m) \<noteq> tw))" using g by blast
  obtain from_pool where r: "r = Inr from_pool"
    using assms(1) c t ng unfolding activate_commit_def Let_def fn_def by (cases r) auto
  define m2 where "m2 = m1\<lparr>m_health := forget_health i (m_health m1), m_last_switch := Some \<lparr>sw_at = now, sw_from = from_pool, sw_to = i, sw_reason = reason\<rparr>\<rparr>"
  obtain k m3 where d: "drain_sessions sh (\<lambda>s. session_pool s \<noteq> i) (''switch to '' @ p_name c) m2 = (k, m3)" by fastforce
  have "n = k" "m' = m3"
    using assms(1) unfolding activate_commit_def Let_def prod.case c option.case if_not_P [OF ng] fn_def [symmetric] t r sum.case m2_def [symmetric] d
    by simp_all
  moreover have "m_reg m1 = m_reg m" using transact_other(3) [of fn w m] t by simp
  moreover have "fst (drain_sessions sh (\<lambda>s. session_pool s \<noteq> i) (''switch to '' @ p_name c) m2) = k" by (simp only: d fst_conv)
  ultimately have "n = length (sh (drain_targets (\<lambda>s. session_pool s \<noteq> i) (m_reg m)))" "m' = m3" by (simp_all add: m2_def)
  moreover have "m3 = snd (drain_sessions sh (\<lambda>s. session_pool s \<noteq> i) (''switch to '' @ p_name c) m2)" by (simp only: d snd_conv)
  ultimately show ?thesis using that [of c from_pool m1] c g t r unfolding fn_def m2_def by blast
qed

lemma count_where_zero: "count_where p r = 0 \<longleftrightarrow> (\<forall>(i, s) \<in> set (rg_sessions r). \<not> p s)"
proof -
  have "fold (\<lambda>(_, s) n. if p s then n + 1 else n) ss k = k + length (filter (\<lambda>(_, s). p s) ss)"
    for ss :: "(nat, session) gomap" and k :: nat
    by (induction ss arbitrary: k) auto
  then show ?thesis by (auto simp: count_where_def filter_empty_conv)
qed

definition on_down_address :: "manager \<Rightarrow> session \<Rightarrow> bool" where
  "on_down_address m s \<longleftrightarrow> (\<exists>p \<in> set (sn_pools (m_snap m)). \<exists>a \<in> set (p_addresses p).
     addr_status (m_health m) (addr_key (p_id p) a) = Down \<and> session_key s = addr_key (p_id p) a)"

lemma failed_keys_iff: "session_key s \<in> set (failed_keys m) \<longleftrightarrow> on_down_address m s"
proof -
  have v: "map (\<lambda>v. addr_key (p_id p) (av_address v)) (filter (\<lambda>v. av_status v = Down) (address_healths (m_health m) p)) =
      map (addr_key (p_id p)) (filter (\<lambda>a. addr_status (m_health m) (addr_key (p_id p) a) = Down) (p_addresses p))" for p
    unfolding address_healths_def addr_status_def filter_map map_map
    by (induction "p_addresses p") (auto simp: Let_def split: option.split)
  show ?thesis unfolding failed_keys_def v by (auto simp: on_down_address_def)
qed

lemma update_version:
  assumes "update_pool j i rc w sh m = (Inr (new, n), evs, m')" "manager_inv m"
    and "snap_get (m_snap m) j = Some old" "\<not> same_endpoint new old \<or> p_username new \<noteq> p_username old \<or> p_password new \<noteq> p_password old"
  shows "check_version m' j = check_version m j + 1"
proof -
  obtain r m1 where t: "transact (update_in j i) w m = (r, m1)" by fastforce
  obtain new1 old1 ch where r: "r = Inr (new1, old1, ch)"
    using assms(1) t by (cases r) (auto simp: update_pool_def)
  define e where "e = (if ch then on_health (pool_edited old1 new1) m1 else ([], m1))"
  define d where "d = (if rc then drain_sessions sh (\<lambda>s. session_pool s = j) (''pool '' @ p_name new1 @ '' changed'') (snd e) else (0, snd e))"
  have u: "new = new1" "m' = snd d"
    using assms(1) t r unfolding update_pool_def e_def d_def by (auto simp: Let_def split: prod.splits)
  have h: "m_health (snd d) = m_health (snd e)" by (simp add: d_def)
  from t assms(2) show ?thesis
  proof (rule transact_cases)
    fix a f assume a: "r = Inr a" "update_in j i (clone (st_cur (m_store m))) = Inr (f, a)"
    have cl: "f_pools (clone (st_cur (m_store m))) = sn_pools (m_snap m)"
      using assms(2) by (simp add: manager_inv_def wf_file_def clone_valid snapshot_of_def)
    have "a = (new1, old1, ch)" using a(1) r by simp
    from a(2) [unfolded this] show ?thesis
    proof (rule update_in_cases)
      assume o: "find_pool (f_pools (clone (st_cur (m_store m)))) j = Some old1" "p_id new1 = j"
        "ch \<longleftrightarrow> \<not> same_endpoint new1 old1 \<or> p_username new1 \<noteq> p_username old1 \<or> p_password new1 \<noteq> p_password old1"
      then have "old1 = old" using assms(3) cl by (simp add: snap_get_def)
      then have ch: ch using o(3) assms(4) u(1) by simp
      have "p_id old1 = j" using o(1) find_pool_iff by blast
      moreover have "m_health m1 = m_health m" using transact_other(1) [of "update_in j i" w m] t by simp
      ultimately show ?thesis using pool_edited_version [of old1 new1 "m_health m"] o(2) ch
        by (simp add: check_version_def u h e_def)
    qed
  qed (use r in auto)
qed

subsection \<open>Properties\<close>

text \<open>C15: a switch that succeeds makes the pool active. Without force some address of it passed the check
  and neither the pool nor the test worker changed meanwhile; then the pool that was active is the first
  fallback and the other fallbacks keep their order, or, for a restore, the given order of existing
  pools is put back. Exactly the sessions of other pools are drained, and what was known of the health of
  the new pool is forgotten.\<close>

theorem switch_makes_active:
  assumes "activate i force reason fb checks others w sh now m = (Inr n, evs, m')" "manager_inv (others m)" "\<And>xs. mset (sh xs) = mset xs"
  shows "(let f = st_cur (m_store (others m)); f' = st_cur (m_store m') in
    f_active f' = i \<and> sn_active (m_snap m') = i \<and> f_pools f' = f_pools f \<and> w \<and>
    (\<not> force \<longrightarrow> any_ok checks \<and> check_version (others m) i = check_version m i \<and>
       v_test_worker (m_settings (others m)) = v_test_worker (m_settings m)) \<and>
    f_fallback f' = (case fb of Some ids \<Rightarrow> existing_once (f_pools f) i [] ids
      | None \<Rightarrow> if f_active f \<noteq> [] \<and> f_active f \<noteq> i then f_active f # filter (\<lambda>j. j \<noteq> i) (f_fallback f)
                else filter (\<lambda>j. j \<noteq> i) (f_fallback f)) \<and>
    n = length (filter (\<lambda>(_, s). session_pool s \<noteq> i) (rg_sessions (m_reg (others m)))) \<and>
    rg_gen (m_reg m') = rg_gen (m_reg (others m)) + 1 \<and> pool_status m' i = Unknown)"
proof -
  let ?m = "others m" and ?f = "st_cur (m_store (others m))"
  obtain p where p: "snap_get (m_snap m) i = Some p" using assms(1) by (auto simp: activate_def activate_begin_def split: option.splits)
  have start: "activate_begin i m = Inr (p, check_version m i, v_test_worker (m_settings m))" using p by (simp add: activate_begin_def)
  have ok: "force \<or> any_ok checks" using assms(1) by (auto simp: activate_def start Let_def split: if_splits)
  then have commit: "activate_commit i force reason fb (p, check_version m i, v_test_worker (m_settings m)) w sh now ?m = (Inr n, evs, m')"
    using assms(1) by (auto simp: activate_def start Let_def)
  from commit assms(2) show ?thesis
  proof (rule activate_commit_ok)
    fix c m1 from_pool
    assume g: "force \<or> same_endpoint p c \<and> p_username p = p_username c \<and> p_password p = p_password c \<and>
         check_version ?m i = check_version m i \<and> v_test_worker (m_settings ?m) = v_test_worker (m_settings m)"
      and t: "transact (activate_in i (\<not> force \<and> (check_version ?m i \<noteq> check_version m i \<or>
           v_test_worker (m_settings ?m) \<noteq> v_test_worker (m_settings m))) fb (p_name c)) w ?m = (Inr from_pool, m1)"
      and m': "m' = snd (drain_sessions sh (\<lambda>s. session_pool s \<noteq> i) (''switch to '' @ p_name c)
         (m1\<lparr>m_health := forget_health i (m_health m1), m_last_switch := Some \<lparr>sw_at = now, sw_from = from_pool, sw_to = i, sw_reason = reason\<rparr>\<rparr>))"
      and n: "n = length (sh (drain_targets (\<lambda>s. session_pool s \<noteq> i) (m_reg ?m)))"
    have cl: "f_pools (clone ?f) = f_pools ?f" "f_active (clone ?f) = f_active ?f" "f_fallback (clone ?f) = f_fallback ?f"
      "valid_file ?f"
      using assms(2) by (simp_all add: manager_inv_def wf_file_def clone_valid)
    have wo: "without (without (f_fallback ?f) i) (f_active ?f) = filter (\<lambda>j. j \<noteq> i) (f_fallback ?f)"
      using cl(4) by (auto simp: without_def valid_file_simps intro!: filter_cong)
    have len: "n = length (filter (\<lambda>(_, s). session_pool s \<noteq> i) (rg_sessions (m_reg ?m)))"
      using n assms(3) [of "drain_targets (\<lambda>s. session_pool s \<noteq> i) (m_reg ?m)"]
      by (metis drain_targets_def length_map size_mset)
    from t assms(2) show ?thesis
    proof (rule transact_cases)
      fix a f' assume f': "activate_in i (\<not> force \<and> (check_version ?m i \<noteq> check_version m i \<or>
           v_test_worker (m_settings ?m) \<noteq> v_test_worker (m_settings m))) fb (p_name c) (clone ?f) = Inr (f', a)" "w"
        and m1: "m1 = ?m\<lparr>m_store := \<lparr>st_cur = f', st_disk = Some (encode_file f')\<rparr>, m_snap := snapshot_of f'\<rparr>"
      have r: "m_store m' = m_store m1" "m_snap m' = m_snap m1" "m_reg m' = snd (start_drain sh (\<lambda>s. session_pool s \<noteq> i) (''switch to '' @ p_name c) (m_reg ?m))"
        "m_health m' = forget_health i (m_health ?m)" by (simp_all add: m' m1)
      show ?thesis using f'(1)
      proof (rule activate_in_cases)
        assume "a = f_active (clone ?f)" and
          "f' = (clone ?f)\<lparr>f_active := i, f_fallback := (case fb of Some ids \<Rightarrow> existing_once (f_pools (clone ?f)) i [] ids
             | None \<Rightarrow> if a \<noteq> [] \<and> a \<noteq> i then a # without (without (f_fallback (clone ?f)) i) a else without (f_fallback (clone ?f)) i)\<rparr>"
        then have "f_active f' = i" "f_pools f' = f_pools ?f" and "f_fallback f' = (case fb of Some ids \<Rightarrow> existing_once (f_pools ?f) i [] ids
             | None \<Rightarrow> if f_active ?f \<noteq> [] \<and> f_active ?f \<noteq> i then f_active ?f # without (without (f_fallback ?f) i) (f_active ?f) else without (f_fallback ?f) i)"
          by (simp_all add: cl split: option.split)
        then show ?thesis using g ok f'(2) len wo
          by (auto simp: Let_def r m1 snapshot_of_def pool_status_def pool_health_of_def forget_status without_def split: option.split)
      qed
    qed simp_all
  qed
qed

theorem switch_makes_active_witness:
  "\<exists>n evs m'. activate ''alt'' True ''manual'' None [] (\<lambda>m. m) True (\<lambda>xs. xs) 0 example_manager = (Inr n, evs, m') \<and>
     f_active (st_cur (m_store m')) = ''alt'' \<and> f_fallback (st_cur (m_store m')) = [''btc'']"
proof -
  have c: "clone two_pools = two_pools"
    using wf_two_pools by (simp add: wf_file_def clone_valid) (simp add: two_pools_def empty_file_def zero_file_def normal_map_def)
  have fields: "m_store example_manager = \<lparr>st_cur = two_pools, st_disk = None\<rparr>" "m_snap example_manager = snapshot_of two_pools"
    by (simp_all add: example_manager_def new_manager_def current_def c)
  obtain f from_pool where f: "activate_in ''alt'' False None ''Alt'' two_pools = Inr (f, from_pool)"
    using two_pools_find by (simp add: activate_in_def Let_def)
  have v: "check f = None" using activate_in_valid [OF two_pools_valid f] by (simp add: check_iff_valid)
  have t: "\<exists>m1. transact (activate_in ''alt'' False None ''Alt'') True example_manager = (Inr from_pool, m1)"
    by (simp add: transact_def mutate_def fields c f v)
  have g: "snap_get (m_snap example_manager) ''alt'' = Some second_pool"
    using two_pools_find(1) by (simp add: fields snap_get_def snapshot_of_def)
  have pn: "p_name second_pool = ''Alt''" by simp
  have "\<exists>n evs m'. activate ''alt'' True ''manual'' None [] (\<lambda>m. m) True (\<lambda>xs. xs) 0 example_manager = (Inr n, evs, m')"
    using t g by (auto simp: activate_def activate_begin_def activate_commit_def Let_def split: prod.split)
  then obtain n evs m' where a: "activate ''alt'' True ''manual'' None [] (\<lambda>m. m) True (\<lambda>xs. xs) 0 example_manager = (Inr n, evs, m')" by blast
  have "f_active (st_cur (m_store m')) = ''alt''" "f_fallback (st_cur (m_store m')) = [''btc'']"
    using switch_makes_active [OF a example_manager_inv] two_pools_find by (simp_all add: Let_def fields)
  then show ?thesis using a by blast
qed

text \<open>C5: the result of an outdated check is dropped. A check whose version and test worker were captured
  before a session stalled on the pool, before a switch to it, before an edit of its addresses or login, or
  before a change of the test worker, records nothing and logs nothing after it.\<close>

theorem outdated_checks_dropped:
  assumes "manager_inv m" "tw = v_test_worker (m_settings m)" "version = check_version m (p_id p)"
    and "(still_has m p b \<and> m' = snd (session_failure p b JobTimeout reason t m)) \<or>
      (\<exists>force why fb cap w sh n evs. activate_commit (p_id p) force why fb cap w sh t m = (Inr n, evs, m')) \<or>
      (\<exists>i rc w sh new n evs. update_pool (p_id p) i rc w sh m = (Inr (new, n), evs, m') \<and>
         snap_get (m_snap m) (p_id p) = Some old \<and>
         (\<not> same_endpoint new old \<or> p_username new \<noteq> p_username old \<or> p_password new \<noteq> p_password old)) \<or>
      (\<exists>v. v_test_worker v \<noteq> tw \<and> m' = settings_changed v m)"
  shows "record_check cancelled p a tw version rtt err now m' = ([], m')"
  using assms(4)
proof (elim disjE; (elim exE conjE)?)
  assume h: "still_has m p b" "m' = snd (session_failure p b JobTimeout reason t m)"
  have "check_version m' (p_id p) = version + 1"
    by (auto simp: h(2) session_failure_def h(1) check_version_def assms(3) request_probe_def bump_version_get on_health_def Let_def
        split: prod.split dest!: arg_cong [where f = snd])
  then show ?thesis by (intro dropped_check) simp
next
  fix force why fb cap w sh n evs
  assume act: "activate_commit (p_id p) force why fb cap w sh t m = (Inr n, evs, m')"
  obtain q vq tq where cap: "cap = (q, vq, tq)" by (metis prod.exhaust)
  from act [unfolded cap] assms(1) have "check_version m' (p_id p) = version + 1"
  proof (rule activate_commit_ok)
    fix c m1 from_pool
    assume "transact (activate_in (p_id p) (\<not> force \<and> (check_version m (p_id p) \<noteq> vq \<or> v_test_worker (m_settings m) \<noteq> tq)) fb (p_name c)) w m = (Inr from_pool, m1)"
      and m': "m' = snd (drain_sessions sh (\<lambda>s. session_pool s \<noteq> p_id p) (''switch to '' @ p_name c)
       (m1\<lparr>m_health := forget_health (p_id p) (m_health m1), m_last_switch := Some \<lparr>sw_at = t, sw_from = from_pool, sw_to = p_id p, sw_reason = why\<rparr>\<rparr>))"
    then have "m_health m1 = m_health m" using transact_other(1) by (metis snd_conv)
    then show ?thesis by (simp add: m' check_version_def forget_version assms(3))
  qed
  then show ?thesis by (intro dropped_check) simp
next
  fix i rc w sh new n evs
  assume "update_pool (p_id p) i rc w sh m = (Inr (new, n), evs, m')" "snap_get (m_snap m) (p_id p) = Some old"
    and "\<not> same_endpoint new old \<or> p_username new \<noteq> p_username old \<or> p_password new \<noteq> p_password old"
  then have "check_version m' (p_id p) = version + 1" using update_version assms(1,3) by metis
  then show ?thesis by (intro dropped_check) simp
next
  fix v assume v: "v_test_worker v \<noteq> tw" "m' = settings_changed v m"
  have st: "m_settings (on_addresses (\<lambda>p. request_probe (p_id p)) ps q) = m_settings q" for ps q
  proof -
    have "m_settings (fold (request_probe j) as q) = m_settings q" for j as q
      by (induction as arbitrary: q) (simp_all add: request_probe_def)
    then show ?thesis unfolding on_addresses_def by (induction ps arbitrary: q) simp_all
  qed
  then have "v_test_worker (m_settings m') = v_test_worker v" by (simp add: v(2) settings_changed_def Let_def)
  then show ?thesis using v(1) by (intro dropped_check) simp
qed

theorem outdated_checks_dropped_witness:
  "record_check False second_pool \<lparr>host = ''p.io'', port = 3333\<rparr> (v_test_worker defaults) 0 5 None 9
     (settings_changed (defaults\<lparr>v_test_worker := ''other.rig''\<rparr>) example_manager) =
   ([], settings_changed (defaults\<lparr>v_test_worker := ''other.rig''\<rparr>) example_manager)"
proof -
  have w: "v_test_worker defaults \<noteq> ''other.rig''" by code_simp
  have s: "m_settings example_manager = defaults" "check_version example_manager (p_id second_pool) = 0"
    by (simp_all add: example_manager_def new_manager_def check_version_def get_or_def)
  let ?v = "defaults\<lparr>v_test_worker := ''other.rig''\<rparr>"
  have "v_test_worker defaults = v_test_worker (m_settings example_manager)" "0 = check_version example_manager (p_id second_pool)"
    using s by simp_all
  moreover have "\<exists>v. v_test_worker v \<noteq> v_test_worker defaults \<and> settings_changed ?v example_manager = settings_changed v example_manager"
    using w by (intro exI [of _ ?v]) simp
  ultimately show ?thesis by (intro outdated_checks_dropped [OF example_manager_inv]) (assumption, assumption, blast)
qed

text \<open>C16: sessions are moved only when it is due. Failback drains exactly the sessions that are not on the
  active pool, and only when that pool has been UP without interruption for the failback delay, the last
  failback is as long ago and no drain runs; failover drains exactly the sessions on addresses that are
  DOWN, and only while no drain runs. Otherwise nothing changes; and when it is due and there is a session
  to move, it happens.\<close>

theorem sessions_moved_when_due:
  "(let (evs, m') = check_failback now sh m; i = sn_active (m_snap m); h = pool_health_of m i; d = v_failback_delay (m_settings m);
        due = (i \<noteq> [] \<and> h_status h = Up \<and> \<not> is_zero (h_up_since h) \<and> d \<le> time_sub now (h_up_since h) \<and>
          d \<le> time_sub now (m_last_failback m) \<and> \<not> rg_draining (m_reg m) \<and>
          (\<exists>(_, s) \<in> set (rg_sessions (m_reg m)). session_pool s \<noteq> i))
    in (if due then \<exists>reason. m_reg m' = snd (start_drain sh (\<lambda>s. session_pool s \<noteq> i) reason (m_reg m)) \<and> m_last_failback m' = now
        else evs = [] \<and> m' = m)) \<and>
   (let (evs, m') = check_failover why sh m;
        due = (\<not> rg_draining (m_reg m) \<and> (\<exists>(_, s) \<in> set (rg_sessions (m_reg m)). on_down_address m s))
    in (if due then \<exists>reason. m_reg m' = snd (start_drain sh (on_down_address m) reason (m_reg m)) else evs = [] \<and> m' = m))"
proof
  let ?i = "sn_active (m_snap m)"
  have z: "count_where (\<lambda>s. session_pool s \<noteq> ?i) (m_reg m) = 0 \<longleftrightarrow> \<not> (\<exists>(_, s) \<in> set (rg_sessions (m_reg m)). session_pool s \<noteq> ?i)"
    by (auto simp: count_where_zero)
  show "let (evs, m') = check_failback now sh m; i = sn_active (m_snap m); h = pool_health_of m i; d = v_failback_delay (m_settings m);
        due = (i \<noteq> [] \<and> h_status h = Up \<and> \<not> is_zero (h_up_since h) \<and> d \<le> time_sub now (h_up_since h) \<and>
          d \<le> time_sub now (m_last_failback m) \<and> \<not> rg_draining (m_reg m) \<and>
          (\<exists>(_, s) \<in> set (rg_sessions (m_reg m)). session_pool s \<noteq> i))
    in (if due then \<exists>reason. m_reg m' = snd (start_drain sh (\<lambda>s. session_pool s \<noteq> i) reason (m_reg m)) \<and> m_last_failback m' = now
        else evs = [] \<and> m' = m)"
    using z by (auto simp: check_failback_def Let_def drain_sessions_def split: prod.splits if_splits) (metis snd_conv)
  have f: "(\<lambda>s. session_key s \<in> set (failed_keys m)) = on_down_address m" by (simp add: failed_keys_iff fun_eq_iff)
  have z': "count_where (on_down_address m) (m_reg m) = 0 \<longleftrightarrow> \<not> (\<exists>(_, s) \<in> set (rg_sessions (m_reg m)). on_down_address m s)"
    by (auto simp: count_where_zero)
  show "let (evs, m') = check_failover why sh m;
        due = (\<not> rg_draining (m_reg m) \<and> (\<exists>(_, s) \<in> set (rg_sessions (m_reg m)). on_down_address m s))
    in (if due then \<exists>reason. m_reg m' = snd (start_drain sh (on_down_address m) reason (m_reg m)) else evs = [] \<and> m' = m)"
    using z' by (auto simp: check_failover_def f Let_def drain_sessions_def split: prod.splits if_splits) (metis snd_conv)
qed

end
