(* ===== verification/Routing.thy ===== *)
theory Routing
  imports Manager
begin

text \<open>
  What the automatic switchers (packages \<open>timed\<close> and \<open>profit\<close>) use of the pool manager: its snapshot,
  \<open>ActivateFor\<close> and \<open>Restore\<close>. The locale \<open>routing\<close> states what they rely on, for any state with an
  invariant; the interpretation shows that the manager keeps it.

  An activation checks the pool without a lock, so it has two states: that at its begin and that at its
  commit, after what others did meanwhile.
\<close>

record 'm pool_ops =
  op_snap :: "'m \<Rightarrow> snapshot"
  op_status :: "'m \<Rightarrow> string \<Rightarrow> status"
  op_activate :: "string \<Rightarrow> string \<Rightarrow> 'm \<Rightarrow> 'm \<Rightarrow> (api_error + nat) \<times> 'm"
  op_restore :: "string \<Rightarrow> string list \<Rightarrow> string \<Rightarrow> 'm \<Rightarrow> (api_error + nat) \<times> 'm"

text \<open>A snapshot of a valid state file.\<close>

definition valid_snapshot :: "snapshot \<Rightarrow> bool" where
  "valid_snapshot s \<longleftrightarrow>
     (if sn_pools s = [] then sn_active s = [] \<and> sn_fallback s = []
      else sn_active s \<noteq> [] \<and> snap_get s (sn_active s) \<noteq> None) \<and>
     distinct (sn_fallback s) \<and> (\<forall>i \<in> set (sn_fallback s). snap_get s i \<noteq> None \<and> i \<noteq> sn_active s) \<and>
     distinct (map p_id (sn_pools s)) \<and> (\<forall>p \<in> set (sn_pools s). p_id p \<noteq> [])"

text \<open>The fallback order after a switch: the pool that was active comes first.\<close>

definition order_after :: "string \<Rightarrow> snapshot \<Rightarrow> string list" where
  "order_after i s =
     (let order = without (sn_fallback s) i in
      if sn_active s \<noteq> [] \<and> sn_active s \<noteq> i then sn_active s # without order (sn_active s) else order)"

text \<open>A restore with the order from before undoes a switch.\<close>

lemma snapshot_round_trip:
  assumes v: "valid_snapshot s" and s1: "s1 = s\<lparr>sn_active := i, sn_fallback := order_after i s\<rparr>"
  shows "s1\<lparr>sn_active := sn_active s, sn_fallback := existing_once (sn_pools s1) (sn_active s) [] (sn_fallback s)\<rparr> = s"
proof -
  have "set (sn_fallback s) \<subseteq> p_id ` set (sn_pools s) - {sn_active s}"
    using v find_pool_some by (fastforce simp: valid_snapshot_def snap_get_def)
  then have "existing_once (sn_pools s) (sn_active s) [] (sn_fallback s) = sn_fallback s"
    using v existing_once_id [of "[]"] by (simp add: valid_snapshot_def)
  then show ?thesis by (simp add: s1)
qed

locale routing =
  fixes ops :: "'m pool_ops" and inv :: "'m \<Rightarrow> bool"
  assumes valid: "inv m \<Longrightarrow> valid_snapshot (op_snap ops m)"
    and activate_ok: "inv m1 \<Longrightarrow> op_activate ops i why m m1 = (Inr n, m') \<Longrightarrow>
      inv m' \<and> snap_get (op_snap ops m1) i \<noteq> None \<and>
      op_snap ops m' = (op_snap ops m1)\<lparr>sn_active := i, sn_fallback := order_after i (op_snap ops m1)\<rparr>"
    and activate_error: "op_activate ops i why m m1 = (Inl e, m') \<Longrightarrow> inv m1 \<Longrightarrow> m' = m \<or> m' = m1"
    and restore_ok: "inv m \<Longrightarrow> op_restore ops i fb why m = (Inr n, m') \<Longrightarrow>
      inv m' \<and> op_snap ops m' = (op_snap ops m)\<lparr>sn_active := i, sn_fallback := existing_once (sn_pools (op_snap ops m)) i [] fb\<rparr>"
    and restore_error: "inv m \<Longrightarrow> op_restore ops i fb why m = (Inl e, m') \<Longrightarrow> m' = m"
begin

lemma activate_active: "inv m1 \<Longrightarrow> op_activate ops i why m m1 = (Inr n, m') \<Longrightarrow> sn_active (op_snap ops m') = i"
  using activate_ok by fastforce

lemma activate_inv: "inv m \<Longrightarrow> inv m1 \<Longrightarrow> inv (snd (op_activate ops i why m m1))"
  using activate_ok activate_error by (metis old.sum.exhaust prod.collapse)

lemma restore_inv: "inv m \<Longrightarrow> inv (snd (op_restore ops i fb why m))"
  using restore_ok restore_error by (metis old.sum.exhaust prod.collapse)

end

subsection \<open>The manager\<close>

definition manager_ops ::
  "addr_result list \<Rightarrow> bool \<Rightarrow> (nat list \<Rightarrow> nat list) \<Rightarrow> time \<Rightarrow> manager pool_ops" where
  "manager_ops checks write_ok shuffle now =
     \<lparr>op_snap = m_snap, op_status = pool_status,
      op_activate = (\<lambda>i why m m1. case activate i False why None checks (\<lambda>_. m1) write_ok shuffle now m of (r, evs, m') \<Rightarrow> (r, m')),
      op_restore = (\<lambda>i fb why m. case restore i fb why write_ok shuffle now m of (r, evs, m') \<Rightarrow> (r, m'))\<rparr>"

lemma manager_inv_snapshot: "manager_inv m \<Longrightarrow> valid_snapshot (m_snap m)"
proof -
  assume i: "manager_inv m"
  let ?f = "st_cur (m_store m)"
  have v: "valid_file ?f" and s: "m_snap m = snapshot_of ?f" using i by (simp_all add: manager_inv_def wf_file_def)
  have g: "snap_get (snapshot_of ?f) j \<noteq> None \<longleftrightarrow> j \<in> p_id ` set (f_pools ?f)" for j
    using find_pool_some by (simp add: snap_get_def snapshot_of_def)
  have "\<forall>p \<in> set (f_pools ?f). p_id p \<noteq> []" using v by (auto simp: valid_file_simps valid_pool_def valid_pool_id_def list_all_iff)
  then show ?thesis unfolding valid_snapshot_def s g using v
    by (auto simp: valid_file_simps snapshot_of_def)
qed

lemma activate_commit_snapshot:
  assumes "activate_commit i force why fb cap w sh now m = (r, evs, m')" "manager_inv m"
  shows "(case r of Inl e \<Rightarrow> m' = m | Inr n \<Rightarrow> manager_inv m' \<and> snap_get (m_snap m) i \<noteq> None \<and>
    m_snap m' = (m_snap m)\<lparr>sn_active := i, sn_fallback := (case fb of Some ids \<Rightarrow> existing_once (sn_pools (m_snap m)) i [] ids
      | None \<Rightarrow> order_after i (m_snap m))\<rparr>)"
proof (cases r)
  case (Inl e)
  obtain p version tw where cap: "cap = (p, version, tw)" by (metis prod.exhaust)
  show ?thesis
  proof (cases "snap_get (m_snap m) i")
    case None
    then show ?thesis using assms(1) Inl by (auto simp: activate_commit_def cap Let_def)
  next
    case (Some c)
    let ?fn = "activate_in i (\<not> force \<and> (check_version m i \<noteq> version \<or> v_test_worker (m_settings m) \<noteq> tw)) fb (p_name c)"
    show ?thesis
    proof (cases "transact ?fn w m")
      case t: (Pair r1 m1)
      from t assms(2) have "(\<exists>e. r1 = Inl e \<and> m1 = m) \<or> (\<exists>a. r1 = Inr a)"
        by (rule transact_cases) (auto simp: closures_keep_rest)
      then show ?thesis using assms(1) Inl Some t
        by (auto simp: activate_commit_def cap Let_def split: if_splits prod.splits)
    qed
  qed
next
  case (Inr n)
  obtain p version tw where cap: "cap = (p, version, tw)" by (metis prod.exhaust)
  let ?f = "st_cur (m_store m)"
  have cl: "f_pools (clone ?f) = f_pools ?f" "f_active (clone ?f) = f_active ?f" "f_fallback (clone ?f) = f_fallback ?f"
    and s: "m_snap m = snapshot_of ?f"
    using assms(2) by (simp_all add: manager_inv_def wf_file_def clone_valid)
  from assms(1) [unfolded cap Inr] assms(2) show ?thesis
  proof (rule activate_commit_ok)
    fix c m1 from_pool
    assume c: "snap_get (m_snap m) i = Some c"
      and t: "transact (activate_in i (\<not> force \<and> (check_version m i \<noteq> version \<or> v_test_worker (m_settings m) \<noteq> tw)) fb (p_name c)) w m =
        (Inr from_pool, m1)"
      and m': "m' = snd (drain_sessions sh (\<lambda>s. session_pool s \<noteq> i) (''switch to '' @ p_name c)
         (m1\<lparr>m_health := forget_health i (m_health m1), m_last_switch := Some \<lparr>sw_at = now, sw_from = from_pool, sw_to = i, sw_reason = why\<rparr>\<rparr>))"
    have "manager_inv m'" using activate_commit_inv [OF assms(2,1)] .
    moreover from t assms(2) have "m_snap m' = (m_snap m)\<lparr>sn_active := i,
        sn_fallback := (case fb of Some ids \<Rightarrow> existing_once (sn_pools (m_snap m)) i [] ids | None \<Rightarrow> order_after i (m_snap m))\<rparr>"
    proof (rule transact_cases)
      fix a f' assume a: "activate_in i (\<not> force \<and> (check_version m i \<noteq> version \<or> v_test_worker (m_settings m) \<noteq> tw)) fb (p_name c) (clone ?f) =
          Inr (f', a)"
        and m1: "m1 = m\<lparr>m_store := \<lparr>st_cur = f', st_disk = Some (encode_file f')\<rparr>, m_snap := snapshot_of f'\<rparr>"
      from a show ?thesis
        by (rule activate_in_cases) (simp add: m' m1 s snapshot_of_def cl order_after_def Let_def split: option.split)
    qed (auto simp: closures_keep_rest)
    ultimately show ?thesis using c Inr by simp
  qed
qed

text \<open>A switch to a known pool that passed its check succeeds if the state can be written.\<close>

lemma transact_succeeds:
  "fn (clone (st_cur (m_store m))) = Inr (f, a) \<Longrightarrow> valid_file f \<Longrightarrow> \<exists>m1. transact fn True m = (Inr a, m1)"
  by (simp add: transact_def mutate_def check_iff_valid [symmetric])

lemma activate_succeeds:
  assumes "manager_inv m" "snap_get (m_snap m) i \<noteq> None" "force \<or> any_ok checks"
  shows "\<exists>n evs m'. activate i force why fb checks (\<lambda>m. m) True sh now m = (Inr n, evs, m')"
proof -
  obtain p where p: "snap_get (m_snap m) i = Some p" using assms(2) by auto
  let ?f = "st_cur (m_store m)"
  have c: "f_pools (clone ?f) = f_pools ?f" "valid_file (clone ?f)" and s: "m_snap m = snapshot_of ?f"
    using assms(1) wf_file_clone [of ?f] by (simp_all add: manager_inv_def wf_file_def clone_valid)
  have "find_pool (f_pools (clone ?f)) i \<noteq> None" using p s c(1) by (simp add: snap_get_def snapshot_of_def)
  then obtain f' from_pool where f': "activate_in i False fb (p_name p) (clone ?f) = Inr (f', from_pool)"
    by (cases fb) (auto simp: activate_in_def Let_def)
  obtain m1 where "transact (activate_in i False fb (p_name p)) True m = (Inr from_pool, m1)"
    using transact_succeeds [of "activate_in i False fb (p_name p)" m, OF f' activate_in_valid [OF c(2) f']] by blast
  then show ?thesis using p assms(3)
    by (cases force) (auto simp: activate_def activate_begin_def activate_commit_def Let_def same_endpoint_def split: prod.split)
qed

interpretation farm: routing "manager_ops checks write_ok shuffle now" manager_inv for checks write_ok shuffle now
proof
  fix m m1 m' :: manager and i why fb n e
  show "manager_inv m \<Longrightarrow> valid_snapshot (op_snap (manager_ops checks write_ok shuffle now) m)"
    by (simp add: manager_ops_def manager_inv_snapshot)
  show "manager_inv m1 \<Longrightarrow> op_activate (manager_ops checks write_ok shuffle now) i why m m1 = (Inr n, m') \<Longrightarrow>
      manager_inv m' \<and> snap_get (op_snap (manager_ops checks write_ok shuffle now) m1) i \<noteq> None \<and>
      op_snap (manager_ops checks write_ok shuffle now) m' = (op_snap (manager_ops checks write_ok shuffle now) m1)
        \<lparr>sn_active := i, sn_fallback := order_after i (op_snap (manager_ops checks write_ok shuffle now) m1)\<rparr>"
    using activate_commit_snapshot [of i False why None _ write_ok shuffle now m1]
    by (fastforce simp: manager_ops_def activate_def Let_def split: sum.splits if_splits prod.splits)
  show "op_activate (manager_ops checks write_ok shuffle now) i why m m1 = (Inl e, m') \<Longrightarrow> manager_inv m1 \<Longrightarrow> m' = m \<or> m' = m1"
    using activate_commit_snapshot [of i False why None _ write_ok shuffle now m1]
    by (fastforce simp: manager_ops_def activate_def Let_def split: sum.splits if_splits prod.splits)
  show "manager_inv m \<Longrightarrow> op_restore (manager_ops checks write_ok shuffle now) i fb why m = (Inr n, m') \<Longrightarrow>
      manager_inv m' \<and> op_snap (manager_ops checks write_ok shuffle now) m' = (op_snap (manager_ops checks write_ok shuffle now) m)
        \<lparr>sn_active := i, sn_fallback := existing_once (sn_pools (op_snap (manager_ops checks write_ok shuffle now) m)) i [] fb\<rparr>"
    using activate_commit_snapshot [of i True why "Some fb" _ write_ok shuffle now m]
    by (fastforce simp: manager_ops_def restore_def activate_def Let_def split: sum.splits if_splits prod.splits)
  show "manager_inv m \<Longrightarrow> op_restore (manager_ops checks write_ok shuffle now) i fb why m = (Inl e, m') \<Longrightarrow> m' = m"
    using activate_commit_snapshot [of i True why "Some fb" _ write_ok shuffle now m]
    by (fastforce simp: manager_ops_def restore_def activate_def Let_def split: sum.splits if_splits prod.splits)
qed

end
