(* ===== verification/Rtt.thy ===== *)
theory Rtt
  imports Dial Settings
begin

text \<open>
  Package \<open>rtt\<close>: eCash's real time target (\<open>rtt.go\<close>) and the watcher that learns from a pool when
  blocks arrive (\<open>watch.go\<close>).

  \<^item> \<open>factor\<close> is \<open>Factor\<close> on reals; the gamma function of the standard library is the argument
    \<open>gamma\<close>, of which the code only uses the value at 7/6.
  \<^item> \<open>watcher\<close> is the state of a \<open>Watcher\<close>. Each operation is one section under its mutex;
    \<open>watch_line\<close> is one iteration of the read loop of \<open>watch\<close>. What the pools, the network and the
    seed gave are arguments.

  The lemmas show how the factor falls with time, between which ages of the last blocks it crosses the
  thresholds of the switcher, and that the watcher records exactly the blocks it saw.
\<close>

definition rtt_blocks :: nat where "rtt_blocks = 17"
definition rtt_efficiency :: real where "rtt_efficiency = 757 / 1000"
definition rtt_k :: real where "rtt_k = 6"

definition rtt_c :: "(real \<Rightarrow> real) \<Rightarrow> real" where
  "rtt_c gamma = rtt_k * gamma (1 + 1 / rtt_k) powr rtt_k"

definition rtt_windows :: "(nat \<times> real) list" where
  "rtt_windows = [(1, 150), (2, 600), (5, 2400), (11, 6000), (17, 9600)]"

definition block_age :: "time \<Rightarrow> time \<Rightarrow> real" where
  "block_age now t = max 1 (real_of_int (time_sub now t) / real_of_int second)"

text \<open>The loop of \<open>Factor\<close>; \<^term>\<open>None\<close> is an infinite minimum.\<close>

fun tightest :: "(real \<Rightarrow> real) \<Rightarrow> time \<Rightarrow> time list \<Rightarrow> (nat \<times> real) list \<Rightarrow> real option \<Rightarrow> real option" where
  "tightest gamma now arrivals [] m = m"
| "tightest gamma now arrivals ((back, width) # ws) m =
     (if length arrivals < back then m
      else (let v = rtt_c gamma * (block_age now (arrivals ! (back - 1)) / width) powr (rtt_k - 1)
            in tightest gamma now arrivals ws (Some (case m of None \<Rightarrow> v | Some x \<Rightarrow> min x v))))"

definition factor :: "(real \<Rightarrow> real) \<Rightarrow> time \<Rightarrow> time list \<Rightarrow> real" where
  "factor gamma now arrivals =
     (case tightest gamma now arrivals rtt_windows None of
        None \<Rightarrow> 1 | Some m \<Rightarrow> if 1 \<le> m then 1 else 1 / m)"

definition nbits_difficulty :: "32 word \<Rightarrow> real" where
  "nbits_difficulty bits =
     (let mantissa = real (unat (and bits 0x007fffff)) in
      if mantissa = 0 then 0
      else 0xffff / mantissa * 256 powr (29 - real (unat (drop_bit 24 bits))))"

subsection \<open>The watcher\<close>

definition rtt_coin :: string where "rtt_coin = ''XEC''"
definition silence :: duration where "silence = 15 * minute"
definition stale_after_break :: duration where "stale_after_break = 10 * minute"

datatype watch_error =
    Changed
  | Connect
  | LoginNotWritten
  | WatchReads read_error
  | AskedToReconnect
  | SubscribeRefused string
  | AuthorizeRejected string

record watcher =
  wt_pool :: string
  wt_connected :: bool
  wt_arrivals :: "time list"
  wt_prevhash :: string
  wt_nbits :: "32 word"
  wt_updated :: time
  wt_last_err :: "watch_error option"

definition new_watcher :: watcher where
  "new_watcher = \<lparr>wt_pool = [], wt_connected = False, wt_arrivals = [], wt_prevhash = [], wt_nbits = 0,
     wt_updated = zero_time, wt_last_err = None\<rparr>"

definition watchable :: "pool \<Rightarrow> bool" where
  "watchable p \<longleftrightarrow> p_coin p = rtt_coin \<and> p_addresses p \<noteq> []"

fun pick_watched :: "pool list \<Rightarrow> pool option \<Rightarrow> pool option \<Rightarrow> pool option" where
  "pick_watched [] solo first = (if solo \<noteq> None then solo else first)"
| "pick_watched (p # ps) solo first =
     (if \<not> watchable p then pick_watched ps solo first
      else if p_timed_target p then Some p
      else pick_watched ps (if p_solo p \<and> solo = None then Some p else solo) (if first = None then Some p else first))"

definition watched_pool :: "pool list \<Rightarrow> pool option" where
  "watched_pool ps = pick_watched ps None None"

definition same_pool :: "pool \<Rightarrow> pool \<Rightarrow> bool" where
  "same_pool a b \<longleftrightarrow> p_id a = p_id b \<and> p_addresses a = p_addresses b \<and> p_tls a = p_tls b \<and>
     p_tls_skip_verify a = p_tls_skip_verify b \<and> p_username a = p_username b \<and> p_password a = p_password b"

text \<open>The ticker in \<open>watch\<close>: another pool is to be watched.\<close>

definition watch_changed :: "pool list \<Rightarrow> pool \<Rightarrow> bool" where
  "watch_changed ps p \<longleftrightarrow> (case watched_pool ps of None \<Rightarrow> True | Some q \<Rightarrow> \<not> same_pool p q)"

text \<open>\<open>seed\<close>: \<^term>\<open>None\<close> when there is no seed function or it failed.\<close>

definition seed_watcher :: "time list option \<Rightarrow> time \<Rightarrow> watcher \<Rightarrow> watcher" where
  "seed_watcher fetched now w =
     (if wt_arrivals w \<noteq> [] \<and> time_sub now (wt_updated w) < stale_after_break then w
      else (case fetched of None \<Rightarrow> w
            | Some ts \<Rightarrow> if ts = [] then w else w\<lparr>wt_arrivals := take rtt_blocks ts, wt_prevhash := []\<rparr>))"

definition sort_newest :: "time list \<Rightarrow> time list" where "sort_newest ts = rev (sort ts)"

text \<open>\<open>strconv.ParseUint(s, 16, 32)\<close>.\<close>

definition hex_val :: "string \<Rightarrow> nat" where "hex_val s = fold (\<lambda>c n. 16 * n + hex_num c) s 0"

definition parse_hex32 :: "string \<Rightarrow> 32 word option" where
  "parse_hex32 s = (if s \<noteq> [] \<and> list_all is_hex s \<and> hex_val s < 2 ^ 32 then Some (of_nat (hex_val s)) else None)"

text \<open>\<open>job\<close>: whether a block arrived, and the new state.\<close>

definition watch_job :: "json option \<Rightarrow> time \<Rightarrow> watcher \<Rightarrow> bool \<times> watcher" where
  "watch_job raw now w =
     (case params_array raw of None \<Rightarrow> (False, w)
      | Some ps \<Rightarrow>
          (case string_at ps 1 of None \<Rightarrow> (False, w)
           | Some prev \<Rightarrow>
               (let block = (wt_prevhash w \<noteq> [] \<and> prev \<noteq> wt_prevhash w);
                    w = w\<lparr>wt_updated := now\<rparr>;
                    w = (if block then w\<lparr>wt_arrivals := now # take (rtt_blocks - 1) (wt_arrivals w)\<rparr> else w);
                    w = w\<lparr>wt_prevhash := prev\<rparr>
                in (block,
                    case string_at ps 6 of None \<Rightarrow> w
                    | Some s \<Rightarrow> (case parse_hex32 s of None \<Rightarrow> w | Some bits \<Rightarrow> w\<lparr>wt_nbits := bits\<rparr>)))))"

text \<open>One line of the pool: the error that ends the watch, and whether a block arrived.\<close>

definition watch_line :: "string \<Rightarrow> string \<Rightarrow> time \<Rightarrow> watcher \<Rightarrow> watch_error option \<times> bool \<times> watcher" where
  "watch_line user line now w =
     (case parse line of Inl _ \<Rightarrow> (None, False, w)
      | Inr msg \<Rightarrow>
          if msg_method msg = ''mining.notify'' then (case watch_job (msg_params msg) now w of (b, w') \<Rightarrow> (None, b, w'))
          else if msg_method msg = ''client.reconnect'' then (Some AskedToReconnect, False, w)
          else if msg_method msg \<noteq> [] then (None, False, w)
          else if answers 1 msg \<and> \<not> is_null (msg_error msg)
          then (Some (SubscribeRefused (error_reason (msg_error msg))), False, w)
          else if answers 2 msg then
            (if \<not> is_null (msg_error msg) \<or> \<not> result_true (msg_result msg)
             then (Some (AuthorizeRejected user), False, w)
             else (None, False, w\<lparr>wt_connected := True\<rparr>))
          else (None, False, w))"

text \<open>The read loop: the lines with their times until the read that fails. \<open>changed\<close> tells that the
  read failed because another pool is to be watched.\<close>

fun watch_loop ::
  "string \<Rightarrow> bool \<Rightarrow> read_error \<Rightarrow> (time \<times> string) list \<Rightarrow> watcher \<Rightarrow> watch_error \<times> nat \<times> watcher" where
  "watch_loop user changed e [] w = (if changed then Changed else WatchReads e, 0, w)"
| "watch_loop user changed e ((now, line) # ls) w =
     (case watch_line user line now w of
        (Some err, b, w') \<Rightarrow> (err, of_bool b, w')
      | (None, b, w') \<Rightarrow> (case watch_loop user changed e ls w' of (err, n, w'') \<Rightarrow> (err, of_bool b + n, w'')))"

text \<open>\<open>watch\<close>: the addresses are dialed in order (\<open>dials\<close>), then the login is sent.\<close>

definition watch ::
  "settings_values \<Rightarrow> pool \<Rightarrow> bool list \<Rightarrow> bool \<Rightarrow> bool \<Rightarrow> read_error \<Rightarrow> (time \<times> string) list \<Rightarrow> watcher
     \<Rightarrow> watch_error \<times> nat \<times> watcher" where
  "watch v p dials written changed e ls w =
     (if \<not> list_ex id (take (length (p_addresses p)) dials) then (Connect, 0, w)
      else
        (let w = w\<lparr>wt_pool := p_id p, wt_last_err := None\<rparr>;
             rw = rewrite_login (v_test_worker v) ''x'' (p_username p) (p_password p)
         in if \<not> written then (LoginNotWritten, 0, w) else watch_loop (rw_user rw) changed e ls w))"

definition watch_ended :: "watch_error \<Rightarrow> bool \<Rightarrow> watcher \<Rightarrow> watcher" where
  "watch_ended err cancelled w =
     (let w = w\<lparr>wt_connected := False\<rparr> in
      if err \<noteq> Changed \<and> \<not> cancelled then w\<lparr>wt_last_err := Some err\<rparr> else w)"

definition no_pool_to_watch :: "watcher \<Rightarrow> watcher" where
  "no_pool_to_watch w = w\<lparr>wt_pool := [], wt_connected := False, wt_last_err := None\<rparr>"

text \<open>The pause of \<open>Run\<close> before the next try, and the one after that; no pause when the pool changed.\<close>

definition next_backoff :: "watch_error \<Rightarrow> duration \<Rightarrow> duration \<Rightarrow> duration option \<times> duration" where
  "next_backoff err elapsed backoff =
     (if err = Changed then (None, backoff)
      else
        (let b = (if 5 * minute < elapsed then 5 * second else backoff)
         in (Some b, min (2 * b) (2 * minute))))"

definition live :: "watcher \<Rightarrow> bool" where
  "live w \<longleftrightarrow> wt_connected w \<and> wt_prevhash w \<noteq> []"

definition known :: "time \<Rightarrow> watcher \<Rightarrow> bool" where
  "known now w \<longleftrightarrow> wt_arrivals w \<noteq> [] \<and> (wt_connected w \<or> time_sub now (wt_updated w) < stale_after_break)"

definition hardness :: "(real \<Rightarrow> real) \<Rightarrow> time \<Rightarrow> watcher \<Rightarrow> real" where
  "hardness gamma now w = (if known now w then factor gamma now (wt_arrivals w) else 1)"

record watch_status =
  ws_pool :: string
  ws_connected :: bool
  ws_difficulty :: real
  ws_factor :: real
  ws_last_block :: "time option"
  ws_error :: "watch_error option"

definition watcher_status :: "(real \<Rightarrow> real) \<Rightarrow> time \<Rightarrow> watcher \<Rightarrow> watch_status" where
  "watcher_status gamma now w =
     \<lparr>ws_pool = wt_pool w, ws_connected = wt_connected w, ws_difficulty = nbits_difficulty (wt_nbits w),
      ws_factor = (if known now w then factor gamma now (wt_arrivals w) else 1),
      ws_last_block = (if known now w then Some (wt_arrivals w ! 0) else None), ws_error = wt_last_err w\<rparr>"

subsection \<open>How the factor falls\<close>

lemma block_age_pos: "1 \<le> block_age now t"
  by (simp add: block_age_def)

lemma block_age_mono: "now \<le> now' \<Longrightarrow> block_age now t \<le> block_age now' t"
  using time_sub_mono [of now now' t] by (simp add: block_age_def)

text \<open>The value one window asks for.\<close>

definition window_value :: "(real \<Rightarrow> real) \<Rightarrow> time \<Rightarrow> time list \<Rightarrow> nat \<times> real \<Rightarrow> real" where
  "window_value gamma now arrivals w =
     rtt_c gamma * (block_age now (arrivals ! (fst w - 1)) / snd w) powr (rtt_k - 1)"

definition binding :: "time list \<Rightarrow> (nat \<times> real) list" where
  "binding arrivals = filter (\<lambda>w. fst w \<le> length arrivals) rtt_windows"

lemma tightest_fold:
  "sorted_wrt (\<lambda>v w. fst v \<le> fst w) ws \<Longrightarrow>
   tightest gamma now arrivals ws m =
     fold (\<lambda>v m. Some (case m of None \<Rightarrow> v | Some x \<Rightarrow> min x v))
       (map (window_value gamma now arrivals) (filter (\<lambda>w. fst w \<le> length arrivals) ws)) m"
proof (induction ws arbitrary: m)
  case (Cons w ws)
  obtain b s where w: "w = (b, s)" by fastforce
  show ?case
  proof (cases "length arrivals < b")
    case True
    then have "filter (\<lambda>w. fst w \<le> length arrivals) (w # ws) = []"
      using Cons.prems w by (fastforce simp: filter_empty_conv)
    then show ?thesis using True w by (simp del: filter.simps)
  next
    case False
    then show ?thesis using Cons w by (simp add: window_value_def Let_def not_less)
  qed
qed simp

lemma fold_min:
  "fold (\<lambda>v m. Some (case m of None \<Rightarrow> v | Some x \<Rightarrow> min x v)) vs (Some (x::real)) =
     Some y \<Longrightarrow> y \<in> set (x # vs) \<and> (\<forall>v \<in> set (x # vs). y \<le> v)"
  by (induction vs arbitrary: x) (fastforce simp: min_def split: if_splits)+

lemma fold_min_some:
  "\<exists>y. fold (\<lambda>v m. Some (case m of None \<Rightarrow> v | Some x \<Rightarrow> min x v)) vs (Some (x::real)) = Some y"
  by (induction vs arbitrary: x) auto

lemma tightest_cases:
  obtains "binding arrivals = []" "tightest gamma now arrivals rtt_windows None = None"
  | w where "w \<in> set (binding arrivals)"
      "tightest gamma now arrivals rtt_windows None = Some (window_value gamma now arrivals w)"
      "\<forall>v \<in> set (binding arrivals). window_value gamma now arrivals w \<le> window_value gamma now arrivals v"
proof -
  have f: "tightest gamma now arrivals rtt_windows None =
      fold (\<lambda>v m. Some (case m of None \<Rightarrow> v | Some x \<Rightarrow> min x v)) (map (window_value gamma now arrivals) (binding arrivals)) None"
    unfolding binding_def by (rule tightest_fold) (simp add: rtt_windows_def)
  show ?thesis
  proof (cases "binding arrivals")
    case Nil
    then show ?thesis using that(1) f by simp
  next
    case (Cons w ws)
    let ?vs = "map (window_value gamma now arrivals) ws"
    obtain y where y: "fold (\<lambda>v m. Some (case m of None \<Rightarrow> v | Some x \<Rightarrow> min x v)) ?vs
        (Some (window_value gamma now arrivals w)) = Some y"
      using fold_min_some by blast
    then have "tightest gamma now arrivals rtt_windows None = Some y" using f Cons by simp
    moreover have "y \<in> window_value gamma now arrivals ` set (binding arrivals)"
      using fold_min [OF y] Cons by auto
    then obtain v where v: "v \<in> set (binding arrivals)" "y = window_value gamma now arrivals v" by blast
    moreover have "\<forall>v \<in> set (binding arrivals). y \<le> window_value gamma now arrivals v"
      using fold_min [OF y] Cons by auto
    ultimately show ?thesis using that(2) [OF v(1)] v(2) by simp
  qed
qed

lemma binding_width: "w \<in> set (binding arrivals) \<Longrightarrow> 0 < snd w"
  unfolding binding_def set_filter rtt_windows_def by auto

lemma window_value_pos:
  assumes "0 < rtt_c gamma" "w \<in> set (binding arrivals)"
  shows "0 < window_value gamma now arrivals w"
  using assms binding_width [OF assms(2)] block_age_pos [of now "arrivals ! (fst w - 1)"]
  by (simp add: window_value_def)

lemma factor_le_iff:
  assumes c: "0 < rtt_c gamma" and x: "1 \<le> x"
  shows "factor gamma now arrivals \<le> x \<longleftrightarrow> (\<forall>w \<in> set (binding arrivals). 1 \<le> x * window_value gamma now arrivals w)"
proof (cases rule: tightest_cases [of arrivals gamma now])
  case 1
  then show ?thesis using x by (simp add: factor_def)
next
  case (2 w)
  let ?v = "window_value gamma now arrivals w"
  have p: "0 < ?v" by (rule window_value_pos [OF c 2(1)])
  have "factor gamma now arrivals \<le> x \<longleftrightarrow> 1 \<le> x * ?v"
  proof (cases "1 \<le> ?v")
    case True
    then show ?thesis using 2(2) x mult_mono [of 1 x 1 ?v] by (simp add: factor_def)
  next
    case False
    then show ?thesis using 2(2) p by (simp add: factor_def field_simps)
  qed
  also have "\<dots> \<longleftrightarrow> (\<forall>v \<in> set (binding arrivals). 1 \<le> x * window_value gamma now arrivals v)"
    using 2(1,3) x by (meson mult_left_mono order.trans zero_le_one)
  finally show ?thesis .
qed

lemma factor_ge_one: "0 < rtt_c gamma \<Longrightarrow> 1 \<le> factor gamma now arrivals"
  by (cases rule: tightest_cases [of arrivals gamma now])
    (use window_value_pos [of gamma _ arrivals now] in \<open>auto simp: factor_def field_simps\<close>)

lemma window_value_power:
  "0 < snd w \<Longrightarrow> window_value gamma now arrivals w = rtt_c gamma * (block_age now (arrivals ! (fst w - 1)) / snd w) ^ 5"
  using block_age_pos [of now "arrivals ! (fst w - 1)"]
  by (simp add: window_value_def rtt_k_def powr_numeral)

lemma window_value_mono:
  assumes "0 < rtt_c gamma" "now \<le> now'" "w \<in> set (binding arrivals)"
  shows "window_value gamma now arrivals w \<le> window_value gamma now' arrivals w"
proof -
  let ?t = "arrivals ! (fst w - 1)"
  have w: "0 < snd w" by (rule binding_width [OF assms(3)])
  have "block_age now ?t / snd w \<le> block_age now' ?t / snd w" "0 \<le> block_age now ?t / snd w"
    using w block_age_mono [OF assms(2), of ?t] block_age_pos [of now ?t] by (simp_all add: divide_right_mono)
  then show ?thesis
    unfolding window_value_power [OF w] using assms(1) by (intro mult_left_mono power_mono) simp_all
qed

text \<open>The constant with the value of the gamma function at 7/6.\<close>

lemma rtt_c_bounds:
  assumes "927 / 1000 \<le> gamma (7 / 6)" "gamma (7 / 6) \<le> 928 / 1000"
  shows "38 / 10 \<le> rtt_c gamma" "rtt_c gamma \<le> 384 / 100"
proof -
  have c: "rtt_c gamma = 6 * gamma (7 / 6) ^ 6"
    using assms by (simp add: rtt_c_def rtt_k_def powr_numeral)
  have "(927 / 1000) ^ 6 \<le> gamma (7 / 6) ^ 6" using assms(1) by (intro power_mono) auto
  moreover have "gamma (7 / 6) ^ 6 \<le> (928 / 1000) ^ 6" using assms by (intro power_mono) auto
  ultimately show "38 / 10 \<le> rtt_c gamma" "rtt_c gamma \<le> 384 / 100" unfolding c by (simp_all add: power_divide)
qed

lemma factor_after_block:
  assumes g: "927 / 1000 \<le> gamma (7 / 6)" "gamma (7 / 6) \<le> 928 / 1000" and a: "arrivals \<noteq> []" "now - arrivals ! 0 \<le> 99 * second"
  shows "2 \<le> factor gamma now arrivals"
proof (rule ccontr)
  assume "\<not> 2 \<le> factor gamma now arrivals"
  note c = rtt_c_bounds [of gamma, OF g]
  then have c0: "0 < rtt_c gamma" by simp
  have "time_sub now (arrivals ! 0) \<le> 99 * second"
    using a by (auto simp: time_sub_def min_duration_def)
  then have age: "block_age now (arrivals ! 0) \<le> 99" by (simp add: block_age_def)
  have w: "(1, 150) \<in> set (binding arrivals)" using a by (cases arrivals) (auto simp: binding_def rtt_windows_def)
  have "(block_age now (arrivals ! 0) / 150) ^ 5 \<le> (99 / 150) ^ 5"
    using age block_age_pos [of now "arrivals ! 0"] by (intro power_mono) auto
  then have "window_value gamma now arrivals (1, 150) \<le> 384 / 100 * (99 / 150) ^ 5"
    using c block_age_pos [of now "arrivals ! 0"]
    by (subst window_value_power, simp) (intro mult_mono, auto)
  then have v: "window_value gamma now arrivals (1, 150) < 1 / 2" by (simp add: power_divide)
  have "1 \<le> 2 * window_value gamma now arrivals (1, 150)"
    using factor_le_iff [OF c0, of 2 now arrivals] w \<open>\<not> 2 \<le> factor gamma now arrivals\<close> by simp
  then show False using v by simp
qed

subsection \<open>What the watcher records\<close>

lemma watch_job_none:
  "params_array raw = None \<or> (\<exists>ps. params_array raw = Some ps \<and> string_at ps 1 = None) \<Longrightarrow> watch_job raw now w = (False, w)"
  by (auto simp: watch_job_def)

lemma watch_job_some:
  assumes "params_array raw = Some ps" "string_at ps 1 = Some prev"
  shows "fst (watch_job raw now w) \<longleftrightarrow> wt_prevhash w \<noteq> [] \<and> prev \<noteq> wt_prevhash w"
    "wt_prevhash (snd (watch_job raw now w)) = prev"
    "wt_arrivals (snd (watch_job raw now w)) =
       (if fst (watch_job raw now w) then now # take (rtt_blocks - 1) (wt_arrivals w) else wt_arrivals w)"
    "wt_updated (snd (watch_job raw now w)) = now"
    "wt_connected (snd (watch_job raw now w)) = wt_connected w"
  using assms by (auto simp: watch_job_def Let_def split: option.splits)

text \<open>The previous-block hash of a job, and the reference: the times at which it changed.\<close>

definition job_hash :: "json option \<Rightarrow> string option" where
  "job_hash raw = (case params_array raw of None \<Rightarrow> None | Some ps \<Rightarrow> string_at ps 1)"

fun block_times :: "string \<Rightarrow> (time \<times> json option) list \<Rightarrow> time list" where
  "block_times prev [] = []"
| "block_times prev ((t, raw) # js) =
     (case job_hash raw of None \<Rightarrow> block_times prev js
      | Some h \<Rightarrow> (if prev \<noteq> [] \<and> h \<noteq> prev then [t] else []) @ block_times h js)"

definition watch_jobs :: "(time \<times> json option) list \<Rightarrow> watcher \<Rightarrow> watcher" where
  "watch_jobs js w = fold (\<lambda>(t, raw) w. snd (watch_job raw t w)) js w"

lemma block_times_subset: "set (block_times prev js) \<subseteq> fst ` set js"
  by (induction prev js rule: block_times.induct) (auto split: option.splits)

lemma take_Cons_take: "take n (xs @ a # take (n - 1) ys) = take n (xs @ a # ys)"
proof (cases "n - length xs")
  case (Suc k)
  then have "min k (n - 1) = k" by simp
  then show ?thesis using Suc by simp
qed simp

lemma watch_jobs_arrivals:
  "length (wt_arrivals w) \<le> rtt_blocks \<Longrightarrow>
   wt_arrivals (watch_jobs js w) = take rtt_blocks (rev (block_times (wt_prevhash w) js) @ wt_arrivals w)"
proof (induction js arbitrary: w)
  case (Cons j js)
  obtain t raw where j: "j = (t, raw)" by fastforce
  let ?w = "snd (watch_job raw t w)"
  have step: "watch_jobs (j # js) w = watch_jobs js ?w" by (simp add: watch_jobs_def j)
  show ?case
  proof (cases "job_hash raw")
    case None
    then have "?w = w" using watch_job_none [of raw t w] by (auto simp: job_hash_def split: option.splits)
    then show ?thesis using Cons step j None by simp
  next
    case (Some h)
    then obtain ps where ps: "params_array raw = Some ps" "string_at ps 1 = Some h"
      by (auto simp: job_hash_def split: option.splits)
    note f = watch_job_some [OF ps, of t w]
    have "length (wt_arrivals ?w) \<le> rtt_blocks" using f Cons.prems by (simp add: rtt_blocks_def)
    then have "wt_arrivals (watch_jobs (j # js) w) = take rtt_blocks (rev (block_times h js) @ wt_arrivals ?w)"
      using Cons.IH f(2) step by simp
    then show ?thesis using f(1,3) Some j by (simp add: take_Cons_take del: take_append One_nat_def)
  qed
qed (simp add: watch_jobs_def)

subsection \<open>Properties\<close>

text \<open>A block never gets harder while no block arrives: the factor is at least 1 and falls with time.\<close>

theorem factor_falls:
  assumes "0 < gamma (7 / 6)" "now \<le> now'"
  shows "1 \<le> factor gamma now' arrivals \<and> factor gamma now' arrivals \<le> factor gamma now arrivals"
proof -
  have c: "0 < rtt_c gamma" using assms(1) by (simp add: rtt_c_def rtt_k_def)
  let ?x = "factor gamma now arrivals"
  have x: "1 \<le> ?x" by (rule factor_ge_one [OF c])
  have "\<forall>w \<in> set (binding arrivals). 1 \<le> ?x * window_value gamma now arrivals w"
    using factor_le_iff [OF c x, of now arrivals] by simp
  then have "\<forall>w \<in> set (binding arrivals). 1 \<le> ?x * window_value gamma now' arrivals w"
    using window_value_mono [OF c assms(2)] x by (meson mult_left_mono order.trans zero_le_one)
  then show ?thesis using factor_le_iff [OF c x, of now' arrivals] factor_ge_one [OF c] by blast
qed

theorem factor_falls_witness: "factor (\<lambda>x. 1) 2000000000 [0] \<le> factor (\<lambda>x. 1) 1000000000 [0]"
  using factor_falls [of "\<lambda>x. 1" 1000000000 2000000000 "[0]"] by simp

text \<open>The thresholds of the switcher: for 99 seconds after a block the next one has to be at least
  twice as hard, so the farm leaves the target; and once the last 1, 2, 5, 11 and 17 blocks took at least
  three quarters of the spans the rule scales them to, it is at most 1.2 times as hard, so the farm may
  go there. The value of the gamma function is known to three digits.\<close>

theorem factor_thresholds:
  assumes g: "927 / 1000 \<le> gamma (7 / 6)" "gamma (7 / 6) \<le> 928 / 1000"
  shows "(arrivals \<noteq> [] \<and> now - arrivals ! 0 \<le> 99 * second \<longrightarrow> 2 \<le> factor gamma now arrivals) \<and>
    ((\<forall>(back, width) \<in> set rtt_windows. length arrivals < back \<or>
        3 / 4 * width \<le> block_age now (arrivals ! (back - 1))) \<longrightarrow> factor gamma now arrivals \<le> 12 / 10)"
proof (intro conjI impI)
  note c = rtt_c_bounds [of gamma, OF g]
  then have c0: "0 < rtt_c gamma" by simp
  show "arrivals \<noteq> [] \<and> now - arrivals ! 0 \<le> 99 * second \<Longrightarrow> 2 \<le> factor gamma now arrivals"
    using factor_after_block [of gamma, OF g] by blast
  assume old: "\<forall>(back, width) \<in> set rtt_windows. length arrivals < back \<or> 3 / 4 * width \<le> block_age now (arrivals ! (back - 1))"
  have "1 \<le> 12 / 10 * window_value gamma now arrivals w" if w: "w \<in> set (binding arrivals)" for w
  proof -
    have s: "0 < snd w" by (rule binding_width [OF w])
    have "3 / 4 * snd w \<le> block_age now (arrivals ! (fst w - 1))"
      using old w by (cases w) (fastforce simp: binding_def)
    then have "(3 / 4) ^ 5 \<le> (block_age now (arrivals ! (fst w - 1)) / snd w) ^ 5"
      using s by (intro power_mono) (auto simp: field_simps)
    then have "38 / 10 * (3 / 4) ^ 5 \<le> window_value gamma now arrivals w"
      unfolding window_value_power [OF s] using c by (intro mult_mono) auto
    then show ?thesis by (simp add: power_divide)
  qed
  then show "factor gamma now arrivals \<le> 12 / 10" using factor_le_iff [OF c0, of "12 / 10" now arrivals] by simp
qed

theorem factor_thresholds_witness: "2 \<le> factor (\<lambda>x. 9277 / 10000) (99 * second) [0]"
  using factor_thresholds [of "\<lambda>x. 9277 / 10000" "[0]" "99 * second"] by simp

text \<open>The watcher knows exactly the blocks it saw: after any jobs the arrival times are the last 17 of
  the times at which the previous-block hash changed, before those known already.\<close>

theorem watcher_records_blocks:
  assumes "length (wt_arrivals w) \<le> rtt_blocks"
  shows "wt_arrivals (watch_jobs js w) = take rtt_blocks (rev (block_times (wt_prevhash w) js) @ wt_arrivals w) \<and>
    length (wt_arrivals (watch_jobs js w)) \<le> rtt_blocks"
  using watch_jobs_arrivals [OF assms] by simp

definition job_of :: "string \<Rightarrow> json option" where
  "job_of h = Some (JArr [encode_string ''1'', encode_string h])"

lemma job_hash_of [simp]: "job_hash (job_of h) = Some h"
  by (simp add: job_hash_def job_of_def params_array_def string_at_def string_of_def encode_string_def unquote_quote)

theorem watcher_records_blocks_witness:
  "wt_arrivals (watch_jobs [(10, job_of ''aa''), (20, job_of ''aa''), (30, job_of ''bb''), (40, job_of ''cc'')] new_watcher) = [40, 30]"
  using watcher_records_blocks [of new_watcher "[(10, job_of ''aa''), (20, job_of ''aa''), (30, job_of ''bb''), (40, job_of ''cc'')]"]
  by (simp add: new_watcher_def rtt_blocks_def)

end
