(* ===== verification/Timed.thy ===== *)
theory Timed
  imports Routing Rtt
begin

text \<open>
  Package \<open>timed\<close>: timed switching (\<open>timed.go\<close>) and block hunting (\<open>hunt.go\<close>), which move the farm to a
  pool for a while and bring it back.

  \<^item> \<open>timed\<close> is the state of a \<open>Switcher\<close> with the content of its state file; the pool manager is the
    state \<open>'m\<close> behind the operations of \<open>pool_ops\<close>.
  \<^item> \<open>timed_step\<close> is \<open>step\<close> and \<open>start_now\<close> is \<open>StartNow\<close>. They read the clock at their begin
    (\<open>te_now\<close>) and again when a stint is booked (\<open>te_later\<close>); how hard a block is and whether blocks are
    seen, what others did to the manager during the check of a switch, and whether the state file could be
    written are in \<open>timed_env\<close>.
  \<^item> An error text is the error it came from; seconds in the state file are kept as durations.

  The lemmas are proved in the locale \<open>routing\<close> and used for the manager: the farm is never left on the
  target with the way back forgotten, a choice of the operator stands, the farm stays on the target only
  while its time is not used up, and it leaves when a block arrives.
\<close>

definition timed_tick :: duration where "timed_tick = 5 * second"
definition pause_above :: real where "pause_above = 2"
definition resume_below :: real where "resume_below = 12 / 10"
definition min_stint :: duration where "min_stint = minute"
definition hunt_retry :: duration where "hunt_retry = 5 * minute"
definition hunt_day :: duration where "hunt_day = 24 * hour"
definition max_stints :: nat where "max_stints = 1440"

datatype away_reason = ByTimer | ByHunt

record away =
  aw_reason :: away_reason
  aw_period :: time
  aw_since :: time
  aw_target :: string
  aw_home :: string
  aw_fallback :: "string list"
  aw_set :: "string list"

definition stint_start :: "away \<Rightarrow> time" where
  "stint_start a = (if is_zero (aw_since a) then aw_period a else aw_since a)"

record timed_file =
  tf_away :: "away option"
  tf_period :: time
  tf_spent :: duration
  tf_done :: bool
  tf_anchor :: time

record hunter =
  hu_hold :: bool
  hu_retry :: time
  hu_err :: "api_error option"
  hu_stints :: "(time \<times> time) list"

record timed =
  ti_anchor :: time
  ti_cur :: "away option"
  ti_period :: time
  ti_spent :: duration
  ti_done :: bool
  ti_waiting :: bool
  ti_last_err :: "api_error option"
  ti_hunt :: hunter
  ti_kick :: bool
  ti_file :: "timed_file option"

datatype timed_event =
    TimedRestart string duration duration
  | TimedPause string real string
  | CannotSwitch away_reason string string api_error
  | HomeDeleted away_reason string string
  | CannotReturn away_reason string api_error
  | Handover away_reason string away_reason
  | HuntBlind string
  | HuntBlock duration string string

record 'm timed_env =
  te_now :: time
  te_later :: time
  te_hardness :: "(pool \<Rightarrow> real) option"
  te_live :: "(pool \<Rightarrow> bool) option"
  te_during :: "'m \<Rightarrow> 'm"
  te_saved :: bool

text \<open>\<open>New\<close>, with the parsed state file if there is one.\<close>

definition new_timed :: "timed_file option \<Rightarrow> timed" where
  "new_timed f =
     (let t = \<lparr>ti_anchor = zero_time, ti_cur = None, ti_period = zero_time, ti_spent = 0, ti_done = False, ti_waiting = False,
        ti_last_err = None, ti_hunt = \<lparr>hu_hold = False, hu_retry = zero_time, hu_err = None, hu_stints = []\<rparr>, ti_kick = False,
        ti_file = f\<rparr>
      in case f of None \<Rightarrow> t
         | Some s \<Rightarrow>
             (let t = t\<lparr>ti_cur := tf_away s, ti_period := tf_period s, ti_spent := tf_spent s, ti_done := tf_done s,
                ti_anchor := tf_anchor s\<rparr>
              in case tf_away s of None \<Rightarrow> t
                 | Some a \<Rightarrow> if is_zero (tf_period s) then t\<lparr>ti_period := aw_period a\<rparr> else t))"

definition period_start :: "time \<Rightarrow> time \<Rightarrow> duration \<Rightarrow> time" where
  "period_start now anchor period =
     (if is_zero anchor \<or> now < anchor then time_truncate now period
      else anchor + dur_truncate (time_sub now anchor) period)"

definition timed_target :: "snapshot \<Rightarrow> pool option" where
  "timed_target s = List.find p_timed_target (sn_pools s)"

definition kick :: "timed \<Rightarrow> timed" where "kick t = t\<lparr>ti_kick := True\<rparr>"

definition save_away :: "away option \<Rightarrow> bool \<Rightarrow> timed \<Rightarrow> timed" where
  "save_away a saved t =
     (let t = t\<lparr>ti_cur := a\<rparr> in
      if saved then t\<lparr>ti_file := Some \<lparr>tf_away = a, tf_period = ti_period t, tf_spent = ti_spent t, tf_done = ti_done t,
        tf_anchor = ti_anchor t\<rparr>\<rparr> else t)"

subsection \<open>Hunts\<close>

fun prune_stints :: "time \<Rightarrow> (time \<times> time) list \<Rightarrow> (time \<times> time) list" where
  "prune_stints now [] = []"
| "prune_stints now (x # xs) =
     (if hunt_day < time_sub now (snd x) \<or> max_stints < length (x # xs) then prune_stints now xs else x # xs)"

definition record_stint :: "time \<Rightarrow> time \<Rightarrow> hunter \<Rightarrow> hunter" where
  "record_stint start finish h = h\<lparr>hu_stints := prune_stints finish (hu_stints h @ [(start, finish)])\<rparr>"

fun hunt_pool :: "pool list \<Rightarrow> pool option \<Rightarrow> pool option" where
  "hunt_pool [] first = first"
| "hunt_pool (p # ps) first =
     (if p_coin p \<noteq> rtt_coin \<or> \<not> p_solo p then hunt_pool ps first
      else if p_timed_target p then Some p
      else hunt_pool ps (if first = None then Some p else first))"

definition hunt_target :: "snapshot \<Rightarrow> pool option" where
  "hunt_target s = hunt_pool (sn_pools s) None"

definition hard_of :: "'m timed_env \<Rightarrow> pool \<Rightarrow> real" where
  "hard_of env p = (case te_hardness env of None \<Rightarrow> 1 | Some f \<Rightarrow> f p)"

record hunt_view =
  hv_on :: bool
  hv_target :: pool
  hv_hard :: real
  hv_live :: bool
  hv_hold :: bool
  hv_retry :: time

definition hunt_view :: "settings_values \<Rightarrow> snapshot \<Rightarrow> 'm timed_env \<Rightarrow> timed \<Rightarrow> hunt_view" where
  "hunt_view v s env t =
     (let p = hunt_target s; on = (v_hunt_switch v = hunt_on \<and> p \<noteq> None);
          q = (case p of None \<Rightarrow> zero_pool | Some p \<Rightarrow> p)
      in \<lparr>hv_on = on, hv_target = q, hv_hard = (if on then hard_of env q else 1),
          hv_live = (on \<and> (case te_live env of None \<Rightarrow> False | Some f \<Rightarrow> f q)),
          hv_hold = hu_hold (ti_hunt t), hv_retry = hu_retry (ti_hunt t)\<rparr>)"

definition hunt_wants :: "hunt_view \<Rightarrow> time \<Rightarrow> bool" where
  "hunt_wants h now \<longleftrightarrow> hv_on h \<and> hv_live h \<and> \<not> hv_hold h \<and> \<not> now < hv_retry h \<and> hv_hard h \<le> resume_below"

definition hunt_keeps :: "hunt_view \<Rightarrow> away \<Rightarrow> bool" where
  "hunt_keeps h a \<longleftrightarrow> hv_on h \<and> hv_live h \<and> \<not> hv_hold h \<and> aw_target a = p_id (hv_target h) \<and> hv_hard h < pause_above"

subsection \<open>There and back\<close>

definition ended :: "away \<Rightarrow> bool \<Rightarrow> time \<Rightarrow> timed \<Rightarrow> timed" where
  "ended a final now t =
     (if aw_reason a = ByHunt then t\<lparr>ti_hunt := record_stint (stint_start a) now (ti_hunt t)\<rparr>
      else if aw_period a = ti_period t then
        t\<lparr>ti_spent := ti_spent t + time_sub now (stint_start a), ti_done := (ti_done t \<or> final)\<rparr>
      else t)"

text \<open>\<open>leave\<close>: the way back is saved before the switch.\<close>

definition leave ::
  "'m pool_ops \<Rightarrow> 'm timed_env \<Rightarrow> away \<Rightarrow> snapshot \<Rightarrow> timed \<Rightarrow> 'm \<Rightarrow> timed \<times> 'm \<times> timed_event list" where
  "leave ops env a s t m =
     (let a = a\<lparr>aw_home := sn_active s, aw_fallback := sn_fallback s\<rparr>;
          t = save_away (Some a) (te_saved env) t;
          why = (if aw_reason a = ByHunt then ''hunt'' else ''timer'')
      in case op_activate ops (aw_target a) why m (te_during env m) of
           (Inl e, m') \<Rightarrow>
             (let t = (if aw_reason a = ByHunt
                       then t\<lparr>ti_hunt := (ti_hunt t)\<lparr>hu_err := Some e, hu_retry := te_later env + hunt_retry\<rparr>\<rparr>
                       else t\<lparr>ti_last_err := Some e, ti_done := True\<rparr>)
              in (save_away None (te_saved env) t, m',
                  [CannotSwitch (aw_reason a) (snap_name s (aw_target a)) (snap_name s (aw_home a)) e]))
         | (Inr _, m') \<Rightarrow>
             (let t = (if aw_reason a = ByHunt then t\<lparr>ti_hunt := (ti_hunt t)\<lparr>hu_err := None\<rparr>\<rparr> else t)
              in (save_away (Some (a\<lparr>aw_set := sn_fallback (op_snap ops m')\<rparr>)) (te_saved env) t, m', [])))"

text \<open>\<open>back\<close>. A failed write of the pools' state leaves everything for the next step.\<close>

definition go_back ::
  "'m pool_ops \<Rightarrow> 'm timed_env \<Rightarrow> away \<Rightarrow> snapshot \<Rightarrow> bool \<Rightarrow> timed \<Rightarrow> 'm \<Rightarrow> timed \<times> 'm \<times> timed_event list" where
  "go_back ops env a s final t m =
     (let forget = (\<lambda>final t. save_away None (te_saved env) (ended a final (te_later env) t)) in
      if sn_active s \<noteq> aw_target a then
        (forget True (t\<lparr>ti_hunt := (ti_hunt t)\<lparr>hu_hold := True\<rparr>\<rparr>), m, [])
      else if snap_get s (aw_home a) = None then
        (forget True t, m, [HomeDeleted (aw_reason a) (aw_home a) (snap_name s (aw_target a))])
      else
        (let fallback = (if sn_fallback s \<noteq> aw_set a then sn_fallback s else aw_fallback a);
             why = (if aw_reason a = ByHunt then ''hunt'' else ''timer'')
         in case op_restore ops (aw_home a) fallback why m of
              (Inl e, m') \<Rightarrow> (t, m', [CannotReturn (aw_reason a) (snap_name s (aw_home a)) e])
            | (Inr _, m') \<Rightarrow> (forget final t, m', [])))"

definition hand_over ::
  "'m timed_env \<Rightarrow> away \<Rightarrow> away_reason \<Rightarrow> time \<Rightarrow> time \<Rightarrow> snapshot \<Rightarrow> timed \<Rightarrow> timed \<times> timed_event list" where
  "hand_over env a why period now s t =
     (save_away (Some (a\<lparr>aw_reason := why, aw_period := period, aw_since := now\<rparr>)) (te_saved env) (ended a True (te_later env) t),
      [Handover (aw_reason a) (snap_name s (aw_target a)) why])"

definition maybe_hunt ::
  "'m pool_ops \<Rightarrow> 'm timed_env \<Rightarrow> snapshot \<Rightarrow> hunt_view \<Rightarrow> time \<Rightarrow> timed \<Rightarrow> 'm \<Rightarrow> timed \<times> 'm \<times> timed_event list" where
  "maybe_hunt ops env s h now t m =
     (if \<not> hunt_wants h now \<or> sn_active s = [] \<or> sn_active s = p_id (hv_target h) then (t, m, [])
      else leave ops env \<lparr>aw_reason = ByHunt, aw_period = zero_time, aw_since = now, aw_target = p_id (hv_target h),
             aw_home = [], aw_fallback = [], aw_set = []\<rparr> s t m)"

definition step_hunt ::
  "'m pool_ops \<Rightarrow> 'm timed_env \<Rightarrow> away \<Rightarrow> snapshot \<Rightarrow> hunt_view \<Rightarrow> bool \<Rightarrow> pool \<Rightarrow> time \<Rightarrow> time \<Rightarrow> timed \<Rightarrow> 'm
     \<Rightarrow> timed \<times> 'm \<times> timed_event list" where
  "step_hunt ops env cur s h timer_due tp period now t m =
     (if sn_active s \<noteq> aw_target cur then go_back ops env cur s True t m
      else if timer_due \<and> p_id tp = aw_target cur then
        (case hand_over env cur ByTimer period now s t of (t', evs) \<Rightarrow> (t', m, evs))
      else if timer_due then (case go_back ops env cur s True t m of (t', m', evs) \<Rightarrow> (kick t', m', evs))
      else if \<not> hv_on h \<or> aw_target cur \<noteq> p_id (hv_target h) then go_back ops env cur s True t m
      else if \<not> hv_live h then
        (case go_back ops env cur s True t m of (t', m', evs) \<Rightarrow> (t', m', HuntBlind (snap_name s (aw_home cur)) # evs))
      else if pause_above \<le> hv_hard h then
        (case go_back ops env cur s True t m of (t', m', evs) \<Rightarrow>
           (t', m', HuntBlock (time_sub now (stint_start cur)) (snap_name s (aw_target cur)) (snap_name s (aw_home cur)) # evs))
      else (t, m, []))"

subsection \<open>The schedule\<close>

text \<open>What \<open>step\<close> reads and books before it decides.\<close>

record timed_view =
  tv_snap :: snapshot
  tv_target :: pool
  tv_on :: bool
  tv_hard :: real
  tv_hunt :: hunt_view
  tv_period :: time
  tv_left :: duration
  tv_period_left :: duration

definition timed_left :: "settings_values \<Rightarrow> time \<Rightarrow> time \<Rightarrow> timed \<Rightarrow> duration" where
  "timed_left v period now t =
     (v_timed_duration v - ti_spent t) -
     (case ti_cur t of None \<Rightarrow> 0
      | Some a \<Rightarrow> if aw_reason a = ByTimer \<and> aw_period a = period then time_sub now (stint_start a) else 0)"

definition enter_period :: "time \<Rightarrow> timed \<Rightarrow> timed" where
  "enter_period period t =
     (if period \<noteq> ti_period t then t\<lparr>ti_period := period, ti_spent := 0, ti_done := False, ti_last_err := None\<rparr> else t)"

definition drop_hold :: "hunt_view \<Rightarrow> timed \<Rightarrow> timed" where
  "drop_hold h t =
     (if \<not> hv_on h \<or> pause_above \<le> hv_hard h then t\<lparr>ti_hunt := (ti_hunt t)\<lparr>hu_hold := False\<rparr>\<rparr> else t)"

definition step_view :: "'m pool_ops \<Rightarrow> 'm timed_env \<Rightarrow> settings_values \<Rightarrow> timed \<Rightarrow> 'm \<Rightarrow> timed_view \<times> timed" where
  "step_view ops env v t m =
     (let s = op_snap ops m; tp = timed_target s; now = te_now env;
          period = period_start now (ti_anchor t) (v_timed_period v);
          on = (v_timed_switch v = timed_on \<and> tp \<noteq> None);
          q = (case tp of None \<Rightarrow> zero_pool | Some p \<Rightarrow> p);
          h = hunt_view v s env t;
          t = enter_period period t;
          left = timed_left v period now t;
          t = drop_hold h (t\<lparr>ti_waiting := False\<rparr>)
      in (\<lparr>tv_snap = s, tv_target = q, tv_on = on, tv_hard = (if on then hard_of env q else 1), tv_hunt = h, tv_period = period,
           tv_left = left, tv_period_left = time_sub (period + v_timed_period v) now\<rparr>, t))"

definition due_now :: "timed_view \<Rightarrow> timed \<Rightarrow> bool" where
  "due_now w t \<longleftrightarrow> tv_on w \<and> \<not> ti_done t \<and> min_stint \<le> tv_left w \<and> min_stint \<le> tv_period_left w"

text \<open>A stint of the timer in progress.\<close>

definition step_away ::
  "'m pool_ops \<Rightarrow> 'm timed_env \<Rightarrow> timed_view \<Rightarrow> away \<Rightarrow> timed \<Rightarrow> 'm \<Rightarrow> timed \<times> 'm \<times> timed_event list" where
  "step_away ops env w cur t m =
     (let s = tv_snap w; now = te_now env in
      if sn_active s \<noteq> aw_target cur then go_back ops env cur s True t m
      else if aw_period cur \<noteq> tv_period w \<and> tv_on w \<and> aw_target cur = p_id (tv_target w) then
        (if tv_hard w < pause_above
         then (save_away (Some (cur\<lparr>aw_period := tv_period w, aw_since := now\<rparr>)) (te_saved env) t, m, [])
         else go_back ops env cur s False t m)
      else if \<not> tv_on w \<or> aw_target cur \<noteq> p_id (tv_target w) \<or> tv_left w \<le> 0 then
        (if hunt_keeps (tv_hunt w) cur
         then (case hand_over env cur ByHunt zero_time now s t of (t', evs) \<Rightarrow> (t', m, evs))
         else go_back ops env cur s True t m)
      else if pause_above \<le> tv_hard w \<and> min_stint \<le> tv_left w then
        (case go_back ops env cur s False t m of (t', m', evs) \<Rightarrow>
           (t', m', TimedPause (p_name (tv_target w)) (tv_hard w) (snap_name s (aw_home cur)) # evs))
      else (t, m, []))"

text \<open>The farm is at home.\<close>

definition step_home ::
  "'m pool_ops \<Rightarrow> 'm timed_env \<Rightarrow> timed_view \<Rightarrow> timed \<Rightarrow> 'm \<Rightarrow> timed \<times> 'm \<times> timed_event list" where
  "step_home ops env w t m =
     (let s = tv_snap w; now = te_now env in
      if due_now w t then
        (if resume_below < tv_hard w then maybe_hunt ops env s (tv_hunt w) now (t\<lparr>ti_waiting := True\<rparr>) m
         else if sn_active s = [] \<or> sn_active s = p_id (tv_target w)
         then (save_away (ti_cur t) (te_saved env) (t\<lparr>ti_done := True\<rparr>), m, [])
         else leave ops env \<lparr>aw_reason = ByTimer, aw_period = tv_period w, aw_since = now, aw_target = p_id (tv_target w),
                aw_home = [], aw_fallback = [], aw_set = []\<rparr> s t m)
      else maybe_hunt ops env s (tv_hunt w) now t m)"

definition timed_step ::
  "'m pool_ops \<Rightarrow> 'm timed_env \<Rightarrow> settings_values \<Rightarrow> timed \<Rightarrow> 'm \<Rightarrow> timed \<times> 'm \<times> timed_event list" where
  "timed_step ops env v t m =
     (let (w, t) = step_view ops env v t m in
      case ti_cur t of
        None \<Rightarrow> step_home ops env w t m
      | Some cur \<Rightarrow>
          (case aw_reason cur of
             ByHunt \<Rightarrow> step_hunt ops env cur (tv_snap w) (tv_hunt w) (due_now w t \<and> tv_hard w \<le> resume_below)
                         (tv_target w) (tv_period w) (te_now env) t m
           | ByTimer \<Rightarrow> step_away ops env w cur t m))"

datatype start_error = TimedOff | NoTarget

text \<open>\<open>StartNow\<close>; a stint in progress starts over or is taken over by the timer.\<close>

definition restart_stint :: "'m timed_env \<Rightarrow> string \<Rightarrow> timed \<Rightarrow> away option \<times> timed" where
  "restart_stint env target t =
     (case ti_cur t of None \<Rightarrow> (None, t)
      | Some a \<Rightarrow>
          if aw_reason a = ByTimer then (Some (a\<lparr>aw_period := te_now env, aw_since := te_now env\<rparr>), t)
          else if aw_target a = target
          then (Some (a\<lparr>aw_reason := ByTimer, aw_period := te_now env, aw_since := te_now env\<rparr>), ended a True (te_later env) t)
          else (Some a, t))"

definition start_now ::
  "'m pool_ops \<Rightarrow> 'm timed_env \<Rightarrow> settings_values \<Rightarrow> timed \<Rightarrow> 'm \<Rightarrow> (start_error + timed_event list) \<times> timed" where
  "start_now ops env v t m =
     (if v_timed_switch v \<noteq> timed_on then (Inl TimedOff, t)
      else (case timed_target (op_snap ops m) of
          None \<Rightarrow> (Inl NoTarget, t)
        | Some tp \<Rightarrow>
            (let (cur, t) = restart_stint env (p_id tp)
                   (t\<lparr>ti_anchor := te_now env, ti_period := te_now env, ti_spent := 0, ti_done := False, ti_last_err := None\<rparr>)
             in (Inr [TimedRestart (p_name tp) (v_timed_duration v) (v_timed_period v)],
                 kick (save_away cur (te_saved env) t)))))"

definition timed_home :: "timed \<Rightarrow> string" where
  "timed_home t = (case ti_cur t of None \<Rightarrow> [] | Some a \<Rightarrow> aw_home a)"

subsection \<open>The status\<close>

record hunt_status =
  hs_mode :: string
  hs_target :: string
  hs_live :: bool
  hs_hard :: real
  hs_since :: "time option"
  hs_home :: string
  hs_hold :: bool
  hs_count :: nat
  hs_time :: duration
  hs_error :: "api_error option"
  hs_retry :: "time option"

definition hunting_status :: "settings_values \<Rightarrow> snapshot \<Rightarrow> 'm timed_env \<Rightarrow> timed \<Rightarrow> hunt_status \<times> timed" where
  "hunting_status v s env t =
     (let p = hunt_target s; now = te_now env;
          t = t\<lparr>ti_hunt := (ti_hunt t)\<lparr>hu_stints := prune_stints now (hu_stints (ti_hunt t))\<rparr>\<rparr>;
          h = ti_hunt t;
          cur = (case ti_cur t of None \<Rightarrow> None | Some a \<Rightarrow> if aw_reason a = ByHunt then Some a else None);
          total = (\<Sum>(a, b)\<leftarrow>hu_stints h. time_sub b a)
      in (\<lparr>hs_mode = v_hunt_switch v, hs_target = (case p of None \<Rightarrow> [] | Some p \<Rightarrow> p_id p),
           hs_live = (case p of None \<Rightarrow> False | Some p \<Rightarrow> (case te_live env of None \<Rightarrow> False | Some f \<Rightarrow> f p)),
           hs_hard = (case p of None \<Rightarrow> 1 | Some p \<Rightarrow> hard_of env p),
           hs_since = map_option stint_start cur, hs_home = (case cur of None \<Rightarrow> [] | Some a \<Rightarrow> aw_home a),
           hs_hold = hu_hold h, hs_count = length (hu_stints h) + (if cur = None then 0 else 1),
           hs_time = total + (case cur of None \<Rightarrow> 0 | Some a \<Rightarrow> time_sub now (stint_start a)),
           hs_error = hu_err h, hs_retry = (if now < hu_retry h then Some (hu_retry h) else None)\<rparr>, t))"

record timed_status =
  ts_mode :: string
  ts_target :: string
  ts_home :: string
  ts_until :: "time option"
  ts_next :: "time option"
  ts_left :: duration
  ts_waiting :: bool
  ts_hard :: real
  ts_error :: "api_error option"
  ts_hunt :: hunt_status

definition timed_status_of ::
  "'m pool_ops \<Rightarrow> 'm timed_env \<Rightarrow> settings_values \<Rightarrow> timed \<Rightarrow> 'm \<Rightarrow> timed_status \<times> timed" where
  "timed_status_of ops env v t m =
     (let s = op_snap ops m; tp = timed_target s; now = te_now env;
          (hs, t) = hunting_status v s env t;
          period = period_start now (ti_anchor t) (v_timed_period v);
          over = period + v_timed_period v;
          on = (v_timed_switch v = timed_on \<and> tp \<noteq> None);
          left = (if ti_period t = period then (if ti_done t then 0 else v_timed_duration v - ti_spent t) else v_timed_duration v);
          cur = (case ti_cur t of None \<Rightarrow> None | Some a \<Rightarrow> if aw_reason a = ByTimer then Some a else None);
          left = (case cur of None \<Rightarrow> left | Some a \<Rightarrow> if aw_period a = period then left - time_sub now (stint_start a) else left);
          until = now + max left 0
      in (\<lparr>ts_mode = v_timed_switch v, ts_target = (case tp of None \<Rightarrow> [] | Some p \<Rightarrow> p_id p),
           ts_home = (case cur of None \<Rightarrow> [] | Some a \<Rightarrow> aw_home a),
           ts_until = (case cur of None \<Rightarrow> None | Some a \<Rightarrow> Some (if over < until then over + v_timed_duration v else until)),
           ts_next = (if on then Some over else None), ts_left = max left 0, ts_waiting = (on \<and> ti_waiting t),
           ts_hard = (case tp of Some p \<Rightarrow> if on then hard_of env p else 1 | None \<Rightarrow> 1), ts_error = ti_last_err t, ts_hunt = hs\<rparr>, t))"

subsection \<open>Periods\<close>

lemma period_start_bounds:
  assumes "0 < p" "min_duration \<le> now - anchor" "now - anchor \<le> max_duration"
  shows "period_start now anchor p \<le> now \<and> now < period_start now anchor p + p"
proof (cases "is_zero anchor \<or> now < anchor")
  case True
  then show ?thesis using time_truncate_le [of now p] time_truncate_gt [OF assms(1), of now] by (simp add: period_start_def)
next
  case False
  then have "time_sub now anchor = now - anchor" "0 \<le> now - anchor" using assms by (simp_all add: time_sub_exact)
  then show ?thesis
    using False dur_truncate_le [of "now - anchor" p] dur_truncate_gt [of "now - anchor" p] assms(1)
    by (simp add: period_start_def)
qed

text \<open>The field updates of the helpers.\<close>

lemma save_away_simps [simp]:
  "ti_cur (save_away a w t) = a" "ti_period (save_away a w t) = ti_period t" "ti_spent (save_away a w t) = ti_spent t"
  "ti_done (save_away a w t) = ti_done t" "ti_anchor (save_away a w t) = ti_anchor t" "ti_hunt (save_away a w t) = ti_hunt t"
  "ti_waiting (save_away a w t) = ti_waiting t" "ti_last_err (save_away a w t) = ti_last_err t"
  by (simp_all add: save_away_def Let_def)

lemma ended_simps [simp]:
  "ti_cur (ended a f now t) = ti_cur t" "ti_period (ended a f now t) = ti_period t" "ti_anchor (ended a f now t) = ti_anchor t"
  "hu_hold (ti_hunt (ended a f now t)) = hu_hold (ti_hunt t)"
  by (simp_all add: ended_def record_stint_def)

lemma kick_simps [simp]:
  "ti_cur (kick t) = ti_cur t" "ti_period (kick t) = ti_period t" "ti_spent (kick t) = ti_spent t" "ti_done (kick t) = ti_done t"
  "ti_hunt (kick t) = ti_hunt t" "ti_anchor (kick t) = ti_anchor t"
  by (simp_all add: kick_def)

lemma enter_period_simps [simp]:
  "ti_cur (enter_period p t) = ti_cur t" "ti_period (enter_period p t) = p" "ti_anchor (enter_period p t) = ti_anchor t"
  "ti_spent (enter_period p t) = (if p = ti_period t then ti_spent t else 0)"
  "ti_done (enter_period p t) = (if p = ti_period t then ti_done t else False)"
  by (simp_all add: enter_period_def)

lemma drop_hold_simps [simp]:
  "ti_cur (drop_hold h t) = ti_cur t" "ti_period (drop_hold h t) = ti_period t" "ti_anchor (drop_hold h t) = ti_anchor t"
  "ti_spent (drop_hold h t) = ti_spent t" "ti_done (drop_hold h t) = ti_done t"
  by (simp_all add: drop_hold_def)

lemma timed_left_simps [simp]:
  "timed_left v p now (drop_hold h t) = timed_left v p now t" "timed_left v p now (t\<lparr>ti_waiting := b\<rparr>) = timed_left v p now t"
  by (simp_all add: timed_left_def)

lemma step_view_simps:
  assumes "step_view ops env v t m = (w, t1)"
  shows "tv_snap w = op_snap ops m" "ti_cur t1 = ti_cur t" "tv_period w = period_start (te_now env) (ti_anchor t) (v_timed_period v)"
    "tv_on w = (v_timed_switch v = timed_on \<and> timed_target (op_snap ops m) \<noteq> None)"
    "tv_hunt w = hunt_view v (op_snap ops m) env t" "ti_period t1 = tv_period w" "ti_anchor t1 = ti_anchor t"
    "ti_spent t1 = (if tv_period w = ti_period t then ti_spent t else 0)"
    "ti_done t1 = (if tv_period w = ti_period t then ti_done t else False)"
    "tv_left w = timed_left v (tv_period w) (te_now env) t1"
    "tv_period_left w = time_sub (tv_period w + v_timed_period v) (te_now env)"
    "tv_target w = (case timed_target (op_snap ops m) of None \<Rightarrow> zero_pool | Some p \<Rightarrow> p)"
    "tv_hard w = (if tv_on w then hard_of env (tv_target w) else 1)"
  using assms by (auto simp: step_view_def Let_def)

subsection \<open>The way back\<close>

lemma go_back_cases:
  assumes "go_back ops env a s final t m = (t', m', evs)"
  obtains
    (moved) "sn_active s \<noteq> aw_target a" "m' = m" "evs = []"
      "t' = save_away None (te_saved env) (ended a True (te_later env) (t\<lparr>ti_hunt := (ti_hunt t)\<lparr>hu_hold := True\<rparr>\<rparr>))"
  | (deleted) "sn_active s = aw_target a" "snap_get s (aw_home a) = None" "m' = m"
      "t' = save_away None (te_saved env) (ended a True (te_later env) t)"
      "evs = [HomeDeleted (aw_reason a) (aw_home a) (snap_name s (aw_target a))]"
  | (failed) why e where "sn_active s = aw_target a" "snap_get s (aw_home a) \<noteq> None"
      "op_restore ops (aw_home a) (if sn_fallback s \<noteq> aw_set a then sn_fallback s else aw_fallback a) why m = (Inl e, m')"
      "t' = t" "evs = [CannotReturn (aw_reason a) (snap_name s (aw_home a)) e]"
  | (home) why n where "sn_active s = aw_target a" "snap_get s (aw_home a) \<noteq> None"
      "op_restore ops (aw_home a) (if sn_fallback s \<noteq> aw_set a then sn_fallback s else aw_fallback a) why m = (Inr n, m')"
      "t' = save_away None (te_saved env) (ended a final (te_later env) t)" "evs = []"
  using assms unfolding go_back_def Let_def
  by (auto split: if_splits prod.splits sum.splits)

lemma step_away_cases:
  assumes "step_away ops env w cur t m = (t', m', evs)"
  obtains
    (stays) "t' = t" "m' = m" "sn_active (tv_snap w) = aw_target cur" "tv_on w" "aw_target cur = p_id (tv_target w)"
      "aw_period cur = tv_period w" "0 < tv_left w" "tv_hard w < pause_above \<or> tv_left w < min_stint"
  | (renewed) "t' = save_away (Some (cur\<lparr>aw_period := tv_period w, aw_since := te_now env\<rparr>)) (te_saved env) t" "m' = m"
      "sn_active (tv_snap w) = aw_target cur" "tv_on w" "aw_target cur = p_id (tv_target w)"
      "aw_period cur \<noteq> tv_period w" "tv_hard w < pause_above"
  | (handed) "t' = fst (hand_over env cur ByHunt zero_time (te_now env) (tv_snap w) t)" "m' = m"
      "sn_active (tv_snap w) = aw_target cur" "hunt_keeps (tv_hunt w) cur"
  | (returns) final evs' where "go_back ops env cur (tv_snap w) final t m = (t', m', evs')" "set evs' \<subseteq> set evs"
proof -
  note s = assms [unfolded step_away_def Let_def]
  show ?thesis
  proof (cases "sn_active (tv_snap w) = aw_target cur")
    case False
    then show ?thesis using s returns by simp
  next
    case active: True
    show ?thesis
    proof (cases "aw_period cur \<noteq> tv_period w \<and> tv_on w \<and> aw_target cur = p_id (tv_target w)")
      case True
      then show ?thesis using s active renewed returns by (simp split: if_splits)
    next
      case same: False
      show ?thesis
      proof (cases "\<not> tv_on w \<or> aw_target cur \<noteq> p_id (tv_target w) \<or> tv_left w \<le> 0")
        case True
        then show ?thesis using s active same handed returns by (auto split: if_splits prod.splits)
      next
        case False
        then show ?thesis using s active same stays returns by (fastforce split: if_splits prod.splits)
      qed
    qed
  qed
qed

lemma step_hunt_cases:
  assumes "step_hunt ops env cur s h due tp period now t m = (t', m', evs)"
  obtains
    (stays) "t' = t" "m' = m" "sn_active s = aw_target cur" "hv_on h" "aw_target cur = p_id (hv_target h)" "hv_live h"
      "hv_hard h < pause_above" "\<not> due"
  | (handed) "t' = fst (hand_over env cur ByTimer period now s t)" "m' = m" "sn_active s = aw_target cur" "due"
      "p_id tp = aw_target cur"
  | (returns) u final evs' where "go_back ops env cur s final t m = (u, m', evs')" "t' = u \<or> t' = kick u" "set evs' \<subseteq> set evs"
proof -
  note s = assms [unfolded step_hunt_def]
  show ?thesis
  proof (cases "sn_active s = aw_target cur \<and> due")
    case True
    then show ?thesis using s handed returns by (auto split: if_splits prod.splits)
  next
    case False
    then show ?thesis using s stays returns by (fastforce split: if_splits prod.splits)
  qed
qed

definition same_way :: "away \<Rightarrow> away \<Rightarrow> bool" where
  "same_way a b \<longleftrightarrow> aw_target b = aw_target a \<and> aw_home b = aw_home a \<and> aw_fallback b = aw_fallback a \<and> aw_set b = aw_set a"

text \<open>While the farm is away a step keeps the way back, or takes it.\<close>

lemma timed_step_away:
  assumes st: "timed_step ops env v t m = (t', m', evs)" and cur: "ti_cur t = Some a"
  obtains (kept) a' where "m' = m" "ti_cur t' = Some a'" "same_way a a'"
  | (go_back) t1 t2 evs' final where "go_back ops env a (op_snap ops m) final t1 m = (t2, m', evs')" "ti_cur t1 = Some a"
      "t' = t2 \<or> t' = kick t2" "set evs' \<subseteq> set evs"
proof -
  obtain w t1 where w: "step_view ops env v t m = (w, t1)" by fastforce
  note f = step_view_simps [OF w]
  have c: "ti_cur t1 = Some a" using f(2) cur by simp
  show ?thesis
  proof (cases "aw_reason a")
    case ByTimer
    then have s: "step_away ops env w a t1 m = (t', m', evs)" using st c by (simp add: timed_step_def w)
    then show ?thesis
    proof (cases rule: step_away_cases)
      case (returns final evs')
      then show ?thesis using go_back [of final t1 t' evs'] f(1) c by simp
    qed (use kept c in \<open>auto simp: same_way_def hand_over_def\<close>)
  next
    case ByHunt
    then obtain due q p now where s: "step_hunt ops env a (op_snap ops m) (tv_hunt w) due q p now t1 m = (t', m', evs)"
      using st c f(1) by (auto simp: timed_step_def w)
    then show ?thesis
    proof (cases rule: step_hunt_cases)
      case (returns u final evs')
      then show ?thesis using go_back [of final t1 u evs'] c by simp
    qed (use kept c in \<open>auto simp: same_way_def hand_over_def\<close>)
  qed
qed

text \<open>From home a step leaves the pools alone or starts a stint; the record of the stint has the way back.\<close>

lemma leave_cases:
  assumes "leave ops env a s t m = (t', m', evs)"
  obtains
    (stayed) e why where "op_activate ops (aw_target a) why m (te_during env m) = (Inl e, m')" "ti_cur t' = None"
      "ti_period t' = ti_period t" "ti_spent t' = ti_spent t"
  | (left) n why where "op_activate ops (aw_target a) why m (te_during env m) = (Inr n, m')"
      "ti_cur t' = Some (a\<lparr>aw_home := sn_active s, aw_fallback := sn_fallback s, aw_set := sn_fallback (op_snap ops m')\<rparr>)"
      "ti_period t' = ti_period t" "ti_spent t' = ti_spent t" "evs = []"
  using assms unfolding leave_def Let_def
  by (auto split: if_splits prod.splits sum.splits)

lemma timed_step_home:
  assumes st: "timed_step ops env v t m = (t', m', evs)" and cur: "ti_cur t = None"
    and w: "step_view ops env v t m = (w, t1)"
  obtains (stayed) "m' = m" "ti_cur t' = None" "ti_period t' = ti_period t1" "ti_spent t' = ti_spent t1"
  | (timer) a where "leave ops env a (op_snap ops m) t1 m = (t', m', evs)" "aw_reason a = ByTimer" "due_now w t1"
      "tv_hard w \<le> resume_below" "aw_target a = p_id (tv_target w)" "aw_period a = tv_period w" "aw_since a = te_now env"
      "sn_active (op_snap ops m) \<noteq> []" "sn_active (op_snap ops m) \<noteq> aw_target a"
  | (hunt) a t2 where "leave ops env a (op_snap ops m) t2 m = (t', m', evs)" "aw_reason a = ByHunt" "hunt_wants (tv_hunt w) (te_now env)"
      "aw_target a = p_id (hv_target (tv_hunt w))" "t2 = t1 \<or> t2 = t1\<lparr>ti_waiting := True\<rparr>"
      "sn_active (op_snap ops m) \<noteq> []" "sn_active (op_snap ops m) \<noteq> aw_target a"
proof -
  note f = step_view_simps [OF w]
  have "step_home ops env w t1 m = (t', m', evs)" using st cur f(2) by (simp add: timed_step_def w)
  then show ?thesis
    unfolding step_home_def Let_def f(1) maybe_hunt_def
    using cur f(2) by (auto split: if_splits intro: stayed timer hunt)
qed

context routing
begin

lemma restore_snapshot:
  "inv m \<Longrightarrow> op_restore ops i fb why m = (Inr n, m') \<Longrightarrow>
     sn_active (op_snap ops m') = i \<and> sn_fallback (op_snap ops m') = existing_once (sn_pools (op_snap ops m)) i [] fb"
  using restore_ok by fastforce

lemma away_is_kept_or_home:
  assumes "inv m" "timed_step ops env v t m = (t', m', evs)" "ti_cur t = Some a"
  shows "(case ti_cur t' of
      Some a' \<Rightarrow> same_way a a' \<and> m' = m
    | None \<Rightarrow>
        if sn_active (op_snap ops m) \<noteq> aw_target a then m' = m \<and> hu_hold (ti_hunt t')
        else if snap_get (op_snap ops m) (aw_home a) = None then m' = m
        else sn_active (op_snap ops m') = aw_home a \<and>
          sn_fallback (op_snap ops m') = existing_once (sn_pools (op_snap ops m)) (aw_home a) []
            (if sn_fallback (op_snap ops m) \<noteq> aw_set a then sn_fallback (op_snap ops m) else aw_fallback a))"
  using assms(2,3)
proof (cases rule: timed_step_away)
  case (kept a')
  then show ?thesis by simp
next
  case (go_back t1 t2 evs' final)
  from go_back(1) show ?thesis
  proof (cases rule: go_back_cases)
    case moved
    then show ?thesis using go_back(3) by auto
  next
    case deleted
    then show ?thesis using go_back(3) by auto
  next
    case (failed why e)
    then show ?thesis using go_back(2,3) restore_error [OF assms(1)] by (auto simp: same_way_def)
  next
    case (home why n)
    then show ?thesis using go_back(3) restore_snapshot [OF assms(1) home(3)] by auto
  qed
qed

end

subsection \<open>The time on the target\<close>

definition on_time :: "duration \<Rightarrow> time \<Rightarrow> timed \<Rightarrow> away \<Rightarrow> bool" where
  "on_time d now t a \<longleftrightarrow> aw_reason a = ByTimer \<longrightarrow>
     aw_period a = ti_period t \<and> stint_start a \<le> now \<and> ti_spent t + (now - stint_start a) < d"

definition budget :: "duration \<Rightarrow> duration \<Rightarrow> time \<Rightarrow> timed \<Rightarrow> bool" where
  "budget d g now t \<longleftrightarrow> 0 \<le> ti_spent t \<and> ti_spent t \<le> d + g \<and> (\<forall>a. ti_cur t = Some a \<longrightarrow> on_time d now t a)"

lemma time_sub_upper: "u \<le> t \<Longrightarrow> time_sub t u \<le> t - u"
  by (simp add: time_sub_def min_duration_def)

lemma ended_spent:
  assumes "0 \<le> ti_spent t" "ti_spent t \<le> d + g"
    and a: "aw_reason a = ByTimer \<Longrightarrow> aw_period a = ti_period t \<Longrightarrow>
      stint_start a \<le> now \<and> ti_spent t + (now - stint_start a) < d"
    and now: "now \<le> later" "later \<le> now + g"
  shows "0 \<le> ti_spent (ended a final later t) \<and> ti_spent (ended a final later t) \<le> d + g"
proof (cases "aw_reason a = ByTimer \<and> aw_period a = ti_period t")
  case True
  then have "stint_start a \<le> now" "ti_spent t + (now - stint_start a) < d" using a by auto
  then show ?thesis
    using True assms(1) now time_sub_upper [of "stint_start a" later] time_sub_nonneg [of "stint_start a" later]
    by (simp add: ended_def)
next
  case False
  then show ?thesis using assms(1,2) by (cases "aw_reason a") (auto simp: ended_def)
qed

lemma back_budget:
  assumes b: "go_back ops env a s final t m = (t', m', evs)" and "\<forall>why name e. CannotReturn why name e \<notin> set evs"
    and t: "0 \<le> ti_spent t" "ti_spent t \<le> d + g"
      "aw_reason a = ByTimer \<Longrightarrow> aw_period a = ti_period t \<Longrightarrow> stint_start a \<le> now \<and> ti_spent t + (now - stint_start a) < d"
      "now \<le> te_later env" "te_later env \<le> now + g"
  shows "budget d g n t'"
  using b
proof (cases rule: go_back_cases)
  case moved
  then show ?thesis using ended_spent [of "t\<lparr>ti_hunt := (ti_hunt t)\<lparr>hu_hold := True\<rparr>\<rparr>" d g a now "te_later env" True] t
    by (simp add: budget_def)
next
  case deleted
  then show ?thesis using ended_spent [OF t] by (simp add: budget_def)
next
  case (failed why e)
  then show ?thesis using assms(2) by simp
next
  case (home why n)
  then show ?thesis using ended_spent [OF t] by (simp add: budget_def)
qed

lemma timed_left_ok:
  assumes "0 < timed_left v p now t" "ti_cur t = Some a" "aw_reason a = ByTimer" "aw_period a = p"
    "0 \<le> ti_spent t" "stint_start a \<le> now" "v_timed_duration v \<le> max_duration"
  shows "ti_spent t + (now - stint_start a) < v_timed_duration v"
  using assms by (auto simp: timed_left_def time_sub_def min_duration_def min_def max_def split: if_splits)

lemma step_budget:
  assumes st: "timed_step ops env v t m = (t', m', evs)" and home: "\<forall>why name e. CannotReturn why name e \<notin> set evs"
    and b: "budget (v_timed_duration v) g now t" and now: "now \<le> te_now env" "te_now env \<le> te_later env" "te_later env \<le> now + g"
    and d: "0 < v_timed_duration v" "v_timed_duration v \<le> max_duration" and z: "zero_time < te_now env"
  shows "budget (v_timed_duration v) g (te_now env) t'"
proof -
  let ?d = "v_timed_duration v" and ?n = "te_now env"
  obtain w t1 where w: "step_view ops env v t m = (w, t1)" by fastforce
  note f = step_view_simps [OF w]
  have g: "0 \<le> g" using now by linarith
  have s1: "0 \<le> ti_spent t1" "ti_spent t1 \<le> ?d + g" using f(8) b d g by (auto simp: budget_def)
  have s2: "stint_start a \<le> now \<and> ti_spent t1 + (now - stint_start a) < ?d \<and> aw_period a = ti_period t"
    if "ti_cur t = Some a" "aw_reason a = ByTimer" "aw_period a = ti_period t1" for a
    using b that f(6,8) by (auto simp: budget_def on_time_def)
  have z': "\<not> is_zero ?n" using z by (simp add: is_zero_def)
  note bb = back_budget [where d = ?d and g = g and now = now and n = ?n, OF _ _ s1]
  show ?thesis
  proof (cases "ti_cur t")
    case None
    from st None w show ?thesis
    proof (cases rule: timed_step_home)
      case stayed
      then show ?thesis using s1 by (simp add: budget_def)
    next
      case (timer a)
      have left: "timed_left v (tv_period w) ?n t1 = ?d - ti_spent t1" using f(2) None by (simp add: timed_left_def)
      have "min_stint \<le> ?d - ti_spent t1" using timer(3) f(10) left by (simp add: due_now_def)
      then have "ti_spent t1 < ?d" by (simp add: min_stint_def)
      from timer(1) show ?thesis
        by (cases rule: leave_cases)
          (use timer(2,6,7) f(6) z' s1 \<open>ti_spent t1 < ?d\<close> in \<open>auto simp: budget_def on_time_def stint_start_def\<close>)
    next
      case (hunt a t2)
      have "ti_spent t2 = ti_spent t1" using hunt(5) by auto
      from hunt(1) show ?thesis
        by (cases rule: leave_cases) (use hunt(2) s1 \<open>ti_spent t2 = ti_spent t1\<close> in \<open>auto simp: budget_def on_time_def\<close>)
    qed
  next
    case (Some a)
    then have c: "ti_cur t1 = Some a" using f(2) by simp
    have s3: "stint_start a \<le> now \<and> ti_spent t1 + (now - stint_start a) < ?d"
      if "aw_reason a = ByTimer" "aw_period a = ti_period t1" using s2 [OF Some that] by blast
    have go_back: "budget ?d g ?n u" if "go_back ops env a (tv_snap w) final t1 m = (u, m'', e)" "set e \<subseteq> set evs" for u m'' e final
      by (rule bb [OF that(1) _ s3 _ now(3)]) (use that(2) home now in auto)
    have e: "0 \<le> ti_spent (ended a True (te_later env) t1) \<and> ti_spent (ended a True (te_later env) t1) \<le> ?d + g"
      using ended_spent [OF s1 s3 _ now(3)] now by simp
    show ?thesis
    proof (cases "aw_reason a")
      case ByTimer
      have s: "step_away ops env w a t1 m = (t', m', evs)" using st c ByTimer by (simp add: timed_step_def w)
      have stay: "budget ?d g ?n t1" if "0 < tv_left w" "aw_period a = tv_period w"
      proof -
        have p: "aw_period a = ti_period t1" using that(2) f(6) by simp
        have "ti_spent t1 + (?n - stint_start a) < ?d"
          by (rule timed_left_ok [OF _ c ByTimer that(2) s1(1) _ d(2)])
            (use that(1) f(10) s3 [OF ByTimer p] now in auto)
        then show ?thesis using s1 c p s3 [OF ByTimer p] now by (simp add: budget_def on_time_def)
      qed
      have fresh: "ti_spent t1 = 0" if "aw_period a \<noteq> tv_period w"
      proof -
        have "aw_period a = ti_period t" using b Some ByTimer by (auto simp: budget_def on_time_def)
        then show ?thesis using f(8) that by simp
      qed
      from s show ?thesis
      proof (cases rule: step_away_cases)
        case renewed
        then show ?thesis using fresh s1 f(6) z' d by (simp add: budget_def on_time_def stint_start_def)
      next
        case handed
        then show ?thesis using e by (simp add: budget_def on_time_def hand_over_def)
      next
        case (returns final evs')
        then show ?thesis using go_back by blast
      qed (use stay in simp)
    next
      case ByHunt
      have left: "timed_left v (tv_period w) ?n t1 = ?d - ti_spent t1" using c ByHunt by (simp add: timed_left_def)
      have s: "step_hunt ops env a (tv_snap w) (tv_hunt w) (due_now w t1 \<and> tv_hard w \<le> resume_below)
          (tv_target w) (tv_period w) ?n t1 m = (t', m', evs)"
        using st c ByHunt by (simp add: timed_step_def w)
      have k: "budget ?d g ?n (kick u)" if "go_back ops env a (tv_snap w) final t1 m = (u, m'', e)" "set e \<subseteq> set evs" for u m'' e final
        using go_back [OF that] by (simp add: budget_def on_time_def)
      have due: "ti_spent t1 < ?d" if "due_now w t1"
        using that f(10) left by (simp add: due_now_def min_stint_def)
      have h: "ti_spent (ended a True (te_later env) t1) = ti_spent t1" using ByHunt by (simp add: ended_def)
      have stay: "budget ?d g ?n t1" using s1 c ByHunt by (simp add: budget_def on_time_def)
      from s show ?thesis
      proof (cases rule: step_hunt_cases)
        case handed
        then show ?thesis using due h s1 f(6) z' by (simp add: budget_def on_time_def hand_over_def stint_start_def)
      next
        case (returns u final evs')
        then show ?thesis using go_back k by blast
      qed (use stay in simp)
    qed
  qed
qed

subsection \<open>Runs of the switcher\<close>

definition home_reached :: "timed_event list \<Rightarrow> bool" where
  "home_reached evs \<longleftrightarrow> (\<forall>why name e. CannotReturn why name e \<notin> set evs)"

text \<open>Steps whose gaps are at most \<open>g\<close> and whose returns succeed, restarts by hand, and whatever others do to
  the manager.\<close>

inductive timed_runs :: "settings_values \<Rightarrow> duration \<Rightarrow> timed \<Rightarrow> manager \<Rightarrow> time \<Rightarrow> bool" for v g where
  begin_run: "manager_inv m \<Longrightarrow> zero_time < now \<Longrightarrow> timed_runs v g (new_timed None) m now"
| step_run: "timed_runs v g t m now \<Longrightarrow> now \<le> te_now env \<Longrightarrow> te_now env \<le> te_later env \<Longrightarrow> te_later env \<le> now + g \<Longrightarrow>
    timed_step (manager_ops checks w sh clock) env v t m = (t', m', evs) \<Longrightarrow> home_reached evs \<Longrightarrow>
    timed_runs v g t' m' (te_now env)"
| start_run: "timed_runs v g t m now \<Longrightarrow> now \<le> te_now env \<Longrightarrow> te_now env \<le> te_later env \<Longrightarrow> te_later env \<le> now + g \<Longrightarrow>
    start_now (manager_ops checks w sh clock) env v t m = (Inr evs, t') \<Longrightarrow> timed_runs v g t' m (te_now env)"
| other_run: "timed_runs v g t m now \<Longrightarrow> manager_step m m' \<Longrightarrow> timed_runs v g t m' now"

lemma restart_stint_budget:
  assumes "restart_stint env target t = (cur, t')" "ti_spent t = 0" "ti_period t = te_now env" "0 < d" "0 \<le> g" "zero_time < te_now env"
  shows "ti_spent t' = 0 \<and> ti_period t' = te_now env \<and>
    (\<forall>a. cur = Some a \<longrightarrow> aw_reason a = ByTimer \<longrightarrow> aw_period a = te_now env \<and> stint_start a = te_now env)"
proof -
  have z: "te_now env \<noteq> zero_time" using assms(6) by simp
  show ?thesis
  proof (cases "ti_cur t")
    case None
    then show ?thesis using assms(1-3) by (auto simp: restart_stint_def)
  next
    case (Some a)
    then show ?thesis using assms(1-3) z
      by (cases "aw_reason a"; cases "aw_target a = target") (auto simp: restart_stint_def stint_start_def is_zero_def ended_def)
  qed
qed

lemma start_budget:
  assumes "start_now ops env v t m = (Inr evs, t')" "0 \<le> g" "0 < v_timed_duration v" "zero_time < te_now env"
  shows "budget (v_timed_duration v) g (te_now env) t'"
proof -
  let ?t = "t\<lparr>ti_anchor := te_now env, ti_period := te_now env, ti_spent := 0, ti_done := False, ti_last_err := None\<rparr>"
  obtain target cur u where r: "restart_stint env target ?t = (cur, u)" and t': "t' = kick (save_away cur (te_saved env) u)"
    using assms(1) unfolding start_now_def by (auto split: if_splits option.splits prod.splits)
  have "ti_spent u = 0 \<and> ti_period u = te_now env \<and>
      (\<forall>a. cur = Some a \<longrightarrow> aw_reason a = ByTimer \<longrightarrow> aw_period a = te_now env \<and> stint_start a = te_now env)"
    by (rule restart_stint_budget [OF r _ _ assms(3,2,4)]) simp_all
  then show ?thesis using assms(2,3) by (simp add: t' budget_def on_time_def)
qed

lemma timed_runs_budget:
  assumes "timed_runs v g t m now" "0 < v_timed_duration v" "v_timed_duration v \<le> max_duration" "0 \<le> g"
  shows "budget (v_timed_duration v) g now t \<and> zero_time < now"
  using assms(1)
proof (induction rule: timed_runs.induct)
  case (begin_run m now)
  then show ?case using assms(2,4) by (simp add: budget_def new_timed_def)
next
  case (step_run t m now env checks w sh clock t' m' evs)
  then show ?case using step_budget [of _ env v t m t' m' evs g now] assms(2,3) by (simp add: home_reached_def)
next
  case (start_run t m now env checks w sh clock evs t')
  then show ?case using start_budget [of _ env v t m evs t' g] assms(2,4) by simp
qed simp

subsection \<open>Properties\<close>

text \<open>C9: The farm is never stranded. While it is away every step either keeps the way back as it was saved
  and leaves the pools alone, or ends the stint: then the farm is on its pool again, with the fallback order
  from before or the one the operator set meanwhile; only a home pool that was deleted is not returned to, and
  a pool chosen by hand stands and makes block hunting wait.\<close>

theorem farm_never_stranded:
  assumes "manager_inv m" "timed_step (manager_ops checks w sh clock) env v t m = (t', m', evs)" "ti_cur t = Some a"
  shows "(case ti_cur t' of
      Some a' \<Rightarrow> aw_target a' = aw_target a \<and> aw_home a' = aw_home a \<and> aw_fallback a' = aw_fallback a \<and> aw_set a' = aw_set a \<and> m' = m
    | None \<Rightarrow>
        if sn_active (m_snap m) \<noteq> aw_target a then m' = m \<and> hu_hold (ti_hunt t')
        else if snap_get (m_snap m) (aw_home a) = None then m' = m
        else sn_active (m_snap m') = aw_home a \<and>
          sn_fallback (m_snap m') = existing_once (sn_pools (m_snap m)) (aw_home a) []
            (if sn_fallback (m_snap m) \<noteq> aw_set a then sn_fallback (m_snap m) else aw_fallback a))"
  using farm.away_is_kept_or_home [OF assms]
  by (simp add: manager_ops_def same_way_def split: option.splits if_splits)

text \<open>There and back: a stint that nobody disturbs leaves the pools as they were, the active pool and
  the fallback order.\<close>

theorem timed_round_trip:
  assumes inv: "manager_inv m" "manager_inv m2"
    and there: "timed_step (manager_ops checks w sh clock) env v t m = (t1, m1, evs)" "ti_cur t = None" "ti_cur t1 = Some a"
    and alone: "te_during env m = m" "m_snap m2 = m_snap m1"
    and return: "timed_step (manager_ops checks' w' sh' clock') env' v' t1 m2 = (t2, m3, evs')" "ti_cur t2 = None"
  shows "m_snap m3 = m_snap m"
proof -
  let ?ops = "manager_ops checks w sh clock" and ?ops' = "manager_ops checks' w' sh' clock'"
  obtain vw u where vw: "step_view ?ops env v t m = (vw, u)" by fastforce
  have snap [simp]: "op_snap ?ops = m_snap" "op_snap ?ops' = m_snap" by (simp_all add: manager_ops_def)
  obtain b t3 where b: "leave ?ops env b (m_snap m) t3 m = (t1, m1, evs)" "sn_active (m_snap m) \<noteq> []"
    using there(1,2) vw by (rule timed_step_home) (use there(3) snap in auto)
  from b(1) obtain n why where act: "op_activate ?ops (aw_target b) why m (te_during env m) = (Inr n, m1)"
    and a: "a = b\<lparr>aw_home := sn_active (m_snap m), aw_fallback := sn_fallback (m_snap m), aw_set := sn_fallback (m_snap m1)\<rparr>"
    by (rule leave_cases) (use there(3) snap in auto)
  have s1: "m_snap m1 = (m_snap m)\<lparr>sn_active := aw_target b, sn_fallback := order_after (aw_target b) (m_snap m)\<rparr>"
    using farm.activate_ok [OF _ act] inv(1) alone(1) by simp
  have home: "snap_get (m_snap m1) (sn_active (m_snap m)) \<noteq> None"
    using manager_inv_snapshot [OF inv(1)] b(2) s1 by (auto simp: valid_snapshot_def snap_get_def split: if_splits)
  from return(1) there(3) have "m_snap m3 = (m_snap m2)\<lparr>sn_active := aw_home a,
      sn_fallback := existing_once (sn_pools (m_snap m2)) (aw_home a) [] (aw_fallback a)\<rparr>"
  proof (cases rule: timed_step_away)
    case (kept a')
    then show ?thesis using return(2) by simp
  next
    case (go_back x y evs'' final)
    have active: "sn_active (m_snap m2) = aw_target a" "sn_fallback (m_snap m2) = aw_set a" using s1 alone(2) a by simp_all
    from go_back(1) show ?thesis
    proof (cases rule: go_back_cases)
      case (failed why e)
      then show ?thesis using go_back(2,3) return(2) by auto
    next
      case (home why n)
      then show ?thesis using farm.restore_ok [OF inv(2) home(3)] active by simp
    qed (use active alone(2) home a in auto)
  qed
  then show ?thesis
    using snapshot_round_trip [OF manager_inv_snapshot [OF inv(1)] s1] alone(2) a by simp
qed


subsection \<open>Witnesses\<close>

definition timed_pools :: state_file where
  "timed_pools = empty_file\<lparr>f_pools := [example_pool, second_pool\<lparr>p_timed_target := True\<rparr>], f_active := ''btc''\<rparr>"

lemma timed_pools_wf: "wf_file timed_pools"
proof -
  have "valid_file timed_pools" unfolding check_iff_valid [symmetric]
    by (simp add: timed_pools_def check_def zero_pool_def valid_pool_id_def pool_id_char_def is_digit_def pool_field_errors_def
      rune_count_def addresses_error_def address_reason_def host_error_def max_pool_addresses_def empty_file_def zero_file_def)
  then show ?thesis by (simp add: wf_file_def) (simp add: timed_pools_def empty_file_def zero_file_def has_key_def)
qed

definition timed_manager :: manager where
  "timed_manager = new_manager \<lparr>st_cur = timed_pools, st_disk = None\<rparr> defaults new_registry"

lemma timed_manager_inv: "manager_inv timed_manager"
  unfolding timed_manager_def using timed_pools_wf reachable_inv [OF reachable_registry.init]
  by (intro manager_inv_new) simp_all

definition timed_values :: settings_values where
  "timed_values = defaults\<lparr>v_timed_switch := timed_on, v_timed_period := 30 * minute, v_timed_duration := 10 * minute, v_hunt_switch := hunt_off\<rparr>"

definition timed_env_at :: "time \<Rightarrow> manager timed_env" where
  "timed_env_at t = \<lparr>te_now = t, te_later = t, te_hardness = None, te_live = None, te_during = (\<lambda>m. m), te_saved = True\<rparr>"

lemma timed_env_simps [simp]:
  "te_now (timed_env_at t) = t" "te_later (timed_env_at t) = t" "te_hardness (timed_env_at t) = None" "te_live (timed_env_at t) = None"
  "te_during (timed_env_at t) m = m" "te_saved (timed_env_at t)"
  by (simp_all add: timed_env_at_def)

abbreviation return_time :: time where "return_time \<equiv> 4260000000000"

definition good_check :: "addr_result list" where
  "good_check = [\<lparr>ar_address = \<lparr>host = ''p.io'', port = 3333\<rparr>, ar_rtt = 1000, ar_err = None\<rparr>]"

abbreviation example_ops :: "manager pool_ops" where
  "example_ops \<equiv> manager_ops good_check True (\<lambda>xs. xs) 0"

lemma timed_manager_snap:
  "m_snap timed_manager = \<lparr>sn_active = ''btc'', sn_fallback = [], sn_pools = [example_pool, second_pool\<lparr>p_timed_target := True\<rparr>]\<rparr>"
proof -
  have "m_snap timed_manager = snapshot_of (clone timed_pools)" by (simp add: timed_manager_def new_manager_def current_def)
  also have "\<dots> = snapshot_of timed_pools" using snapshot_clone [OF timed_pools_wf] .
  finally show ?thesis by (simp add: snapshot_of_def timed_pools_def empty_file_def zero_file_def)
qed

lemma example_activates:
  obtains n m1 where "op_activate example_ops ''alt'' why timed_manager timed_manager = (Inr n, m1)" "manager_inv m1"
    "m_snap m1 = \<lparr>sn_active = ''alt'', sn_fallback = [''btc''], sn_pools = [example_pool, second_pool\<lparr>p_timed_target := True\<rparr>]\<rparr>"
proof -
  have "snap_get (m_snap timed_manager) ''alt'' \<noteq> None"
    by (simp add: timed_manager_snap snap_get_def find_pool_def zero_pool_def)
  then obtain n evs m1 where "activate ''alt'' False why None good_check (\<lambda>m. m) True (\<lambda>xs. xs) 0 timed_manager = (Inr n, evs, m1)"
    using activate_succeeds [OF timed_manager_inv, of "''alt''" False good_check why None "\<lambda>xs. xs" 0]
    by (auto simp: good_check_def any_ok_def)
  then have a: "op_activate example_ops ''alt'' why timed_manager timed_manager = (Inr n, m1)"
    by (simp add: manager_ops_def activate_def Let_def split: sum.splits)
  have "op_snap example_ops m1 = (op_snap example_ops timed_manager)\<lparr>sn_active := ''alt'', sn_fallback := order_after ''alt'' (op_snap example_ops timed_manager)\<rparr>"
    "manager_inv m1"
    using farm.activate_ok [OF timed_manager_inv a] by simp_all
  then show ?thesis using that [OF a]
    by (simp add: manager_ops_def timed_manager_snap order_after_def without_def)
qed

definition example_away :: away where
  "example_away = \<lparr>aw_reason = ByTimer, aw_period = hour, aw_since = hour, aw_target = ''alt'', aw_home = ''btc'', aw_fallback = [],
     aw_set = [''btc'']\<rparr>"

lemma example_period: "period_start hour zero_time (30 * minute) = hour" "period_start return_time zero_time (30 * minute) = hour"
  by (simp_all add: period_start_def is_zero_def time_truncate_def zero_time_def)

lemma timed_values_simps [simp]:
  "v_timed_switch timed_values = timed_on" "v_timed_period timed_values = 30 * minute"
  "v_timed_duration timed_values = 10 * minute" "v_hunt_switch timed_values = hunt_off"
  by (simp_all add: timed_values_def)

text \<open>At a time, with blocks never hard, nobody interfering and a state file that can be written.\<close>

definition example_env :: "time \<Rightarrow> manager timed_env \<Rightarrow> bool" where
  "example_env t env \<longleftrightarrow> te_now env = t \<and> te_later env = t \<and> te_during env = (\<lambda>m. m) \<and> te_saved env \<and> (\<forall>p. hard_of env p = 1)"

lemma example_env_at: "example_env t (timed_env_at t)"
  by (simp add: example_env_def fun_eq_iff hard_of_def)

lemma example_leaves:
  assumes "example_env hour env"
  obtains t1 m1 where "timed_step example_ops env timed_values (new_timed None) timed_manager = (t1, m1, [])"
    "ti_cur t1 = Some example_away" "manager_inv m1" "ti_period t1 = hour" "ti_spent t1 = 0" "ti_anchor t1 = zero_time"
    "m_snap m1 = \<lparr>sn_active = ''alt'', sn_fallback = [''btc''], sn_pools = [example_pool, second_pool\<lparr>p_timed_target := True\<rparr>]\<rparr>"
proof -
  have env: "te_now env = hour" "te_later env = hour" "te_during env = (\<lambda>m. m)" "te_saved env" "hard_of env p = 1" for p
    using assms by (simp_all add: example_env_def)
  obtain n m1 where m1: "op_activate example_ops ''alt'' ''timer'' timed_manager timed_manager = (Inr n, m1)" "manager_inv m1"
    "m_snap m1 = \<lparr>sn_active = ''alt'', sn_fallback = [''btc''], sn_pools = [example_pool, second_pool\<lparr>p_timed_target := True\<rparr>]\<rparr>"
    by (rule example_activates)
  have snap: "op_snap example_ops timed_manager = m_snap timed_manager" "op_snap example_ops m1 = m_snap m1" by (simp_all add: manager_ops_def)
  have tt: "timed_target (m_snap timed_manager) = Some (second_pool\<lparr>p_timed_target := True\<rparr>)"
    by (simp add: timed_target_def timed_manager_snap zero_pool_def)
  have ts: "time_sub (90 * minute) hour = 30 * minute" by (simp add: time_sub_def min_duration_def max_duration_def)
  obtain w t1 where w: "step_view example_ops env timed_values (new_timed None) timed_manager = (w, t1)" by fastforce
  note f = step_view_simps [OF w, unfolded snap tt env, simplified]
  have n: "ti_cur (new_timed None) = None" "ti_anchor (new_timed None) = zero_time" "ti_period (new_timed None) = zero_time"
    by (simp_all add: new_timed_def)
  have w1: "tv_period w = hour" "ti_spent t1 = 0" "\<not> ti_done t1" "ti_cur t1 = None" "ti_period t1 = hour" "ti_anchor t1 = zero_time"
    using f n example_period by (auto simp: zero_time_def)
  have due: "due_now w t1" "tv_hard w = 1" "p_id (tv_target w) = ''alt''"
    using f w1 ts by (simp_all add: due_now_def hard_of_def timed_left_def min_stint_def)
  let ?a = "\<lparr>aw_reason = ByTimer, aw_period = hour, aw_since = hour, aw_target = ''alt'', aw_home = [], aw_fallback = [], aw_set = []\<rparr>"
  have "timed_step example_ops env timed_values (new_timed None) timed_manager =
      leave example_ops env ?a (m_snap timed_manager) t1 timed_manager"
    using due w1 f(1) by (simp add: timed_step_def w step_home_def env resume_below_def timed_manager_snap)
  moreover obtain t2 m2 evs where l: "leave example_ops env ?a (m_snap timed_manager) t1 timed_manager = (t2, m2, evs)"
    by (metis prod.exhaust)
  moreover from l have "m2 = m1 \<and> evs = [] \<and> ti_cur t2 = Some example_away \<and>
      ti_period t2 = hour \<and> ti_spent t2 = 0 \<and> ti_anchor t2 = zero_time"
    using m1 w1 by (auto simp: leave_def env timed_manager_snap snap example_away_def)
  ultimately show ?thesis using that [of t2 m1] m1 by simp
qed

lemma example_returns:
  assumes "example_env return_time env"
    and "ti_cur t1 = Some example_away" "manager_inv m1" "ti_period t1 = hour" "ti_spent t1 = 0" "ti_anchor t1 = zero_time"
    "m_snap m1 = \<lparr>sn_active = ''alt'', sn_fallback = [''btc''], sn_pools = [example_pool, second_pool\<lparr>p_timed_target := True\<rparr>]\<rparr>"
  obtains t2 m2 where "timed_step example_ops env timed_values t1 m1 = (t2, m2, [])" "ti_cur t2 = None"
proof -
  have env: "te_now env = return_time" "te_later env = return_time" "te_saved env"
    using assms(1) by (simp_all add: example_env_def)
  have snap: "op_snap example_ops m1 = m_snap m1" by (simp add: manager_ops_def)
  have tt: "timed_target (m_snap m1) = Some (second_pool\<lparr>p_timed_target := True\<rparr>)"
    by (simp add: timed_target_def assms(7) zero_pool_def)
  have home: "snap_get (m_snap m1) ''btc'' \<noteq> None" by (simp add: assms(7) snap_get_def find_pool_def zero_pool_def)
  obtain n evs m2 where "activate ''btc'' True ''timer'' (Some []) [] (\<lambda>m. m) True (\<lambda>xs. xs) 0 m1 = (Inr n, evs, m2)"
    using activate_succeeds [OF assms(3) home, of True "[]" "''timer''" "Some []" "\<lambda>xs. xs" 0] by blast
  then have r: "op_restore example_ops ''btc'' [] ''timer'' m1 = (Inr n, m2)" by (simp add: manager_ops_def restore_def)
  obtain w u where w: "step_view example_ops env timed_values t1 m1 = (w, u)" by fastforce
  note f = step_view_simps [OF w, unfolded snap tt env, simplified]
  have ts: "time_sub return_time hour = 11 * minute" by (simp add: time_sub_def min_duration_def max_duration_def)
  have h: "\<not> hunt_keeps (tv_hunt w) example_away" using f(5) by (simp add: hunt_keeps_def hunt_view_def Let_def hunt_on_def hunt_off_def)
  have l: "tv_left w \<le> 0" "tv_period w = hour" "ti_cur u = Some example_away"
    using f assms example_period ts
    by (auto simp: timed_left_def example_away_def stint_start_def is_zero_def zero_time_def)
  have "timed_step example_ops env timed_values t1 m1 = go_back example_ops env example_away (m_snap m1) True u m1"
    using l h f(1) assms(7) by (auto simp: timed_step_def w step_away_def Let_def example_away_def)
  also have "\<dots> = (save_away None True (ended example_away True return_time u), m2, [])"
    using r home by (auto simp: go_back_def Let_def env assms(7) example_away_def)
  finally show ?thesis using that by simp
qed

theorem farm_never_stranded_witness:
  "\<exists>m1 t1 m2 t2. ti_cur t1 = Some example_away \<and>
     timed_step example_ops (timed_env_at return_time) timed_values t1 m1 = (t2, m2, []) \<and> sn_active (m_snap m2) = ''btc''"
proof -
  obtain t1 m1 where "timed_step example_ops (timed_env_at hour) timed_values (new_timed None) timed_manager = (t1, m1, [])"
    and a: "ti_cur t1 = Some example_away" "manager_inv m1" "ti_period t1 = hour" "ti_spent t1 = 0" "ti_anchor t1 = zero_time"
    "m_snap m1 = \<lparr>sn_active = ''alt'', sn_fallback = [''btc''], sn_pools = [example_pool, second_pool\<lparr>p_timed_target := True\<rparr>]\<rparr>"
    by (rule example_leaves [OF example_env_at])
  obtain t2 m2 where r: "timed_step example_ops (timed_env_at return_time) timed_values t1 m1 = (t2, m2, [])" "ti_cur t2 = None"
    using a by (rule example_returns [OF example_env_at])
  from farm_never_stranded [OF a(2) r(1) a(1)] have "sn_active (m_snap m2) = ''btc''"
    using a(6) r(2) by (simp add: example_away_def snap_get_def find_pool_def zero_pool_def)
  then show ?thesis using a r by blast
qed

theorem timed_round_trip_witness:
  "\<exists>t1 m1 t2 m2 e. timed_step example_ops (timed_env_at hour) timed_values (new_timed None) timed_manager = (t1, m1, []) \<and>
     sn_active (m_snap m1) = ''alt'' \<and>
     timed_step example_ops (timed_env_at return_time) timed_values t1 m1 = (t2, m2, e) \<and> m_snap m2 = m_snap timed_manager"
proof -
  obtain t1 m1 where a: "timed_step example_ops (timed_env_at hour) timed_values (new_timed None) timed_manager = (t1, m1, [])"
    "ti_cur t1 = Some example_away" "manager_inv m1" "ti_period t1 = hour" "ti_spent t1 = 0" "ti_anchor t1 = zero_time"
    "m_snap m1 = \<lparr>sn_active = ''alt'', sn_fallback = [''btc''], sn_pools = [example_pool, second_pool\<lparr>p_timed_target := True\<rparr>]\<rparr>"
    by (rule example_leaves [OF example_env_at])
  obtain t2 m2 where r: "timed_step example_ops (timed_env_at return_time) timed_values t1 m1 = (t2, m2, [])" "ti_cur t2 = None"
    using a(2-) by (rule example_returns [OF example_env_at])
  have "m_snap m2 = m_snap timed_manager"
    by (rule timed_round_trip [OF timed_manager_inv a(3,1) _ a(2) _ refl r]) (simp_all add: new_timed_def)
  then show ?thesis using a(1,7) r by auto
qed


end
