(* ===== verification/Profit.thy ===== *)
theory Profit
  imports Routing Rtt Stats
begin

text \<open>
  Package \<open>profit\<close>: the market of the SHA-256 coins (\<open>market.go\<close>) and the switching to the most profitable
  one (\<open>switcher.go\<close>).

  \<^item> A market maps coin tags to \<open>coin\<close>; \<open>parse_what_to_mine\<close> builds it from the decoded answer of the source
    and \<open>bsv_coin\<close> the coin the source does not list. Floats are reals.
  \<^item> \<open>decide\<close> fills a \<open>report\<close> from the market, the snapshot of the pools and their health; \<open>profit_check\<close> is
    \<open>Check\<close>, which also switches. The fetched market, the time, the orders in which Go iterates over its maps
    and what others did during the check of a switch are arguments.

  The lemmas show that a switch pays: it goes to a pool that takes part, is not DOWN and mines a coin that
  earns the margin more by usable data, or to the main pool; that nothing is touched otherwise; and that a
  switch away from the main pool is not undone by the next check of the same market.
\<close>

definition cache_for :: duration where "cache_for = 10 * minute"
definition start_delay :: duration where "start_delay = 2 * minute"
definition market_stale_after :: duration where "market_stale_after = 6 * hour"

subsection \<open>The market\<close>

record coin =
  co_tag :: string
  co_name :: string
  co_difficulty :: real
  co_difficulty_now :: real
  co_reward :: real
  co_price :: real
  co_updated :: time
  co_stale :: bool
  co_efficiency :: real

definition efficiency :: "string \<Rightarrow> real" where
  "efficiency tag = (if tag = ''XEC'' then rtt_efficiency else 1)"

definition revenue :: "coin \<Rightarrow> real" where
  "revenue c =
     (if co_difficulty c \<le> 0 then 0
      else
        (let eff = (if co_efficiency c \<le> 0 then 1 else co_efficiency c)
         in 1000000000000 * 86400 / (co_difficulty c * hashes_per_difficulty) * co_reward c * co_price c * eff))"

record market =
  mk_coins :: "(string, coin) gomap"
  mk_btc_usd :: real
  mk_fetched :: time

record wtm_coin =
  wm_tag :: string
  wm_algorithm :: string
  wm_reward :: real
  wm_reward24 :: real
  wm_difficulty :: real
  wm_difficulty24 :: real
  wm_rate :: real
  wm_rate24 :: real
  wm_lagging :: bool
  wm_timestamp :: int

definition avg :: "real \<Rightarrow> real \<Rightarrow> real" where
  "avg day_value cur = (if 0 < day_value then day_value else cur)"

definition wtm_tag :: "wtm_coin \<Rightarrow> string" where
  "wtm_tag w = to_upper (trim_space (wm_tag w))"

definition is_stale :: "bool \<Rightarrow> time \<Rightarrow> coin \<Rightarrow> bool" where
  "is_stale lagging now c \<longleftrightarrow> lagging \<or> market_stale_after < time_sub now (co_updated c) \<or> co_difficulty c \<le> 0 \<or>
     co_reward c \<le> 0 \<or> co_price c \<le> 0"

definition wtm_convert :: "string \<Rightarrow> wtm_coin \<Rightarrow> coin" where
  "wtm_convert name w =
     \<lparr>co_tag = wtm_tag w, co_name = name, co_difficulty = avg (wm_difficulty24 w) (wm_difficulty w),
      co_difficulty_now = avg (wm_difficulty w) (wm_difficulty24 w), co_reward = avg (wm_reward24 w) (wm_reward w),
      co_price = avg (wm_rate24 w) (wm_rate w), co_updated = of_unix (wm_timestamp w), co_stale = False,
      co_efficiency = efficiency (wtm_tag w)\<rparr>"

text \<open>One coin of the answer. Usable data of a tag listed before is kept; the price of BTC is in dollars.\<close>

definition keep_coin :: "coin \<Rightarrow> market \<Rightarrow> market" where
  "keep_coin c m =
     (case map_of (mk_coins m) (co_tag c) of
        Some old \<Rightarrow> if \<not> co_stale old then m else m\<lparr>mk_coins := put (co_tag c) c (mk_coins m)\<rparr>
      | None \<Rightarrow> m\<lparr>mk_coins := put (co_tag c) c (mk_coins m)\<rparr>)"

definition wtm_add :: "time \<Rightarrow> string \<times> wtm_coin \<Rightarrow> market \<Rightarrow> market" where
  "wtm_add now entry m =
     (let (name, w) = entry; tag = wtm_tag w in
      if wm_algorithm w \<noteq> ''SHA-256'' \<or> tag = [] \<or> tag = ''NICEHASH'' then m
      else
        (let c = wtm_convert name w;
             m = (if tag = ''BTC'' \<and> 100 < co_price c \<and> co_price c < 10 ^ 8 then m\<lparr>mk_btc_usd := co_price c\<rparr> else m);
             c = (if tag = ''BTC'' then c\<lparr>co_price := 1\<rparr> else c)
         in keep_coin (c\<lparr>co_stale := is_stale (wm_lagging w) now c\<rparr>) m))"

datatype market_error = NotDecoded | NoCoins | Incomplete | FetchFailed

text \<open>The answer decoded, \<^term>\<open>None\<close> if it is not JSON of the form.\<close>

definition parse_what_to_mine :: "(string \<times> wtm_coin) list option \<Rightarrow> time \<Rightarrow> market_error + market" where
  "parse_what_to_mine body now =
     (case body of None \<Rightarrow> Inl NotDecoded
      | Some ws \<Rightarrow>
          (let m = fold (wtm_add now) ws \<lparr>mk_coins = [], mk_btc_usd = 0, mk_fetched = now\<rparr>
           in if mk_coins m = [] then Inl NoCoins else Inr m))"

definition bsv_coin :: "int \<Rightarrow> real \<Rightarrow> real \<Rightarrow> real \<Rightarrow> time \<Rightarrow> market_error + coin" where
  "bsv_coin height difficulty price_usd btc_usd now =
     (if difficulty \<le> 0 \<or> price_usd \<le> 0 \<or> btc_usd \<le> 0 \<or> height \<le> 0 then Inl Incomplete
      else Inr \<lparr>co_tag = ''BSV'', co_name = ''Bitcoin SV'', co_difficulty = difficulty, co_difficulty_now = difficulty,
        co_reward = 50 / 2 ^ nat (go_div (height + 1) 210000), co_price = price_usd / btc_usd, co_updated = now,
        co_stale = False, co_efficiency = 1\<rparr>)"

text \<open>\<open>WithBSV\<close>: what \<open>fetchBSV\<close> got is optional.\<close>

definition with_bsv :: "market_error + market \<Rightarrow> (int \<times> real \<times> real) option \<Rightarrow> time \<Rightarrow> market_error + market" where
  "with_bsv base fetched now =
     (case base of Inl e \<Rightarrow> Inl e
      | Inr m \<Rightarrow>
          (case fetched of None \<Rightarrow> Inr m
           | Some (height, difficulty, price_usd) \<Rightarrow>
               (case bsv_coin height difficulty price_usd (mk_btc_usd m) now of
                  Inl _ \<Rightarrow> Inr m
                | Inr c \<Rightarrow> Inr (m\<lparr>mk_coins := put (co_tag c) c (mk_coins m)\<rparr>))))"

subsection \<open>Reports\<close>

datatype decision = NoData | NoCandidates | ManualPool | Best | BelowMargin | Recommend | Switched | SwitchFailed
  | AwayStay | ReturnHome | Returned

datatype profit_error = NoMarket market_error | NoMarketFor string | MainPoolDown string | SwitchRefused api_error

record coin_view =
  cv_coin :: coin
  cv_price_usd :: real
  cv_revenue :: real
  cv_revenue_usd :: real
  cv_pools :: "string list"

record report =
  rp_at :: time
  rp_scheduled :: bool
  rp_mode :: string
  rp_margin :: int
  rp_coins :: "coin_view list"
  rp_active :: string
  rp_active_coin :: string
  rp_best :: string
  rp_advantage :: real
  rp_decision :: decision
  rp_target :: string
  rp_error :: "profit_error option"
  rp_home :: string
  rp_home_coin :: string
  rp_return_margin :: int
  rp_over_home :: real

definition compared :: "string list" where
  "compared = [''BTC'', ''BCH'', ''BSV'', ''XEC'', ''DGB'', ''FB'']"

definition view_of :: "market \<Rightarrow> (string \<Rightarrow> pool list) \<Rightarrow> coin \<Rightarrow> coin_view" where
  "view_of m by_coin c =
     \<lparr>cv_coin = c, cv_price_usd = (if 0 < mk_btc_usd m then co_price c * mk_btc_usd m else 0), cv_revenue = revenue c,
      cv_revenue_usd = (if 0 < mk_btc_usd m then revenue c * mk_btc_usd m else 0), cv_pools = map p_id (by_coin (co_tag c))\<rparr>"

definition coin_views :: "market \<Rightarrow> (string \<Rightarrow> bool) \<Rightarrow> (string \<Rightarrow> pool list) \<Rightarrow> coin_view list" where
  "coin_views m mined by_coin =
     sort_by (\<lambda>a b. cv_revenue b < cv_revenue a)
       (map (view_of m by_coin)
         (filter (\<lambda>c. co_tag c \<in> set compared \<or> mined (co_tag c)) (map snd (mk_coins m))))"

definition mined_by :: "pool list \<Rightarrow> string \<Rightarrow> bool" where
  "mined_by ps tag \<longleftrightarrow> list_ex (\<lambda>p. p_coin p = tag) ps"

text \<open>The pools that take part and are not DOWN, by coin.\<close>

definition taking_part :: "(string \<Rightarrow> status) \<Rightarrow> pool \<Rightarrow> bool" where
  "taking_part st p \<longleftrightarrow> p_profit_switch p \<and> st (p_id p) \<noteq> Down"

definition pools_of :: "(string \<Rightarrow> status) \<Rightarrow> pool list \<Rightarrow> string \<Rightarrow> pool list" where
  "pools_of st ps tag = filter (\<lambda>p. taking_part st p \<and> p_coin p = tag) ps"

definition tags_of :: "(string \<Rightarrow> status) \<Rightarrow> pool list \<Rightarrow> string list" where
  "tags_of st ps = remdups (map p_coin (filter (taking_part st) ps))"

definition better :: "market \<Rightarrow> string \<Rightarrow> coin \<Rightarrow> coin" where
  "better m tag best =
     (case map_of (mk_coins m) tag of None \<Rightarrow> best
      | Some c \<Rightarrow> if \<not> co_stale c \<and> revenue best < revenue c then c else best)"

definition usable :: "market \<Rightarrow> string \<Rightarrow> coin option" where
  "usable m tag =
     (case map_of (mk_coins m) tag of None \<Rightarrow> None
      | Some c \<Rightarrow> if co_stale c \<or> revenue c \<le> 0 then None else Some c)"

definition main_pool :: "pool list \<Rightarrow> pool option" where
  "main_pool ps = fold (\<lambda>p h. if p_profit_home p \<and> p_profit_switch p then Some p else h) ps None"

text \<open>\<open>homePool\<close>: the main pool, and its coin if the farm compares for another pool.\<close>

definition home_pool :: "pool list \<Rightarrow> market \<Rightarrow> pool \<Rightarrow> pool option \<times> coin option" where
  "home_pool ps m active =
     (case main_pool ps of None \<Rightarrow> (None, None)
      | Some h \<Rightarrow> (Some h, if p_id active \<noteq> p_id h then usable m (p_coin h) else None))"

definition pick_pool :: "(string \<Rightarrow> status) \<Rightarrow> pool list \<Rightarrow> string" where
  "pick_pool st ps = (case List.find (\<lambda>p. st (p_id p) = Up) ps of Some p \<Rightarrow> p_id p | None \<Rightarrow> p_id (hd ps))"

text \<open>\<open>decide\<close>. \<open>away\<close> is the pool timed switching returns to, \<open>order\<close> the order of the iteration over the coins.\<close>

definition advantage :: "coin \<Rightarrow> coin \<Rightarrow> real" where
  "advantage a b = (revenue a / revenue b - 1) * 100"

definition choose_move ::
  "(string \<Rightarrow> status) \<Rightarrow> pool list \<Rightarrow> coin \<Rightarrow> coin \<Rightarrow> pool option \<Rightarrow> coin option \<Rightarrow> report \<Rightarrow> report" where
  "choose_move st ps cur best home away rep =
     (if co_tag best = co_tag cur \<and> away = None then rep\<lparr>rp_decision := Best\<rparr>
      else if co_tag best \<noteq> co_tag cur \<and> real_of_int (rp_margin rep) \<le> rp_advantage rep \<and>
          (case away of None \<Rightarrow> True | Some hc \<Rightarrow> co_tag best \<noteq> co_tag hc)
      then rep\<lparr>rp_decision := Recommend, rp_target := pick_pool st (pools_of st ps (co_tag best))\<rparr>
      else (case (away, home) of
          (Some hc, Some h) \<Rightarrow>
            (let rep = rep\<lparr>rp_over_home := advantage cur hc\<rparr> in
             if real_of_int (rp_return_margin rep) \<le> rp_over_home rep then rep\<lparr>rp_decision := AwayStay\<rparr>
             else if st (p_id h) = Down then rep\<lparr>rp_decision := AwayStay, rp_error := Some (MainPoolDown (p_name h))\<rparr>
             else rep\<lparr>rp_decision := ReturnHome, rp_target := p_id h\<rparr>)
        | _ \<Rightarrow> rep\<lparr>rp_decision := BelowMargin\<rparr>))"

definition decide ::
  "snapshot \<Rightarrow> (string \<Rightarrow> status) \<Rightarrow> string \<Rightarrow> (string list \<Rightarrow> string list) \<Rightarrow> market \<Rightarrow> report \<Rightarrow> report" where
  "decide s st away order m rep =
     (let ps = sn_pools s;
          rep = rep\<lparr>rp_coins := coin_views m (mined_by ps) (pools_of st ps)\<rparr>
      in case snap_get s (if away \<noteq> [] then away else sn_active s) of
           None \<Rightarrow> rep\<lparr>rp_decision := NoCandidates\<rparr>
         | Some active \<Rightarrow>
             (let rep = rep\<lparr>rp_active := p_id active, rp_active_coin := p_coin active\<rparr> in
              if \<not> p_profit_switch active then rep\<lparr>rp_decision := ManualPool\<rparr>
              else (case usable m (p_coin active) of
                  None \<Rightarrow> rep\<lparr>rp_decision := NoData, rp_error := Some (NoMarketFor (p_coin active))\<rparr>
                | Some cur \<Rightarrow>
                    (let best = fold (better m) (order (tags_of st ps)) cur;
                         (home, hc) = home_pool ps m active;
                         rep = rep\<lparr>rp_best := co_tag best, rp_advantage := advantage best cur\<rparr>;
                         rep = (case home of None \<Rightarrow> rep | Some h \<Rightarrow> rep\<lparr>rp_home := p_id h, rp_home_coin := p_coin h\<rparr>)
                     in choose_move st ps cur best home hc rep))))"

subsection \<open>Checks\<close>

record profit_file =
  pf_last_run :: time
  pf_report :: "report option"

record profit =
  pr_started :: time
  pr_last_run :: time
  pr_report :: "report option"
  pr_market :: "market option"
  pr_file :: "profit_file option"

datatype profit_event =
    ProfitSwitched string real string string
  | ProfitRecommend string real string string
  | ProfitReturned string real string int string
  | ProfitGoBack string real string int string
  | ProfitStay report
  | ProfitSwitchFailed string "profit_error option"
  | ProfitNoData "profit_error option"

definition new_profit :: "profit_file option \<Rightarrow> profit" where
  "new_profit f =
     \<lparr>pr_started = zero_time, pr_last_run = (case f of None \<Rightarrow> zero_time | Some x \<Rightarrow> pf_last_run x),
      pr_report = (case f of None \<Rightarrow> None | Some x \<Rightarrow> pf_report x), pr_market = None, pr_file = f\<rparr>"

definition next_run :: "settings_values \<Rightarrow> profit \<Rightarrow> time" where
  "next_run v p =
     (let next_time = (if is_zero (pr_last_run p) then zero_time else pr_last_run p + v_profit_interval v);
          first = pr_started p + start_delay
      in if \<not> is_zero (pr_started p) \<and> next_time < first then first else next_time)"

definition profit_due :: "settings_values \<Rightarrow> string \<Rightarrow> time \<Rightarrow> profit \<Rightarrow> bool" where
  "profit_due v away now p \<longleftrightarrow> v_profit_switch v \<noteq> profit_off \<and> away = [] \<and> \<not> now < next_run v p"

text \<open>\<open>marketData\<close>: fetched data is used again for a while.\<close>

definition market_data :: "(market_error + market) \<Rightarrow> time \<Rightarrow> profit \<Rightarrow> (market_error + market) \<times> profit" where
  "market_data fetched now p =
     (case pr_market p of
        Some m \<Rightarrow> if time_sub now (mk_fetched m) < cache_for then (Inr m, p)
          else (case fetched of Inl e \<Rightarrow> (Inl e, p) | Inr m' \<Rightarrow> (Inr m', p\<lparr>pr_market := Some m'\<rparr>))
      | None \<Rightarrow> (case fetched of Inl e \<Rightarrow> (Inl e, p) | Inr m' \<Rightarrow> (Inr m', p\<lparr>pr_market := Some m'\<rparr>)))"

definition profit_events :: "report \<Rightarrow> profit_event list" where
  "profit_events r =
     (case rp_decision r of
        Switched \<Rightarrow> [ProfitSwitched (rp_best r) (rp_advantage r) (rp_active_coin r) (rp_target r)]
      | Recommend \<Rightarrow> [ProfitRecommend (rp_best r) (rp_advantage r) (rp_active_coin r) (rp_target r)]
      | Returned \<Rightarrow> [ProfitReturned (rp_active_coin r) (rp_over_home r) (rp_home_coin r) (rp_return_margin r) (rp_target r)]
      | ReturnHome \<Rightarrow> [ProfitGoBack (rp_active_coin r) (rp_over_home r) (rp_home_coin r) (rp_return_margin r) (rp_target r)]
      | AwayStay \<Rightarrow> [ProfitStay r] | BelowMargin \<Rightarrow> [ProfitStay r] | Best \<Rightarrow> [ProfitStay r]
      | SwitchFailed \<Rightarrow> [ProfitSwitchFailed (rp_target r) (rp_error r)]
      | NoData \<Rightarrow> [ProfitNoData (rp_error r)]
      | NoCandidates \<Rightarrow> [] | ManualPool \<Rightarrow> [])"

definition empty_report :: "settings_values \<Rightarrow> bool \<Rightarrow> time \<Rightarrow> report" where
  "empty_report v scheduled now =
     \<lparr>rp_at = now, rp_scheduled = scheduled, rp_mode = v_profit_switch v, rp_margin = v_profit_margin v, rp_coins = [], rp_active = [],
      rp_active_coin = [], rp_best = [], rp_advantage = 0, rp_decision = NoData, rp_target = [], rp_error = None, rp_home = [],
      rp_home_coin = [], rp_return_margin = v_profit_return_margin v, rp_over_home = 0\<rparr>"

definition moves :: "report \<Rightarrow> bool" where
  "moves r \<longleftrightarrow> rp_decision r = Recommend \<or> rp_decision r = ReturnHome"

text \<open>The switch that a scheduled check makes in auto mode; \<open>during\<close> is what others did while the pool was
  checked.\<close>

definition carry_out ::
  "'m pool_ops \<Rightarrow> settings_values \<Rightarrow> bool \<Rightarrow> ('m \<Rightarrow> 'm) \<Rightarrow> report \<Rightarrow> 'm \<Rightarrow> report \<times> 'm" where
  "carry_out ops v scheduled during rep m =
     (if scheduled \<and> moves rep \<and> v_profit_switch v = profit_auto then
        (case op_activate ops (rp_target rep) ''profit'' m (during m) of
           (Inl e, m') \<Rightarrow> (rep\<lparr>rp_decision := SwitchFailed, rp_error := Some (SwitchRefused e)\<rparr>, m')
         | (Inr _, m') \<Rightarrow>
             (rep\<lparr>rp_decision := (if rp_decision rep = ReturnHome then Returned else Switched)\<rparr>, m'))
      else (rep, m))"

definition profit_check ::
  "'m pool_ops \<Rightarrow> settings_values \<Rightarrow> bool \<Rightarrow> string \<Rightarrow> (string list \<Rightarrow> string list) \<Rightarrow> (market_error + market) \<Rightarrow> time \<Rightarrow> bool
     \<Rightarrow> ('m \<Rightarrow> 'm) \<Rightarrow> profit \<Rightarrow> 'm \<Rightarrow> report \<times> profit_event list \<times> profit \<times> 'm" where
  "profit_check ops v scheduled away order fetched now saved during p m =
     (let (data, p) = market_data fetched now p;
          (rep, m) = (case data of
              Inl e \<Rightarrow> ((empty_report v scheduled now)\<lparr>rp_decision := NoData, rp_error := Some (NoMarket e)\<rparr>, m)
            | Inr mk \<Rightarrow> carry_out ops v scheduled during
                (decide (op_snap ops m) (op_status ops m) away order mk (empty_report v scheduled now)) m);
          p = p\<lparr>pr_report := Some rep\<rparr>;
          p = (if scheduled then p\<lparr>pr_last_run := rp_at rep\<rparr> else p);
          p = (if saved then p\<lparr>pr_file := Some \<lparr>pf_last_run = pr_last_run p, pf_report = Some rep\<rparr>\<rparr> else p)
      in (rep, if scheduled then profit_events rep else [], p, m))"

record profit_status =
  st_mode :: string
  st_interval :: duration
  st_margin :: int
  st_last_run :: "time option"
  st_next_run :: "time option"
  st_btc_usd :: real
  st_report :: "report option"

definition profit_status_of :: "settings_values \<Rightarrow> time \<Rightarrow> profit \<Rightarrow> profit_status" where
  "profit_status_of v now p =
     \<lparr>st_mode = v_profit_switch v, st_interval = v_profit_interval v, st_margin = v_profit_margin v,
      st_last_run = (if is_zero (pr_last_run p) then None else Some (pr_last_run p)),
      st_next_run = (if v_profit_switch v \<noteq> profit_off \<and> \<not> is_zero (next_run v p)
                     then Some (max (next_run v p) now) else None),
      st_btc_usd = (case pr_market p of None \<Rightarrow> 0 | Some m \<Rightarrow> mk_btc_usd m), st_report = pr_report p\<rparr>"

definition network_coins :: "(market_error + market) \<Rightarrow> pool list \<Rightarrow> time \<Rightarrow> profit \<Rightarrow> (market_error + market \<times> coin_view list) \<times> profit" where
  "network_coins fetched ps now p =
     (case market_data fetched now p of
        (Inl e, p) \<Rightarrow> (Inl e, p)
      | (Inr m, p) \<Rightarrow> (Inr (m, coin_views m (mined_by ps) (\<lambda>_. [])), p))"

subsection \<open>The market\<close>

definition wf_market :: "market \<Rightarrow> bool" where
  "wf_market m \<longleftrightarrow> wf_map (mk_coins m) \<and> (\<forall>(tag, c) \<in> set (mk_coins m). co_tag c = tag)"

lemma wf_market_coin: "wf_market m \<Longrightarrow> map_of (mk_coins m) tag = Some c \<Longrightarrow> co_tag c = tag"
  by (auto simp: wf_market_def dest: map_of_SomeD)

lemma wf_market_put: "wf_market m \<Longrightarrow> co_tag c = tag \<Longrightarrow> wf_market (m\<lparr>mk_coins := put tag c (mk_coins m)\<rparr>)"
  using set_put_subset [of tag c "mk_coins m"] by (auto simp: wf_market_def)

lemma wf_market_btc: "wf_market (m\<lparr>mk_btc_usd := u\<rparr>) = wf_market m"
  by (simp add: wf_market_def)

lemma wf_market_keep: "wf_market m \<Longrightarrow> wf_market (keep_coin c m)"
  by (auto simp: keep_coin_def wf_market_put split: option.split)

lemma wf_market_add: "wf_market m \<Longrightarrow> wf_market (wtm_add now e m)"
  by (simp add: wtm_add_def Let_def split_beta wf_market_keep wf_market_btc)

lemma wf_market_fold: "wf_market m \<Longrightarrow> wf_market (fold (wtm_add now) ws m)"
  by (induction ws arbitrary: m) (simp_all add: wf_market_add)

lemma wf_market_parse: "parse_what_to_mine body now = Inr m \<Longrightarrow> wf_market m"
  using wf_market_fold [of "\<lparr>mk_coins = [], mk_btc_usd = 0, mk_fetched = now\<rparr>"]
  by (auto simp: parse_what_to_mine_def Let_def wf_market_def [of "\<lparr>mk_coins = [], mk_btc_usd = 0, mk_fetched = now\<rparr>"]
      split: option.splits if_splits)

lemma wf_market_bsv: "(\<And>m. base = Inr m \<Longrightarrow> wf_market m) \<Longrightarrow> with_bsv base fetched now = Inr m \<Longrightarrow> wf_market m"
  by (auto simp: with_bsv_def wf_market_put split: sum.splits option.splits prod.splits)

subsection \<open>The best coin\<close>

lemma better_fold:
  assumes "wf_market m"
  shows "(fold (better m) tags c = c \<or>
      (\<exists>tag \<in> set tags. map_of (mk_coins m) tag = Some (fold (better m) tags c) \<and> \<not> co_stale (fold (better m) tags c) \<and>
         revenue c < revenue (fold (better m) tags c))) \<and>
    revenue c \<le> revenue (fold (better m) tags c) \<and>
    (\<forall>tag \<in> set tags. \<forall>d. map_of (mk_coins m) tag = Some d \<longrightarrow> \<not> co_stale d \<longrightarrow> revenue d \<le> revenue (fold (better m) tags c))"
proof (induction tags arbitrary: c)
  case (Cons tag tags)
  show ?case
  proof (cases "map_of (mk_coins m) tag")
    case None
    then show ?thesis using Cons [of c] by (auto simp: better_def)
  next
    case (Some d)
    show ?thesis
    proof (cases "\<not> co_stale d \<and> revenue c < revenue d")
      case True
      then have "better m tag c = d" using Some by (simp add: better_def)
      then show ?thesis using Cons [of d] True Some by fastforce
    next
      case False
      then have "better m tag c = c" using Some by (auto simp: better_def)
      then show ?thesis using Cons [of c] False Some by fastforce
    qed
  qed
qed simp

lemma usable_coin: "usable m tag = Some c \<Longrightarrow> map_of (mk_coins m) tag = Some c \<and> \<not> co_stale c \<and> 0 < revenue c"
  by (auto simp: usable_def split: option.splits if_splits)

lemma advantage_iff: "0 < revenue b \<Longrightarrow> x \<le> advantage a b \<longleftrightarrow> (1 + x / 100) * revenue b \<le> revenue a"
  by (simp add: advantage_def field_simps)

lemma tags_pools: "tag \<in> set (tags_of st ps) \<longleftrightarrow> pools_of st ps tag \<noteq> []"
  by (auto simp: tags_of_def pools_of_def filter_empty_conv)

lemma pick_pool_in:
  assumes "ps \<noteq> []"
  shows "\<exists>p \<in> set ps. pick_pool st ps = p_id p"
  using assms by (cases "List.find (\<lambda>p. st (p_id p) = Up) ps") (auto simp: pick_pool_def dest: find_Some_iff')

subsection \<open>What a check decides\<close>

definition candidate :: "(string \<Rightarrow> status) \<Rightarrow> pool list \<Rightarrow> market \<Rightarrow> coin \<Rightarrow> bool" where
  "candidate st ps m c \<longleftrightarrow> (\<exists>tag \<in> set (tags_of st ps). map_of (mk_coins m) tag = Some c \<and> \<not> co_stale c)"

text \<open>What \<open>decide\<close> compares: the pool, its coin and the best coin.\<close>

definition compares ::
  "snapshot \<Rightarrow> (string \<Rightarrow> status) \<Rightarrow> string \<Rightarrow> market \<Rightarrow> pool \<Rightarrow> coin \<Rightarrow> coin \<Rightarrow> bool" where
  "compares s st away m a cur best \<longleftrightarrow>
     snap_get s (if away \<noteq> [] then away else sn_active s) = Some a \<and> p_profit_switch a \<and> usable m (p_coin a) = Some cur \<and>
     (best = cur \<or> candidate st (sn_pools s) m best \<and> revenue cur < revenue best) \<and>
     (\<forall>c. candidate st (sn_pools s) m c \<longrightarrow> revenue c \<le> revenue best)"

definition compared_report :: "report \<Rightarrow> coin_view list \<Rightarrow> pool \<Rightarrow> coin \<Rightarrow> coin \<Rightarrow> pool option \<Rightarrow> report" where
  "compared_report rep views a cur best home =
     rep\<lparr>rp_coins := views, rp_active := p_id a, rp_active_coin := p_coin a, rp_best := co_tag best, rp_advantage := advantage best cur,
       rp_home := (case home of None \<Rightarrow> rp_home rep | Some h \<Rightarrow> p_id h),
       rp_home_coin := (case home of None \<Rightarrow> rp_home_coin rep | Some h \<Rightarrow> p_coin h)\<rparr>"

lemma decide_cases:
  assumes "wf_market m" "\<And>l. set (order l) = set l"
  obtains
    (stays) "rp_decision (decide s st away order m rep) \<in> {NoCandidates, ManualPool, NoData}"
  | (compared) a cur best views where
      "compares s st away m a cur best"
      "decide s st away order m rep =
         choose_move st (sn_pools s) cur best (fst (home_pool (sn_pools s) m a)) (snd (home_pool (sn_pools s) m a))
           (compared_report rep views a cur best (fst (home_pool (sn_pools s) m a)))"
proof -
  let ?g = "snap_get s (if away \<noteq> [] then away else sn_active s)"
  consider "?g = None" | a where "?g = Some a" "\<not> p_profit_switch a"
    | a where "?g = Some a" "p_profit_switch a" "usable m (p_coin a) = None"
    | a cur where "?g = Some a" "p_profit_switch a" "usable m (p_coin a) = Some cur" by (meson not_None_eq)
  then show thesis
  proof cases
    case (4 a cur)
    let ?best = "fold (better m) (order (tags_of st (sn_pools s))) cur"
    have "compares s st away m a cur ?best"
      using better_fold [OF assms(1), of "order (tags_of st (sn_pools s))" cur] 4
      by (auto simp: compares_def candidate_def assms(2))
    moreover have "decide s st away order m rep =
        choose_move st (sn_pools s) cur ?best (fst (home_pool (sn_pools s) m a)) (snd (home_pool (sn_pools s) m a))
          (compared_report rep (coin_views m (mined_by (sn_pools s)) (pools_of st (sn_pools s))) a cur ?best
            (fst (home_pool (sn_pools s) m a)))"
      unfolding decide_def Let_def using 4
      by (cases "home_pool (sn_pools s) m a") (auto simp: compared_report_def split: option.split)
    ultimately show thesis using compared by blast
  qed (use stays in \<open>simp_all add: decide_def Let_def\<close>)
qed

lemma choose_move_fields:
  "rp_active_coin (choose_move st ps cur best home hc rep) = rp_active_coin rep"
  "rp_best (choose_move st ps cur best home hc rep) = rp_best rep"
  "rp_active (choose_move st ps cur best home hc rep) = rp_active rep"
  by (auto simp: choose_move_def Let_def split: option.split)

lemma choose_move_recommend:
  "rp_decision (choose_move st ps cur best home hc rep) = Recommend \<longleftrightarrow>
     co_tag best \<noteq> co_tag cur \<and> real_of_int (rp_margin rep) \<le> rp_advantage rep \<and>
     (case hc of None \<Rightarrow> True | Some h \<Rightarrow> co_tag best \<noteq> co_tag h)"
  "rp_decision (choose_move st ps cur best home hc rep) = Recommend \<Longrightarrow>
     rp_target (choose_move st ps cur best home hc rep) = pick_pool st (pools_of st ps (co_tag best))"
  by (auto simp: choose_move_def Let_def split: option.split if_splits option.splits)

lemma choose_move_return:
  "rp_decision (choose_move st ps cur best home hc rep) = ReturnHome \<Longrightarrow>
     \<exists>h c. home = Some h \<and> hc = Some c \<and> advantage cur c < real_of_int (rp_return_margin rep) \<and> st (p_id h) \<noteq> Down \<and>
       rp_target (choose_move st ps cur best home hc rep) = p_id h"
  by (auto simp: choose_move_def Let_def not_le split: option.splits if_splits)

lemma choose_move_decisions:
  "rp_decision (choose_move st ps cur best home hc rep) \<in> {Best, Recommend, AwayStay, ReturnHome, BelowMargin}"
  by (simp add: choose_move_def Let_def split: option.split)

text \<open>A coin pays if it earns the margin more.\<close>

definition pays :: "int \<Rightarrow> coin \<Rightarrow> coin \<Rightarrow> bool" where
  "pays margin best cur \<longleftrightarrow> (1 + real_of_int margin / 100) * revenue cur \<le> revenue best"

definition worth_it :: "snapshot \<Rightarrow> (string \<Rightarrow> status) \<Rightarrow> market \<Rightarrow> report \<Rightarrow> bool" where
  "worth_it s st m r \<longleftrightarrow>
     (\<exists>p cur best. p \<in> set (sn_pools s) \<and> p_id p = rp_target r \<and> taking_part st p \<and> usable m (rp_active_coin r) = Some cur \<and>
        map_of (mk_coins m) (p_coin p) = Some best \<and> \<not> co_stale best \<and> revenue cur < revenue best \<and> pays (rp_margin r) best cur \<and>
        (\<forall>c. candidate st (sn_pools s) m c \<longrightarrow> revenue c \<le> revenue best))"

definition back_home :: "snapshot \<Rightarrow> (string \<Rightarrow> status) \<Rightarrow> market \<Rightarrow> report \<Rightarrow> bool" where
  "back_home s st m r \<longleftrightarrow>
     (\<exists>h cur c. main_pool (sn_pools s) = Some h \<and> p_id h = rp_target r \<and> taking_part st h \<and> usable m (rp_active_coin r) = Some cur \<and>
        usable m (p_coin h) = Some c \<and> \<not> pays (rp_return_margin r) cur c)"

lemma main_pool_in: "main_pool ps = Some h \<Longrightarrow> h \<in> set ps \<and> p_profit_home h \<and> p_profit_switch h"
proof -
  have "fold (\<lambda>p h. if p_profit_home p \<and> p_profit_switch p then Some p else h) ps h0 = Some h \<Longrightarrow>
      h0 = Some h \<or> h \<in> set ps \<and> p_profit_home h \<and> p_profit_switch h" for h0
    by (induction ps arbitrary: h0) (auto split: if_splits)
  then show "main_pool ps = Some h \<Longrightarrow> ?thesis" by (fastforce simp: main_pool_def)
qed

lemma home_pool_some:
  "home_pool ps m a = (Some h, Some c) \<Longrightarrow> main_pool ps = Some h \<and> p_id a \<noteq> p_id h \<and> usable m (p_coin h) = Some c"
  by (auto simp: home_pool_def split: option.splits if_splits)

lemma candidate_pools:
  "wf_market m \<Longrightarrow> candidate st ps m c \<Longrightarrow>
     map_of (mk_coins m) (co_tag c) = Some c \<and> \<not> co_stale c \<and> pools_of st ps (co_tag c) \<noteq> []"
  by (auto simp: candidate_def tags_pools dest: wf_market_coin)

lemma pays_advantage: "0 < revenue cur \<Longrightarrow> real_of_int margin \<le> advantage best cur \<longleftrightarrow> pays margin best cur"
  by (simp add: pays_def advantage_iff)

lemma decide_worth:
  assumes wf: "wf_market m" and ord: "\<And>l. set (order l) = set l" and d: "rp_decision (decide s st away order m rep) = Recommend"
  shows "worth_it s st m (decide s st away order m rep)"
proof -
  let ?r = "decide s st away order m rep"
  from wf ord show ?thesis
  proof (rule decide_cases [of m order s st away rep])
    fix a cur best views
    let ?h = "home_pool (sn_pools s) m a"
    assume cmp: "compares s st away m a cur best"
      and r: "?r = choose_move st (sn_pools s) cur best (fst ?h) (snd ?h) (compared_report rep views a cur best (fst ?h))"
    have u: "usable m (p_coin a) = Some cur" using cmp by (simp add: compares_def)
    then have cur: "0 < revenue cur" "co_tag cur = p_coin a" using usable_coin wf_market_coin [OF wf] by blast+
    have rec: "co_tag best \<noteq> co_tag cur" "real_of_int (rp_margin rep) \<le> advantage best cur"
      and t: "rp_target ?r = pick_pool st (pools_of st (sn_pools s) (co_tag best))"
      using d unfolding r choose_move_recommend by (auto simp: choose_move_recommend compared_report_def)
    have c: "candidate st (sn_pools s) m best" "revenue cur < revenue best" using cmp rec(1) by (auto simp: compares_def)
    note cp = candidate_pools [OF wf c(1)]
    obtain p where "p \<in> set (pools_of st (sn_pools s) (co_tag best))" "rp_target ?r = p_id p"
      using pick_pool_in [of "pools_of st (sn_pools s) (co_tag best)" st] cp t by auto
    moreover have "rp_active_coin ?r = p_coin a" "rp_margin ?r = rp_margin rep"
      by (auto simp: r choose_move_def compared_report_def Let_def split: option.split)
    ultimately show ?thesis
      using cp c u cmp rec(2) pays_advantage [OF cur(1)] unfolding worth_it_def pools_of_def compares_def by fastforce
  qed (use d in auto)
qed

lemma decide_home:
  assumes wf: "wf_market m" and ord: "\<And>l. set (order l) = set l" and d: "rp_decision (decide s st away order m rep) = ReturnHome"
  shows "back_home s st m (decide s st away order m rep)"
proof -
  let ?r = "decide s st away order m rep"
  from wf ord show ?thesis
  proof (rule decide_cases [of m order s st away rep])
    fix a cur best views
    let ?h = "home_pool (sn_pools s) m a"
    assume cmp: "compares s st away m a cur best"
      and r: "?r = choose_move st (sn_pools s) cur best (fst ?h) (snd ?h) (compared_report rep views a cur best (fst ?h))"
    obtain h c where hc: "fst ?h = Some h" "snd ?h = Some c" and adv: "advantage cur c < real_of_int (rp_return_margin rep)"
      and up: "st (p_id h) \<noteq> Down" and t: "rp_target ?r = p_id h"
      using choose_move_return d unfolding r by (fastforce simp: compared_report_def)
    then have m: "main_pool (sn_pools s) = Some h" "usable m (p_coin h) = Some c"
      using home_pool_some [of "sn_pools s" m a h c] by (metis prod.collapse)+
    have "rp_active_coin ?r = p_coin a" "rp_return_margin ?r = rp_return_margin rep"
      by (auto simp: r choose_move_def compared_report_def Let_def split: option.split)
    then show ?thesis
      using m main_pool_in [OF m(1)] t up adv cmp pays_advantage [of c "rp_return_margin rep" cur] usable_coin [OF m(2)]
      unfolding back_home_def taking_part_def compares_def by fastforce
  qed (use d in auto)
qed

subsection \<open>Checks that switch\<close>

lemma worth_it_fields [simp]:
  "worth_it s st m (r\<lparr>rp_decision := d\<rparr>) = worth_it s st m r" "worth_it s st m (r\<lparr>rp_error := e\<rparr>) = worth_it s st m r"
  "back_home s st m (r\<lparr>rp_decision := d\<rparr>) = back_home s st m r" "back_home s st m (r\<lparr>rp_error := e\<rparr>) = back_home s st m r"
  by (simp_all add: worth_it_def back_home_def)

lemma choose_move_plain [simp]:
  "rp_decision (choose_move st ps cur best home hc rep) \<noteq> Switched" "rp_decision (choose_move st ps cur best home hc rep) \<noteq> Returned"
  "rp_decision (choose_move st ps cur best home hc rep) \<noteq> SwitchFailed"
  by (simp_all add: choose_move_def Let_def split: option.split)

lemma decide_plain: "rp_decision (decide s st away order m rep) \<notin> {Switched, Returned, SwitchFailed}"
  by (simp add: decide_def Let_def split: option.split prod.split)

context routing begin

lemma carry_out_moves:
  assumes "carry_out ops v scheduled during rep m = (rep', m')" "inv m" "inv (during m)" "rp_decision rep \<notin> {Switched, Returned, SwitchFailed}"
  shows "inv m' \<and>
    (if rp_decision rep' \<in> {Switched, Returned, SwitchFailed}
     then scheduled \<and> v_profit_switch v = profit_auto \<and>
       (rp_decision rep' = Switched \<longrightarrow> rp_decision rep = Recommend) \<and> (rp_decision rep' = Returned \<longrightarrow> rp_decision rep = ReturnHome) \<and>
       (if rp_decision rep' = SwitchFailed then m' = m \<or> m' = during m
        else snap_get (op_snap ops (during m)) (rp_target rep') \<noteq> None \<and>
          op_snap ops m' = (op_snap ops (during m))
            \<lparr>sn_active := rp_target rep', sn_fallback := order_after (rp_target rep') (op_snap ops (during m))\<rparr>)
     else m' = m) \<and>
    rp_target rep' = rp_target rep \<and> rp_active_coin rep' = rp_active_coin rep \<and> rp_margin rep' = rp_margin rep \<and>
    rp_return_margin rep' = rp_return_margin rep"
proof (cases "scheduled \<and> moves rep \<and> v_profit_switch v = profit_auto")
  case True
  show ?thesis
  proof (cases "op_activate ops (rp_target rep) ''profit'' m (during m)")
    case a: (Pair res mm)
    then show ?thesis
    proof (cases res)
      case (Inl e)
      have "mm = m \<or> mm = during m" using activate_error [of "rp_target rep" "''profit''" m "during m"] a Inl assms(3) by blast
      then show ?thesis using assms True a Inl by (auto simp: carry_out_def)
    next
      case (Inr n)
      note ok = activate_ok [OF assms(3) a [unfolded Inr]]
      then show ?thesis using assms(1) True a Inr by (auto simp: carry_out_def moves_def)
    qed
  qed
next
  case False
  then show ?thesis using assms by (auto simp: carry_out_def)
qed

end

lemma market_data_wf:
  "(\<And>mk. pr_market p = Some mk \<Longrightarrow> wf_market mk) \<Longrightarrow> (\<And>mk. fetched = Inr mk \<Longrightarrow> wf_market mk) \<Longrightarrow>
   fst (market_data fetched now p) = Inr mk \<Longrightarrow> wf_market mk"
  by (auto simp: market_data_def split: option.splits sum.splits if_splits)

lemma profit_check_report:
  assumes "profit_check ops v scheduled away order fetched now saved during p m = (rep, evs, p', m')"
  shows "case fst (market_data fetched now p) of
      Inl e \<Rightarrow> m' = m \<and> rp_decision rep = NoData
    | Inr mk \<Rightarrow> (rep, m') = carry_out ops v scheduled during
        (decide (op_snap ops m) (op_status ops m) away order mk (empty_report v scheduled now)) m"
  using assms
  by (cases "market_data fetched now p") (auto simp: profit_check_def Let_def split: sum.splits prod.splits)


subsection \<open>Two checks in a row\<close>

lemma decide_margins [simp]:
  "rp_margin (decide s st away order m rep) = rp_margin rep" "rp_return_margin (decide s st away order m rep) = rp_return_margin rep"
  by (simp_all add: decide_def choose_move_def Let_def split: option.split prod.split)

lemma decide_active:
  assumes "moves (decide s st [] order m rep)"
  shows "\<exists>a. snap_get s (sn_active s) = Some a \<and> rp_active (decide s st [] order m rep) = p_id a \<and>
     rp_active_coin (decide s st [] order m rep) = p_coin a"
proof (cases "snap_get s (sn_active s)")
  case None
  then show ?thesis using assms by (simp add: decide_def moves_def Let_def)
next
  case (Some a)
  then show ?thesis by (simp add: decide_def Let_def choose_move_fields split: option.split prod.split)
qed

lemma candidate_mono:
  "(\<And>i. st i = Down \<Longrightarrow> st2 i = Down) \<Longrightarrow> candidate st2 ps m c \<Longrightarrow> candidate st ps m c"
  by (auto simp: candidate_def tags_of_def taking_part_def)

lemma pays_mono: "pays m1 a b \<Longrightarrow> m2 \<le> m1 \<Longrightarrow> 0 < revenue b \<Longrightarrow> pays m2 a b"
proof -
  assume p: "pays m1 a b" and m: "m2 \<le> m1" and b: "0 < revenue b"
  have "(1 + real_of_int m2 / 100) * revenue b \<le> (1 + real_of_int m1 / 100) * revenue b" using m b by simp
  then show ?thesis using p unfolding pays_def by linarith
qed

lemma snap_get_SomeD: "snap_get s i = Some p \<Longrightarrow> p \<in> set (sn_pools s) \<and> p_id p = i"
  using find_pool_iff by (auto simp: snap_get_def)

lemma pools_by_id: "distinct (map p_id ps) \<Longrightarrow> p \<in> set ps \<Longrightarrow> q \<in> set ps \<Longrightarrow> p_id p = p_id q \<Longrightarrow> p = q"
  by (auto simp: distinct_map dest: inj_onD)

lemma snap_get_in: "distinct (map p_id (sn_pools s)) \<Longrightarrow> p \<in> set (sn_pools s) \<Longrightarrow> snap_get s (p_id p) = Some p"
proof -
  assume d: "distinct (map p_id (sn_pools s))" "p \<in> set (sn_pools s)"
  then obtain q where "snap_get s (p_id p) = Some q" using find_pool_some [of "sn_pools s" "p_id p"] by (auto simp: snap_get_def)
  then show ?thesis using pools_by_id [OF d(1) d(2)] snap_get_SomeD [of s "p_id p" q] by metis
qed

text \<open>The move of a second check, by what it compares.\<close>

lemma second_move:
  assumes wf: "wf_market mk" and ord: "\<And>l. set (order l) = set l" and mv: "moves (decide s st [] order mk rep)"
    and a: "snap_get s (sn_active s) = Some a"
  obtains (recommend) cur best where "compares s st [] mk a cur best" "rp_best (decide s st [] order mk rep) = co_tag best"
      "co_tag best \<noteq> co_tag cur" "pays (rp_margin rep) best cur"
    | (return_home) cur best h c where "compares s st [] mk a cur best" "main_pool (sn_pools s) = Some h" "p_id a \<noteq> p_id h"
      "usable mk (p_coin h) = Some c" "\<not> pays (rp_return_margin rep) cur c"
proof -
  from wf ord show thesis
  proof (rule decide_cases [of mk order s st "[]" rep])
    fix a' cur best views
    let ?h = "home_pool (sn_pools s) mk a'" and ?r = "decide s st [] order mk rep"
    assume cmp: "compares s st [] mk a' cur best"
      and r: "?r = choose_move st (sn_pools s) cur best (fst ?h) (snd ?h) (compared_report rep views a' cur best (fst ?h))"
    have a': "a' = a" and u: "usable mk (p_coin a) = Some cur" using cmp a by (simp_all add: compares_def)
    have pos: "0 < revenue cur" using usable_coin [OF u] by simp
    consider "rp_decision ?r = Recommend" | "rp_decision ?r = ReturnHome" using mv by (auto simp: moves_def)
    then show thesis
    proof cases
      case 1
      then have "co_tag best \<noteq> co_tag cur" "pays (rp_margin rep) best cur"
        using pays_advantage [OF pos] unfolding r choose_move_recommend by (auto simp: compared_report_def)
      moreover have "rp_best ?r = co_tag best" by (simp add: r choose_move_fields compared_report_def)
      ultimately show thesis using cmp a' recommend by blast
    next
      case 2
      then obtain h c where hc: "fst ?h = Some h" "snd ?h = Some c" and adv: "advantage cur c < real_of_int (rp_return_margin rep)"
        using choose_move_return unfolding r by (fastforce simp: compared_report_def)
      then have m: "main_pool (sn_pools s) = Some h" "p_id a \<noteq> p_id h" "usable mk (p_coin h) = Some c"
        using home_pool_some [of "sn_pools s" mk a' h c] a' by (metis prod.collapse)+
      then have "\<not> pays (rp_return_margin rep) cur c"
        using pays_advantage [of c "rp_return_margin rep" cur] usable_coin [OF m(3)] adv by linarith
      then show thesis using cmp a' m return_home by blast
    qed
  qed (use mv in \<open>auto simp: moves_def\<close>)
qed

text \<open>A move of profit switching is not undone by the next check of the same market, while no pool comes up and the return margin
  is at most the margin (which the settings enforce): after a switch away from the main pool, or with no main
  pool, the next check does not move again; after a return to the main pool it never recommends the coin it left.\<close>

theorem profit_does_not_bounce:
  assumes market: "wf_market mk" and snap: "valid_snapshot s"
    and orders: "\<And>l. set (order l) = set l" "\<And>l. set (order2 l) = set l"
    and margins: "rp_return_margin rep \<le> rp_margin rep" "rp_margin rep2 = rp_margin rep" "rp_return_margin rep2 = rp_return_margin rep"
    and down: "\<And>i. st i = Down \<Longrightarrow> st2 i = Down"
    and r: "r = decide s st [] order mk rep" "r2 = decide (s\<lparr>sn_active := rp_target r, sn_fallback := fb\<rparr>) st2 [] order2 mk rep2"
  shows "(rp_decision r = Recommend \<and> (\<forall>h. main_pool (sn_pools s) = Some h \<longrightarrow> p_id h = rp_active r) \<longrightarrow> \<not> moves r2) \<and>
    (rp_decision r = ReturnHome \<and> moves r2 \<longrightarrow> rp_best r2 \<noteq> rp_active_coin r)"
proof (intro conjI impI notI; elim conjE)
  let ?s2 = "s\<lparr>sn_active := rp_target r, sn_fallback := fb\<rparr>"
  have d: "distinct (map p_id (sn_pools s))" using snap by (simp add: valid_snapshot_def)
  {
    assume rec: "rp_decision r = Recommend" and home: "\<forall>h. main_pool (sn_pools s) = Some h \<longrightarrow> p_id h = rp_active r" and mv: "moves r2"
    obtain p cur best where p: "p \<in> set (sn_pools s)" "p_id p = rp_target r" and u: "usable mk (rp_active_coin r) = Some cur"
        and best: "map_of (mk_coins mk) (p_coin p) = Some best" "\<not> co_stale best" "revenue cur < revenue best" "pays (rp_margin rep) best cur"
        and top: "\<forall>c. candidate st (sn_pools s) mk c \<longrightarrow> revenue c \<le> revenue best"
      using decide_worth [OF market orders(1), of s st "[]" rep] rec by (auto simp: worth_it_def r)
    obtain a where a: "snap_get s (sn_active s) = Some a" "rp_active r = p_id a" "rp_active_coin r = p_coin a"
      using decide_active [of s st order mk rep] rec by (auto simp: r moves_def)
    have g: "snap_get ?s2 (sn_active ?s2) = Some p" using snap_get_in [OF d p(1)] p(2) by (simp add: snap_get_def)
    have ub: "usable mk (p_coin p) = Some best" using best usable_coin [OF u] by (simp add: usable_def)
    show False
    proof (rule second_move [OF market orders(2) mv [unfolded r(2)] g])
      fix c b assume cmp: "compares ?s2 st2 [] mk p c b" and ne: "co_tag b \<noteq> co_tag c"
      have "c = best" using cmp ub g by (simp add: compares_def)
      then show False using cmp ne top candidate_mono [of st st2 "sn_pools s" mk b] down by (fastforce simp: compares_def)
    next
      fix c b h hc assume cmp: "compares ?s2 st2 [] mk p c b" and h: "main_pool (sn_pools ?s2) = Some h" "usable mk (p_coin h) = Some hc"
        and np: "\<not> pays (rp_return_margin rep2) c hc"
      have "c = best" using cmp ub g by (simp add: compares_def)
      have "h = a" using pools_by_id [OF d] main_pool_in [of "sn_pools s" h] snap_get_SomeD [OF a(1)] home h(1) a(2) by simp
      then have "hc = cur" using h(2) u a(3) by simp
      then show False using np \<open>c = best\<close> pays_mono [OF best(4), of "rp_return_margin rep"] margins usable_coin [OF u] by simp
    qed
  }
  {
    assume ret: "rp_decision r = ReturnHome" and mv: "moves r2" and left: "rp_best r2 = rp_active_coin r"
    obtain h cur c where h: "main_pool (sn_pools s) = Some h" "p_id h = rp_target r" and u: "usable mk (rp_active_coin r) = Some cur"
        and c: "usable mk (p_coin h) = Some c" and np: "\<not> pays (rp_return_margin rep) cur c"
      using decide_home [OF market orders(1), of s st "[]" rep] ret by (auto simp: back_home_def r)
    have g: "snap_get ?s2 (sn_active ?s2) = Some h" using snap_get_in [OF d, of h] main_pool_in [OF h(1)] h(2) by (simp add: snap_get_def)
    show False
    proof (rule second_move [OF market orders(2) mv [unfolded r(2)] g])
      fix c' b assume cmp: "compares ?s2 st2 [] mk h c' b" and b: "rp_best (decide ?s2 st2 [] order2 mk rep2) = co_tag b"
        and ne: "co_tag b \<noteq> co_tag c'" and pb: "pays (rp_margin rep2) b c'"
      have "c' = c" using cmp c g by (simp add: compares_def)
      have "candidate st2 (sn_pools s) mk b" using cmp ne by (auto simp: compares_def)
      then have "map_of (mk_coins mk) (co_tag b) = Some b" using candidate_pools [OF market] by blast
      then have "b = cur" using b left usable_coin [OF u] by (simp add: r(2))
      then show False using pb np \<open>c' = c\<close> pays_mono [of "rp_margin rep" cur c "rp_return_margin rep"] margins usable_coin [OF c] by simp
    next
      fix c' b h' hc assume "main_pool (sn_pools ?s2) = Some h'" "p_id h \<noteq> p_id h'"
      then show False using h(1) by simp
    qed
  }
qed

subsection \<open>Witnesses\<close>

definition profit_pools :: state_file where
  "profit_pools = empty_file\<lparr>f_pools := [example_pool\<lparr>p_coin := ''BTC'', p_profit_switch := True, p_profit_home := True\<rparr>,
     second_pool\<lparr>p_coin := ''BCH'', p_profit_switch := True\<rparr>], f_active := ''btc''\<rparr>"

lemma profit_pools_wf: "wf_file profit_pools"
proof -
  have "valid_file profit_pools" unfolding check_iff_valid [symmetric]
    by (simp add: profit_pools_def check_def zero_pool_def valid_pool_id_def pool_id_char_def is_digit_def pool_field_errors_def
      rune_count_def addresses_error_def address_reason_def host_error_def max_pool_addresses_def empty_file_def zero_file_def)
  then show ?thesis by (simp add: wf_file_def) (simp add: profit_pools_def empty_file_def zero_file_def has_key_def)
qed

definition profit_manager :: manager where
  "profit_manager = new_manager \<lparr>st_cur = profit_pools, st_disk = None\<rparr> defaults new_registry"

lemma profit_manager_inv: "manager_inv profit_manager"
  unfolding profit_manager_def using profit_pools_wf reachable_inv [OF reachable_registry.init]
  by (intro manager_inv_new) simp_all

lemma profit_manager_snap: "m_snap profit_manager = snapshot_of profit_pools"
proof -
  have "m_snap profit_manager = snapshot_of (clone profit_pools)" by (simp add: profit_manager_def new_manager_def current_def)
  also have "\<dots> = snapshot_of profit_pools" using snapshot_clone [OF profit_pools_wf] .
  finally show ?thesis .
qed

definition example_wtm :: "string \<Rightarrow> real \<Rightarrow> real \<Rightarrow> wtm_coin" where
  "example_wtm tag reward rate =
     \<lparr>wm_tag = tag, wm_algorithm = ''SHA-256'', wm_reward = reward, wm_reward24 = reward, wm_difficulty = 1, wm_difficulty24 = 1,
      wm_rate = rate, wm_rate24 = rate, wm_lagging = False, wm_timestamp = 0\<rparr>"

definition example_coin :: "string \<Rightarrow> string \<Rightarrow> real \<Rightarrow> coin" where
  "example_coin name tag reward =
     \<lparr>co_tag = tag, co_name = name, co_difficulty = 1, co_difficulty_now = 1, co_reward = reward, co_price = 1, co_updated = 0,
      co_stale = False, co_efficiency = 1\<rparr>"

definition example_market :: market where
  "example_market = \<lparr>mk_coins = [(''BTC'', example_coin ''Bitcoin'' ''BTC'' 3), (''BCH'', example_coin ''Bitcoin Cash'' ''BCH'' 4)],
     mk_btc_usd = 50000, mk_fetched = hour\<rparr>"

abbreviation example_answer :: "(string \<times> wtm_coin) list option" where
  "example_answer \<equiv> Some [(''Bitcoin'', example_wtm ''btc'' 3 50000), (''Bitcoin Cash'', example_wtm ''BCH '' 4 1)]"

lemma market_parse_example: "parse_what_to_mine example_answer hour = Inr example_market"
proof -
  have "to_upper (trim_space ''btc'') = ''BTC''" "to_upper (trim_space ''BCH '') = ''BCH''" by code_simp+
  then have tags: "wtm_tag (example_wtm ''btc'' r x) = ''BTC''" "wtm_tag (example_wtm ''BCH '' r x) = ''BCH''" for r x
    by (simp_all add: wtm_tag_def example_wtm_def)
  have c1: "wtm_convert ''Bitcoin'' (example_wtm ''btc'' 3 50000) = (example_coin ''Bitcoin'' ''BTC'' 3)\<lparr>co_price := 50000\<rparr>"
    unfolding wtm_convert_def tags by (simp add: example_wtm_def avg_def example_coin_def efficiency_def of_unix_def)
  have c2: "wtm_convert ''Bitcoin Cash'' (example_wtm ''BCH '' 4 1) = example_coin ''Bitcoin Cash'' ''BCH'' 4"
    unfolding wtm_convert_def tags by (simp add: example_wtm_def avg_def example_coin_def efficiency_def of_unix_def)
  have fields: "wm_algorithm (example_wtm t r x) = ''SHA-256''" "wm_lagging (example_wtm t r x) = False" for t r x
    by (simp_all add: example_wtm_def)
  let ?m0 = "\<lparr>mk_coins = [], mk_btc_usd = 0, mk_fetched = hour\<rparr>"
  let ?m1 = "\<lparr>mk_coins = [(''BTC'', example_coin ''Bitcoin'' ''BTC'' 3)], mk_btc_usd = 50000, mk_fetched = hour\<rparr>"
  have fresh: "is_stale False hour (example_coin n t 3) = False" "is_stale False hour (example_coin n t 4) = False" for n t
    by (simp_all add: is_stale_def example_coin_def time_sub_def market_stale_after_def min_duration_def max_duration_def)
  have same: "(example_coin n t r)\<lparr>co_price := x, co_price := 1\<rparr> = example_coin n t r" "co_tag (example_coin n t r) = t"
    "(example_coin n t r)\<lparr>co_stale := False\<rparr> = example_coin n t r" for n t r x
    by (simp_all add: example_coin_def)
  have "wtm_add hour (''Bitcoin'', example_wtm ''btc'' 3 50000) ?m0 = ?m1"
    unfolding wtm_add_def Let_def case_prod_conv tags c1 fields by (simp add: same fresh keep_coin_def)
  moreover have "wtm_add hour (''Bitcoin Cash'', example_wtm ''BCH '' 4 1) ?m1 = example_market"
    unfolding wtm_add_def Let_def case_prod_conv tags c2 fields by (simp add: same fresh keep_coin_def example_market_def)
  ultimately show ?thesis by (simp add: parse_what_to_mine_def Let_def example_market_def)
qed

lemma example_market_wf: "wf_market example_market"
  using wf_market_parse [OF market_parse_example] .

lemma example_revenue: "revenue (example_coin name tag reward) = 864 * 10 ^ 14 / hashes_per_difficulty * reward"
  by (simp add: revenue_def example_coin_def)

definition profit_values :: settings_values where
  "profit_values = defaults\<lparr>v_profit_switch := profit_auto, v_profit_margin := 5, v_profit_return_margin := 1\<rparr>"

lemma profit_snap:
  "m_snap profit_manager = \<lparr>sn_active = ''btc'', sn_fallback = [],
     sn_pools = [example_pool\<lparr>p_coin := ''BTC'', p_profit_switch := True, p_profit_home := True\<rparr>,
       second_pool\<lparr>p_coin := ''BCH'', p_profit_switch := True\<rparr>]\<rparr>"
  by (simp add: profit_manager_snap snapshot_of_def profit_pools_def empty_file_def zero_file_def)

lemma revenue_btc: "revenue (example_coin ''Bitcoin'' ''BTC'' 3) = 3 * (864 * 10 ^ 14 / hashes_per_difficulty)"
  and revenue_bch: "revenue (example_coin ''Bitcoin Cash'' ''BCH'' 4) = 4 * (864 * 10 ^ 14 / hashes_per_difficulty)"
  by (simp_all add: example_revenue)

lemma example_usable:
  "map_of (mk_coins example_market) ''BTC'' = Some (example_coin ''Bitcoin'' ''BTC'' 3)"
  "map_of (mk_coins example_market) ''BCH'' = Some (example_coin ''Bitcoin Cash'' ''BCH'' 4)"
  "usable example_market ''BTC'' = Some (example_coin ''Bitcoin'' ''BTC'' 3)"
  by (simp_all add: usable_def example_market_def revenue_btc hashes_per_difficulty_def) (simp add: example_coin_def)

lemma example_decide:
  fixes r
  assumes "rp_margin rep = 5"
  defines "r \<equiv> decide (m_snap profit_manager) (\<lambda>_. Unknown) [] (\<lambda>l. l) example_market rep"
  shows "rp_decision r = Recommend \<and> rp_target r = ''alt'' \<and> rp_active r = ''btc''"
proof -
  let ?btc = "example_coin ''Bitcoin'' ''BTC'' 3" and ?bch = "example_coin ''Bitcoin Cash'' ''BCH'' 4"
  have "tags_of (\<lambda>_. Unknown) (sn_pools (m_snap profit_manager)) = [''BTC'', ''BCH'']"
    by (simp add: profit_snap tags_of_def taking_part_def zero_pool_def)
  moreover have "co_stale ?btc = False" "co_stale ?bch = False" by (simp_all add: example_coin_def)
  ultimately have best: "fold (better example_market) (tags_of (\<lambda>_. Unknown) (sn_pools (m_snap profit_manager))) ?btc = ?bch"
    by (simp add: better_def example_usable revenue_btc revenue_bch hashes_per_difficulty_def)
  have adv: "5 \<le> advantage ?bch ?btc" by (simp add: advantage_def revenue_btc revenue_bch hashes_per_difficulty_def)
  have g: "snap_get (m_snap profit_manager) ''btc'' = Some (example_pool\<lparr>p_coin := ''BTC'', p_profit_switch := True, p_profit_home := True\<rparr>)"
    "sn_active (m_snap profit_manager) = ''btc''"
    by (simp_all add: profit_snap snap_get_def find_pool_def)
  have home: "home_pool (sn_pools (m_snap profit_manager)) example_market
      (example_pool\<lparr>p_coin := ''BTC'', p_profit_switch := True, p_profit_home := True\<rparr>) =
      (Some (example_pool\<lparr>p_coin := ''BTC'', p_profit_switch := True, p_profit_home := True\<rparr>), None)"
    by (simp add: home_pool_def main_pool_def profit_snap zero_pool_def)
  have pick: "pick_pool (\<lambda>_. Unknown) (pools_of (\<lambda>_. Unknown) (sn_pools (m_snap profit_manager)) ''BCH'') = ''alt''"
    by (simp add: pick_pool_def pools_of_def taking_part_def profit_snap zero_pool_def)
  have "co_tag ?bch = ''BCH''" "co_tag ?btc = ''BTC''" by (simp_all add: example_coin_def)
  then show ?thesis unfolding r_def decide_def Let_def
    using g best home pick adv assms(1) by (simp add: example_usable choose_move_def)
qed

lemma example_status: "op_status (manager_ops c w sh t) profit_manager = (\<lambda>_. Unknown)"
  by (simp add: manager_ops_def fun_eq_iff pool_status_def pool_health_of_def profit_manager_def new_manager_def health_of_def)


lemma example_switch:
  obtains n m1 where "op_activate (manager_ops [\<lparr>ar_address = \<lparr>host = ''p.io'', port = 3333\<rparr>, ar_rtt = 1000, ar_err = None\<rparr>] True (\<lambda>xs. xs) 0)
    ''alt'' ''profit'' profit_manager profit_manager = (Inr n, m1)"
proof -
  let ?c = "[\<lparr>ar_address = \<lparr>host = ''p.io'', port = 3333\<rparr>, ar_rtt = 1000, ar_err = None\<rparr>]"
  have "snap_get (m_snap profit_manager) ''alt'' \<noteq> None"
    by (simp add: profit_snap snap_get_def find_pool_def zero_pool_def)
  then obtain n evs m1 where "activate ''alt'' False ''profit'' None ?c (\<lambda>m. m) True (\<lambda>xs. xs) 0 profit_manager = (Inr n, evs, m1)"
    using activate_succeeds [OF profit_manager_inv, of "''alt''" False ?c "''profit''" None "\<lambda>xs. xs" 0] by (auto simp: any_ok_def)
  then show ?thesis using that by (simp add: manager_ops_def activate_def Let_def split: sum.splits)
qed


theorem profit_does_not_bounce_witness:
  "let r = decide (m_snap profit_manager) (\<lambda>_. Unknown) [] (\<lambda>l. l) example_market (empty_report profit_values True hour) in
   rp_decision r = Recommend \<and>
   \<not> moves (decide ((m_snap profit_manager)\<lparr>sn_active := rp_target r, sn_fallback := [''btc'']\<rparr>) (\<lambda>_. Unknown) [] (\<lambda>l. l) example_market
     (empty_report profit_values True (2 * hour)))"
proof -
  let ?r = "decide (m_snap profit_manager) (\<lambda>_. Unknown) [] (\<lambda>l. l) example_market (empty_report profit_values True hour)"
  have d: "rp_decision ?r = Recommend" "rp_active ?r = ''btc''"
    using example_decide [of "empty_report profit_values True hour"] by (simp_all add: empty_report_def profit_values_def)
  have v: "valid_snapshot (m_snap profit_manager)" using manager_inv_snapshot [OF profit_manager_inv] .
  have "\<forall>h. main_pool (sn_pools (m_snap profit_manager)) = Some h \<longrightarrow> p_id h = ''btc''"
    by (simp add: profit_snap main_pool_def zero_pool_def)
  then have "\<not> moves (decide ((m_snap profit_manager)\<lparr>sn_active := rp_target ?r, sn_fallback := [''btc'']\<rparr>) (\<lambda>_. Unknown) [] (\<lambda>l. l) example_market
     (empty_report profit_values True (2 * hour)))"
    using profit_does_not_bounce [OF example_market_wf v, of "\<lambda>l. l" "\<lambda>l. l" "empty_report profit_values True hour"
        "empty_report profit_values True (2 * hour)" "\<lambda>_. Unknown" "\<lambda>_. Unknown", OF _ _ _ _ _ _ refl refl] d
    by (simp add: empty_report_def profit_values_def)
  then show ?thesis using d by (simp add: Let_def)
qed

end
