(* ===== verification/Farm.thy ===== *)
theory Farm
  imports Timed Profit
begin

text \<open>
  The wiring of \<open>cmd/proxy/main.go\<close>: the pool manager, timed switching with block hunting, profit switching and
  the watcher of the eCash blocks as one state.

  \<^item> Timed switching asks the watcher how hard a block is and whether blocks are seen, for eCash pools only; a
    block wakes its schedule. Profit switching asks timed switching where the farm returns to.
  \<^item> \<open>farm_step\<close> is what the program does by itself: a step of the schedule, a tick of profit switching, a job
    of the watched pool, a restart of the schedule by hand, and the traffic and the checks of the manager, which
    leave the choice of the pools alone. Settings are arguments, so they may change between steps.
\<close>

record farm =
  fa_manager :: manager
  fa_timed :: timed
  fa_profit :: profit
  fa_watcher :: watcher

definition wired_hardness :: "(real \<Rightarrow> real) \<Rightarrow> time \<Rightarrow> watcher \<Rightarrow> pool \<Rightarrow> real" where
  "wired_hardness gamma now w p = (if p_coin p = rtt_coin then hardness gamma now w else 1)"

definition wired_live :: "watcher \<Rightarrow> pool \<Rightarrow> bool" where
  "wired_live w p \<longleftrightarrow> p_coin p = rtt_coin \<and> live w"

definition wired_env :: "(real \<Rightarrow> real) \<Rightarrow> watcher \<Rightarrow> 'm timed_env \<Rightarrow> 'm timed_env" where
  "wired_env gamma w env =
     env\<lparr>te_hardness := Some (wired_hardness gamma (te_now env) w), te_live := Some (wired_live w)\<rparr>"

text \<open>The watcher's \<open>OnBlock\<close>.\<close>

definition on_block :: "bool \<Rightarrow> timed \<Rightarrow> timed" where
  "on_block block t = (if block then kick t else t)"

text \<open>One tick of profit switching.\<close>

definition profit_tick ::
  "'m pool_ops \<Rightarrow> settings_values \<Rightarrow> timed \<Rightarrow> (string list \<Rightarrow> string list) \<Rightarrow> (market_error + market) \<Rightarrow> time \<Rightarrow> bool
     \<Rightarrow> ('m \<Rightarrow> 'm) \<Rightarrow> profit \<Rightarrow> 'm \<Rightarrow> profit \<times> 'm" where
  "profit_tick ops v t order fetched now saved during p m =
     (if profit_due v (timed_home t) now p
      then (case profit_check ops v True (timed_home t) order fetched now saved during p m of (rep, evs, p', m') \<Rightarrow> (p', m'))
      else (p, m))"

text \<open>What leaves the choice of the pools alone.\<close>

definition same_choice :: "manager \<Rightarrow> manager \<Rightarrow> bool" where
  "same_choice m m' \<longleftrightarrow> manager_step\<^sup>*\<^sup>* m m' \<and> m_snap m' = m_snap m"

inductive farm_step :: "(real \<Rightarrow> real) \<Rightarrow> farm \<Rightarrow> farm \<Rightarrow> bool" for gamma where
  schedule: "timed_step (manager_ops checks w sh clock) (wired_env gamma (fa_watcher f) env) v (fa_timed f) (fa_manager f) = (t, m, evs) \<Longrightarrow>
    same_choice (fa_manager f) (te_during env (fa_manager f)) \<Longrightarrow> farm_step gamma f (f\<lparr>fa_timed := t, fa_manager := m\<rparr>)"
| tick: "profit_tick (manager_ops checks w sh clock) v (fa_timed f) order fetched now saved during (fa_profit f) (fa_manager f) = (p, m) \<Longrightarrow>
    same_choice (fa_manager f) (during (fa_manager f)) \<Longrightarrow> farm_step gamma f (f\<lparr>fa_profit := p, fa_manager := m\<rparr>)"
| job: "watch_job raw now (fa_watcher f) = (block, w) \<Longrightarrow>
    farm_step gamma f (f\<lparr>fa_watcher := w, fa_timed := on_block block (fa_timed f)\<rparr>)"
| restart: "start_now (manager_ops checks w sh clock) env v (fa_timed f) (fa_manager f) = (r, t) \<Longrightarrow>
    farm_step gamma f (f\<lparr>fa_timed := t\<rparr>)"
| traffic: "same_choice (fa_manager f) m \<Longrightarrow> farm_step gamma f (f\<lparr>fa_manager := m\<rparr>)"

inductive_cases farm_stepE: "farm_step gamma f g"

subsection \<open>Profit switching waits\<close>

lemma profit_waits: "timed_home t \<noteq> [] \<Longrightarrow> profit_tick ops v t order fetched now saved during p m = (p, m)"
  by (simp add: profit_tick_def profit_due_def)

subsection \<open>The way back\<close>

text \<open>The farm is away from what \<open>s\<close> shows, and knows the way back.\<close>

definition away_from :: "snapshot \<Rightarrow> farm \<Rightarrow> bool" where
  "away_from s f \<longleftrightarrow> manager_inv (fa_manager f) \<and> valid_snapshot s \<and> sn_active s \<noteq> [] \<and>
     (\<exists>a. ti_cur (fa_timed f) = Some a \<and> aw_home a = sn_active s \<and> aw_fallback a = sn_fallback s \<and>
        aw_set a = order_after (aw_target a) s \<and>
        m_snap (fa_manager f) = s\<lparr>sn_active := aw_target a, sn_fallback := order_after (aw_target a) s\<rparr>)"

lemma away_from_other:
  "away_from s f \<Longrightarrow> same_choice (fa_manager f) m \<Longrightarrow> away_from s (f\<lparr>fa_manager := m\<rparr>)"
  using manager_steps_inv by (auto simp: away_from_def same_choice_def)

lemma away_from_home: "away_from s f \<Longrightarrow> timed_home (fa_timed f) \<noteq> []"
  by (auto simp: away_from_def timed_home_def)

lemma restart_keeps_way:
  assumes "start_now ops env v t m = (r, t')" "ti_cur t = Some a"
  shows "\<exists>b. ti_cur t' = Some b \<and> same_way a b"
proof (cases r)
  case (Inl e)
  then have "t' = t" using assms(1) by (auto simp: start_now_def Let_def split: if_splits option.splits prod.splits)
  then show ?thesis using assms(2) by (auto simp: same_way_def)
next
  case (Inr evs)
  then obtain target u cur t1 where u: "ti_cur u = ti_cur t" and rs: "restart_stint env target u = (cur, t1)" and t': "ti_cur t' = cur"
    using assms(1) that unfolding start_now_def Let_def
    by (fastforce split: if_splits option.splits prod.splits)
  have c: "ti_cur u = Some a" and "cur = fst (restart_stint env target u)" using u assms(2) rs by simp_all
  then have "\<exists>b. cur = Some b \<and> same_way a b" by (simp add: restart_stint_def same_way_def c)
  then show ?thesis using t' by simp
qed

lemma away_from_same_way:
  "away_from s f \<Longrightarrow> ti_cur (fa_timed f) = Some a \<Longrightarrow> ti_cur t = Some b \<Longrightarrow> same_way a b \<Longrightarrow> away_from s (f\<lparr>fa_timed := t\<rparr>)"
  by (auto simp: away_from_def same_way_def)

lemma schedule_from_away:
  assumes st: "timed_step (manager_ops checks w sh clock) env v (fa_timed f) (fa_manager f) = (t, m, evs)" and a: "away_from s f"
  shows "away_from s (f\<lparr>fa_timed := t, fa_manager := m\<rparr>) \<or> ti_cur t = None \<and> m_snap m = s"
proof -
  obtain a where a: "ti_cur (fa_timed f) = Some a" "aw_home a = sn_active s" "aw_fallback a = sn_fallback s"
      "aw_set a = order_after (aw_target a) s" and inv: "manager_inv (fa_manager f)" and s: "valid_snapshot s" "sn_active s \<noteq> []"
      and m: "m_snap (fa_manager f) = s\<lparr>sn_active := aw_target a, sn_fallback := order_after (aw_target a) s\<rparr>"
    using assms(2) by (auto simp: away_from_def)
  have snap: "op_snap (manager_ops checks w sh clock) = m_snap" by (simp add: manager_ops_def)
  have home: "snap_get (m_snap (fa_manager f)) (sn_active s) \<noteq> None"
    using s by (auto simp: m valid_snapshot_def snap_get_def split: if_splits)
  from st a(1) show ?thesis
  proof (cases rule: timed_step_away)
    case (kept b)
    then show ?thesis using away_from_same_way [OF assms(2) a(1)] by simp
  next
    case (go_back t1 t2 evs' final)
    from go_back(1) show ?thesis
    proof (cases rule: go_back_cases)
      case (failed why e)
      then have "m = fa_manager f" using farm.restore_error [OF inv] by blast
      then show ?thesis using go_back(2,3) failed(4) away_from_same_way [OF assms(2) a(1), of t a] by (auto simp: same_way_def)
    next
      case (home why n)
      have "m_snap m = (m_snap (fa_manager f))\<lparr>sn_active := sn_active s,
          sn_fallback := existing_once (sn_pools (m_snap (fa_manager f))) (sn_active s) [] (sn_fallback s)\<rparr>"
        using farm.restore_ok [OF inv home(3)] m a by (simp add: snap)
      then show ?thesis using snapshot_round_trip [OF s(1) m] go_back(3) home(4) by auto
    qed (use m a home snap in auto)
  qed
qed

text \<open>Setting out for the target.\<close>

lemma schedule_from_home:
  assumes st: "timed_step (manager_ops checks w sh clock) env v (fa_timed f) (fa_manager f) = (t, m, evs)"
    and f: "ti_cur (fa_timed f) = None" "ti_cur t \<noteq> None" "manager_inv (fa_manager f)" "same_choice (fa_manager f) (te_during env (fa_manager f))"
  shows "away_from (m_snap (fa_manager f)) (f\<lparr>fa_timed := t, fa_manager := m\<rparr>)"
proof -
  let ?ops = "manager_ops checks w sh clock" and ?s = "m_snap (fa_manager f)"
  have snap: "op_snap ?ops = m_snap" by (simp add: manager_ops_def)
  have during: "manager_inv (te_during env (fa_manager f))" "m_snap (te_during env (fa_manager f)) = ?s"
    using f(3,4) manager_steps_inv by (auto simp: same_choice_def)
  obtain vw u where vw: "step_view ?ops env v (fa_timed f) (fa_manager f) = (vw, u)" by fastforce
  obtain b u' where b: "leave ?ops env b ?s u' (fa_manager f) = (t, m, evs)" "sn_active ?s \<noteq> []"
    using st f(1) vw by (rule timed_step_home) (use f(2) snap in auto)
  from b(1) obtain n why where act: "op_activate ?ops (aw_target b) why (fa_manager f) (te_during env (fa_manager f)) = (Inr n, m)"
    and a: "ti_cur t = Some (b\<lparr>aw_home := sn_active ?s, aw_fallback := sn_fallback ?s, aw_set := sn_fallback (m_snap m)\<rparr>)"
    by (rule leave_cases) (use f(2) snap in auto)
  have "manager_inv m" "m_snap m = ?s\<lparr>sn_active := aw_target b, sn_fallback := order_after (aw_target b) ?s\<rparr>"
    using farm.activate_ok [OF during(1) act] during(2) snap by simp_all
  then show ?thesis using a b(2) manager_inv_snapshot [OF f(3)] by (simp add: away_from_def)
qed

lemma farm_step_away:
  assumes "farm_step gamma f g" "away_from s f"
  shows "away_from s g \<or> ti_cur (fa_timed g) = None \<and> m_snap (fa_manager g) = s"
  using assms(1)
proof cases
  case (schedule checks w sh clock env v t m evs)
  then show ?thesis using schedule_from_away [OF schedule(2) assms(2)] by auto
next
  case (tick checks w sh clock v order fetched now saved during p m)
  have "m = fa_manager f" using tick(2) by (simp add: profit_waits [OF away_from_home [OF assms(2)]])
  then show ?thesis using tick assms(2) by (auto simp: away_from_def)
next
  case (job raw now block w)
  then show ?thesis using assms(2) by (auto simp: away_from_def on_block_def)
next
  case (restart checks w sh clock env v r t)
  obtain a where "ti_cur (fa_timed f) = Some a" using assms(2) by (auto simp: away_from_def)
  then show ?thesis using restart restart_keeps_way [OF restart(2)] away_from_same_way [OF assms(2)] by blast
next
  case (traffic m)
  then show ?thesis using away_from_other [OF assms(2)] by simp
qed

lemma farm_steps_away:
  assumes "(\<lambda>f g. farm_step gamma f g \<and> ti_cur (fa_timed f) \<noteq> None)\<^sup>*\<^sup>* f g" "away_from s f"
  shows "away_from s g \<or> ti_cur (fa_timed g) = None \<and> m_snap (fa_manager g) = s"
  using assms
proof (induction rule: rtranclp_induct)
  case (step g h)
  then have "away_from s g" by auto
  then show ?case using farm_step_away step(2) by blast
qed simp

lemma farm_step_leaves:
  assumes "farm_step gamma f g" "manager_inv (fa_manager f)" "ti_cur (fa_timed f) = None" "ti_cur (fa_timed g) \<noteq> None"
  shows "away_from (m_snap (fa_manager f)) g"
  using assms(1)
proof cases
  case (schedule checks w sh clock env v t m evs)
  have "same_choice (fa_manager f) (te_during (wired_env gamma (fa_watcher f) env) (fa_manager f))"
    using schedule(3) by (simp add: wired_env_def)
  then show ?thesis using schedule_from_home [OF schedule(2) assms(3)] assms(2,4) schedule(1) by simp
next
  case (restart checks w sh clock env v r t)
  then have "ti_cur t = None"
    using assms(3) by (auto simp: start_now_def restart_stint_def Let_def split: if_splits option.splits)
  then show ?thesis using assms(4) restart by simp
qed (use assms(3,4) in \<open>auto simp: on_block_def\<close>)

subsection \<open>Properties\<close>

lemma hunt_pool_in: "hunt_pool ps first = Some p \<Longrightarrow> p \<in> set ps \<or> first = Some p"
  by (induction ps arbitrary: first) (auto split: if_splits)

lemma hard_after_block:
  assumes "927 / 1000 \<le> gamma (7 / 6)" "gamma (7 / 6) \<le> 928 / 1000"
    and "watch_job raw tb w0 = (True, w)" "wt_connected w0" "now \<le> tb + 99 * second" "p_coin q = rtt_coin"
  shows "2 \<le> wired_hardness gamma now w q"
proof -
  obtain ps prev where "params_array raw = Some ps" "string_at ps 1 = Some prev"
    using assms(3) watch_job_none [of raw tb w0] by (cases "params_array raw") auto
  note j = watch_job_some [OF this, of tb w0, unfolded assms(3), simplified]
  have "known now w" using j assms(4) by (simp add: known_def)
  then show ?thesis
    using factor_after_block [of gamma "wt_arrivals w" now, OF assms(1,2)] j assms(5,6)
    by (simp add: wired_hardness_def hardness_def)
qed

text \<open>The schedule and the hunt go by the hardness of the pool the farm is on.\<close>

lemma target_hardness:
  assumes "step_view ops env v t m = (vw, t1)" "distinct (map p_id (sn_pools (op_snap ops m)))"
    and "q \<in> set (sn_pools (op_snap ops m))"
  shows "tv_on vw \<Longrightarrow> p_id q = p_id (tv_target vw) \<Longrightarrow> tv_hard vw = hard_of env q"
    and "hv_on (tv_hunt vw) \<Longrightarrow> p_id q = p_id (hv_target (tv_hunt vw)) \<Longrightarrow> hv_hard (tv_hunt vw) = hard_of env q"
proof -
  let ?s = "op_snap ops m"
  note f = step_view_simps [OF assms(1)]
  have same: "p = q" if "p \<in> set (sn_pools ?s)" "p_id p = p_id q" for p
    using pools_by_id [OF assms(2) that(1) assms(3) that(2)] .
  {
    assume on: "tv_on vw" "p_id q = p_id (tv_target vw)"
    obtain p where p: "timed_target ?s = Some p" "tv_target vw = p"
      using f(4,12) on(1) by (cases "timed_target ?s") simp_all
    then have "p \<in> set (sn_pools ?s)" by (auto simp: timed_target_def find_Some_iff)
    moreover have "p_id p = p_id q" by (simp only: on(2) p(2))
    ultimately have "p = q" by (rule same)
    then show "tv_hard vw = hard_of env q" using p(2) on(1) by (simp only: f(13) if_True)
  next
    assume on: "hv_on (tv_hunt vw)" "p_id q = p_id (hv_target (tv_hunt vw))"
    obtain p where p: "hunt_target ?s = Some p" "hv_target (tv_hunt vw) = p"
      using on(1) unfolding f(5) by (auto simp: hunt_view_def Let_def)
    then have "p \<in> set (sn_pools ?s)" using hunt_pool_in by (auto simp: hunt_target_def)
    moreover have "p_id p = p_id q" by (simp only: on(2) p(2))
    ultimately have "p = q" by (rule same)
    then show "hv_hard (tv_hunt vw) = hard_of env q" using p(1) on(1) unfolding f(5) by (simp add: hunt_view_def Let_def)
  }
qed

lemma hard_step_goes_back:
  assumes step: "timed_step ops env v t m = (t', m', evs)" and vw: "step_view ops env v t m = (vw, t1)" and cur: "ti_cur t = Some a"
    and hard_target: "tv_on vw \<Longrightarrow> aw_target a = p_id (tv_target vw) \<Longrightarrow> 2 \<le> tv_hard vw"
    and hard_hunt: "hv_on (tv_hunt vw) \<Longrightarrow> aw_target a = p_id (hv_target (tv_hunt vw)) \<Longrightarrow> 2 \<le> hv_hard (tv_hunt vw)"
    and worth: "aw_reason a = ByHunt \<or> min_stint \<le> tv_left vw"
  obtains final u evs' where "go_back ops env a (op_snap ops m) final t1 m = (u, m', evs')" "t' = u \<or> t' = kick u" "set evs' \<subseteq> set evs"
proof (cases "aw_reason a")
  note f = step_view_simps [OF vw]
  have cur1: "ti_cur t1 = Some a" using f(2) cur by simp
  {
    case ByTimer
    then have "step_away ops env vw a t1 m = (t', m', evs)" using step cur1 by (simp add: timed_step_def vw)
    then show thesis
      by (cases rule: step_away_cases)
        (use hard_target hard_hunt worth ByTimer that f(1) in \<open>auto simp: pause_above_def hunt_keeps_def\<close>)
  next
    case ByHunt
    then have "step_hunt ops env a (op_snap ops m) (tv_hunt vw) (due_now vw t1 \<and> tv_hard vw \<le> resume_below) (tv_target vw)
        (tv_period vw) (te_now env) t1 m = (t', m', evs)"
      using step cur1 f(1) by (simp add: timed_step_def vw)
    then show thesis
      by (cases rule: step_hunt_cases)
        (use hard_target hard_hunt that in \<open>auto simp: pause_above_def due_now_def resume_below_def\<close>)
  }
qed

text \<open>C25: A block sends the farm home. When the watcher saw a block on the chain of the target at \<open>tb\<close>, the next step of the
  schedule, within 99 seconds, ends a hunt, and a stint of the timer that has at least a minute left: the farm is
  on its pool again, or the return failed and is reported, or the pool was chosen by hand or has no home to return to.\<close>

theorem block_sends_farm_home:
  assumes gamma: "927 / 1000 \<le> gamma (7 / 6)" "gamma (7 / 6) \<le> 928 / 1000" and inv: "manager_inv m"
    and block: "watch_job raw tb w0 = (True, w)" "wt_connected w0" "te_now env \<le> tb + 99 * second"
    and away: "ti_cur t = Some a" "snap_get (m_snap m) (aw_target a) = Some q" "p_coin q = rtt_coin"
    and step: "timed_step (manager_ops checks wr sh clock) (wired_env gamma w env) v t m = (t', m', evs)"
    and worth: "aw_reason a = ByHunt \<or>
      min_stint \<le> tv_left (fst (step_view (manager_ops checks wr sh clock) (wired_env gamma w env) v t m))"
  shows "(\<exists>name e. CannotReturn (aw_reason a) name e \<in> set evs) \<or>
    ti_cur t' = None \<and> (sn_active (m_snap m) = aw_target a \<longrightarrow> snap_get (m_snap m) (aw_home a) \<noteq> None \<longrightarrow>
      sn_active (m_snap m') = aw_home a)"
proof -
  let ?ops = "manager_ops checks wr sh clock" and ?env = "wired_env gamma w env"
  have snap: "op_snap ?ops = m_snap" by (simp add: manager_ops_def)
  have d: "distinct (map p_id (sn_pools (op_snap ?ops m)))"
    using manager_inv_snapshot [OF inv] by (simp add: valid_snapshot_def snap)
  have q: "q \<in> set (sn_pools (op_snap ?ops m))" "p_id q = aw_target a" using snap_get_SomeD [OF away(2)] snap by auto
  have hard: "2 \<le> hard_of ?env q"
    using hard_after_block [of gamma raw tb w0 w "te_now env" q, OF gamma block away(3)] by (simp add: hard_of_def wired_env_def)
  obtain vw t1 where vw: "step_view ?ops ?env v t m = (vw, t1)" by fastforce
  obtain final u evs' where "go_back ?ops ?env a (m_snap m) final t1 m = (u, m', evs')" "t' = u \<or> t' = kick u" "set evs' \<subseteq> set evs"
  proof (rule hard_step_goes_back [OF step vw away(1)])
    show "tv_on vw \<Longrightarrow> aw_target a = p_id (tv_target vw) \<Longrightarrow> 2 \<le> tv_hard vw"
      "hv_on (tv_hunt vw) \<Longrightarrow> aw_target a = p_id (hv_target (tv_hunt vw)) \<Longrightarrow> 2 \<le> hv_hard (tv_hunt vw)"
      using target_hardness [OF vw d q(1)] q(2) hard by simp_all
    show "aw_reason a = ByHunt \<or> min_stint \<le> tv_left vw" using worth by (simp add: vw)
  qed (simp add: snap)
  then show ?thesis
  proof (cases rule: go_back_cases [of ?ops ?env a "m_snap m" final t1 m u m' evs'])
    case (home why n)
    then show ?thesis using farm.restore_ok [OF inv home(3)] \<open>t' = u \<or> t' = kick u\<close> snap by auto
  qed auto
qed


subsection \<open>Witnesses\<close>

definition example_farm :: farm where
  "example_farm = \<lparr>fa_manager = timed_manager, fa_timed = new_timed None, fa_profit = new_profit None, fa_watcher = new_watcher\<rparr>"

lemma example_wired: "example_env t (wired_env gamma new_watcher (timed_env_at t))"
  by (simp add: example_env_def fun_eq_iff hard_of_def wired_env_def wired_hardness_def hardness_def known_def new_watcher_def)

lemma same_choice_refl [simp]: "same_choice m m"
  by (simp add: same_choice_def)


definition hunt_file :: state_file where
  "hunt_file = empty_file\<lparr>f_pools := [example_pool, second_pool\<lparr>p_coin := ''XEC'', p_solo := True\<rparr>], f_active := ''alt''\<rparr>"

lemma hunt_file_wf: "wf_file hunt_file"
proof -
  have "valid_file hunt_file" unfolding check_iff_valid [symmetric]
    by (simp add: hunt_file_def check_def zero_pool_def valid_pool_id_def pool_id_char_def is_digit_def pool_field_errors_def
      rune_count_def addresses_error_def address_reason_def host_error_def max_pool_addresses_def empty_file_def zero_file_def)
  then show ?thesis by (simp add: wf_file_def) (simp add: hunt_file_def empty_file_def zero_file_def has_key_def)
qed

definition hunt_manager :: manager where
  "hunt_manager = new_manager \<lparr>st_cur = hunt_file, st_disk = None\<rparr> defaults new_registry"

lemma hunt_manager_inv: "manager_inv hunt_manager"
  unfolding hunt_manager_def using hunt_file_wf reachable_inv [OF reachable_registry.init]
  by (intro manager_inv_new) simp_all

lemma hunt_snap:
  "m_snap hunt_manager = \<lparr>sn_active = ''alt'', sn_fallback = [], sn_pools = [example_pool, second_pool\<lparr>p_coin := ''XEC'', p_solo := True\<rparr>]\<rparr>"
proof -
  have "m_snap hunt_manager = snapshot_of (clone hunt_file)" by (simp add: hunt_manager_def new_manager_def current_def)
  also have "\<dots> = snapshot_of hunt_file" using snapshot_clone [OF hunt_file_wf] .
  finally show ?thesis by (simp add: snapshot_of_def hunt_file_def empty_file_def zero_file_def)
qed

text \<open>A hunt since the hour; the watcher sees a block a minute later.\<close>

definition hunting :: timed where
  "hunting = (new_timed None)\<lparr>ti_cur := Some \<lparr>aw_reason = ByHunt, aw_period = zero_time, aw_since = hour, aw_target = ''alt'',
     aw_home = ''btc'', aw_fallback = [], aw_set = [''btc'']\<rparr>\<rparr>"

definition before_block :: watcher where
  "before_block = new_watcher\<lparr>wt_connected := True, wt_prevhash := ''aa''\<rparr>"

theorem block_sends_farm_home_witness:
  "\<exists>w t' m' evs. watch_job (job_of ''bb'') (hour + minute) before_block = (True, w) \<and>
     timed_step example_ops (wired_env (\<lambda>x. 9277 / 10000) w (timed_env_at (hour + minute))) defaults hunting hunt_manager = (t', m', evs) \<and>
     ((\<exists>name e. CannotReturn ByHunt name e \<in> set evs) \<or> ti_cur t' = None \<and> sn_active (m_snap m') = ''btc'')"
proof -
  let ?w = "snd (watch_job (job_of ''bb'') (hour + minute) before_block)"
  obtain ps where "params_array (job_of ''bb'') = Some ps" "string_at ps 1 = Some ''bb''"
    using job_hash_of [of "''bb''"] by (auto simp: job_hash_def split: option.splits)
  then have "fst (watch_job (job_of ''bb'') (hour + minute) before_block)"
    using watch_job_some(1) by (simp add: before_block_def new_watcher_def)
  then have j: "watch_job (job_of ''bb'') (hour + minute) before_block = (True, ?w)" by (metis prod.collapse)
  obtain t' m' evs where st: "timed_step example_ops (wired_env (\<lambda>x. 9277 / 10000) ?w (timed_env_at (hour + minute))) defaults hunting hunt_manager =
      (t', m', evs)" by (metis prod.exhaust)
  let ?a = "\<lparr>aw_reason = ByHunt, aw_period = zero_time, aw_since = hour, aw_target = ''alt'', aw_home = ''btc'', aw_fallback = [],
    aw_set = [''btc'']\<rparr>"
  let ?q = "second_pool\<lparr>p_coin := ''XEC'', p_solo := True\<rparr>"
  have q: "ti_cur hunting = Some ?a" "snap_get (m_snap hunt_manager) (aw_target ?a) = Some ?q" "p_coin ?q = rtt_coin"
    and home: "snap_get (m_snap hunt_manager) ''btc'' \<noteq> None" "sn_active (m_snap hunt_manager) = ''alt''"
    by (simp_all add: hunting_def hunt_snap snap_get_def find_pool_def zero_pool_def rtt_coin_def)
  have "(\<exists>name e. CannotReturn ByHunt name e \<in> set evs) \<or> ti_cur t' = None \<and> sn_active (m_snap m') = ''btc''"
    using block_sends_farm_home [of "\<lambda>x. 9277 / 10000", OF _ _ hunt_manager_inv j _ _ q st] home
    by (simp add: before_block_def)
  then show ?thesis using j st by blast
qed

end
