(* ===== verification/Events.thy ===== *)
theory Events
  imports Prelude
begin

text \<open>
  Package \<open>events\<close>: the ring buffer of recent events and the throttling of repeated ones.

  Each operation takes the time it reads from the clock. The lemmas show that the ring buffer
  implements the list of the newest events (\<open>recent\<close>) and that a throttled key is not recorded
  twice within its interval although the key table is bounded and forgets old keys.
\<close>

datatype level = Info | Warn | Error

definition level_rank :: "level \<Rightarrow> nat" where
  "level_rank l = (case l of Info \<Rightarrow> 0 | Warn \<Rightarrow> 1 | Error \<Rightarrow> 2)"

instantiation level :: linorder
begin

definition less_eq_level :: "level \<Rightarrow> level \<Rightarrow> bool" where
  "less_eq_level a b \<longleftrightarrow> level_rank a \<le> level_rank b"

definition less_level :: "level \<Rightarrow> level \<Rightarrow> bool" where
  "less_level a b \<longleftrightarrow> level_rank a < level_rank b"

instance
proof
  fix x y :: level
  show "x \<le> y \<Longrightarrow> y \<le> x \<Longrightarrow> x = y"
    by (cases x; cases y) (simp_all add: less_eq_level_def level_rank_def)
qed (auto simp: less_eq_level_def less_level_def)

end

text \<open>\<open>slog\<close> levels are integers: warn is 4, error 8.\<close>

definition level_name :: "int \<Rightarrow> level" where
  "level_name l = (if 8 \<le> l then Error else if 4 \<le> l then Warn else Info)"

definition levels :: "(string, level) gomap" where
  "levels = [(''info'', Info), (''warn'', Warn), (''error'', Error)]"

definition valid_level :: "string \<Rightarrow> bool" where "valid_level s \<longleftrightarrow> has_key levels s"

record event =
  ev_seq :: int
  ev_time :: time
  ev_level :: level
  ev_type :: string
  ev_message :: string

definition max_throttle_keys :: nat where "max_throttle_keys = 1000"
definition max_throttle_interval :: duration where "max_throttle_interval = 10 * minute"

record log =
  l_buf :: "event list"
  l_next :: nat
  l_full :: bool
  l_seq :: int
  l_throttled :: "(string, time) gomap"
  l_suppressed :: int
  l_last_report :: time

definition no_event :: event where
  "no_event = \<lparr>ev_seq = 0, ev_time = zero_time, ev_level = Info, ev_type = [], ev_message = []\<rparr>"

definition new_log :: "nat \<Rightarrow> log" where
  "new_log n = \<lparr>l_buf = replicate n no_event, l_next = 0, l_full = False, l_seq = 0, l_throttled = [],
     l_suppressed = 0, l_last_report = zero_time\<rparr>"

definition add_event :: "int \<Rightarrow> string \<Rightarrow> string \<Rightarrow> time \<Rightarrow> log \<Rightarrow> log" where
  "add_event lvl typ text now l =
     (let sq = l_seq l + 1;
          e = \<lparr>ev_seq = sq, ev_time = now, ev_level = level_name lvl, ev_type = typ, ev_message = text\<rparr>;
          n = (l_next l + 1) mod length (l_buf l)
      in l\<lparr>l_buf := (l_buf l)[l_next l := e], l_next := n, l_full := l_full l \<or> n = 0, l_seq := sq\<rparr>)"

definition info :: "string \<Rightarrow> string \<Rightarrow> time \<Rightarrow> log \<Rightarrow> log" where "info = add_event 0"
definition warn :: "string \<Rightarrow> string \<Rightarrow> time \<Rightarrow> log \<Rightarrow> log" where "warn = add_event 4"
definition error_ev :: "string \<Rightarrow> string \<Rightarrow> time \<Rightarrow> log \<Rightarrow> log" where "error_ev = add_event 8"

text \<open>The key is there and recent: nothing is recorded. Otherwise a full table is swept first, and
  if it stays full the event is counted as suppressed and reported once a minute.\<close>

definition throttled :: "string \<Rightarrow> duration \<Rightarrow> string \<Rightarrow> string \<Rightarrow> time \<Rightarrow> log \<Rightarrow> bool \<times> log" where
  "throttled key interval typ text now l =
     (case map_of (l_throttled l) key of
        Some prev \<Rightarrow>
          if time_sub now prev < interval then (False, l)
          else (True, warn typ text now (l\<lparr>l_throttled := put key now (l_throttled l)\<rparr>))
      | None \<Rightarrow>
          (let th = (if max_throttle_keys \<le> length (l_throttled l)
                     then filter (\<lambda>(k, t). time_sub now t \<le> max_throttle_interval) (l_throttled l)
                     else l_throttled l)
           in if max_throttle_keys \<le> length th then
                (let l1 = l\<lparr>l_throttled := th, l_suppressed := l_suppressed l + 1\<rparr>
                 in if minute \<le> time_sub now (l_last_report l)
                    then (False, warn ''events_suppressed'' [] now (l1\<lparr>l_suppressed := 0, l_last_report := now\<rparr>))
                    else (False, l1))
              else (True, warn typ text now (l\<lparr>l_throttled := put key now th\<rparr>))))"

definition list_count :: "log \<Rightarrow> nat" where
  "list_count l = (if l_full l then length (l_buf l) else l_next l)"

definition list_at :: "int \<Rightarrow> string \<Rightarrow> log \<Rightarrow> event list" where
  "list_at limit least l =
     (let lo = get_or Info levels least; n = list_count l;
          lim = (if limit \<le> 0 \<or> int n < limit then n else nat limit);
          size = length (l_buf l)
      in take lim (filter (\<lambda>e. lo \<le> ev_level e)
           (map (\<lambda>i. l_buf l ! ((l_next l + size - 1 - i) mod size)) [0..<n])))"

definition list_events :: "int \<Rightarrow> log \<Rightarrow> event list" where
  "list_events limit l = list_at limit ''info'' l"

subsection \<open>The ring buffer\<close>

definition log_inv :: "log \<Rightarrow> bool" where
  "log_inv l \<longleftrightarrow> 0 < length (l_buf l) \<and> l_next l < length (l_buf l)"

text \<open>What the buffer stands for: the recorded events, newest first.\<close>

definition recent :: "log \<Rightarrow> event list" where
  "recent l = map (\<lambda>i. l_buf l ! ((l_next l + length (l_buf l) - 1 - i) mod length (l_buf l))) [0..<list_count l]"

lemma log_inv_new: "0 < n \<Longrightarrow> log_inv (new_log n) \<and> recent (new_log n) = []"
  by (simp add: log_inv_def new_log_def recent_def list_count_def)

lemma log_inv_add [inv_intros]: "log_inv l \<Longrightarrow> log_inv (add_event lvl typ text now l)"
  by (simp add: log_inv_def add_event_def Let_def)

lemma list_count_le: "log_inv l \<Longrightarrow> list_count l \<le> length (l_buf l)"
  by (simp add: log_inv_def list_count_def)

lemma ring_index_new:
  assumes "n < (s::nat)"
  shows "((n + 1) mod s + s - 1) mod s = n"
proof (cases "n + 1 = s")
  case True
  then show ?thesis by simp
next
  case False
  then have "n + 1 < s" using assms by simp
  then show ?thesis by simp
qed

lemma ring_index_old:
  assumes "n < (s::nat)" "Suc j < s"
  shows "((n + 1) mod s + s - 1 - Suc j) mod s = (n + s - 1 - j) mod s \<and> (n + s - 1 - j) mod s \<noteq> n"
proof
  show "((n + 1) mod s + s - 1 - Suc j) mod s = (n + s - 1 - j) mod s"
  proof (cases "n + 1 = s")
    case True
    then have "n + s - 1 - j = s - 2 - j + s" using assms(2) by linarith
    moreover have "(n + 1) mod s + s - 1 - Suc j = s - 2 - j" unfolding True by simp
    ultimately show ?thesis by (simp only: mod_add_self2)
  next
    case False
    then have "(n + 1) mod s = n + 1" using assms(1) by (intro mod_less) linarith
    then have "(n + 1) mod s + s - 1 - Suc j = n + s - 1 - j" by linarith
    then show ?thesis by (simp only:)
  qed
  show "(n + s - 1 - j) mod s \<noteq> n"
  proof (cases "j < n")
    case True
    then have "n + s - 1 - j = n - 1 - j + s" using assms by linarith
    moreover have "(n - 1 - j) mod s = n - 1 - j" using assms(1) by (intro mod_less) linarith
    ultimately have "(n + s - 1 - j) mod s = n - 1 - j" by (simp only: mod_add_self2)
    then show ?thesis using True by linarith
  next
    case False
    then have "(n + s - 1 - j) mod s = n + s - 1 - j" using assms by (intro mod_less) linarith
    then show ?thesis using assms by linarith
  qed
qed

lemma recent_add:
  assumes "log_inv l"
  shows "\<exists>e. ev_type e = typ \<and> ev_level e = level_name lvl \<and> ev_time e = now \<and> ev_seq e = l_seq l + 1 \<and>
    recent (add_event lvl typ text now l) = take (length (l_buf l)) (e # recent l)"
proof -
  define e where "e = \<lparr>ev_seq = l_seq l + 1, ev_time = now, ev_level = level_name lvl, ev_type = typ, ev_message = text\<rparr>"
  define s where "s = length (l_buf l)"
  define l' where "l' = add_event lvl typ text now l"
  have l': "l_buf l' = (l_buf l)[l_next l := e]" "l_next l' = (l_next l + 1) mod s"
      "l_full l' \<longleftrightarrow> l_full l \<or> (l_next l + 1) mod s = 0"
    by (simp_all add: l'_def add_event_def Let_def e_def s_def)
  have n: "l_next l < s" "0 < s" using assms by (auto simp: log_inv_def s_def)
  have count: "list_count l' = min s (Suc (list_count l))"
  proof (cases "Suc (l_next l) = s")
    case True
    then show ?thesis using n l' by (auto simp: list_count_def s_def [symmetric])
  next
    case False
    then have "Suc (l_next l) < s" using n by simp
    then show ?thesis using n l' by (auto simp: list_count_def s_def [symmetric])
  qed
  have "recent l' = take s (e # recent l)"
  proof (rule nth_equalityI)
    show len: "length (recent l') = length (take s (e # recent l))"
      using count by (simp add: recent_def min.commute)
    fix i assume "i < length (recent l')"
    then have i: "i < s" "i < Suc (list_count l)" using count by (simp_all add: recent_def)
    show "recent l' ! i = take s (e # recent l) ! i"
    proof (cases i)
      case 0
      then show ?thesis using i n l' ring_index_new [OF n(1)] count
        by (simp add: recent_def s_def [symmetric] nth_append)
    next
      case (Suc j)
      then have "recent l' ! i = l_buf l' ! ((l_next l' + s - 1 - Suc j) mod s)"
        using i count l'(1) by (simp add: recent_def s_def [symmetric])
      also have "\<dots> = l_buf l ! ((l_next l + s - 1 - j) mod s)"
        using ring_index_old [OF n(1), of j] Suc i l' by simp
      also have "\<dots> = take s (e # recent l) ! i"
        using Suc i by (simp add: recent_def s_def [symmetric])
      finally show ?thesis .
    qed
  qed
  then show ?thesis unfolding s_def l'_def by (intro exI [of _ e]) (simp add: e_def)
qed

lemma list_at_recent:
  "list_at limit least l =
    (let es = filter (\<lambda>e. get_or Info levels least \<le> ev_level e) (recent l)
     in if limit \<le> 0 then es else take (nat limit) es)"
proof -
  define es where "es = filter (\<lambda>e. get_or Info levels least \<le> ev_level e) (recent l)"
  have "length es \<le> list_count l"
    unfolding es_def by (rule order_trans [OF length_filter_le]) (simp add: recent_def)
  moreover have "list_at limit least l =
      take (if limit \<le> 0 \<or> int (list_count l) < limit then list_count l else nat limit) es"
    by (simp only: list_at_def Let_def recent_def es_def)
  ultimately show ?thesis by (simp add: Let_def es_def [symmetric])
qed

subsection \<open>Throttling\<close>

text \<open>What the key table knows about the last record of a key: the time, or nothing if the entry was
  swept, and then the longest interval has passed.\<close>

definition remembers :: "string \<Rightarrow> time \<Rightarrow> time \<Rightarrow> log \<Rightarrow> bool" where
  "remembers key t now l \<longleftrightarrow>
     map_of (l_throttled l) key = Some t \<or>
     map_of (l_throttled l) key = None \<and> max_throttle_interval < time_sub now t"

lemma add_event_throttled [simp]:
  "l_throttled (add_event lvl typ text now l) = l_throttled l"
  by (simp add: add_event_def Let_def)

lemmas throttled_defs = throttled_def info_def warn_def error_ev_def Let_def

lemma throttled_table:
  "wf_map (l_throttled l) \<Longrightarrow> length (l_throttled l) \<le> max_throttle_keys \<Longrightarrow>
     wf_map (l_throttled (snd (throttled key interval typ text now l))) \<and>
     length (l_throttled (snd (throttled key interval typ text now l))) \<le> max_throttle_keys"
  using length_filter_le [of "\<lambda>(k, t). time_sub now t \<le> max_throttle_interval" "l_throttled l"]
  by (auto simp: throttled_defs length_put has_key_def simp del: length_filter_le split: option.splits)

lemma throttled_records:
  "throttled key interval typ text now l = (True, l') \<Longrightarrow> wf_map (l_throttled l) \<Longrightarrow> remembers key now later l'"
  by (auto simp: throttled_defs remembers_def split: option.splits if_splits)

text \<open>A record of the remembered key waits for its interval; another call forgets the key only
  after the longest interval.\<close>

lemma throttled_waits:
  assumes "remembers key t now l" "interval \<le> max_throttle_interval"
    and "throttled key interval typ text now l = (True, l')"
  shows "interval \<le> time_sub now t"
  using assms by (auto simp: throttled_defs remembers_def split: option.splits if_splits)

lemma throttled_keeps:
  assumes "remembers key t now l" "wf_map (l_throttled l)"
    and "throttled k interval typ text now l = (b, l')" "k \<noteq> key \<or> \<not> b"
  shows "remembers key t now l'"
  using assms
  by (auto simp: throttled_defs remembers_def map_of_filter_key split: option.splits if_splits)

lemma remembers_later: "remembers key t now l \<Longrightarrow> now \<le> now' \<Longrightarrow> remembers key t now' l"
  using time_sub_mono [of now now' t] by (auto simp: remembers_def)

text \<open>The times at which a sequence of calls (key, interval, time) records a key.\<close>

fun record_times :: "string \<Rightarrow> (string \<times> duration \<times> time) list \<Rightarrow> log \<Rightarrow> time list" where
  "record_times key [] l = []"
| "record_times key ((k, i, t) # cs) l =
     (case throttled k i [] [] t l of (b, l') \<Rightarrow> (if b \<and> k = key then [t] else []) @ record_times key cs l')"

lemma record_times_apart:
  assumes "remembers key t0 now l" "wf_map (l_throttled l)" "length (l_throttled l) \<le> max_throttle_keys"
    and "sorted (map (\<lambda>c. snd (snd c)) cs)" "\<forall>c \<in> set cs. now \<le> snd (snd c)"
    and "\<forall>c \<in> set cs. fst c = key \<longrightarrow> fst (snd c) = i" "i \<le> max_throttle_interval"
  shows "successively (\<lambda>a b. i \<le> time_sub b a) (t0 # record_times key cs l)"
  using assms
proof (induction cs arbitrary: l t0 now)
  case (Cons c cs)
  obtain k j t where c: "c = (k, j, t)" by (cases c) auto
  obtain b l' where l': "throttled k j [] [] t l = (b, l')" by fastforce
  have table: "wf_map (l_throttled l')" "length (l_throttled l') \<le> max_throttle_keys"
    using throttled_table [OF Cons.prems(2,3), of k j "[]" "[]" t] l' by simp_all
  have r: "remembers key t0 t l" using remembers_later [OF Cons.prems(1)] Cons.prems(5) c by simp
  have later: "sorted (map (\<lambda>c. snd (snd c)) cs)" "\<forall>c \<in> set cs. t \<le> snd (snd c)" "\<forall>c \<in> set cs. fst c = key \<longrightarrow> fst (snd c) = i"
    using Cons.prems c by auto
  show ?case
  proof (cases "b \<and> k = key")
    case True
    then have "j = i" using Cons.prems(6) c by simp
    then have "i \<le> time_sub t t0" using throttled_waits [OF r, of i "[]" "[]" l'] True l' Cons.prems(7) by simp
    moreover have "remembers key t t l'" using throttled_records [of k j "[]" "[]" t l l'] True l' Cons.prems(2) by simp
    ultimately show ?thesis using Cons.IH [OF _ table later Cons.prems(7)] True c l' by (simp add: successively_Cons)
  next
    case False
    then have "remembers key t0 t l'" using throttled_keeps [OF r Cons.prems(2) l'] by blast
    then show ?thesis using Cons.IH [OF _ table later Cons.prems(7)] False c l' by auto
  qed
qed simp

subsection \<open>Properties\<close>

text \<open>C34: the ring buffer is the list of the newest events: adding puts the event in front and drops
  the oldest one when the buffer is full, and listing filters that list by level and cuts it to
  the limit.\<close>

theorem ring_buffer_refines:
  assumes "log_inv l"
  shows "log_inv (add_event lvl typ text now l) \<and>
    (\<exists>e. ev_type e = typ \<and> ev_level e = level_name lvl \<and> ev_time e = now \<and> ev_seq e = l_seq l + 1 \<and>
      recent (add_event lvl typ text now l) = take (length (l_buf l)) (e # recent l)) \<and>
    list_at limit least l =
      (let es = filter (\<lambda>e. get_or Info levels least \<le> ev_level e) (recent l)
       in if limit \<le> 0 then es else take (nat limit) es)"
  using log_inv_add [OF assms] recent_add [OF assms] list_at_recent by (intro conjI) blast+

theorem ring_buffer_refines_witness:
  "log_inv (add_event 4 ''a'' [] 7 (new_log 2)) \<and>
   (\<exists>e. ev_type e = ''a'' \<and> recent (add_event 4 ''a'' [] 7 (new_log 2)) = take 2 (e # recent (new_log 2)))"
  using ring_buffer_refines [of "new_log 2" 4 "''a''" "[]" 7]
  by (auto simp: log_inv_new) (auto simp: new_log_def)

text \<open>Whatever other events are recorded and whatever the table forgets, two records of one key
  are at least the key's interval apart, if that is at most the longest interval callers use; the
  table never grows over its limit.\<close>

theorem throttled_events_apart:
  assumes "wf_map (l_throttled l)" "length (l_throttled l) \<le> max_throttle_keys"
    and "sorted (map (\<lambda>c. snd (snd c)) cs)"
    and "\<forall>c \<in> set cs. fst c = key \<longrightarrow> fst (snd c) = i" "i \<le> max_throttle_interval"
  shows "successively (\<lambda>a b. i \<le> time_sub b a) (record_times key cs l)"
  using assms
proof (induction cs arbitrary: l)
  case (Cons c cs)
  obtain k j t where c: "c = (k, j, t)" by (cases c) auto
  obtain b l' where l': "throttled k j [] [] t l = (b, l')" by fastforce
  have table: "wf_map (l_throttled l')" "length (l_throttled l') \<le> max_throttle_keys"
    using throttled_table [OF Cons.prems(1,2), of k j "[]" "[]" t] l' by simp_all
  show ?case
  proof (cases "b \<and> k = key")
    case True
    then have "remembers key t t l'" using throttled_records [of k j "[]" "[]" t l l'] l' Cons.prems(1) by simp
    then have "successively (\<lambda>a b. i \<le> time_sub b a) (t # record_times key cs l')"
      using record_times_apart [OF _ table, of key t t cs i] Cons.prems c by simp
    then show ?thesis using True c l' by simp
  next
    case False
    then show ?thesis using Cons c l' table by auto
  qed
qed simp

theorem throttled_events_apart_witness:
  "successively (\<lambda>a b. 5 \<le> time_sub b a) (record_times ''k'' [(''k'', 5, 0), (''k'', 5, 3), (''k'', 5, 6)] (new_log 4)) \<and>
   record_times ''k'' [(''k'', 5, 0), (''k'', 5, 3), (''k'', 5, 6)] (new_log 4) = [0, 6]"
  using throttled_events_apart [of "new_log 4" "[(''k'', 5, 0), (''k'', 5, 3), (''k'', 5, 6)]" "''k''" 5]
  by (simp add: new_log_def max_throttle_interval_def max_throttle_keys_def throttled_defs add_event_def
    time_sub_def min_duration_def max_duration_def)

end
