(* ===== verification/Guard.thy ===== *)
theory Guard
  imports Ordering
begin

text \<open>
  Package \<open>admin\<close>, \<open>guard.go\<close> and \<open>auth.go\<close>: the protection of the login against guessing, and the
  sessions of the administration interface.

  \<^item> \<open>guard\<close> is the state of a \<open>guard\<close> with the content of its file; \<open>guard_attempt\<close> is \<open>attempt\<close>, whose
    callback is the argument \<open>right\<close>: what the verification says if it is asked. Whether the write of
    the file succeeds is an argument too, and a restart reads the file again.
  \<^item> \<open>auth\<close> is the state of an \<open>auth\<close>; the hash of \<open>equal\<close>, the random session id and the parsed
    parts of a request are arguments.

  The lemmas show how many passwords an attacker gets checked, from one address and from all, restarts
  included; that a locked caller learns nothing; and that a session stems from a successful login.
\<close>

definition ip_fail_limit :: nat where "ip_fail_limit = 5"
definition ip_fail_window :: duration where "ip_fail_window = 15 * minute"
definition ip_lock_base :: duration where "ip_lock_base = 15 * minute"
definition ip_lock_max :: duration where "ip_lock_max = 24 * hour"
definition lock_forget :: duration where "lock_forget = 24 * hour"
definition global_fail_limit :: nat where "global_fail_limit = 100"
definition global_fail_window :: duration where "global_fail_window = hour"
definition max_guard_ips :: nat where "max_guard_ips = 5000"

lemmas guard_consts = ip_fail_limit_def ip_fail_window_def ip_lock_base_def ip_lock_max_def lock_forget_def
  global_fail_limit_def global_fail_window_def max_guard_ips_def

record ip_record =
  ir_fails :: "time list"
  ir_locks :: nat
  ir_locked_until :: time
  ir_last_fail :: time

type_synonym guard_file = "(string, ip_record) gomap \<times> time list"

record guard =
  gd_ips :: "(string, ip_record) gomap"
  gd_global :: "time list"
  gd_file :: "guard_file option"

record attempt_result =
  ar_ok :: bool
  ar_blocked :: bool
  ar_global :: bool
  ar_retry_at :: time
  ar_ip_lock :: duration
  ar_global_lock :: bool

definition no_result :: attempt_result where
  "no_result = \<lparr>ar_ok = False, ar_blocked = False, ar_global = False, ar_retry_at = zero_time, ar_ip_lock = 0,
     ar_global_lock = False\<rparr>"

text \<open>A missing, unreadable or corrupt file is \<open>None\<close>.\<close>

definition new_guard :: "guard_file option \<Rightarrow> guard" where
  "new_guard f =
     (case f of None \<Rightarrow> \<lparr>gd_ips = [], gd_global = [], gd_file = f\<rparr>
      | Some (ips, global) \<Rightarrow> \<lparr>gd_ips = ips, gd_global = global, gd_file = f\<rparr>)"

definition recent_times :: "time list \<Rightarrow> time \<Rightarrow> duration \<Rightarrow> time list" where
  "recent_times ts now window = filter (\<lambda>t. time_sub now t < window) ts"

definition trim_record :: "time \<Rightarrow> ip_record \<Rightarrow> ip_record" where
  "trim_record now r = r\<lparr>ir_fails := recent_times (ir_fails r) now ip_fail_window\<rparr>"

definition keep_record :: "time \<Rightarrow> ip_record \<Rightarrow> bool" where
  "keep_record now r \<longleftrightarrow> ir_fails r \<noteq> [] \<or> now < ir_locked_until r \<or> time_sub now (ir_last_fail r) \<le> lock_forget"

definition drop_oldest :: "nat \<Rightarrow> (string, ip_record) gomap \<Rightarrow> (string, ip_record) gomap" where
  "drop_oldest n ips =
     (let out = map fst (take n (sort_by (\<lambda>x y. ir_last_fail (snd x) < ir_last_fail (snd y)) ips))
      in filter (\<lambda>(ip, r). ip \<notin> set out) ips)"

definition prune_ips :: "time \<Rightarrow> (string, ip_record) gomap \<Rightarrow> (string, ip_record) gomap" where
  "prune_ips now ips =
     (let ips = filter (\<lambda>(ip, r). keep_record now r) (map (\<lambda>(ip, r). (ip, trim_record now r)) ips)
      in if length ips \<le> max_guard_ips then ips else drop_oldest (length ips - max_guard_ips) ips)"

definition save_guard :: "bool \<Rightarrow> guard \<Rightarrow> guard" where
  "save_guard write_ok g = (if write_ok then g\<lparr>gd_file := Some (gd_ips g, gd_global g)\<rparr> else g)"

text \<open>The lock of an address that fails again after \<open>locks\<close> locks.\<close>

definition lock_time :: "nat \<Rightarrow> duration" where
  "lock_time locks = (let d = ip_lock_base * 2 ^ min locks 10 in if ip_lock_max < d then ip_lock_max else d)"

definition new_record :: ip_record where
  "new_record = \<lparr>ir_fails = [], ir_locks = 0, ir_locked_until = zero_time, ir_last_fail = zero_time\<rparr>"

definition fail_record :: "time \<Rightarrow> ip_record \<Rightarrow> duration \<times> ip_record" where
  "fail_record now r =
     (let r = (if lock_forget < time_sub now (ir_last_fail r) then r\<lparr>ir_locks := 0\<rparr> else r);
          r = r\<lparr>ir_last_fail := now, ir_fails := recent_times (ir_fails r) now ip_fail_window @ [now]\<rparr>
      in if ip_fail_limit \<le> length (ir_fails r)
         then (lock_time (ir_locks r),
               r\<lparr>ir_locks := ir_locks r + 1, ir_locked_until := now + lock_time (ir_locks r), ir_fails := []\<rparr>)
         else (0, r))"

text \<open>The answer to a caller who is locked out.\<close>

definition guard_block :: "string \<Rightarrow> time \<Rightarrow> guard \<Rightarrow> attempt_result option" where
  "guard_block ip now g =
     (case map_of (gd_ips g) ip of
        Some r \<Rightarrow>
          if now < ir_locked_until r then Some (no_result\<lparr>ar_blocked := True, ar_retry_at := ir_locked_until r\<rparr>)
          else if global_fail_limit \<le> length (gd_global g)
          then Some (no_result\<lparr>ar_blocked := True, ar_global := True,
                 ar_retry_at := gd_global g ! (length (gd_global g) - global_fail_limit) + global_fail_window\<rparr>)
          else None
      | None \<Rightarrow>
          if global_fail_limit \<le> length (gd_global g)
          then Some (no_result\<lparr>ar_blocked := True, ar_global := True,
                 ar_retry_at := gd_global g ! (length (gd_global g) - global_fail_limit) + global_fail_window\<rparr>)
          else None)"

definition guard_fail :: "string \<Rightarrow> time \<Rightarrow> guard \<Rightarrow> attempt_result \<times> guard" where
  "guard_fail ip now g =
     (let (d, r) = fail_record now (get_or new_record (gd_ips g) ip);
          global = gd_global g @ [now]
      in (no_result\<lparr>ar_ip_lock := d, ar_global_lock := length global = global_fail_limit\<rparr>,
          g\<lparr>gd_ips := prune_ips now (put ip r (gd_ips g)), gd_global := global\<rparr>))"

definition guard_attempt :: "string \<Rightarrow> time \<Rightarrow> bool \<Rightarrow> bool \<Rightarrow> guard \<Rightarrow> attempt_result \<times> guard" where
  "guard_attempt ip now right write_ok g =
     (let g = g\<lparr>gd_global := recent_times (gd_global g) now global_fail_window\<rparr> in
      case guard_block ip now g of
        Some res \<Rightarrow> (res, g)
      | None \<Rightarrow>
          if right then
            (no_result\<lparr>ar_ok := True\<rparr>,
             if has_key (gd_ips g) ip then save_guard write_ok (g\<lparr>gd_ips := del ip (gd_ips g)\<rparr>) else g)
          else (case guard_fail ip now g of (res, g') \<Rightarrow> (res, save_guard write_ok g')))"

subsection \<open>Logins and sessions\<close>

definition session_lifetime :: duration where "session_lifetime = 12 * hour"

record auth =
  au_username :: string
  au_password :: string
  au_token :: string
  au_guard :: guard
  au_sessions :: "(string, time) gomap"

text \<open>What is read of a request: the address of the client, the authorization header and the session
  cookie, if there is one.\<close>

record auth_request =
  rq_ip :: string
  rq_authorization :: string
  rq_cookie :: "string option"

definition new_auth :: "string \<Rightarrow> string \<Rightarrow> string \<Rightarrow> guard \<Rightarrow> auth" where
  "new_auth u p token g = \<lparr>au_username = u, au_password = p, au_token = token, au_guard = g, au_sessions = []\<rparr>"

definition equal_secret :: "(string \<Rightarrow> 'd) \<Rightarrow> string \<Rightarrow> string \<Rightarrow> bool" where
  "equal_secret sha a b \<longleftrightarrow> sha a = sha b"

definition uses_token :: "auth_request \<Rightarrow> auth \<Rightarrow> bool" where
  "uses_token r a \<longleftrightarrow> au_token a \<noteq> [] \<and> has_prefix (rq_authorization r) ''Bearer ''"

definition authenticate ::
  "(string \<Rightarrow> 'd) \<Rightarrow> auth_request \<Rightarrow> time \<Rightarrow> bool \<Rightarrow> auth \<Rightarrow> (bool \<times> attempt_result) \<times> auth" where
  "authenticate sha r now write_ok a =
     (if uses_token r a then
        (case guard_attempt (rq_ip r) now
                (equal_secret sha (trim_space (trim_prefix (rq_authorization r) ''Bearer '')) (au_token a)) write_ok (au_guard a) of
           (res, g) \<Rightarrow> ((ar_ok res, res), a\<lparr>au_guard := g\<rparr>))
      else
        (case rq_cookie r of None \<Rightarrow> ((False, no_result), a)
         | Some c \<Rightarrow>
             if c = [] then ((False, no_result), a)
             else (case map_of (au_sessions a) c of None \<Rightarrow> ((False, no_result), a)
                   | Some expiry \<Rightarrow>
                       if expiry < now then ((False, no_result), a\<lparr>au_sessions := del c (au_sessions a)\<rparr>)
                       else ((True, no_result\<lparr>ar_ok := True\<rparr>), a))))"

definition attempt_login ::
  "(string \<Rightarrow> 'd) \<Rightarrow> string \<Rightarrow> string \<Rightarrow> string \<Rightarrow> string option \<Rightarrow> time \<Rightarrow> bool \<Rightarrow> auth \<Rightarrow> (string \<times> attempt_result) \<times> auth" where
  "attempt_login sha ip username password random now write_ok a =
     (case guard_attempt ip now
             (equal_secret sha username (au_username a) \<and> equal_secret sha password (au_password a)) write_ok (au_guard a) of
        (res, g) \<Rightarrow>
          let a = a\<lparr>au_guard := g\<rparr> in
          if \<not> ar_ok res then (([], res), a)
          else (case random of None \<Rightarrow> (([], no_result), a)
                | Some i \<Rightarrow> ((i, res), a\<lparr>au_sessions :=
                    put i (now + session_lifetime) (filter (\<lambda>(k, expiry). \<not> expiry < now) (au_sessions a))\<rparr>)))"

definition logout :: "string option \<Rightarrow> auth \<Rightarrow> auth" where
  "logout cookie a = (case cookie of None \<Rightarrow> a | Some c \<Rightarrow> a\<lparr>au_sessions := del c (au_sessions a)\<rparr>)"

definition secure_request :: "bool \<Rightarrow> string \<Rightarrow> bool" where
  "secure_request tls forwarded_proto \<longleftrightarrow> tls \<or> equal_fold forwarded_proto ''https''"

subsection \<open>Runs of the guard\<close>

text \<open>An attempt from an address at a time, with what the verification would say and whether the write
  of the file works; or a restart.\<close>

datatype guard_op = Try string time bool bool | Restart

fun guard_run :: "guard_op list \<Rightarrow> guard \<Rightarrow> (string \<times> time \<times> attempt_result) list \<times> guard" where
  "guard_run [] g = ([], g)"
| "guard_run (Restart # ops) g = guard_run ops (new_guard (gd_file g))"
| "guard_run (Try ip now right write_ok # ops) g =
     (case guard_attempt ip now right write_ok g of
        (res, g1) \<Rightarrow> (case guard_run ops g1 of (rs, g2) \<Rightarrow> ((ip, now, res) # rs, g2)))"

fun op_times :: "guard_op list \<Rightarrow> time list" where
  "op_times [] = []"
| "op_times (Restart # ops) = op_times ops"
| "op_times (Try ip now right write_ok # ops) = now # op_times ops"

definition wrong_guess :: "attempt_result \<Rightarrow> bool" where
  "wrong_guess res \<longleftrightarrow> \<not> ar_ok res \<and> \<not> ar_blocked res"

text \<open>The failures of a run, with a condition on the address, within a time before \<open>t\<close>.\<close>

definition guesses :: "(string \<Rightarrow> bool) \<Rightarrow> duration \<Rightarrow> time \<Rightarrow> (string \<times> time \<times> attempt_result) list \<Rightarrow> nat" where
  "guesses P w t rs = length (filter (\<lambda>(ip, x, res). P ip \<and> wrong_guess res \<and> t - w < x \<and> x \<le> t) rs)"

subsection \<open>How often failures can follow each other\<close>

definition spaced :: "nat \<Rightarrow> duration \<Rightarrow> time list \<Rightarrow> bool" where
  "spaced n w ts \<longleftrightarrow> (\<forall>t. length (filter (\<lambda>x. t - w < x \<and> x \<le> t) ts) \<le> n)"

lemma spaced_Nil [simp]: "spaced n w []"
  by (simp add: spaced_def)

lemma filter_length_mono: "(\<And>x. x \<in> set xs \<Longrightarrow> P x \<Longrightarrow> Q x) \<Longrightarrow> length (filter P xs) \<le> length (filter Q xs)"
  by (induction xs) auto

lemma spaced_Cons:
  assumes "spaced n w ts" "\<forall>x \<in> set ts. x \<le> now" "length (filter (\<lambda>x. now - x < w) ts) < n"
  shows "spaced n w (now # ts)"
  unfolding spaced_def
proof
  fix t
  show "length (filter (\<lambda>x. t - w < x \<and> x \<le> t) (now # ts)) \<le> n"
  proof (cases "t - w < now \<and> now \<le> t")
    case True
    then have "length (filter (\<lambda>x. t - w < x \<and> x \<le> t) ts) \<le> length (filter (\<lambda>x. now - x < w) ts)"
      by (intro filter_length_mono) auto
    then show ?thesis using True assms(3) by simp
  next
    case False
    then show ?thesis using assms(1) by (auto simp: spaced_def)
  qed
qed

lemma spaced_multiple:
  "spaced n w ts \<Longrightarrow> 0 \<le> w \<Longrightarrow> length (filter (\<lambda>x. t - int k * w < x \<and> x \<le> t) ts) \<le> k * n"
proof (induction k)
  case (Suc k)
  have "length (filter (\<lambda>x. t - int (Suc k) * w < x \<and> x \<le> t) ts) \<le>
      length (filter (\<lambda>x. t - int k * w < x \<and> x \<le> t) ts) +
      length (filter (\<lambda>x. (t - int k * w) - w < x \<and> x \<le> t - int k * w) ts)"
    by (induction ts) (auto simp: algebra_simps)
  moreover have "length (filter (\<lambda>x. (t - int k * w) - w < x \<and> x \<le> t - int k * w) ts) \<le> n"
    using Suc.prems(1) unfolding spaced_def by blast
  ultimately show ?case using Suc by simp
qed (auto simp: filter_False)

lemma recent_times_eq:
  "min_duration < w \<Longrightarrow> w \<le> max_duration \<Longrightarrow> recent_times ts now w = filter (\<lambda>t. now - t < w) ts"
  by (simp add: recent_times_def time_sub_less_iff)

lemma recent_ip [simp]: "recent_times ts now ip_fail_window = filter (\<lambda>t. now - t < ip_fail_window) ts"
  by (rule recent_times_eq) (simp_all add: guard_consts min_duration_def max_duration_def)

lemma recent_global [simp]:
  "recent_times ts now global_fail_window = filter (\<lambda>t. now - t < global_fail_window) ts"
  by (rule recent_times_eq) (simp_all add: guard_consts min_duration_def max_duration_def)

subsection \<open>The invariant of the guard\<close>

text \<open>\<open>h\<close> is the history of the failures, newest first; \<open>now\<close> is the time of the last attempt.\<close>

definition ip_times :: "(string \<times> time) list \<Rightarrow> string \<Rightarrow> time list" where
  "ip_times h ip = map snd (filter (\<lambda>(i, x). i = ip) h)"

definition record_ok :: "(string \<times> time) list \<Rightarrow> time \<Rightarrow> string \<Rightarrow> ip_record \<Rightarrow> bool" where
  "record_ok h now ip r \<longleftrightarrow>
     ir_last_fail r \<le> now \<and> (ip, ir_last_fail r) \<in> set h \<and> ir_locked_until r \<le> ir_last_fail r + lock_forget \<and>
     (\<forall>x \<in> set (ir_fails r). x \<le> ir_last_fail r) \<and> length (ir_fails r) < ip_fail_limit"

text \<open>Unless the address is locked, its record has all of its failures that still count.\<close>

definition tracks :: "(string \<times> time) list \<Rightarrow> time \<Rightarrow> string \<Rightarrow> ip_record option \<Rightarrow> bool" where
  "tracks h now ip ro \<longleftrightarrow>
     (\<forall>t \<ge> now. t < (case ro of None \<Rightarrow> t | Some r \<Rightarrow> ir_locked_until r) \<or>
        length (filter (\<lambda>x. t - x < ip_fail_window) (case ro of None \<Rightarrow> [] | Some r \<Rightarrow> ir_fails r)) =
        length (filter (\<lambda>x. t - x < ip_fail_window) (ip_times h ip)))"

definition guard_inv ::
  "string set \<Rightarrow> (string \<times> time) list \<Rightarrow> time \<Rightarrow> (string, ip_record) gomap \<Rightarrow> time list \<Rightarrow> bool" where
  "guard_inv S h now ips global \<longleftrightarrow>
     wf_map ips \<and> (\<forall>(i, x) \<in> set h. x \<le> now) \<and> spaced global_fail_limit global_fail_window (map snd h) \<and>
     (\<forall>t \<ge> now. length (filter (\<lambda>x. t - x < global_fail_window) global) =
        length (filter (\<lambda>x. t - x < global_fail_window) (map snd h))) \<and>
     (\<forall>(i, r) \<in> set ips. record_ok h now i r) \<and>
     (\<forall>ip \<in> S. spaced ip_fail_limit ip_fail_window (ip_times h ip) \<and> tracks h now ip (map_of ips ip))"

lemma lock_time_bounds: "ip_fail_window \<le> lock_time k" "lock_time k \<le> lock_forget"
proof -
  have "(1::int) \<le> 2 ^ min k 10" by simp
  then show "ip_fail_window \<le> lock_time k" "lock_time k \<le> lock_forget"
    by (auto simp: lock_time_def guard_consts Let_def)
qed

lemma record_ok_later: "record_ok h now ip r \<Longrightarrow> now \<le> t \<Longrightarrow> record_ok h t ip r"
  by (auto simp: record_ok_def)

lemma tracks_later: "tracks h now ip ro \<Longrightarrow> now \<le> t \<Longrightarrow> tracks h t ip ro"
  by (auto simp: tracks_def)

lemma guard_inv_later: "guard_inv S h now ips global \<Longrightarrow> now \<le> t \<Longrightarrow> guard_inv S h t ips global"
  by (fastforce simp: guard_inv_def intro: record_ok_later tracks_later)

lemma guard_inv_start: "guard_inv S [] now [] []"
  by (simp add: guard_inv_def tracks_def ip_times_def)

text \<open>A value dropped by a filter of an earlier time is dropped by that of a later one.\<close>

lemma filter_window_twice:
  "now \<le> t \<Longrightarrow> filter (\<lambda>x. t - x < w) (filter (\<lambda>x. now - x < w) xs) = filter (\<lambda>x. t - x < (w::int)) xs"
  by (simp add: conj_commute) (rule filter_cong, auto)

lemma guard_inv_trim:
  "guard_inv S h now ips global \<Longrightarrow> guard_inv S h now ips (filter (\<lambda>x. now - x < global_fail_window) global)"
  unfolding guard_inv_def
  by (elim conjE, intro conjI; (assumption | (intro allI impI, simp only: filter_window_twice)))

lemma tracks_count:
  assumes "tracks h now ip ro" "now \<le> t" "\<And>r. ro = Some r \<Longrightarrow> \<not> t < ir_locked_until r"
  shows "length (filter (\<lambda>x. t - x < ip_fail_window) (case ro of None \<Rightarrow> [] | Some r \<Rightarrow> ir_fails r)) =
    length (filter (\<lambda>x. t - x < ip_fail_window) (ip_times h ip))"
proof -
  have "\<not> t < (case ro of None \<Rightarrow> t | Some r \<Rightarrow> ir_locked_until r)" using assms(3) by (cases ro) auto
  then show ?thesis using assms(1,2) unfolding tracks_def by blast
qed

lemma trim_simps [simp]:
  "ir_fails (trim_record now r) = filter (\<lambda>x. now - x < ip_fail_window) (ir_fails r)"
  "ir_locks (trim_record now r) = ir_locks r" "ir_locked_until (trim_record now r) = ir_locked_until r"
  "ir_last_fail (trim_record now r) = ir_last_fail r"
  by (simp_all add: trim_record_def)

lemma record_ok_trim: "record_ok h now ip r \<Longrightarrow> record_ok h now ip (trim_record now r)"
  using length_filter_le [of "\<lambda>x. now - x < ip_fail_window" "ir_fails r"]
  by (auto simp: record_ok_def simp del: length_filter_le)

lemma tracks_trim: "tracks h now ip (Some r) \<Longrightarrow> tracks h now ip (Some (trim_record now r))"
  by (simp add: tracks_def filter_window_twice del: filter_filter)

lemma tracks_forget:
  assumes "tracks h now ip (Some r)" "\<not> keep_record now (trim_record now r)"
  shows "tracks h now ip None"
  unfolding tracks_def
proof (intro allI impI)
  fix t assume t: "now \<le> t"
  have e: "filter (\<lambda>x. now - x < ip_fail_window) (ir_fails r) = []" "\<not> now < ir_locked_until r"
    using assms(2) by (auto simp: keep_record_def)
  have "filter (\<lambda>x. t - x < ip_fail_window) (ir_fails r) = []"
    using filter_window_twice [OF t, of ip_fail_window "ir_fails r"] e(1) by simp
  then have "length (filter (\<lambda>x. t - x < ip_fail_window) (ip_times h ip)) = 0"
    using tracks_count [OF assms(1) t] e(2) t by simp
  then show "t < (case None of None \<Rightarrow> t | Some r \<Rightarrow> ir_locked_until r) \<or>
    length (filter (\<lambda>x. t - x < ip_fail_window) (case None of None \<Rightarrow> [] | Some r \<Rightarrow> ir_fails r)) =
    length (filter (\<lambda>x. t - x < ip_fail_window) (ip_times h ip))" by simp
qed

lemma kept_recently:
  assumes "record_ok h now ip r" "keep_record now (trim_record now r)"
  shows "now - ir_last_fail r \<le> lock_forget"
proof -
  have m: "min_duration \<le> lock_forget" "lock_forget < max_duration"
    by (simp_all add: guard_consts min_duration_def max_duration_def)
  have w: "ip_fail_window \<le> lock_forget" by (simp add: guard_consts)
  consider x where "x \<in> set (ir_fails r)" "now - x < ip_fail_window" | "now < ir_locked_until r"
    | "time_sub now (ir_last_fail r) \<le> lock_forget"
    using assms(2) by (auto simp: keep_record_def filter_empty_conv)
  then show ?thesis
  proof cases
    case 1
    then have "x \<le> ir_last_fail r" using assms(1) by (auto simp: record_ok_def)
    then show ?thesis using 1 w by linarith
  next
    case 2
    then show ?thesis using assms(1) by (auto simp: record_ok_def)
  next
    case 3
    then show ?thesis using time_sub_le_iff [OF m] by simp
  qed
qed

text \<open>The failures of a day are few enough that the size limit of the table is never reached.\<close>

lemma few_records:
  assumes "wf_map ips" "spaced global_fail_limit global_fail_window (map snd h)"
    "\<And>ip r. (ip, r) \<in> set ips \<Longrightarrow> (ip, ir_last_fail r) \<in> set h \<and> ir_last_fail r \<le> now \<and> now - ir_last_fail r \<le> lock_forget"
  shows "length ips \<le> max_guard_ips"
proof -
  let ?P = "\<lambda>x. now - int 25 * global_fail_window < x \<and> x \<le> now"
  let ?day = "filter (\<lambda>p. ?P (snd p)) h"
  have "fst ` set ips \<subseteq> fst ` set ?day"
  proof
    fix ip assume "ip \<in> fst ` set ips"
    then obtain r where r: "(ip, r) \<in> set ips" by auto
    have "now - 25 * global_fail_window < ir_last_fail r"
      using assms(3) [OF r] by (simp add: guard_consts)
    then have "(ip, ir_last_fail r) \<in> set ?day" using assms(3) [OF r] by simp
    then show "ip \<in> fst ` set ?day" by force
  qed
  then have "card (fst ` set ips) \<le> card (fst ` set ?day)" by (simp add: card_mono)
  also have "\<dots> \<le> length ?day" using card_length [of "map fst ?day"] by simp
  also have "length ?day = length (filter ?P (map snd h))" by (simp add: filter_map comp_def)
  also have "\<dots> \<le> 25 * global_fail_limit"
    by (rule spaced_multiple [OF assms(2)]) (simp add: guard_consts)
  finally have "card (set (map fst ips)) \<le> max_guard_ips" by (simp add: guard_consts)
  then show ?thesis using distinct_card [OF assms(1)] by simp
qed

lemma map_of_map_snd: "map_of (map (\<lambda>(k, v). (k, f v)) m) k = map_option f (map_of m k)"
  by (induction m) auto

lemma wf_map_map_snd: "wf_map m \<Longrightarrow> wf_map (map (\<lambda>(k, v). (k, f v)) m)"
  by (simp add: comp_def case_prod_beta)

lemma guard_inv_prune:
  assumes i: "guard_inv S h now ips global"
  shows "guard_inv S h now (prune_ips now ips) global"
proof -
  let ?m = "map (\<lambda>(ip, r). (ip, trim_record now r)) ips"
  let ?k = "filter (\<lambda>(ip, r). keep_record now r) ?m"
  have wf: "wf_map ips" and sp: "spaced global_fail_limit global_fail_window (map snd h)"
    and ok: "\<And>ip r. (ip, r) \<in> set ips \<Longrightarrow> record_ok h now ip r"
    using i unfolding guard_inv_def by blast+
  have wm: "wf_map ?m" by (rule wf_map_map_snd [OF wf])
  then have wk: "wf_map ?k" by simp
  have kept: "\<exists>s. (ip, s) \<in> set ips \<and> r = trim_record now s \<and> keep_record now (trim_record now s)"
    if "(ip, r) \<in> set ?k" for ip r using that by auto
  have "length ?k \<le> max_guard_ips"
  proof (rule few_records [OF wk sp])
    fix ip r assume "(ip, r) \<in> set ?k"
    from kept [OF this] obtain s where s: "(ip, s) \<in> set ips" "r = trim_record now s" "keep_record now (trim_record now s)"
      by blast
    show "(ip, ir_last_fail r) \<in> set h \<and> ir_last_fail r \<le> now \<and> now - ir_last_fail r \<le> lock_forget"
      using ok [OF s(1)] kept_recently [OF ok [OF s(1)] s(3)] s(2) by (simp add: record_ok_def)
  qed
  then have p: "prune_ips now ips = ?k" by (simp add: prune_ips_def Let_def)
  have "record_ok h now ip r" if "(ip, r) \<in> set ?k" for ip r
    using kept [OF that] ok record_ok_trim by blast
  moreover have "tracks h now ip (map_of ?k ip)" if "ip \<in> S" for ip
  proof -
    have t: "tracks h now ip (map_of ips ip)" using i that by (simp add: guard_inv_def)
    have "map_of ?k ip = (case map_of ips ip of None \<Rightarrow> None
        | Some r \<Rightarrow> if keep_record now (trim_record now r) then Some (trim_record now r) else None)"
      unfolding map_of_filter_key [OF wm] map_of_map_snd by (cases "map_of ips ip") auto
    then show ?thesis using t tracks_trim tracks_forget by (cases "map_of ips ip") auto
  qed
  ultimately show ?thesis using i wk unfolding p guard_inv_def by simp
qed

lemma ip_times_Cons: "ip_times ((i, x) # h) ip = (if i = ip then x # ip_times h ip else ip_times h ip)"
  by (simp add: ip_times_def)

lemma set_ip_times: "x \<in> set (ip_times h ip) \<Longrightarrow> (ip, x) \<in> set h"
  by (auto simp: ip_times_def)

text \<open>A failure of an address that is not locked: its new record is in order and complete.\<close>

lemma fail_record_cases:
  assumes "fail_record now r = (d, r')"
  shows "ir_last_fail r' = now"
    "ir_fails r' = filter (\<lambda>x. now - x < ip_fail_window) (ir_fails r) @ [now] \<and> ir_locked_until r' = ir_locked_until r \<and>
       length (ir_fails r') < ip_fail_limit \<and> d = 0 \<or>
     ir_fails r' = [] \<and> ir_locked_until r' = now + d \<and> ip_fail_window \<le> d \<and> d \<le> lock_forget"
  using assms lock_time_bounds by (auto simp: fail_record_def Let_def split: if_splits)

lemma record_ok_fail:
  assumes "fail_record now r = (d, r')" "\<not> now < ir_locked_until r" "\<forall>x \<in> set (ir_fails r). x \<le> now"
  shows "record_ok ((ip, now) # h) now ip r'"
proof -
  have "0 \<le> lock_forget" "0 < ip_fail_limit" by (simp_all add: guard_consts)
  then show ?thesis using fail_record_cases [OF assms(1)] assms(2,3) by (auto simp: record_ok_def)
qed

lemma tracks_fail:
  assumes t: "tracks h t0 ip ro" and le: "t0 \<le> now" and "\<forall>x \<in> set (ip_times h ip). x \<le> now"
    and r: "r = (case ro of None \<Rightarrow> new_record | Some r \<Rightarrow> r)" and free: "\<not> now < ir_locked_until r"
    and f: "fail_record now r = (d, r')"
  shows "tracks ((ip, now) # h) now ip (Some r')"
  unfolding tracks_def option.case
proof (intro allI impI)
  fix u assume u: "now \<le> u"
  let ?R = "\<lambda>ts. filter (\<lambda>x. u - x < ip_fail_window) ts"
  have pos: "0 < ip_fail_window" by (simp add: guard_consts)
  have old: "length (?R (ir_fails r)) = length (?R (ip_times h ip))"
    using tracks_count [OF t, of u] le u free r by (cases ro) (auto simp: new_record_def)
  have e: "ip_times ((ip, now) # h) ip = now # ip_times h ip" by (simp add: ip_times_Cons)
  from fail_record_cases(2) [OF f]
  show "u < ir_locked_until r' \<or> length (?R (ir_fails r')) = length (?R (ip_times ((ip, now) # h) ip))"
  proof (elim disjE conjE)
    assume "ir_fails r' = filter (\<lambda>x. now - x < ip_fail_window) (ir_fails r) @ [now]"
    then show ?thesis using old unfolding e by (simp only: filter_append filter_window_twice [OF u]) simp
  next
    assume n: "ir_fails r' = []" "ir_locked_until r' = now + d" "ip_fail_window \<le> d"
    show ?thesis
    proof (cases "u < now + d")
      case False
      then have "?R (now # ip_times h ip) = []" using n(3) assms(3) by (fastforce simp: filter_empty_conv)
      then show ?thesis using n(1) unfolding e by simp
    qed (use n in simp)
  qed
qed

lemma guard_inv_fail:
  assumes i: "guard_inv S h t0 ips global" and le: "t0 \<le> now" "zero_time \<le> now"
    and r: "r = get_or new_record ips ip" and free: "\<not> now < ir_locked_until r"
    and few: "length (filter (\<lambda>x. now - x < global_fail_window) global) < global_fail_limit"
    and f: "fail_record now r = (d, r')"
  shows "guard_inv S ((ip, now) # h) now (put ip r' ips) (global @ [now])"
proof -
  have wf: "wf_map ips" and past: "\<forall>(i, x) \<in> set h. x \<le> now"
    and sp: "spaced global_fail_limit global_fail_window (map snd h)"
    and gl: "\<forall>t \<ge> t0. length (filter (\<lambda>x. t - x < global_fail_window) global) =
        length (filter (\<lambda>x. t - x < global_fail_window) (map snd h))"
    and ok: "\<And>i r. (i, r) \<in> set ips \<Longrightarrow> record_ok h t0 i r"
    and S: "\<And>i. i \<in> S \<Longrightarrow> spaced ip_fail_limit ip_fail_window (ip_times h i) \<and> tracks h t0 i (map_of ips i)"
    using i le unfolding guard_inv_def by fastforce+
  have rd: "r = (case map_of ips ip of None \<Rightarrow> new_record | Some r \<Rightarrow> r)" by (simp add: r get_or_def)
  have r5: "length (ir_fails r) < ip_fail_limit \<and> (\<forall>x \<in> set (ir_fails r). x \<le> now)"
  proof (cases "map_of ips ip")
    case (Some s)
    then show ?thesis using ok [OF map_of_SomeD [OF Some]] rd le by (force simp: record_ok_def)
  qed (simp add: rd new_record_def guard_consts)
  have "spaced global_fail_limit global_fail_window (map snd ((ip, now) # h))"
    using spaced_Cons [OF sp, of now] past few gl le by fastforce
  moreover have "record_ok ((ip, now) # h) now i s" if "(i, s) \<in> set (put ip r' ips)" for i s
  proof (cases "i = ip")
    case True
    then have "s = r'" using that wf by (metis map_of_put fun_upd_same map_of_is_SomeI option.inject wf_map_put)
    then show ?thesis using record_ok_fail [OF f free] r5 True by blast
  next
    case False
    then have "(i, s) \<in> set ips" using that set_put_subset [of ip r' ips] by auto
    then show ?thesis using record_ok_later [OF ok le(1)] by (auto simp: record_ok_def)
  qed
  moreover have "spaced ip_fail_limit ip_fail_window (ip_times ((ip, now) # h) i) \<and>
      tracks ((ip, now) # h) now i (map_of (put ip r' ips) i)" if "i \<in> S" for i
  proof (cases "i = ip")
    case True
    have t: "tracks h t0 ip (map_of ips ip)" and s: "spaced ip_fail_limit ip_fail_window (ip_times h ip)"
      using S that True by auto
    have past': "\<forall>x \<in> set (ip_times h ip). x \<le> now" using past set_ip_times by fastforce
    have "length (filter (\<lambda>x. now - x < ip_fail_window) (ip_times h ip)) =
        length (filter (\<lambda>x. now - x < ip_fail_window) (ir_fails r))"
      using tracks_count [OF t le(1)] free rd by (cases "map_of ips ip") (auto simp: new_record_def)
    also have "\<dots> < ip_fail_limit" using r5 by (meson le_less_trans length_filter_le)
    finally show ?thesis
      using True spaced_Cons [OF s past'] tracks_fail [OF t le(1) past' rd free f] by (simp add: ip_times_Cons)
  next
    case False
    then show ?thesis using S [OF that] le by (simp add: ip_times_Cons tracks_def)
  qed
  ultimately show ?thesis using wf past gl le unfolding guard_inv_def by (auto simp: guard_consts)
qed

text \<open>What the file holds is in order too, for a restart.\<close>

definition file_inv :: "string set \<Rightarrow> (string \<times> time) list \<Rightarrow> time \<Rightarrow> guard_file option \<Rightarrow> bool" where
  "file_inv S h now f \<longleftrightarrow> guard_inv S h now (gd_ips (new_guard f)) (gd_global (new_guard f))"

lemma new_guard_simps [simp]:
  "gd_ips (new_guard (Some (ips, global))) = ips" "gd_global (new_guard (Some (ips, global))) = global"
  "gd_file (new_guard f) = f" "gd_ips (new_guard None) = []" "gd_global (new_guard None) = []"
  by (simp_all add: new_guard_def split: option.split)

lemma save_guard_simps [simp]:
  "gd_ips (save_guard w g) = gd_ips g" "gd_global (save_guard w g) = gd_global g"
  "gd_file (save_guard w g) = (if w then Some (gd_ips g, gd_global g) else gd_file g)"
  by (simp_all add: save_guard_def)

text \<open>The three ways an attempt ends.\<close>

lemma guard_attempt_cases:
  assumes "guard_attempt ip now right w g = (res, g')"
  obtains
    (blocked) "guard_block ip now (g\<lparr>gd_global := recent_times (gd_global g) now global_fail_window\<rparr>) = Some res"
      "g' = g\<lparr>gd_global := recent_times (gd_global g) now global_fail_window\<rparr>" "ar_blocked res" "\<not> ar_ok res"
  | (opened) "right" "res = no_result\<lparr>ar_ok := True\<rparr>"
      "guard_block ip now (g\<lparr>gd_global := recent_times (gd_global g) now global_fail_window\<rparr>) = None"
      "gd_ips g' = del ip (gd_ips g)" "gd_global g' = recent_times (gd_global g) now global_fail_window"
      "gd_file g' = (if has_key (gd_ips g) ip \<and> w then Some (gd_ips g', gd_global g') else gd_file g)"
  | (wrong) d r' where "\<not> right" "fail_record now (get_or new_record (gd_ips g) ip) = (d, r')"
      "guard_block ip now (g\<lparr>gd_global := recent_times (gd_global g) now global_fail_window\<rparr>) = None"
      "res = no_result\<lparr>ar_ip_lock := d,
         ar_global_lock := length (recent_times (gd_global g) now global_fail_window) + 1 = global_fail_limit\<rparr>"
      "gd_ips g' = prune_ips now (put ip r' (gd_ips g))"
      "gd_global g' = recent_times (gd_global g) now global_fail_window @ [now]"
      "gd_file g' = (if w then Some (gd_ips g', gd_global g') else gd_file g)"
proof -
  let ?g = "g\<lparr>gd_global := recent_times (gd_global g) now global_fail_window\<rparr>"
  have gone: "\<not> has_key (gd_ips g) ip \<Longrightarrow> del ip (gd_ips g) = gd_ips g"
    by (simp add: has_key_iff delete_idem)
  show ?thesis
  proof (cases "guard_block ip now ?g")
    case (Some r)
    then have "r = res" "g' = ?g" "ar_blocked r" "\<not> ar_ok r"
      using assms by (auto simp: guard_attempt_def Let_def guard_block_def no_result_def split: option.splits if_splits)
    then show ?thesis using blocked Some by simp
  next
    case None
    show ?thesis
    proof (cases right)
      case True
      show ?thesis
        by (rule opened) (use assms True None gone in \<open>auto simp: guard_attempt_def Let_def split: if_splits\<close>)
    next
      case False
      obtain d r' where f: "fail_record now (get_or new_record (gd_ips g) ip) = (d, r')" by fastforce
      show ?thesis
        by (rule wrong [OF False f None])
          (use assms False None f in \<open>auto simp: guard_attempt_def guard_fail_def Let_def\<close>)
    qed
  qed
qed

lemma guard_open:
  assumes "guard_block ip now g = None" "zero_time \<le> now"
  shows "\<not> now < ir_locked_until (get_or new_record (gd_ips g) ip)" "length (gd_global g) < global_fail_limit"
  using assms by (auto simp: guard_block_def get_or_def new_record_def not_le split: option.splits if_splits)

lemma guard_inv_attempt:
  assumes a: "guard_attempt ip now right w g = (res, g')"
    and i: "guard_inv S h t0 (gd_ips g) (gd_global g)" and le: "t0 \<le> now" "zero_time \<le> now"
    and S: "ar_ok res \<Longrightarrow> ip \<notin> S"
  shows "guard_inv S (if wrong_guess res then (ip, now) # h else h) now (gd_ips g') (gd_global g')"
proof -
  have j: "guard_inv S h now (gd_ips g) (gd_global g)" by (rule guard_inv_later [OF i le(1)])
  from a show ?thesis
  proof (cases rule: guard_attempt_cases)
    case blocked
    then show ?thesis using guard_inv_trim [OF j] by (simp add: wrong_guess_def)
  next
    case opened
    have "guard_inv S h now (del ip (gd_ips g)) (gd_global g)"
      using j S opened(2) unfolding guard_inv_def by (auto simp: set_del)
    then show ?thesis using guard_inv_trim opened by (simp add: wrong_guess_def)
  next
    case (wrong d r')
    note o = guard_open [OF wrong(3) le(2)]
    have "guard_inv S ((ip, now) # h) now (put ip r' (gd_ips g))
        (filter (\<lambda>x. now - x < global_fail_window) (gd_global g) @ [now])"
      by (rule guard_inv_fail [OF guard_inv_trim [OF j] order_refl le(2) refl _ _ wrong(2)])
        (use o in simp_all)
    then have "guard_inv S ((ip, now) # h) now (gd_ips g') (gd_global g')"
      using guard_inv_prune wrong(5,6) by simp
    then show ?thesis using wrong(4) by (simp add: wrong_guess_def no_result_def)
  qed
qed

lemma file_inv_attempt:
  assumes a: "guard_attempt ip now right True g = (res, g')"
    and i: "guard_inv S h t0 (gd_ips g) (gd_global g)" and f: "file_inv S h t0 (gd_file g)"
    and le: "t0 \<le> now" "zero_time \<le> now" and S: "ar_ok res \<Longrightarrow> ip \<notin> S"
  shows "file_inv S (if wrong_guess res then (ip, now) # h else h) now (gd_file g')"
proof -
  note n = guard_inv_attempt [OF a i le S]
  have k: "guard_inv S h now (gd_ips (new_guard (gd_file g))) (gd_global (new_guard (gd_file g)))"
    using f guard_inv_later [OF _ le(1)] by (simp add: file_inv_def)
  from a show ?thesis
    by (cases rule: guard_attempt_cases) (use n k in \<open>auto simp: file_inv_def wrong_guess_def no_result_def\<close>)
qed

definition history :: "(string \<times> time \<times> attempt_result) list \<Rightarrow> (string \<times> time) list" where
  "history rs = rev (map (\<lambda>(ip, x, res). (ip, x)) (filter (\<lambda>(ip, x, res). wrong_guess res) rs))"

lemma history_Cons:
  "history ((ip, x, res) # rs) = history rs @ (if wrong_guess res then [(ip, x)] else [])"
  by (simp add: history_def)

fun op_saves :: "guard_op \<Rightarrow> bool" where
  "op_saves Restart = True"
| "op_saves (Try ip now right w) = w"

lemma guard_run_inv:
  assumes "guard_run ops g = (rs, g')" "sorted (op_times ops)" "\<forall>t \<in> set (op_times ops). t0 \<le> t \<and> zero_time \<le> t"
    "guard_inv S h t0 (gd_ips g) (gd_global g)" "\<forall>(ip, x, res) \<in> set rs. ar_ok res \<longrightarrow> ip \<notin> S"
    "file_inv S h t0 (gd_file g) \<and> (\<forall>op \<in> set ops. op_saves op) \<or> Restart \<notin> set ops"
  shows "\<exists>t ips global. guard_inv S (history rs @ h) t ips global"
  using assms
proof (induction ops g arbitrary: rs h t0 rule: guard_run.induct)
  case (1 g)
  then show ?case by (auto simp: history_def)
next
  case (2 ops g)
  then have "file_inv S h t0 (gd_file g)" by simp
  then show ?case
    using "2.IH" [of rs t0 h] "2.prems" by (simp add: file_inv_def)
next
  case (3 ip now right w ops g)
  obtain res g1 where a: "guard_attempt ip now right w g = (res, g1)" by fastforce
  obtain rs' g2 where r: "guard_run ops g1 = (rs', g2)" by fastforce
  have rs: "rs = (ip, now, res) # rs'" and g': "g' = g2" using "3.prems"(1) a r by simp_all
  let ?h = "if wrong_guess res then (ip, now) # h else h"
  have le: "t0 \<le> now" "zero_time \<le> now" using "3.prems"(3) by simp_all
  have S: "ar_ok res \<Longrightarrow> ip \<notin> S" using "3.prems"(5) rs by simp
  have "file_inv S ?h now (gd_file g1) \<and> (\<forall>op \<in> set ops. op_saves op) \<or> Restart \<notin> set ops"
  proof (cases "Restart \<in> set ops")
    case True
    then have "w" "file_inv S h t0 (gd_file g)" "\<forall>op \<in> set ops. op_saves op" using "3.prems"(6) by auto
    then show ?thesis
      using file_inv_attempt [of ip now right g res g1 S h t0, OF _ "3.prems"(4) _ le S] a by simp
  qed simp
  then have "\<exists>t ips global. guard_inv S (history rs' @ ?h) t ips global"
    using "3.IH" [OF a [symmetric] r [folded g'] _ _ guard_inv_attempt [OF a "3.prems"(4) le S]] "3.prems"(2,3,5) le rs by fastforce
  then show ?case by (simp add: rs history_Cons split: if_splits)
qed

lemma guesses_history:
  "guesses P w t rs = length (filter (\<lambda>x. t - w < x \<and> x \<le> t) (map snd (filter (\<lambda>(i, x). P i) (history rs))))"
  by (induction rs) (auto simp: guesses_def history_Cons history_def)

subsection \<open>Runs of the sessions\<close>

datatype auth_op =
    Login string string string "string option" time bool
  | Request auth_request time bool
  | Logout "string option"

fun auth_step :: "(string \<Rightarrow> 'd) \<Rightarrow> auth_op \<Rightarrow> auth \<Rightarrow> auth" where
  "auth_step sha (Login ip u p random now w) a = snd (attempt_login sha ip u p random now w a)"
| "auth_step sha (Request r now w) a = snd (authenticate sha r now w a)"
| "auth_step sha (Logout c) a = logout c a"

fun auth_run :: "(string \<Rightarrow> 'd) \<Rightarrow> auth_op list \<Rightarrow> auth \<Rightarrow> auth" where
  "auth_run sha [] a = a"
| "auth_run sha (op # ops) a = auth_run sha ops (auth_step sha op a)"

lemma auth_run_append: "auth_run sha (xs @ ys) a = auth_run sha ys (auth_run sha xs a)"
  by (induction xs arbitrary: a) auto

text \<open>Where a session comes from: a successful login after which it was not logged out.\<close>

definition session_origin :: "(string \<Rightarrow> 'd) \<Rightarrow> auth \<Rightarrow> auth_op list \<Rightarrow> string \<Rightarrow> time \<Rightarrow> bool" where
  "session_origin sha a ops c expiry \<longleftrightarrow>
     (\<exists>pre ip u p t w res post. ops = pre @ Login ip u p (Some c) t w # post \<and> expiry = t + session_lifetime \<and>
        Logout (Some c) \<notin> set post \<and> sha u = sha (au_username a) \<and> sha p = sha (au_password a) \<and>
        fst (attempt_login sha ip u p (Some c) t w (auth_run sha pre a)) = (c, res) \<and> ar_ok res)"

lemma session_origin_snoc:
  "session_origin sha a ops c expiry \<Longrightarrow> op \<noteq> Logout (Some c) \<Longrightarrow> session_origin sha a (ops @ [op]) c expiry"
  unfolding session_origin_def by (elim exE conjE, intro exI conjI) (simp only: append_Cons append_assoc, auto)

lemma auth_step_keeps [simp]:
  "au_username (auth_step sha op a) = au_username a" "au_password (auth_step sha op a) = au_password a"
  by (cases op; auto simp: attempt_login_def authenticate_def logout_def Let_def split: prod.splits option.splits)+

lemma auth_run_keeps [simp]:
  "au_username (auth_run sha ops a) = au_username a" "au_password (auth_run sha ops a) = au_password a"
  by (induction ops arbitrary: a) auto

lemma attempt_ok_right: "guard_attempt ip now right w g = (res, g') \<Longrightarrow> ar_ok res \<Longrightarrow> right"
  by (erule guard_attempt_cases) (auto simp: no_result_def)

lemma login_sessions:
  assumes "attempt_login sha ip u p random now w a = ((c, res), a')" "map_of (au_sessions a') k = Some expiry"
    "wf_map (au_sessions a)"
  shows "map_of (au_sessions a) k = Some expiry \<or>
    random = Some k \<and> c = k \<and> ar_ok res \<and> expiry = now + session_lifetime \<and> sha u = sha (au_username a) \<and> sha p = sha (au_password a)"
  using assms attempt_ok_right [of ip now _ w "au_guard a"]
  by (auto simp: attempt_login_def Let_def equal_secret_def map_of_filter_key split: prod.splits if_splits option.splits)

lemma sessions_wf: "wf_map (au_sessions a) \<Longrightarrow> wf_map (au_sessions (auth_step sha op a))"
  by (cases op) (auto simp: attempt_login_def authenticate_def logout_def Let_def split: prod.splits option.splits)

lemma auth_run_wf: "wf_map (au_sessions a) \<Longrightarrow> wf_map (au_sessions (auth_run sha ops a))"
  by (induction ops arbitrary: a) (auto simp: sessions_wf)

lemma sessions_have_origin:
  assumes "au_sessions a = []"
  shows "map_of (au_sessions (auth_run sha ops a)) c = Some expiry \<Longrightarrow> session_origin sha a ops c expiry"
proof (induction ops arbitrary: expiry rule: rev_induct)
  case Nil
  then show ?case using assms by simp
next
  case (snoc op ops)
  let ?b = "auth_run sha ops a"
  have wf: "wf_map (au_sessions ?b)" by (rule auth_run_wf) (simp add: assms)
  have s: "map_of (au_sessions (auth_step sha op ?b)) c = Some expiry"
    using snoc.prems by (simp add: auth_run_append)
  show ?case
  proof (cases op)
    case (Login ip u p random now w)
    obtain c' res b' where l: "attempt_login sha ip u p random now w ?b = ((c', res), b')" by (metis prod.exhaust)
    from login_sessions [OF l _ wf] s Login l
    have "map_of (au_sessions ?b) c = Some expiry \<or>
      random = Some c \<and> c' = c \<and> ar_ok res \<and> expiry = now + session_lifetime \<and> sha u = sha (au_username a) \<and> sha p = sha (au_password a)"
      by simp
    then show ?thesis
    proof
      assume "map_of (au_sessions ?b) c = Some expiry"
      then show ?thesis using snoc.IH session_origin_snoc Login by fastforce
    next
      assume o: "random = Some c \<and> c' = c \<and> ar_ok res \<and> expiry = now + session_lifetime \<and> sha u = sha (au_username a) \<and> sha p = sha (au_password a)"
      then show ?thesis unfolding session_origin_def Login using l
        by (intro exI [of _ ops] exI [of _ ip] exI [of _ u] exI [of _ p] exI [of _ now] exI [of _ w] exI [of _ res] exI [of _ "[]"]) auto
    qed
  next
    case (Request r now w)
    then have "map_of (au_sessions ?b) c = Some expiry"
      using s by (auto simp: authenticate_def Let_def split: prod.splits option.splits if_splits)
    then show ?thesis using snoc.IH session_origin_snoc Request by fastforce
  next
    case (Logout k)
    then have "map_of (au_sessions ?b) c = Some expiry" "k \<noteq> Some c"
      using s by (auto simp: logout_def split: option.splits if_splits)
    then show ?thesis using snoc.IH session_origin_snoc Logout by fastforce
  qed
qed

subsection \<open>Properties\<close>

text \<open>C38: Whatever an attacker tries, and across restarts as long as the file can be written, at most 100
  wrong passwords are checked in any hour, and at most five in any 15 minutes from an address that has
  not logged in.\<close>

theorem guard_bounds_guesses:
  assumes run: "guard_run ops (new_guard None) = (rs, g)"
    and times: "sorted (op_times ops)" "\<forall>t \<in> set (op_times ops). zero_time \<le> t"
    and saved: "Restart \<notin> set ops \<or> (\<forall>op \<in> set ops. op_saves op)"
  shows "guesses (\<lambda>i. True) hour t rs \<le> 100 \<and>
    ((\<forall>(i, x, res) \<in> set rs. i = ip \<longrightarrow> \<not> ar_ok res) \<longrightarrow> guesses (\<lambda>i. i = ip) (15 * minute) t rs \<le> 5)"
proof -
  have inv: "\<exists>t ips global. guard_inv S (history rs) t ips global"
    if "\<forall>(i, x, res) \<in> set rs. ar_ok res \<longrightarrow> i \<notin> S" for S
    using guard_run_inv [OF run times(1), of zero_time S "[]"] that times(2) saved
      guard_inv_start [of S zero_time] by (auto simp: file_inv_def)
  have "guesses (\<lambda>i. True) hour t rs \<le> 100"
    using inv [of "{}"] unfolding guesses_history guard_inv_def spaced_def
    by (auto simp: global_fail_limit_def global_fail_window_def)
  moreover have "guesses (\<lambda>i. i = ip) (15 * minute) t rs \<le> 5"
    if "\<forall>(i, x, res) \<in> set rs. i = ip \<longrightarrow> \<not> ar_ok res"
    using inv [of "{ip}"] that unfolding guesses_history guard_inv_def spaced_def ip_times_def
    by (force simp: ip_fail_limit_def ip_fail_window_def)
  ultimately show ?thesis by blast
qed


text \<open>C18: A request is let in by its session cookie only if a login with the right name and password,
  which the guard let through, gave out that session at most 12 hours before and it was not logged out.\<close>

theorem session_needs_login:
  assumes "au_sessions a = []" "b = auth_run sha ops a"
    and "\<not> uses_token r b" "authenticate sha r now w b = ((True, res), b')"
  shows "\<exists>c expiry. rq_cookie r = Some c \<and> session_origin sha a ops c expiry \<and> now \<le> expiry"
proof -
  obtain c expiry where "rq_cookie r = Some c" "map_of (au_sessions b) c = Some expiry" "now \<le> expiry"
    using assms(3,4) by (auto simp: authenticate_def not_less split: option.splits if_splits)
  then show ?thesis using sessions_have_origin [OF assms(1)] assms(2) by blast
qed

subsection \<open>Witnesses\<close>

definition three_tries :: "guard_op list" where
  "three_tries = [Try ''1.2.3.4'' 1000 False True, Restart, Try ''1.2.3.4'' 2000 False True]"

theorem guard_bounds_guesses_witness:
  "guesses (\<lambda>i. i = ''1.2.3.4'') (15 * minute) 2000 (fst (guard_run three_tries (new_guard None))) \<le> 5"
proof -
  let ?r = "guard_run three_tries (new_guard None)"
  have r: "guard_run three_tries (new_guard None) = (fst ?r, snd ?r)" by simp
  have "\<not> ar_ok res" if "(i, x, res) \<in> set (fst ?r)" for i x res
    using that by (auto simp: three_tries_def guard_attempt_def guard_fail_def no_result_def guard_block_def Let_def
        split: prod.splits option.splits if_splits)
  then show ?thesis using guard_bounds_guesses [OF r, of 2000 "''1.2.3.4''"]
    by (auto simp: three_tries_def zero_time_def)
qed

definition failing_guard :: guard where
  "failing_guard = \<lparr>gd_ips = [(''a'', \<lparr>ir_fails = [0, 0, 0, 0], ir_locks = 1, ir_locked_until = 0, ir_last_fail = 0\<rparr>)],
     gd_global = [0, 0, 0, 0], gd_file = None\<rparr>"

lemma failing_guard_locks:
  "ar_ip_lock (fst (guard_attempt ''a'' 1000 False True failing_guard)) = 30 * minute"
  by (simp add: failing_guard_def guard_attempt_def guard_block_def guard_fail_def fail_record_def get_or_def
      no_result_def lock_time_def guard_consts time_sub_def max_duration_def min_duration_def recent_times_def Let_def)


definition one_login :: "auth_op list" where
  "one_login = [Login ''a'' ''admin'' ''secret'' (Some ''c0'') 1000 True]"

definition cookie_request :: auth_request where
  "cookie_request = \<lparr>rq_ip = ''a'', rq_authorization = [], rq_cookie = Some ''c0''\<rparr>"

theorem session_needs_login_witness:
  "\<exists>c expiry. rq_cookie cookie_request = Some c \<and>
     session_origin id (new_auth ''admin'' ''secret'' [] (new_guard None)) one_login c expiry \<and> 2000 \<le> expiry"
proof -
  let ?b = "auth_run id one_login (new_auth ''admin'' ''secret'' [] (new_guard None))"
  obtain res b' where "authenticate id cookie_request 2000 True ?b = ((True, res), b')"
    by (simp add: one_login_def cookie_request_def new_auth_def attempt_login_def authenticate_def uses_token_def
        guard_attempt_def guard_block_def new_guard_def global_fail_limit_def equal_secret_def no_result_def
        session_lifetime_def recent_times_def has_key_def)
  moreover have "\<not> uses_token cookie_request ?b" by (simp add: uses_token_def cookie_request_def)
  ultimately show ?thesis
    by (intro session_needs_login [OF _ refl]) (auto simp: new_auth_def)
qed

end
