(* ===== verification/Proxy.thy ===== *)
theory Proxy
  imports Telegram Charts Farm Events Guard
begin

text \<open>
  The running proxy as its administrators see it: the state that the Telegram bot and the admin API share, and
  what both read of it.

  \<^item> \<open>proxy\<close> holds the farm (pool manager with its state file and registry, timed and profit switching, watcher),
    the settings store, the share counters, the history, the events and the bot.
  \<^item> \<open>session_info\<close> is \<open>Session.Info\<close>; \<open>save_in\<close> is \<open>settings.Store.Save\<close> with the listener of the manager;
    \<open>farm_summary\<close> is \<open>farmSummary\<close> of \<open>cmd/proxy/main.go\<close>.
  \<^item> The events of the manager reach the log through an argument, since their texts are not modelled.
\<close>

record proxy =
  px_farm :: farm
  px_settings :: settings_store
  px_stats :: collector
  px_history :: recorder
  px_log :: log
  px_bot :: bot

abbreviation px_manager :: "proxy \<Rightarrow> manager" where "px_manager px \<equiv> fa_manager (px_farm px)"
abbreviation px_values :: "proxy \<Rightarrow> settings_values" where "px_values px \<equiv> ss_cur (px_settings px)"

definition set_manager :: "manager \<Rightarrow> proxy \<Rightarrow> proxy" where
  "set_manager m px = px\<lparr>px_farm := (px_farm px)\<lparr>fa_manager := m\<rparr>\<rparr>"

definition set_timed :: "timed \<Rightarrow> proxy \<Rightarrow> proxy" where
  "set_timed t px = px\<lparr>px_farm := (px_farm px)\<lparr>fa_timed := t\<rparr>\<rparr>"

lemma set_manager_simps [simp]:
  "px_manager (set_manager m px) = m" "px_settings (set_manager m px) = px_settings px" "px_bot (set_manager m px) = px_bot px"
  "fa_timed (px_farm (set_manager m px)) = fa_timed (px_farm px)"
  by (simp_all add: set_manager_def)

lemma set_timed_simps [simp]:
  "px_manager (set_timed t px) = px_manager px" "px_settings (set_timed t px) = px_settings px" "px_bot (set_timed t px) = px_bot px"
  by (simp_all add: set_timed_def)

text \<open>How the events of the manager are written.\<close>

type_synonym event_writer = "manager_event \<Rightarrow> time \<Rightarrow> log \<Rightarrow> log"

definition write_events :: "event_writer \<Rightarrow> time \<Rightarrow> manager_event list \<Rightarrow> proxy \<Rightarrow> proxy" where
  "write_events say now evs px = px\<lparr>px_log := fold (\<lambda>e. say e now) evs (px_log px)\<rparr>"

lemma write_events_simps [simp]:
  "px_farm (write_events say now evs px) = px_farm px" "px_settings (write_events say now evs px) = px_settings px"
  "px_bot (write_events say now evs px) = px_bot px"
  by (simp_all add: write_events_def)

subsection \<open>Rows of the sessions\<close>

record session_info =
  sf_id :: nat
  sf_worker :: string
  sf_upstream_user :: string
  sf_ip :: string
  sf_transport :: string
  sf_pool_id :: string
  sf_pool_name :: string
  sf_pool_addr :: string
  sf_user_agent :: string
  sf_difficulty :: real
  sf_accepted :: "64 word"
  sf_rejected :: "64 word"
  sf_last_share :: "time option"
  sf_last_submit :: "time option"
  sf_hashrate :: real
  sf_connected :: time

definition nonzero_time :: "time \<Rightarrow> time option" where
  "nonzero_time t = (if is_zero t then None else Some t)"

definition session_info :: "time \<Rightarrow> session \<Rightarrow> session_info" where
  "session_info now s =
     \<lparr>sf_id = s_id s, sf_worker = s_worker s, sf_upstream_user = s_upstream_user s, sf_ip = s_ip s, sf_transport = s_transport s,
      sf_pool_id = u_pool_id (s_up s), sf_pool_name = u_pool_name (s_up s), sf_pool_addr = u_addr (s_up s),
      sf_user_agent = s_user_agent s, sf_difficulty = s_difficulty s, sf_accepted = s_accepted s, sf_rejected = s_rejected s,
      sf_last_share = nonzero_time (s_last_share s), sf_last_submit = nonzero_time (s_last_submit s),
      sf_hashrate = hashrate now (s_rate s), sf_connected = s_connected_at s\<rparr>"

definition session_infos :: "time \<Rightarrow> registry \<Rightarrow> session_info list" where
  "session_infos now r = map (session_info now) (list_sessions r)"

text \<open>What the monitor takes of a row.\<close>

definition seen_info :: "session_info \<Rightarrow> miner_info" where
  "seen_info x =
     \<lparr>mi_worker = sf_worker x, mi_last_submit = sf_last_submit x, mi_pool_name = sf_pool_name x, mi_hashrate = sf_hashrate x,
      mi_connected = sf_connected x, mi_difficulty = sf_difficulty x\<rparr>"

subsection \<open>Saving settings\<close>

text \<open>The other listeners of a commit change no state of the model: log level, deadlines of blocked reads, and
  the start of a removal of old history files.\<close>

definition save_in :: "(string, json) gomap \<Rightarrow> bool \<Rightarrow> proxy \<Rightarrow> (go_error + pending) \<times> proxy" where
  "save_in chs write_ok px =
     (case save_settings chs write_ok (m_store (px_manager px)) (px_settings px) of
        (r, st, ss) \<Rightarrow>
          (let m = (px_manager px)\<lparr>m_store := st\<rparr>;
               m = (case r of Inl _ \<Rightarrow> m | Inr _ \<Rightarrow> settings_changed (ss_cur ss) m)
           in (r, (set_manager m px)\<lparr>px_settings := ss\<rparr>)))"

lemma save_in_failed:
  assumes "save_in chs w px = (Inl e, px')"
  shows "px' = px"
  using assms
  by (auto simp: save_in_def save_settings_def mutate_def set_manager_def Let_def split: sum.splits option.splits if_splits prod.splits)

lemma save_in_others:
  assumes "save_in chs w px = (r, px')"
  shows "px_stats px' = px_stats px \<and> px_history px' = px_history px \<and> px_log px' = px_log px \<and> px_bot px' = px_bot px \<and>
    fa_timed (px_farm px') = fa_timed (px_farm px) \<and> fa_profit (px_farm px') = fa_profit (px_farm px)"
  using assms by (auto simp: save_in_def set_manager_def Let_def split: prod.splits)

lemma save_in_values:
  assumes "save_in chs w px = (Inr p, px')"
  shows "prepare chs (px_settings px) = Inr p \<and> px_values px' = pe_values p"
  using assms
  by (auto simp: save_in_def save_settings_def mutate_def commit_pending_def Let_def split: sum.splits option.splits if_splits prod.splits)

subsection \<open>The state of the farm\<close>

definition status_env :: "(real \<Rightarrow> real) \<Rightarrow> time \<Rightarrow> watcher \<Rightarrow> manager timed_env" where
  "status_env gamma now w =
     wired_env gamma w \<lparr>te_now = now, te_later = now, te_hardness = None, te_live = None, te_during = (\<lambda>m. m), te_saved = True\<rparr>"

definition timed_status_px :: "(real \<Rightarrow> real) \<Rightarrow> time \<Rightarrow> proxy \<Rightarrow> timed_status \<times> proxy" where
  "timed_status_px gamma now px =
     (case timed_status_of (manager_ops [] True (\<lambda>is. is) now) (status_env gamma now (fa_watcher (px_farm px))) (px_values px)
             (fa_timed (px_farm px)) (px_manager px) of
        (st, t) \<Rightarrow> (st, set_timed t px))"

lemma timed_status_px_simps [simp]:
  "px_manager (snd (timed_status_px gamma now px)) = px_manager px"
  "px_settings (snd (timed_status_px gamma now px)) = px_settings px"
  "px_bot (snd (timed_status_px gamma now px)) = px_bot px"
  by (simp_all add: timed_status_px_def split: prod.split)

definition mode_name :: "mode \<Rightarrow> string" where
  "mode_name md = (case md of Switching \<Rightarrow> ''SWITCHING'' | Normal \<Rightarrow> ''NORMAL'' | Degraded \<Rightarrow> ''DEGRADED'' | AllDown \<Rightarrow> ''DOWN'')"

record hunt_line =
  hl_pool :: string
  hl_for :: duration
  hl_hard :: real
  hl_live :: bool
  hl_stints :: nat
  hl_time :: duration

record farm_line =
  fl_hashrate :: real
  fl_pool :: string
  fl_coin :: string
  fl_solo :: bool
  fl_mode :: string
  fl_timer :: "(string \<times> duration) option"
  fl_hunt :: "hunt_line option"
  fl_accepted :: "64 word"
  fl_rejected :: "64 word"
  fl_uptime :: duration

definition timer_line :: "time \<Rightarrow> snapshot \<Rightarrow> timed_status \<Rightarrow> (string \<times> duration) option" where
  "timer_line now snap ts =
     (if ts_home ts = [] then None
      else (case ts_until ts of None \<Rightarrow> None
        | Some u \<Rightarrow> map_option (\<lambda>p. (p_name p, time_sub u now)) (snap_get snap (ts_target ts))))"

definition hunt_line :: "time \<Rightarrow> snapshot \<Rightarrow> hunt_status \<Rightarrow> hunt_line option" where
  "hunt_line now snap h =
     (if hs_mode h \<noteq> ''on'' \<or> hs_target h = [] then None
      else map_option (\<lambda>p. \<lparr>hl_pool = p_name p, hl_for = (case hs_since h of None \<Rightarrow> 0 | Some t \<Rightarrow> time_sub now t),
               hl_hard = hs_hard h, hl_live = hs_live h, hl_stints = hs_count h, hl_time = hs_time h\<rparr>)
             (snap_get snap (hs_target h)))"

definition farm_summary :: "(real \<Rightarrow> real) \<Rightarrow> time \<Rightarrow> time \<Rightarrow> proxy \<Rightarrow> farm_line \<times> proxy" where
  "farm_summary gamma started now px =
     (let m = px_manager px; snap = m_snap m; st = collector_snapshot now (px_stats px); p = snap_get snap (effective m);
          (ts, px') = timed_status_px gamma now px
      in (\<lparr>fl_hashrate = su_hashrate st, fl_pool = (case p of None \<Rightarrow> [] | Some p \<Rightarrow> p_name p),
           fl_coin = (case p of None \<Rightarrow> [] | Some p \<Rightarrow> p_coin p), fl_solo = (case p of None \<Rightarrow> False | Some p \<Rightarrow> p_solo p),
           fl_mode = mode_name (mode m), fl_timer = timer_line now snap ts, fl_hunt = hunt_line now snap (ts_hunt ts),
           fl_accepted = su_accepted st, fl_rejected = su_rejected st, fl_uptime = time_sub now started\<rparr>, px'))"

lemma farm_summary_simps [simp]:
  "px_manager (snd (farm_summary gamma started now px)) = px_manager px"
  "px_settings (snd (farm_summary gamma started now px)) = px_settings px"
  "px_bot (snd (farm_summary gamma started now px)) = px_bot px"
  using timed_status_px_simps [of gamma now px] by (cases "timed_status_px gamma now px"; simp add: farm_summary_def Let_def)+

end
