(* ===== verification/Api.thy ===== *)
theory Api
  imports Proxy
begin

text \<open>
  Package \<open>admin\<close>, the requests of \<open>server.go\<close> and \<open>auth.go\<close>: what a request asks for, before a handler runs.

  \<^item> \<open>http_request\<close> is a request as \<open>net/http\<close> hands it over: cookie, path, query and media type are parsed.
  \<^item> \<open>route\<close> is the mux of \<open>New\<close>; \<open>json_only\<close> and \<open>client_ip\<close> are the functions of \<open>auth.go\<close>.
  \<^item> \<open>decode_body\<close> is \<open>decode\<close> on a body of limited size, with the streaming decoder of \<open>encoding/json\<close>.
  \<^item> \<open>history_range\<close> is \<open>historyRange\<close> with the wrap-around of its integers.

  The lemmas show which bodies are accepted, that an address splits into the host and port it was joined from,
  and which ranges of the history are accepted.
\<close>

record http_request = auth_request +
  rq_method :: string
  rq_path :: "string list"
  rq_query :: "(string, string) gomap"
  rq_media :: "string option"
  rq_body :: string
  rq_tls :: bool
  rq_proto :: string

definition query_get :: "string \<Rightarrow> http_request \<Rightarrow> string" where
  "query_get k r = get_or [] (rq_query r) k"

subsection \<open>Endpoints\<close>

datatype endpoint =
    EpHealth | EpLogin | EpLogout
  | EpMe | EpStatus | EpMiners | EpReconnect | EpEvents | EpHistory | EpWorker | EpWorkers
  | EpProfit | EpProfitCheck | EpProfitHome | EpTimed | EpTimedStart | EpNetwork
  | EpPools | EpCreate | EpUpdate string | EpDelete string | EpTestConfig | EpTest string | EpActivate string | EpFallback
  | EpSettings | EpPutSettings | EpToken | EpTelegramTest
  | EpUnknown | EpWeb | EpRedirect | EpNotAllowed

definition fixed_routes :: "((string \<times> string list) \<times> endpoint) list" where
  "fixed_routes =
     [((''GET'', [''api'', ''health'']), EpHealth),
      ((''POST'', [''api'', ''auth'', ''login'']), EpLogin),
      ((''POST'', [''api'', ''auth'', ''logout'']), EpLogout),
      ((''GET'', [''api'', ''auth'', ''me'']), EpMe),
      ((''GET'', [''api'', ''status'']), EpStatus),
      ((''GET'', [''api'', ''miners'']), EpMiners),
      ((''POST'', [''api'', ''miners'', ''reconnect'']), EpReconnect),
      ((''GET'', [''api'', ''events'']), EpEvents),
      ((''GET'', [''api'', ''history'']), EpHistory),
      ((''GET'', [''api'', ''history'', ''worker'']), EpWorker),
      ((''GET'', [''api'', ''history'', ''workers'']), EpWorkers),
      ((''GET'', [''api'', ''profit'']), EpProfit),
      ((''POST'', [''api'', ''profit'', ''check'']), EpProfitCheck),
      ((''PUT'', [''api'', ''profit'', ''home'']), EpProfitHome),
      ((''GET'', [''api'', ''timed'']), EpTimed),
      ((''POST'', [''api'', ''timed'', ''start'']), EpTimedStart),
      ((''GET'', [''api'', ''network'']), EpNetwork),
      ((''GET'', [''api'', ''pools'']), EpPools),
      ((''POST'', [''api'', ''pools'']), EpCreate),
      ((''POST'', [''api'', ''pools'', ''test'']), EpTestConfig),
      ((''PUT'', [''api'', ''fallback'']), EpFallback),
      ((''GET'', [''api'', ''settings'']), EpSettings),
      ((''PUT'', [''api'', ''settings'']), EpPutSettings),
      ((''PUT'', [''api'', ''telegram'', ''token'']), EpToken),
      ((''POST'', [''api'', ''telegram'', ''test'']), EpTelegramTest)]"

text \<open>The patterns with \<open>{id}\<close>, which stands for one segment that is not empty.\<close>

definition pool_route :: "string \<Rightarrow> string list \<Rightarrow> endpoint option" where
  "pool_route m segs =
     (case segs of
        [a, p, i] \<Rightarrow>
          if a \<noteq> ''api'' \<or> p \<noteq> ''pools'' \<or> i = [] then None
          else if m = ''PUT'' then Some (EpUpdate i) else if m = ''DELETE'' then Some (EpDelete i) else None
      | [a, p, i, verb] \<Rightarrow>
          if a \<noteq> ''api'' \<or> p \<noteq> ''pools'' \<or> i = [] \<or> m \<noteq> ''POST'' then None
          else if verb = ''test'' then Some (EpTest i) else if verb = ''activate'' then Some (EpActivate i) else None
      | _ \<Rightarrow> None)"

text \<open>A path is its segments; one that ends in a slash has an empty last segment. \<open>HEAD\<close> takes the patterns of
  \<open>GET\<close>; \<open>/api\<close> is redirected to \<open>/api/\<close>.\<close>

definition route :: "string \<Rightarrow> string list \<Rightarrow> endpoint" where
  "route method segs =
     (let m = (if method = ''HEAD'' then ''GET'' else method) in
      case map_of fixed_routes (m, segs) of
        Some e \<Rightarrow> e
      | None \<Rightarrow>
          (case pool_route m segs of
             Some e \<Rightarrow> e
           | None \<Rightarrow>
               if m \<notin> {''GET'', ''POST'', ''PUT'', ''DELETE''} then EpNotAllowed
               else if segs = [''api''] then EpRedirect
               else if segs \<noteq> [] \<and> hd segs = ''api'' then EpUnknown
               else if m = ''GET'' then EpWeb
               else EpNotAllowed))"

text \<open>The patterns behind \<open>protected\<close>.\<close>

definition open_endpoint :: "endpoint \<Rightarrow> bool" where
  "open_endpoint e \<longleftrightarrow> e \<in> {EpHealth, EpLogin, EpLogout, EpUnknown, EpWeb, EpRedirect, EpNotAllowed}"

definition json_only :: "http_request \<Rightarrow> bool" where
  "json_only r \<longleftrightarrow> rq_method r \<in> {''GET'', ''HEAD'', ''OPTIONS''} \<or> rq_media r = Some ''application/json''"

subsection \<open>Hosts and ports\<close>

text \<open>\<open>net.SplitHostPort\<close>.\<close>

definition cut_last :: "char \<Rightarrow> string \<Rightarrow> (string \<times> string) option" where
  "cut_last c s =
     (if c \<notin> set s then None
      else (let b = takeWhile (\<lambda>x. x \<noteq> c) (rev s) in Some (take (length s - length b - 1) s, rev b)))"

definition lbr :: char where "lbr = CHR 0x5B"
definition rbr :: char where "rbr = CHR 0x5D"
definition colon :: char where "colon = CHR 0x3A"

definition split_host_port :: "string \<Rightarrow> (string \<times> string) option" where
  "split_host_port s =
     (case cut_last colon s of None \<Rightarrow> None
      | Some (front, q) \<Rightarrow>
          if s \<noteq> [] \<and> hd s = lbr then
            (let inner = takeWhile (\<lambda>c. c \<noteq> rbr) (tl s) in
             if front \<noteq> lbr # inner @ [rbr] \<or> lbr \<in> set inner \<or> lbr \<in> set q \<or> rbr \<in> set q then None else Some (inner, q))
          else if colon \<in> set front \<or> lbr \<in> set s \<or> rbr \<in> set s then None
          else Some (front, q))"

text \<open>\<open>net.JoinHostPort\<close>.\<close>

definition join_host_port :: "string \<Rightarrow> string \<Rightarrow> string" where
  "join_host_port h p = (if colon \<in> set h then [lbr] @ h @ [rbr, colon] @ p else h @ [colon] @ p)"

definition client_ip :: "string \<Rightarrow> string" where
  "client_ip remote = (case split_host_port remote of None \<Rightarrow> remote | Some (h, _) \<Rightarrow> h)"

subsection \<open>Bodies\<close>

text \<open>The decoder reads the longest number; what follows is another value.\<close>

definition number_prefix :: "string \<Rightarrow> (json \<times> string) option" where
  "number_prefix s =
     (case filter valid_number (map (\<lambda>k. take k s) (rev [0..<Suc (length (takeWhile num_char s))])) of
        [] \<Rightarrow> None | t # _ \<Rightarrow> Some (JNum t, drop (length t) s))"

definition next_value :: "string \<Rightarrow> (json \<times> string) option" where
  "next_value s =
     (case skip_ws s of [] \<Rightarrow> None
      | c # t \<Rightarrow> if num_char c then number_prefix (c # t) else pvalue (2 * length s + 2) s)"

definition nested :: "json \<Rightarrow> bool" where
  "nested j = (case j of JArr _ \<Rightarrow> True | JObj _ \<Rightarrow> True | _ \<Rightarrow> False)"

text \<open>One \<open>Decode\<close>: no more values, an error, or a value and what follows. \<open>over\<close> says that reading fails where the
  text ends, since the body is too large: a value that is not nested is complete only with the byte after it.\<close>

datatype scanned = NoValue | Malformed | Value json string

definition scan_value :: "string \<Rightarrow> bool \<Rightarrow> scanned" where
  "scan_value s over =
     (if skip_ws s = [] then (if over then Malformed else NoValue)
      else (case next_value s of None \<Rightarrow> Malformed
            | Some (v, t) \<Rightarrow> if over \<and> t = [] \<and> \<not> nested v then Malformed else Value v t))"

definition bad_json :: api_error where "bad_json = validation (Msg ''body_invalid_json'' []) []"

definition decode_body :: "nat \<Rightarrow> string \<Rightarrow> (json \<Rightarrow> 'a option) \<Rightarrow> api_error + 'a" where
  "decode_body limit body dec =
     (let over = limit < length body in
      case scan_value (take limit body) over of
        NoValue \<Rightarrow> Inl (validation (Msg ''body_empty'' []) [])
      | Malformed \<Rightarrow> Inl bad_json
      | Value v t \<Rightarrow>
          if v = JNull then Inl (validation (Msg ''body_not_object'' []) [])
          else (case scan_value t over of
              Malformed \<Rightarrow> Inl bad_json
            | Value _ _ \<Rightarrow> Inl (validation (Msg ''body_extra'' []) [])
            | NoValue \<Rightarrow> (case dec v of None \<Rightarrow> Inl bad_json | Some x \<Rightarrow> Inr x)))"

definition max_body :: nat where "max_body = 2 ^ 20"
definition max_login_body :: nat where "max_login_body = 4096"

text \<open>Fields that are pointers: \<open>null\<close> is like a field that is missing.\<close>

definition opt_string :: "(string option \<Rightarrow> 'a \<Rightarrow> 'a) \<Rightarrow> json \<Rightarrow> 'a \<Rightarrow> 'a option" where
  "opt_string upd v x = (case v of JNull \<Rightarrow> Some (upd None x) | _ \<Rightarrow> into_string (\<lambda>s. upd (Some s)) v x)"

definition opt_bool :: "(bool option \<Rightarrow> 'a \<Rightarrow> 'a) \<Rightarrow> json \<Rightarrow> 'a \<Rightarrow> 'a option" where
  "opt_bool upd v x = (case v of JNull \<Rightarrow> Some (upd None x) | _ \<Rightarrow> into_bool (\<lambda>b. upd (Some b)) v x)"

definition opt_int :: "(int option \<Rightarrow> 'a \<Rightarrow> 'a) \<Rightarrow> json \<Rightarrow> 'a \<Rightarrow> 'a option" where
  "opt_int upd v x = (case v of JNull \<Rightarrow> Some (upd None x) | _ \<Rightarrow> into_int (\<lambda>i. upd (Some i)) v x)"

definition opt_list :: "(json \<Rightarrow> 'b option) \<Rightarrow> ('b list option \<Rightarrow> 'a \<Rightarrow> 'a) \<Rightarrow> json \<Rightarrow> 'a \<Rightarrow> 'a option" where
  "opt_list dec upd v x = (case v of JNull \<Rightarrow> Some (upd None x) | _ \<Rightarrow> into_list dec (\<lambda>l. upd (Some l)) v x)"

text \<open>\<open>pool.Input\<close>.\<close>

definition no_input :: input where
  "no_input =
     \<lparr>in_id = None, in_name = None, in_coin = None, in_addresses = None, in_host = None, in_port = None, in_tls = None,
      in_tls_skip_verify = None, in_username = None, in_password = None, in_profit_switch = None, in_timed_target = None,
      in_solo = None\<rparr>"

definition input_field :: "string \<Rightarrow> json \<Rightarrow> input \<Rightarrow> input option" where
  "input_field k v x =
     (if k = ''id'' then opt_string (\<lambda>s i. i\<lparr>in_id := s\<rparr>) v x
      else if k = ''name'' then opt_string (\<lambda>s i. i\<lparr>in_name := s\<rparr>) v x
      else if k = ''coin'' then opt_string (\<lambda>s i. i\<lparr>in_coin := s\<rparr>) v x
      else if k = ''addresses'' then opt_list decode_address (\<lambda>l i. i\<lparr>in_addresses := l\<rparr>) v x
      else if k = ''host'' then opt_string (\<lambda>s i. i\<lparr>in_host := s\<rparr>) v x
      else if k = ''port'' then opt_int (\<lambda>n i. i\<lparr>in_port := n\<rparr>) v x
      else if k = ''tls'' then opt_bool (\<lambda>b i. i\<lparr>in_tls := b\<rparr>) v x
      else if k = ''tls_skip_verify'' then opt_bool (\<lambda>b i. i\<lparr>in_tls_skip_verify := b\<rparr>) v x
      else if k = ''username'' then opt_string (\<lambda>s i. i\<lparr>in_username := s\<rparr>) v x
      else if k = ''password'' then opt_string (\<lambda>s i. i\<lparr>in_password := s\<rparr>) v x
      else if k = ''profit_switch'' then opt_bool (\<lambda>b i. i\<lparr>in_profit_switch := b\<rparr>) v x
      else if k = ''timed_target'' then opt_bool (\<lambda>b i. i\<lparr>in_timed_target := b\<rparr>) v x
      else if k = ''solo'' then opt_bool (\<lambda>b i. i\<lparr>in_solo := b\<rparr>) v x
      else Some x)"

definition decode_input :: "json \<Rightarrow> input option" where "decode_input = decode_struct input_field no_input"

definition login_field :: "string \<Rightarrow> json \<Rightarrow> string \<times> string \<Rightarrow> (string \<times> string) option" where
  "login_field k v x =
     (if k = ''username'' then into_string (\<lambda>s (u, p). (s, p)) v x
      else if k = ''password'' then into_string (\<lambda>s (u, p). (u, s)) v x else Some x)"

definition decode_login :: "json \<Rightarrow> (string \<times> string) option" where "decode_login = decode_struct login_field ([], [])"

text \<open>A body with a single field that is a pointer.\<close>

definition decode_one :: "string \<Rightarrow> json \<Rightarrow> string option option" where
  "decode_one key = decode_struct (\<lambda>k v x. if k = key then opt_string (\<lambda>s _. s) v x else Some x) None"

definition decode_pools :: "json \<Rightarrow> string list option option" where
  "decode_pools = decode_struct (\<lambda>k v x. if k = ''pools'' then opt_list decode_string (\<lambda>l _. l) v x else Some x) None"

definition decode_changes :: "json \<Rightarrow> (string, json) gomap option" where
  "decode_changes j = (case j of JObj ms \<Rightarrow> Some (members_map ms) | JNull \<Rightarrow> Some [] | _ \<Rightarrow> None)"

subsection \<open>Parameters of a query\<close>

definition num_param :: "string \<Rightarrow> int \<Rightarrow> http_request \<Rightarrow> api_error + int" where
  "num_param name d r =
     (let v = query_get name r in
      if v = [] then Inr d
      else (case parse_int64 v of
          None \<Rightarrow> Inl (validation (Msg ''history_param'' [(''name'', PStr name)]) []) | Some n \<Rightarrow> Inr n))"

definition twenty_years :: int where "twenty_years = 20 * 365 * 86400"

definition range_error :: api_error where "range_error = validation (Msg ''history_range'' []) []"

text \<open>Seconds; the differences of \<open>int64\<close> wrap around.\<close>

definition history_range :: "time \<Rightarrow> http_request \<Rightarrow> api_error + int \<times> int \<times> int" where
  "history_range now r =
     (case num_param ''to'' (unix now) r of Inl e \<Rightarrow> Inl e
      | Inr t \<Rightarrow>
          (case num_param ''from'' (wrap64 (t - 86400)) r of Inl e \<Rightarrow> Inl e
           | Inr f \<Rightarrow>
               (case num_param ''points'' 800 r of Inl e \<Rightarrow> Inl e
                | Inr p \<Rightarrow>
                    if t \<le> f \<or> twenty_years < wrap64 (t - f) then Inl range_error
                    else Inr (f, t, min (max p 10) 3000))))"

text \<open>The parameters of a request for events.\<close>

definition event_limit :: "http_request \<Rightarrow> int" where
  "event_limit r = (case parse_int64 (query_get ''limit'' r) of Some n \<Rightarrow> if 0 < n then n else 100 | None \<Rightarrow> 100)"

definition event_level :: "http_request \<Rightarrow> api_error + string" where
  "event_level r =
     (let l = query_get ''level'' r; l = (if l = [] then ''info'' else l) in
      if valid_level l then Inr l else Inl (validation (Msg ''events_level'' []) []))"

subsection \<open>Addresses split as they were joined\<close>

lemma cut_last_join: "c \<notin> set p \<Longrightarrow> cut_last c (h @ c # p) = Some (h, p)"
proof -
  assume c: "c \<notin> set p"
  have "takeWhile (\<lambda>x. x \<noteq> c) (rev p @ c # rev h) = rev p" using c by (subst takeWhile_append2) auto
  then show ?thesis by (simp add: cut_last_def)
qed

text \<open>The address of a client or of a listener splits into the host and the port it was joined from.\<close>

theorem split_join:
  assumes "lbr \<notin> set h" "rbr \<notin> set h" "lbr \<notin> set p" "rbr \<notin> set p" "colon \<notin> set p"
  shows "split_host_port (join_host_port h p) = Some (h, p)"
proof (cases "colon \<in> set h")
  case True
  have "cut_last colon ((lbr # h @ [rbr]) @ colon # p) = Some (lbr # h @ [rbr], p)" using assms(5) by (rule cut_last_join)
  moreover have "takeWhile (\<lambda>c. c \<noteq> rbr) (h @ rbr # colon # p) = h" using assms(2) by (subst takeWhile_append2) auto
  ultimately show ?thesis using True assms by (simp add: join_host_port_def split_host_port_def)
next
  case False
  have "cut_last colon (h @ colon # p) = Some (h, p)" using assms(5) by (rule cut_last_join)
  moreover have "hd (h @ colon # p) \<noteq> lbr" using assms(1) by (cases h) (auto simp: colon_def lbr_def)
  moreover have "lbr \<noteq> colon" "rbr \<noteq> colon" by (simp_all add: lbr_def rbr_def colon_def)
  ultimately show ?thesis using False assms by (auto simp: join_host_port_def split_host_port_def)
qed

theorem split_join_witness: "split_host_port (join_host_port ''::1'' ''18080'') = Some (''::1'', ''18080'')"
  by (rule split_join) (simp_all add: lbr_def rbr_def colon_def)

subsection \<open>Ranges\<close>

lemma num_param_cases: "num_param k d r = Inr n \<Longrightarrow> n = d \<or> parse_int64 (query_get k r) = Some n"
  by (auto simp: num_param_def Let_def split: if_splits option.splits)

lemma history_range_parts:
  assumes "history_range now r = Inr (f, t, p)"
  shows "f < t \<and> wrap64 (t - f) \<le> twenty_years \<and> 10 \<le> p \<and> p \<le> 3000 \<and>
    (t = unix now \<or> parse_int64 (query_get ''to'' r) = Some t) \<and> (f = wrap64 (t - 86400) \<or> parse_int64 (query_get ''from'' r) = Some f)"
proof -
  obtain t' where t: "num_param ''to'' (unix now) r = Inr t'" using assms by (auto simp: history_range_def split: sum.splits)
  obtain f' where f: "num_param ''from'' (wrap64 (t' - 86400)) r = Inr f'" using assms t by (auto simp: history_range_def split: sum.splits)
  obtain p' where p: "num_param ''points'' 800 r = Inr p'" using assms t f by (auto simp: history_range_def split: sum.splits)
  have "\<not> (t' \<le> f' \<or> twenty_years < wrap64 (t' - f'))" "f = f'" "t = t'" "p = min (max p' 10) 3000"
    using assms t f p by (auto simp: history_range_def split: if_splits)
  then show ?thesis using num_param_cases [OF t] num_param_cases [OF f] by auto
qed

text \<open>C30: the range of a request for the history starts before it ends, spans at most 20 years, and the chart has 10 to
  3000 points, if its ends are not more than \<open>2 ^ 62\<close> seconds from 1970.\<close>

theorem history_range_bounds:
  assumes "history_range now r = Inr (f, t, p)" "- (2 ^ 62) \<le> f" "t < 2 ^ 62"
  shows "f < t \<and> t - f \<le> twenty_years \<and> 10 \<le> p \<and> p \<le> 3000"
proof -
  note h = history_range_parts [OF assms(1)]
  have "wrap64 (t - f) = t - f" using h assms(2,3) by (simp add: wrap64_def)
  then show ?thesis using h by simp
qed

definition example_request :: "string \<Rightarrow> string list \<Rightarrow> (string, string) gomap \<Rightarrow> http_request" where
  "example_request meth path q =
     \<lparr>rq_ip = ''10.0.0.7'', rq_authorization = [], rq_cookie = None, rq_method = meth, rq_path = path, rq_query = q,
      rq_media = Some ''application/json'', rq_body = [], rq_tls = False, rq_proto = []\<rparr>"

lemma example_query:
  "query_get k (example_request m segs q) = get_or [] q k"
  by (simp add: query_get_def example_request_def)

lemma example_range:
  "history_range 0 (example_request ''GET'' [] [(''from'', ''100''), (''to'', ''86500''), (''points'', ''5'')]) = Inr (100, 86500, 10)"
proof -
  have n: "parse_int64 ''100'' = Some 100" "parse_int64 ''86500'' = Some 86500" "parse_int64 ''5'' = Some 5" by (simp_all add: parse_int64_def parse_int_def digits_val_def digit_val_def is_digit_def)
  show ?thesis by (simp add: history_range_def num_param_def example_query get_or_def n wrap64_def twenty_years_def)
qed

theorem history_range_bounds_witness:
  "\<exists>f t p. history_range 0 (example_request ''GET'' [] [(''from'', ''100''), (''to'', ''86500''), (''points'', ''5'')]) = Inr (f, t, p) \<and>
     f < t \<and> t - f \<le> twenty_years"
  using history_range_bounds [OF example_range] example_range by auto

text \<open>The difference of the ends can wrap around: this request passes the check with a range of \<open>2 ^ 63\<close> seconds.\<close>

lemma history_range_wraps:
  "history_range 0 (example_request ''GET'' [] [(''from'', ''-9223372036854775808''), (''to'', ''0'')]) = Inr (- (2 ^ 63), 0, 800)"
proof -
  have n: "parse_int64 ''-9223372036854775808'' = Some (- (2 ^ 63))" "parse_int64 ''0'' = Some 0" by (simp_all add: parse_int64_def parse_int_def digits_val_def digit_val_def is_digit_def)
  show ?thesis by (simp add: history_range_def num_param_def example_query get_or_def n wrap64_def twenty_years_def)
qed

subsection \<open>Methods\<close>

text \<open>What a request of a method with no content type can reach.\<close>

definition reads_only :: "endpoint \<Rightarrow> bool" where
  "reads_only e \<longleftrightarrow> e \<in> {EpMe, EpStatus, EpMiners, EpEvents, EpHistory, EpWorker, EpWorkers, EpProfit, EpTimed, EpNetwork, EpPools, EpSettings}"

lemma fixed_get: "map_of fixed_routes (''GET'', segs) = Some e \<Longrightarrow> reads_only e \<or> open_endpoint e"
  by (auto simp: fixed_routes_def reads_only_def open_endpoint_def split: if_splits)

lemma route_get: "reads_only (route ''GET'' segs) \<or> open_endpoint (route ''GET'' segs)"
proof (cases "map_of fixed_routes (''GET'', segs)")
  case None
  have "pool_route ''GET'' segs = None" by (auto simp: pool_route_def split: list.split)
  then show ?thesis using None by (auto simp: route_def open_endpoint_def Let_def)
next
  case (Some e)
  then have "route ''GET'' segs = e" by (simp add: route_def)
  then show ?thesis using fixed_get [OF Some] by simp
qed

lemma route_safe_method:
  assumes "m \<in> {''GET'', ''HEAD'', ''OPTIONS''}"
  shows "reads_only (route m segs) \<or> open_endpoint (route m segs)"
proof -
  have "pool_route ''OPTIONS'' segs = None" by (auto simp: pool_route_def split: list.split)
  moreover have "map_of fixed_routes (''OPTIONS'', segs) = None" by (simp add: fixed_routes_def)
  ultimately have "route ''OPTIONS'' segs = EpNotAllowed" by (simp add: route_def)
  moreover have "route ''HEAD'' segs = route ''GET'' segs" by (simp add: route_def)
  ultimately show ?thesis using assms route_get [of segs] by (auto simp: open_endpoint_def)
qed

subsection \<open>Accepted bodies\<close>

lemma number_prefix_whole:
  assumes "valid_number n" "\<not> num_char (hd (t @ [CHR '' '']))"
  shows "number_prefix (n @ t) = Some (JNum n, t)"
proof -
  have n: "list_all num_char n" using assms(1) by (simp add: valid_number_def)
  have "takeWhile num_char (n @ t) = n"
    using n assms(2) by (cases t) (auto simp: list_all_iff takeWhile_append)
  then show ?thesis using assms(1) by (simp add: number_prefix_def)
qed

lemma number_prefix_cases:
  assumes "number_prefix s = Some (v, t)"
  obtains n where "v = JNum n" "s = n @ t" "valid_number n"
proof -
  obtain n ns where f: "filter valid_number (map (\<lambda>k. take k s) (rev [0..<Suc (length (takeWhile num_char s))])) = n # ns"
    "v = JNum n" "t = drop (length n) s"
    using assms by (auto simp: number_prefix_def split: list.splits)
  have "n \<in> set (filter valid_number (map (\<lambda>k. take k s) (rev [0..<Suc (length (takeWhile num_char s))])))" using f(1) by simp
  then obtain k where k: "n = take k s" "valid_number n" by (auto simp: image_iff split: if_splits)
  then have "n = take (length n) s" by (metis append_eq_conv_conj append_take_drop_id)
  then have "s = n @ t" using f(3) by (metis append_take_drop_id)
  with k f show ?thesis using that by blast
qed

lemma skip_ws_empty: "skip_ws s = [] \<longleftrightarrow> (\<forall>c \<in> set s. json_space c)"
  by (induction s) (auto simp: skip_ws_def)

lemma space_no_number: "json_space c \<Longrightarrow> \<not> num_char c"
  by (auto simp: json_space_def num_char_def is_digit_def)

lemma pnumber_number_prefix:
  "(\<exists>t. number_prefix s = Some (v, t) \<and> skip_ws t = []) \<longleftrightarrow> (\<exists>t. pnumber s = Some (v, t) \<and> skip_ws t = [])"
proof
  assume "\<exists>t. number_prefix s = Some (v, t) \<and> skip_ws t = []"
  then obtain t where t: "number_prefix s = Some (v, t)" "skip_ws t = []" by blast
  obtain n where n: "v = JNum n" "s = n @ t" "valid_number n" using t(1) by (rule number_prefix_cases)
  have "takeWhile num_char s = n \<and> dropWhile num_char s = t"
    using n t(2) space_no_number by (cases t) (auto simp: valid_number_def list_all_iff skip_ws_empty takeWhile_append dropWhile_append)
  then show "\<exists>t. pnumber s = Some (v, t) \<and> skip_ws t = []" using n t(2) by (simp add: pnumber_def)
next
  assume "\<exists>t. pnumber s = Some (v, t) \<and> skip_ws t = []"
  then obtain t where t: "v = JNum (takeWhile num_char s)" "valid_number (takeWhile num_char s)" "t = dropWhile num_char s" "skip_ws t = []"
    by (auto simp: pnumber_def Let_def split: if_splits)
  have "\<not> num_char (hd (t @ [CHR '' '']))"
  proof (cases t)
    case Nil
    then show ?thesis by (simp add: num_char_def is_digit_def)
  next
    case (Cons c u)
    then have "dropWhile num_char s = c # u" using t(3) by simp
    then show ?thesis using Cons dropWhile_eq_Cons_conv [of num_char s c u] by simp
  qed
  from number_prefix_whole [OF t(2) this] show "\<exists>t. number_prefix s = Some (v, t) \<and> skip_ws t = []" using t by auto
qed

lemma next_value_parse: "(\<exists>t. next_value s = Some (v, t) \<and> skip_ws t = []) \<longleftrightarrow> parse_json s = Some v"
proof (cases "skip_ws s")
  case Nil
  then show ?thesis by (simp add: next_value_def parse_json_def)
next
  case (Cons c r)
  show ?thesis
  proof (cases "num_char c")
    case True
    have "c \<noteq> dq" "c \<noteq> CHR ''[''" "c \<noteq> CHR ''{''" "c \<noteq> CHR ''n''" "c \<noteq> CHR ''t''" "c \<noteq> CHR ''f''"
      using True by (auto simp: num_char_def is_digit_def)
    then have "pvalue (2 * length s + 2) s = pnumber (c # r)" using Cons by (simp add: pword_def)
    then show ?thesis using pnumber_number_prefix [of "c # r" v] Cons True
      by (auto simp: next_value_def parse_json_def split: option.splits if_splits)
  next
    case False
    then show ?thesis using Cons by (auto simp: next_value_def parse_json_def split: option.splits if_splits)
  qed
qed

lemma scan_value_fine: "scan_value s False = Value v t \<longleftrightarrow> skip_ws s \<noteq> [] \<and> next_value s = Some (v, t)"
  by (auto simp: scan_value_def split: option.split)

lemma scan_value_none: "scan_value s over = NoValue \<longleftrightarrow> \<not> over \<and> skip_ws s = []"
  by (auto simp: scan_value_def split: option.split)

text \<open>C28: a body is accepted exactly if it is not too large and its text is a single JSON value, not \<open>null\<close>, that fits;
  the streaming decoder with its second look at the rest then agrees with parsing the whole text.\<close>

theorem body_accepted:
  "decode_body limit body dec = Inr x \<longleftrightarrow>
     length body \<le> limit \<and> (\<exists>v. parse_json body = Some v \<and> v \<noteq> JNull \<and> dec v = Some x)"
proof (cases "length body \<le> limit")
  case True
  have "next_value body = Some (v, t) \<Longrightarrow> skip_ws body \<noteq> []" for v t by (auto simp: next_value_def)
  then have "decode_body limit body dec = Inr x \<longleftrightarrow> (\<exists>v t. next_value body = Some (v, t) \<and> v \<noteq> JNull \<and> skip_ws t = [] \<and> dec v = Some x)"
    using True by (auto simp: decode_body_def scan_value_def split: option.splits if_splits)
  then show ?thesis using True next_value_parse [of body] by metis
next
  case False
  then show ?thesis by (auto simp: decode_body_def scan_value_none split: scanned.splits option.splits if_splits)
qed

end
