(* ===== verification/Config.thy ===== *)
theory Config
  imports Api
begin

text \<open>
  Package \<open>config\<close>: the settings of the environment. The environment is a partial function; the parser of URLs
  (scheme and host, if the URL is well-formed) and \<open>filepath.Join\<close> are arguments. \<open>load_config\<close> is \<open>Load\<close> with the errors
  as values, \<open>admin_health_url\<close> is \<open>AdminHealthURL\<close>.

  The lemmas show what a configuration that loads satisfies and that every violated rule is reported.
\<close>

record config =
  cf_tcp :: string
  cf_tls :: string
  cf_admin :: string
  cf_username :: string
  cf_password :: string
  cf_token :: string
  cf_data_dir :: string
  cf_cert_file :: string
  cf_key_file :: string
  cf_hosts :: "string list"
  cf_public_host :: string
  cf_public_tcp :: int
  cf_public_tls :: int
  cf_log_format :: string
  cf_telegram_url :: string

type_synonym environment = "string \<Rightarrow> string option"

definition env_or :: "environment \<Rightarrow> string \<Rightarrow> string \<Rightarrow> string" where
  "env_or e k d = (case e k of None \<Rightarrow> d | Some v \<Rightarrow> if trim_space v = [] then d else trim_space v)"

definition getenv :: "environment \<Rightarrow> string \<Rightarrow> string" where
  "getenv e k = (case e k of None \<Rightarrow> [] | Some v \<Rightarrow> v)"

definition listen_addr :: "environment \<Rightarrow> string \<Rightarrow> string \<Rightarrow> string" where
  "listen_addr e k d = (if equal_fold (env_or e k d) ''off'' then [] else env_or e k d)"

datatype config_error = PasswordMissing | NoListener | BadLogFormat string | BadTelegramUrl string | BadPort string string

definition env_port :: "environment \<Rightarrow> string \<Rightarrow> config_error + int" where
  "env_port e k =
     (let v = env_or e k [] in
      if v = [] then Inr 0
      else (case parse_int64 v of None \<Rightarrow> Inl (BadPort k v) | Some p \<Rightarrow> if p < 1 \<or> 65535 < p then Inl (BadPort k v) else Inr p))"

definition trim_right :: "char \<Rightarrow> string \<Rightarrow> string" where
  "trim_right c s = rev (dropWhile (\<lambda>x. x = c) (rev s))"

definition url_errors :: "(string \<Rightarrow> (string \<times> string) option) \<Rightarrow> string \<Rightarrow> config_error list" where
  "url_errors parse_url u =
     (case parse_url u of None \<Rightarrow> [BadTelegramUrl u]
      | Some (scheme, h) \<Rightarrow> if (scheme \<noteq> ''https'' \<and> scheme \<noteq> ''http'') \<or> h = [] then [BadTelegramUrl u] else [])"

text \<open>The configuration is returned beside the errors; a port that is wrong is 0.\<close>

definition load_config :: "(string \<Rightarrow> (string \<times> string) option) \<Rightarrow> (string list \<Rightarrow> string) \<Rightarrow> environment \<Rightarrow> config \<times> config_error list" where
  "load_config parse_url join_path e =
     (let dir = env_or e ''DATA_DIR'' ''/data''; tcp = env_port e ''PUBLIC_TCP_PORT''; tls = env_port e ''PUBLIC_TLS_PORT'';
          c = \<lparr>cf_tcp = listen_addr e ''STRATUM_TCP_ADDR'' '':13333'', cf_tls = listen_addr e ''STRATUM_TLS_ADDR'' '':14443'',
               cf_admin = env_or e ''ADMIN_ADDR'' '':18080'', cf_username = env_or e ''ADMIN_USERNAME'' ''admin'',
               cf_password = getenv e ''ADMIN_PASSWORD'', cf_token = trim_space (getenv e ''API_TOKEN''), cf_data_dir = dir,
               cf_cert_file = env_or e ''TLS_CERT_FILE'' (join_path [dir, ''certs'', ''fullchain.pem'']),
               cf_key_file = env_or e ''TLS_KEY_FILE'' (join_path [dir, ''certs'', ''privkey.pem'']),
               cf_hosts = filter (\<lambda>h. h \<noteq> []) (map trim_space (split_on CHR '','' (env_or e ''TLS_SELF_SIGNED_HOSTS'' []))),
               cf_public_host = env_or e ''PUBLIC_HOST'' [],
               cf_public_tcp = (case tcp of Inl _ \<Rightarrow> 0 | Inr p \<Rightarrow> p), cf_public_tls = (case tls of Inl _ \<Rightarrow> 0 | Inr p \<Rightarrow> p),
               cf_log_format = to_lower (env_or e ''LOG_FORMAT'' ''json''),
               cf_telegram_url = trim_right CHR ''/'' (env_or e ''TELEGRAM_API_URL'' ''https://api.telegram.org'')\<rparr>
      in (c,
          (if cf_password c = [] then [PasswordMissing] else []) @
          (if cf_tcp c = [] \<and> cf_tls c = [] then [NoListener] else []) @
          (if cf_log_format c \<noteq> ''json'' \<and> cf_log_format c \<noteq> ''text'' then [BadLogFormat (cf_log_format c)] else []) @
          url_errors parse_url (cf_telegram_url c) @
          (case tcp of Inl x \<Rightarrow> [x] | Inr _ \<Rightarrow> []) @ (case tls of Inl x \<Rightarrow> [x] | Inr _ \<Rightarrow> [])))"

definition or_off :: "string \<Rightarrow> string" where "or_off s = (if s = [] then ''off'' else s)"

text \<open>\<open>LogValue\<close>: what of a configuration is logged.\<close>

datatype log_attr = LogString string string | LogBool string bool

definition log_value :: "config \<Rightarrow> log_attr list" where
  "log_value c =
     [LogString ''stratum_tcp'' (or_off (cf_tcp c)), LogString ''stratum_tls'' (or_off (cf_tls c)), LogString ''admin'' (cf_admin c),
      LogString ''admin_user'' (cf_username c), LogBool ''api_token_set'' (cf_token c \<noteq> []), LogString ''telegram_api'' (cf_telegram_url c),
      LogString ''data_dir'' (cf_data_dir c)]"

definition admin_health_url :: "environment \<Rightarrow> string" where
  "admin_health_url e =
     (case split_host_port (env_or e ''ADMIN_ADDR'' '':18080'') of
        None \<Rightarrow> ''http://127.0.0.1:18080/api/health''
      | Some (h, p) \<Rightarrow>
          ''http://'' @ join_host_port (if h = [] \<or> h = ''0.0.0.0'' \<or> h = ''::'' then ''127.0.0.1'' else h) p @ ''/api/health'')"

subsection \<open>Configurations that load\<close>

lemma env_port_range: "env_port e k = Inr p \<Longrightarrow> p = 0 \<or> 1 \<le> p \<and> p \<le> 65535"
  by (auto simp: env_port_def Let_def split: if_splits option.splits)

text \<open>A configuration that loads without an error has a password, a listener, a known log format, ports in range and
  an HTTP URL; an environment that breaks a rule does not load.\<close>

theorem loaded_config_valid:
  assumes "load_config parse_url join_path e = (c, errs)"
  shows "errs = [] \<longleftrightarrow>
    cf_password c \<noteq> [] \<and> (cf_tcp c \<noteq> [] \<or> cf_tls c \<noteq> []) \<and> cf_log_format c \<in> {''json'', ''text''} \<and>
    (\<exists>scheme h. parse_url (cf_telegram_url c) = Some (scheme, h) \<and> scheme \<in> {''http'', ''https''} \<and> h \<noteq> []) \<and>
    env_port e ''PUBLIC_TCP_PORT'' = Inr (cf_public_tcp c) \<and> env_port e ''PUBLIC_TLS_PORT'' = Inr (cf_public_tls c)"
proof -
  let ?tcp = "env_port e ''PUBLIC_TCP_PORT''" and ?tls = "env_port e ''PUBLIC_TLS_PORT''"
  have p: "cf_public_tcp c = (case ?tcp of Inl _ \<Rightarrow> 0 | Inr p \<Rightarrow> p)" "cf_public_tls c = (case ?tls of Inl _ \<Rightarrow> 0 | Inr p \<Rightarrow> p)"
    using assms by (auto simp: load_config_def Let_def)
  have "errs = (if cf_password c = [] then [PasswordMissing] else []) @
      (if cf_tcp c = [] \<and> cf_tls c = [] then [NoListener] else []) @
      (if cf_log_format c \<noteq> ''json'' \<and> cf_log_format c \<noteq> ''text'' then [BadLogFormat (cf_log_format c)] else []) @
      url_errors parse_url (cf_telegram_url c) @
      (case ?tcp of Inl x \<Rightarrow> [x] | Inr _ \<Rightarrow> []) @ (case ?tls of Inl x \<Rightarrow> [x] | Inr _ \<Rightarrow> [])"
    using assms by (simp only: load_config_def Let_def prod.inject) (elim conjE, hypsubst, simp only: config.simps)
  moreover have "(case ?tcp of Inl x \<Rightarrow> [x] | Inr _ \<Rightarrow> []) = [] \<longleftrightarrow> ?tcp = Inr (cf_public_tcp c)"
    "(case ?tls of Inl x \<Rightarrow> [x] | Inr _ \<Rightarrow> []) = [] \<longleftrightarrow> ?tls = Inr (cf_public_tls c)" using p by (auto split: sum.splits)
  moreover have "url_errors parse_url u = [] \<longleftrightarrow> (\<exists>scheme h. parse_url u = Some (scheme, h) \<and> scheme \<in> {''http'', ''https''} \<and> h \<noteq> [])" for u
    by (cases "parse_url u") (auto simp: url_errors_def split: if_splits)
  ultimately show ?thesis by simp
qed

theorem loaded_config_valid_witness:
  "\<exists>c errs. load_config (\<lambda>u. Some (''https'', ''api.telegram.org'')) concat [''ADMIN_PASSWORD'' \<mapsto> ''secret'', ''PUBLIC_TCP_PORT'' \<mapsto> ''70000''] = (c, errs) \<and>
     errs \<noteq> []"
proof -
  let ?e = "[''ADMIN_PASSWORD'' \<mapsto> ''secret'', ''PUBLIC_TCP_PORT'' \<mapsto> ''70000'']"
  obtain c errs where l: "load_config (\<lambda>u. Some (''https'', ''api.telegram.org'')) concat ?e = (c, errs)" by fastforce
  have "env_port ?e ''PUBLIC_TCP_PORT'' = Inl (BadPort ''PUBLIC_TCP_PORT'' ''70000'')"
    by (simp add: env_port_def env_or_def trim_space_def is_space_def parse_int64_def parse_int_def digits_val_def digit_val_def is_digit_def)
  then have "errs \<noteq> []" using loaded_config_valid [OF l] by auto
  with l show ?thesis by blast
qed

text \<open>What is logged does not depend on the password, nor on the token beyond its presence.\<close>

lemma log_value_no_secrets:
  "t = [] \<longleftrightarrow> cf_token c = [] \<Longrightarrow> log_value (c\<lparr>cf_password := p, cf_token := t\<rparr>) = log_value c"
  by (simp add: log_value_def)

end
