(* ===== verification/Tls.thy ===== *)
theory Tls
  imports State
begin

text \<open>
  Package \<open>tlsutil\<close>: the certificate of the TLS listener. Parsing and signing are arguments; a certificate is what
  \<open>crypto/x509\<close> says of it.

  \<^item> \<open>load_certs\<close> is \<open>Load\<close>, \<open>reload_certs\<close> is \<open>reload\<close>, \<open>get_certificate\<close> is \<open>GetCertificate\<close> on what the file system answers.
  \<^item> \<open>write_pair\<close> is \<open>writePair\<close> on a directory, with the outcome of every step as an argument.
  \<^item> \<open>certificate_info\<close> is \<open>Info\<close>; \<open>template\<close> is the certificate that \<open>generate\<close> signs.

  The lemmas show that a failed installation leaves neither file, so that the next start generates the pair again, and
  that the files are looked at no more than once a minute and a broken change keeps the old certificate.
\<close>

record leaf =
  lf_raw :: string
  lf_issuer :: string
  lf_subject :: string
  lf_signature_ok :: bool
  lf_common_name :: string
  lf_dns :: "string list"
  lf_ips :: "string list"
  lf_not_after :: time

record certs =
  ce_cert :: leaf
  ce_cert_mod :: time
  ce_key_mod :: time
  ce_last_check :: time

datatype file_stat = Absent | StatFails | ModifiedAt time

text \<open>What \<open>reload\<close> meets: the times of both files and the pair, if it loads.\<close>

record tls_files =
  tf_cert_stat :: file_stat
  tf_key_stat :: file_stat
  tf_pair :: "leaf option"

datatype tls_error = GenerateFails | OnlyOneExists | CannotStat | CannotLoad

definition reload_certs :: "tls_files \<Rightarrow> certs \<Rightarrow> tls_error + certs" where
  "reload_certs fs c =
     (case tf_cert_stat fs of
        ModifiedAt tc \<Rightarrow>
          (case tf_key_stat fs of
             ModifiedAt tk \<Rightarrow>
               (case tf_pair fs of None \<Rightarrow> Inl CannotLoad
                | Some l \<Rightarrow> Inr (c\<lparr>ce_cert := l, ce_cert_mod := tc, ce_key_mod := tk\<rparr>))
           | _ \<Rightarrow> Inl CannotStat)
      | _ \<Rightarrow> Inl CannotStat)"

text \<open>\<open>seen\<close> are the files before and \<open>fs\<close> after a pair was generated.\<close>

definition load_certs :: "tls_files \<Rightarrow> bool \<Rightarrow> tls_files \<Rightarrow> certs \<Rightarrow> tls_error + certs \<times> bool" where
  "load_certs seen generate_ok fs zero =
     (let no_cert = (tf_cert_stat seen = Absent); no_key = (tf_key_stat seen = Absent) in
      if no_cert \<and> no_key \<and> \<not> generate_ok then Inl GenerateFails
      else if no_cert \<noteq> no_key then Inl OnlyOneExists
      else (case reload_certs fs zero of Inl e \<Rightarrow> Inl e | Inr c \<Rightarrow> Inr (c, no_cert \<and> no_key)))"

definition reload_check_interval :: duration where "reload_check_interval = minute"

definition changed_since :: "certs \<Rightarrow> tls_files \<Rightarrow> bool" where
  "changed_since c seen \<longleftrightarrow>
     (case (tf_cert_stat seen, tf_key_stat seen) of
        (ModifiedAt tc, ModifiedAt tk) \<Rightarrow> tc \<noteq> ce_cert_mod c \<or> tk \<noteq> ce_key_mod c
      | _ \<Rightarrow> False)"

text \<open>The certificate of a handshake and whether the files were looked at.\<close>

definition get_certificate :: "time \<Rightarrow> tls_files \<Rightarrow> tls_files \<Rightarrow> certs \<Rightarrow> (leaf \<times> bool) \<times> certs" where
  "get_certificate now seen fs c =
     (if time_sub now (ce_last_check c) < reload_check_interval then ((ce_cert c, False), c)
      else
        (let c = c\<lparr>ce_last_check := now\<rparr>;
             c = (if changed_since c seen then (case reload_certs fs c of Inl _ \<Rightarrow> c | Inr c' \<Rightarrow> c') else c)
         in ((ce_cert c, True), c)))"

text \<open>\<open>MinVersion\<close>: the protocol versions of TLS as \<open>crypto/tls\<close> numbers them.\<close>

definition min_version :: "string \<Rightarrow> 16 word" where
  "min_version v =
     (if v = ''1.0'' then 0x0301 else if v = ''1.1'' then 0x0302 else if v = ''1.3'' then 0x0304 else 0x0303)"

subsection \<open>What the interface shows of a certificate\<close>

definition hex_upper :: "nat \<Rightarrow> char" where
  "hex_upper n = (if n < 10 then char_of (48 + n) else char_of (55 + n))"

definition fingerprint :: "(string \<Rightarrow> 8 word list) \<Rightarrow> leaf \<Rightarrow> string" where
  "fingerprint sha l = join '':'' (map (\<lambda>b. [hex_upper (unat b div 16), hex_upper (unat b mod 16)]) (sha (lf_raw l)))"

record cert_info =
  ci_type :: string
  ci_sha256 :: string
  ci_subject :: string
  ci_names :: "string list"
  ci_not_after :: time

definition certificate_info :: "(string \<Rightarrow> 8 word list) \<Rightarrow> certs \<Rightarrow> cert_info" where
  "certificate_info sha c =
     (let l = ce_cert c in
      \<lparr>ci_type = (if lf_issuer l = lf_subject l \<and> lf_signature_ok l then ''self-signed'' else ''loaded''),
       ci_sha256 = fingerprint sha l, ci_subject = lf_common_name l, ci_names = lf_dns l @ lf_ips l, ci_not_after = lf_not_after l\<rparr>)"

subsection \<open>Generating a pair\<close>

record cert_template =
  te_common_name :: string
  te_organization :: string
  te_not_before :: time
  te_not_after :: time
  te_dns :: "string list"
  te_ips :: "string list"

definition hosts_or :: "string \<Rightarrow> string list \<Rightarrow> string list" where
  "hosts_or hostname hs = (if hs = [] then [if hostname = [] then ''localhost'' else hostname] else hs)"

definition is_ip :: "string \<Rightarrow> bool" where "is_ip h \<longleftrightarrow> parse_ip4 h \<or> parse_ip6 h"

definition template :: "string \<Rightarrow> (time \<Rightarrow> time) \<Rightarrow> time \<Rightarrow> string list \<Rightarrow> cert_template" where
  "template hostname ten_years_later now hs =
     (let hs = hosts_or hostname hs in
      \<lparr>te_common_name = hd hs, te_organization = ''sha256-stratum-proxy'', te_not_before = now - hour, te_not_after = ten_years_later now,
       te_dns = filter (\<lambda>h. \<not> is_ip h) hs, te_ips = filter is_ip hs\<rparr>)"

subsection \<open>Installing a pair\<close>

type_synonym dir = "(string, string) gomap"

text \<open>A temporary file: its name is chosen by the system. If a write fails it is removed, unless that fails too.\<close>

datatype temp_outcome = TempWritten | TempFails | TempStays string

definition write_temp :: "string \<Rightarrow> string \<Rightarrow> temp_outcome \<Rightarrow> dir \<Rightarrow> bool \<times> dir" where
  "write_temp name data out d =
     (case out of TempWritten \<Rightarrow> (True, put name data d) | TempFails \<Rightarrow> (False, d) | TempStays part \<Rightarrow> (False, put name part d))"

definition rename_file :: "string \<Rightarrow> string \<Rightarrow> bool \<Rightarrow> dir \<Rightarrow> bool \<times> dir" where
  "rename_file a b ok d = (case map_of d a of Some data \<Rightarrow> if ok then (True, put b data (del a d)) else (False, d) | None \<Rightarrow> (False, d))"

definition remove_file :: "string \<Rightarrow> bool \<Rightarrow> dir \<Rightarrow> bool \<times> dir" where
  "remove_file a ok d = (if \<not> has_key d a then (True, d) else if ok then (True, del a d) else (False, d))"

record pair_env =
  pe_key_temp :: string
  pe_cert_temp :: string
  pe_key_written :: temp_outcome
  pe_cert_written :: temp_outcome
  pe_key_installed :: bool
  pe_cert_installed :: bool
  pe_removed :: bool
  pe_temp_removed :: bool

datatype pair_error = StageFails | InstallKey | InstallCert | RemovePartial

text \<open>The deferred removals run when the function returns; a name that was renamed away is not removed.\<close>

definition write_pair :: "pair_env \<Rightarrow> string \<Rightarrow> string \<Rightarrow> string \<Rightarrow> string \<Rightarrow> dir \<Rightarrow> pair_error option \<times> dir" where
  "write_pair env cert_file cert key_file key d =
     (let cleanup = (\<lambda>a d. snd (remove_file a (pe_temp_removed env) d)) in
      case write_temp (pe_key_temp env) key (pe_key_written env) d of
        (False, d) \<Rightarrow> (Some StageFails, d)
      | (True, d) \<Rightarrow>
          (case write_temp (pe_cert_temp env) cert (pe_cert_written env) d of
             (False, d) \<Rightarrow> (Some StageFails, cleanup (pe_key_temp env) d)
           | (True, d) \<Rightarrow>
               (case rename_file (pe_key_temp env) key_file (pe_key_installed env) d of
                  (False, d) \<Rightarrow> (Some InstallKey, cleanup (pe_key_temp env) (cleanup (pe_cert_temp env) d))
                | (True, d) \<Rightarrow>
                    (case rename_file (pe_cert_temp env) cert_file (pe_cert_installed env) d of
                       (True, d) \<Rightarrow> (None, d)
                     | (False, d) \<Rightarrow>
                         (case remove_file key_file (pe_removed env) d of
                            (ok, d) \<Rightarrow> (Some (if ok then InstallCert else RemovePartial), cleanup (pe_cert_temp env) d))))))"

subsection \<open>A failed installation leaves nothing\<close>

definition fresh_names :: "pair_env \<Rightarrow> string \<Rightarrow> string \<Rightarrow> dir \<Rightarrow> bool" where
  "fresh_names env cert_file key_file d \<longleftrightarrow>
     distinct [pe_key_temp env, pe_cert_temp env, cert_file, key_file] \<and> \<not> has_key d (pe_key_temp env) \<and> \<not> has_key d (pe_cert_temp env)"

text \<open>C27: installing a generated pair is all or nothing: if neither file existed, then afterwards both hold the new pair, or
  an error is reported and neither exists, unless the key could not be removed again, which is reported as such.\<close>

theorem pair_all_or_nothing:
  assumes "fresh_names env cert_file key_file d" "map_of d cert_file = None" "map_of d key_file = None"
    and "write_pair env cert_file cert key_file key d = (r, d')"
  shows "case r of
      None \<Rightarrow> map_of d' cert_file = Some cert \<and> map_of d' key_file = Some key \<and> map_of d' (pe_key_temp env) = None \<and> map_of d' (pe_cert_temp env) = None
    | Some RemovePartial \<Rightarrow> map_of d' cert_file = None \<and> \<not> pe_removed env
    | Some _ \<Rightarrow> map_of d' cert_file = None \<and> map_of d' key_file = None"
proof -
  have n: "pe_key_temp env \<noteq> pe_cert_temp env" "pe_key_temp env \<noteq> cert_file" "pe_key_temp env \<noteq> key_file" "pe_cert_temp env \<noteq> cert_file"
    "pe_cert_temp env \<noteq> key_file" "cert_file \<noteq> key_file" "map_of d (pe_key_temp env) = None" "map_of d (pe_cert_temp env) = None"
    using assms(1) by (auto simp: fresh_names_def has_key_def map_of_eq_None_iff)
  note simps = write_pair_def write_temp_def rename_file_def remove_file_def Let_def
  show ?thesis
  proof (cases "pe_key_written env = TempWritten \<and> pe_cert_written env = TempWritten")
    case True
    then show ?thesis using assms(2-4) n by (auto simp: simps split: if_splits)
  next
    case False
    then show ?thesis using assms(2-4) n by (auto simp: simps split: if_splits temp_outcome.splits)
  qed
qed

theorem pair_all_or_nothing_witness:
  "\<exists>r d'. write_pair \<lparr>pe_key_temp = ''k1'', pe_cert_temp = ''c1'', pe_key_written = TempWritten, pe_cert_written = TempWritten, pe_key_installed = True,
      pe_cert_installed = False, pe_removed = True, pe_temp_removed = True\<rparr> ''cert.pem'' ''C'' ''key.pem'' ''K'' [] = (Some r, d') \<and>
    map_of d' ''cert.pem'' = None \<and> map_of d' ''key.pem'' = None"
proof -
  let ?env = "\<lparr>pe_key_temp = ''k1'', pe_cert_temp = ''c1'', pe_key_written = TempWritten, pe_cert_written = TempWritten, pe_key_installed = True,
      pe_cert_installed = False, pe_removed = True, pe_temp_removed = True\<rparr>"
  obtain r d' where w: "write_pair ?env ''cert.pem'' ''C'' ''key.pem'' ''K'' [] = (r, d')" by fastforce
  have f: "fresh_names ?env ''cert.pem'' ''key.pem'' []" by (simp add: fresh_names_def has_key_def)
  have "r = Some InstallCert" using w by (auto simp: write_pair_def write_temp_def rename_file_def remove_file_def has_key_def split: if_splits)
  then show ?thesis using pair_all_or_nothing [OF f _ _ w] w by auto
qed

text \<open>The files are looked at rarely, and a change that does not load keeps the certificate.\<close>

lemma certificate_checked_rarely:
  "get_certificate now seen fs c = ((l, True), c') \<Longrightarrow> time_sub later now < reload_check_interval \<Longrightarrow>
     get_certificate later seen' fs' c' = ((l, False), c')"
  by (auto simp: get_certificate_def reload_certs_def Let_def split: if_splits file_stat.splits option.splits)

lemma broken_change_keeps: "tf_pair fs = None \<Longrightarrow> ce_cert (snd (get_certificate now seen fs c)) = ce_cert c"
  by (auto simp: get_certificate_def reload_certs_def Let_def split: file_stat.split)

lemma change_is_served:
  assumes "\<not> time_sub now (ce_last_check c) < reload_check_interval" "tf_cert_stat seen = ModifiedAt tc" "tf_key_stat seen = ModifiedAt tk"
    "tc \<noteq> ce_cert_mod c \<or> tk \<noteq> ce_key_mod c" "tf_pair seen = Some l"
  shows "fst (get_certificate now seen seen c) = (l, True)"
  using assms by (simp add: get_certificate_def changed_since_def reload_certs_def Let_def)

end
