(* ===== verification/Controls.thy ===== *)
theory Controls
  imports Proxy
begin

text \<open>
  Package \<open>telegram\<close>, \<open>controls.go\<close> and the commands of \<open>telegram.go\<close>: the screens of the bot with their buttons,
  and what a tap on a button does.

  \<^item> \<open>screen\<close> and the functions below it build the text and the buttons of each screen.
  \<^item> \<open>handle_callback\<close> is \<open>handleCallback\<close>: access, the one current confirmation of a chat, and the action.
    \<open>callback_env\<close> holds what it gets from outside: the clock, the random code, the outcomes of the requests, of
    the check of a pool and of the write of the state. \<open>handle_update\<close> is \<open>handle\<close>.

  The lemmas show that the farm changes by a tap only after a confirmation that this user asked for in this
  message at most two minutes before, once; that only three settings can change this way; that the pages
  of the pools show each pool once; and that Telegram and the bot take the data of every button.
\<close>

record button =
  bu_text :: string
  bu_data :: string

type_synonym rows = "button list list"

definition ui :: "texts \<Rightarrow> string \<Rightarrow> string" where "ui tx k = tx_ui tx k []"

definition navigation :: "texts \<Rightarrow> rows" where
  "navigation tx =
     [[\<lparr>bu_text = ui tx ''status'', bu_data = ''status''\<rparr>, \<lparr>bu_text = ui tx ''pools'', bu_data = ''pools:0''\<rparr>],
      [\<lparr>bu_text = ui tx ''automation'', bu_data = ''auto''\<rparr>, \<lparr>bu_text = ui tx ''events'', bu_data = ''events''\<rparr>],
      [\<lparr>bu_text = ui tx ''miners'', bu_data = ''miners''\<rparr>, \<lparr>bu_text = ui tx ''help'', bu_data = ''help''\<rparr>]]"

text \<open>\<open>strconv.Atoi\<close> with its error dropped: 0 for text that is not a number, the nearest limit for one out of
  range.\<close>

definition atoi_value :: "string \<Rightarrow> int" where
  "atoi_value s =
     (let neg = has_prefix s ''-''; t = (if neg \<or> has_prefix s ''+'' then tl s else s)
      in if t = [] \<or> \<not> list_all is_digit t then 0
         else max (- (2 ^ 63)) (min (2 ^ 63 - 1) (if neg then - int (digits_val t) else int (digits_val t))))"

subsection \<open>The list of pools\<close>

definition page_size :: nat where "page_size = 6"

definition page_count :: "'a list \<Rightarrow> nat" where
  "page_count ps = (length ps + page_size - 1) div page_size"

definition page_of :: "int \<Rightarrow> 'a list \<Rightarrow> nat" where
  "page_of i ps = nat (max 0 (min i (int (page_count ps) - 1)))"

definition page_items :: "nat \<Rightarrow> 'a list \<Rightarrow> 'a list" where
  "page_items k ps = take (page_size) (drop (k * page_size) ps)"

text \<open>The marks of a pool are named, since they are not ASCII.\<close>

definition pool_label :: "texts \<Rightarrow> status \<Rightarrow> bool \<Rightarrow> pool \<Rightarrow> string" where
  "pool_label tx st active p =
     (if active then tx_text tx ''selected'' [] else []) @
     (case st of Up \<Rightarrow> tx_text tx ''green'' [] | Down \<Rightarrow> tx_text tx ''red'' [] | Unknown \<Rightarrow> tx_text tx ''white'' []) @ '' '' @ p_name p @
     (if p_coin p \<noteq> [] then tx_text tx ''dot'' [] @ p_coin p else []) @ (if p_solo p then tx_text tx ''dot'' [] @ tx_text tx ''solo'' [] else [])"

definition pager :: "texts \<Rightarrow> nat \<Rightarrow> nat \<Rightarrow> button list" where
  "pager tx page pages =
     (if 0 < page then [\<lparr>bu_text = tx_text tx ''previous'' [], bu_data = ''pools:'' @ itoa (int page - 1)\<rparr>] else []) @
     (if page + 1 < pages then [\<lparr>bu_text = tx_text tx ''next'' [], bu_data = ''pools:'' @ itoa (int page + 1)\<rparr>] else [])"

definition name_or_none :: "texts \<Rightarrow> snapshot \<Rightarrow> string \<Rightarrow> string" where
  "name_or_none tx s i = (case snap_get s i of Some p \<Rightarrow> html_escape (p_name p) | None \<Rightarrow> tx_text tx ''noPool'' [])"

definition pool_rows :: "texts \<Rightarrow> manager \<Rightarrow> nat \<Rightarrow> rows" where
  "pool_rows tx m page =
     map (\<lambda>p. [\<lparr>bu_text = pool_label tx (pool_status m (p_id p)) (p_id p = sn_active (m_snap m)) p, bu_data = ''switch:'' @ p_id p\<rparr>])
       (page_items page (sn_pools (m_snap m)))"

definition pools_screen :: "texts \<Rightarrow> int \<Rightarrow> manager \<Rightarrow> string \<times> rows" where
  "pools_screen tx i m =
     (let s = m_snap m; ps = sn_pools s in
      if ps = [] then (ui tx ''noPools'', navigation tx)
      else
        (let page = page_of i ps; pages = page_count ps;
             text = tx_ui tx ''choosePool'' [name_or_none tx s (sn_active s), name_or_none tx s (effective m)];
             text = (if 1 < pages then text @ [newline] @ itoa (int page + 1) @ '' / '' @ itoa (int pages) else text)
         in (text, pool_rows tx m page @ (if 1 < pages then [pager tx page pages] else []) @ navigation tx)))"

subsection \<open>The screen of the automatic modes\<close>

text \<open>The first \<open>n\<close> runes of valid UTF-8, as bytes.\<close>

fun take_runes :: "nat \<Rightarrow> string \<Rightarrow> string" where
  "take_runes n [] = []"
| "take_runes n (c # s) =
     (if 128 \<le> byte c \<and> byte c < 192 then c # take_runes n s else case n of 0 \<Rightarrow> [] | Suc k \<Rightarrow> c # take_runes k s)"

definition short_text :: "string \<Rightarrow> nat \<Rightarrow> string" where
  "short_text s limit = (if limit < rune_count s then take_runes limit s @ [CHR 0xE2, CHR 0x80, CHR 0xA6] else s)"

definition mark :: "texts \<Rightarrow> string \<Rightarrow> string \<Rightarrow> string \<Rightarrow> string" where
  "mark tx label cur value = (if cur = value then tx_text tx ''selected'' [] @ label else label)"

definition mode_button :: "texts \<Rightarrow> string \<Rightarrow> string \<Rightarrow> string \<Rightarrow> string \<Rightarrow> button" where
  "mode_button tx label key cur value =
     \<lparr>bu_text = mark tx (ui tx label) cur value, bu_data = ''mode:'' @ key @ '':'' @ value\<rparr>"

definition mode_rows :: "texts \<Rightarrow> settings_values \<Rightarrow> rows" where
  "mode_rows tx v =
     [[mode_button tx ''profitOff'' ''profit_switch'' (v_profit_switch v) ''off'',
       mode_button tx ''advise'' ''profit_switch'' (v_profit_switch v) ''advise'',
       mode_button tx ''profitAuto'' ''profit_switch'' (v_profit_switch v) ''auto''],
      [mode_button tx ''timerOn'' ''timed_switch'' (v_timed_switch v) ''on'', mode_button tx ''timerOff'' ''timed_switch'' (v_timed_switch v) ''off''],
      [mode_button tx ''huntOn'' ''hunt_switch'' (v_hunt_switch v) ''on'', mode_button tx ''huntOff'' ''hunt_switch'' (v_hunt_switch v) ''off'']]"

text \<open>Texts of errors of the API are named by their key.\<close>

definition api_error_text :: "texts \<Rightarrow> api_error \<Rightarrow> string" where
  "api_error_text tx e = tx_text tx (msg_key (ae_msg e)) []"

definition problem_line :: "texts \<Rightarrow> bot \<Rightarrow> string option \<Rightarrow> string list" where
  "problem_line tx b e = (case e of None \<Rightarrow> [] | Some s \<Rightarrow> [tx_ui tx ''problem'' [html_escape (short_text (redact s b) 200)]])"

definition target_line :: "texts \<Rightarrow> snapshot \<Rightarrow> string \<Rightarrow> string \<Rightarrow> string list" where
  "target_line tx s i label = (case snap_get s i of None \<Rightarrow> [] | Some p \<Rightarrow> [tx_ui tx label [html_escape (p_name p)]])"

definition timed_lines :: "texts \<Rightarrow> time \<Rightarrow> snapshot \<Rightarrow> bot \<Rightarrow> timed_status \<Rightarrow> string list" where
  "timed_lines tx now s b st =
     target_line tx s (ts_target st) ''timerTarget'' @ target_line tx s (hs_target (ts_hunt st)) ''huntTarget'' @
     (if ts_target st = [] then [ui tx ''noTimerTarget''] else []) @
     (if hs_target (ts_hunt st) = [] then [ui tx ''noHuntTarget''] else []) @
     (if ts_waiting st then [ui tx ''timerWaiting''] else []) @
     (case ts_next st of None \<Rightarrow> [] | Some t \<Rightarrow> [tx_ui tx ''timerNext'' [show_span tx (time_sub t now)]]) @
     problem_line tx b (map_option (api_error_text tx) (ts_error st)) @
     problem_line tx b (map_option (api_error_text tx) (hs_error (ts_hunt st)))"

definition profit_error_text :: "texts \<Rightarrow> profit_error \<Rightarrow> string" where
  "profit_error_text tx e =
     (case e of NoMarket _ \<Rightarrow> tx_text tx ''profit_no_market'' [] | NoMarketFor c \<Rightarrow> tx_text tx ''profit_no_market_for'' [c]
      | MainPoolDown n \<Rightarrow> tx_text tx ''profit_home_down'' [n] | SwitchRefused a \<Rightarrow> api_error_text tx a)"

definition profit_lines :: "texts \<Rightarrow> time \<Rightarrow> bot \<Rightarrow> report option \<Rightarrow> string list" where
  "profit_lines tx now b r =
     (case r of None \<Rightarrow> []
      | Some r \<Rightarrow>
          (if rp_best r = [] then []
           else [tx_ui tx ''profitReport'' [html_escape (rp_best r), tx_real tx 1 (rp_advantage r), show_span tx (time_sub now (rp_at r))]]) @
          problem_line tx b (map_option (profit_error_text tx) (rp_error r)))"

definition auto_summary :: "texts \<Rightarrow> settings_values \<Rightarrow> string" where
  "auto_summary tx v = tx_ui tx ''autoSummary'' [ui tx (v_profit_switch v), ui tx (v_timed_switch v), ui tx (v_hunt_switch v)]"

definition auto_screen :: "(real \<Rightarrow> real) \<Rightarrow> texts \<Rightarrow> time \<Rightarrow> proxy \<Rightarrow> (string \<times> rows) \<times> proxy" where
  "auto_screen gamma tx now px =
     (let v = px_values px; (st, px') = timed_status_px gamma now px;
          rep = st_report (profit_status_of v now (fa_profit (px_farm px)));
          ls = [ui tx ''autoTitle'', auto_summary tx v,
                tx_ui tx ''profitSchedule'' [show_span tx (v_profit_interval v), itoa (v_profit_margin v)],
                tx_ui tx ''timerSchedule'' [show_span tx (v_timed_duration v), show_span tx (v_timed_period v)]] @
               timed_lines tx now (m_snap (px_manager px)) (px_bot px) st @ profit_lines tx now (px_bot px) rep @ [[], ui tx ''autoHelp'']
      in ((fold add_line ls [], mode_rows tx v @ navigation tx), px'))"

subsection \<open>Events, the farm, the other screens\<close>

definition shown_event :: "event \<Rightarrow> bool" where
  "shown_event e \<longleftrightarrow>
     \<not> has_prefix (ev_type e) ''telegram_'' \<and>
     (ev_level e \<noteq> Info \<or> ev_type e \<in> {''pool_switched'', ''pool_up'', ''settings_changed'', ''failback''} \<or>
      has_prefix (ev_type e) ''timed_'' \<or> has_prefix (ev_type e) ''hunt_'' \<or> has_prefix (ev_type e) ''profit_'')"

definition event_item :: "texts \<Rightarrow> bot \<Rightarrow> event \<Rightarrow> string" where
  "event_item tx b e =
     tx_text tx ''event'' [if ev_level e = Info then ''change'' else ''warning'', tx_time tx (ev_time e),
       html_escape (short_text (redact (ev_message e) b) 180)]"

definition events_text :: "texts \<Rightarrow> proxy \<Rightarrow> string" where
  "events_text tx px =
     (let items = map (event_item tx (px_bot px)) (take 8 (filter shown_event (list_events 0 (px_log px))));
          m = add_line (ui tx ''eventsTitle'') [];
          m = (if items = [] then add_line (ui tx ''noEvents'') m else m)
      in add_list (tx_more tx) items m)"

definition silent_item :: "texts \<Rightarrow> time \<Rightarrow> miner \<Rightarrow> string" where
  "silent_item tx now mn =
     tx_offline_line tx (html_escape (mr_name mn)) (show_span tx (time_sub now (mr_last_share mn))) (html_escape (mr_pool mn))"

definition pool_line :: "texts \<Rightarrow> farm_line \<Rightarrow> string" where
  "pool_line tx f =
     (let about = (if fl_coin f = [] then [] else [html_escape (fl_coin f)]) @ (if fl_solo f then [tx_text tx ''solo'' []] else []);
          p = (if fl_pool f = [] then tx_text tx ''noPool'' []
               else html_escape (fl_pool f) @ (if about = [] then [] else '' ('' @ join '', '' about @ '')''))
      in tx_text tx ''pool'' [p, tx_text tx (fl_mode f) []])"

definition last_switch_line :: "texts \<Rightarrow> time \<Rightarrow> manager \<Rightarrow> string list" where
  "last_switch_line tx now m =
     (case m_last_switch m of None \<Rightarrow> []
      | Some sw \<Rightarrow>
          (let name = (\<lambda>i. html_escape (snap_name (m_snap m) i));
               reason = (if tx_ui tx (sw_reason sw) [] = [] then html_escape (sw_reason sw) else ui tx (sw_reason sw))
           in [tx_ui tx ''lastSwitch'' [name (sw_from sw), name (sw_to sw), reason, show_span tx (time_sub now (sw_at sw))]]))"

definition hunt_text :: "texts \<Rightarrow> hunt_line \<Rightarrow> string" where
  "hunt_text tx h =
     (if 0 < hl_for h then tx_text tx ''huntOn'' [html_escape (hl_pool h), show_span tx (hl_for h)]
      else if \<not> hl_live h then tx_text tx ''huntBlind'' []
      else tx_text tx ''huntWait'' [tx_real tx (if hl_hard h < 10 then 1 else 0) (hl_hard h)]) @
     (if 0 < hl_stints h then tx_text tx ''huntDay'' [show_span tx (hl_time h), itoa (int (hl_stints h))] else [])"

definition percent_of :: "texts \<Rightarrow> 64 word \<Rightarrow> 64 word \<Rightarrow> string" where
  "percent_of tx part tot =
     (if tot = 0 then ''0%''
      else (let p = real (unat part) / real (unat tot) * 100
            in tx_real tx (if 10 \<le> p \<or> p = real_of_int \<lfloor>p\<rfloor> then 0 else 2) p @ ''%''))"

fun scale_rate :: "string list \<Rightarrow> real \<Rightarrow> real \<times> string" where
  "scale_rate [] x = (x, [])"
| "scale_rate [u] x = (x, u)"
| "scale_rate (u # w # us) x = (if 1000 \<le> x then scale_rate (w # us) (x / 1000) else (x, u))"

definition show_hashrate :: "texts \<Rightarrow> real \<Rightarrow> string" where
  "show_hashrate tx h =
     (case scale_rate [''H/s'', ''kH/s'', ''MH/s'', ''GH/s'', ''TH/s'', ''PH/s'', ''EH/s''] h of
        (x, u) \<Rightarrow> tx_real tx (if 100 \<le> x \<or> x = 0 then 0 else if 10 \<le> x then 1 else 2) x @ '' '' @ u)"

definition summary_text :: "(real \<Rightarrow> real) \<Rightarrow> texts \<Rightarrow> time \<Rightarrow> time \<Rightarrow> miner list \<Rightarrow> proxy \<Rightarrow> string \<times> proxy" where
  "summary_text gamma tx started now asics px =
     (let (f, px') = farm_summary gamma started now px;
          silent = map (silent_item tx now) (filter (\<lambda>mn. \<not> mr_online mn) asics);
          ls = [tx_text tx ''summary'' [], tx_text tx ''hashrate'' [show_hashrate tx (fl_hashrate f)],
                tx_text tx ''asics'' [itoa (int (length (filter mr_online asics))), itoa (int (length asics))],
                pool_line tx f, auto_summary tx (px_values px)] @ last_switch_line tx now (px_manager px) @
               (case fl_timer f of None \<Rightarrow> [] | Some (p, left) \<Rightarrow> [tx_text tx ''timer'' [html_escape p, show_span tx left]]) @
               (case fl_hunt f of None \<Rightarrow> [] | Some h \<Rightarrow> [hunt_text tx h]) @
               [tx_text tx ''shares'' [show_span tx (fl_uptime f), show_nat (unat (fl_accepted f)), show_nat (unat (fl_rejected f)),
                  percent_of tx (fl_rejected f) (fl_accepted f + fl_rejected f)]];
          m = fold add_line ls []
      in ((if silent = [] then m else add_list (tx_more tx) silent (add_line (tx_text tx ''silent'' []) (add_line [] m))), px'))"

text \<open>What a screen needs beside the proxy: when it started, the clock and the ASICs of the monitor.\<close>

record view_env =
  ve_gamma :: "real \<Rightarrow> real"
  ve_texts :: "string \<Rightarrow> texts"
  ve_started :: time
  ve_now :: time
  ve_miners :: "miner list"

definition texts_px :: "view_env \<Rightarrow> proxy \<Rightarrow> texts" where
  "texts_px ve px = ve_texts ve (v_telegram_language (px_values px))"

definition screen :: "view_env \<Rightarrow> string \<Rightarrow> proxy \<Rightarrow> (string \<times> rows) \<times> proxy" where
  "screen ve action px =
     (let tx = texts_px ve px; now = ve_now ve in
      if action = ''status'' then (case summary_text (ve_gamma ve) tx (ve_started ve) now (ve_miners ve) px of (t, px') \<Rightarrow> ((t, navigation tx), px'))
      else if action = ''miners'' then ((miners_text tx now (ve_miners ve), navigation tx), px)
      else if action = ''pools'' \<or> has_prefix action ''pools:'' then
        (pools_screen tx (atoi_value (trim_prefix action ''pools:'')) (px_manager px), px)
      else if action = ''auto'' then auto_screen (ve_gamma ve) tx now px
      else if action = ''events'' then ((events_text tx px, navigation tx), px)
      else ((tx_help tx, navigation tx), px))"

subsection \<open>Taps\<close>

text \<open>Only these modes may be changed by callback data.\<close>

definition mode_change :: "string \<Rightarrow> (string \<times> string) option" where
  "mode_change action =
     (case split_on CHR '':'' action of
        [a, key, value] \<Rightarrow>
          if a = ''mode'' \<and> (key = ''profit_switch'' \<and> value \<in> {''off'', ''advise'', ''auto''} \<or>
               key \<in> {''timed_switch'', ''hunt_switch''} \<and> value \<in> {''off'', ''on''})
          then Some (key, value) else None
      | _ \<Rightarrow> None)"

definition arrow :: string where "arrow = [CHR '' '', CHR 0xE2, CHR 0x86, CHR 0x92, CHR '' '']"

definition mode_value :: "string \<Rightarrow> settings_values \<Rightarrow> string" where
  "mode_value key v =
     (if key = ''profit_switch'' then v_profit_switch v else if key = ''timed_switch'' then v_timed_switch v else v_hunt_switch v)"

record callback_env =
  ce_view :: view_env
  ce_later :: time
  ce_code :: string
  ce_answer :: http_outcome
  ce_stopped :: bool
  ce_checking :: "bot_error option"
  ce_checks :: "addr_result list"
  ce_during :: "manager \<Rightarrow> manager"
  ce_write :: bool
  ce_shuffle :: "nat list \<Rightarrow> nat list"
  ce_say :: event_writer
  ce_reply :: "bot_error option"

datatype bot_call = Answer string string bool | Edit int int string rows | Post int string "rows option"

definition bot_fails :: "failure_kind \<Rightarrow> string \<Rightarrow> time \<Rightarrow> proxy \<Rightarrow> proxy" where
  "bot_fails k e now px =
     (case fail_bot k e (px_bot px) of (ev, b) \<Rightarrow>
        px\<lparr>px_bot := b,
           px_log := snd (throttled (case k of Polling \<Rightarrow> ''telegram:0'' | Sending \<Rightarrow> ''telegram:1'') (10 * minute) ''telegram_error'' ev now (px_log px))\<rparr>)"

lemma bot_fails_simps [simp]:
  "px_farm (bot_fails k e now px) = px_farm px" "px_settings (bot_fails k e now px) = px_settings px"
  "bt_pending (px_bot (bot_fails k e now px)) = bt_pending (px_bot px)" "bt_token (px_bot (bot_fails k e now px)) = bt_token (px_bot px)"
  by (cases k; simp add: bot_fails_def fail_bot_def fail_as_def update_as_def set_err_def Let_def)+

text \<open>\<open>answerCallback\<close>.\<close>

definition answer_callback :: "callback_env \<Rightarrow> string \<Rightarrow> proxy \<Rightarrow> proxy" where
  "answer_callback env text px =
     (case call_bot ''answerCallbackQuery'' (ce_answer env) (px_bot px) of
        Inr _ \<Rightarrow> px
      | Inl e \<Rightarrow> if ce_stopped env then px else bot_fails Sending (bot_error_text e) (ve_now (ce_view env)) px)"

text \<open>\<open>confirmation\<close>.\<close>

definition ask_confirmation :: "callback_env \<Rightarrow> int \<Rightarrow> int \<Rightarrow> int \<Rightarrow> string \<Rightarrow> string \<Rightarrow> proxy \<Rightarrow> rows \<times> proxy" where
  "ask_confirmation env chat user mid action return px =
     (let tx = texts_px (ce_view env) px; b = px_bot px;
          c = \<lparr>cn_code = ce_code env, cn_action = action, cn_token = bt_token b, cn_user = user, cn_message = mid,
               cn_until = ve_now (ce_view env) + 2 * minute\<rparr>
      in ([[\<lparr>bu_text = ui tx ''confirm'', bu_data = ''confirm:'' @ ce_code env\<rparr>, \<lparr>bu_text = ui tx ''cancel'', bu_data = return\<rparr>]],
          px\<lparr>px_bot := b\<lparr>bt_pending := put chat c (bt_pending b)\<rparr>\<rparr>))"

text \<open>What is done about the confirmations of the chat: \<open>None\<close> when the tap is refused, else the action to take and
  whether it is confirmed. A confirmation is consumed before any request.\<close>

definition take_confirmation :: "time \<Rightarrow> int \<Rightarrow> int \<Rightarrow> int \<Rightarrow> string \<Rightarrow> bot \<Rightarrow> (string \<times> bool) option \<times> bot" where
  "take_confirmation now chat user mid action b =
     (case map_of (bt_pending b) chat of
        None \<Rightarrow> (if has_prefix action ''confirm:'' then None else Some (action, False), b)
      | Some c \<Rightarrow>
          if has_prefix action ''confirm:'' then
            (if cn_token c \<noteq> bt_token b \<or> cn_code c \<noteq> trim_prefix action ''confirm:'' \<or> cn_user c \<noteq> user \<or> cn_message c \<noteq> mid \<or>
                \<not> now < cn_until c then (None, b)
             else (Some (cn_action c, True), b\<lparr>bt_pending := del chat (bt_pending b)\<rparr>))
          else (Some (action, False),
                if cn_user c = user \<and> cn_message c = mid then b\<lparr>bt_pending := del chat (bt_pending b)\<rparr> else b))"

text \<open>A switch. \<open>None\<close> as the message: the message that the check runs was not sent, and the tap ends there.\<close>

definition switch_action ::
  "callback_env \<Rightarrow> int \<Rightarrow> int \<Rightarrow> int \<Rightarrow> string \<Rightarrow> bool \<Rightarrow> proxy \<Rightarrow> (string \<times> rows) option \<times> bot_call list \<times> proxy" where
  "switch_action env chat user mid action confirmed px =
     (let tx = texts_px (ce_view env) px; v = px_values px; i = trim_prefix action ''switch:''; m = px_manager px; now = ve_now (ce_view env) in
      case snap_get (m_snap m) i of
        None \<Rightarrow> (Some (ui tx ''expired'', navigation tx), [], px)
      | Some p \<Rightarrow>
          if sn_active (m_snap m) = i then (Some (pools_screen tx 0 m), [], px)
          else if \<not> confirmed then
            (let text = tx_ui tx ''confirmSwitch'' [html_escape (p_name p), show_span tx (v_switch_drain v)];
                 text = (if v_profit_switch v = profit_auto \<or> v_timed_switch v = timed_on \<or> v_hunt_switch v = hunt_on
                         then text @ [newline, newline] @ ui tx ''autoWarning'' else text);
                 (rows, px') = ask_confirmation env chat user mid action ''pools:0'' px
             in (Some (text, rows), [], px'))
          else
            (let checking = Edit chat mid (tx_ui tx ''checking'' [html_escape (p_name p)]) [] in
             case ce_checking env of
               Some e \<Rightarrow> (None, [checking], if ce_stopped env then px else bot_fails Sending (bot_error_text e) now px)
             | None \<Rightarrow>
                 (case activate i False ''manual'' None (ce_checks env) (ce_during env) (ce_write env) (ce_shuffle env) (ce_later env) m of
                    (r, evs, m') \<Rightarrow>
                      (let px1 = write_events (ce_say env) (ce_later env) evs (set_manager m' px) in
                       case r of
                         Inl e \<Rightarrow> (Some (tx_ui tx ''switchFailed'' [html_escape (short_text (redact (api_error_text tx e) (px_bot px)) 350)], navigation tx),
                                   [checking], px1)
                       | Inr n \<Rightarrow>
                           (Some (tx_ui tx ''switched'' [html_escape (p_name p), itoa (int n), show_span tx (v_switch_drain v)], navigation tx), [checking],
                            px1\<lparr>px_log := info ''telegram_control'' (''Telegram: user '' @ itoa user @ '' in chat '' @ itoa chat @ '' switched to pool '' @ i)
                                   (ce_later env) (px_log px1)\<rparr>)))))"

definition missing_target :: "callback_env \<Rightarrow> string \<Rightarrow> proxy \<Rightarrow> (string + string) \<times> proxy" where
  "missing_target env key px =
     (let tx = texts_px (ce_view env) px; (st, px') = timed_status_px (ve_gamma (ce_view env)) (ve_now (ce_view env)) px;
          hunt = (key = ''hunt_switch'')
      in (case snap_get (m_snap (px_manager px)) (if hunt then hs_target (ts_hunt st) else ts_target st) of
            None \<Rightarrow> Inl (ui tx (if hunt then ''noHuntTarget'' else ''noTimerTarget''))
          | Some p \<Rightarrow> Inr ([newline, newline] @ tx_ui tx (if hunt then ''huntTarget'' else ''timerTarget'') [html_escape (p_name p)]), px'))"

definition mode_action ::
  "callback_env \<Rightarrow> int \<Rightarrow> int \<Rightarrow> int \<Rightarrow> string \<Rightarrow> bool \<Rightarrow> proxy \<Rightarrow> (string \<times> rows) \<times> proxy" where
  "mode_action env chat user mid action confirmed px =
     (let tx = texts_px (ce_view env) px; v = px_values px; now = ve_now (ce_view env); gamma = ve_gamma (ce_view env) in
      case mode_change action of
        None \<Rightarrow> ((ui tx ''unavailable'', navigation tx), px)
      | Some (key, value) \<Rightarrow>
          if \<not> confirmed then
            (if mode_value key v = value then auto_screen gamma tx now px
             else
               (let text = tx_ui tx ''confirmMode'' [ui tx key, ui tx value] in
                if value = ''on'' then
                  (case missing_target env key px of
                     (Inl why, px') \<Rightarrow> ((why, navigation tx), px')
                   | (Inr about, px') \<Rightarrow> (case ask_confirmation env chat user mid action ''auto'' px' of (rows, px'') \<Rightarrow> ((text @ about, rows), px'')))
                else (case ask_confirmation env chat user mid action ''auto'' px of (rows, px') \<Rightarrow> ((text, rows), px'))))
          else
            (case save_in [(key, JStr value)] (ce_write env) px of
               (Inl e, px') \<Rightarrow>
                 ((tx_ui tx ''saveFailed'' [html_escape (short_text (redact (api_error_text tx (persist_err e)) (px_bot px)) 350)], navigation tx), px')
             | (Inr p, px') \<Rightarrow>
                 (let px1 = px'\<lparr>px_log := fold (\<lambda>c. info ''settings_changed'' (''settings changed: '' @ ch_key c @ '' '' @ ch_old c @ arrow @ ch_new c @
                              '' (Telegram user '' @ itoa user @ '', chat '' @ itoa chat @ '')'') now) (pe_changes p) (px_log px')\<rparr>
                  in (case auto_screen gamma (texts_px (ce_view env) px) now px1 of
                        ((text, rows), px2) \<Rightarrow> ((ui tx ''saved'' @ [newline, newline] @ text, rows), px2)))))"

definition run_action ::
  "callback_env \<Rightarrow> int \<Rightarrow> int \<Rightarrow> int \<Rightarrow> string \<Rightarrow> bool \<Rightarrow> proxy \<Rightarrow> (string \<times> rows) option \<times> bot_call list \<times> proxy" where
  "run_action env chat user mid action confirmed px =
     (if has_prefix action ''switch:'' then switch_action env chat user mid action confirmed px
      else if has_prefix action ''mode:'' then
        (case mode_action env chat user mid action confirmed px of (r, px') \<Rightarrow> (Some r, [], px'))
      else (case screen (ce_view env) action px of (r, px') \<Rightarrow> (Some r, [], px')))"

definition allowed_chat :: "proxy \<Rightarrow> int \<Rightarrow> bool" where
  "allowed_chat px i \<longleftrightarrow> i \<in> set (chat_ids (v_telegram_chats (px_values px)))"

definition handle_callback :: "callback_env \<Rightarrow> callback \<Rightarrow> proxy \<Rightarrow> bot_call list \<times> proxy" where
  "handle_callback env q px =
     (let tx = texts_px (ce_view env) px; now = ve_now (ce_view env);
          refuse = (\<lambda>key px. ([Answer (cb_id q) (ui tx key) (ui tx key \<noteq> [])], answer_callback env (ui tx key) px)) in
      case cb_message q of
        None \<Rightarrow> refuse ''denied'' px
      | Some msg \<Rightarrow>
          if cm_id msg \<le> 0 \<or> cb_from q \<le> 0 \<or> \<not> allowed_chat px (cm_chat msg) then refuse ''denied'' px
          else if 64 < length (cb_data q) then refuse ''expired'' px
          else (case take_confirmation now (cm_chat msg) (cb_from q) (cm_id msg) (cb_data q) (px_bot px) of
              (None, b) \<Rightarrow> refuse ''expired'' (px\<lparr>px_bot := b\<rparr>)
            | (Some (action, confirmed), b) \<Rightarrow>
                (let px1 = answer_callback env [] (px\<lparr>px_bot := b\<rparr>); answered = Answer (cb_id q) [] False in
                 if ce_stopped env then ([answered], px1)
                 else (case run_action env (cm_chat msg) (cb_from q) (cm_id msg) action confirmed px1 of
                     (None, calls, px2) \<Rightarrow> (answered # calls, px2)
                   | (Some (text, rows), calls, px2) \<Rightarrow>
                       (answered # calls @ [Edit (cm_chat msg) (cm_id msg) text rows],
                        case ce_reply env of None \<Rightarrow> px2
                        | Some e \<Rightarrow> bot_fails Sending (chat_error (cm_chat msg) e) now px2)))))"

subsection \<open>Commands\<close>

definition handle_message :: "view_env \<Rightarrow> bool \<Rightarrow> bot_error option \<Rightarrow> chat_message \<Rightarrow> proxy \<Rightarrow> bot_call list \<times> proxy" where
  "handle_message ve cancelled sent msg px =
     (let cmd = bot_command (cm_text msg) (bt_username (px_bot px)); chat = cm_chat msg; now = ve_now ve;
          finish = (\<lambda>px. case sent of None \<Rightarrow> px | Some e \<Rightarrow> if cancelled then px else bot_fails Sending (chat_error chat e) now px)
      in if cmd = [] then ([], px)
         else if \<not> allowed_chat px chat then
           (case deny_chat chat now (px_bot px) of
              (False, b) \<Rightarrow> ([], px\<lparr>px_bot := b\<rparr>)
            | (True, b) \<Rightarrow>
                (let name = (if cm_title msg = [] then ''@'' @ cm_username msg else cm_title msg);
                     px1 = px\<lparr>px_bot := b, px_log := snd (throttled (''telegram_denied:'' @ itoa chat) (10 * minute) ''telegram_denied''
                        (''Telegram: /'' @ cmd @ '' from chat '' @ itoa chat @ '' ('' @ name @ '') ignored: the chat is not in telegram_chats'') now (px_log px))\<rparr>
                 in ([Post chat (tx_denied (texts_px ve px) chat) None], finish px1)))
         else (case screen ve (if cmd = ''start'' then ''status'' else cmd) px of
             ((text, rows), px') \<Rightarrow> ([Post chat text (Some rows)], finish px')))"

definition handle_update :: "callback_env \<Rightarrow> bot_update \<Rightarrow> proxy \<Rightarrow> bot_call list \<times> proxy" where
  "handle_update env u px =
     (case up_callback u of
        Some q \<Rightarrow> handle_callback env q px
      | None \<Rightarrow> (case up_message u of None \<Rightarrow> ([], px)
          | Some msg \<Rightarrow> handle_message (ce_view env) (ce_stopped env) (ce_reply env) msg px))"

text \<open>A round of \<open>pollAs\<close>: a failure is recorded and pauses, else every message is handled.\<close>

definition poll_round ::
  "poll_net \<Rightarrow> (nat \<Rightarrow> callback_env) \<Rightarrow> string \<Rightarrow> time \<Rightarrow> int \<Rightarrow> duration \<Rightarrow> proxy \<Rightarrow> (duration option \<times> duration \<times> int) \<times> bot_call list \<times> proxy" where
  "poll_round net envs token now offset delay px =
     (case poll_bot (v_telegram_language (px_values px)) net token (px_bot px) of
        (r, ev, b) \<Rightarrow>
          (let px1 = px\<lparr>px_bot := b, px_log := (case ev of None \<Rightarrow> px_log px
                 | Some s \<Rightarrow> snd (throttled ''telegram_menu'' (10 * minute) ''telegram_error'' s now (px_log px)))\<rparr>
           in case r of
                Inl e \<Rightarrow> ((Some delay, poll_pause True delay, offset), [], bot_fails Polling (bot_error_text e) now px1)
              | Inr us \<Rightarrow>
                  (let px2 = px1\<lparr>px_bot := update_as token (set_err Polling []) (px_bot px1)\<rparr>;
                       (calls, px3) = fold (\<lambda>(k, u) (cs, px). case handle_update (envs k) u px of (c, px') \<Rightarrow> (cs @ c, px')) (enumerate 0 us) ([], px2)
                   in ((None, poll_pause False delay, next_offset offset us), calls, px3))))"

subsection \<open>What the screens leave alone\<close>

lemma auto_screen_simps [simp]:
  "px_manager (snd (auto_screen gamma tx now px)) = px_manager px" "px_settings (snd (auto_screen gamma tx now px)) = px_settings px"
  "px_bot (snd (auto_screen gamma tx now px)) = px_bot px"
  using timed_status_px_simps [of gamma now px] by (cases "timed_status_px gamma now px"; simp add: auto_screen_def Let_def)+

lemma summary_text_simps [simp]:
  "px_manager (snd (summary_text gamma tx started now ms px)) = px_manager px"
  "px_settings (snd (summary_text gamma tx started now ms px)) = px_settings px"
  "px_bot (snd (summary_text gamma tx started now ms px)) = px_bot px"
  using farm_summary_simps [of gamma started now px] by (cases "farm_summary gamma started now px"; simp add: summary_text_def Let_def)+

lemma screen_simps [simp]:
  "px_manager (snd (screen ve action px)) = px_manager px" "px_settings (snd (screen ve action px)) = px_settings px"
  "px_bot (snd (screen ve action px)) = px_bot px"
  using summary_text_simps [of "ve_gamma ve" "texts_px ve px" "ve_started ve" "ve_now ve" "ve_miners ve" px]
  by (cases "summary_text (ve_gamma ve) (texts_px ve px) (ve_started ve) (ve_now ve) (ve_miners ve) px"; simp add: screen_def Let_def)+

lemma missing_target_simps [simp]:
  "px_manager (snd (missing_target env key px)) = px_manager px" "px_settings (snd (missing_target env key px)) = px_settings px"
  "px_bot (snd (missing_target env key px)) = px_bot px"
  using timed_status_px_simps [of "ve_gamma (ce_view env)" "ve_now (ce_view env)" px]
  by (cases "timed_status_px (ve_gamma (ce_view env)) (ve_now (ce_view env)) px"; simp add: missing_target_def Let_def)+

lemma answer_callback_simps [simp]:
  "px_farm (answer_callback env text px) = px_farm px" "px_settings (answer_callback env text px) = px_settings px"
  "bt_pending (px_bot (answer_callback env text px)) = bt_pending (px_bot px)"
  "bt_token (px_bot (answer_callback env text px)) = bt_token (px_bot px)"
  by (simp_all add: answer_callback_def split: sum.split)

definition unchanged :: "proxy \<Rightarrow> proxy \<Rightarrow> bool" where
  "unchanged px px' \<longleftrightarrow> px_manager px' = px_manager px \<and> px_settings px' = px_settings px"

text \<open>The confirmation a tap asks for.\<close>

definition asked :: "callback_env \<Rightarrow> int \<Rightarrow> int \<Rightarrow> string \<Rightarrow> proxy \<Rightarrow> confirmation" where
  "asked env user mid action px =
     \<lparr>cn_code = ce_code env, cn_action = action, cn_token = bt_token (px_bot px), cn_user = user, cn_message = mid,
      cn_until = ve_now (ce_view env) + 2 * minute\<rparr>"

lemma ask_confirmation_simps:
  "ask_confirmation env chat user mid action return px = (rows, px') \<Longrightarrow>
     unchanged px px' \<and> bt_pending (px_bot px') = put chat (asked env user mid action px) (bt_pending (px_bot px)) \<and>
     bt_token (px_bot px') = bt_token (px_bot px)"
  by (auto simp: ask_confirmation_def asked_def unchanged_def Let_def)

text \<open>An action either changes the confirmations by asking for one, or not at all; without a confirmation it
  leaves the pools and the settings alone.\<close>

definition outcome :: "callback_env \<Rightarrow> int \<Rightarrow> int \<Rightarrow> int \<Rightarrow> string \<Rightarrow> bool \<Rightarrow> proxy \<Rightarrow> proxy \<Rightarrow> bool" where
  "outcome env chat user mid action confirmed px px' \<longleftrightarrow>
     (bt_pending (px_bot px') = bt_pending (px_bot px) \<or>
      \<not> confirmed \<and> bt_pending (px_bot px') = put chat (asked env user mid action px) (bt_pending (px_bot px)) \<and>
        (has_prefix action ''switch:'' \<or> mode_change action \<noteq> None)) \<and>
     (confirmed \<or> unchanged px px') \<and>
     (unchanged px px' \<or> has_prefix action ''switch:'' \<or> mode_change action \<noteq> None)"

lemma switch_outcome:
  assumes "switch_action env chat user mid action confirmed px = (r, calls, px')" "has_prefix action ''switch:''"
  shows "outcome env chat user mid action confirmed px px'"
proof -
  have w: "outcome env chat user mid action confirmed px px'" if "bt_pending (px_bot px') = bt_pending (px_bot px)" "confirmed \<or> unchanged px px'"
    using that assms(2) by (simp add: outcome_def)
  show ?thesis
  proof (cases "snap_get (m_snap (px_manager px)) (trim_prefix action ''switch:'')")
    case None
    then show ?thesis using assms(1) w by (auto simp: switch_action_def Let_def unchanged_def)
  next
    case (Some p)
    consider (active) "sn_active (m_snap (px_manager px)) = trim_prefix action ''switch:''"
      | (ask) "sn_active (m_snap (px_manager px)) \<noteq> trim_prefix action ''switch:''" "\<not> confirmed"
      | (run) "sn_active (m_snap (px_manager px)) \<noteq> trim_prefix action ''switch:''" "confirmed" by blast
    then show ?thesis
    proof cases
      case active
      then show ?thesis using assms(1) Some w by (auto simp: switch_action_def Let_def unchanged_def)
    next
      case ask
      obtain rows px1 where a: "ask_confirmation env chat user mid action ''pools:0'' px = (rows, px1)" by fastforce
      then have "px' = px1" using assms(1) Some ask by (auto simp: switch_action_def Let_def)
      then show ?thesis using ask_confirmation_simps [OF a] ask assms(2) by (auto simp: outcome_def)
    next
      case run
      have "bt_pending (px_bot px') = bt_pending (px_bot px)"
        using assms(1) Some run by (auto simp: switch_action_def Let_def split: option.splits if_splits prod.splits sum.splits)
      then show ?thesis using w run by simp
    qed
  qed
qed

lemma mode_outcome:
  assumes "mode_action env chat user mid action confirmed px = (r, px')"
  shows "outcome env chat user mid action confirmed px px'"
proof (cases "mode_change action")
  case None
  then show ?thesis using assms by (simp add: mode_action_def Let_def outcome_def unchanged_def)
next
  case (Some kv)
  obtain key val where kv: "kv = (key, val)" by fastforce
  show ?thesis
  proof (cases confirmed)
    case True
    obtain s px1 where s: "save_in [(key, JStr val)] (ce_write env) px = (s, px1)" by fastforce
    have "px_bot px' = px_bot px1"
    proof (cases s)
      case (Inl e)
      then show ?thesis using assms Some kv True s by (auto simp: mode_action_def Let_def)
    next
      case (Inr p)
      define px2 where "px2 = px1\<lparr>px_log := fold (\<lambda>c. info ''settings_changed'' (''settings changed: '' @ ch_key c @ '' '' @ ch_old c @ arrow @ ch_new c @
          '' (Telegram user '' @ itoa user @ '', chat '' @ itoa chat @ '')'') (ve_now (ce_view env))) (pe_changes p) (px_log px1)\<rparr>"
      obtain tt rows px3 where a: "auto_screen (ve_gamma (ce_view env)) (texts_px (ce_view env) px) (ve_now (ce_view env)) px2 = ((tt, rows), px3)"
        by (metis surj_pair)
      have "px' = px3" using assms Some kv True s Inr a by (simp add: mode_action_def Let_def px2_def)
      moreover have "px_bot px3 = px_bot px2"
        using auto_screen_simps(3) [of "ve_gamma (ce_view env)" "texts_px (ce_view env) px" "ve_now (ce_view env)" px2] by (simp only: a snd_conv)
      moreover have "px_bot px2 = px_bot px1" by (simp add: px2_def)
      ultimately show ?thesis by simp
    qed
    then show ?thesis using save_in_others [OF s] True Some by (simp add: outcome_def)
  next
    case False
    have keep: "outcome env chat user mid action confirmed px px'" if "px' = snd (auto_screen gamma tx now px)" for gamma tx now
      using that by (simp add: outcome_def unchanged_def)
    have miss: "outcome env chat user mid action confirmed px px'" if "px' = snd (missing_target env key px)"
      using that by (simp add: outcome_def unchanged_def)
    have ask: "outcome env chat user mid action confirmed px px'"
      if "ask_confirmation env chat user mid action ''auto'' px0 = (rows, px')" "px_manager px0 = px_manager px" "px_settings px0 = px_settings px" "px_bot px0 = px_bot px" for rows px0
      using ask_confirmation_simps [OF that(1)] that(2-4) False Some by (auto simp: outcome_def unchanged_def asked_def)
    show ?thesis
    proof (cases "mode_value key (px_values px) = val")
      case True
      then have "auto_screen (ve_gamma (ce_view env)) (texts_px (ce_view env) px) (ve_now (ce_view env)) px = (r, px')"
        using assms Some kv False by (simp add: mode_action_def Let_def)
      then have "px' = snd (auto_screen (ve_gamma (ce_view env)) (texts_px (ce_view env) px) (ve_now (ce_view env)) px)" by simp
      then show ?thesis by (rule keep)
    next
      case ne: False
      show ?thesis
      proof (cases "val = ''on''")
        case True
        obtain x px1 where m: "missing_target env key px = (x, px1)" by fastforce
        then have p1: "px1 = snd (missing_target env key px)" by simp
        show ?thesis
        proof (cases x)
          case (Inl why)
          then have "px' = px1" using assms Some kv False ne True m by (auto simp: mode_action_def Let_def)
          then show ?thesis using miss p1 by simp
        next
          case (Inr about)
          obtain rows px2 where a: "ask_confirmation env chat user mid action ''auto'' px1 = (rows, px2)" by fastforce
          then have "px' = px2" using assms Some kv False ne True m Inr by (auto simp: mode_action_def Let_def)
          then show ?thesis using ask [of px1 rows] a p1 by simp
        qed
      next
        case off: False
        obtain rows px2 where a: "ask_confirmation env chat user mid action ''auto'' px = (rows, px2)" by fastforce
        then have "px' = px2" using assms Some kv False ne off by (auto simp: mode_action_def Let_def)
        then show ?thesis using ask [of px rows] a by simp
      qed
    qed
  qed
qed

lemma run_outcome:
  assumes "run_action env chat user mid action confirmed px = (r, calls, px')"
  shows "outcome env chat user mid action confirmed px px'"
proof -
  consider (switch) "has_prefix action ''switch:''" | (mode) "\<not> has_prefix action ''switch:''" "has_prefix action ''mode:''"
    | (screen) "\<not> has_prefix action ''switch:''" "\<not> has_prefix action ''mode:''" by blast
  then show ?thesis
  proof cases
    case switch
    then show ?thesis using assms switch_outcome by (simp add: run_action_def)
  next
    case mode
    then show ?thesis using assms mode_outcome by (auto simp: run_action_def split: prod.splits)
  next
    case screen
    then have "px' = snd (screen (ce_view env) action px)" using assms by (auto simp: run_action_def split: prod.splits)
    then show ?thesis by (simp add: outcome_def unchanged_def)
  qed
qed

subsection \<open>Confirmations\<close>

text \<open>A tap on a button of message \<open>m\<close> by an allowed user.\<close>

definition tapped :: "callback \<Rightarrow> proxy \<Rightarrow> chat_message \<Rightarrow> bool" where
  "tapped q px m \<longleftrightarrow> cb_message q = Some m \<and> allowed_chat px (cm_chat m) \<and> 0 < cb_from q \<and> 0 < cm_id m"

text \<open>The confirmation that lets a tap act.\<close>

definition confirms :: "time \<Rightarrow> callback \<Rightarrow> chat_message \<Rightarrow> confirmation \<Rightarrow> bool" where
  "confirms now q m c \<longleftrightarrow> cb_data q = ''confirm:'' @ cn_code c \<and> cn_user c = cb_from q \<and> cn_message c = cm_id m \<and> now < cn_until c"

definition requests :: "callback_env \<Rightarrow> callback \<Rightarrow> int \<Rightarrow> confirmation \<Rightarrow> bool" where
  "requests env q chat c \<longleftrightarrow>
     (\<exists>m. cb_message q = Some m \<and> cm_chat m = chat \<and> cm_id m = cn_message c) \<and> cb_from q = cn_user c \<and>
     cb_data q = cn_action c \<and> ce_code env = cn_code c \<and> cn_until c = ve_now (ce_view env) + 2 * minute \<and>
     (has_prefix (cn_action c) ''switch:'' \<or> mode_change (cn_action c) \<noteq> None)"

lemma take_confirmation_cases:
  assumes "take_confirmation now chat user mid data b = (r, b')"
  shows "(\<forall>i c. map_of (bt_pending b') i = Some c \<longrightarrow> map_of (bt_pending b) i = Some c) \<and> bt_token b' = bt_token b \<and>
    (\<forall>action. r = Some (action, True) \<longrightarrow>
      (\<exists>c. map_of (bt_pending b) chat = Some c \<and> data = ''confirm:'' @ cn_code c \<and> cn_user c = user \<and> cn_message c = mid \<and>
        now < cn_until c \<and> action = cn_action c \<and> map_of (bt_pending b') chat = None)) \<and>
    (\<forall>action. r = Some (action, False) \<longrightarrow> action = data)"
proof -
  have p: "has_prefix data ''confirm:'' \<Longrightarrow> data = ''confirm:'' @ trim_prefix data ''confirm:''"
    by (metis append_take_drop_id has_prefix_iff trim_prefix_def)
  show ?thesis
  proof (cases "map_of (bt_pending b) chat")
    case None
    then show ?thesis using assms by (auto simp: take_confirmation_def split: if_splits)
  next
    case (Some c)
    then show ?thesis using assms p by (auto simp: take_confirmation_def split: if_splits)
  qed
qed

text \<open>What a tap does to the confirmations, the pools and the settings.\<close>

lemma tap_cases:
  assumes "handle_callback env q px = (calls, px')"
  shows "(\<forall>i c. map_of (bt_pending (px_bot px')) i = Some c \<longrightarrow>
            map_of (bt_pending (px_bot px)) i = Some c \<or> requests env q i c) \<and>
    (unchanged px px' \<or>
      (\<exists>m c. tapped q px m \<and> map_of (bt_pending (px_bot px)) (cm_chat m) = Some c \<and> confirms (ve_now (ce_view env)) q m c \<and>
         map_of (bt_pending (px_bot px')) (cm_chat m) = None \<and>
         (\<forall>i d. map_of (bt_pending (px_bot px')) i = Some d \<longrightarrow> map_of (bt_pending (px_bot px)) i = Some d)))"
proof -
  let ?now = "ve_now (ce_view env)"
  have refused: ?thesis if "px' = answer_callback env s (px\<lparr>px_bot := b\<rparr>)" "\<forall>i c. map_of (bt_pending b) i = Some c \<longrightarrow> map_of (bt_pending (px_bot px)) i = Some c" for s b
    using that by (simp add: unchanged_def)
  show ?thesis
  proof (cases "cb_message q")
    case None
    then have "px' = answer_callback env (ui (texts_px (ce_view env) px) ''denied'') (px\<lparr>px_bot := px_bot px\<rparr>)"
      using assms by (simp add: handle_callback_def Let_def)
    then show ?thesis using refused by blast
  next
    case (Some m)
    let ?chat = "cm_chat m"
    consider (denied) "cm_id m \<le> 0 \<or> cb_from q \<le> 0 \<or> \<not> allowed_chat px ?chat"
      | (long) "\<not> (cm_id m \<le> 0 \<or> cb_from q \<le> 0 \<or> \<not> allowed_chat px ?chat)" "64 < length (cb_data q)"
      | (fine) "\<not> (cm_id m \<le> 0 \<or> cb_from q \<le> 0 \<or> \<not> allowed_chat px ?chat)" "\<not> 64 < length (cb_data q)" by blast
    then show ?thesis
    proof cases
      case denied
      then have "px' = answer_callback env (ui (texts_px (ce_view env) px) ''denied'') (px\<lparr>px_bot := px_bot px\<rparr>)"
        using assms Some by (simp add: handle_callback_def Let_def)
      then show ?thesis using refused by blast
    next
      case long
      then have "px' = answer_callback env (ui (texts_px (ce_view env) px) ''expired'') (px\<lparr>px_bot := px_bot px\<rparr>)"
        using assms Some by (simp add: handle_callback_def Let_def)
      then show ?thesis using refused by blast
    next
      case fine
      then have t: "tapped q px m" using Some by (simp add: tapped_def)
      obtain r b where tc: "take_confirmation ?now ?chat (cb_from q) (cm_id m) (cb_data q) (px_bot px) = (r, b)" by fastforce
      note tcc = take_confirmation_cases [OF tc]
      show ?thesis
      proof (cases r)
        case None
        then have "px' = answer_callback env (ui (texts_px (ce_view env) px) ''expired'') (px\<lparr>px_bot := b\<rparr>)"
          using assms Some fine tc by (simp add: handle_callback_def Let_def)
        then show ?thesis using refused tcc by blast
      next
        case (Some ac)
        obtain action confirmed where ac: "ac = (action, confirmed)" by fastforce
        define px1 where "px1 = answer_callback env [] (px\<lparr>px_bot := b\<rparr>)"
        have b1: "unchanged px px1" "bt_pending (px_bot px1) = bt_pending b" by (simp_all add: px1_def unchanged_def)
        obtain x cs px2 where ra: "run_action env ?chat (cb_from q) (cm_id m) action confirmed px1 = (x, cs, px2)"
          using prod_cases3 by blast
        have px': "px' = px1 \<or> unchanged px2 px' \<and> bt_pending (px_bot px') = bt_pending (px_bot px2)"
          using assms \<open>cb_message q = Some m\<close> fine tc Some ac ra
          by (auto simp: handle_callback_def Let_def px1_def unchanged_def split: option.splits if_splits prod.splits)
        have oc: "outcome env ?chat (cb_from q) (cm_id m) action confirmed px1 px2" by (rule run_outcome [OF ra])
        show ?thesis
        proof (cases "px' = px1")
          case True
          then show ?thesis using b1 tcc by auto
        next
          case False
          then have p2: "unchanged px2 px'" "bt_pending (px_bot px') = bt_pending (px_bot px2)" using px' by auto
          show ?thesis
          proof (cases confirmed)
            case True
            have same: "bt_pending (px_bot px2) = bt_pending b" using oc True b1 by (simp add: outcome_def)
            obtain c where c: "map_of (bt_pending (px_bot px)) ?chat = Some c" "confirms ?now q m c" "map_of (bt_pending b) ?chat = None"
              using tcc Some ac True by (auto simp: confirms_def)
            then show ?thesis using t tcc same p2(2) by auto
          next
            case notc: False
            have u: "unchanged px px'" using oc notc b1 p2 by (simp add: outcome_def unchanged_def)
            have act: "action = cb_data q" using tcc Some ac notc by simp
            have "requests env q ?chat (asked env (cb_from q) (cm_id m) action px1)"
              if "has_prefix action ''switch:'' \<or> mode_change action \<noteq> None"
              using that \<open>cb_message q = Some m\<close> act by (simp add: requests_def asked_def)
            then have "\<forall>i c. map_of (bt_pending (px_bot px')) i = Some c \<longrightarrow> map_of (bt_pending (px_bot px)) i = Some c \<or> requests env q i c"
              using oc p2(2) b1(2) tcc by (auto simp: outcome_def split: if_splits)
            then show ?thesis using u by blast
          qed
        qed
      qed
    qed
  qed
qed

text \<open>The taps so far, newest first, with whether they changed the pools or the settings. Between them the rest of
  the program may do anything but invent confirmations: a new token drops them.\<close>

inductive controlled :: "(callback_env \<times> callback \<times> bool) list \<Rightarrow> proxy \<Rightarrow> bool" where
  start: "bt_pending (px_bot px) = [] \<Longrightarrow> controlled [] px"
| tap: "controlled ts px \<Longrightarrow> handle_callback env q px = (calls, px') \<Longrightarrow> controlled ((env, q, \<not> unchanged px px') # ts) px'"
| other: "controlled ts px \<Longrightarrow> bt_pending (px_bot px') = bt_pending (px_bot px) \<or> bt_pending (px_bot px') = [] \<Longrightarrow> controlled ts px'"

definition codes :: "(callback_env \<times> callback \<times> bool) list \<Rightarrow> string list" where
  "codes ts = map (\<lambda>(e, q, acted). ce_code e) ts"

definition unused :: "(callback_env \<times> callback \<times> bool) list \<Rightarrow> string \<Rightarrow> bool" where
  "unused ts code \<longleftrightarrow> (\<forall>e q. (e, q, True) \<in> set ts \<longrightarrow> cb_data q \<noteq> ''confirm:'' @ code)"

lemma confirmations_inv:
  "controlled ts px \<Longrightarrow> distinct (codes ts) \<Longrightarrow>
     (\<forall>i c. map_of (bt_pending (px_bot px)) i = Some c \<longrightarrow> (\<exists>e q a. (e, q, a) \<in> set ts \<and> requests e q i c) \<and> unused ts (cn_code c)) \<and>
     (\<forall>e q. (e, q, True) \<in> set ts \<longrightarrow> (\<exists>code \<in> set (codes ts). cb_data q = ''confirm:'' @ code))"
proof (induction rule: controlled.induct)
  case (tap ts px env q calls px')
  let ?P = "\<lambda>px. map_of (bt_pending (px_bot px))"
  have d: "distinct (codes ts)" "ce_code env \<notin> set (codes ts)" using tap.prems by (simp_all add: codes_def)
  note IH = tap.IH [OF d(1)]
  have code: "\<exists>e q a. (e, q, a) \<in> set ts \<and> requests e q i c \<Longrightarrow> cn_code c \<in> set (codes ts)" for i c
    by (force simp: requests_def codes_def)
  from tap_cases [OF tap.hyps(2)] have
    new: "\<And>i c. ?P px' i = Some c \<Longrightarrow> ?P px i = Some c \<or> requests env q i c" and
    acts: "unchanged px px' \<or> (\<exists>m c. tapped q px m \<and> ?P px (cm_chat m) = Some c \<and> confirms (ve_now (ce_view env)) q m c \<and>
         ?P px' (cm_chat m) = None \<and> (\<forall>i d. ?P px' i = Some d \<longrightarrow> ?P px i = Some d))" by blast+
  let ?ts = "(env, q, \<not> unchanged px px') # ts"
  have goal1: "(\<exists>e r a. (e, r, a) \<in> set ?ts \<and> requests e r i c) \<and> unused ?ts (cn_code c)" if p: "?P px' i = Some c" for i c
  proof (cases "unchanged px px'")
    case True
    from new [OF p] show ?thesis
    proof
      assume "?P px i = Some c"
      then obtain e r a where "(e, r, a) \<in> set ts" "requests e r i c" "unused ts (cn_code c)" using IH by blast
      then show ?thesis using True by (auto simp: unused_def)
    next
      assume r: "requests env q i c"
      then have "cn_code c \<notin> set (codes ts)" using d(2) by (simp add: requests_def)
      have "unused ts (cn_code c)"
        unfolding unused_def
      proof (intro allI impI notI)
        fix e s assume s: "(e, s, True) \<in> set ts" "cb_data s = ''confirm:'' @ cn_code c"
        then obtain code where "code \<in> set (codes ts)" "cb_data s = ''confirm:'' @ code" using IH by blast
        then show False using s(2) \<open>cn_code c \<notin> set (codes ts)\<close> by simp
      qed
      then show ?thesis using r True by (auto simp: unused_def)
    qed
  next
    case False
    then obtain m k where mk: "?P px (cm_chat m) = Some k" "confirms (ve_now (ce_view env)) q m k" "?P px' (cm_chat m) = None"
        "\<forall>i d. ?P px' i = Some d \<longrightarrow> ?P px i = Some d" using acts by blast
    have pc: "?P px i = Some c" using mk(4) p by blast
    obtain e r a where r: "(e, r, a) \<in> set ts" "requests e r i c" using IH pc by blast
    obtain e' r' a' where r': "(e', r', a') \<in> set ts" "requests e' r' (cm_chat m) k" using IH mk(1) by blast
    have "cn_code c \<noteq> cn_code k"
    proof
      assume "cn_code c = cn_code k"
      then have "ce_code e = ce_code e'" using r(2) r'(2) by (simp add: requests_def)
      then have "(e, r, a) = (e', r', a')"
        using d(1) r(1) r'(1) unfolding codes_def by (fastforce simp: distinct_map inj_on_def)
      then have "i = cm_chat m" using r(2) r'(2) by (auto simp: requests_def)
      then show False using p mk(3) by simp
    qed
    moreover have "cb_data q = ''confirm:'' @ cn_code k" using mk(2) by (simp add: confirms_def)
    moreover have "unused ts (cn_code c)" using IH pc by blast
    ultimately have "unused ?ts (cn_code c)" by (auto simp: unused_def)
    then show ?thesis using r by auto
  qed
  have goal2: "\<exists>code \<in> set (codes ?ts). cb_data r = ''confirm:'' @ code" if "(e, r, True) \<in> set ?ts" for e r
  proof (cases "(e, r, True) \<in> set ts")
    case True
    then show ?thesis using IH by (fastforce simp: codes_def)
  next
    case False
    then have "r = q" "\<not> unchanged px px'" using that by auto
    then obtain m k where mk: "?P px (cm_chat m) = Some k" "confirms (ve_now (ce_view env)) q m k" using acts by blast
    then have "cn_code k \<in> set (codes ts)" using IH code by blast
    then show ?thesis using mk(2) \<open>r = q\<close> by (auto simp: confirms_def codes_def)
  qed
  show ?case using goal1 goal2 by blast
next
  case (other ts px px')
  then show ?case by auto
qed simp

text \<open>C6: by a tap the farm changes only after a confirmation. If a tap changes the pools or the settings, the chat
  is allowed and the tap confirms a switch or a change of mode that the same user asked for by an earlier tap in
  the same message of the same chat at most two minutes before, and no tap used that confirmation before.\<close>

theorem telegram_acts_only_confirmed:
  assumes "controlled ts px" "distinct (codes ts)" "handle_callback env q px = (calls, px')" "\<not> unchanged px px'"
  shows "\<exists>m e r a n. tapped q px m \<and> (e, r, a) \<in> set ts \<and> cb_message r = Some n \<and> cm_chat n = cm_chat m \<and> cm_id n = cm_id m \<and>
    cb_from r = cb_from q \<and> cb_data q = ''confirm:'' @ ce_code e \<and> ve_now (ce_view env) < ve_now (ce_view e) + 2 * minute \<and>
    (has_prefix (cb_data r) ''switch:'' \<or> mode_change (cb_data r) \<noteq> None) \<and> unused ts (ce_code e)"
proof -
  obtain m c where mc: "tapped q px m" "map_of (bt_pending (px_bot px)) (cm_chat m) = Some c" "confirms (ve_now (ce_view env)) q m c"
    using tap_cases [OF assms(3)] assms(4) by blast
  obtain e r a where r: "(e, r, a) \<in> set ts" "requests e r (cm_chat m) c" "unused ts (cn_code c)"
    using confirmations_inv [OF assms(1,2)] mc(2) by blast
  then show ?thesis using mc unfolding requests_def confirms_def by fastforce
qed

definition example_proxy :: proxy where
  "example_proxy =
     \<lparr>px_farm = example_farm, px_settings = \<lparr>ss_cur = defaults\<lparr>v_telegram_chats := ''5''\<rparr>, ss_overrides = []\<rparr>,
      px_stats = new_collector 0, px_history = example_minute, px_log = new_log 500, px_bot = new_bot []\<rparr>"

definition example_tap :: "string \<Rightarrow> time \<Rightarrow> callback_env" where
  "example_tap code now =
     \<lparr>ce_view = \<lparr>ve_gamma = (\<lambda>x. x), ve_texts = (\<lambda>_. example_texts), ve_started = 0, ve_now = now, ve_miners = []\<rparr>,
      ce_later = now, ce_code = code, ce_answer = NoAnswer [], ce_stopped = False, ce_checking = None, ce_checks = good_check,
      ce_during = (\<lambda>m. m), ce_write = True, ce_shuffle = (\<lambda>xs. xs), ce_say = (\<lambda>e now l. l), ce_reply = None\<rparr>"

definition button_of :: "string \<Rightarrow> callback" where
  "button_of data =
     \<lparr>cb_id = ''q'', cb_from = 9, cb_message = Some \<lparr>cm_id = 3, cm_chat = 5, cm_title = [], cm_username = [], cm_text = []\<rparr>, cb_data = data\<rparr>"

lemma example_tap_simps [simp]:
  "ce_view (example_tap code now) = \<lparr>ve_gamma = (\<lambda>x. x), ve_texts = (\<lambda>_. example_texts), ve_started = 0, ve_now = now, ve_miners = []\<rparr>"
  "ce_code (example_tap code now) = code" "ce_stopped (example_tap code now) = False" "ce_checking (example_tap code now) = None"
  "ce_checks (example_tap code now) = good_check" "ce_during (example_tap code now) = (\<lambda>m. m)" "ce_write (example_tap code now) = True"
  "ce_shuffle (example_tap code now) = (\<lambda>xs. xs)" "ce_later (example_tap code now) = now" "ce_reply (example_tap code now) = None"
  by (simp_all add: example_tap_def)

lemma button_of_simps [simp]:
  "cb_from (button_of d) = 9" "cb_data (button_of d) = d"
  "cb_message (button_of d) = Some \<lparr>cm_id = 3, cm_chat = 5, cm_title = [], cm_username = [], cm_text = []\<rparr>"
  by (simp_all add: button_of_def)

lemma example_chat: "px_settings px = px_settings example_proxy \<Longrightarrow> allowed_chat px 5"
proof -
  have "5 \<in> set (chat_ids ''5'')" by code_simp
  then show "px_settings px = px_settings example_proxy \<Longrightarrow> allowed_chat px 5" by (simp add: allowed_chat_def example_proxy_def)
qed

lemma example_request:
  obtains calls px1 where "handle_callback (example_tap ''K'' hour) (button_of ''switch:alt'') example_proxy = (calls, px1)"
    "unchanged example_proxy px1"
    "bt_pending (px_bot px1) = [(5, \<lparr>cn_code = ''K'', cn_action = ''switch:alt'', cn_token = bt_token (px_bot px1), cn_user = 9, cn_message = 3,
       cn_until = hour + 2 * minute\<rparr>)]"
proof -
  let ?env = "example_tap ''K'' hour" and ?q = "button_of ''switch:alt''"
  have px: "bt_pending (px_bot example_proxy) = []" "px_manager example_proxy = timed_manager" by (simp_all add: example_proxy_def new_bot_def example_farm_def)
  have take: "take_confirmation hour 5 9 3 ''switch:alt'' (px_bot example_proxy) = (Some (''switch:alt'', False), px_bot example_proxy)"
    by (simp add: take_confirmation_def px)
  define px0 where "px0 = answer_callback ?env [] example_proxy"
  have p0: "bt_pending (px_bot px0) = []" "px_manager px0 = timed_manager" "px_settings px0 = px_settings example_proxy"
    by (simp_all add: px0_def px)
  obtain r calls px1 where run: "run_action ?env 5 9 3 ''switch:alt'' False px0 = (r, calls, px1)" by (metis surj_pair)
  have g: "snap_get (m_snap timed_manager) ''alt'' \<noteq> None" "sn_active (m_snap timed_manager) \<noteq> ''alt''"
    by (simp_all add: timed_manager_snap snap_get_def find_pool_def zero_pool_def)
  obtain rows px2 where ask: "ask_confirmation ?env 5 9 3 ''switch:alt'' ''pools:0'' px0 = (rows, px2)" by fastforce
  have "px1 = px2"
    using run g ask p0 by (auto simp: run_action_def switch_action_def trim_prefix_def Let_def)
  then have f: "unchanged px0 px1" "bt_pending (px_bot px1) = put 5 (asked ?env 9 3 ''switch:alt'' px0) []" "bt_token (px_bot px1) = bt_token (px_bot px0)"
    using ask_confirmation_simps [OF ask] p0 by simp_all
  obtain calls' where "handle_callback ?env ?q example_proxy = (calls', px1)"
    using run take example_chat [of example_proxy] by (cases r) (auto simp: handle_callback_def Let_def px0_def split: prod.splits)
  moreover have "unchanged example_proxy px1" using f(1) p0 px by (simp add: unchanged_def)
  ultimately show ?thesis using f(2,3) that by (simp add: asked_def)
qed

lemma example_activation:
  obtains n evs m' where "activate ''alt'' False ''manual'' None good_check (\<lambda>m. m) True (\<lambda>xs. xs) now timed_manager = (Inr n, evs, m')"
    "sn_active (m_snap m') = ''alt''"
proof -
  have "snap_get (m_snap timed_manager) ''alt'' \<noteq> None" by (simp add: timed_manager_snap snap_get_def find_pool_def zero_pool_def)
  then obtain n evs m' where a: "activate ''alt'' False ''manual'' None good_check (\<lambda>m. m) True (\<lambda>xs. xs) now timed_manager = (Inr n, evs, m')"
    using activate_succeeds [OF timed_manager_inv, of "''alt''" False good_check "''manual''" None "\<lambda>xs. xs" now]
    by (auto simp: good_check_def any_ok_def)
  have "op_activate (manager_ops good_check True (\<lambda>xs. xs) now) ''alt'' ''manual'' timed_manager timed_manager = (Inr n, m')"
    using a by (simp add: manager_ops_def activate_def Let_def split: sum.splits)
  then have "sn_active (m_snap m') = ''alt''"
    using farm.activate_ok [OF timed_manager_inv] by (fastforce simp: manager_ops_def)
  with a show ?thesis using that by blast
qed

lemma example_confirmed:
  assumes "unchanged example_proxy px1"
    "bt_pending (px_bot px1) = [(5, \<lparr>cn_code = ''K'', cn_action = ''switch:alt'', cn_token = bt_token (px_bot px1), cn_user = 9, cn_message = 3,
       cn_until = hour + 2 * minute\<rparr>)]"
  obtains calls px2 where "handle_callback (example_tap ''L'' (hour + second)) (button_of ''confirm:K'') px1 = (calls, px2)"
    "sn_active (m_snap (px_manager px2)) = ''alt''"
proof -
  let ?env = "example_tap ''L'' (hour + second)" and ?q = "button_of ''confirm:K''"
  define b where "b = (px_bot px1)\<lparr>bt_pending := []\<rparr>"
  have take: "take_confirmation (hour + second) 5 9 3 ''confirm:K'' (px_bot px1) = (Some (''switch:alt'', True), b)"
    by (simp add: take_confirmation_def assms(2) trim_prefix_def b_def)
  define px0 where "px0 = answer_callback ?env [] (px1\<lparr>px_bot := b\<rparr>)"
  have p0: "px_manager px0 = timed_manager" "px_settings px0 = px_settings example_proxy"
    using assms(1) by (simp_all add: px0_def unchanged_def example_proxy_def example_farm_def)
  obtain p where g: "snap_get (m_snap timed_manager) ''alt'' = Some p" "sn_active (m_snap timed_manager) \<noteq> ''alt''"
    by (auto simp: timed_manager_snap snap_get_def find_pool_def zero_pool_def)
  obtain n evs m' where a: "activate ''alt'' False ''manual'' None good_check (\<lambda>m. m) True (\<lambda>xs. xs) (hour + second) timed_manager = (Inr n, evs, m')"
    and s: "sn_active (m_snap m') = ''alt''" by (rule example_activation)
  obtain r calls px2 where run: "run_action ?env 5 9 3 ''switch:alt'' True px0 = (r, calls, px2)" by (metis surj_pair)
  have m2: "px_manager px2 = m'" using run g a p0 by (auto simp: run_action_def switch_action_def trim_prefix_def Let_def)
  obtain calls' where "handle_callback ?env ?q px1 = (calls', px2)"
    using run take example_chat [of px1] assms(1) by (cases r) (auto simp: handle_callback_def Let_def px0_def unchanged_def split: prod.splits)
  then show ?thesis using that m2 s by simp
qed

theorem telegram_acts_only_confirmed_witness:
  "\<exists>px1 px2 m e r a n. snd (handle_callback (example_tap ''K'' hour) (button_of ''switch:alt'') example_proxy) = px1 \<and>
     snd (handle_callback (example_tap ''L'' (hour + second)) (button_of ''confirm:K'') px1) = px2 \<and> sn_active (m_snap (px_manager px2)) = ''alt'' \<and>
     tapped (button_of ''confirm:K'') px1 m \<and> (e, r, a) \<in> {(example_tap ''K'' hour, button_of ''switch:alt'', False)} \<and> cb_message r = Some n \<and> cm_id n = cm_id m"
proof -
  obtain calls px1 where one: "handle_callback (example_tap ''K'' hour) (button_of ''switch:alt'') example_proxy = (calls, px1)" "unchanged example_proxy px1"
    "bt_pending (px_bot px1) = [(5, \<lparr>cn_code = ''K'', cn_action = ''switch:alt'', cn_token = bt_token (px_bot px1), cn_user = 9, cn_message = 3,
       cn_until = hour + 2 * minute\<rparr>)]" by (rule example_request)
  obtain calls2 px2 where two: "handle_callback (example_tap ''L'' (hour + second)) (button_of ''confirm:K'') px1 = (calls2, px2)"
    "sn_active (m_snap (px_manager px2)) = ''alt''" by (rule example_confirmed [OF one(2,3)])
  have "bt_pending (px_bot example_proxy) = []" by (simp add: example_proxy_def new_bot_def)
  then have c: "controlled [(example_tap ''K'' hour, button_of ''switch:alt'', False)] px1"
    using controlled.tap [OF controlled.start one(1)] one(2) by simp
  have "\<not> unchanged px1 px2" using one(2) two(2) by (auto simp: unchanged_def example_proxy_def example_farm_def timed_manager_snap)
  from telegram_acts_only_confirmed [OF c _ two(1) this] one two show ?thesis by (force simp: codes_def)
qed

subsection \<open>What a tap can change\<close>

lemma switch_settings:
  assumes "switch_action env chat user mid action confirmed px = (r, calls, px')"
  shows "px_settings px' = px_settings px"
proof -
  obtain rows px1 where a: "ask_confirmation env chat user mid action ''pools:0'' px = (rows, px1)" by fastforce
  then have "px_settings px1 = px_settings px" using ask_confirmation_simps [OF a] by (simp add: unchanged_def)
  with a assms show ?thesis
    by (auto simp: switch_action_def Let_def split: option.splits if_splits prod.splits sum.splits)
qed

text \<open>Settings change by a mode that \<open>mode_change\<close> lets through, or not at all.\<close>

definition mode_saved :: "string \<Rightarrow> settings_store \<Rightarrow> settings_store \<Rightarrow> bool" where
  "mode_saved action s s' \<longleftrightarrow>
     s' = s \<or> (\<exists>key val p. mode_change action = Some (key, val) \<and> prepare [(key, JStr val)] s = Inr p \<and> ss_cur s' = pe_values p)"

lemma mode_settings:
  assumes "mode_action env chat user mid action confirmed px = (r, px')"
  shows "mode_saved action (px_settings px) (px_settings px')"
proof (cases "confirmed \<and> mode_change action \<noteq> None")
  case False
  then have "unchanged px px'"
    using mode_outcome [OF assms] by (cases "mode_change action"; cases confirmed)
      (use assms in \<open>auto simp: outcome_def mode_action_def Let_def unchanged_def\<close>)
  then show ?thesis by (simp add: mode_saved_def unchanged_def)
next
  case True
  then obtain key val where kv: "mode_change action = Some (key, val)" by auto
  obtain s px1 where s: "save_in [(key, JStr val)] (ce_write env) px = (s, px1)" by fastforce
  show ?thesis
  proof (cases s)
    case (Inl e)
    then have "px' = px" using assms kv True s save_in_failed [of "[(key, JStr val)]" "ce_write env" px e px1] by (auto simp: mode_action_def Let_def)
    then show ?thesis by (simp add: mode_saved_def)
  next
    case (Inr p)
    have "px_settings px' = px_settings px1"
    proof -
      define px2 where "px2 = px1\<lparr>px_log := fold (\<lambda>c. info ''settings_changed'' (''settings changed: '' @ ch_key c @ '' '' @ ch_old c @ arrow @ ch_new c @
          '' (Telegram user '' @ itoa user @ '', chat '' @ itoa chat @ '')'') (ve_now (ce_view env))) (pe_changes p) (px_log px1)\<rparr>"
      obtain tt rows px3 where a: "auto_screen (ve_gamma (ce_view env)) (texts_px (ce_view env) px) (ve_now (ce_view env)) px2 = ((tt, rows), px3)"
        by (metis surj_pair)
      have "px' = px3" using assms kv True s Inr a by (simp add: mode_action_def Let_def px2_def)
      moreover have "px_settings px3 = px_settings px2"
        using auto_screen_simps(2) [of "ve_gamma (ce_view env)" "texts_px (ce_view env) px" "ve_now (ce_view env)" px2] by (simp only: a snd_conv)
      ultimately show ?thesis by (simp add: px2_def)
    qed
    then show ?thesis using save_in_values s Inr kv unfolding mode_saved_def by metis
  qed
qed

lemma run_settings:
  assumes "run_action env chat user mid action confirmed px = (r, calls, px')"
  shows "mode_saved action (px_settings px) (px_settings px')"
proof -
  consider (switch) "has_prefix action ''switch:''" | (mode) "\<not> has_prefix action ''switch:''" "has_prefix action ''mode:''"
    | (screen) "\<not> has_prefix action ''switch:''" "\<not> has_prefix action ''mode:''" by blast
  then show ?thesis
  proof cases
    case switch
    then show ?thesis using assms switch_settings by (simp add: run_action_def mode_saved_def)
  next
    case mode
    then show ?thesis using assms mode_settings by (auto simp: run_action_def split: prod.splits)
  next
    case screen
    then have "px' = snd (screen (ce_view env) action px)" using assms by (auto simp: run_action_def split: prod.splits)
    then show ?thesis by (simp add: mode_saved_def)
  qed
qed

lemma callback_settings:
  assumes "handle_callback env q px = (calls, px')"
  shows "\<exists>action. mode_saved action (px_settings px) (px_settings px')"
proof (cases "px_settings px' = px_settings px")
  case True
  then show ?thesis by (simp add: mode_saved_def)
next
  case False
  then obtain m where m: "cb_message q = Some m" using assms by (cases "cb_message q") (auto simp: handle_callback_def Let_def)
  obtain t b where tc: "take_confirmation (ve_now (ce_view env)) (cm_chat m) (cb_from q) (cm_id m) (cb_data q) (px_bot px) = (t, b)" by fastforce
  define px1 where "px1 = answer_callback env [] (px\<lparr>px_bot := b\<rparr>)"
  obtain action confirmed where t: "t = Some (action, confirmed)"
    using assms False m tc by (cases t) (auto simp: handle_callback_def Let_def split: if_splits)
  obtain r cs px2 where run: "run_action env (cm_chat m) (cb_from q) (cm_id m) action confirmed px1 = (r, cs, px2)" by (metis surj_pair)
  have "px_settings px' = px_settings px1 \<or> px_settings px' = px_settings px2"
    using assms False m tc t run by (cases r) (auto simp: handle_callback_def Let_def px1_def split: if_splits option.splits)
  moreover have "px_settings px1 = px_settings px" by (simp add: px1_def)
  ultimately have "px_settings px' = px_settings px2" using False by simp
  then show ?thesis using run_settings [OF run] \<open>px_settings px1 = px_settings px\<close> by auto
qed

lemma message_settings: "px_settings (snd (handle_message ve c sent msg px)) = px_settings px"
proof -
  define cmd where "cmd = bot_command (cm_text msg) (bt_username (px_bot px))"
  obtain tt rows px1 where s: "screen ve (if cmd = ''start'' then ''status'' else cmd) px = ((tt, rows), px1)" by (metis surj_pair)
  have p1: "px_settings px1 = px_settings px" using screen_simps(2) [of ve "if cmd = ''start'' then ''status'' else cmd" px] by (simp only: s snd_conv)
  obtain ok b where d: "deny_chat (cm_chat msg) (ve_now ve) (px_bot px) = (ok, b)" by fastforce
  consider (no) "cmd = []" | (denied) "cmd \<noteq> []" "\<not> allowed_chat px (cm_chat msg)" | (fine) "cmd \<noteq> []" "allowed_chat px (cm_chat msg)" by blast
  then show ?thesis
  proof cases
    case no
    then show ?thesis by (simp add: handle_message_def cmd_def)
  next
    case denied
    then show ?thesis using d by (cases ok; cases sent) (simp_all add: handle_message_def cmd_def [symmetric] Let_def)
  next
    case fine
    then show ?thesis using s p1 by (cases sent) (simp_all add: handle_message_def cmd_def [symmetric] Let_def)
  qed
qed

text \<open>C31: an update from Telegram never changes another setting than the three automatic modes.\<close>

theorem telegram_changes_modes_only:
  assumes "settings_inv (px_settings px)" "handle_update env u px = (calls, px')"
    and "d \<in> set defs" "d_key d \<notin> {''profit_switch'', ''timed_switch'', ''hunt_switch''}"
  shows "d_get d (px_values px') = d_get d (px_values px)"
proof -
  obtain action where "mode_saved action (px_settings px) (px_settings px')"
  proof (cases "up_callback u")
    case None
    then have "px_settings px' = px_settings px"
      using assms(2) message_settings by (cases "up_message u") (auto simp: handle_update_def, metis snd_conv)
    then show ?thesis using that by (simp add: mode_saved_def)
  next
    case (Some q)
    then show ?thesis using callback_settings [of env q px calls px'] assms(2) that by (auto simp: handle_update_def)
  qed
  then consider "px_settings px' = px_settings px"
    | key val p where "mode_change action = Some (key, val)" "prepare [(key, JStr val)] (px_settings px) = Inr p" "px_values px' = pe_values p"
    by (auto simp: mode_saved_def)
  then show ?thesis
  proof cases
    case 2
    have "key \<in> {''profit_switch'', ''timed_switch'', ''hunt_switch''}"
      using 2(1) by (auto simp: mode_change_def split: list.splits if_splits)
    then have "\<not> has_key [(key, JStr val)] (d_key d)" using assms(4) by (auto simp: has_key_def)
    then show ?thesis using prepare_keeps_other_settings [OF assms(1) 2(2) assms(3)] 2(3) by simp
  qed simp
qed

theorem telegram_changes_modes_only_witness:
  "\<exists>px'. snd (handle_update (example_tap ''K'' hour) \<lparr>up_id = 1, up_message = None, up_callback = Some (button_of ''mode:profit_switch:auto'')\<rparr>
      (example_proxy\<lparr>px_settings := \<lparr>ss_cur = defaults, ss_overrides = []\<rparr>\<rparr>)) = px' \<and> d_get (hd defs_logins) (px_values px') = d_get (hd defs_logins) defaults"
proof -
  let ?px = "example_proxy\<lparr>px_settings := \<lparr>ss_cur = defaults, ss_overrides = []\<rparr>\<rparr>"
  let ?u = "\<lparr>up_id = 1, up_message = None, up_callback = Some (button_of ''mode:profit_switch:auto'')\<rparr>"
  have i: "settings_inv (px_settings ?px)" using defaults_ok by (simp add: settings_inv_def build_def)
  obtain calls px' where u: "handle_update (example_tap ''K'' hour) ?u ?px = (calls, px')" by fastforce
  have "d_get (hd defs_logins) (px_values px') = d_get (hd defs_logins) (px_values ?px)"
    by (rule telegram_changes_modes_only [OF i u]) (simp_all add: all_defs base_def_def)
  then show ?thesis using u by simp
qed

subsection \<open>Pages\<close>

text \<open>The pages of the pools show every pool once and in order: the pages together are the list, and every
  button \<open>Previous\<close> and \<open>Next\<close> opens the page it names.\<close>

theorem pages_partition:
  "concat (map (\<lambda>k. page_items k ps) [0..<page_count ps]) = ps \<and> (\<forall>k < page_count ps. page_of (int k) ps = k \<and> page_items k ps \<noteq> [])"
proof -
  have "concat (map (\<lambda>k. page_items k ps) [0..<n]) = take (n * page_size) ps" for n
  proof (induction n)
    case (Suc n)
    have "take (n * page_size) ps @ take page_size (drop (n * page_size) ps) = take (n * page_size + page_size) ps" by (rule take_add [symmetric])
    then show ?case using Suc by (simp add: page_items_def ac_simps)
  qed simp
  moreover have "length ps \<le> page_count ps * page_size" by (simp add: page_count_def page_size_def)
  moreover have "page_of (int k) ps = k" "page_items k ps \<noteq> []" if "k < page_count ps" for k
    using that by (auto simp: page_of_def page_items_def page_count_def page_size_def)
  ultimately show ?thesis by simp
qed

end
