(* ===== verification/Server.thy ===== *)
theory Server
  imports Config Tls Controls
begin

text \<open>
  Package \<open>admin\<close>, \<open>server.go\<close>: the admin API on the state of the proxy.

  \<^item> \<open>admin\<close> is a \<open>Server\<close>: the login, the configuration, the proxy and the certificate; \<open>api_env\<close> holds what a request gets
    from outside: the clock, random values, and the outcomes of writes, checks and requests.
  \<^item> \<open>pool_views\<close>, \<open>status_view\<close>, \<open>settings_view\<close> and the like build the bodies of the replies; a body is a value, the JSON
    text of it is not modelled.
  \<^item> One function per handler; \<open>run_endpoint\<close> chooses it, \<open>serve_request\<close> is the mux with \<open>protected\<close>, \<open>login\<close> and \<open>logout\<close>.

  The lemmas show that only an authenticated request with a JSON body changes pools or settings, that a request that is
  refused changes neither, and that no reply depends on a password of a pool.
\<close>

record admin =
  ad_auth :: auth
  ad_config :: config
  ad_proxy :: proxy
  ad_certs :: "certs option"
  ad_has_bot :: bool
  ad_has_rtt :: bool

record api_env =
  en_now :: time
  en_later :: time
  en_started :: time
  en_gamma :: "real \<Rightarrow> real"
  en_guard_write :: bool
  en_random :: "string option"
  en_write :: bool
  en_saved :: bool
  en_shuffle :: "nat list \<Rightarrow> nat list"
  en_say :: event_writer
  en_say_timed :: "timed_event \<Rightarrow> time \<Rightarrow> log \<Rightarrow> log"
  en_checks :: "addr_result list"
  en_during :: "manager \<Rightarrow> manager"
  en_tested :: "address \<Rightarrow> saved_outcome"
  en_order :: "address list \<Rightarrow> address list"
  en_err_text :: "check_error \<Rightarrow> string"
  en_network :: "address \<Rightarrow> network"
  en_market :: "market_error + market"
  en_tags :: "string list \<Rightarrow> string list"
  en_disk :: disk
  en_disk_bytes :: int
  en_digest :: "string \<Rightarrow> 8 word list"
  en_me :: http_outcome
  en_sends :: "int \<Rightarrow> nat \<Rightarrow> http_outcome"
  en_slept :: "int \<Rightarrow> nat \<Rightarrow> bool"

subsection \<open>Views\<close>

text \<open>\<open>math.Round\<close>, and milliseconds with one decimal.\<close>

definition round_away :: "real \<Rightarrow> int" where
  "round_away x = (if 0 \<le> x then \<lfloor>x + 1 / 2\<rfloor> else \<lceil>x - 1 / 2\<rceil>)"

definition millis :: "duration \<Rightarrow> real" where
  "millis d = real_of_int (round_away (real_of_int d / 1000000 * 10)) / 10"

record addr_view =
  vw_host :: string
  vw_port :: int
  vw_health :: status
  vw_latency :: "real option"
  vw_error :: string
  vw_preferred :: bool

record pool_view =
  pv_id :: string
  pv_name :: string
  pv_coin :: string
  pv_addresses :: "addr_view list"
  pv_tls :: bool
  pv_tls_skip_verify :: bool
  pv_username :: string
  pv_password_set :: bool
  pv_profit_switch :: bool
  pv_timed_target :: bool
  pv_solo :: bool
  pv_profit_home :: bool
  pv_role :: role
  pv_health :: status
  pv_last_check :: "time option"
  pv_last_error :: "string option"
  pv_sessions :: nat
  pv_accepted :: "64 word"
  pv_rejected :: "64 word"
  pv_hashrate :: real

definition addr_view :: "address_health \<Rightarrow> addr_view" where
  "addr_view a =
     \<lparr>vw_host = host (av_address a), vw_port = port (av_address a), vw_health = av_status a,
      vw_latency = (if 0 < av_rtt a then Some (millis (av_rtt a)) else None), vw_error = av_last_error a, vw_preferred = av_preferred a\<rparr>"

definition no_shares :: pool_shares where "no_shares = \<lparr>ps_accepted = 0, ps_rejected = 0, ps_reasons = []\<rparr>"

definition pool_view :: "manager \<Rightarrow> counts \<Rightarrow> summary \<Rightarrow> pool \<Rightarrow> pool_view" where
  "pool_view m counts st p =
     (let h = pool_health_of m (p_id p); sh = get_or no_shares (su_by_pool st) (p_id p) in
      \<lparr>pv_id = p_id p, pv_name = p_name p, pv_coin = p_coin p, pv_addresses = map addr_view (address_healths (m_health m) p),
       pv_tls = p_tls p, pv_tls_skip_verify = p_tls_skip_verify p, pv_username = p_username p, pv_password_set = p_password p \<noteq> [],
       pv_profit_switch = p_profit_switch p, pv_timed_target = p_timed_target p, pv_solo = p_solo p, pv_profit_home = p_profit_home p,
       pv_role = snap_role (m_snap m) (p_id p), pv_health = h_status h, pv_last_check = nonzero_time (h_last_check h),
       pv_last_error = (if h_last_error h = [] then None else Some (h_last_error h)),
       pv_sessions = get_or 0 (ct_by_pool counts) (p_id p), pv_accepted = ps_accepted sh, pv_rejected = ps_rejected sh,
       pv_hashrate = get_or 0 (su_pool_hashrate st) (p_id p) / 10 ^ 12\<rparr>)"

definition pool_views :: "time \<Rightarrow> proxy \<Rightarrow> pool_view list" where
  "pool_views now px =
     (let m = px_manager px in
      map (pool_view m (session_counts (m_reg m)) (collector_snapshot now (px_stats px))) (sn_pools (m_snap m)))"

definition no_pool_view :: "string \<Rightarrow> pool_view" where
  "no_pool_view i =
     \<lparr>pv_id = i, pv_name = [], pv_coin = [], pv_addresses = [], pv_tls = False, pv_tls_skip_verify = False, pv_username = [],
      pv_password_set = False, pv_profit_switch = False, pv_timed_target = False, pv_solo = False, pv_profit_home = False, pv_role = NoRole,
      pv_health = Unknown, pv_last_check = None, pv_last_error = None, pv_sessions = 0, pv_accepted = 0, pv_rejected = 0, pv_hashrate = 0\<rparr>"

definition one_pool :: "time \<Rightarrow> string \<Rightarrow> proxy \<Rightarrow> pool_view" where
  "one_pool now i px = (case find (\<lambda>v. pv_id v = i) (pool_views now px) of Some v \<Rightarrow> v | None \<Rightarrow> no_pool_view i)"

record conn_string =
  cs_enabled :: bool
  cs_listen :: string
  cs_scheme :: string
  cs_host :: string
  cs_port :: string
  cs_url :: string

definition conn_string :: "string \<Rightarrow> string \<Rightarrow> string \<Rightarrow> int \<Rightarrow> conn_string" where
  "conn_string public_host scheme listen public =
     (if listen = [] then \<lparr>cs_enabled = False, cs_listen = [], cs_scheme = [], cs_host = [], cs_port = [], cs_url = []\<rparr>
      else
        (let p = (if public = 0 then (case split_host_port listen of Some (_, p) \<Rightarrow> p | None \<Rightarrow> itoa public) else itoa public) in
         \<lparr>cs_enabled = True, cs_listen = listen, cs_scheme = scheme, cs_host = public_host, cs_port = p,
          cs_url = (if public_host = [] then [] else scheme @ ''://'' @ join_host_port public_host p)\<rparr>))"

definition connection_strings :: "config \<Rightarrow> conn_string \<times> conn_string" where
  "connection_strings c =
     (conn_string (cf_public_host c) ''stratum+tcp'' (cf_tcp c) (cf_public_tcp c),
      conn_string (cf_public_host c) ''stratum+tls'' (cf_tls c) (cf_public_tls c))"

record status_view =
  sb_uptime :: int
  sb_mode :: mode
  sb_active :: string
  sb_effective :: string
  sb_fallback :: "string list"
  sb_last_switch :: "switch option"
  sb_miners :: "nat \<times> nat \<times> nat"
  sb_by_pool :: "(string, nat) gomap"
  sb_accepted :: "64 word"
  sb_rejected :: "64 word"
  sb_reasons :: "(string, 64 word) gomap"
  sb_hashrate :: real
  sb_connections :: "conn_string \<times> conn_string"
  sb_tls_errors :: "64 word"
  sb_junk :: "64 word"

definition status_view :: "time \<Rightarrow> time \<Rightarrow> config \<Rightarrow> proxy \<Rightarrow> status_view" where
  "status_view started now c px =
     (let m = px_manager px; s = m_snap m; n = session_counts (m_reg m); st = collector_snapshot now (px_stats px) in
      \<lparr>sb_uptime = go_div (time_sub now started) second, sb_mode = mode m, sb_active = sn_active s, sb_effective = effective m,
       sb_fallback = sn_fallback s, sb_last_switch = m_last_switch m, sb_miners = (ct_total n, ct_tcp n, ct_tls n), sb_by_pool = ct_by_pool n,
       sb_accepted = su_accepted st, sb_rejected = su_rejected st, sb_reasons = su_reasons st, sb_hashrate = su_hashrate st / 10 ^ 12,
       sb_connections = connection_strings c, sb_tls_errors = su_tls st, sb_junk = su_junk st\<rparr>)"

definition telegram_view :: "admin \<Rightarrow> bot_status \<times> nat" where
  "telegram_view ad =
     (status_of_bot (if ad_has_bot ad then Some (px_bot (ad_proxy ad)) else None),
      length (chat_ids (v_telegram_chats (px_values (ad_proxy ad)))))"

definition setting_groups :: "string list" where
  "setting_groups =
     [''logins'', ''switching'', ''profit'', ''timed'', ''hunt'', ''alerts'', ''timeouts'', ''limits'', ''tls'', ''history'', ''logging'']"

record settings_view =
  sp_connections :: "conn_string \<times> conn_string"
  sp_public_host :: string
  sp_admin :: string
  sp_username :: string
  sp_token_set :: bool
  sp_data_dir :: string
  sp_log_format :: string
  sp_certificate :: "cert_info option"
  sp_telegram :: "bot_status \<times> nat"
  sp_groups :: "string list"
  sp_settings :: "setting_meta list"
  sp_modified :: nat

definition settings_view :: "api_env \<Rightarrow> admin \<Rightarrow> settings_view" where
  "settings_view en ad =
     (let c = ad_config ad; ls = describe (px_settings (ad_proxy ad)) in
      \<lparr>sp_connections = connection_strings c, sp_public_host = cf_public_host c, sp_admin = cf_admin c, sp_username = cf_username c,
       sp_token_set = cf_token c \<noteq> [], sp_data_dir = cf_data_dir c, sp_log_format = cf_log_format c,
       sp_certificate = map_option (certificate_info (en_digest en)) (ad_certs ad), sp_telegram = telegram_view ad,
       sp_groups = setting_groups, sp_settings = ls, sp_modified = length (filter me_modified ls)\<rparr>)"

record network_view =
  nv_fetched :: "time option"
  nv_btc_usd :: real
  nv_coins :: "coin_view list"
  nv_error :: "market_error option"
  nv_rtt :: "watch_status option"

record test_row =
  tr_host :: string
  tr_port :: int
  tr_ok :: bool
  tr_latency :: "real option"
  tr_error :: "check_error option"

definition test_row :: "addr_result \<Rightarrow> test_row" where
  "test_row x =
     \<lparr>tr_host = host (ar_address x), tr_port = port (ar_address x), tr_ok = (ar_err x = None),
      tr_latency = (if 0 < ar_rtt x then Some (millis (ar_rtt x)) else None), tr_error = ar_err x\<rparr>"

record history_view =
  hv_from :: int
  hv_to :: int
  hv_series :: chart
  hv_pool_names :: "(string, string) gomap"
  hv_detail :: string
  hv_retention :: string
  hv_miners :: string
  hv_bytes :: int

datatype body =
    BError api_error | BHealthy | BUser string | BDone
  | BStatus status_view | BMiners "session_info list" | BReconnecting nat string | BEvents "event list"
  | BHistory history_view | BWorker string int int worker_chart | BWorkers int int "worker_summary list"
  | BProfit profit_status | BNetwork network_view | BTimed timed_status
  | BPools "pool_view list" | BPool pool_view | BUpdated pool_view nat | BDeleted nat
  | BTested duration "test_row list" | BActivated nat string
  | BSettings settings_view | BSaved settings_view "change list" bool nat | BTelegram "bot_status \<times> nat"
  | BElsewhere endpoint

record reply =
  rs_status :: nat
  rs_retry :: "int option"
  rs_cookie :: "(string \<times> int \<times> bool) option"
  rs_body :: body

definition plain_reply :: "nat \<Rightarrow> body \<Rightarrow> reply" where
  "plain_reply n b = \<lparr>rs_status = n, rs_retry = None, rs_cookie = None, rs_body = b\<rparr>"

definition error_reply :: "api_error \<Rightarrow> reply" where "error_reply e = plain_reply (ae_status e) (BError e)"

definition required_field :: "string \<Rightarrow> string \<Rightarrow> api_error" where
  "required_field key field = validation (Msg key []) [(field, Msg ''required'' [])]"

subsection \<open>Handlers\<close>

text \<open>A handler returns an error, or the status and the body of its reply.\<close>

type_synonym answer = "api_error + nat \<times> body"

definition answer_ok :: "body \<Rightarrow> answer" where "answer_ok b = Inr (200, b)"

text \<open>An operation of the manager: its events are written to the log.\<close>

definition managed :: "api_env \<Rightarrow> 'a \<times> manager_event list \<times> manager \<Rightarrow> proxy \<Rightarrow> 'a \<times> proxy" where
  "managed en res px = (case res of (r, evs, m) \<Rightarrow> (r, write_events (en_say en) (en_later en) evs (set_manager m px)))"

definition create_handler :: "api_env \<Rightarrow> http_request \<Rightarrow> proxy \<Rightarrow> answer \<times> proxy" where
  "create_handler en r px =
     (case decode_body max_body (rq_body r) decode_input of
        Inl e \<Rightarrow> (Inl e, px)
      | Inr i \<Rightarrow>
          (case managed en (create_pool i (en_write en) (px_manager px)) px of
             (Inl e, px') \<Rightarrow> (Inl e, px')
           | (Inr p, px') \<Rightarrow> (Inr (201, BPool (one_pool (en_later en) (p_id p) px')), px')))"

definition update_handler :: "api_env \<Rightarrow> string \<Rightarrow> http_request \<Rightarrow> proxy \<Rightarrow> answer \<times> proxy" where
  "update_handler en i r px =
     (case decode_body max_body (rq_body r) decode_input of
        Inl e \<Rightarrow> (Inl e, px)
      | Inr inp \<Rightarrow>
          (case managed en (update_pool i (inp\<lparr>in_id := None\<rparr>) (query_get ''reconnect'' r = ''true'') (en_write en) (en_shuffle en) (px_manager px)) px of
             (Inl e, px') \<Rightarrow> (Inl e, px')
           | (Inr (p, n), px') \<Rightarrow> (answer_ok (BUpdated (one_pool (en_later en) (p_id p) px') n), px')))"

definition delete_handler :: "api_env \<Rightarrow> string \<Rightarrow> proxy \<Rightarrow> answer \<times> proxy" where
  "delete_handler en i px =
     (case managed en (delete_pool i (en_write en) (en_shuffle en) (px_manager px)) px of
        (Inl e, px') \<Rightarrow> (Inl e, px') | (Inr n, px') \<Rightarrow> (answer_ok (BDeleted n), px'))"

text \<open>\<open>TestPool\<close>: the addresses are checked at once; \<open>order\<close> is the order in which they are done.\<close>

definition check_one ::
  "api_env \<Rightarrow> pool \<Rightarrow> string \<Rightarrow> 64 word \<Rightarrow> address \<Rightarrow> manager_event list \<times> manager \<Rightarrow> manager_event list \<times> manager" where
  "check_one en p tw version a = (\<lambda>(evs, m).
     case check_saved_one (en_err_text en) p tw version a (en_tested en a) m of (_, evs', m') \<Rightarrow> (evs @ evs', m'))"

definition check_saved :: "api_env \<Rightarrow> pool \<Rightarrow> manager \<Rightarrow> addr_result list \<times> manager_event list \<times> manager" where
  "check_saved en p m =
     (let tw = v_test_worker (m_settings m); version = check_version m (p_id p) in
      (map (\<lambda>a. fst (check_saved_one (en_err_text en) p tw version a (en_tested en a) m)) (p_addresses p),
       fold (check_one en p tw version) (en_order en (p_addresses p)) ([], m)))"

definition test_pool :: "api_env \<Rightarrow> string \<Rightarrow> manager \<Rightarrow> (api_error + addr_result list) \<times> manager_event list \<times> manager" where
  "test_pool en i m =
     (case snap_get (m_snap m) i of
        None \<Rightarrow> (Inl (pool_not_found i), [], m)
      | Some p \<Rightarrow> (case check_saved en p m of (rs, evs, m') \<Rightarrow> (checked rs, evs, m')))"

definition test_answer :: "api_env \<Rightarrow> api_error + addr_result list \<Rightarrow> answer" where
  "test_answer en res =
     (case res of Inl e \<Rightarrow> Inl e | Inr rs \<Rightarrow> answer_ok (BTested (time_sub (en_later en) (en_now en)) (map test_row rs)))"

definition test_handler :: "api_env \<Rightarrow> string \<Rightarrow> proxy \<Rightarrow> answer \<times> proxy" where
  "test_handler en i px = (case managed en (test_pool en i (px_manager px)) px of (res, px') \<Rightarrow> (test_answer en res, px'))"

definition test_config_handler :: "api_env \<Rightarrow> http_request \<Rightarrow> proxy \<Rightarrow> answer \<times> proxy" where
  "test_config_handler en r px =
     (case decode_body max_body (rq_body r) decode_input of
        Inl e \<Rightarrow> (Inl e, px)
      | Inr i \<Rightarrow> (test_answer en (test_config (set_or (in_id i) []) (i\<lparr>in_id := None\<rparr>) (en_network en) (px_manager px)), px))"

definition activate_handler :: "api_env \<Rightarrow> string \<Rightarrow> http_request \<Rightarrow> proxy \<Rightarrow> answer \<times> proxy" where
  "activate_handler en i r px =
     (case managed en (activate i (query_get ''force'' r = ''true'') ''manual'' None (en_checks en) (en_during en) (en_write en) (en_shuffle en)
             (en_later en) (px_manager px)) px of
        (Inl e, px') \<Rightarrow> (Inl e, px')
      | (Inr n, px') \<Rightarrow> (answer_ok (BActivated n (format_duration (v_switch_drain (px_values px')))), px'))"

definition fallback_handler :: "api_env \<Rightarrow> http_request \<Rightarrow> proxy \<Rightarrow> answer \<times> proxy" where
  "fallback_handler en r px =
     (case decode_body max_body (rq_body r) decode_pools of
        Inl e \<Rightarrow> (Inl e, px)
      | Inr None \<Rightarrow> (Inl (required_field ''fallback_pools_required'' ''pools''), px)
      | Inr (Some ids) \<Rightarrow>
          (case managed en (set_fallback ids (en_write en) (px_manager px)) px of
             (Inl e, px') \<Rightarrow> (Inl e, px') | (Inr _, px') \<Rightarrow> (answer_ok (BPools (pool_views (en_later en) px')), px')))"

definition reconnect_handler :: "api_env \<Rightarrow> proxy \<Rightarrow> answer \<times> proxy" where
  "reconnect_handler en px =
     (case reconnect_all (en_shuffle en) (px_manager px) of
        (n, m) \<Rightarrow> (answer_ok (BReconnecting n (format_duration (v_switch_drain (px_values px)))), set_manager m px))"

subsection \<open>The switchers\<close>

definition set_profit :: "profit \<Rightarrow> proxy \<Rightarrow> proxy" where
  "set_profit p px = px\<lparr>px_farm := (px_farm px)\<lparr>fa_profit := p\<rparr>\<rparr>"

definition profit_body :: "api_env \<Rightarrow> proxy \<Rightarrow> answer" where
  "profit_body en px = answer_ok (BProfit (profit_status_of (px_values px) (en_later en) (fa_profit (px_farm px))))"

text \<open>A check by hand is not scheduled, so it never switches.\<close>

definition profit_check_handler :: "api_env \<Rightarrow> proxy \<Rightarrow> answer \<times> proxy" where
  "profit_check_handler en px =
     (case profit_check (manager_ops (en_checks en) (en_write en) (en_shuffle en) (en_later en)) (px_values px) False
             (timed_home (fa_timed (px_farm px))) (en_tags en) (en_market en) (en_later en) (en_saved en) (en_during en)
             (fa_profit (px_farm px)) (px_manager px) of
        (_, _, p, m) \<Rightarrow> (let px' = set_profit p (set_manager m px) in (profit_body en px', px')))"

definition profit_home_handler :: "api_env \<Rightarrow> http_request \<Rightarrow> proxy \<Rightarrow> answer \<times> proxy" where
  "profit_home_handler en r px =
     (case decode_body max_body (rq_body r) (decode_one ''pool'') of
        Inl e \<Rightarrow> (Inl e, px)
      | Inr None \<Rightarrow> (Inl (required_field ''profit_home_required'' ''pool''), px)
      | Inr (Some i) \<Rightarrow>
          (case managed en (set_profit_home i (en_write en) (px_manager px)) px of
             (Inl e, px') \<Rightarrow> (Inl e, px') | (Inr _, px') \<Rightarrow> (profit_body en px', px')))"

definition network_handler :: "api_env \<Rightarrow> bool \<Rightarrow> proxy \<Rightarrow> answer \<times> proxy" where
  "network_handler en has_rtt px =
     (case network_coins (en_market en) (sn_pools (m_snap (px_manager px))) (en_later en) (fa_profit (px_farm px)) of
        (res, p) \<Rightarrow>
          (let st = watcher_status (en_gamma en) (en_later en) (fa_watcher (px_farm px));
               rtt = (if has_rtt \<and> ws_pool st \<noteq> [] then Some st else None)
           in (answer_ok (BNetwork (case res of
                   Inl e \<Rightarrow> \<lparr>nv_fetched = None, nv_btc_usd = 0, nv_coins = [], nv_error = Some e, nv_rtt = rtt\<rparr>
                 | Inr (mk, cs) \<Rightarrow> \<lparr>nv_fetched = Some (mk_fetched mk), nv_btc_usd = mk_btc_usd mk, nv_coins = cs, nv_error = None, nv_rtt = rtt\<rparr>)),
               set_profit p px)))"

definition timed_body :: "api_env \<Rightarrow> proxy \<Rightarrow> answer \<times> proxy" where
  "timed_body en px = (case timed_status_px (en_gamma en) (en_later en) px of (st, px') \<Rightarrow> (answer_ok (BTimed st), px'))"

definition timed_start_handler :: "api_env \<Rightarrow> proxy \<Rightarrow> answer \<times> proxy" where
  "timed_start_handler en px =
     (case start_now (manager_ops [] True (\<lambda>is. is) (en_later en))
             (status_env (en_gamma en) (en_later en) (fa_watcher (px_farm px)) \<lparr>te_saved := en_saved en\<rparr>) (px_values px)
             (fa_timed (px_farm px)) (px_manager px) of
        (Inl TimedOff, _) \<Rightarrow> (Inl (conflict (Msg ''timed_off'' [])), px)
      | (Inl NoTarget, _) \<Rightarrow> (Inl (conflict (Msg ''timed_no_target'' [])), px)
      | (Inr evs, t) \<Rightarrow>
          timed_body en ((set_timed t px)\<lparr>px_log := fold (\<lambda>e. en_say_timed en e (en_later en)) evs (px_log px)\<rparr>))"

subsection \<open>Reading\<close>

definition miners_handler :: "api_env \<Rightarrow> proxy \<Rightarrow> answer" where
  "miners_handler en px = answer_ok (BMiners (session_infos (en_later en) (m_reg (px_manager px))))"

definition events_handler :: "http_request \<Rightarrow> proxy \<Rightarrow> answer" where
  "events_handler r px =
     (case event_level r of Inl e \<Rightarrow> Inl e | Inr l \<Rightarrow> answer_ok (BEvents (list_at (event_limit r) l (px_log px))))"

definition chart_failed :: api_error where "chart_failed = internal (Msg ''internal'' [])"

definition history_handler :: "api_env \<Rightarrow> http_request \<Rightarrow> proxy \<Rightarrow> answer" where
  "history_handler en r px =
     (let v = px_values px in
      case history_range (en_later en) r of
        Inl e \<Rightarrow> Inl e
      | Inr (f, t, n) \<Rightarrow>
          (case query (en_disk en) (retention_of v) (en_later en) (px_history px) (of_unix f) (of_unix t) n of
             Inl _ \<Rightarrow> Inl chart_failed
           | Inr c \<Rightarrow> answer_ok (BHistory
               \<lparr>hv_from = f, hv_to = t, hv_series = c,
                hv_pool_names = fold (\<lambda>p. put (p_id p) (p_name p)) (sn_pools (m_snap (px_manager px))) [],
                hv_detail = format_duration (v_history_detail v), hv_retention = format_duration (v_history_retention v),
                hv_miners = format_duration (v_history_miners v), hv_bytes = en_disk_bytes en\<rparr>)))"

definition worker_handler :: "api_env \<Rightarrow> http_request \<Rightarrow> proxy \<Rightarrow> answer" where
  "worker_handler en r px =
     (let name = query_get ''name'' r in
      if name = [] then Inl (validation (Msg ''history_worker'' []) [])
      else (case history_range (en_later en) r of
          Inl e \<Rightarrow> Inl e
        | Inr (f, t, n) \<Rightarrow>
            (case worker_query (en_disk en) (retention_of (px_values px)) (en_later en) (px_history px) name (of_unix f) (of_unix t) n of
               Inl _ \<Rightarrow> Inl chart_failed | Inr c \<Rightarrow> answer_ok (BWorker name f t c))))"

definition workers_handler :: "api_env \<Rightarrow> http_request \<Rightarrow> proxy \<Rightarrow> answer" where
  "workers_handler en r px =
     (case history_range (en_later en) r of
        Inl e \<Rightarrow> Inl e
      | Inr (f, t, _) \<Rightarrow>
          (case workers_query (en_disk en) (retention_of (px_values px)) (en_later en) (px_history px) (of_unix f) (of_unix t) of
             Inl _ \<Rightarrow> Inl chart_failed | Inr ws \<Rightarrow> answer_ok (BWorkers f t ws)))"

subsection \<open>Settings and the bot\<close>

definition state_failed :: api_error where "state_failed = internal (Msg ''state_save_failed'' [])"

definition save_error :: "go_error \<Rightarrow> api_error" where
  "save_error e = (case e of ApiErr a \<Rightarrow> a | _ \<Rightarrow> state_failed)"

definition settings_handler :: "api_env \<Rightarrow> http_request \<Rightarrow> admin \<Rightarrow> answer \<times> admin" where
  "settings_handler en r ad =
     (case decode_body max_body (rq_body r) decode_changes of
        Inl e \<Rightarrow> (Inl e, ad)
      | Inr [] \<Rightarrow> (Inl (validation (Msg ''settings_no_changes'' []) []), ad)
      | Inr chs \<Rightarrow>
          (case save_in chs (en_write en) (ad_proxy ad) of
             (Inl e, px') \<Rightarrow> (Inl (save_error e), ad\<lparr>ad_proxy := px'\<rparr>)
           | (Inr p, px') \<Rightarrow>
               (let px1 = px'\<lparr>px_log := fold (\<lambda>c. info ''settings_changed''
                        (''settings changed: '' @ ch_key c @ '' '' @ ch_old c @ arrow @ ch_new c) (en_later en)) (pe_changes p) (px_log px')\<rparr>;
                    ad' = ad\<lparr>ad_proxy := px1\<rparr>; n = ct_total (session_counts (m_reg (px_manager px1)))
                in (answer_ok (BSaved (settings_view en ad') (pe_changes p) ((\<exists>c \<in> set (pe_changes p). ch_applies c = NewConnections) \<and> 0 < n) n), ad'))))"

definition no_telegram_token :: api_error where "no_telegram_token = conflict (Msg ''telegram_no_token'' [])"

definition set_bot :: "bot \<Rightarrow> admin \<Rightarrow> admin" where
  "set_bot b ad = ad\<lparr>ad_proxy := (ad_proxy ad)\<lparr>px_bot := b\<rparr>\<rparr>"

definition bad_gateway :: "string \<Rightarrow> string \<Rightarrow> api_error" where
  "bad_gateway code e = \<lparr>ae_status = 502, ae_code = code, ae_msg = Msg code [(''error'', PStr e)], ae_fields = []\<rparr>"

text \<open>The token that Telegram confirmed and the name of its bot, or the removal of the token.\<close>

definition token_to_set :: "api_env \<Rightarrow> string \<Rightarrow> api_error + string \<times> string" where
  "token_to_set en raw =
     (let token = trim_space raw in
      if token = [] then Inr ([], [])
      else if \<not> valid_token token then Inl (validation (Msg ''telegram_token_format'' []) [(''token'', Msg ''telegram_token_format'' [])])
      else (case check_token (en_me en) of
          Inr name \<Rightarrow> Inr (token, name)
        | Inl e \<Rightarrow>
            if is_rejected e then
              Inl \<lparr>ae_status = 422, ae_code = ''telegram_token_rejected'',
                   ae_msg = Msg ''telegram_token_rejected'' [(''error'', PStr (bot_error_text e))], ae_fields = []\<rparr>
            else Inl (bad_gateway ''telegram_unreachable'' (bot_error_text e))))"

definition token_handler :: "api_env \<Rightarrow> http_request \<Rightarrow> admin \<Rightarrow> answer \<times> admin" where
  "token_handler en r ad =
     (if \<not> ad_has_bot ad then (Inl no_telegram_token, ad)
      else
        (case decode_body max_body (rq_body r) (decode_one ''token'') of
           Inl e \<Rightarrow> (Inl e, ad)
         | Inr None \<Rightarrow> (Inl (required_field ''telegram_token_required'' ''token''), ad)
         | Inr (Some raw) \<Rightarrow>
             (case token_to_set en raw of
                Inl e \<Rightarrow> (Inl e, ad)
              | Inr (token, name) \<Rightarrow>
                  (let px = ad_proxy ad; m = px_manager px in
                   case mutate (\<lambda>f. Inr (f\<lparr>f_token := token\<rparr>, ())) (en_write en) (m_store m) of
                     (Inl _, st) \<Rightarrow> (Inl state_failed, ad\<lparr>ad_proxy := set_manager (m\<lparr>m_store := st\<rparr>) px\<rparr>)
                   | (Inr _, st) \<Rightarrow>
                       (let text = (if token = [] then ''Telegram bot token removed: alerts go to the events only'' else ''Telegram bot set: @'' @ name);
                            px' = set_manager (m\<lparr>m_store := st\<rparr>) px;
                            ad' = ad\<lparr>ad_proxy := px'\<lparr>px_bot := snd (set_token token name (px_bot px')), px_log := info ''telegram_token'' text (en_later en) (px_log px')\<rparr>\<rparr>
                        in (answer_ok (BTelegram (telegram_view ad')), ad'))))))"

definition telegram_test_handler :: "api_env \<Rightarrow> admin \<Rightarrow> answer \<times> admin" where
  "telegram_test_handler en ad =
     (if \<not> ad_has_bot ad then (Inl no_telegram_token, ad)
      else
        (let px = ad_proxy ad in
         case test_bot (v_telegram_chats (px_values px)) (en_sends en) (en_slept en) (px_bot px) of
           (err, ev, b) \<Rightarrow>
             (let ad' = ad\<lparr>ad_proxy := px\<lparr>px_bot := b,
                      px_log := (case ev of None \<Rightarrow> px_log px
                        | Some s \<Rightarrow> snd (throttled ''telegram:1'' (10 * minute) ''telegram_error'' s (en_later en) (px_log px)))\<rparr>\<rparr>
              in (case err of
                    None \<Rightarrow> answer_ok (BTelegram (telegram_view ad'))
                  | Some TestNoToken \<Rightarrow> Inl no_telegram_token
                  | Some TestNoChats \<Rightarrow> Inl (conflict (Msg ''telegram_no_chats'' []))
                  | Some (TestFailed e) \<Rightarrow> Inl (bad_gateway ''telegram_failed'' e), ad'))))"

subsection \<open>Requests\<close>

definition on_proxy :: "(proxy \<Rightarrow> answer \<times> proxy) \<Rightarrow> admin \<Rightarrow> answer \<times> admin" where
  "on_proxy h ad = (case h (ad_proxy ad) of (r, px) \<Rightarrow> (r, ad\<lparr>ad_proxy := px\<rparr>))"

definition reading :: "answer \<Rightarrow> admin \<Rightarrow> answer \<times> admin" where "reading r ad = (r, ad)"

text \<open>The handlers behind \<open>protected\<close>.\<close>

definition run_endpoint :: "api_env \<Rightarrow> endpoint \<Rightarrow> http_request \<Rightarrow> admin \<Rightarrow> answer \<times> admin" where
  "run_endpoint en ep r ad =
     (let px = ad_proxy ad; now = en_later en in
      case ep of
        EpMe \<Rightarrow> reading (answer_ok (BUser (cf_username (ad_config ad)))) ad
      | EpStatus \<Rightarrow> reading (answer_ok (BStatus (status_view (en_started en) now (ad_config ad) px))) ad
      | EpMiners \<Rightarrow> reading (miners_handler en px) ad
      | EpReconnect \<Rightarrow> on_proxy (reconnect_handler en) ad
      | EpEvents \<Rightarrow> reading (events_handler r px) ad
      | EpHistory \<Rightarrow> reading (history_handler en r px) ad
      | EpWorker \<Rightarrow> reading (worker_handler en r px) ad
      | EpWorkers \<Rightarrow> reading (workers_handler en r px) ad
      | EpProfit \<Rightarrow> reading (profit_body en px) ad
      | EpProfitCheck \<Rightarrow> on_proxy (profit_check_handler en) ad
      | EpProfitHome \<Rightarrow> on_proxy (profit_home_handler en r) ad
      | EpTimed \<Rightarrow> on_proxy (timed_body en) ad
      | EpTimedStart \<Rightarrow> on_proxy (timed_start_handler en) ad
      | EpNetwork \<Rightarrow> on_proxy (network_handler en (ad_has_rtt ad)) ad
      | EpPools \<Rightarrow> reading (answer_ok (BPools (pool_views now px))) ad
      | EpCreate \<Rightarrow> on_proxy (create_handler en r) ad
      | EpUpdate i \<Rightarrow> on_proxy (update_handler en i r) ad
      | EpDelete i \<Rightarrow> on_proxy (delete_handler en i) ad
      | EpTestConfig \<Rightarrow> on_proxy (test_config_handler en r) ad
      | EpTest i \<Rightarrow> on_proxy (test_handler en i) ad
      | EpActivate i \<Rightarrow> on_proxy (activate_handler en i r) ad
      | EpFallback \<Rightarrow> on_proxy (fallback_handler en r) ad
      | EpSettings \<Rightarrow> reading (answer_ok (BSettings (settings_view en ad))) ad
      | EpPutSettings \<Rightarrow> settings_handler en r ad
      | EpToken \<Rightarrow> token_handler en r ad
      | EpTelegramTest \<Rightarrow> telegram_test_handler en ad
      | _ \<Rightarrow> reading (Inl (not_found (Msg ''api_not_found'' []))) ad)"

definition unauthorized :: api_error where
  "unauthorized = \<lparr>ae_status = 401, ae_code = ''unauthorized'', ae_msg = Msg ''login_required'' [], ae_fields = []\<rparr>"

definition json_required :: api_error where
  "json_required = \<lparr>ae_status = 415, ae_code = ''json_required'', ae_msg = Msg ''json_required'' [], ae_fields = []\<rparr>"

definition bad_credentials :: api_error where
  "bad_credentials = \<lparr>ae_status = 401, ae_code = ''invalid_credentials'', ae_msg = Msg ''invalid_credentials'' [], ae_fields = []\<rparr>"

definition log_px :: "(log \<Rightarrow> log) \<Rightarrow> admin \<Rightarrow> admin" where
  "log_px f ad = ad\<lparr>ad_proxy := (ad_proxy ad)\<lparr>px_log := f (px_log (ad_proxy ad))\<rparr>\<rparr>"

text \<open>\<open>guardFailed\<close>: new locks are events; a caller who is locked out gets a reply.\<close>

definition guard_failed :: "string \<Rightarrow> time \<Rightarrow> attempt_result \<Rightarrow> admin \<Rightarrow> reply option \<times> admin" where
  "guard_failed ip now res ad =
     (let ad = (if 0 < ar_ip_lock res
              then log_px (warn ''login_locked'' (''admin login from '' @ ip @ '' locked for '' @ format_duration (ar_ip_lock res) @ '' after '' @
                      show_nat ip_fail_limit @ '' failed attempts'') now) ad
              else ad);
          ad = (if ar_global_lock res
              then log_px (warn ''login_locked_global'' (''admin login locked for everyone: '' @ show_nat global_fail_limit @ '' failed attempts within '' @
                      format_duration global_fail_window @ '' (possible distributed brute force)'') now) ad
              else ad);
          seconds = max 1 (round_seconds (time_sub (ar_retry_at res) now))
      in if \<not> ar_blocked res then (None, ad)
         else (Some \<lparr>rs_status = 429, rs_retry = Some seconds, rs_cookie = None,
                 rs_body = BError \<lparr>ae_status = 429, ae_code = ''too_many_attempts'',
                   ae_msg = Msg (if ar_global res then ''login_locked_global'' else ''login_locked'') [(''seconds'', PInt seconds)], ae_fields = []\<rparr>\<rparr>, ad))"

definition set_auth :: "auth \<Rightarrow> admin \<Rightarrow> admin" where "set_auth a ad = ad\<lparr>ad_auth := a\<rparr>"

definition login_handler :: "(string \<Rightarrow> 'd) \<Rightarrow> api_env \<Rightarrow> http_request \<Rightarrow> admin \<Rightarrow> reply \<times> admin" where
  "login_handler sha en r ad =
     (let ip = client_ip (rq_ip r); now = en_now en in
      if \<not> json_only r then (error_reply json_required, ad)
      else
        (case decode_body max_login_body (rq_body r) decode_login of
           Inl e \<Rightarrow> (error_reply e, ad)
         | Inr (user, password) \<Rightarrow>
             (case attempt_login sha ip user password (en_random en) now (en_guard_write en) (ad_auth ad) of
                ((i, res), a) \<Rightarrow>
                  (case guard_failed ip now res (set_auth a ad) of
                     (Some rep, ad1) \<Rightarrow> (rep, ad1)
                   | (None, ad1) \<Rightarrow>
                       if \<not> ar_ok res then
                         (error_reply bad_credentials,
                          log_px (\<lambda>l. snd (throttled (''login_failed:'' @ ip) minute ''login_failed'' (''failed admin login from '' @ ip) now l)) ad1)
                       else
                         ((plain_reply 200 (BUser (cf_username (ad_config ad))))
                            \<lparr>rs_cookie := Some (i, session_lifetime div second, secure_request (rq_tls r) (rq_proto r))\<rparr>, ad1)))))"

definition logout_handler :: "http_request \<Rightarrow> admin \<Rightarrow> reply \<times> admin" where
  "logout_handler r ad =
     (if \<not> json_only r then (error_reply json_required, ad)
      else ((plain_reply 200 BDone)\<lparr>rs_cookie := Some ([], -1, secure_request (rq_tls r) (rq_proto r))\<rparr>,
            set_auth (logout (rq_cookie r) (ad_auth ad)) ad))"

text \<open>The address of the client, as the login sees it.\<close>

definition auth_view :: "http_request \<Rightarrow> auth_request" where
  "auth_view r = \<lparr>rq_ip = client_ip (rq_ip r), rq_authorization = rq_authorization r, rq_cookie = rq_cookie r\<rparr>"

definition protected :: "(string \<Rightarrow> 'd) \<Rightarrow> api_env \<Rightarrow> endpoint \<Rightarrow> http_request \<Rightarrow> admin \<Rightarrow> reply \<times> admin" where
  "protected sha en ep r ad =
     (case authenticate sha (auth_view r) (en_now en) (en_guard_write en) (ad_auth ad) of
        ((ok, res), a) \<Rightarrow>
          (case guard_failed (client_ip (rq_ip r)) (en_now en) res (set_auth a ad) of
             (Some rep, ad1) \<Rightarrow> (rep, ad1)
           | (None, ad1) \<Rightarrow>
               if \<not> ok then (error_reply unauthorized, ad1)
               else if \<not> json_only r then (error_reply json_required, ad1)
               else (case run_endpoint en ep r ad1 of
                   (Inl e, ad2) \<Rightarrow> (error_reply e, ad2) | (Inr (n, b), ad2) \<Rightarrow> (plain_reply n b, ad2))))"

text \<open>What the mux does; the web interface and the answers of \<open>net/http\<close> itself have no body here.\<close>

definition serve_request :: "(string \<Rightarrow> 'd) \<Rightarrow> api_env \<Rightarrow> http_request \<Rightarrow> admin \<Rightarrow> reply \<times> admin" where
  "serve_request sha en r ad =
     (let ep = route (rq_method r) (rq_path r) in
      case ep of
        EpHealth \<Rightarrow> (plain_reply 200 BHealthy, ad)
      | EpLogin \<Rightarrow> login_handler sha en r ad
      | EpLogout \<Rightarrow> logout_handler r ad
      | EpUnknown \<Rightarrow> (error_reply (not_found (Msg ''api_not_found'' [])), ad)
      | EpWeb \<Rightarrow> (plain_reply 200 (BElsewhere ep), ad)
      | EpRedirect \<Rightarrow> (plain_reply 301 (BElsewhere ep), ad)
      | EpNotAllowed \<Rightarrow> (plain_reply 405 (BElsewhere ep), ad)
      | _ \<Rightarrow> protected sha en ep r ad)"

subsection \<open>What a request leaves alone\<close>

definition same_pools :: "manager \<Rightarrow> manager \<Rightarrow> bool" where
  "same_pools m m' \<longleftrightarrow> m_snap m' = m_snap m \<and> m_store m' = m_store m"

text \<open>Pools, state file, settings and the token of the bot are as before.\<close>

definition kept :: "proxy \<Rightarrow> proxy \<Rightarrow> bool" where
  "kept px px' \<longleftrightarrow> same_pools (px_manager px) (px_manager px') \<and> px_settings px' = px_settings px \<and> bt_token (px_bot px') = bt_token (px_bot px)"

lemma same_pools_refl [simp]: "same_pools m m"
  by (simp add: same_pools_def)

lemma kept_refl [simp]: "kept px px"
  by (simp add: kept_def same_pools_def)

lemma kept_trans: "kept a b \<Longrightarrow> kept b c \<Longrightarrow> kept a c"
  by (simp add: kept_def same_pools_def)

lemma managed_kept:
  assumes "managed en (r, evs, m) px = (r', px')" "same_pools (px_manager px) m"
  shows "kept px px'"
  using assms by (auto simp: managed_def kept_def same_pools_def)

lemma transact_failed: "transact fn w m = (Inl e, m') \<Longrightarrow> m' = m"
  by (auto simp: transact_def mutate_def split: sum.splits option.splits prod.splits if_splits)

lemma edits_failed:
  "create_pool i w m = (Inl e, evs, m') \<Longrightarrow> m' = m"
  "update_pool j i rc w sh m = (Inl e, evs, m') \<Longrightarrow> m' = m"
  "delete_pool j w sh m = (Inl e, evs, m') \<Longrightarrow> m' = m"
  "set_fallback js w m = (Inl e, evs, m') \<Longrightarrow> m' = m"
  "set_profit_home j w m = (Inl e, evs, m') \<Longrightarrow> m' = m"
  by (auto simp: create_pool_def update_pool_def delete_pool_def set_fallback_def set_profit_home_def Let_def
        dest: transact_failed split: sum.splits prod.splits)

lemma activate_failed:
  assumes "activate i force why fb checks during w sh now m = (Inl e, evs, m')" "\<forall>m. same_pools m (during m)"
  shows "same_pools m m'"
proof -
  have "m' = m \<or> m' = during m"
    using assms(1) by (auto simp: activate_def activate_commit_def Let_def dest: transact_failed split: sum.splits prod.splits option.splits if_splits)
  then show ?thesis using assms(2) by (auto simp: same_pools_def)
qed

lemma check_saved_one_pools: "check_saved_one f p tw v a out m = (r, evs, m') \<Longrightarrow> same_pools m m'"
  by (auto simp: check_saved_one_def record_check_def on_health_def same_pools_def Let_def split: saved_outcome.splits prod.splits)

lemma check_saved_pools: "check_saved en p m = (rs, evs, m') \<Longrightarrow> same_pools m m'"
proof -
  have one: "check_one en p tw v a (evs, m) = (evs1, m1) \<Longrightarrow> same_pools m m1" for tw v a evs m evs1 m1
    using check_saved_one_pools by (fastforce simp: check_one_def split: prod.splits)
  have "fold (check_one en p tw v) as (evs0, m0) = (evs1, m1) \<Longrightarrow> same_pools m0 m1" for tw v as evs0 m0 evs1 m1
  proof (induction as arbitrary: evs0 m0)
    case (Cons a as)
    obtain evs2 m2 where s: "check_one en p tw v a (evs0, m0) = (evs2, m2)" by fastforce
    then have "same_pools m2 m1" using Cons by simp
    then show ?case using one [OF s] by (simp add: same_pools_def)
  qed (simp add: same_pools_def)
  then show "check_saved en p m = (rs, evs, m') \<Longrightarrow> same_pools m m'" by (auto simp: check_saved_def Let_def)
qed

lemma test_pool_pools: "test_pool en i m = (r, evs, m') \<Longrightarrow> same_pools m m'"
  by (auto simp: test_pool_def dest: check_saved_pools split: option.splits prod.splits)

subsection \<open>Refused requests\<close>

lemma save_in_failed_kept: "save_in chs w px = (Inl e, px') \<Longrightarrow> kept px px'"
  using save_in_failed [of chs w px e px'] by simp

lemma timed_body_kept: "timed_body en px = (r, px') \<Longrightarrow> kept px px'"
  using timed_status_px_simps [of "en_gamma en" "en_later en" px]
  by (cases "timed_status_px (en_gamma en) (en_later en) px") (auto simp: timed_body_def kept_def same_pools_def)

lemma timed_body_fine: "timed_body en px = (r, px') \<Longrightarrow> \<exists>b. r = Inr (200, b)"
  by (auto simp: timed_body_def answer_ok_def split: prod.splits)

lemma set_profit_kept [simp]: "kept px (set_profit p px)"
  by (simp add: kept_def same_pools_def set_profit_def)

lemma network_kept: "network_handler en b px = (r, px') \<Longrightarrow> kept px px'"
  by (auto simp: network_handler_def Let_def split: prod.splits)

lemma test_bot_token: "test_bot chats net slept b = (err, ev, b') \<Longrightarrow> bt_token b' = bt_token b"
  by (auto simp: test_bot_def ok_bot_def fail_bot_def fail_as_def update_as_def set_err_def Let_def split: if_splits list.splits prod.splits)

definition quiet_during :: "api_env \<Rightarrow> bool" where
  "quiet_during en \<longleftrightarrow> (\<forall>m. same_pools m (en_during en m))"

lemma managed_failed:
  assumes "managed en res px = (Inl e, px')" "\<And>evs m. res = (Inl e, evs, m) \<Longrightarrow> same_pools (px_manager px) m"
  shows "kept px px'"
proof -
  obtain r evs m where res: "res = (r, evs, m)" by (metis prod.exhaust)
  then have r: "r = Inl e" using assms(1) by (simp add: managed_def)
  then have "same_pools (px_manager px) m" using assms(2) [of evs m] res by simp
  with assms(1) show ?thesis unfolding res by (rule managed_kept)
qed

lemma create_failed:
  assumes "create_handler en r px = (Inl e, px')"
  shows "kept px px'"
proof (cases "decode_body max_body (rq_body r) decode_input")
  case (Inr i)
  then have "managed en (create_pool i (en_write en) (px_manager px)) px = (Inl e, px')"
    using assms by (auto simp: create_handler_def split: sum.splits prod.splits)
  then show ?thesis by (rule managed_failed) (auto dest: edits_failed)
qed (use assms in \<open>simp add: create_handler_def\<close>)

lemma update_failed:
  assumes "update_handler en i r px = (Inl e, px')"
  shows "kept px px'"
proof (cases "decode_body max_body (rq_body r) decode_input")
  case (Inr inp)
  then have "managed en (update_pool i (inp\<lparr>in_id := None\<rparr>) (query_get ''reconnect'' r = ''true'') (en_write en) (en_shuffle en) (px_manager px)) px = (Inl e, px')"
    using assms by (auto simp: update_handler_def answer_ok_def split: sum.splits prod.splits)
  then show ?thesis by (rule managed_failed) (auto dest: edits_failed)
qed (use assms in \<open>simp add: update_handler_def\<close>)

lemma delete_failed:
  assumes "delete_handler en i px = (Inl e, px')"
  shows "kept px px'"
proof -
  have "managed en (delete_pool i (en_write en) (en_shuffle en) (px_manager px)) px = (Inl e, px')"
    using assms by (auto simp: delete_handler_def answer_ok_def split: sum.splits prod.splits)
  then show ?thesis by (rule managed_failed) (auto dest: edits_failed)
qed

lemma test_kept: "test_handler en i px = (res, px') \<Longrightarrow> kept px px'"
proof -
  assume h: "test_handler en i px = (res, px')"
  obtain r evs m where t: "test_pool en i (px_manager px) = (r, evs, m)" by (metis prod.exhaust)
  obtain r' px1 where g: "managed en (r, evs, m) px = (r', px1)" by fastforce
  have "px' = px1" using h t g by (simp add: test_handler_def)
  then show ?thesis using managed_kept [OF g] test_pool_pools [OF t] by simp
qed

lemma test_config_kept: "test_config_handler en r px = (res, px') \<Longrightarrow> px' = px"
  by (auto simp: test_config_handler_def split: sum.splits)

lemma activate_handler_failed:
  assumes "activate_handler en i r px = (Inl e, px')" "quiet_during en"
  shows "kept px px'"
proof -
  have "managed en (activate i (query_get ''force'' r = ''true'') ''manual'' None (en_checks en) (en_during en) (en_write en) (en_shuffle en)
      (en_later en) (px_manager px)) px = (Inl e, px')"
    using assms(1) by (auto simp: activate_handler_def answer_ok_def split: sum.splits prod.splits)
  then show ?thesis using assms(2) unfolding quiet_during_def by (rule_tac managed_failed) (auto intro: activate_failed)
qed

lemma fallback_failed:
  assumes "fallback_handler en r px = (Inl e, px')"
  shows "kept px px'"
proof (cases "\<exists>ids. decode_body max_body (rq_body r) decode_pools = Inr (Some ids)")
  case True
  then obtain ids where "decode_body max_body (rq_body r) decode_pools = Inr (Some ids)" by blast
  then have "managed en (set_fallback ids (en_write en) (px_manager px)) px = (Inl e, px')"
    using assms by (auto simp: fallback_handler_def answer_ok_def split: sum.splits prod.splits)
  then show ?thesis by (rule managed_failed) (auto dest: edits_failed)
qed (use assms in \<open>auto simp: fallback_handler_def split: sum.splits option.splits\<close>)

lemma profit_home_failed:
  assumes "profit_home_handler en r px = (Inl e, px')"
  shows "kept px px'"
proof (cases "\<exists>i. decode_body max_body (rq_body r) (decode_one ''pool'') = Inr (Some i)")
  case True
  then obtain i where "decode_body max_body (rq_body r) (decode_one ''pool'') = Inr (Some i)" by blast
  then have "managed en (set_profit_home i (en_write en) (px_manager px)) px = (Inl e, px')"
    using assms by (auto simp: profit_home_handler_def profit_body_def answer_ok_def split: sum.splits prod.splits)
  then show ?thesis by (rule managed_failed) (auto dest: edits_failed)
qed (use assms in \<open>auto simp: profit_home_handler_def split: sum.splits option.splits\<close>)

lemma timed_start_kept: "timed_start_handler en px = (res, px') \<Longrightarrow> kept px px'"
proof -
  assume h: "timed_start_handler en px = (res, px')"
  obtain s t where st: "start_now (manager_ops [] True (\<lambda>is. is) (en_later en))
             (status_env (en_gamma en) (en_later en) (fa_watcher (px_farm px)) \<lparr>te_saved := en_saved en\<rparr>) (px_values px)
             (fa_timed (px_farm px)) (px_manager px) = (s, t)" by fastforce
  show ?thesis
  proof (cases s)
    case (Inl e)
    then show ?thesis using h st by (cases e) (auto simp: timed_start_handler_def)
  next
    case (Inr evs)
    define px1 where "px1 = (set_timed t px)\<lparr>px_log := fold (\<lambda>e. en_say_timed en e (en_later en)) evs (px_log px)\<rparr>"
    have "timed_body en px1 = (res, px')" using h st Inr by (simp add: timed_start_handler_def px1_def)
    then have "kept px1 px'" by (rule timed_body_kept)
    moreover have "kept px px1" by (simp add: px1_def kept_def)
    ultimately show ?thesis using kept_trans by blast
  qed
qed

lemma settings_failed:
  assumes "settings_handler en r ad = (Inl e, ad')"
  shows "kept (ad_proxy ad) (ad_proxy ad')"
  using assms save_in_failed_kept
  by (auto simp: settings_handler_def answer_ok_def Let_def split: sum.splits list.splits prod.splits)

lemma token_failed:
  assumes "token_handler en r ad = (Inl e, ad')"
  shows "kept (ad_proxy ad) (ad_proxy ad')"
proof (cases "ad_has_bot ad \<and> (\<exists>raw t. decode_body max_body (rq_body r) (decode_one ''token'') = Inr (Some raw) \<and> token_to_set en raw = Inr t)")
  case True
  then obtain raw token name where t: "ad_has_bot ad" "decode_body max_body (rq_body r) (decode_one ''token'') = Inr (Some raw)"
    "token_to_set en raw = Inr (token, name)" by (metis surj_pair)
  obtain res st where m: "mutate (\<lambda>f. Inr (f\<lparr>f_token := token\<rparr>, ())) (en_write en) (m_store (px_manager (ad_proxy ad))) = (res, st)" by fastforce
  have "res = Inl x \<Longrightarrow> st = m_store (px_manager (ad_proxy ad))" for x
    using m by (auto simp: mutate_def split: option.splits if_splits)
  then show ?thesis using assms t m by (cases res) (auto simp: token_handler_def answer_ok_def Let_def kept_def same_pools_def)
qed (use assms in \<open>auto simp: token_handler_def split: sum.splits option.splits if_splits\<close>)

lemma telegram_test_kept: "telegram_test_handler en ad = (res, ad') \<Longrightarrow> kept (ad_proxy ad) (ad_proxy ad')"
  using test_bot_token
  by (auto simp: telegram_test_handler_def kept_def Let_def split: if_splits prod.splits)

lemma reconnect_fine: "reconnect_handler en px = (res, px') \<Longrightarrow> \<exists>b. res = Inr (200, b)"
  by (auto simp: reconnect_handler_def answer_ok_def split: prod.splits)

lemma profit_check_fine: "profit_check_handler en px = (res, px') \<Longrightarrow> \<exists>b. res = Inr (200, b)"
  by (auto simp: profit_check_handler_def profit_body_def answer_ok_def Let_def split: prod.splits)

lemma on_proxyE:
  assumes "on_proxy h ad = (res, ad')"
  obtains px' where "h (ad_proxy ad) = (res, px')" "ad' = ad\<lparr>ad_proxy := px'\<rparr>"
  using assms by (auto simp: on_proxy_def split: prod.splits)

lemma endpoint_failed:
  assumes "run_endpoint en ep r ad = (Inl e, ad')" "quiet_during en"
  shows "kept (ad_proxy ad) (ad_proxy ad')"
proof -
  have on: "kept (ad_proxy ad) (ad_proxy ad')" if "on_proxy h ad = (Inl e, ad')" "\<And>px'. h (ad_proxy ad) = (Inl e, px') \<Longrightarrow> kept (ad_proxy ad) px'" for h
    using that by (auto elim: on_proxyE)
  show ?thesis
    using assms
    by (cases ep)
      (auto simp: run_endpoint_def reading_def Let_def
        dest!: on intro: create_failed update_failed delete_failed test_kept activate_handler_failed fallback_failed profit_home_failed
          timed_start_kept settings_failed token_failed telegram_test_kept timed_body_kept network_kept
        dest: test_config_kept reconnect_fine profit_check_fine)
qed


lemma endpoint_status: "run_endpoint en ep r ad = (Inr (n, b), ad') \<Longrightarrow> n = 200 \<or> n = 201"
proof -
  have on: "on_proxy h ad = (Inr (n, b), ad') \<Longrightarrow> (\<And>px px'. h px = (Inr (n, b), px') \<Longrightarrow> n = 200 \<or> n = 201) \<Longrightarrow> n = 200 \<or> n = 201" for h
    by (erule on_proxyE) blast
  have m: "managed en x px = (Inr y, px') \<Longrightarrow> True" for x :: "(api_error + 'z) \<times> manager_event list \<times> manager" and px y px' by simp
  note defs = answer_ok_def reading_def profit_body_def miners_handler_def events_handler_def history_handler_def worker_handler_def workers_handler_def
  assume e: "run_endpoint en ep r ad = (Inr (n, b), ad')"
  show ?thesis
  proof (cases ep)
    case EpCreate
    then show ?thesis using e by (auto simp: run_endpoint_def create_handler_def Let_def elim!: on_proxyE split: sum.splits prod.splits)
  next
    case (EpUpdate i)
    then show ?thesis using e by (auto simp: run_endpoint_def update_handler_def defs Let_def elim!: on_proxyE split: sum.splits prod.splits)
  next
    case (EpDelete i)
    then show ?thesis using e by (auto simp: run_endpoint_def delete_handler_def defs Let_def elim!: on_proxyE split: sum.splits prod.splits)
  next
    case (EpActivate i)
    then show ?thesis using e by (auto simp: run_endpoint_def activate_handler_def defs Let_def elim!: on_proxyE split: sum.splits prod.splits)
  next
    case EpFallback
    then show ?thesis using e by (auto simp: run_endpoint_def fallback_handler_def defs Let_def elim!: on_proxyE split: sum.splits option.splits prod.splits)
  next
    case EpProfitHome
    then show ?thesis using e by (auto simp: run_endpoint_def profit_home_handler_def defs Let_def elim!: on_proxyE split: sum.splits option.splits prod.splits)
  next
    case EpTestConfig
    then show ?thesis using e by (auto simp: run_endpoint_def test_config_handler_def test_answer_def defs Let_def elim!: on_proxyE split: sum.splits)
  next
    case (EpTest i)
    then show ?thesis using e by (auto simp: run_endpoint_def test_handler_def test_answer_def defs Let_def elim!: on_proxyE split: sum.splits prod.splits)
  next
    case EpTimedStart
    then show ?thesis using e
      by (auto simp: run_endpoint_def timed_start_handler_def Let_def elim!: on_proxyE dest!: timed_body_fine split: sum.splits prod.splits start_error.splits)
  next
    case EpTimed
    then show ?thesis using e by (auto simp: run_endpoint_def Let_def elim!: on_proxyE dest!: timed_body_fine)
  next
    case EpPutSettings
    then show ?thesis using e by (auto simp: run_endpoint_def settings_handler_def defs Let_def split: sum.splits list.splits prod.splits)
  next
    case EpToken
    then show ?thesis using e by (auto simp: run_endpoint_def token_handler_def defs Let_def split: sum.splits option.splits prod.splits if_splits)
  next
    case EpTelegramTest
    then show ?thesis using e
      by (auto simp: run_endpoint_def telegram_test_handler_def defs Let_def split: if_splits option.splits prod.splits test_error.splits)
  next
    case EpNetwork
    then show ?thesis using e by (auto simp: run_endpoint_def network_handler_def defs Let_def elim!: on_proxyE split: prod.splits)
  next
    case EpReconnect
    then show ?thesis using e by (auto simp: run_endpoint_def Let_def elim!: on_proxyE dest!: reconnect_fine)
  next
    case EpProfitCheck
    then show ?thesis using e by (auto simp: run_endpoint_def Let_def elim!: on_proxyE dest!: profit_check_fine)
  next
    case EpHistory
    then show ?thesis using e by (auto simp: run_endpoint_def defs Let_def split: sum.splits)
  next
    case EpWorker
    then show ?thesis using e by (auto simp: run_endpoint_def defs Let_def split: sum.splits if_splits)
  next
    case EpWorkers
    then show ?thesis using e by (auto simp: run_endpoint_def defs Let_def split: sum.splits)
  next
    case EpEvents
    then show ?thesis using e by (auto simp: run_endpoint_def defs Let_def split: sum.splits)
  qed (use e in \<open>auto simp: run_endpoint_def defs Let_def\<close>)
qed

lemma reading_kept:
  assumes "reads_only ep" "run_endpoint en ep r ad = (res, ad')"
  shows "kept (ad_proxy ad) (ad_proxy ad')"
  using assms by (cases ep)
    (auto simp: reads_only_def run_endpoint_def reading_def Let_def elim!: on_proxyE dest: timed_body_kept network_kept)

lemma guard_failed_kept: "guard_failed ip now res ad = (rep, ad') \<Longrightarrow> kept (ad_proxy ad) (ad_proxy ad') \<and> ad_auth ad' = ad_auth ad \<and>
    (rep = None \<longleftrightarrow> \<not> ar_blocked res) \<and> (\<forall>x. rep = Some x \<longrightarrow> rs_status x = 429 \<and> rs_cookie x = None)"
  by (auto simp: guard_failed_def log_px_def kept_def Let_def split: if_splits)

subsection \<open>Who changes what\<close>

text \<open>The login of a request, as it is checked.\<close>

definition logged_in :: "(string \<Rightarrow> 'd) \<Rightarrow> api_env \<Rightarrow> http_request \<Rightarrow> admin \<Rightarrow> bool" where
  "logged_in sha en r ad \<longleftrightarrow>
     (case fst (authenticate sha (auth_view r) (en_now en) (en_guard_write en) (ad_auth ad)) of (ok, res) \<Rightarrow> ok \<and> \<not> ar_blocked res)"

lemma protected_cases:
  assumes "protected sha en ep r ad = (rep, ad')"
  obtains (refused) "kept (ad_proxy ad) (ad_proxy ad')" "400 \<le> rs_status rep" "rs_cookie rep = None"
  | (failed) ad1 e where "logged_in sha en r ad" "json_only r" "kept (ad_proxy ad) (ad_proxy ad1)"
      "run_endpoint en ep r ad1 = (Inl e, ad')" "rep = error_reply e"
  | (answered) ad1 n b where "logged_in sha en r ad" "json_only r" "kept (ad_proxy ad) (ad_proxy ad1)"
      "run_endpoint en ep r ad1 = (Inr (n, b), ad')" "rep = plain_reply n b"
proof -
  obtain ok res a where a: "authenticate sha (auth_view r) (en_now en) (en_guard_write en) (ad_auth ad) = ((ok, res), a)" by (metis surj_pair)
  obtain blocked ad1 where g: "guard_failed (client_ip (rq_ip r)) (en_now en) res (set_auth a ad) = (blocked, ad1)" by fastforce
  note k = guard_failed_kept [OF g]
  have k1: "kept (ad_proxy ad) (ad_proxy ad1)" using k by (simp add: set_auth_def)
  show ?thesis
  proof (cases blocked)
    case (Some x)
    then have "rep = x" "ad' = ad1" using assms a g by (simp_all add: protected_def)
    then show ?thesis using refused k k1 Some by auto
  next
    case None
    then have nb: "\<not> ar_blocked res" using k by simp
    show ?thesis
    proof (cases "ok \<and> json_only r")
      case True
      obtain y ad2 where run: "run_endpoint en ep r ad1 = (y, ad2)" by fastforce
      have l: "logged_in sha en r ad" using a True nb by (simp add: logged_in_def)
      show ?thesis
      proof (cases y)
        case (Inl e)
        then show ?thesis using failed [OF l _ k1] True assms a g None run by (simp add: protected_def)
      next
        case (Inr nb')
        obtain n b where "nb' = (n, b)" by fastforce
        then show ?thesis using answered [OF l _ k1] True assms a g None run Inr by (simp add: protected_def)
      qed
    next
      case False
      then have "rep = error_reply unauthorized \<or> rep = error_reply json_required" "ad' = ad1"
        using assms a g None by (auto simp: protected_def split: if_splits)
      then show ?thesis using refused k1 by (auto simp: error_reply_def plain_reply_def unauthorized_def json_required_def)
    qed
  qed
qed

lemma serve_protected: "\<not> open_endpoint (route (rq_method r) (rq_path r)) \<Longrightarrow>
    serve_request sha en r ad = protected sha en (route (rq_method r) (rq_path r)) r ad"
  by (cases "route (rq_method r) (rq_path r)") (simp_all add: serve_request_def open_endpoint_def)

lemma login_kept: "login_handler sha en r ad = (rep, ad') \<Longrightarrow> kept (ad_proxy ad) (ad_proxy ad')"
proof -
  assume l: "login_handler sha en r ad = (rep, ad')"
  show ?thesis
  proof (cases "json_only r \<and> (\<exists>x. decode_body max_login_body (rq_body r) decode_login = Inr x)")
    case True
    then obtain user pw where d: "decode_body max_login_body (rq_body r) decode_login = Inr (user, pw)" by (metis surj_pair)
    obtain i res a where a: "attempt_login sha (client_ip (rq_ip r)) user pw (en_random en) (en_now en) (en_guard_write en) (ad_auth ad) = ((i, res), a)"
      by (metis surj_pair)
    obtain bl ad1 where g: "guard_failed (client_ip (rq_ip r)) (en_now en) res (set_auth a ad) = (bl, ad1)" by fastforce
    have "kept (ad_proxy ad) (ad_proxy ad1)" using guard_failed_kept [OF g] by (simp add: set_auth_def)
    moreover have "kept (ad_proxy ad1) (ad_proxy ad')"
      using l True d a g by (cases bl) (auto simp: login_handler_def log_px_def kept_def Let_def split: if_splits)
    ultimately show ?thesis using kept_trans by blast
  qed (use l in \<open>auto simp: login_handler_def Let_def split: if_splits sum.splits\<close>)
qed

lemma open_kept:
  assumes "open_endpoint (route (rq_method r) (rq_path r))" "serve_request sha en r ad = (rep, ad')"
  shows "kept (ad_proxy ad) (ad_proxy ad')"
  using assms login_kept by (auto simp: open_endpoint_def serve_request_def logout_handler_def set_auth_def split: if_splits)

text \<open>C4: only an administrator changes the farm: if a request changes the pools, the state file, the settings or the token
  of the bot, then it was authenticated by a caller who is not locked out, its body is declared as JSON, which no form of
  another site can send, and its method is not one of reading.\<close>

theorem api_changes_need_login:
  assumes "serve_request sha en r ad = (rep, ad')" "\<not> kept (ad_proxy ad) (ad_proxy ad')"
  shows "logged_in sha en r ad \<and> rq_media r = Some ''application/json'' \<and> rq_method r \<notin> {''GET'', ''HEAD'', ''OPTIONS''}"
proof -
  let ?ep = "route (rq_method r) (rq_path r)"
  have o: "\<not> open_endpoint ?ep" using open_kept assms by blast
  have p: "protected sha en ?ep r ad = (rep, ad')" using assms(1) serve_protected [OF o, of sha en ad] by simp
  from p obtain ad1 x where run: "logged_in sha en r ad" "json_only r" "kept (ad_proxy ad) (ad_proxy ad1)" "run_endpoint en ?ep r ad1 = (x, ad')"
    by (cases rule: protected_cases) (use assms(2) in auto)
  have "rq_method r \<notin> {''GET'', ''HEAD'', ''OPTIONS''}"
  proof
    assume "rq_method r \<in> {''GET'', ''HEAD'', ''OPTIONS''}"
    then have "reads_only ?ep" using route_safe_method o by blast
    then show False using reading_kept [OF _ run(4)] run(3) assms(2) kept_trans by blast
  qed
  then show ?thesis using run(1,2) by (simp add: json_only_def)
qed

text \<open>C17: a request that is refused changes nothing: if the status of the reply is 400 or more, the pools, the state
  file, the settings and the token of the bot are as before, if the program leaves the pools alone while it checks them.\<close>

theorem refused_request_changes_nothing:
  assumes "serve_request sha en r ad = (rep, ad')" "400 \<le> rs_status rep" "quiet_during en"
  shows "kept (ad_proxy ad) (ad_proxy ad')"
proof (cases "open_endpoint (route (rq_method r) (rq_path r))")
  case True
  then show ?thesis using open_kept assms(1) by blast
next
  case False
  have "protected sha en (route (rq_method r) (rq_path r)) r ad = (rep, ad')" using assms(1) serve_protected [OF False, of sha en ad] by simp
  then show ?thesis
  proof (cases rule: protected_cases)
    case (failed ad1 e)
    then show ?thesis using endpoint_failed [OF _ assms(3)] kept_trans by blast
  next
    case (answered ad1 n b)
    then show ?thesis using endpoint_status assms(2) by (fastforce simp: plain_reply_def)
  qed
qed

subsection \<open>Replies and secrets\<close>

definition repassword :: "(pool \<Rightarrow> string) \<Rightarrow> pool \<Rightarrow> pool" where
  "repassword f p = p\<lparr>p_password := f p\<rparr>"

lemma repassword_simps [simp]:
  "p_id (repassword f p) = p_id p" "p_name (repassword f p) = p_name p" "p_coin (repassword f p) = p_coin p"
  "p_addresses (repassword f p) = p_addresses p" "p_tls (repassword f p) = p_tls p" "p_tls_skip_verify (repassword f p) = p_tls_skip_verify p"
  "p_username (repassword f p) = p_username p" "p_profit_switch (repassword f p) = p_profit_switch p"
  "p_timed_target (repassword f p) = p_timed_target p" "p_solo (repassword f p) = p_solo p" "p_profit_home (repassword f p) = p_profit_home p"
  "p_password (repassword f p) = f p"
  by (simp_all add: repassword_def)

definition other_passwords :: "(pool \<Rightarrow> string) \<Rightarrow> store \<Rightarrow> manager \<Rightarrow> manager" where
  "other_passwords f st m = m\<lparr>m_store := st, m_snap := (m_snap m)\<lparr>sn_pools := map (repassword f) (sn_pools (m_snap m))\<rparr>\<rparr>"

lemma other_passwords_simps [simp]:
  "sn_pools (m_snap (other_passwords f st m)) = map (repassword f) (sn_pools (m_snap m))" "sn_active (m_snap (other_passwords f st m)) = sn_active (m_snap m)"
  "sn_fallback (m_snap (other_passwords f st m)) = sn_fallback (m_snap m)" "m_health (other_passwords f st m) = m_health m"
  "m_reg (other_passwords f st m) = m_reg m" "m_last_switch (other_passwords f st m) = m_last_switch m"
  by (simp_all add: other_passwords_def)

lemma find_repassword: "find_pool (map (repassword f) ps) i = map_option (repassword f) (find_pool ps i)"
  by (induction ps) (auto simp: find_pool_def)

lemma snap_role_passwords [simp]: "snap_role (m_snap (other_passwords f st m)) i = snap_role (m_snap m) i"
  by (simp add: snap_role_def)

lemma health_of_passwords [simp]: "health_of (map (repassword f) ps) hs i = health_of ps hs i"
proof -
  have "health_step ((repassword f p)\<lparr>p_id := i\<rparr>) ph hs = health_step (p\<lparr>p_id := i\<rparr>) ph hs" for p ph
    by (simp add: fun_eq_iff health_step_def Let_def split: option.split)
  then show ?thesis by (cases "map_of (hs_pools hs) i"; cases "find_pool ps i") (simp_all add: health_of_def find_repassword)
qed

lemma pool_health_passwords [simp]:
  "pool_health_of (other_passwords f st m) i = pool_health_of m i" "pool_status (other_passwords f st m) i = pool_status m i"
  by (simp_all add: pool_health_of_def pool_status_def)

lemma address_healths_passwords [simp]: "address_healths hs (repassword f p) = address_healths hs p"
  by (simp add: address_healths_def Let_def split: option.split)

lemma mode_passwords [simp]: "mode (other_passwords f st m) = mode m"
  by (simp add: mode_def)

lemma effective_passwords [simp]: "effective (other_passwords f st m) = effective m"
proof -
  let ?g = "\<lambda>m i. if i = [] then None
      else (case snap_get (m_snap m) i of None \<Rightarrow> None | Some p \<Rightarrow> if pool_status m i = Down then None else Some p)"
  have "?g (other_passwords f st m) i = map_option (repassword f) (?g m i)" for i
    by (simp add: snap_get_def find_repassword split: option.split)
  then have "List.map_filter (?g (other_passwords f st m)) is = map (repassword f) (List.map_filter (?g m) is)" for "is"
    by (induction "is") (auto simp: List.map_filter_simps split: option.splits)
  then have "candidates (other_passwords f st m) (m_snap (other_passwords f st m)) = map (repassword f) (candidates m (m_snap m))"
    by (simp add: candidates_def)
  then show ?thesis by (simp add: effective_def split: list.split)
qed

text \<open>What is not to be shown: the passwords of the pools with the state file that holds them, the token of the bot and the
  credentials of the administrator. Whether one is set may be shown.\<close>

definition with_secrets :: "(pool \<Rightarrow> string) \<Rightarrow> store \<Rightarrow> string \<Rightarrow> string \<Rightarrow> string \<Rightarrow> auth \<Rightarrow> admin \<Rightarrow> admin" where
  "with_secrets f st bot_token password token a ad =
     (let px = ad_proxy ad in
      ad\<lparr>ad_proxy := (set_manager (other_passwords f st (px_manager px)) px)\<lparr>px_bot := (px_bot px)\<lparr>bt_token := bot_token\<rparr>\<rparr>,
         ad_config := (ad_config ad)\<lparr>cf_password := password, cf_token := token\<rparr>, ad_auth := a\<rparr>)"

definition same_presence :: "(pool \<Rightarrow> string) \<Rightarrow> string \<Rightarrow> string \<Rightarrow> admin \<Rightarrow> bool" where
  "same_presence f bot_token token ad \<longleftrightarrow>
     (\<forall>p \<in> set (sn_pools (m_snap (px_manager (ad_proxy ad)))). f p = [] \<longleftrightarrow> p_password p = []) \<and>
     (bot_token = [] \<longleftrightarrow> bt_token (px_bot (ad_proxy ad)) = []) \<and> (token = [] \<longleftrightarrow> cf_token (ad_config ad) = [])"

lemma with_secrets_simps [simp]:
  "px_manager (ad_proxy (with_secrets f st b pw t a ad)) = other_passwords f st (px_manager (ad_proxy ad))"
  "px_settings (ad_proxy (with_secrets f st b pw t a ad)) = px_settings (ad_proxy ad)"
  "px_stats (ad_proxy (with_secrets f st b pw t a ad)) = px_stats (ad_proxy ad)"
  "px_history (ad_proxy (with_secrets f st b pw t a ad)) = px_history (ad_proxy ad)"
  "px_log (ad_proxy (with_secrets f st b pw t a ad)) = px_log (ad_proxy ad)"
  "fa_timed (px_farm (ad_proxy (with_secrets f st b pw t a ad))) = fa_timed (px_farm (ad_proxy ad))"
  "fa_profit (px_farm (ad_proxy (with_secrets f st b pw t a ad))) = fa_profit (px_farm (ad_proxy ad))"
  "fa_watcher (px_farm (ad_proxy (with_secrets f st b pw t a ad))) = fa_watcher (px_farm (ad_proxy ad))"
  "px_bot (ad_proxy (with_secrets f st b pw t a ad)) = (px_bot (ad_proxy ad))\<lparr>bt_token := b\<rparr>"
  "ad_certs (with_secrets f st b pw t a ad) = ad_certs ad" "ad_has_bot (with_secrets f st b pw t a ad) = ad_has_bot ad"
  "ad_has_rtt (with_secrets f st b pw t a ad) = ad_has_rtt ad"
  "ad_config (with_secrets f st b pw t a ad) = (ad_config ad)\<lparr>cf_password := pw, cf_token := t\<rparr>"
  by (simp_all add: with_secrets_def set_manager_def Let_def)

lemma pool_view_passwords:
  "f p = [] \<longleftrightarrow> p_password p = [] \<Longrightarrow> pool_view (other_passwords f st m) n s (repassword f p) = pool_view m n s p"
  by (simp add: pool_view_def)

lemma pool_views_secrets: "same_presence f b t ad \<Longrightarrow> pool_views now (ad_proxy (with_secrets f st b pw t a ad)) = pool_views now (ad_proxy ad)"
  by (auto simp: pool_views_def same_presence_def Let_def intro: pool_view_passwords)

lemma status_view_secrets: "status_view started now ((ad_config ad)\<lparr>cf_password := pw, cf_token := t\<rparr>) (ad_proxy (with_secrets f st b pw t a ad)) =
    status_view started now (ad_config ad) (ad_proxy ad)"
  by (simp add: status_view_def connection_strings_def Let_def)

lemma telegram_view_secrets: "same_presence f b t ad \<Longrightarrow> telegram_view (with_secrets f st b pw t a ad) = telegram_view ad"
  by (simp add: telegram_view_def status_of_bot_def same_presence_def)

lemma settings_view_secrets: "same_presence f b t ad \<Longrightarrow> settings_view en (with_secrets f st b pw t a ad) = settings_view en ad"
  using telegram_view_secrets [of f b t ad st pw a]
  by (simp add: settings_view_def connection_strings_def Let_def) (simp add: same_presence_def)

lemma names_secrets: "fold (\<lambda>p. put (p_id p) (p_name p)) (map (repassword f) ps) m = fold (\<lambda>p. put (p_id p) (p_name p)) ps m"
  by (induction ps arbitrary: m) simp_all

lemma targets_passwords:
  "timed_target (m_snap (other_passwords f st m)) = map_option (repassword f) (timed_target (m_snap m))"
  "hunt_target (m_snap (other_passwords f st m)) = map_option (repassword f) (hunt_target (m_snap m))"
proof -
  have "List.find p_timed_target (map (repassword f) ps) = map_option (repassword f) (List.find p_timed_target ps)" for ps
    by (induction ps) auto
  then show "timed_target (m_snap (other_passwords f st m)) = map_option (repassword f) (timed_target (m_snap m))" by (simp add: timed_target_def)
  have "hunt_pool (map (repassword f) ps) (map_option (repassword f) x) = map_option (repassword f) (hunt_pool ps x)" for ps x
  proof (induction ps x rule: hunt_pool.induct)
    case (2 p ps first)
    then show ?case by (cases first) auto
  qed simp
  from this [of "sn_pools (m_snap m)" None]
  show "hunt_target (m_snap (other_passwords f st m)) = map_option (repassword f) (hunt_target (m_snap m))" by (simp add: hunt_target_def)
qed

lemma timed_status_passwords:
  "fst (timed_status_of (manager_ops [] True (\<lambda>is. is) now) (status_env gamma now w) v t (other_passwords f st m)) =
   fst (timed_status_of (manager_ops [] True (\<lambda>is. is) now) (status_env gamma now w) v t m)"
proof -
  have h: "hard_of (status_env gamma now w) (repassword f p) = hard_of (status_env gamma now w) p" for p
    by (simp add: hard_of_def status_env_def wired_env_def wired_hardness_def)
  have l: "(case te_live (status_env gamma now w) of None \<Rightarrow> False | Some g \<Rightarrow> g (repassword f p)) =
      (case te_live (status_env gamma now w) of None \<Rightarrow> False | Some g \<Rightarrow> g p)" for p
    by (simp add: status_env_def wired_env_def wired_live_def)
  have hs: "hunting_status v (m_snap (other_passwords f st m)) (status_env gamma now w) t = hunting_status v (m_snap m) (status_env gamma now w) t"
    by (cases "hunt_target (m_snap m)") (simp_all add: hunting_status_def targets_passwords h l Let_def)
  obtain x t' where x: "hunting_status v (m_snap m) (status_env gamma now w) t = (x, t')" by fastforce
  show ?thesis
    by (cases "timed_target (m_snap m)") (simp_all add: timed_status_of_def manager_ops_def hs x targets_passwords h Let_def)
qed

lemma timed_body_secrets: "fst (timed_body en (ad_proxy (with_secrets f st b pw t a ad))) = fst (timed_body en (ad_proxy ad))"
  using timed_status_passwords [of "en_later en" "en_gamma en" "fa_watcher (px_farm (ad_proxy ad))" "px_values (ad_proxy ad)" "fa_timed (px_farm (ad_proxy ad))" f st "px_manager (ad_proxy ad)"]
  by (simp add: timed_body_def timed_status_px_def split_beta)

lemma network_secrets: "fst (network_handler en h (ad_proxy (with_secrets f st b pw t a ad))) = fst (network_handler en h (ad_proxy ad))"
proof -
  have "list_ex (\<lambda>p. p_coin p = tag) (map (repassword f) ps) = list_ex (\<lambda>p. p_coin p = tag) ps" for ps tag by (induction ps) auto
  then have "mined_by (map (repassword f) ps) = mined_by ps" for ps by (simp add: fun_eq_iff mined_by_def)
  then have "network_coins mk (map (repassword f) ps) now p = network_coins mk ps now p" for mk ps now p
    by (simp add: network_coins_def split: prod.split sum.split)
  then show ?thesis by (simp add: network_handler_def Let_def split: prod.split)
qed

lemma readers_secrets:
  "events_handler r (ad_proxy (with_secrets f st b pw t a ad)) = events_handler r (ad_proxy ad)"
  "history_handler en r (ad_proxy (with_secrets f st b pw t a ad)) = history_handler en r (ad_proxy ad)"
  "worker_handler en r (ad_proxy (with_secrets f st b pw t a ad)) = worker_handler en r (ad_proxy ad)"
  "workers_handler en r (ad_proxy (with_secrets f st b pw t a ad)) = workers_handler en r (ad_proxy ad)"
  "profit_body en (ad_proxy (with_secrets f st b pw t a ad)) = profit_body en (ad_proxy ad)"
  "miners_handler en (ad_proxy (with_secrets f st b pw t a ad)) = miners_handler en (ad_proxy ad)"
  by (simp_all add: events_handler_def history_handler_def worker_handler_def workers_handler_def profit_body_def miners_handler_def
        names_secrets Let_def split: sum.split prod.split)

text \<open>C10: no reply shows a secret: what a request of reading returns is the same whatever the passwords of the pools, the token of
  the bot, the password and the token of the administrator are, beyond whether they are set.\<close>

theorem replies_hide_secrets:
  assumes "same_presence f bot_token token ad" "reads_only ep"
  shows "fst (run_endpoint en ep r (with_secrets f st bot_token password token a ad)) = fst (run_endpoint en ep r ad)"
proof -
  have on: "fst (on_proxy h ad') = fst (h (ad_proxy ad'))" for h ad' by (simp add: on_proxy_def split: prod.split)
  show ?thesis
    using assms(2)
    by (cases ep)
      (simp_all add: reads_only_def run_endpoint_def reading_def Let_def on readers_secrets status_view_secrets pool_views_secrets [OF assms(1)]
        settings_view_secrets [OF assms(1)] timed_body_secrets network_secrets)
qed

subsection \<open>Sessions\<close>

text \<open>C26: the cookie of a session is only given for the name and the password of the administrator, to a caller who is not locked out,
  and the session it names lasts 12 hours.\<close>

theorem cookie_needs_password:
  assumes "serve_request sha en r ad = (rep, ad')" "rs_cookie rep = Some (i, age, secure)" "0 < age"
  shows "\<exists>user pw. json_only r \<and> decode_body max_login_body (rq_body r) decode_login = Inr (user, pw) \<and>
    sha user = sha (au_username (ad_auth ad)) \<and> sha pw = sha (au_password (ad_auth ad)) \<and>
    guard_block (client_ip (rq_ip r)) (en_now en)
      ((au_guard (ad_auth ad))\<lparr>gd_global := recent_times (gd_global (au_guard (ad_auth ad))) (en_now en) global_fail_window\<rparr>) = None \<and>
    en_random en = Some i \<and> map_of (au_sessions (ad_auth ad')) i = Some (en_now en + session_lifetime)"
proof -
  have plain: "rs_cookie (plain_reply n b) = None" "rs_cookie (error_reply e) = None" for n b e by (simp_all add: plain_reply_def error_reply_def)
  have "\<not> (\<exists>ep. protected sha en ep r ad = (rep, ad'))"
    using assms(2) plain by (auto elim!: protected_cases)
  then have login: "login_handler sha en r ad = (rep, ad')"
    using assms plain by (cases "route (rq_method r) (rq_path r)") (auto simp: serve_request_def logout_handler_def split: if_splits)
  then obtain user pw where d: "json_only r" "decode_body max_login_body (rq_body r) decode_login = Inr (user, pw)"
    using assms(2) plain by (cases "decode_body max_login_body (rq_body r) decode_login") (auto simp: login_handler_def Let_def split: if_splits)
  obtain s res au where a: "attempt_login sha (client_ip (rq_ip r)) user pw (en_random en) (en_now en) (en_guard_write en) (ad_auth ad) = ((s, res), au)"
    by (metis surj_pair)
  obtain bl ad1 where g: "guard_failed (client_ip (rq_ip r)) (en_now en) res (set_auth au ad) = (bl, ad1)" by fastforce
  note k = guard_failed_kept [OF g]
  have bl: "bl = None"
  proof (cases bl)
    case (Some x)
    then have "rep = x" using login d a g by (simp add: login_handler_def)
    then show ?thesis using Some k assms(2) by simp
  qed
  have ok: "ar_ok res" "s = i" "ad' = ad1" using login d a g bl assms(2) plain by (auto simp: login_handler_def Let_def split: if_splits)
  have au: "ad_auth ad' = au" using k ok(3) by (simp add: set_auth_def)
  let ?right = "equal_secret sha user (au_username (ad_auth ad)) \<and> equal_secret sha pw (au_password (ad_auth ad))"
  obtain res0 g0 where ga: "guard_attempt (client_ip (rq_ip r)) (en_now en) ?right (en_guard_write en) (au_guard (ad_auth ad)) = (res0, g0)" by fastforce
  have rnd: "res0 = res" "en_random en = Some i" "map_of (au_sessions au) i = Some (en_now en + session_lifetime)"
    using a ga ok by (auto simp: attempt_login_def Let_def no_result_def split: if_splits option.splits)
  have "?right \<and> guard_block (client_ip (rq_ip r)) (en_now en)
      ((au_guard (ad_auth ad))\<lparr>gd_global := recent_times (gd_global (au_guard (ad_auth ad))) (en_now en) global_fail_window\<rparr>) = None"
    using ga by (cases rule: guard_attempt_cases) (use ok rnd in \<open>simp_all add: no_result_def\<close>)
  then have "sha user = sha (au_username (ad_auth ad)) \<and> sha pw = sha (au_password (ad_auth ad)) \<and>
    guard_block (client_ip (rq_ip r)) (en_now en)
      ((au_guard (ad_auth ad))\<lparr>gd_global := recent_times (gd_global (au_guard (ad_auth ad))) (en_now en) global_fail_window\<rparr>) = None \<and>
    en_random en = Some i \<and> map_of (au_sessions au) i = Some (en_now en + session_lifetime)"
    using rnd by (simp add: equal_secret_def)
  then show ?thesis using d au by blast
qed

subsection \<open>An administrator at work\<close>

definition example_config :: config where
  "example_config =
     \<lparr>cf_tcp = '':13333'', cf_tls = [], cf_admin = '':18080'', cf_username = ''admin'', cf_password = ''pw'', cf_token = [], cf_data_dir = ''/data'',
      cf_cert_file = [], cf_key_file = [], cf_hosts = [], cf_public_host = ''farm.io'', cf_public_tcp = 0, cf_public_tls = 0, cf_log_format = ''json'',
      cf_telegram_url = []\<rparr>"

definition example_admin :: admin where
  "example_admin =
     \<lparr>ad_auth = (new_auth ''admin'' ''pw'' [] (new_guard None))\<lparr>au_sessions := [(''S'', 2 * hour)]\<rparr>, ad_config = example_config,
      ad_proxy = example_proxy, ad_certs = None, ad_has_bot = True, ad_has_rtt = True\<rparr>"

definition example_api :: api_env where
  "example_api =
     \<lparr>en_now = hour, en_later = hour, en_started = 0, en_gamma = (\<lambda>x. x), en_guard_write = True, en_random = Some ''N'', en_write = True,
      en_saved = True, en_shuffle = (\<lambda>xs. xs), en_say = (\<lambda>e t l. l), en_say_timed = (\<lambda>e t l. l), en_checks = good_check,
      en_during = (\<lambda>m. m), en_tested = (\<lambda>a. CutOff ConnectFails), en_order = (\<lambda>as. as), en_err_text = (\<lambda>e. []),
      en_network = (\<lambda>a. \<lparr>n_connect = None, n_handshake = False, n_write1 = False, n_write2 = False, n_stream = [], n_end = EOF\<rparr>),
      en_market = Inl FetchFailed, en_tags = (\<lambda>xs. xs), en_disk = good_disk, en_disk_bytes = 0, en_digest = (\<lambda>s. []),
      en_me = NoAnswer [], en_sends = (\<lambda>i n. NoAnswer []), en_slept = (\<lambda>i n. False)\<rparr>"

lemma example_api_simps [simp]:
  "en_now example_api = hour" "en_later example_api = hour" "en_random example_api = Some ''N''" "en_write example_api" "en_guard_write example_api"
  "en_shuffle example_api = (\<lambda>xs. xs)" "en_checks example_api = good_check" "en_during example_api = (\<lambda>m. m)"
  by (simp_all add: example_api_def)

lemma example_admin_simps [simp]:
  "au_sessions (ad_auth example_admin) = [(''S'', 2 * hour)]" "au_token (ad_auth example_admin) = []" "au_username (ad_auth example_admin) = ''admin''"
  "au_password (ad_auth example_admin) = ''pw''" "au_guard (ad_auth example_admin) = new_guard None"
  "ad_proxy example_admin = example_proxy" "ad_config example_admin = example_config"
  by (simp_all add: example_admin_def new_auth_def)

definition example_post :: "string \<Rightarrow> http_request" where
  "example_post i = (example_request ''POST'' [''api'', ''pools'', i, ''activate''] [])\<lparr>rq_cookie := Some ''S''\<rparr>"

lemma example_post_route: "i \<noteq> [] \<Longrightarrow> route (rq_method (example_post i)) (rq_path (example_post i)) = EpActivate i"
  by (simp add: example_post_def example_request_def route_def fixed_routes_def pool_route_def)

lemma example_post_run:
  assumes "i \<noteq> []"
  shows "serve_request (\<lambda>s. s) example_api (example_post i) example_admin =
    (case activate_handler example_api i (example_post i) example_proxy of
       (Inl e, px) \<Rightarrow> (error_reply e, example_admin\<lparr>ad_proxy := px\<rparr>) | (Inr (n, b), px) \<Rightarrow> (plain_reply n b, example_admin\<lparr>ad_proxy := px\<rparr>))"
proof -
  have a: "authenticate (\<lambda>s. s) (auth_view (example_post i)) hour True (ad_auth example_admin) = ((True, no_result\<lparr>ar_ok := True\<rparr>), ad_auth example_admin)"
    by (simp add: authenticate_def uses_token_def auth_view_def example_post_def)
  have g: "guard_failed ip now (no_result\<lparr>ar_ok := True\<rparr>) ad = (None, ad)" for ip now ad by (simp add: guard_failed_def no_result_def)
  have s: "set_auth (ad_auth example_admin) example_admin = example_admin" by (simp add: set_auth_def)
  have j: "json_only (example_post i)" by (simp add: json_only_def example_post_def example_request_def)
  show ?thesis
    unfolding serve_protected [of "example_post i", unfolded example_post_route [OF assms], simplified open_endpoint_def, simplified]
    by (simp add: protected_def a g s j run_endpoint_def on_proxy_def split: prod.split sum.split)
qed

lemma example_post_params: "query_get k (example_post i) = []"
  by (simp add: example_post_def example_request_def query_get_def get_or_def)

theorem api_changes_need_login_witness:
  "\<exists>rep ad'. serve_request (\<lambda>s. s) example_api (example_post ''alt'') example_admin = (rep, ad') \<and>
     sn_active (m_snap (px_manager (ad_proxy ad'))) = ''alt'' \<and> logged_in (\<lambda>s. s) example_api (example_post ''alt'') example_admin"
proof -
  obtain n evs m' where a: "activate ''alt'' False ''manual'' None good_check (\<lambda>m. m) True (\<lambda>xs. xs) hour timed_manager = (Inr n, evs, m')"
    "sn_active (m_snap m') = ''alt''" by (rule example_activation)
  have px: "px_manager example_proxy = timed_manager" by (simp add: example_proxy_def example_farm_def)
  obtain b px' where h: "activate_handler example_api ''alt'' (example_post ''alt'') example_proxy = (Inr (200, b), px')" "px_manager px' = m'"
    using a(1) px by (simp add: activate_handler_def managed_def example_post_params answer_ok_def)
  then have s: "serve_request (\<lambda>s. s) example_api (example_post ''alt'') example_admin = (plain_reply 200 b, example_admin\<lparr>ad_proxy := px'\<rparr>)"
    using example_post_run [of "''alt''"] by simp
  have "\<not> kept (ad_proxy example_admin) (ad_proxy (example_admin\<lparr>ad_proxy := px'\<rparr>))"
    using h(2) a(2) px by (auto simp: kept_def same_pools_def timed_manager_snap)
  from api_changes_need_login [OF s this] show ?thesis using s h(2) a(2) by auto
qed

theorem refused_request_changes_nothing_witness:
  "\<exists>rep ad'. serve_request (\<lambda>s. s) example_api (example_post ''nope'') example_admin = (rep, ad') \<and> rs_status rep = 404 \<and>
     kept (ad_proxy example_admin) (ad_proxy ad')"
proof -
  have px: "px_manager example_proxy = timed_manager" by (simp add: example_proxy_def example_farm_def)
  have "snap_get (m_snap timed_manager) ''nope'' = None" by (simp add: timed_manager_snap snap_get_def find_pool_def zero_pool_def)
  then obtain px' where h: "activate_handler example_api ''nope'' (example_post ''nope'') example_proxy = (Inl (pool_not_found ''nope''), px')"
    using px by (simp add: activate_handler_def managed_def activate_def activate_begin_def)
  then have s: "serve_request (\<lambda>s. s) example_api (example_post ''nope'') example_admin = (error_reply (pool_not_found ''nope''), example_admin\<lparr>ad_proxy := px'\<rparr>)"
    using example_post_run [of "''nope''"] by simp
  have st: "rs_status (error_reply (pool_not_found ''nope'')) = 404" by (simp add: error_reply_def plain_reply_def pool_not_found_def not_found_def)
  have "quiet_during example_api" by (simp add: quiet_during_def)
  then show ?thesis using refused_request_changes_nothing [OF s] st s by auto
qed

theorem replies_hide_secrets_witness:
  "fst (run_endpoint example_api EpPools (example_post ''alt'')
      (with_secrets (\<lambda>p. if p_password p = [] then [] else ''other'') (m_store timed_manager) [] ''new'' [] (ad_auth example_admin) example_admin)) =
    fst (run_endpoint example_api EpPools (example_post ''alt'') example_admin)"
  by (rule replies_hide_secrets) (simp_all add: same_presence_def reads_only_def example_proxy_def example_config_def new_bot_def)

definition login_body :: string where
  "login_body = ''{'' @ [dq] @ ''username'' @ [dq] @ '':'' @ [dq] @ ''admin'' @ [dq] @ '','' @ [dq] @ ''password'' @ [dq] @ '':'' @ [dq] @ ''pw'' @ [dq] @ ''}''"

lemma login_body_decodes: "decode_body max_login_body login_body decode_login = Inr (''admin'', ''pw'')"
proof -
  have "scan_value login_body False = Value (JObj [(''username'', JStr ''admin''), (''password'', JStr ''pw'')]) []" by code_simp
  moreover have "length login_body = 36" "scan_value [] False = NoValue" by (simp_all add: login_body_def scan_value_def skip_ws_def)
  moreover have "decode_login (JObj [(''username'', JStr ''admin''), (''password'', JStr ''pw'')]) = Some (''admin'', ''pw'')" by code_simp
  ultimately show ?thesis by (simp add: decode_body_def max_login_body_def)
qed

definition example_login :: http_request where
  "example_login = (example_request ''POST'' [''api'', ''auth'', ''login''] [])\<lparr>rq_body := login_body\<rparr>"

theorem cookie_needs_password_witness:
  "\<exists>rep ad' secure. serve_request (\<lambda>s. s) example_api example_login example_admin = (rep, ad') \<and> rs_cookie rep = Some (''N'', 43200, secure) \<and>
     map_of (au_sessions (ad_auth ad')) ''N'' = Some (13 * hour)"
proof -
  have r: "route (rq_method example_login) (rq_path example_login) = EpLogin" by (simp add: example_login_def example_request_def route_def fixed_routes_def)
  have l: "json_only example_login" "rq_body example_login = login_body" by (simp_all add: json_only_def example_login_def example_request_def)
  obtain rep ad' where s: "serve_request (\<lambda>s. s) example_api example_login example_admin = (rep, ad')" by fastforce
  have g: "guard_failed ip now (no_result\<lparr>ar_ok := True\<rparr>) ad = (None, ad)" for ip now ad by (simp add: guard_failed_def no_result_def)
  obtain au where a: "attempt_login (\<lambda>s. s) ip ''admin'' ''pw'' (Some ''N'') hour True (ad_auth example_admin) = ((''N'', no_result\<lparr>ar_ok := True\<rparr>), au)" for ip
    by (simp add: attempt_login_def equal_secret_def guard_attempt_def guard_block_def new_guard_def recent_times_def global_fail_limit_def has_key_def Let_def no_result_def)
  have c: "\<exists>secure. rs_cookie rep = Some (''N'', 43200, secure)"
    using s by (auto simp: serve_request_def r login_handler_def l login_body_decodes a g Let_def session_lifetime_def)
  then show ?thesis using cookie_needs_password [OF s] s by (fastforce simp: session_lifetime_def)
qed

end
