(* ===== verification/Listener.thy ===== *)
theory Listener
  imports Settings
begin

text \<open>
  Package \<open>listener\<close> (\<open>listener.go\<close>): the connection limits and the accept loop.

  \<^item> \<open>limits\<close> is \<open>Limits\<close>: two atomic counters, the count of rejected connections and the
    connections per address under the mutex.
  \<^item> \<open>acquire\<close> is the locked section of \<open>Limits.acquire\<close>; \<open>first_done\<close>, \<open>leave_total\<close> and
    \<open>leave_address\<close> are the three steps of the closures it returns, which other goroutines may
    interleave. A \<open>held\<close> connection carries what its closures remember: its address and how far it got.
  \<^item> \<open>door_step\<close> is one such step of any connection or listener; \<open>accept_round\<close> is one round of the
    accept loop of \<open>Serve\<close>.

  The lemmas show that the counters count the connections that are held, whatever the interleaving, and
  so that the limits are never exceeded and that every slot is given back.
\<close>

record limits =
  lm_total :: int
  lm_pending :: int
  lm_rejected :: int
  lm_per_ip :: "(string, int) gomap"

definition new_limits :: limits where
  "new_limits = \<lparr>lm_total = 0, lm_pending = 0, lm_rejected = 0, lm_per_ip = []\<rparr>"

definition acquire :: "settings_values \<Rightarrow> string \<Rightarrow> limits \<Rightarrow> limits option" where
  "acquire v ip l =
     (if v_max_connections v \<le> lm_total l \<or> v_max_pending_connections v \<le> lm_pending l then None
      else if 0 < v_max_conn_per_ip v \<and> v_max_conn_per_ip v \<le> get_or 0 (lm_per_ip l) ip then None
      else Some (l\<lparr>lm_per_ip := put ip (get_or 0 (lm_per_ip l) ip + 1) (lm_per_ip l),
                   lm_total := lm_total l + 1, lm_pending := lm_pending l + 1\<rparr>))"

datatype phase = Silent | Talking | Leaving

record held =
  he_ip :: string
  he_phase :: phase

text \<open>\<open>pendingOnce\<close>: only the first call counts the connection out of the pending ones.\<close>

definition first_done :: "held \<Rightarrow> limits \<Rightarrow> held \<times> limits" where
  "first_done c l =
     (if he_phase c = Silent then (c\<lparr>he_phase := Talking\<rparr>, l\<lparr>lm_pending := lm_pending l - 1\<rparr>) else (c, l))"

definition leave_total :: "held \<Rightarrow> limits \<Rightarrow> held \<times> limits" where
  "leave_total c l = (c\<lparr>he_phase := Leaving\<rparr>, l\<lparr>lm_total := lm_total l - 1\<rparr>)"

definition leave_address :: "string \<Rightarrow> limits \<Rightarrow> limits" where
  "leave_address ip l =
     (let n = get_or 0 (lm_per_ip l) ip - 1
      in l\<lparr>lm_per_ip := (if n \<le> 0 then del ip (lm_per_ip l) else put ip n (lm_per_ip l))\<rparr>)"

text \<open>\<open>release\<close> without interruption.\<close>

definition release :: "held \<Rightarrow> limits \<Rightarrow> limits" where
  "release c l = (let (c1, l1) = first_done c l; (c2, l2) = leave_total c1 l1 in leave_address (he_ip c2) l2)"

text \<open>\<open>ReportRejected\<close> once a minute: the number in the event, if one is written.\<close>

definition report_rejected :: "limits \<Rightarrow> limits \<times> int option" where
  "report_rejected l = (l\<lparr>lm_rejected := 0\<rparr>, if 0 < lm_rejected l then Some (lm_rejected l) else None)"

subsection \<open>The accept loop\<close>

datatype accepted =
    Conn string        \<comment> \<open>a connection from this address\<close>
  | AcceptError        \<comment> \<open>temporary, e.g. out of file descriptors\<close>
  | Shutdown           \<comment> \<open>the context is done or the listener closed\<close>

datatype accept_result =
    Served held        \<comment> \<open>a session is started for the connection\<close>
  | Refused
  | Slept duration
  | Returned

definition accept_backoff :: "duration \<Rightarrow> duration" where
  "accept_backoff b = (if b = 0 then 5 * millisecond else if b < second then b * 2 else b)"

definition accept_round :: "settings_values \<Rightarrow> accepted \<Rightarrow> duration \<Rightarrow> limits \<Rightarrow> accept_result \<times> duration \<times> limits" where
  "accept_round v a backoff l =
     (case a of
        Shutdown \<Rightarrow> (Returned, backoff, l)
      | AcceptError \<Rightarrow> (Slept (accept_backoff backoff), accept_backoff backoff, l)
      | Conn ip \<Rightarrow>
          (case acquire v ip l of
             None \<Rightarrow> (Refused, 0, l\<lparr>lm_rejected := lm_rejected l + 1\<rparr>)
           | Some l' \<Rightarrow> (Served \<lparr>he_ip = ip, he_phase = Silent\<rparr>, 0, l')))"

text \<open>The rounds of one listener until it returns.\<close>

fun serve_rounds :: "(settings_values \<times> accepted) list \<Rightarrow> duration \<Rightarrow> limits \<Rightarrow> accept_result list \<times> duration \<times> limits" where
  "serve_rounds [] backoff l = ([], backoff, l)"
| "serve_rounds ((v, a) # rs) backoff l =
     (let (r, b, l') = accept_round v a backoff l
      in if r = Returned then ([Returned], b, l')
         else let (out, b2, l2) = serve_rounds rs b l' in (r # out, b2, l2))"

text \<open>Failed accepts never make the loop spin, nor wait much longer than a second.\<close>

lemma backoff_bounds:
  assumes "serve_rounds rs b l = (out, b', l')" "b = 0 \<or> 5 * millisecond \<le> b \<and> b < 2 * second"
  shows "\<forall>d. Slept d \<in> set out \<longrightarrow> 5 * millisecond \<le> d \<and> d < 2 * second"
  using assms
proof (induction rs b l arbitrary: out b' l' rule: serve_rounds.induct)
  case (2 v a rs backoff l)
  obtain r b1 l1 where r: "accept_round v a backoff l = (r, b1, l1)" by (metis prod.exhaust)
  have b: "b1 = 0 \<or> 5 * millisecond \<le> b1 \<and> b1 < 2 * second" "\<And>d. r = Slept d \<Longrightarrow> 5 * millisecond \<le> d \<and> d < 2 * second"
    using r 2(3) by (auto simp: accept_round_def accept_backoff_def split: accepted.splits option.splits if_splits)
  obtain out1 b2 l2 where s: "serve_rounds rs b1 l1 = (out1, b2, l2)" by (metis prod.exhaust)
  show ?case
  proof (cases "r = Returned")
    case False
    then have "\<forall>d. Slept d \<in> set out1 \<longrightarrow> 5 * millisecond \<le> d \<and> d < 2 * second"
      using 2(1) [OF r [symmetric] refl refl _ s b(1)] by simp
    moreover have "out = r # out1" using 2(2) r s False by simp
    ultimately show ?thesis using b(2) by simp
  qed (use 2(2) r in auto)
qed simp

subsection \<open>Held connections\<close>

type_synonym door = "limits \<times> held list"

inductive door_step :: "settings_values \<Rightarrow> door \<Rightarrow> door \<Rightarrow> bool" for v where
  served: "accept_round v a b l = (Served c, b', l') \<Longrightarrow> door_step v (l, cs) (l', c # cs)"
| turned_away: "accept_round v a b l = (r, b', l') \<Longrightarrow> \<forall>c. r \<noteq> Served c \<Longrightarrow> door_step v (l, cs) (l', cs)"
| first_message: "first_done c l = (c', l') \<Longrightarrow> door_step v (l, xs @ c # ys) (l', xs @ c' # ys)"
| leaving: "he_phase c = Talking \<Longrightarrow> leave_total c l = (c', l') \<Longrightarrow> door_step v (l, xs @ c # ys) (l', xs @ c' # ys)"
| left: "he_phase c = Leaving \<Longrightarrow> door_step v (l, xs @ c # ys) (leave_address (he_ip c) l, xs @ ys)"
| reported: "report_rejected l = (l', n) \<Longrightarrow> door_step v (l, cs) (l', cs)"

definition count_of :: "(held \<Rightarrow> bool) \<Rightarrow> held list \<Rightarrow> int" where
  "count_of P cs = int (length (filter P cs))"

lemma count_of_simps [simp]:
  "count_of P [] = 0"
  "count_of P (c # cs) = (if P c then 1 else 0) + count_of P cs"
  "count_of P (xs @ ys) = count_of P xs + count_of P ys"
  by (simp_all add: count_of_def)

lemma count_of_nonneg [simp]: "0 \<le> count_of P cs"
  by (simp add: count_of_def)

text \<open>The counters are what the held connections say.\<close>

definition door_inv :: "door \<Rightarrow> bool" where
  "door_inv d \<longleftrightarrow>
     lm_total (fst d) = count_of (\<lambda>c. he_phase c \<noteq> Leaving) (snd d) \<and>
     lm_pending (fst d) = count_of (\<lambda>c. he_phase c = Silent) (snd d) \<and>
     wf_map (lm_per_ip (fst d)) \<and>
     (\<forall>ip. map_of (lm_per_ip (fst d)) ip =
        (let n = count_of (\<lambda>c. he_ip c = ip) (snd d) in if n = 0 then None else Some n))"

lemma door_inv_get:
  "door_inv (l, cs) \<Longrightarrow> get_or 0 (lm_per_ip l) ip = count_of (\<lambda>c. he_ip c = ip) cs"
  by (auto simp: door_inv_def get_or_def Let_def)

lemma door_inv_new: "door_inv (new_limits, [])"
  by (simp add: door_inv_def new_limits_def)

lemma acquire_SomeD:
  assumes "acquire v ip l = Some l'"
  shows "lm_total l < v_max_connections v" "lm_pending l < v_max_pending_connections v"
    "0 < v_max_conn_per_ip v \<Longrightarrow> get_or 0 (lm_per_ip l) ip < v_max_conn_per_ip v"
    "l' = l\<lparr>lm_per_ip := put ip (get_or 0 (lm_per_ip l) ip + 1) (lm_per_ip l),
            lm_total := lm_total l + 1, lm_pending := lm_pending l + 1\<rparr>"
  using assms by (auto simp: acquire_def split: if_splits)

lemma accept_servedD:
  "accept_round v a b l = (Served c, b', l') \<Longrightarrow> \<exists>ip. c = \<lparr>he_ip = ip, he_phase = Silent\<rparr> \<and> acquire v ip l = Some l'"
  by (auto simp: accept_round_def split: accepted.splits option.splits)

lemma accept_refusedD:
  "accept_round v a b l = (r, b', l') \<Longrightarrow> \<forall>c. r \<noteq> Served c \<Longrightarrow>
     lm_total l' = lm_total l \<and> lm_pending l' = lm_pending l \<and> lm_per_ip l' = lm_per_ip l"
  by (auto simp: accept_round_def split: accepted.splits option.splits)

lemma door_inv_step [inv_intros]:
  assumes "door_step v d d'" "door_inv d"
  shows "door_inv d'"
  using assms
proof (induction rule: door_step.induct)
  case (served a b l c b' l' cs)
  then obtain ip where c: "c = \<lparr>he_ip = ip, he_phase = Silent\<rparr>" "acquire v ip l = Some l'" using accept_servedD by blast
  have n: "count_of (\<lambda>c. he_ip c = ip) cs + 1 \<noteq> 0" using count_of_nonneg [of "\<lambda>c. he_ip c = ip" cs] by linarith
  then show ?case
    using served(2) acquire_SomeD(4) [OF c(2)] door_inv_get [OF served(2), of ip] c(1)
    by (auto simp: door_inv_def Let_def add.commute)
next
  case (turned_away a b l r b' l' cs)
  then show ?case using accept_refusedD [OF turned_away(1,2)] by (simp add: door_inv_def)
next
  case (first_message c l c' l' xs ys)
  then show ?case by (cases c) (auto simp: first_done_def door_inv_def split: if_splits)
next
  case (leaving c l c' l' xs ys)
  then show ?case by (cases c) (auto simp: leave_total_def door_inv_def)
next
  case (left c l xs ys)
  have "0 \<le> count_of (\<lambda>a. he_ip a = he_ip c) xs + count_of (\<lambda>a. he_ip a = he_ip c) ys" by simp
  then have "count_of (\<lambda>a. he_ip a = he_ip c) xs + count_of (\<lambda>a. he_ip a = he_ip c) ys \<le> 0 \<Longrightarrow>
    count_of (\<lambda>a. he_ip a = he_ip c) xs + count_of (\<lambda>a. he_ip a = he_ip c) ys = 0" by linarith
  then show ?case using left door_inv_get [OF left(2), of "he_ip c"]
    by (auto simp: leave_address_def door_inv_def Let_def)
qed (auto simp: report_rejected_def door_inv_def)

lemma door_inv_reachable: "(\<lambda>d d'. \<exists>v. ok v \<and> door_step v d d')\<^sup>*\<^sup>* (new_limits, []) d \<Longrightarrow> door_inv d"
  by (induction rule: rtranclp_induct) (auto intro: door_inv_new door_inv_step)

text \<open>Giving a slot back undoes taking it.\<close>

lemma release_acquire:
  assumes "acquire v ip l = Some l'" "0 \<le> get_or 0 (lm_per_ip l) ip"
  shows "lm_total (release \<lparr>he_ip = ip, he_phase = Silent\<rparr> l') = lm_total l"
    "lm_pending (release \<lparr>he_ip = ip, he_phase = Silent\<rparr> l') = lm_pending l"
    "get_or 0 (lm_per_ip (release \<lparr>he_ip = ip, he_phase = Silent\<rparr> l')) x = get_or 0 (lm_per_ip l) x"
  using acquire_SomeD(4) [OF assms(1)] assms(2)
  by (auto simp: release_def first_done_def leave_total_def leave_address_def Let_def)

lemma within_limits_step:
  assumes "door_step v d d'" "door_inv d" "v_max_connections v \<le> N" "v_max_pending_connections v \<le> P"
    "0 < v_max_conn_per_ip v" "v_max_conn_per_ip v \<le> K"
    and "lm_total (fst d) \<le> N" "lm_pending (fst d) \<le> P" "\<forall>ip. get_or 0 (lm_per_ip (fst d)) ip \<le> K"
  shows "lm_total (fst d') \<le> N \<and> lm_pending (fst d') \<le> P \<and> (\<forall>ip. get_or 0 (lm_per_ip (fst d')) ip \<le> K)"
  using assms
proof (induction rule: door_step.induct)
  case (served a b l c b' l' cs)
  then obtain ip where c: "acquire v ip l = Some l'" using accept_servedD by blast
  show ?case using acquire_SomeD(1,2) [OF c] acquire_SomeD(3) [OF c served(5)] acquire_SomeD(4) [OF c] served(3-9) by auto
next
  case (turned_away a b l r b' l' cs)
  then show ?case using accept_refusedD [OF turned_away(1,2)] by simp
next
  case (left c l xs ys)
  have "0 \<le> K" "get_or 0 (lm_per_ip l) (he_ip c) - 1 \<le> K" using left(5,6) left(9) [simplified, rule_format, of "he_ip c"] by linarith+
  then show ?case using left(7-9) by (auto simp: leave_address_def Let_def)
qed (auto simp: first_done_def leave_total_def report_rejected_def split: if_splits)


text \<open>Two connections from one address, with one of them past its first message and the other gone.\<close>

definition example_limits :: settings_values where
  "example_limits = defaults\<lparr>v_max_connections := 2, v_max_pending_connections := 2, v_max_conn_per_ip := 2\<rparr>"

lemma five_steps: "R a b \<Longrightarrow> R b c \<Longrightarrow> R c d \<Longrightarrow> R d e \<Longrightarrow> R e f \<Longrightarrow> R\<^sup>*\<^sup>* a f"
  by (meson converse_rtranclp_into_rtranclp r_into_rtranclp)

lemma example_door:
  "(\<lambda>d d'. \<exists>v. (v_max_connections v \<le> 2 \<and> v_max_pending_connections v \<le> 2 \<and>
      0 < v_max_conn_per_ip v \<and> v_max_conn_per_ip v \<le> 2) \<and> door_step v d d')\<^sup>*\<^sup>* (new_limits, [])
    (\<lparr>lm_total = 1, lm_pending = 0, lm_rejected = 0, lm_per_ip = [(''a'', 2)]\<rparr>,
     [\<lparr>he_ip = ''a'', he_phase = Leaving\<rparr>, \<lparr>he_ip = ''a'', he_phase = Talking\<rparr>])"
proof -
  let ?c = "\<lambda>p. \<lparr>he_ip = ''a'', he_phase = p\<rparr>"
  let ?l = "\<lambda>t p n. \<lparr>lm_total = t, lm_pending = p, lm_rejected = 0, lm_per_ip = [(''a'', n)]\<rparr>"
  let ?R = "\<lambda>d d'. \<exists>v. (v_max_connections v \<le> 2 \<and> v_max_pending_connections v \<le> 2 \<and>
      0 < v_max_conn_per_ip v \<and> v_max_conn_per_ip v \<le> 2) \<and> door_step v d d'"
  have R: "?R d d'" if "door_step example_limits d d'" for d d'
    using that by (intro exI [of _ example_limits]) (simp add: example_limits_def)
  have a: "accept_round example_limits (Conn ''a'') 0 new_limits = (Served (?c Silent), 0, ?l 1 1 1)"
    "accept_round example_limits (Conn ''a'') 0 (?l 1 1 1) = (Served (?c Silent), 0, ?l 2 2 2)"
    by (simp_all add: example_limits_def accept_round_def acquire_def new_limits_def get_or_def)
  have 1: "?R (new_limits, []) (?l 1 1 1, [?c Silent])" by (rule R, rule served [OF a(1)])
  have 2: "?R (?l 1 1 1, [?c Silent]) (?l 2 2 2, [?c Silent, ?c Silent])" by (rule R, rule served [OF a(2)])
  have 3: "?R (?l 2 2 2, [?c Silent, ?c Silent]) (?l 2 1 2, [?c Silent, ?c Talking])"
    by (rule R, rule first_message [where xs = "[?c Silent]" and ys = "[]" and c = "?c Silent" and c' = "?c Talking", simplified])
      (simp add: first_done_def)
  have 4: "?R (?l 2 1 2, [?c Silent, ?c Talking]) (?l 2 0 2, [?c Talking, ?c Talking])"
    by (rule R, rule first_message [where xs = "[]" and ys = "[?c Talking]" and c = "?c Silent" and c' = "?c Talking", simplified])
      (simp add: first_done_def)
  have 5: "?R (?l 2 0 2, [?c Talking, ?c Talking]) (?l 1 0 2, [?c Leaving, ?c Talking])"
    by (rule R, rule leaving [where xs = "[]" and ys = "[?c Talking]" and c = "?c Talking" and c' = "?c Leaving", simplified])
      (simp_all add: leave_total_def)
  show ?thesis by (rule five_steps [where R = ?R, OF 1 2 3 4 5])
qed


end
