(* ===== verification/Spec2Isabelle.thy ===== *)
theory Spec2Isabelle
  imports Server Listener Charts Stratum Settings Stats Events Session Registry Manager Guard Farm Monitor
begin

text \<open>
  A verification library for simple-mining-proxy, a Stratum V1 proxy between the ASICs of a mining farm and mining
  pools, written in Go.

  \<^bold>\<open>The program.\<close> A listener accepts miners and limits their number (\<open>internal/listener\<close>). Each miner is connected to
  one pool, and its session relays JSON-RPC lines both ways, replaces the login of the miner by the account of the
  pool and counts shares (\<open>internal/session\<close>, \<open>internal/stratum\<close>, \<open>internal/stats\<close>). The pool manager
  (\<open>internal/pool\<close>) knows which addresses answer, which pool is active and which are fallbacks, and moves sessions by
  draining them through the registry of sessions. Pools and settings are kept in a state file (\<open>internal/state\<close>,
  \<open>internal/settings\<close>). Three automatic modes use the manager: timed switching and block hunting (\<open>internal/timed\<close>
  with the real time target of \<open>internal/rtt\<close>), and profit switching (\<open>internal/profit\<close>). The monitor notices ASICs
  that stop (\<open>internal/monitor\<close>), the history keeps statistics for charts (\<open>internal/history\<close>), events go to a ring
  buffer (\<open>internal/events\<close>), and people use the proxy by the admin API (\<open>internal/admin\<close>) or a Telegram bot
  (\<open>internal/telegram\<close>). \<open>internal/config\<close> reads the environment and \<open>internal/tlsutil\<close> keeps the certificate of the
  TLS listener; \<open>cmd/proxy/main.go\<close> connects the parts.

  \<^bold>\<open>Theories and sources.\<close>

  \<^item> \<open>Prelude\<close>, \<open>Ordering\<close>: times, byte strings, maps and sorting with a comparison of the caller, with the locale
    \<open>comparison\<close> for what makes a comparison an order.
  \<^item> \<open>Json\<close>, \<open>Stratum\<close>: the parser and printer of JSON, lines and their framing, accessors and rewriting of messages
    (\<open>internal/stratum\<close>); the round trips of strings and values.
  \<^item> \<open>Apierr\<close>, \<open>Durations\<close>: API errors and the text form of durations.
  \<^item> \<open>State\<close>: the state file and its checks; a change is saved or has no effect (locale \<open>transactions\<close>).
  \<^item> \<open>Settings\<close>: the registry of settings and the store that saves and loads them.
  \<^item> \<open>Events\<close>, \<open>Stats\<close>: the ring buffer against a list of all events, throttling; hashrates and counters.
  \<^item> \<open>Session\<close>, \<open>Registry\<close>, \<open>Listener\<close>: one session step by step; live sessions and drains, with the inductive
    relation \<open>reg_step\<close>; connection limits, with the invariant of the open connections.
  \<^item> \<open>Health\<close>, \<open>Dial\<close>, \<open>Pools\<close>, \<open>Manager\<close>: health of addresses, dialing and the check by handshake, what editing does to
    the file, and the manager on top of them with its relation \<open>manager_step\<close> and invariant.
  \<^item> \<open>Routing\<close>: the locale \<open>routing\<close>, what the switchers rely on of the manager, interpreted by the manager.
  \<^item> \<open>Rtt\<close>, \<open>Timed\<close>, \<open>Profit\<close>: the real time target and the watcher of blocks; the two switchers over \<open>pool_ops\<close>.
  \<^item> \<open>Farm\<close>: the wiring of \<open>main.go\<close>: manager, switchers and watcher in any order of steps.
  \<^item> \<open>Names\<close>, \<open>Monitor\<close>: the order of worker names and the monitor of the ASICs.
  \<^item> \<open>Points\<close>, \<open>Tiers\<close>, \<open>History\<close>, \<open>Charts\<close>: points and their sums (locale \<open>amount\<close>), files by day and month (locale
    \<open>calendar\<close>), the recorder, and the queries of the charts.
  \<^item> \<open>Notifier\<close>, \<open>Telegram\<close>: which alerts go out when; the bot, its calls and texts.
  \<^item> \<open>Proxy\<close>: the state of the running program that both interfaces share.
  \<^item> \<open>Controls\<close>: screens, buttons, confirmations and commands of the bot (\<open>controls.go\<close>).
  \<^item> \<open>Guard\<close>, \<open>Api\<close>, \<open>Server\<close>: the login with its guard; what a request asks for; every handler, and
    \<open>serve_request\<close>, which is the handler of \<open>New\<close> in \<open>server.go\<close>.
  \<^item> \<open>Config\<close>, \<open>Tls\<close>: the environment and the certificate.

  A struct is a record whose fields carry a prefix of their own, an enumeration a datatype, and the receiver of a
  method is the last argument of its definition, returned changed next to what the method returns.

  \<^bold>\<open>What is shown.\<close> The properties fall into these groups.

  \<^item> The relay: a submit changes nothing but the login, every share is counted once, memory of a session is bounded,
    at most the configured connections are open, and a drain closes what it should, once, unless a newer one replaces it.
  \<^item> The pools: over every sequence of operations the state stays valid and is what the snapshot shows; the first
    reachable pool is picked; a switch makes its pool active and drains the others; sessions come back when due; results
    of outdated checks are dropped; new ids are fresh, with a loop that ends.
  \<^item> Automatic modes: the farm is never left stranded on the target of a timer, stays away no longer than the budget,
    comes home after a block, and switches for profit only when it pays. \<open>Farm\<close> composes them with the manager.
  \<^item> Data: the state file and its reading back; exact sums in the hourly history; charts that agree whatever
    their step; installing a certificate that is all or nothing.
  \<^item> The interfaces: guesses of the password are bounded and locks honoured; only authenticated requests with a body declared as JSON
    change anything, refused ones nothing; replies do not depend on secrets; by the bot only confirmed taps of allowed chats
    change the farm; alerts are neither lost nor repeated; the token of the bot is not shown.

  \<^bold>\<open>Conventions and their limits.\<close>

  \<^item> Times and durations are integers of nanoseconds; \<open>time_sub\<close> saturates as \<open>Sub\<close> does. Counters are \<open>64 word\<close>, and
    differences that can wrap use \<open>wrap64\<close>. \<open>float64\<close> is \<open>real\<close>: rounding is not modelled, so sums of the history are exact
    where the program rounds.
  \<^item> Strings are lists of bytes, one \<open>char\<close> each. Marks outside ASCII in the texts of the bot have names, which
    \<open>tx_text\<close> maps to their bytes.
  \<^item> Maps are association lists. Where the order of a Go map matters, it is an argument (as \<open>order\<close> in \<open>Monitor\<close>).
  \<^item> What comes from outside is an argument: the clock, random values, hashes, the outcome of a connection, a write or
    a call, the steps other goroutines take between two locked sections. A locked section is one step.
  \<^item> Errors are values: \<open>Inl\<close> of a datatype of the component. Their English texts are replaced by the key of the message.
  \<^item> Loops that are not structural have a measure: the search for a free id ends after at most one more than
    the number of pools; \<open>reply_loop\<close> calls at most three times. The parser of JSON has fuel of twice the length of
    the text and two; the lemmas of \<open>Json\<close> show that printing then parsing gives a value back with any fuel from there on.

  \<^bold>\<open>Not modelled.\<close>

  \<^item> \<open>internal/telegram/control_texts.go\<close> and the tables of \<open>texts.go\<close>: constant sentences in two languages; the
    record \<open>texts\<close> is an argument instead. So are the sentences of the events, where only kind and data are kept.
  \<^item> The reading and writing of files itself, syncing of directories, sockets, TLS handshakes, HTTP, the generation of
    keys and the parser of URLs. \<open>Api\<close> starts where \<open>net/http\<close> has parsed path, query, cookie and media type.
  \<^item> The JSON text of replies and saved files other than the state file: replies are values of \<open>body\<close>, and saved data
    are the values written. Security headers and log lines of \<open>slog\<close> are left out.
  \<^item> Flags, signals and shutdown in \<open>main.go\<close>, the logging setup, and the web interface in \<open>web\<close>, which is static files.
  \<^item> Interleavings inside a function where no lock is released; the Go runtime and data races.
\<close>

end
